(* ===== verification/Prelude.thy ===== *)
theory Prelude
  imports Main "HOL-Library.Multiset" "HOL-Library.Word"
begin

text \<open>
  Shared material of the development: the result codes of \<^verbatim>\<open>common/maelys_errors.h\<close>,
  the collections of rewrite rules the component theories feed, and generic lemmas on lists read
  and written by index, which is how the engine uses its fixed arrays.
\<close>

section \<open>Collections\<close>

named_theorems frame_simps \<open>fields of a state record that an operation leaves alone\<close>
named_theorems bounds_intros \<open>capacity facts kept by the operations\<close>

section \<open>Result codes\<close>

datatype maelys_result =
    MAELYS_OK
  | MAELYS_ERR_INVALID_ARGUMENT
  | MAELYS_ERR_INVALID_FIELD
  | MAELYS_ERR_NOT_FOUND
  | MAELYS_ERR_NOT_IMPLEMENTED
  | MAELYS_ERR_UNSUPPORTED
  | MAELYS_ERR_TIMEOUT
  | MAELYS_ERR_IO
  | MAELYS_ERR_INTERNAL
  | MAELYS_ERR_UNAUTHORIZED
  | MAELYS_ERR_FORBIDDEN
  | MAELYS_ERR_RATE_LIMITED
  | MAELYS_ERR_PAYLOAD_TOO_LARGE
  | MAELYS_ERR_INVALID_STATE
  | MAELYS_STATUS_STORAGE_TOO_SMALL

text \<open>
  The numeric codes are \<open>0, -1, \<dots>, -13\<close> in this order; \<open>-14\<close> is the one public status without a core code, which a
  callback may hand back and the core casts as it is.
\<close>

definition result_of_code :: "int \<Rightarrow> maelys_result" where
  "result_of_code c =
     [MAELYS_OK, MAELYS_ERR_INVALID_ARGUMENT, MAELYS_ERR_INVALID_FIELD, MAELYS_ERR_NOT_FOUND,
      MAELYS_ERR_NOT_IMPLEMENTED, MAELYS_ERR_UNSUPPORTED, MAELYS_ERR_TIMEOUT, MAELYS_ERR_IO,
      MAELYS_ERR_INTERNAL, MAELYS_ERR_UNAUTHORIZED, MAELYS_ERR_FORBIDDEN, MAELYS_ERR_RATE_LIMITED,
      MAELYS_ERR_PAYLOAD_TOO_LARGE, MAELYS_ERR_INVALID_STATE, MAELYS_STATUS_STORAGE_TOO_SMALL] ! nat (- c)"

section \<open>Lists as arrays\<close>

definition swap_at :: "nat \<Rightarrow> nat \<Rightarrow> 'a list \<Rightarrow> 'a list" where
  "swap_at i j xs = xs[i := xs ! j, j := xs ! i]"

lemma length_swap_at [simp]: "length (swap_at i j xs) = length xs"
  by (simp add: swap_at_def)

lemma mset_swap_at [simp]:
  "i < length xs \<Longrightarrow> j < length xs \<Longrightarrow> mset (swap_at i j xs) = mset xs"
  by (simp add: swap_at_def mset_swap)

lemma set_swap_at [simp]:
  "i < length xs \<Longrightarrow> j < length xs \<Longrightarrow> set (swap_at i j xs) = set xs"
  by (metis mset_eq_setD mset_swap_at)

lemma nth_swap_at:
  "i < length xs \<Longrightarrow> j < length xs \<Longrightarrow> k < length xs \<Longrightarrow>
   swap_at i j xs ! k = (if k = j then xs ! i else if k = i then xs ! j else xs ! k)"
  by (simp add: swap_at_def nth_list_update)

lemma nth_list_update_if: "i < length xs \<Longrightarrow> xs[i := v] ! k = (if k = i then v else xs ! k)"
  by (simp add: nth_list_update)

text \<open>The half-open window \<open>[lo, hi)\<close> of an array.\<close>

definition segment :: "nat \<Rightarrow> nat \<Rightarrow> 'a list \<Rightarrow> 'a list" where
  "segment lo hi xs = take (hi - lo) (drop lo xs)"

lemma length_segment [simp]: "length (segment lo hi xs) = min (hi - lo) (length xs - lo)"
  by (simp add: segment_def min.commute)

lemma nth_segment [simp]:
  "lo + k < hi \<Longrightarrow> hi \<le> length xs \<Longrightarrow> segment lo hi xs ! k = xs ! (lo + k)"
  by (simp add: segment_def)

lemma segment_0 [simp]: "segment 0 hi xs = take hi xs"
  by (simp add: segment_def)

lemma segment_same [simp]: "segment lo lo xs = []"
  by (simp add: segment_def)

lemma in_set_segment:
  "hi \<le> length xs \<Longrightarrow> x \<in> set (segment lo hi xs) \<longleftrightarrow> (\<exists>k. lo \<le> k \<and> k < hi \<and> xs ! k = x)"
proof
  assume hi: "hi \<le> length xs" and x: "x \<in> set (segment lo hi xs)"
  from x obtain k where k: "k < length (segment lo hi xs)" "segment lo hi xs ! k = x"
    by (auto simp: in_set_conv_nth)
  with hi have "lo \<le> lo + k \<and> lo + k < hi \<and> xs ! (lo + k) = x" by auto
  then show "\<exists>k. lo \<le> k \<and> k < hi \<and> xs ! k = x" by blast
next
  assume hi: "hi \<le> length xs" and "\<exists>k. lo \<le> k \<and> k < hi \<and> xs ! k = x"
  then obtain k where k: "lo \<le> k" "k < hi" "xs ! k = x" by blast
  with hi have "segment lo hi xs ! (k - lo) = x" "k - lo < length (segment lo hi xs)" by auto
  then show "x \<in> set (segment lo hi xs)" by (metis nth_mem)
qed

lemma segment_append:
  assumes "lo \<le> mid" "mid \<le> hi"
  shows "segment lo mid xs @ segment mid hi xs = segment lo hi xs"
proof -
  have "hi - lo = (mid - lo) + (hi - mid)" and "drop (mid - lo) (drop lo xs) = drop mid xs"
    using assms by simp_all
  then show ?thesis by (simp only: segment_def take_add)
qed

lemma take_segment: "lo \<le> hi \<Longrightarrow> take lo xs @ segment lo hi xs = take hi xs"
  using segment_append[of 0 lo hi xs] by simp

lemma set_segment_subset: "set (segment lo hi xs) \<subseteq> set xs"
  by (auto simp: segment_def dest: in_set_takeD in_set_dropD)

end
