(* ===== verification/Core_Types.thy ===== *)
theory Core_Types
  imports Prelude
begin

text \<open>
  The data of \<^verbatim>\<open>src/core/maelys_datalog_types.h\<close>: configured bounds (the default
  \<^verbatim>\<open>SMALL\<close> profile), terms, facts, literals and rules, and the two orders the engine
  sorts by (\<^verbatim>\<open>maelys_datalog_term_cmp\<close> and \<^verbatim>\<open>maelys_datalog_fact_cmp\<close>). The prefix
  \<^verbatim>\<open>maelys_datalog_\<close> is dropped from every name.

  A tagged union is a datatype. The kind tag of a term is an unchecked integer in C, and the code
  has a branch for tags outside the enumeration; \<open>TERM_NOKIND\<close> carries those tags (0, 5, 6, \dots)
  so that every tag is represented once. A fact keeps its first \<^verbatim>\<open>arity\<close> terms as a list:
  the array slots past \<^verbatim>\<open>arity\<close> are never read.
\<close>

section \<open>Configured bounds\<close>

definition MAX_STRING_BYTES :: nat where "MAX_STRING_BYTES = 1024"
definition MAX_TOKEN_BYTES :: nat where "MAX_TOKEN_BYTES = 1024"
definition MAX_SYMBOLS :: nat where "MAX_SYMBOLS = 512"
definition SYMBOL_INDEX_BUCKETS :: nat where "SYMBOL_INDEX_BUCKETS = 1024"
definition STRING_POOL_BYTES :: nat where "STRING_POOL_BYTES = 32768"
definition MAX_PREDICATES :: nat where "MAX_PREDICATES = 128"
definition MAX_ATOMS :: nat where "MAX_ATOMS = 256"
definition MAX_ARITY :: nat where "MAX_ARITY = 4"
definition MAX_TERMS :: nat where "MAX_TERMS = 4"
definition MAX_RULES :: nat where "MAX_RULES = 128"
definition MAX_RULE_FACTS :: nat where "MAX_RULE_FACTS = 128"
definition MAX_BODY_LITERALS :: nat where "MAX_BODY_LITERALS = 8"
definition MAX_STRATA :: nat where "MAX_STRATA = 4"
definition NAMED_VARIABLE_COUNT :: nat where "NAMED_VARIABLE_COUNT = 26"
definition MAX_RULE_VARIABLES :: nat where "MAX_RULE_VARIABLES = 32"
definition MAX_EDB_FACTS :: nat where "MAX_EDB_FACTS = 1024"
definition MAX_IDB_FACTS :: nat where "MAX_IDB_FACTS = 1024"
definition MAX_FACTS_PER_PRED :: nat where "MAX_FACTS_PER_PRED = 64"
definition MAX_DEPTH :: nat where "MAX_DEPTH = 10"
definition MAX_PROOF_NODES :: nat where "MAX_PROOF_NODES = 64"
definition MAX_PROOF_DEPTH :: nat where "MAX_PROOF_DEPTH = 10"
definition MAX_FILTER_PROGRAMS :: nat where "MAX_FILTER_PROGRAMS = 128"
definition FILTER_PATTERN_POOL_BYTES :: nat where "FILTER_PATTERN_POOL_BYTES = 8192"
definition MAX_FILTER_PATTERN_BYTES :: nat where "MAX_FILTER_PATTERN_BYTES = 256"
definition MAX_FILTER_EVALUATIONS :: nat where "MAX_FILTER_EVALUATIONS = 8192"
definition MAX_FILTER_COST_UNITS :: nat where "MAX_FILTER_COST_UNITS = 1048576"
definition MAX_INT :: int where "MAX_INT = 2147483647"
definition PROOF_NO_PARENT :: nat where "PROOF_NO_PARENT = 65535"
definition MAX_EXPLANATION_PREMISES :: nat where
  "MAX_EXPLANATION_PREMISES = MAX_PROOF_NODES * MAX_BODY_LITERALS"

lemmas limit_defs =
  MAX_STRING_BYTES_def MAX_TOKEN_BYTES_def MAX_SYMBOLS_def SYMBOL_INDEX_BUCKETS_def
  STRING_POOL_BYTES_def MAX_PREDICATES_def MAX_ATOMS_def MAX_ARITY_def MAX_TERMS_def
  MAX_RULES_def MAX_RULE_FACTS_def MAX_BODY_LITERALS_def MAX_STRATA_def
  NAMED_VARIABLE_COUNT_def MAX_RULE_VARIABLES_def MAX_EDB_FACTS_def MAX_IDB_FACTS_def
  MAX_FACTS_PER_PRED_def MAX_DEPTH_def MAX_PROOF_NODES_def MAX_PROOF_DEPTH_def
  MAX_FILTER_PROGRAMS_def FILTER_PATTERN_POOL_BYTES_def MAX_FILTER_PATTERN_BYTES_def
  MAX_FILTER_EVALUATIONS_def MAX_FILTER_COST_UNITS_def MAX_INT_def PROOF_NO_PARENT_def
  MAX_EXPLANATION_PREMISES_def

section \<open>Terms and facts\<close>

datatype "term" = TERM_SYMBOL nat | TERM_INT int | TERM_BOOL int | TERM_VAR nat | TERM_NOKIND nat

fun term_kind :: "term \<Rightarrow> nat" where
  "term_kind (TERM_SYMBOL _) = 1"
| "term_kind (TERM_INT _) = 2"
| "term_kind (TERM_BOOL _) = 3"
| "term_kind (TERM_VAR _) = 4"
| "term_kind (TERM_NOKIND n) = (if n = 0 then 0 else n + 4)"

datatype fact = Fact (predicate_id: nat) (terms: "term list")

abbreviation arity :: "fact \<Rightarrow> nat" where
  "arity f \<equiv> length (terms f)"

fun is_var :: "term \<Rightarrow> bool" where
  "is_var (TERM_VAR _) = True"
| "is_var _ = False"

text \<open>\<^verbatim>\<open>datalog_term_kind_known\<close>: the tag is one of the four of the enumeration.\<close>

fun term_kind_known :: "term \<Rightarrow> bool" where
  "term_kind_known (TERM_NOKIND _) = False"
| "term_kind_known _ = True"

fun term_cmp :: "term \<Rightarrow> term \<Rightarrow> int" where
  "term_cmp (TERM_SYMBOL a) (TERM_SYMBOL b) = (if a < b then -1 else if a > b then 1 else 0)"
| "term_cmp (TERM_INT a) (TERM_INT b) = (if a < b then -1 else if a > b then 1 else 0)"
| "term_cmp (TERM_BOOL a) (TERM_BOOL b) = a - b"
| "term_cmp (TERM_VAR a) (TERM_VAR b) = (if a < b then -1 else if a > b then 1 else 0)"
| "term_cmp a b = int (term_kind a) - int (term_kind b)"

fun term_equal :: "term \<Rightarrow> term \<Rightarrow> bool" where
  "term_equal (TERM_SYMBOL a) (TERM_SYMBOL b) = (a = b)"
| "term_equal (TERM_INT a) (TERM_INT b) = (a = b)"
| "term_equal (TERM_BOOL a) (TERM_BOOL b) = (a = b)"
| "term_equal _ _ = False"

text \<open>
  The loop of \<^verbatim>\<open>maelys_datalog_fact_cmp\<close> over the terms of two facts of the same arity.
\<close>

fun terms_cmp :: "term list \<Rightarrow> term list \<Rightarrow> int" where
  "terms_cmp (x # xs) (y # ys) = (if term_cmp x y \<noteq> 0 then term_cmp x y else terms_cmp xs ys)"
| "terms_cmp _ _ = 0"

definition fact_cmp :: "fact \<Rightarrow> fact \<Rightarrow> int" where
  "fact_cmp a b =
     (if predicate_id a < predicate_id b then -1
      else if predicate_id a > predicate_id b then 1
      else if arity a < arity b then -1
      else if arity a > arity b then 1
      else terms_cmp (terms a) (terms b))"

definition fact_equals :: "fact \<Rightarrow> fact \<Rightarrow> bool" where
  "fact_equals a b = (fact_cmp a b = 0)"

section \<open>Literals and rules\<close>

datatype cmp_op = CMP_EQ | CMP_NEQ | CMP_LT | CMP_LTE | CMP_GT | CMP_GTE | CMP_OTHER nat

datatype agg_kind = AGG_COUNT | AGG_MIN | AGG_MAX | AGG_SUM

text \<open>
  \<^verbatim>\<open>maelys_datalog_literal_t\<close> is a struct whose kind says which members are meaningful.
  A comparison carries both its plain operands and, when \<^verbatim>\<open>has_arith_expr\<close> is set, the
  roots of two expressions in the rule's node array.
\<close>

datatype literal =
    LIT_ATOM fact
  | LIT_COMPARISON (cmp_lhs: "term") (cmp_operator: cmp_op) (cmp_rhs: "term")
      (has_arith_expr: bool) (lhs_expr_root: nat) (rhs_expr_root: nat)
  | LIT_NEGATED_ATOM fact
  | LIT_FILTER (filter_kind: nat) (filter_program_index: nat) (filter_value: "term")
  | LIT_AGGREGATE agg_kind fact (agg_lhs: "term") (agg_rhs: "term")
  | LIT_OTHER nat

fun literal_is_aggregate :: "literal \<Rightarrow> bool" where
  "literal_is_aggregate (LIT_AGGREGATE _ _ _ _) = True"
| "literal_is_aggregate _ = False"

datatype arith_kind = ARITH_INT_LITERAL | ARITH_VAR | ARITH_ADD | ARITH_SUB | ARITH_MUL | ARITH_OTHER nat

record arith_expr_node =
  node_kind :: arith_kind
  node_left :: nat
  node_right :: nat
  node_term :: "term"

definition ARITH_EXPR_NO_NODE :: nat where "ARITH_EXPR_NO_NODE = 255"

record rule =
  head :: fact
  body :: "literal list"
  expr_nodes :: "arith_expr_node list"
  rule_id :: nat

section \<open>Laws of the comparisons\<close>

text \<open>
  What \<^verbatim>\<open>MAELYS_DEFINE_SORT\<close> and the binary searches ask of a three-way comparison: it is
  antisymmetric in sign and transitive. A comparison that is zero only on equal values also makes
  the sorted order canonical.
\<close>

locale three_way =
  fixes cmp :: "'a \<Rightarrow> 'a \<Rightarrow> int"
  assumes cmp_flip: "cmp a b < 0 \<longleftrightarrow> cmp b a > 0"
    and cmp_trans: "cmp a b \<le> 0 \<Longrightarrow> cmp b c \<le> 0 \<Longrightarrow> cmp a c \<le> 0"
begin

lemma cmp_refl [simp]: "cmp a a = 0"
  using cmp_flip[of a a] by auto

lemma cmp_not_le: "\<not> cmp a b \<le> 0 \<longleftrightarrow> cmp b a < 0"
  using cmp_flip[of b a] by auto

lemma cmp_not_less: "\<not> cmp a b < 0 \<longleftrightarrow> cmp b a \<le> 0"
  using cmp_flip[of a b] by auto

lemma cmp_total: "cmp a b \<le> 0 \<or> cmp b a \<le> 0"
  using cmp_not_le by force

lemma cmp_less_trans: "cmp a b < 0 \<Longrightarrow> cmp b c \<le> 0 \<Longrightarrow> cmp a c < 0"
  by (metis cmp_not_le cmp_trans less_imp_le)

lemma cmp_le_less_trans: "cmp a b \<le> 0 \<Longrightarrow> cmp b c < 0 \<Longrightarrow> cmp a c < 0"
  by (metis cmp_not_le cmp_trans less_imp_le)

end

locale canonical_cmp = three_way +
  assumes cmp_zero: "cmp a b = 0 \<Longrightarrow> a = b"
begin

lemma cmp_eq_iff: "cmp a b = 0 \<longleftrightarrow> a = b"
  using cmp_zero by auto

lemma cmp_antisym: "cmp a b \<le> 0 \<Longrightarrow> cmp b a \<le> 0 \<Longrightarrow> a = b"
  using cmp_not_less[of a b] cmp_zero[of a b] by linarith

end

lemma term_cmp_zero: "term_cmp a b = 0 \<Longrightarrow> a = b"
  by (cases a; cases b) (auto split: if_splits)

lemma term_cmp_flip: "term_cmp a b < 0 \<longleftrightarrow> term_cmp b a > 0"
  by (cases a; cases b) auto

lemma term_cmp_kind: "term_kind a \<noteq> term_kind b \<Longrightarrow> term_cmp a b = int (term_kind a) - int (term_kind b)"
  by (cases a; cases b) auto

fun term_payload :: "term \<Rightarrow> int" where
  "term_payload (TERM_SYMBOL a) = int a"
| "term_payload (TERM_INT a) = a"
| "term_payload (TERM_BOOL a) = a"
| "term_payload (TERM_VAR a) = int a"
| "term_payload (TERM_NOKIND _) = 0"

lemma term_cmp_same_kind:
  "term_kind a = term_kind b \<Longrightarrow> term_cmp a b \<le> 0 \<longleftrightarrow> term_payload a \<le> term_payload b"
  by (cases a; cases b) (auto split: if_splits)

lemma term_cmp_trans:
  assumes "term_cmp a b \<le> 0" "term_cmp b c \<le> 0" shows "term_cmp a c \<le> 0"
proof (cases "term_kind a = term_kind b \<and> term_kind b = term_kind c")
  case True
  then show ?thesis using assms by (simp add: term_cmp_same_kind)
next
  case False
  have le: "term_kind a \<le> term_kind b" if "term_cmp a b \<le> 0" for a b
    using that by (cases "term_kind a = term_kind b") (auto simp: term_cmp_kind)
  have "term_kind a < term_kind c"
    using False le[OF assms(1)] le[OF assms(2)] by linarith
  then show ?thesis by (simp add: term_cmp_kind)
qed

interpretation term_order: canonical_cmp term_cmp
  by unfold_locales (fact term_cmp_flip term_cmp_trans term_cmp_zero)+

lemma terms_cmp_flip: "length xs = length ys \<Longrightarrow> terms_cmp xs ys < 0 \<longleftrightarrow> terms_cmp ys xs > 0"
  by (induction xs ys rule: list_induct2)
    (auto simp: term_order.cmp_flip term_order.cmp_eq_iff)

lemma terms_cmp_zero: "length xs = length ys \<Longrightarrow> terms_cmp xs ys = 0 \<Longrightarrow> xs = ys"
  by (induction xs ys rule: list_induct2) (auto simp: term_order.cmp_eq_iff split: if_splits)

lemma terms_cmp_trans:
  "length xs = length ys \<Longrightarrow> length ys = length zs \<Longrightarrow>
   terms_cmp xs ys \<le> 0 \<Longrightarrow> terms_cmp ys zs \<le> 0 \<Longrightarrow> terms_cmp xs zs \<le> 0"
proof (induction xs ys zs rule: list_induct3)
  case (Cons x xs y ys z zs)
  show ?case
  proof (cases "x = y \<or> y = z")
    case True
    then show ?thesis using Cons by (auto simp: term_order.cmp_eq_iff split: if_splits)
  next
    case False
    then have "term_cmp x y \<noteq> 0" "term_cmp y z \<noteq> 0"
      by (simp_all add: term_order.cmp_eq_iff)
    with Cons.prems have "term_cmp x y < 0" "term_cmp y z < 0"
      by (auto split: if_splits)
    then have "term_cmp x z < 0"
      using term_order.cmp_less_trans by (meson less_imp_le)
    then show ?thesis by simp
  qed
qed auto

interpretation fact_order: canonical_cmp fact_cmp
proof unfold_locales
  show "fact_cmp a b < 0 \<longleftrightarrow> fact_cmp b a > 0" for a b
    by (auto simp: fact_cmp_def terms_cmp_flip)
  show "fact_cmp a c \<le> 0" if "fact_cmp a b \<le> 0" "fact_cmp b c \<le> 0" for a b c
    using that terms_cmp_trans[of "terms a" "terms b" "terms c"]
    by (auto simp: fact_cmp_def split: if_splits)
  show "a = b" if "fact_cmp a b = 0" for a b
    using that by (cases a; cases b) (auto simp: fact_cmp_def terms_cmp_zero split: if_splits)
qed

lemma fact_equals_iff [simp]: "fact_equals a b \<longleftrightarrow> a = b"
  by (simp add: fact_equals_def fact_order.cmp_eq_iff)

lemma term_equal_iff: "term_equal a b \<longleftrightarrow> a = b \<and> term_kind_known a \<and> \<not> is_var a"
  by (cases a; cases b) auto

text \<open>Facts are linearly ordered by \<open>fact_cmp\<close>, so the library's sorted lists apply to them.\<close>

instantiation fact :: linorder
begin

definition less_eq_fact :: "fact \<Rightarrow> fact \<Rightarrow> bool" where
  "less_eq_fact a b \<longleftrightarrow> fact_cmp a b \<le> 0"

definition less_fact :: "fact \<Rightarrow> fact \<Rightarrow> bool" where
  "less_fact a b \<longleftrightarrow> fact_cmp a b < 0"

instance
proof
  fix a b c :: fact
  show "a < b \<longleftrightarrow> a \<le> b \<and> \<not> b \<le> a"
    by (auto simp: less_eq_fact_def less_fact_def fact_order.cmp_not_le less_imp_le)
  show "a \<le> a" by (simp add: less_eq_fact_def)
  show "a \<le> b \<Longrightarrow> b \<le> c \<Longrightarrow> a \<le> c"
    using fact_order.cmp_trans by (simp add: less_eq_fact_def)
  show "a \<le> b \<Longrightarrow> b \<le> a \<Longrightarrow> a = b"
    using fact_order.cmp_antisym by (simp add: less_eq_fact_def)
  show "a \<le> b \<or> b \<le> a"
    using fact_order.cmp_total by (simp add: less_eq_fact_def)
qed

end

lemma predicate_id_mono: "a \<le> b \<Longrightarrow> predicate_id a \<le> predicate_id b"
  by (auto simp: less_eq_fact_def fact_cmp_def split: if_splits)

end
