(* ===== verification/Introsort.thy ===== *)
theory Introsort
  imports Core_Types
begin

text \<open>
  The typed introsort of \<^verbatim>\<open>src/core/maelys_datalog_sort_internal.h\<close>. The macro
  \<^verbatim>\<open>MAELYS_DEFINE_SORT(NAME, TYPE, CMP)\<close> takes the comparison as a parameter; here it is the
  first argument of each function, and the laws it has to satisfy are the locale
  \<open>three_way\<close>. An array is a list, written by index; a pointer into an array with a length is the
  sublist it denotes. The two unguarded scans of the partition loop stop at the ends of the array
  in the model, and \<open>scan_up_bound\<close> and \<open>scan_down_bound\<close> show that with the sentinels of the
  median-of-three step they stop before.
\<close>

section \<open>Heap sort\<close>

text \<open>The loop of \<^verbatim>\<open>NAME##_sift\<close>: a hole at \<open>root\<close> moves down until the sifted element fits.\<close>

definition larger_child :: "('a \<Rightarrow> 'a \<Rightarrow> int) \<Rightarrow> 'a list \<Rightarrow> nat \<Rightarrow> nat \<Rightarrow> nat" where
  "larger_child cmp a n root =
     (let child = root * 2 + 1
      in if child + 1 < n \<and> cmp (a ! child) (a ! (child + 1)) < 0 then child + 1 else child)"

function sift_loop :: "('a \<Rightarrow> 'a \<Rightarrow> int) \<Rightarrow> 'a \<Rightarrow> nat \<Rightarrow> nat \<Rightarrow> 'a list \<Rightarrow> 'a list" where
  "sift_loop cmp v n root a =
     (if root < n div 2 then
        let child = larger_child cmp a n root
        in if cmp v (a ! child) \<ge> 0 then a[root := v]
           else sift_loop cmp v n child (a[root := a ! child])
      else a[root := v])"
  by pat_completeness auto
termination
  by (relation "measure (\<lambda>(cmp, v, n, root, a). n - root)")
    (auto simp: larger_child_def Let_def)

declare sift_loop.simps [simp del]

definition sort_sift :: "('a \<Rightarrow> 'a \<Rightarrow> int) \<Rightarrow> 'a list \<Rightarrow> nat \<Rightarrow> nat \<Rightarrow> 'a list" where
  "sort_sift cmp a root n = sift_loop cmp (a ! root) n root a"

text \<open>\<^verbatim>\<open>NAME##_heap\<close>: the first loop builds the heap, the second extracts the maxima.\<close>

fun heap_build :: "('a \<Rightarrow> 'a \<Rightarrow> int) \<Rightarrow> nat \<Rightarrow> nat \<Rightarrow> 'a list \<Rightarrow> 'a list" where
  "heap_build cmp n 0 a = a"
| "heap_build cmp n (Suc i) a = heap_build cmp n i (sort_sift cmp a i n)"

fun heap_extract :: "('a \<Rightarrow> 'a \<Rightarrow> int) \<Rightarrow> nat \<Rightarrow> 'a list \<Rightarrow> 'a list" where
  "heap_extract cmp e a =
     (if e > 1 then heap_extract cmp (e - 1) (sort_sift cmp (swap_at 0 (e - 1) a) 0 (e - 1)) else a)"

declare heap_extract.simps [simp del]

definition sort_heap :: "('a \<Rightarrow> 'a \<Rightarrow> int) \<Rightarrow> 'a list \<Rightarrow> 'a list" where
  "sort_heap cmp a = heap_extract cmp (length a) (heap_build cmp (length a) (length a div 2) a)"

section \<open>Insertion sort\<close>

function insert_loop :: "('a \<Rightarrow> 'a \<Rightarrow> int) \<Rightarrow> 'a \<Rightarrow> nat \<Rightarrow> 'a list \<Rightarrow> 'a list" where
  "insert_loop cmp v j a =
     (if j > 0 \<and> cmp v (a ! (j - 1)) < 0
      then insert_loop cmp v (j - 1) (a[j := a ! (j - 1)])
      else a[j := v])"
  by pat_completeness auto
termination
  by (relation "measure (\<lambda>(cmp, v, j, a). j)") auto

declare insert_loop.simps [simp del]

function insertion_loop :: "('a \<Rightarrow> 'a \<Rightarrow> int) \<Rightarrow> nat \<Rightarrow> 'a list \<Rightarrow> 'a list" where
  "insertion_loop cmp i a =
     (if i < length a then insertion_loop cmp (Suc i) (insert_loop cmp (a ! i) i a) else a)"
  by pat_completeness auto

lemma length_insert_loop [simp]: "length (insert_loop cmp v j a) = length a"
  by (induction cmp v j a rule: insert_loop.induct) (subst insert_loop.simps, simp)

termination insertion_loop
  by (relation "measure (\<lambda>(cmp, i, a). length a - i)") auto

declare insertion_loop.simps [simp del]

section \<open>Partitioning\<close>

function scan_up :: "('a \<Rightarrow> 'a \<Rightarrow> int) \<Rightarrow> 'a \<Rightarrow> 'a list \<Rightarrow> nat \<Rightarrow> nat" where
  "scan_up cmp pivot a lo =
     (if lo < length a \<and> cmp (a ! lo) pivot < 0 then scan_up cmp pivot a (Suc lo) else lo)"
  by pat_completeness auto
termination
  by (relation "measure (\<lambda>(cmp, pivot, a, lo). length a - lo)") auto

fun scan_down :: "('a \<Rightarrow> 'a \<Rightarrow> int) \<Rightarrow> 'a \<Rightarrow> 'a list \<Rightarrow> nat \<Rightarrow> nat" where
  "scan_down cmp pivot a 0 = 0"
| "scan_down cmp pivot a (Suc hi) =
     (if cmp (a ! Suc hi) pivot > 0 then scan_down cmp pivot a hi else Suc hi)"

declare scan_up.simps [simp del]

lemma scan_up_ge: "lo \<le> scan_up cmp pivot a lo"
proof (induction cmp pivot a lo rule: scan_up.induct)
  case (1 cmp pivot a lo)
  then show ?case by (subst scan_up.simps) (auto dest: Suc_leD)
qed

lemma scan_down_le: "scan_down cmp pivot a hi \<le> hi"
  by (induction hi) auto

function partition_loop :: "('a \<Rightarrow> 'a \<Rightarrow> int) \<Rightarrow> 'a \<Rightarrow> nat \<Rightarrow> nat \<Rightarrow> 'a list \<Rightarrow> nat \<times> 'a list" where
  "partition_loop cmp pivot lo hi a =
     (let lo' = scan_up cmp pivot a lo; hi' = scan_down cmp pivot a hi
      in if lo' \<ge> hi' then (lo', a)
         else partition_loop cmp pivot (lo' + 1) (hi' - 1) (swap_at lo' hi' a))"
  by pat_completeness auto
termination
proof (relation "measure (\<lambda>(cmp, pivot, lo, hi, a). hi - lo)")
  fix cmp and pivot :: 'a and lo hi :: nat and a lo' hi'
  assume "lo' = scan_up cmp pivot a lo" "hi' = scan_down cmp pivot a hi" "\<not> hi' \<le> lo'"
  then have "lo \<le> lo'" "hi' \<le> hi" "lo' < hi'"
    by (simp_all add: scan_up_ge scan_down_le)
  then show "((cmp, pivot, lo' + 1, hi' - 1, swap_at lo' hi' a), (cmp, pivot, lo, hi, a))
      \<in> measure (\<lambda>(cmp, pivot, lo, hi, a). hi - lo)" by simp
qed simp

declare partition_loop.simps [simp del]

definition order_pair :: "('a \<Rightarrow> 'a \<Rightarrow> int) \<Rightarrow> nat \<Rightarrow> nat \<Rightarrow> 'a list \<Rightarrow> 'a list" where
  "order_pair cmp i j a = (if cmp (a ! i) (a ! j) > 0 then swap_at i j a else a)"

definition median_of_three :: "('a \<Rightarrow> 'a \<Rightarrow> int) \<Rightarrow> 'a list \<Rightarrow> 'a list" where
  "median_of_three cmp a =
     (let n = length a; mid = n div 2
      in order_pair cmp 0 mid (order_pair cmp mid (n - 1) (order_pair cmp 0 mid a)))"

text \<open>
  \<^verbatim>\<open>NAME##_partition\<close>. Each turn of its \<^verbatim>\<open>while\<close> loop spends one unit of the depth
  budget; the two halves are then sorted on their own, the smaller one by a recursive call and the
  other by the next turn.
\<close>

fun sort_partition :: "('a \<Rightarrow> 'a \<Rightarrow> int) \<Rightarrow> nat \<Rightarrow> 'a list \<Rightarrow> 'a list" where
  "sort_partition cmp 0 a = (if length a > 16 then sort_heap cmp a else insertion_loop cmp 1 a)"
| "sort_partition cmp (Suc depth) a =
     (if length a > 16 then
        let b = median_of_three cmp a;
            (lo, c) = partition_loop cmp (b ! (length a div 2)) 0 (length a - 1) b
        in if lo < length a - lo
           then (let left = sort_partition cmp depth (take lo c)
                 in left @ sort_partition cmp depth (drop lo c))
           else (let right = sort_partition cmp depth (drop lo c)
                 in sort_partition cmp depth (take lo c) @ right)
      else insertion_loop cmp 1 a)"

section \<open>The entry point\<close>

text \<open>\<open>end\<close> of the source: one past the last position that is smaller than its predecessor.\<close>

fun last_inversion :: "('a \<Rightarrow> 'a \<Rightarrow> int) \<Rightarrow> 'a list \<Rightarrow> nat \<Rightarrow> nat" where
  "last_inversion cmp a 0 = 0"
| "last_inversion cmp a (Suc i) =
     (if i > 0 \<and> cmp (a ! (i - 1)) (a ! i) > 0 then Suc i else last_inversion cmp a i)"

fun prefix_maximum :: "('a \<Rightarrow> 'a \<Rightarrow> int) \<Rightarrow> 'a list \<Rightarrow> nat \<Rightarrow> nat" where
  "prefix_maximum cmp a 0 = 0"
| "prefix_maximum cmp a (Suc i) =
     (let m = prefix_maximum cmp a i in if i > 0 \<and> cmp (a ! m) (a ! i) < 0 then i else m)"

function lower_bound :: "('a \<Rightarrow> bool) \<Rightarrow> 'a list \<Rightarrow> nat \<Rightarrow> nat \<Rightarrow> nat" where
  "lower_bound before a low high =
     (if low < high then
        let mid = low + (high - low) div 2
        in if before (a ! mid) then lower_bound before a (mid + 1) high
           else lower_bound before a low mid
      else low)"
  by pat_completeness auto
termination
  by (relation "measure (\<lambda>(before, a, low, high). high - low)") auto

declare lower_bound.simps [simp del]

fun depth_budget :: "nat \<Rightarrow> nat" where
  "depth_budget n = (if n > 1 then 2 + depth_budget (n div 2) else 0)"

declare depth_budget.simps [simp del]

definition sort_array :: "('a \<Rightarrow> 'a \<Rightarrow> int) \<Rightarrow> 'a list \<Rightarrow> 'a list" where
  "sort_array cmp a =
     (let n = length a; e = last_inversion cmp a n
      in if e = 0 then a
         else
           let m = (if e < n
                    then lower_bound (\<lambda>x. cmp x (a ! prefix_maximum cmp a e) < 0) a e n
                    else n)
           in sort_partition cmp (depth_budget m) (take m a) @ drop m a)"

section \<open>Correctness\<close>

lemma mset_hole_move:
  assumes "i < length xs" "j < length xs" "i \<noteq> j"
  shows "mset (xs[i := xs ! j, j := v]) = mset (xs[i := v])"
proof -
  have "xs[i := xs ! j, j := v] = swap_at i j (xs[i := v])"
    using assms by (simp add: swap_at_def list_update_swap)
  then show ?thesis using assms by (metis length_list_update mset_swap_at)
qed

context three_way
begin

abbreviation le :: "'a \<Rightarrow> 'a \<Rightarrow> bool" where
  "le x y \<equiv> cmp x y \<le> 0"

text \<open>Positions \<open>lo \<le> p < q < hi\<close> are in order.\<close>

definition ordered :: "nat \<Rightarrow> nat \<Rightarrow> 'a list \<Rightarrow> bool" where
  "ordered lo hi a \<longleftrightarrow> (\<forall>p q. lo \<le> p \<longrightarrow> p < q \<longrightarrow> q < hi \<longrightarrow> le (a ! p) (a ! q))"

lemma ordered_sorted: "ordered 0 (length a) a \<longleftrightarrow> sorted_wrt le a"
  by (auto simp: ordered_def sorted_wrt_iff_nth_less)

subsection \<open>Insertion sort\<close>

lemma insert_loop_spec:
  assumes "j \<le> i" "i < length a"
    and "\<forall>p q. p < q \<longrightarrow> q \<le> i \<longrightarrow> p \<noteq> j \<longrightarrow> q \<noteq> j \<longrightarrow> le (a ! p) (a ! q)"
    and "\<forall>q. j < q \<longrightarrow> q \<le> i \<longrightarrow> le v (a ! q)"
  shows "mset (insert_loop cmp v j a) = mset (a[j := v]) \<and>
    (\<forall>k. i < k \<longrightarrow> insert_loop cmp v j a ! k = a ! k) \<and> ordered 0 (Suc i) (insert_loop cmp v j a)"
  using assms
proof (induction j arbitrary: a)
  case 0
  then have "a[0 := v] ! k = (if k = 0 then v else a ! k)" for k
    by (intro nth_list_update_if) linarith
  with 0 show ?case
    by (subst (1 2 3) insert_loop.simps) (auto simp: ordered_def)
next
  case (Suc j)
  show ?case
  proof (cases "cmp v (a ! j) < 0")
    case True
    define b where "b = a[Suc j := a ! j]"
    have step: "insert_loop cmp v (Suc j) a = insert_loop cmp v j b"
      using True by (subst insert_loop.simps) (simp add: b_def)
    have prem1: "\<forall>p q. p < q \<longrightarrow> q \<le> i \<longrightarrow> p \<noteq> j \<longrightarrow> q \<noteq> j \<longrightarrow> le (b ! p) (b ! q)"
      using Suc.prems by (auto simp: b_def nth_list_update)
    have prem2: "\<forall>q. j < q \<longrightarrow> q \<le> i \<longrightarrow> le v (b ! q)"
      using Suc.prems True by (auto simp: b_def nth_list_update)
    have "mset (b[j := v]) = mset (a[Suc j := v])"
      using Suc.prems mset_hole_move[of "Suc j" a j v] by (simp add: b_def)
    with Suc.IH[of b, OF _ _ prem1 prem2] Suc.prems(1,2) show ?thesis
      by (simp add: step b_def)
  next
    case False
    then have last: "le (a ! j) v" by (simp add: cmp_not_less)
    have "le (a ! p) v" if "p < Suc j" for p
      using that Suc.prems(1,3) last cmp_trans by (metis Suc_leD less_Suc_eq nat_neq_iff)
    with False Suc.prems show ?thesis
      by (subst (1 2 3) insert_loop.simps) (auto simp: ordered_def nth_list_update)
  qed
qed

lemma insertion_loop_spec:
  assumes "ordered 0 i a" "0 < i"
  shows "mset (insertion_loop cmp i a) = mset a \<and> sorted_wrt le (insertion_loop cmp i a)"
  using assms
proof (induction "length a - i" arbitrary: i a)
  case 0
  then show ?case
    by (subst (1 2) insertion_loop.simps) (auto simp: ordered_def sorted_wrt_iff_nth_less)
next
  case (Suc n)
  define b where "b = insert_loop cmp (a ! i) i a"
  from Suc.hyps(2) have i: "i < length a" by simp
  have "mset b = mset (a[i := a ! i]) \<and> ordered 0 (Suc i) b"
    unfolding b_def using insert_loop_spec[of i i a "a ! i"] i Suc.prems by (auto simp: ordered_def)
  moreover have "length b = length a" by (simp add: b_def)
  ultimately have "mset (insertion_loop cmp (Suc i) b) = mset b \<and>
      sorted_wrt le (insertion_loop cmp (Suc i) b)"
    using Suc.hyps by (intro Suc.hyps(1)) auto
  with i \<open>mset b = _ \<and> _\<close> show ?case
    by (subst (1 2) insertion_loop.simps) (simp add: b_def)
qed

lemma insertion_sort_spec:
  "mset (insertion_loop cmp 1 a) = mset a \<and> sorted_wrt le (insertion_loop cmp 1 a)"
  by (rule insertion_loop_spec) (auto simp: ordered_def)

subsection \<open>Heap sort\<close>

text \<open>
  \<open>heap_from lo n a\<close>: every parent at or above \<open>lo\<close> dominates its children below \<open>n\<close>.
\<close>

definition heap_from :: "nat \<Rightarrow> nat \<Rightarrow> 'a list \<Rightarrow> bool" where
  "heap_from lo n a \<longleftrightarrow>
     (\<forall>p c. lo \<le> p \<longrightarrow> c < n \<longrightarrow> c = 2 * p + 1 \<or> c = 2 * p + 2 \<longrightarrow> le (a ! c) (a ! p))"

text \<open>The same except at the hole \<open>r\<close>, whose parent dominates its children instead.\<close>

definition heap_hole :: "nat \<Rightarrow> nat \<Rightarrow> nat \<Rightarrow> 'a list \<Rightarrow> bool" where
  "heap_hole lo n r a \<longleftrightarrow>
     (\<forall>p c. lo \<le> p \<longrightarrow> c < n \<longrightarrow> p \<noteq> r \<longrightarrow> c = 2 * p + 1 \<or> c = 2 * p + 2 \<longrightarrow> le (a ! c) (a ! p)) \<and>
     (\<forall>p c. lo \<le> p \<longrightarrow> c < n \<longrightarrow> r = 2 * p + 1 \<or> r = 2 * p + 2 \<longrightarrow>
        c = 2 * r + 1 \<or> c = 2 * r + 2 \<longrightarrow> le (a ! c) (a ! p))"

lemma larger_child_cases:
  assumes "root < n div 2" "n \<le> length a"
  shows "larger_child cmp a n root < n" "root < larger_child cmp a n root"
    "larger_child cmp a n root = 2 * root + 1 \<or> larger_child cmp a n root = 2 * root + 2"
    "\<forall>c. c < n \<longrightarrow> c = 2 * root + 1 \<or> c = 2 * root + 2 \<longrightarrow> le (a ! c) (a ! larger_child cmp a n root)"
proof -
  show "larger_child cmp a n root < n" "root < larger_child cmp a n root"
    "larger_child cmp a n root = 2 * root + 1 \<or> larger_child cmp a n root = 2 * root + 2"
    using assms by (auto simp: larger_child_def Let_def)
  show "\<forall>c. c < n \<longrightarrow> c = 2 * root + 1 \<or> c = 2 * root + 2 \<longrightarrow> le (a ! c) (a ! larger_child cmp a n root)"
    using assms cmp_not_less by (auto simp: larger_child_def Let_def mult.commute)
qed

lemma sift_loop_spec:
  assumes "root < n" "n \<le> length a" "heap_hole lo n root (a[root := v])"
  shows "mset (sift_loop cmp v n root a) = mset (a[root := v]) \<and>
    (\<forall>k. n \<le> k \<longrightarrow> sift_loop cmp v n root a ! k = a ! k) \<and> heap_from lo n (sift_loop cmp v n root a)"
  using assms
proof (induction "n - root" arbitrary: root a rule: less_induct)
  case less
  define ch where "ch = larger_child cmp a n root"
  show ?case
  proof (cases "root < n div 2 \<and> \<not> cmp v (a ! ch) \<ge> 0")
    case True
    note ch = larger_child_cases[of root n a, folded ch_def]
    define b where "b = a[root := a ! ch]"
    have step: "sift_loop cmp v n root a = sift_loop cmp v n ch b"
      using True by (subst sift_loop.simps) (simp add: Let_def ch_def b_def)
    have lens: "ch < n" "root < ch" "n \<le> length b"
      using ch less.prems True by (auto simp: b_def)
    have hole: "heap_hole lo n ch (b[ch := v])"
    proof -
      have dom: "le (a ! c) (a ! ch)" if "c < n" "c = 2 * root + 1 \<or> c = 2 * root + 2" for c
        using ch(4) less.prems True that by blast
      have old: "le (a[root := v] ! c) (a[root := v] ! p)"
        if "lo \<le> p" "c < n" "p \<noteq> root" "c = 2 * p + 1 \<or> c = 2 * p + 2" for p c
        using less.prems(3) that unfolding heap_hole_def by blast
      have up: "le (a[root := v] ! c) (a[root := v] ! p)"
        if "lo \<le> p" "c < n" "root = 2 * p + 1 \<or> root = 2 * p + 2"
          "c = 2 * root + 1 \<or> c = 2 * root + 2" for p c
        using less.prems(3) that unfolding heap_hole_def by blast
      have vch: "le v (a ! ch)" using True by simp
      have val: "b[ch := v] ! k = (if k = ch then v else if k = root then a ! ch else a ! k)"
        if "k < n" for k using that less.prems lens by (auto simp: b_def nth_list_update)
      have child: "ch = 2 * root + 1 \<or> ch = 2 * root + 2"
        using ch(3) less.prems True by blast
      show ?thesis unfolding heap_hole_def
      proof (intro conjI allI impI)
        fix p c assume h: "lo \<le> p" "c < n" "p \<noteq> ch" "c = 2 * p + 1 \<or> c = 2 * p + 2"
        then have pn: "p < n" "p \<noteq> c" by auto
        show "le (b[ch := v] ! c) (b[ch := v] ! p)"
        proof (cases "p = root")
          case True
          then show ?thesis using h pn vch dom lens
            unfolding val[OF h(2)] val[OF pn(1)] by auto
        next
          case False
          have "le (a[root := v] ! c) (a[root := v] ! p)" using old h False by blast
          moreover have "c \<noteq> ch" using False h child by auto
          moreover have "le (a ! ch) (a ! p)" if "c = root"
          proof -
            have "le (a[root := v] ! ch) (a[root := v] ! p)"
              using up[of p ch] h child that lens by blast
            then show ?thesis using False lens less.prems by (simp add: nth_list_update)
          qed
          ultimately show ?thesis using h pn False less.prems
            unfolding val[OF h(2)] val[OF pn(1)] by (auto simp: nth_list_update)
        qed
      next
        fix p c assume h: "lo \<le> p" "c < n" "ch = 2 * p + 1 \<or> ch = 2 * p + 2"
          "c = 2 * ch + 1 \<or> c = 2 * ch + 2"
        then have p: "p = root" "c \<noteq> ch" "c \<noteq> root" "p < n" using child lens by auto
        have "lo \<le> ch" using h p lens by simp
        then have "le (a[root := v] ! c) (a[root := v] ! ch)" using old h lens by blast
        then show "le (b[ch := v] ! c) (b[ch := v] ! p)"
          using h p lens less.prems
          unfolding val[OF h(2)] val[OF p(4)] by (auto simp: nth_list_update)
      qed
    qed
    have "mset (b[ch := v]) = mset (a[root := v])"
      using mset_hole_move[of root a ch v] lens less.prems by (simp add: b_def)
    moreover have "n - ch < n - root" using lens less.prems by simp
    ultimately show ?thesis
      using less.hyps[of ch b, OF _ lens(1,3) hole] less.prems by (simp add: step b_def)
  next
    case False
    then have stop: "sift_loop cmp v n root a = a[root := v]"
      by (subst sift_loop.simps) (auto simp: Let_def ch_def)
    have "le (a ! c) v" if "c < n" "c = 2 * root + 1 \<or> c = 2 * root + 2" for c
    proof -
      have r: "root < n div 2" using that by auto
      then have "le (a ! ch) v" using False cmp_not_less[of v "a ! ch"] by auto
      then show ?thesis using larger_child_cases(4)[OF r less.prems(2)] that cmp_trans
        unfolding ch_def by blast
    qed
    with less.prems have "heap_from lo n (a[root := v])"
      unfolding heap_from_def heap_hole_def by (auto simp: nth_list_update)
    with less.prems show ?thesis by (simp add: stop)
  qed
qed

lemma sort_sift_spec:
  assumes "root < n" "n \<le> length a" "heap_from (Suc root) n a"
  shows "mset (sort_sift cmp a root n) = mset a \<and>
    (\<forall>k. n \<le> k \<longrightarrow> sort_sift cmp a root n ! k = a ! k) \<and> heap_from root n (sort_sift cmp a root n)"
proof -
  have "heap_hole root n root (a[root := a ! root])"
    using assms by (auto simp: heap_hole_def heap_from_def)
  from sift_loop_spec[OF assms(1,2) this] show ?thesis by (simp add: sort_sift_def)
qed

lemma heap_build_spec:
  assumes "heap_from i n a" "n = length a" "i \<le> n"
  shows "mset (heap_build cmp n i a) = mset a \<and> heap_from 0 n (heap_build cmp n i a)"
  using assms
proof (induction i arbitrary: a)
  case (Suc i)
  then have "mset (sort_sift cmp a i n) = mset a \<and> heap_from i n (sort_sift cmp a i n)"
    using sort_sift_spec[of i n a] by auto
  with Suc show ?case by (metis Suc_leD heap_build.simps(2) mset_eq_length)
qed simp

lemma heap_root_max:
  assumes "heap_from 0 n a" "k < n" shows "le (a ! k) (a ! 0)"
  using assms(2)
proof (induction k rule: less_induct)
  case (less k)
  show ?case
  proof (cases "k = 0")
    case False
    define p where "p = (k - 1) div 2"
    have p: "p < k" "k = 2 * p + 1 \<or> k = 2 * p + 2" using False by (auto simp: p_def)
    then have "le (a ! k) (a ! p)" using assms(1) less.prems by (auto simp: heap_from_def)
    moreover have "le (a ! p) (a ! 0)" using less p by simp
    ultimately show ?thesis by (rule cmp_trans)
  qed simp
qed

lemma heap_extract_spec:
  assumes "heap_from 0 e a" "e \<le> length a" "ordered e (length a) a"
    and "\<forall>p q. p < e \<longrightarrow> e \<le> q \<longrightarrow> q < length a \<longrightarrow> le (a ! p) (a ! q)"
  shows "mset (heap_extract cmp e a) = mset a \<and> sorted_wrt le (heap_extract cmp e a)"
  using assms
proof (induction e arbitrary: a)
  case 0
  then show ?case by (subst (1 2) heap_extract.simps) (simp add: ordered_sorted)
next
  case (Suc e)
  show ?case
  proof (cases "e = 0")
    case True
    with Suc.prems have "ordered 0 (length a) a"
      unfolding ordered_def by (metis One_nat_def Suc_leI less_Suc0 not_gr_zero)
    with True show ?thesis by (subst (1 2) heap_extract.simps) (simp add: ordered_sorted)
  next
    case False
    define b where "b = swap_at 0 e a"
    define c where "c = sort_sift cmp b 0 e"
    have lens: "e < length a" "0 < length a" using Suc.prems by auto
    have bval: "b ! k = (if k = e then a ! 0 else if k = 0 then a ! e else a ! k)"
      if "k < length a" for k using that lens by (simp add: b_def nth_swap_at)
    have "heap_from (Suc 0) e b" unfolding heap_from_def
    proof (intro allI impI)
      fix p k assume h: "Suc 0 \<le> p" "k < e" "k = 2 * p + 1 \<or> k = 2 * p + 2"
      then have "le (a ! k) (a ! p)"
        using Suc.prems(1) unfolding heap_from_def by (metis le0 less_SucI)
      moreover have "b ! k = a ! k" "b ! p = a ! p" using h lens by (auto simp: bval)
      ultimately show "le (b ! k) (b ! p)" by simp
    qed
    then have sift: "mset c = mset b" "\<forall>k. e \<le> k \<longrightarrow> c ! k = b ! k" "heap_from 0 e c"
      using sort_sift_spec[of 0 e b] False lens by (auto simp: c_def b_def)
    have mb: "mset b = mset a" using lens by (simp add: b_def)
    have lc: "length c = length a" using sift(1) mb by (metis mset_eq_length)
    have above: "le (c ! p) (c ! q)" if "p < e" "e \<le> q" "q < length c" for p q
    proof -
      have "c ! p \<in> set (take e c)" using that lens lc by (auto simp: in_set_conv_nth intro!: exI[of _ p])
      also have "set (take e c) = set (take e b)"
      proof -
        have "drop e c = drop e b" using sift(2) lc lens by (intro nth_equalityI) (auto simp: b_def)
        then have "mset (take e c) = mset (take e b)"
          using sift(1) by (metis add_right_cancel append_take_drop_id mset_append)
        then show ?thesis by (rule mset_eq_setD)
      qed
      finally obtain r where r: "r < e" "c ! p = b ! r"
        using lens by (auto simp: in_set_conv_nth b_def)
      have "le (b ! r) (b ! q)"
      proof (cases "q = e")
        case True
        have "le (b ! r) (a ! 0)" using heap_root_max[OF Suc.prems(1)] r lens by (auto simp: bval)
        then show ?thesis using True lens by (simp add: bval)
      next
        case False
        then show ?thesis using Suc.prems(4) that r lens lc by (auto simp: bval)
      qed
      then show ?thesis using r sift(2) that by simp
    qed
    have "ordered e (length c) c" unfolding ordered_def
    proof (intro allI impI)
      fix p q assume h: "e \<le> p" "p < q" "q < length c"
      have "le (b ! p) (b ! q)"
        using Suc.prems(3,4) h lc lens by (cases "p = e") (auto simp: bval ordered_def)
      then show "le (c ! p) (c ! q)" using sift(2) h by simp
    qed
    with Suc.IH[of c] sift above lens lc mb
    have "mset (heap_extract cmp e c) = mset a \<and> sorted_wrt le (heap_extract cmp e c)" by auto
    moreover have "heap_extract cmp (Suc e) a = heap_extract cmp e c"
      using False by (subst heap_extract.simps) (simp add: b_def c_def)
    ultimately show ?thesis by simp
  qed
qed

lemma sort_heap_spec: "mset (sort_heap cmp a) = mset a \<and> sorted_wrt le (sort_heap cmp a)"
proof -
  have "heap_from (length a div 2) (length a) a" by (auto simp: heap_from_def)
  then have built: "mset (heap_build cmp (length a) (length a div 2) a) = mset a \<and>
      heap_from 0 (length a) (heap_build cmp (length a) (length a div 2) a)"
    by (rule heap_build_spec) auto
  then have "length (heap_build cmp (length a) (length a div 2) a) = length a"
    by (metis mset_eq_length)
  with built show ?thesis
    using heap_extract_spec[of "length a" "heap_build cmp (length a) (length a div 2) a"]
    by (auto simp: sort_heap_def ordered_def)
qed

subsection \<open>Partitioning\<close>

lemma scan_up_spec:
  assumes "\<exists>k. lo \<le> k \<and> k < length a \<and> cmp (a ! k) p \<ge> 0"
  shows "scan_up cmp p a lo < length a \<and> cmp (a ! scan_up cmp p a lo) p \<ge> 0 \<and>
    (\<forall>k. lo \<le> k \<longrightarrow> k < scan_up cmp p a lo \<longrightarrow> cmp (a ! k) p < 0) \<and>
    (\<forall>k. lo \<le> k \<longrightarrow> k < length a \<longrightarrow> cmp (a ! k) p \<ge> 0 \<longrightarrow> scan_up cmp p a lo \<le> k)"
  using assms
proof (induction "length a - lo" arbitrary: lo)
  case 0
  then show ?case by auto
next
  case (Suc n)
  show ?case
  proof (cases "lo < length a \<and> cmp (a ! lo) p < 0")
    case True
    have step: "scan_up cmp p a lo = scan_up cmp p a (Suc lo)"
      using True by (subst scan_up.simps) simp
    have "\<exists>k. Suc lo \<le> k \<and> k < length a \<and> cmp (a ! k) p \<ge> 0"
      using Suc.prems True by (metis Suc_leI le_neq_implies_less linorder_not_le)
    with Suc.hyps have IH: "scan_up cmp p a (Suc lo) < length a \<and> cmp (a ! scan_up cmp p a (Suc lo)) p \<ge> 0 \<and>
      (\<forall>k. Suc lo \<le> k \<longrightarrow> k < scan_up cmp p a (Suc lo) \<longrightarrow> cmp (a ! k) p < 0) \<and>
      (\<forall>k. Suc lo \<le> k \<longrightarrow> k < length a \<longrightarrow> cmp (a ! k) p \<ge> 0 \<longrightarrow> scan_up cmp p a (Suc lo) \<le> k)"
      by (intro Suc.hyps(1)) auto
    then show ?thesis using True unfolding step
      by (metis Suc_leI le_neq_implies_less linorder_not_le)
  next
    case False
    then have "scan_up cmp p a lo = lo" by (subst scan_up.simps) auto
    with False Suc.prems show ?thesis by auto
  qed
qed

lemma scan_down_spec:
  assumes "\<exists>k. k \<le> hi \<and> cmp (a ! k) p \<le> 0"
  shows "cmp (a ! scan_down cmp p a hi) p \<le> 0 \<and>
    (\<forall>k. scan_down cmp p a hi < k \<longrightarrow> k \<le> hi \<longrightarrow> cmp (a ! k) p > 0) \<and>
    (\<forall>k. k \<le> hi \<longrightarrow> cmp (a ! k) p \<le> 0 \<longrightarrow> k \<le> scan_down cmp p a hi)"
  using assms
proof (induction hi)
  case (Suc hi)
  show ?case
  proof (cases "cmp (a ! Suc hi) p > 0")
    case True
    then have "\<exists>k. k \<le> hi \<and> cmp (a ! k) p \<le> 0"
      using Suc.prems by (metis le_SucE linorder_not_less)
    with Suc.IH True show ?thesis by (auto simp: le_Suc_eq)
  qed auto
qed auto

text \<open>
  The invariant of the partition loop: what is left of \<open>lo\<close> is at most the pivot, what is right of
  \<open>hi\<close> is at least the pivot, and each scan has a sentinel ahead of it.
\<close>

definition part_inv :: "'a \<Rightarrow> nat \<Rightarrow> nat \<Rightarrow> 'a list \<Rightarrow> bool" where
  "part_inv p lo hi a \<longleftrightarrow>
     hi < length a \<and>
     (\<forall>k. k < lo \<longrightarrow> le (a ! k) p) \<and> (\<forall>k. hi < k \<longrightarrow> k < length a \<longrightarrow> le p (a ! k)) \<and>
     (\<exists>k. lo \<le> k \<and> k < length a \<and> cmp (a ! k) p \<ge> 0) \<and> (\<exists>k. k \<le> hi \<and> cmp (a ! k) p \<le> 0)"

lemma scan_up_bound: "part_inv p lo hi a \<Longrightarrow> scan_up cmp p a lo < length a"
  using scan_up_spec by (simp add: part_inv_def)

lemma scan_down_bound: "part_inv p lo hi a \<Longrightarrow> cmp (a ! scan_down cmp p a hi) p \<le> 0"
  using scan_down_spec by (simp add: part_inv_def)

lemma part_inv_step:
  assumes inv: "part_inv p lo hi a"
    and lo': "lo' = scan_up cmp p a lo" and hi': "hi' = scan_down cmp p a hi" and lt: "lo' < hi'"
  shows "part_inv p (lo' + 1) (hi' - 1) (swap_at lo' hi' a)"
proof -
  note up = scan_up_spec[of lo a p, folded lo'] and down = scan_down_spec[of hi a p, folded hi']
  from inv have pre: "hi < length a" "\<exists>k. lo \<le> k \<and> k < length a \<and> cmp (a ! k) p \<ge> 0"
    "\<exists>k. k \<le> hi \<and> cmp (a ! k) p \<le> 0" by (auto simp: part_inv_def)
  have bounds: "lo' < length a" "hi' < length a" "hi' \<le> hi"
    using up pre lt scan_down_le[of cmp p a hi] hi' by auto
  have val: "swap_at lo' hi' a ! k = (if k = hi' then a ! lo' else if k = lo' then a ! hi' else a ! k)"
    if "k < length a" for k using that bounds by (simp add: nth_swap_at)
  have flip: "cmp x y \<ge> 0 \<Longrightarrow> le y x" for x y using cmp_not_less[of x y] by simp
  have left: "le (a ! k) p" if "k < lo'" for k
    using that inv up pre by (cases "k < lo") (auto simp: part_inv_def less_imp_le)
  have right: "le p (a ! k)" if "hi' < k" "k < length a" for k
    using that inv down pre flip by (cases "k \<le> hi") (auto simp: part_inv_def)
  show ?thesis unfolding part_inv_def
  proof (intro conjI allI impI)
    show "hi' - 1 < length (swap_at lo' hi' a)" using bounds by simp
    fix k assume "k < lo' + 1"
    then show "le (swap_at lo' hi' a ! k) p"
      using left down pre lt bounds by (cases "k = lo'") (auto simp: val)
  next
    fix k assume "hi' - 1 < k" "k < length (swap_at lo' hi' a)"
    then show "le p (swap_at lo' hi' a ! k)"
      using right up pre lt bounds flip by (cases "k = hi'") (auto simp: val)
  next
    show "\<exists>k. lo' + 1 \<le> k \<and> k < length (swap_at lo' hi' a) \<and> cmp (swap_at lo' hi' a ! k) p \<ge> 0"
      using up pre lt bounds by (intro exI[of _ hi']) (auto simp: val)
    show "\<exists>k. k \<le> hi' - 1 \<and> cmp (swap_at lo' hi' a ! k) p \<le> 0"
      using down pre lt bounds by (intro exI[of _ lo']) (auto simp: val)
  qed
qed

lemma partition_loop_spec:
  assumes "part_inv p lo hi a" "partition_loop cmp p lo hi a = (r, b)"
  shows "mset b = mset a \<and> r < length a \<and> lo \<le> r \<and>
    (\<forall>k. k < r \<longrightarrow> le (b ! k) p) \<and> (\<forall>k. r \<le> k \<longrightarrow> k < length b \<longrightarrow> le p (b ! k))"
  using assms
proof (induction cmp\<equiv>cmp p\<equiv>p lo hi a arbitrary: r b rule: partition_loop.induct)
  case (1 lo hi a)
  define lo' where "lo' = scan_up cmp p a lo"
  define hi' where "hi' = scan_down cmp p a hi"
  have flip: "cmp x y \<ge> 0 \<Longrightarrow> le y x" for x y using cmp_not_less[of x y] by simp
  from 1(2) have pre: "hi < length a" "\<exists>k. lo \<le> k \<and> k < length a \<and> cmp (a ! k) p \<ge> 0"
    "\<exists>k. k \<le> hi \<and> cmp (a ! k) p \<le> 0" by (auto simp: part_inv_def)
  note up = scan_up_spec[OF pre(2), folded lo'_def] and down = scan_down_spec[OF pre(3), folded hi'_def]
  show ?case
  proof (cases "lo' \<ge> hi'")
    case True
    then have rb: "r = lo'" "b = a"
      using 1(3) by (subst (asm) partition_loop.simps; simp add: Let_def lo'_def hi'_def)+
    have "le (a ! k) p" if "k < lo'" for k
      using that 1(2) up by (cases "k < lo") (auto simp: part_inv_def less_imp_le)
    moreover have "le p (a ! k)" if "lo' \<le> k" "k < length a" for k
    proof (cases "k = lo'")
      case True
      then show ?thesis using up flip by simp
    next
      case False
      then show ?thesis using that True 1(2) down
        by (cases "k \<le> hi") (auto simp: part_inv_def cmp_flip less_imp_le)
    qed
    ultimately show ?thesis using up rb scan_up_ge[of lo cmp p a] by (simp add: lo'_def)
  next
    case False
    then have rec: "partition_loop cmp p (lo' + 1) (hi' - 1) (swap_at lo' hi' a) = (r, b)"
      using 1(3) by (subst (asm) partition_loop.simps) (simp add: Let_def lo'_def hi'_def)
    have inv: "part_inv p (lo' + 1) (hi' - 1) (swap_at lo' hi' a)"
      using part_inv_step[OF 1(2) lo'_def hi'_def] False by simp
    have "hi' < length a" using down pre scan_down_le[of cmp p a hi] by (simp add: hi'_def)
    moreover have "lo \<le> lo'" by (simp add: lo'_def scan_up_ge)
    ultimately show ?thesis
      using 1(1)[OF lo'_def hi'_def False inv rec] up by auto
  qed
qed

lemma order_pair_spec:
  assumes "i < length a" "j < length a"
  shows "mset (order_pair cmp i j a) = mset a" "length (order_pair cmp i j a) = length a"
    "le (order_pair cmp i j a ! i) (order_pair cmp i j a ! j)"
proof -
  show "mset (order_pair cmp i j a) = mset a" "length (order_pair cmp i j a) = length a"
    using assms by (simp_all add: order_pair_def)
  show "le (order_pair cmp i j a ! i) (order_pair cmp i j a ! j)"
    using assms cmp_flip[of "a ! j" "a ! i"] by (auto simp: order_pair_def nth_swap_at)
qed

lemma median_of_three_spec:
  assumes n: "2 < length a"
  shows "mset (median_of_three cmp a) = mset a"
    "part_inv (median_of_three cmp a ! (length a div 2)) 0 (length a - 1) (median_of_three cmp a)"
    "le (median_of_three cmp a ! 0) (median_of_three cmp a ! (length a div 2))"
proof -
  let ?m = "length a div 2"
  define b where "b = order_pair cmp ?m (length a - 1) (order_pair cmp 0 ?m a)"
  have lens: "0 < length a" "?m < length a" "length a - 1 < length a" using n by auto
  have b: "length b = length a" "mset b = mset a"
    unfolding b_def using lens by (simp_all add: order_pair_spec)
  have med: "median_of_three cmp a = order_pair cmp 0 ?m b"
    by (simp add: median_of_three_def Let_def b_def)
  show ms: "mset (median_of_three cmp a) = mset a"
    using lens b by (simp add: med order_pair_spec)
  show le0: "le (median_of_three cmp a ! 0) (median_of_three cmp a ! ?m)"
    using lens b order_pair_spec(3)[of 0 b ?m] by (simp add: med)
  have "length (median_of_three cmp a) = length a" using ms by (metis mset_eq_length)
  with lens show "part_inv (median_of_three cmp a ! ?m) 0 (length a - 1) (median_of_three cmp a)"
    unfolding part_inv_def by (auto intro: exI[of _ ?m])
qed

text \<open>The split point is never at an end, so both halves are proper.\<close>

lemma partition_split:
  assumes n: "16 < length a" and b: "b = median_of_three cmp a"
    and r: "partition_loop cmp (b ! (length a div 2)) 0 (length a - 1) b = (r, c)"
  shows "mset c = mset a" "0 < r" "r < length a"
    "\<forall>x\<in>set (take r c). \<forall>y\<in>set (drop r c). le x y"
proof -
  let ?p = "b ! (length a div 2)"
  have med: "mset b = mset a" "part_inv ?p 0 (length a - 1) b" "le (b ! 0) ?p"
    using median_of_three_spec[of a] n b by auto
  have lb: "length b = length a" using med(1) by (metis mset_eq_length)
  note res = partition_loop_spec[OF med(2) r]
  show "mset c = mset a" "r < length a" using res med lb by auto
  have lc: "length c = length a" using res med(1) by (metis mset_eq_length)
  show "\<forall>x\<in>set (take r c). \<forall>y\<in>set (drop r c). le x y"
  proof (intro ballI)
    fix x y assume "x \<in> set (take r c)" "y \<in> set (drop r c)"
    then obtain k l where "k < r" "c ! k = x" "r \<le> l" "l < length c" "c ! l = y"
      by (auto simp: in_set_conv_nth) (metis add.commute le_add1 less_diff_conv)
    then show "le x y" using res cmp_trans by blast
  qed
  let ?lo = "scan_up cmp ?p b 0" and ?hi = "scan_down cmp ?p b (length a - 1)"
  show "0 < r"
  proof (cases "?lo \<ge> ?hi")
    case True
    then have "r = ?lo" using r by (subst (asm) partition_loop.simps) (auto simp: Let_def)
    moreover have "length a div 2 \<le> ?hi"
    proof -
      have "length a div 2 \<le> length a - 1" "cmp (b ! (length a div 2)) ?p \<le> 0" using n by auto
      then show ?thesis using scan_down_spec[of "length a - 1" b ?p] by blast
    qed
    ultimately show ?thesis using True n by linarith
  next
    case False
    then have "partition_loop cmp ?p (?lo + 1) (?hi - 1) (swap_at ?lo ?hi b) = (r, c)"
      using r by (subst (asm) partition_loop.simps) (simp add: Let_def)
    moreover have "part_inv ?p (?lo + 1) (?hi - 1) (swap_at ?lo ?hi b)"
      using part_inv_step[OF med(2) refl refl] False by simp
    ultimately have "?lo + 1 \<le> r" using partition_loop_spec by blast
    then show ?thesis by simp
  qed
qed

lemma sorted_halves:
  assumes "mset l = mset (take r c)" "sorted_wrt le l" "mset u = mset (drop r c)" "sorted_wrt le u"
    and "\<forall>x\<in>set (take r c). \<forall>y\<in>set (drop r c). le x y"
  shows "mset (l @ u) = mset c \<and> sorted_wrt le (l @ u)"
proof
  show "mset (l @ u) = mset c" using assms(1,3) by (metis append_take_drop_id mset_append)
  show "sorted_wrt le (l @ u)"
    using assms mset_eq_setD[OF assms(1)] mset_eq_setD[OF assms(3)] by (auto simp: sorted_wrt_append)
qed

lemma sort_partition_spec:
  "mset (sort_partition cmp d a) = mset a \<and> sorted_wrt le (sort_partition cmp d a)"
proof (induction d arbitrary: a)
  case 0
  then show ?case using sort_heap_spec insertion_sort_spec by simp
next
  case (Suc d)
  show ?case
  proof (cases "16 < length a")
    case True
    obtain r c where rc: "partition_loop cmp (median_of_three cmp a ! (length a div 2)) 0 (length a - 1)
        (median_of_three cmp a) = (r, c)" by (cases "partition_loop cmp (median_of_three cmp a !
          (length a div 2)) 0 (length a - 1) (median_of_three cmp a)")
    note split = partition_split[OF True refl rc]
    have "sort_partition cmp (Suc d) a = sort_partition cmp d (take r c) @ sort_partition cmp d (drop r c)"
      using True rc by (simp add: Let_def)
    moreover have "mset (sort_partition cmp d (take r c) @ sort_partition cmp d (drop r c)) = mset c \<and>
        sorted_wrt le (sort_partition cmp d (take r c) @ sort_partition cmp d (drop r c))"
      using Suc.IH split(4) by (intro sorted_halves) auto
    ultimately show ?thesis using split(1) by simp
  next
    case False
    then show ?thesis using insertion_sort_spec by simp
  qed
qed

subsection \<open>The trimmed suffix and the whole sort\<close>

lemma last_inversion_spec:
  assumes "n \<le> length a"
  shows "last_inversion cmp a n \<le> n \<and>
    (\<forall>i. 0 < i \<longrightarrow> last_inversion cmp a n \<le> i \<longrightarrow> i < n \<longrightarrow> le (a ! (i - 1)) (a ! i))"
  using assms
proof (induction n)
  case (Suc n)
  show ?case
  proof (cases "n > 0 \<and> cmp (a ! (n - 1)) (a ! n) > 0")
    case False
    with Suc show ?thesis by (auto simp: less_Suc_eq)
  qed auto
qed auto

lemma adjacent_ordered:
  assumes "\<forall>i. 0 < i \<longrightarrow> lo \<le> i \<longrightarrow> i < hi \<longrightarrow> le (a ! (i - 1)) (a ! i)"
  shows "ordered (lo - 1) hi a"
  unfolding ordered_def
proof (intro allI impI)
  fix p q assume h: "lo - 1 \<le> p" "p < q" "q < hi"
  from h(2,3) show "le (a ! p) (a ! q)"
  proof (induction q)
    case (Suc q)
    have "le (a ! q) (a ! Suc q)"
      using assms[rule_format, of "Suc q"] Suc.prems h(1) by simp
    then show ?case using Suc cmp_trans by (cases "p = q") auto
  qed simp
qed

lemma prefix_maximum_spec:
  assumes "0 < e" "e \<le> length a"
  shows "prefix_maximum cmp a e < e \<and> (\<forall>k<e. le (a ! k) (a ! prefix_maximum cmp a e))"
  using assms
proof (induction e)
  case (Suc e)
  show ?case
  proof (cases "e = 0")
    case False
    then have IH: "prefix_maximum cmp a e < e" "\<forall>k<e. le (a ! k) (a ! prefix_maximum cmp a e)"
      using Suc by auto
    show ?thesis
    proof (cases "cmp (a ! prefix_maximum cmp a e) (a ! e) < 0")
      case True
      then have "le (a ! k) (a ! e)" if "k < e" for k
        using IH that cmp_trans by (meson less_imp_le)
      then show ?thesis using True False by (auto simp: Let_def less_Suc_eq)
    next
      case False
      then show ?thesis using IH cmp_not_less by (auto simp: Let_def less_Suc_eq)
    qed
  qed (auto simp: Let_def)
qed simp

end

text \<open>
  The binary searches of the code look for the first position at which a monotone predicate stops
  holding.
\<close>

lemma lower_bound_spec:
  assumes "low \<le> high" "high \<le> length a"
    and "\<And>p q. low \<le> p \<Longrightarrow> p < q \<Longrightarrow> q < high \<Longrightarrow> before (a ! q) \<Longrightarrow> before (a ! p)"
  shows "low \<le> lower_bound before a low high \<and> lower_bound before a low high \<le> high \<and>
    (\<forall>k. low \<le> k \<longrightarrow> k < lower_bound before a low high \<longrightarrow> before (a ! k)) \<and>
    (\<forall>k. lower_bound before a low high \<le> k \<longrightarrow> k < high \<longrightarrow> \<not> before (a ! k))"
  using assms
proof (induction before a low high rule: lower_bound.induct)
  case (1 before a low high)
  let ?mid = "low + (high - low) div 2"
  show ?case
  proof (cases "low < high")
    case True
    then have mid: "low \<le> ?mid" "?mid < high" by auto
    show ?thesis
    proof (cases "before (a ! ?mid)")
      case b: True
      have step: "lower_bound before a low high = lower_bound before a (?mid + 1) high"
        using True b by (subst lower_bound.simps) (simp add: Let_def)
      have IH: "?mid + 1 \<le> lower_bound before a (?mid + 1) high \<and> lower_bound before a (?mid + 1) high \<le> high \<and>
        (\<forall>k. ?mid + 1 \<le> k \<longrightarrow> k < lower_bound before a (?mid + 1) high \<longrightarrow> before (a ! k)) \<and>
        (\<forall>k. lower_bound before a (?mid + 1) high \<le> k \<longrightarrow> k < high \<longrightarrow> \<not> before (a ! k))"
        using "1.IH"(1)[OF True refl b] "1.prems" mid by auto
      have "before (a ! k)" if "low \<le> k" "k \<le> ?mid" for k
        using that b mid "1.prems"(3)[of k ?mid] by (cases "k = ?mid") auto
      then have "before (a ! k)" if "low \<le> k" "k < lower_bound before a (?mid + 1) high" for k
        using that IH by (cases "k \<le> ?mid") auto
      moreover have "low \<le> lower_bound before a (?mid + 1) high" using IH mid by linarith
      ultimately show ?thesis using IH unfolding step by blast
    next
      case b: False
      have step: "lower_bound before a low high = lower_bound before a low ?mid"
        using True b by (subst lower_bound.simps) (simp add: Let_def)
      have IH: "low \<le> lower_bound before a low ?mid \<and> lower_bound before a low ?mid \<le> ?mid \<and>
        (\<forall>k. low \<le> k \<longrightarrow> k < lower_bound before a low ?mid \<longrightarrow> before (a ! k)) \<and>
        (\<forall>k. lower_bound before a low ?mid \<le> k \<longrightarrow> k < ?mid \<longrightarrow> \<not> before (a ! k))"
        using "1.IH"(2)[OF True refl b] "1.prems" mid by auto
      have "\<not> before (a ! k)" if "?mid \<le> k" "k < high" for k
        using that b mid "1.prems"(3)[of ?mid k] by (cases "k = ?mid") auto
      then have "\<not> before (a ! k)" if "lower_bound before a low ?mid \<le> k" "k < high" for k
        using that IH by (cases "k < ?mid") auto
      moreover have "lower_bound before a low ?mid \<le> high" using IH mid by linarith
      ultimately show ?thesis using IH unfolding step by blast
    qed
  next
    case False
    then show ?thesis using "1.prems" by (subst (1 2 3 4) lower_bound.simps) auto
  qed
qed

context three_way
begin

theorem sort_array_spec:
  "mset (sort_array cmp a) = mset a \<and> sorted_wrt le (sort_array cmp a)"
proof -
  define e where "e = last_inversion cmp a (length a)"
  have e: "e \<le> length a" "\<forall>i. 0 < i \<longrightarrow> e \<le> i \<longrightarrow> i < length a \<longrightarrow> le (a ! (i - 1)) (a ! i)"
    using last_inversion_spec[of "length a" a] by (auto simp: e_def)
  then have tail: "ordered (e - 1) (length a) a" by (intro adjacent_ordered)
  show ?thesis
  proof (cases "e = 0")
    case True
    then show ?thesis using tail by (simp add: sort_array_def Let_def e_def ordered_sorted)
  next
    case False
    define x where "x = a ! prefix_maximum cmp a e"
    define m where "m = (if e < length a then lower_bound (\<lambda>y. cmp y x < 0) a e (length a) else length a)"
    have eq: "sort_array cmp a = sort_partition cmp (depth_budget m) (take m a) @ drop m a"
      using False by (simp add: sort_array_def Let_def e_def x_def m_def)
    have mono: "cmp (a ! p) x < 0" if "e \<le> p" "p < q" "q < length a" "cmp (a ! q) x < 0" for p q
      using that tail cmp_le_less_trans[of "a ! p" "a ! q" x] by (auto simp: ordered_def)
    have m: "e \<le> m" "m \<le> length a"
      and inside: "\<And>k. e \<le> k \<Longrightarrow> k < m \<Longrightarrow> m < length a \<Longrightarrow> cmp (a ! k) x < 0"
      and outside: "\<And>k. m \<le> k \<Longrightarrow> k < length a \<Longrightarrow> \<not> cmp (a ! k) x < 0"
      using lower_bound_spec[of e "length a" a "\<lambda>y. cmp y x < 0"] mono e(1)
      by (auto simp: m_def split: if_splits)
    have max: "\<forall>k<e. le (a ! k) x"
      using prefix_maximum_spec[of e a] False e by (simp add: x_def)
    have "le u w" if u: "u \<in> set (take m a)" and w: "w \<in> set (drop m a)" for u w
    proof -
      from u obtain k where k: "k < m" "k < length a" "a ! k = u" by (auto simp: in_set_conv_nth)
      from w obtain l where l: "m \<le> l" "l < length a" "a ! l = w"
        by (auto simp: in_set_conv_nth) (metis add.commute le_add1 less_diff_conv)
      have "le u x" using k l max inside[of k] by (cases "k < e") auto
      moreover have "le x w" using outside[of l] l cmp_not_less by auto
      ultimately show ?thesis by (rule cmp_trans)
    qed
    moreover have "sorted_wrt le (drop m a)"
      using tail m False unfolding sorted_wrt_iff_nth_less ordered_def by auto
    ultimately show ?thesis
      unfolding eq using sort_partition_spec by (intro sorted_halves) auto
  qed
qed

end

end
