(* ===== verification/Fact_Set.thy ===== *)
theory Fact_Set
  imports Introsort
begin

text \<open>
  Bounded fact sets (\<^verbatim>\<open>maelys_datalog_fact_set_t\<close> and the \<^verbatim>\<open>maelys_datalog_fact_set_*\<close>
  operations of \<^verbatim>\<open>src/core/maelys_datalog_edb.c\<close>). \<open>set_facts\<close> holds the first
  \<^verbatim>\<open>count\<close> cells of the caller's array, so \<^verbatim>\<open>count\<close> is its length. An operation that returns
  a code and writes through its argument is a function to the code and the new value. The checks
  for \<^verbatim>\<open>NULL\<close> arguments have no counterpart: a value is always there.
\<close>

record fact_set =
  set_facts :: "fact list"
  set_capacity :: nat
  set_sorted :: bool

abbreviation set_count :: "fact_set \<Rightarrow> nat" where
  "set_count s \<equiv> length (set_facts s)"

definition fact_set_init :: "nat \<Rightarrow> fact_set" where
  "fact_set_init capacity = \<lparr>set_facts = [], set_capacity = capacity, set_sorted = True\<rparr>"

definition sort_facts :: "fact list \<Rightarrow> fact list" where
  "sort_facts = sort_array fact_cmp"

definition fact_set_sort :: "fact_set \<Rightarrow> maelys_result \<times> fact_set" where
  "fact_set_sort s =
     (if set_count s > set_capacity s then (MAELYS_ERR_INVALID_ARGUMENT, s)
      else
        let s' = (if set_count s > 1 \<and> \<not> set_sorted s
                  then s\<lparr>set_facts := sort_facts (set_facts s)\<rparr> else s)
        in (MAELYS_OK, s'\<lparr>set_sorted := True\<rparr>))"

text \<open>The compaction loop: \<open>kept\<close> is the cell \<^verbatim>\<open>facts[out - 1]\<close>.\<close>

fun dedup_loop :: "fact \<Rightarrow> fact list \<Rightarrow> fact list" where
  "dedup_loop kept [] = []"
| "dedup_loop kept (f # fs) =
     (if fact_cmp kept f = 0 then dedup_loop kept fs else f # dedup_loop f fs)"

definition fact_set_dedup :: "fact_set \<Rightarrow> maelys_result \<times> fact_set" where
  "fact_set_dedup s =
     (if \<not> set_sorted s then (MAELYS_ERR_INVALID_ARGUMENT, s)
      else case set_facts s of
        f # g # fs \<Rightarrow> (MAELYS_OK, s\<lparr>set_facts := f # dedup_loop f (g # fs)\<rparr>)
      | _ \<Rightarrow> (MAELYS_OK, s))"

definition fact_set_contains :: "fact_set \<Rightarrow> fact \<Rightarrow> bool" where
  "fact_set_contains s f =
     (if \<not> set_sorted s then list_ex (\<lambda>g. fact_equals g f) (set_facts s)
      else
        let lo = lower_bound (\<lambda>g. fact_cmp g f < 0) (set_facts s) 0 (set_count s)
        in lo < set_count s \<and> fact_cmp (set_facts s ! lo) f = 0)"

definition fact_set_predicate_range :: "fact_set \<Rightarrow> nat \<Rightarrow> maelys_result \<times> nat \<times> nat" where
  "fact_set_predicate_range s pid =
     (if \<not> set_sorted s then (MAELYS_ERR_INVALID_ARGUMENT, 0, 0)
      else
        let range_begin = lower_bound (\<lambda>g. predicate_id g < pid) (set_facts s) 0 (set_count s);
            range_end = lower_bound (\<lambda>g. predicate_id g \<le> pid) (set_facts s) range_begin (set_count s)
        in (MAELYS_OK, range_begin, range_end))"

text \<open>
  The merge loop. \<open>out\<close> is the filled part of the merge buffer, \<open>per_pred\<close> the counters, the two
  lists what is left of the inputs; the three capacity checks come in the order of the source.
\<close>

definition merge_push ::
  "nat \<Rightarrow> fact \<Rightarrow> fact list \<Rightarrow> (nat \<Rightarrow> nat) \<Rightarrow> maelys_result + (fact list \<times> (nat \<Rightarrow> nat))" where
  "merge_push cap src out per_pred =
     (if predicate_id src \<ge> MAX_PREDICATES then Inl MAELYS_ERR_INVALID_FIELD
      else if length out \<ge> cap \<or> length out \<ge> MAX_IDB_FACTS then Inl MAELYS_ERR_PAYLOAD_TOO_LARGE
      else if per_pred (predicate_id src) \<ge> MAX_FACTS_PER_PRED then Inl MAELYS_ERR_PAYLOAD_TOO_LARGE
      else Inr (out @ [src], per_pred(predicate_id src := per_pred (predicate_id src) + 1)))"

fun merge_loop ::
  "nat \<Rightarrow> fact list \<Rightarrow> fact list \<Rightarrow> fact list \<Rightarrow> (nat \<Rightarrow> nat) \<Rightarrow> nat
     \<Rightarrow> maelys_result + (fact list \<times> nat)" where
  "merge_loop cap [] [] out pp ins = Inr (out, ins)"
| "merge_loop cap [] (d # ds) out pp ins =
     (case merge_push cap d out pp of Inl e \<Rightarrow> Inl e
      | Inr (out', pp') \<Rightarrow> merge_loop cap [] ds out' pp' (ins + 1))"
| "merge_loop cap (c # cs) [] out pp ins =
     (case merge_push cap c out pp of Inl e \<Rightarrow> Inl e
      | Inr (out', pp') \<Rightarrow> merge_loop cap cs [] out' pp' ins)"
| "merge_loop cap (c # cs) (d # ds) out pp ins =
     (if fact_cmp c d = 0 then
        (case merge_push cap c out pp of Inl e \<Rightarrow> Inl e
         | Inr (out', pp') \<Rightarrow> merge_loop cap cs ds out' pp' ins)
      else if fact_cmp c d < 0 then
        (case merge_push cap c out pp of Inl e \<Rightarrow> Inl e
         | Inr (out', pp') \<Rightarrow> merge_loop cap cs (d # ds) out' pp' ins)
      else
        (case merge_push cap d out pp of Inl e \<Rightarrow> Inl e
         | Inr (out', pp') \<Rightarrow> merge_loop cap (c # cs) ds out' pp' (ins + 1)))"

definition fact_set_merge_delta ::
  "fact_set \<Rightarrow> fact_set \<Rightarrow> nat \<Rightarrow> maelys_result \<times> fact_set \<times> nat option" where
  "fact_set_merge_delta current delta merge_capacity =
     (if \<not> set_sorted current \<or> \<not> set_sorted delta
      then (MAELYS_ERR_INVALID_ARGUMENT, current, None)
      else case merge_loop merge_capacity (set_facts current) (set_facts delta) [] (\<lambda>_. 0) 0 of
        Inl e \<Rightarrow> (e, current, None)
      | Inr (out, ins) \<Rightarrow>
          (MAELYS_OK, current\<lparr>set_facts := out, set_sorted := True\<rparr>, Some ins))"

section \<open>Sorting and removing duplicates\<close>

lemma sort_facts_eq_sort: "sort_facts fs = sort fs"
proof -
  have "mset (sort_facts fs) = mset fs \<and> sorted_wrt (\<lambda>a b. fact_cmp a b \<le> 0) (sort_facts fs)"
    unfolding sort_facts_def by (rule fact_order.sort_array_spec)
  then have "mset (sort_facts fs) = mset fs" "sorted (sort_facts fs)"
    by (simp_all add: less_eq_fact_def[abs_def])
  then show ?thesis by (metis properties_for_sort)
qed

lemma fact_cmp_zero_iff [simp]: "fact_cmp a b = 0 \<longleftrightarrow> a = b"
  by (rule fact_order.cmp_eq_iff)

lemma set_dedup_loop: "insert kept (set (dedup_loop kept fs)) = insert kept (set fs)"
proof (induction fs arbitrary: kept)
  case (Cons f fs)
  from Cons.IH[of f] Cons.IH[of kept] show ?case by (cases "kept = f") auto
qed simp

lemma dedup_loop_sorted:
  "sorted (kept # fs) \<Longrightarrow> sorted_wrt (<) (kept # dedup_loop kept fs)"
proof (induction fs arbitrary: kept)
  case (Cons f fs)
  show ?case
  proof (cases "kept = f")
    case True
    then show ?thesis using Cons by simp
  next
    case False
    then have lt: "kept < f" using Cons.prems by auto
    have "sorted_wrt (<) (f # dedup_loop f fs)" using Cons by simp
    then show ?thesis using False lt by (auto intro: less_trans)
  qed
qed simp

text \<open>The sets in the code are finite sets of facts; the canonical array of one is its sorted list.\<close>

lemma strict_sorted_canonical: "sorted_wrt (<) xs \<Longrightarrow> xs = sorted_list_of_set (set xs)"
  by (simp add: strict_sorted_equal)

lemma dedup_canonical:
  "sorted (f # fs) \<Longrightarrow> f # dedup_loop f fs = sorted_list_of_set (insert f (set fs))"
  using strict_sorted_canonical[OF dedup_loop_sorted[of f fs]] set_dedup_loop[of f fs] by simp

lemma fact_set_dedup_spec:
  assumes "set_sorted s" "sorted (set_facts s)"
  shows "fact_set_dedup s = (MAELYS_OK, s\<lparr>set_facts := sorted_list_of_set (set (set_facts s))\<rparr>)"
proof (cases "set_facts s")
  case Nil
  then show ?thesis using assms by (simp add: fact_set_dedup_def)
next
  case (Cons f fs)
  show ?thesis
  proof (cases fs)
    case Nil
    then have "s\<lparr>set_facts := [f]\<rparr> = s" using Cons by simp
    then show ?thesis using Cons Nil assms by (simp add: fact_set_dedup_def)
  next
    case (Cons g gs)
    then show ?thesis
      using \<open>set_facts s = f # fs\<close> assms dedup_canonical[of f fs] by (simp add: fact_set_dedup_def)
  qed
qed

lemma fact_set_sort_spec:
  assumes "set_count s \<le> set_capacity s" "set_sorted s \<Longrightarrow> sorted (set_facts s)"
  shows "fact_set_sort s = (MAELYS_OK, s\<lparr>set_facts := sort (set_facts s), set_sorted := True\<rparr>)"
proof -
  have "sort (set_facts s) = set_facts s" if "set_sorted s \<or> set_count s \<le> 1"
    using that assms(2) by (intro sorted_sort_id) (auto intro: sorted01)
  then show ?thesis using assms(1) by (auto simp: fact_set_sort_def sort_facts_eq_sort Let_def)
qed

section \<open>Membership and ranges\<close>

lemma sorted_nth_le: "sorted xs \<Longrightarrow> p \<le> q \<Longrightarrow> q < length xs \<Longrightarrow> xs ! p \<le> (xs ! q :: fact)"
  by (rule sorted_nth_mono)

lemma binary_search_member:
  assumes "sorted xs"
  shows "(let lo = lower_bound (\<lambda>g. fact_cmp g f < 0) xs 0 (length xs)
          in lo < length xs \<and> fact_cmp (xs ! lo) f = 0) \<longleftrightarrow> f \<in> set xs"
proof -
  define lo where "lo = lower_bound (\<lambda>g. fact_cmp g f < 0) xs 0 (length xs)"
  have lo: "lo \<le> length xs" "\<forall>k<lo. xs ! k < f" "\<forall>k. lo \<le> k \<longrightarrow> k < length xs \<longrightarrow> \<not> xs ! k < f"
  proof -
    have mono: "fact_cmp (xs ! p) f < 0" if "0 \<le> p" "p < q" "q < length xs" "fact_cmp (xs ! q) f < 0" for p q
      using that sorted_nth_le[OF assms, of p q] fact_order.cmp_le_less_trans
      by (simp add: less_eq_fact_def)
    show "lo \<le> length xs" "\<forall>k<lo. xs ! k < f" "\<forall>k. lo \<le> k \<longrightarrow> k < length xs \<longrightarrow> \<not> xs ! k < f"
      using lower_bound_spec[of 0 "length xs" xs "\<lambda>g. fact_cmp g f < 0", OF le0 order_refl mono]
      unfolding lo_def less_fact_def by auto
  qed
  have "lo < length xs \<and> xs ! lo = f" if "f \<in> set xs"
  proof -
    from that obtain k where k: "k < length xs" "xs ! k = f" by (auto simp: in_set_conv_nth)
    have "lo \<le> k" using lo(2) k by (metis less_irrefl linorder_not_le)
    then show ?thesis using lo k sorted_nth_le[OF assms, of lo k]
      by (metis le_less_trans order_antisym_conv linorder_not_less order_refl)
  qed
  then show ?thesis by (auto simp: lo_def[symmetric] Let_def)
qed

lemma fact_set_contains_spec:
  assumes "set_sorted s \<Longrightarrow> sorted (set_facts s)"
  shows "fact_set_contains s f \<longleftrightarrow> f \<in> set (set_facts s)"
  using binary_search_member[of "set_facts s" f] assms
  by (auto simp: fact_set_contains_def list_ex_iff)

lemma predicate_range_spec:
  assumes "set_sorted s" "sorted (set_facts s)"
    and "fact_set_predicate_range s pid = (rc, b, e)"
  shows "rc = MAELYS_OK" "b \<le> e" "e \<le> set_count s"
    "k < set_count s \<Longrightarrow> predicate_id (set_facts s ! k) = pid \<longleftrightarrow> b \<le> k \<and> k < e"
proof -
  let ?xs = "set_facts s"
  have mono: "predicate_id (?xs ! p) \<le> predicate_id (?xs ! q)" if "p < q" "q < length ?xs" for p q
    using that sorted_nth_le[OF assms(2), of p q] by (simp add: predicate_id_mono)
  have be: "rc = MAELYS_OK" "b = lower_bound (\<lambda>g. predicate_id g < pid) ?xs 0 (length ?xs)"
    "e = lower_bound (\<lambda>g. predicate_id g \<le> pid) ?xs b (length ?xs)"
    using assms by (auto simp: fact_set_predicate_range_def Let_def)
  have b: "b \<le> length ?xs" "\<forall>k<b. predicate_id (?xs ! k) < pid"
    "\<forall>k. b \<le> k \<longrightarrow> k < length ?xs \<longrightarrow> \<not> predicate_id (?xs ! k) < pid"
    using lower_bound_spec[of 0 "length ?xs" ?xs "\<lambda>g. predicate_id g < pid", OF le0 order_refl le_less_trans[OF mono]]
    unfolding be(2) by auto
  have e: "b \<le> e" "e \<le> length ?xs" "\<forall>k. b \<le> k \<longrightarrow> k < e \<longrightarrow> predicate_id (?xs ! k) \<le> pid"
    "\<forall>k. e \<le> k \<longrightarrow> k < length ?xs \<longrightarrow> \<not> predicate_id (?xs ! k) \<le> pid"
    using lower_bound_spec[of b "length ?xs" ?xs "\<lambda>g. predicate_id g \<le> pid", OF b(1) order_refl order_trans[OF mono]]
    unfolding be(3) by auto
  show "rc = MAELYS_OK" "b \<le> e" "e \<le> set_count s" using be e by auto
  show "predicate_id (?xs ! k) = pid \<longleftrightarrow> b \<le> k \<and> k < e" if "k < set_count s"
  proof
    assume eq: "predicate_id (?xs ! k) = pid"
    then have "\<not> k < b" "\<not> e \<le> k" using b(2) e(4) that by auto
    then show "b \<le> k \<and> k < e" by simp
  next
    assume "b \<le> k \<and> k < e"
    then show "predicate_id (?xs ! k) = pid" using b(3) e(3) that by (metis le_antisym linorder_not_less)
  qed
qed

section \<open>Merging a delta\<close>

definition pred_count :: "nat \<Rightarrow> fact list \<Rightarrow> nat" where
  "pred_count pid fs = length (filter (\<lambda>f. predicate_id f = pid) fs)"

lemma pred_count_simps [simp]:
  "pred_count pid [] = 0"
  "pred_count pid (f # fs) = (if predicate_id f = pid then 1 else 0) + pred_count pid fs"
  "pred_count pid (fs @ gs) = pred_count pid fs + pred_count pid gs"
  by (simp_all add: pred_count_def)

text \<open>The union of two strictly sorted arrays, without the capacity checks.\<close>

fun merge_union :: "fact list \<Rightarrow> fact list \<Rightarrow> fact list" where
  "merge_union [] ds = ds"
| "merge_union cs [] = cs"
| "merge_union (c # cs) (d # ds) =
     (if c = d then c # merge_union cs ds
      else if c < d then c # merge_union cs (d # ds)
      else d # merge_union (c # cs) ds)"

definition within_limits :: "nat \<Rightarrow> fact list \<Rightarrow> bool" where
  "within_limits cap fs \<longleftrightarrow>
     length fs \<le> cap \<and> length fs \<le> MAX_IDB_FACTS \<and>
     (\<forall>pid. pred_count pid fs \<le> MAX_FACTS_PER_PRED) \<and> (\<forall>f\<in>set fs. predicate_id f < MAX_PREDICATES)"

lemma within_limits_appendD: "within_limits cap (fs @ gs) \<Longrightarrow> within_limits cap fs"
  unfolding within_limits_def by (auto dest: le_trans[OF le_add1] intro: le_trans[OF le_add1])

lemma merge_push_spec:
  assumes "within_limits cap out" "pp = (\<lambda>pid. pred_count pid out)"
  shows "within_limits cap (out @ [f]) \<Longrightarrow>
      merge_push cap f out pp = Inr (out @ [f], (\<lambda>pid. pred_count pid (out @ [f])))"
    and "\<not> within_limits cap (out @ [f]) \<Longrightarrow> \<exists>e. merge_push cap f out pp = Inl e \<and>
      (e = MAELYS_ERR_INVALID_FIELD \<or> e = MAELYS_ERR_PAYLOAD_TOO_LARGE)"
proof -
  assume "within_limits cap (out @ [f])"
  moreover from this have "pred_count (predicate_id f) (out @ [f]) \<le> MAX_FACTS_PER_PRED"
    by (simp only: within_limits_def)
  ultimately show "merge_push cap f out pp = Inr (out @ [f], (\<lambda>pid. pred_count pid (out @ [f])))"
    using assms(2) by (auto simp: within_limits_def merge_push_def fun_eq_iff)
next
  assume neg: "\<not> within_limits cap (out @ [f])"
  have "within_limits cap (out @ [f])" if "merge_push cap f out pp = Inr x" for x
  proof -
    from that have "predicate_id f < MAX_PREDICATES" "length out < cap" "length out < MAX_IDB_FACTS"
      "pred_count (predicate_id f) out < MAX_FACTS_PER_PRED"
      using assms(2) by (auto simp: merge_push_def split: if_splits)
    with assms(1) show ?thesis by (simp add: within_limits_def)
  qed
  with neg obtain e where e: "merge_push cap f out pp = Inl e"
    by (cases "merge_push cap f out pp") auto
  then have "e = MAELYS_ERR_INVALID_FIELD \<or> e = MAELYS_ERR_PAYLOAD_TOO_LARGE"
    by (auto simp: merge_push_def split: if_splits)
  with e show "\<exists>e. merge_push cap f out pp = Inl e \<and>
      (e = MAELYS_ERR_INVALID_FIELD \<or> e = MAELYS_ERR_PAYLOAD_TOO_LARGE)" by blast
qed

text \<open>
  The loop succeeds exactly when the union keeps within the three limits, and then returns it.
\<close>

definition merge_result :: "nat \<Rightarrow> fact list \<Rightarrow> nat \<Rightarrow> maelys_result + (fact list \<times> nat) \<Rightarrow> bool" where
  "merge_result cap res n r \<longleftrightarrow>
     (if within_limits cap res then r = Inr (res, n)
      else \<exists>e. r = Inl e \<and> (e = MAELYS_ERR_INVALID_FIELD \<or> e = MAELYS_ERR_PAYLOAD_TOO_LARGE))"

lemma merge_result_push:
  assumes "within_limits cap out" "pp = (\<lambda>pid. pred_count pid out)"
    and "within_limits cap (out @ [f]) \<Longrightarrow>
      merge_result cap (out @ f # rest) n (k (out @ [f]) (\<lambda>pid. pred_count pid (out @ [f])))"
  shows "merge_result cap (out @ f # rest) n
    (case merge_push cap f out pp of Inl e \<Rightarrow> Inl e | Inr (out', pp') \<Rightarrow> k out' pp')"
proof (cases "within_limits cap (out @ [f])")
  case True
  then show ?thesis using assms merge_push_spec(1)[OF assms(1,2)] by simp
next
  case False
  then have "\<not> within_limits cap (out @ f # rest)"
    using within_limits_appendD[of cap "out @ [f]" rest] by auto
  then show ?thesis using merge_push_spec(2)[OF assms(1,2) False] by (auto simp: merge_result_def)
qed

fun merge_new :: "fact list \<Rightarrow> fact list \<Rightarrow> nat" where
  "merge_new [] ds = length ds"
| "merge_new cs [] = 0"
| "merge_new (c # cs) (d # ds) =
     (if c = d then merge_new cs ds
      else if c < d then merge_new cs (d # ds)
      else 1 + merge_new (c # cs) ds)"

lemma merge_loop_spec:
  assumes "within_limits cap out" "pp = (\<lambda>pid. pred_count pid out)"
  shows "merge_result cap (out @ merge_union cs ds) (ins + merge_new cs ds) (merge_loop cap cs ds out pp ins)"
  using assms
proof (induction cap cs ds out pp ins rule: merge_loop.induct)
  case (1 cap out pp ins)
  then show ?case by (simp add: merge_result_def)
next
  case (2 cap d ds out pp ins)
  have "merge_result cap (out @ d # ds) (ins + merge_new [] (d # ds)) (merge_loop cap [] (d # ds) out pp ins)"
    unfolding merge_loop.simps
  proof (rule merge_result_push[OF 2(2,3)])
    assume w: "within_limits cap (out @ [d])"
    from 2(1)[OF merge_push_spec(1)[OF 2(2,3) w] refl w refl]
    show "merge_result cap (out @ d # ds) (ins + merge_new [] (d # ds))
      (merge_loop cap [] ds (out @ [d]) (\<lambda>pid. pred_count pid (out @ [d])) (ins + 1))" by simp
  qed
  then show ?case by simp
next
  case (3 cap c cs out pp ins)
  have "merge_result cap (out @ c # cs) ins (merge_loop cap (c # cs) [] out pp ins)"
    unfolding merge_loop.simps
  proof (rule merge_result_push[OF 3(2,3)])
    assume w: "within_limits cap (out @ [c])"
    from 3(1)[OF merge_push_spec(1)[OF 3(2,3) w] refl w refl]
    show "merge_result cap (out @ c # cs) ins
      (merge_loop cap cs [] (out @ [c]) (\<lambda>pid. pred_count pid (out @ [c])) ins)"
      by (cases cs) simp_all
  qed
  then show ?case by simp
next
  case (4 cap c cs d ds out pp ins)
  consider "c = d" | "c < d" | "d < c" by (metis linorder_neqE)
  then show ?case
  proof cases
    case 1
    have "merge_result cap (out @ c # merge_union cs ds) (ins + merge_new cs ds)
        (case merge_push cap c out pp of Inl e \<Rightarrow> Inl e | Inr (out', pp') \<Rightarrow> merge_loop cap cs ds out' pp' ins)"
    proof (rule merge_result_push[OF 4(4,5)])
      assume w: "within_limits cap (out @ [c])"
      from 4(1)[OF _ merge_push_spec(1)[OF 4(4,5) w] refl w refl] 1
      show "merge_result cap (out @ c # merge_union cs ds) (ins + merge_new cs ds)
        (merge_loop cap cs ds (out @ [c]) (\<lambda>pid. pred_count pid (out @ [c])) ins)" by simp
    qed
    with 1 show ?thesis by simp
  next
    case 2
    then have "c \<noteq> d" by simp
    have "merge_result cap (out @ c # merge_union cs (d # ds)) (ins + merge_new cs (d # ds))
        (case merge_push cap c out pp of Inl e \<Rightarrow> Inl e | Inr (out', pp') \<Rightarrow> merge_loop cap cs (d # ds) out' pp' ins)"
    proof (rule merge_result_push[OF 4(4,5)])
      assume w: "within_limits cap (out @ [c])"
      from 4(2)[OF _ _ merge_push_spec(1)[OF 4(4,5) w] refl w refl] 2 \<open>c \<noteq> d\<close>
      show "merge_result cap (out @ c # merge_union cs (d # ds)) (ins + merge_new cs (d # ds))
        (merge_loop cap cs (d # ds) (out @ [c]) (\<lambda>pid. pred_count pid (out @ [c])) ins)"
        by (simp add: less_fact_def)
    qed
    with 2 \<open>c \<noteq> d\<close> show ?thesis by (simp add: less_fact_def)
  next
    case 3
    then have not_less: "\<not> fact_cmp c d < 0" "c \<noteq> d" "\<not> c < d"
      by (auto simp flip: less_fact_def)
    have "merge_result cap (out @ d # merge_union (c # cs) ds) (ins + 1 + merge_new (c # cs) ds)
        (case merge_push cap d out pp of Inl e \<Rightarrow> Inl e | Inr (out', pp') \<Rightarrow> merge_loop cap (c # cs) ds out' pp' (ins + 1))"
    proof (rule merge_result_push[OF 4(4,5)])
      assume w: "within_limits cap (out @ [d])"
      from 4(3)[OF _ _ merge_push_spec(1)[OF 4(4,5) w] refl w refl] not_less
      show "merge_result cap (out @ d # merge_union (c # cs) ds) (ins + 1 + merge_new (c # cs) ds)
        (merge_loop cap (c # cs) ds (out @ [d]) (\<lambda>pid. pred_count pid (out @ [d])) (ins + 1))" by simp
    qed
    with not_less show ?thesis by simp
  qed
qed

lemma set_merge_union [simp]: "set (merge_union cs ds) = set cs \<union> set ds"
  by (induction cs ds rule: merge_union.induct) auto

lemma sorted_merge_union:
  "sorted_wrt (<) cs \<Longrightarrow> sorted_wrt (<) ds \<Longrightarrow> sorted_wrt (<) (merge_union cs ds)"
  by (induction cs ds rule: merge_union.induct) (auto intro: less_trans)

lemma merge_union_canonical:
  "sorted_wrt (<) cs \<Longrightarrow> sorted_wrt (<) ds \<Longrightarrow> merge_union cs ds = sorted_list_of_set (set cs \<union> set ds)"
  using strict_sorted_canonical[OF sorted_merge_union] by simp

lemma merge_new_card:
  "sorted_wrt (<) cs \<Longrightarrow> sorted_wrt (<) ds \<Longrightarrow> merge_new cs ds = card (set ds - set cs)"
proof (induction cs ds rule: merge_new.induct)
  case (1 ds)
  then show ?case by (simp add: distinct_card strict_sorted_iff)
next
  case (2 c cs)
  then show ?case by simp
next
  case (3 c cs d ds)
  consider "c = d" | "c < d" | "d < c" by (metis linorder_neqE)
  then show ?case
  proof cases
    case 1
    then have "set (d # ds) - set (c # cs) = set ds - set cs" using 3 by auto
    then show ?thesis using 1 3 by simp
  next
    case 2
    then have "set (d # ds) - set (c # cs) = set (d # ds) - set cs" using 3 by auto
    then show ?thesis using 2 3 by simp
  next
    case 3
    then have "d \<notin> set (c # cs)" "d \<notin> set ds" using "3.prems" by auto
    then have "card (set (d # ds) - set (c # cs)) = Suc (card (set ds - set (c # cs)))"
      by (simp add: insert_Diff_if)
    then show ?thesis using 3 "3.IH" "3.prems" by auto
  qed
qed

section \<open>Properties\<close>

text \<open>
  (C32) The introsort of \<^verbatim>\<open>maelys_datalog_sort_internal.h\<close>, instantiated with the fact order, is a
  correct sort: whatever path it takes (already ordered input, trimmed suffix, insertion sort,
  median-of-three partitioning, heap sort after the depth budget), the array it leaves is the
  sorted permutation of its input.
\<close>

theorem sort_facts_correct:
  "sort_facts fs = sort fs \<and> mset (sort_facts fs) = mset fs \<and> sorted (sort_facts fs)"
  by (simp add: sort_facts_eq_sort)

text \<open>
  The same sort with the term order (\<^verbatim>\<open>sort_count_values\<close>) orders the projected values of an
  aggregate and keeps their multiplicities.
\<close>

theorem sort_terms_correct:
  "mset (sort_array term_cmp ts) = mset ts \<and>
   (\<forall>i j. i < j \<longrightarrow> j < length ts \<longrightarrow> term_cmp (sort_array term_cmp ts ! i) (sort_array term_cmp ts ! j) \<le> 0)"
proof -
  have "mset (sort_array term_cmp ts) = mset ts \<and>
      sorted_wrt (\<lambda>a b. term_cmp a b \<le> 0) (sort_array term_cmp ts)"
    by (rule term_order.sort_array_spec)
  moreover from this have "length (sort_array term_cmp ts) = length ts" by (metis mset_eq_length)
  ultimately show ?thesis by (simp add: sorted_wrt_iff_nth_less)
qed

theorem sort_terms_correct_witness:
  "sort_array term_cmp [TERM_INT 3, TERM_SYMBOL 7, TERM_INT 1] = [TERM_SYMBOL 7, TERM_INT 1, TERM_INT 3] \<and>
   term_cmp (sort_array term_cmp [TERM_INT 3, TERM_SYMBOL 7, TERM_INT 1] ! 0)
     (sort_array term_cmp [TERM_INT 3, TERM_SYMBOL 7, TERM_INT 1] ! 2) \<le> 0"
proof
  show "sort_array term_cmp [TERM_INT 3, TERM_SYMBOL 7, TERM_INT 1] = [TERM_SYMBOL 7, TERM_INT 1, TERM_INT 3]"
    by code_simp
  show "term_cmp (sort_array term_cmp [TERM_INT 3, TERM_SYMBOL 7, TERM_INT 1] ! 0)
     (sort_array term_cmp [TERM_INT 3, TERM_SYMBOL 7, TERM_INT 1] ! 2) \<le> 0"
    using sort_terms_correct[of "[TERM_INT 3, TERM_SYMBOL 7, TERM_INT 1]"] by simp
qed

text \<open>
  \<^verbatim>\<open>maelys_datalog_fact_set_contains\<close> decides membership, by binary search when the set is
  flagged sorted (and is) and by a linear scan otherwise.
\<close>

theorem fact_set_contains_correct:
  assumes "set_sorted s \<Longrightarrow> sorted (set_facts s)"
  shows "fact_set_contains s f \<longleftrightarrow> f \<in> set (set_facts s)"
  using fact_set_contains_spec assms .

theorem fact_set_contains_witness:
  "fact_set_contains \<lparr>set_facts = [Fact 0 [TERM_INT 1], Fact 0 [TERM_INT 4], Fact 2 []],
     set_capacity = 8, set_sorted = True\<rparr> (Fact 0 [TERM_INT 4])"
  by (subst fact_set_contains_correct) (simp_all add: less_eq_fact_def fact_cmp_def)

text \<open>
  \<^verbatim>\<open>maelys_datalog_fact_set_predicate_range\<close> returns the exact window of a predicate in a
  sorted set: position \<open>k\<close> holds a fact of the predicate if and only if it lies in the window.
\<close>

theorem predicate_range_exact:
  assumes "set_sorted s" "sorted (set_facts s)"
  shows "case fact_set_predicate_range s pid of (rc, b, e) \<Rightarrow>
    rc = MAELYS_OK \<and> b \<le> e \<and> e \<le> set_count s \<and>
    (\<forall>k < set_count s. predicate_id (set_facts s ! k) = pid \<longleftrightarrow> b \<le> k \<and> k < e)"
  using predicate_range_spec[OF assms] by (auto split: prod.splits)

theorem predicate_range_witness:
  "fact_set_predicate_range \<lparr>set_facts = [Fact 0 [], Fact 1 [], Fact 1 [TERM_INT 0], Fact 3 []],
     set_capacity = 8, set_sorted = True\<rparr> 1 = (MAELYS_OK, 1, 3) \<and>
   {k. k < 4 \<and> predicate_id ([Fact 0 [], Fact 1 [], Fact 1 [TERM_INT 0], Fact 3 []] ! k) = 1} = {1, 2 :: nat}"
proof -
  let ?s = "\<lparr>set_facts = [Fact 0 [], Fact 1 [], Fact 1 [TERM_INT 0], Fact 3 []],
     set_capacity = 8, set_sorted = True\<rparr>"
  have eq: "fact_set_predicate_range ?s 1 = (MAELYS_OK, 1, 3)" by code_simp
  have "sorted (set_facts ?s)" by (simp add: less_eq_fact_def fact_cmp_def)
  then have "\<forall>k<4. predicate_id (set_facts ?s ! k) = 1 \<longleftrightarrow> 1 \<le> k \<and> k < 3"
    using predicate_range_exact[of ?s 1] eq by simp
  then show ?thesis using eq by auto
qed

text \<open>
  (C33) \<^verbatim>\<open>maelys_datalog_fact_set_merge_delta\<close>: for two strictly sorted sets it either installs the
  canonical array of their union and reports the number of facts that were new, or, when the union
  exceeds the buffer, the global or the per-predicate bound, fails and leaves the set as it was.
\<close>

theorem merge_delta_correct:
  assumes "set_sorted cur" "set_sorted delta"
    and "sorted_wrt (<) (set_facts cur)" "sorted_wrt (<) (set_facts delta)"
  shows "let merged = sorted_list_of_set (set (set_facts cur) \<union> set (set_facts delta))
    in if within_limits cap merged
       then fact_set_merge_delta cur delta cap = (MAELYS_OK, cur\<lparr>set_facts := merged\<rparr>,
              Some (card (set (set_facts delta) - set (set_facts cur))))
       else \<exists>e. fact_set_merge_delta cur delta cap = (e, cur, None) \<and> e \<noteq> MAELYS_OK"
proof -
  define merged where "merged = sorted_list_of_set (set (set_facts cur) \<union> set (set_facts delta))"
  have "within_limits cap []" by (simp add: within_limits_def)
  then have "merge_result cap merged (card (set (set_facts delta) - set (set_facts cur)))
      (merge_loop cap (set_facts cur) (set_facts delta) [] (\<lambda>_. 0) 0)"
    using merge_loop_spec[of cap "[]" "\<lambda>_. 0" "set_facts cur" "set_facts delta" 0] assms
    by (simp add: merge_union_canonical merge_new_card merged_def)
  moreover have "cur\<lparr>set_facts := merged, set_sorted := True\<rparr> = cur\<lparr>set_facts := merged\<rparr>"
    using assms(1) by simp
  ultimately show ?thesis
    using assms(1,2) unfolding merged_def[symmetric] Let_def
    by (auto simp: merge_result_def fact_set_merge_delta_def split: if_splits)
qed

theorem merge_delta_witness:
  "fact_set_merge_delta \<lparr>set_facts = [Fact 3 [], Fact 5 []], set_capacity = 9, set_sorted = True\<rparr>
     \<lparr>set_facts = [Fact 4 [], Fact 5 []], set_capacity = 9, set_sorted = True\<rparr> 9 =
   (MAELYS_OK, \<lparr>set_facts = [Fact 3 [], Fact 4 [], Fact 5 []], set_capacity = 9, set_sorted = True\<rparr>, Some 1)"
proof -
  have lim: "within_limits 9 [Fact 3 [], Fact 4 [], Fact 5 []]"
    by (simp add: within_limits_def limit_defs)
  show ?thesis
    using merge_delta_correct[of "\<lparr>set_facts = [Fact 3 [], Fact 5 []], set_capacity = 9, set_sorted = True\<rparr>"
      "\<lparr>set_facts = [Fact 4 [], Fact 5 []], set_capacity = 9, set_sorted = True\<rparr>" 9]
    by (simp add: less_fact_def less_eq_fact_def fact_cmp_def lim Let_def insert_Diff_if)
qed

end
