(* ===== verification/Linear_Probing.thy ===== *)
theory Linear_Probing
  imports Prelude
begin

text \<open>
  Open addressing with linear probing, as the symbol table's \<^verbatim>\<open>index\<close> and the private insertion
  index of the extensional database use it: a cell holds 0 when empty and \<open>i + 1\<close> for entry \<open>i\<close>,
  keys are only added, and the table is never full. The two loops of the code are functions over the
  array of cells; what they find is proved once, in the locale \<open>probing\<close>, from the number of cells of the
  table and the home position of a key.
\<close>

datatype probe_result = PROBE_FOUND nat | PROBE_EMPTY nat | PROBE_INVALID

text \<open>
  The bounded search loop: stop at an empty cell, at a cell whose entry does not exist, at an entry
  that matches, or after as many probes as there are cells.
\<close>

function probe :: "nat \<Rightarrow> (nat \<Rightarrow> bool) \<Rightarrow> nat \<Rightarrow> nat list \<Rightarrow> nat \<Rightarrow> nat \<Rightarrow> probe_result" where
  "probe cells hit cnt slots bucket probes =
     (if slots ! bucket = 0 then PROBE_EMPTY bucket
      else
        let i = slots ! bucket - 1
        in if i \<ge> cnt then PROBE_INVALID
           else if hit i then PROBE_FOUND i
           else if probes + 1 \<ge> cells then PROBE_INVALID
           else probe cells hit cnt slots ((bucket + 1) mod cells) (probes + 1))"
  by pat_completeness auto
termination
  by (relation "measure (\<lambda>(cells, hit, cnt, slots, bucket, probes). cells - probes)") auto

declare probe.simps [simp del]

text \<open>The unbounded walk to the next empty cell; \<open>None\<close> when \<open>fuel\<close> steps meet none.\<close>

fun next_free :: "nat \<Rightarrow> nat list \<Rightarrow> nat \<Rightarrow> nat \<Rightarrow> nat option" where
  "next_free cells slots bucket 0 = None"
| "next_free cells slots bucket (Suc fuel) =
     (if slots ! bucket = 0 then Some bucket
      else next_free cells slots ((bucket + 1) mod cells) fuel)"

locale probing =
  fixes cells :: nat and home :: "'k \<Rightarrow> nat"
  assumes home_less: "home k < cells"
begin

definition cell :: "'k \<Rightarrow> nat \<Rightarrow> nat" where
  "cell k d = (home k + d) mod cells"

text \<open>
  The invariant: entries and cells correspond one to one, and no cell on the way from the home
  position of a key to the cell of its entry is empty.
\<close>

definition index_inv :: "'k list \<Rightarrow> nat list \<Rightarrow> bool" where
  "index_inv keys slots \<longleftrightarrow>
     length slots = cells \<and> length keys < cells \<and> distinct keys \<and>
     (\<forall>b<cells. slots ! b \<le> length keys) \<and>
     (\<forall>b<cells. \<forall>b'<cells. slots ! b = slots ! b' \<longrightarrow> slots ! b \<noteq> 0 \<longrightarrow> b = b') \<and>
     (\<forall>i<length keys. \<exists>d<cells. slots ! cell (keys ! i) d = Suc i \<and>
        (\<forall>d'<d. slots ! cell (keys ! i) d' \<noteq> 0))"

lemma index_bound: "index_inv keys slots \<Longrightarrow> b < cells \<Longrightarrow> slots ! b \<le> length keys"
  by (simp add: index_inv_def)

lemma index_inj:
  "index_inv keys slots \<Longrightarrow> b < cells \<Longrightarrow> b' < cells \<Longrightarrow> slots ! b = slots ! b' \<Longrightarrow> slots ! b \<noteq> 0 \<Longrightarrow> b = b'"
  unfolding index_inv_def by blast

lemma size_pos: "0 < cells"
  using home_less by (metis not_less_zero not_gr_zero)

lemma cell_less [simp]: "cell k d < cells"
  using size_pos by (simp add: cell_def)

lemma cell_0 [simp]: "cell k 0 = home k"
  using home_less by (simp add: cell_def)

lemma cell_Suc: "(cell k d + 1) mod cells = cell k (Suc d)"
  by (simp add: cell_def mod_Suc_eq)

lemma cell_surj:
  assumes "b < cells" shows "\<exists>d<cells. cell k d = b"
proof (cases "home k \<le> b")
  case True
  then show ?thesis using assms by (intro exI[of _ "b - home k"]) (auto simp: cell_def)
next
  case False
  then have "(home k + (cells - home k + b)) mod cells = b" using assms home_less[of k] by simp
  then show ?thesis using False assms home_less[of k]
    by (intro exI[of _ "cells - home k + b"]) (auto simp: cell_def)
qed

lemma index_inv_empty: "0 < cells \<Longrightarrow> index_inv [] (replicate cells 0)"
  by (auto simp: index_inv_def)

lemma index_has_free:
  assumes inv: "index_inv keys slots" shows "\<exists>d<cells. slots ! cell k d = 0"
proof -
  have "inj_on (\<lambda>b. slots ! b) {b. b < cells \<and> slots ! b \<noteq> 0}"
    using inv by (auto simp: inj_on_def index_inv_def)
  moreover have "(\<lambda>b. slots ! b) ` {b. b < cells \<and> slots ! b \<noteq> 0} \<subseteq> {1..length keys}"
    using inv by (auto simp: index_inv_def)
  ultimately have "card {b. b < cells \<and> slots ! b \<noteq> 0} \<le> card {1..length keys}"
    by (rule card_inj_on_le) simp
  then have "card {b. b < cells \<and> slots ! b \<noteq> 0} \<le> length keys" by simp
  then have "card {b. b < cells \<and> slots ! b \<noteq> 0} < cells" using inv by (simp add: index_inv_def)
  moreover have "{b. b < cells \<and> slots ! b \<noteq> 0} = {..<cells}" if "\<forall>b<cells. slots ! b \<noteq> 0"
    using that by auto
  ultimately obtain b where "b < cells" "slots ! b = 0"
    by (metis card_lessThan less_irrefl)
  then show ?thesis using cell_surj by metis
qed

text \<open>The search walks the cells of a key up to the first one that is empty or matches.\<close>

lemma probe_walk:
  assumes inv: "index_inv keys slots" and "j \<le> d" "d < cells"
    and stop: "slots ! cell k d = 0 \<or> hit (slots ! cell k d - 1)"
    and go: "\<forall>d'<d. slots ! cell k d' \<noteq> 0 \<and> \<not> hit (slots ! cell k d' - 1)"
  shows "probe cells hit (length keys) slots (cell k j) j =
    (if slots ! cell k d = 0 then PROBE_EMPTY (cell k d) else PROBE_FOUND (slots ! cell k d - 1))"
  using assms(2)
proof (induction "d - j" arbitrary: j)
  case 0
  have "slots ! cell k d \<le> length keys" using inv by (simp add: index_inv_def)
  with 0 stop show ?case by (subst probe.simps) (auto simp: Let_def)
next
  case (Suc n)
  then have j: "j < d" by simp
  have "slots ! cell k j \<le> length keys" using inv by (simp add: index_inv_def)
  with j go assms(3) have "probe cells hit (length keys) slots (cell k j) j =
      probe cells hit (length keys) slots (cell k (Suc j)) (Suc j)"
    using cell_Suc[of k j] by (subst probe.simps) (auto simp: Let_def)
  with Suc j show ?case by simp
qed

lemma probe_found:
  assumes inv: "index_inv keys slots" and i: "i < length keys"
    and hit: "\<forall>i'<length keys. hit i' \<longleftrightarrow> keys ! i' = keys ! i"
  shows "probe cells hit (length keys) slots (home (keys ! i)) 0 = PROBE_FOUND i"
proof -
  let ?k = "keys ! i"
  from inv i obtain d where d: "d < cells" "slots ! cell ?k d = Suc i"
    "\<forall>d'<d. slots ! cell ?k d' \<noteq> 0" by (auto simp: index_inv_def)
  have go: "\<not> hit (slots ! cell ?k d' - 1)" if "d' < d" for d'
  proof
    assume h: "hit (slots ! cell ?k d' - 1)"
    have nz: "slots ! cell ?k d' \<noteq> 0" using d that by blast
    have "slots ! cell ?k d' \<le> length keys" using inv by (simp add: index_inv_def)
    then have lt: "slots ! cell ?k d' - 1 < length keys" using nz by linarith
    then have "keys ! (slots ! cell ?k d' - 1) = ?k" using h hit by blast
    then have "slots ! cell ?k d' - 1 = i"
      using inv i lt by (simp add: index_inv_def nth_eq_iff_index_eq)
    then have "slots ! cell ?k d' = slots ! cell ?k d" using d nz by simp
    then have "cell ?k d' = cell ?k d" using index_inj[OF inv] nz by simp
    then have "(home ?k + d) mod cells = (home ?k + d') mod cells" by (simp add: cell_def)
    then have "cells dvd (home ?k + d) - (home ?k + d')" using that by (intro iffD1[OF mod_eq_dvd_iff_nat]) auto
    then have "cells dvd d - d'" by simp
    then show False using that d(1) by (auto dest: dvd_imp_le)
  qed
  have "probe cells hit (length keys) slots (cell ?k 0) 0 =
    (if slots ! cell ?k d = 0 then PROBE_EMPTY (cell ?k d) else PROBE_FOUND (slots ! cell ?k d - 1))"
    using inv d go hit i by (intro probe_walk[of _ _ 0 d]) auto
  then show ?thesis using d by simp
qed

lemma first_free:
  assumes "index_inv keys slots"
  obtains d where "d < cells" "slots ! cell k d = 0" "\<forall>d'<d. slots ! cell k d' \<noteq> 0"
proof -
  let ?d = "LEAST d. slots ! cell k d = 0"
  from index_has_free[OF assms, of k] obtain d where d: "d < cells" "slots ! cell k d = 0" by blast
  then have "slots ! cell k ?d = 0" "?d \<le> d" by (auto intro: LeastI Least_le)
  moreover have "\<forall>d'<?d. slots ! cell k d' \<noteq> 0" using not_less_Least by blast
  ultimately show ?thesis using d that by (meson le_less_trans)
qed

lemma probe_absent:
  assumes inv: "index_inv keys slots" and hit: "\<forall>i<length keys. \<not> hit i"
  obtains d where "d < cells" "slots ! cell k d = 0" "\<forall>d'<d. slots ! cell k d' \<noteq> 0"
    "probe cells hit (length keys) slots (home k) 0 = PROBE_EMPTY (cell k d)"
proof -
  from first_free[OF inv, of k] obtain d where d: "d < cells" "slots ! cell k d = 0"
    "\<forall>d'<d. slots ! cell k d' \<noteq> 0" .
  have "\<not> hit (slots ! cell k d' - 1)" if "d' < d" for d'
  proof -
    have "slots ! cell k d' \<le> length keys" "slots ! cell k d' \<noteq> 0"
      using inv d that by (auto simp: index_inv_def)
    then have "slots ! cell k d' - 1 < length keys" by linarith
    then show ?thesis using hit by blast
  qed
  then have "probe cells hit (length keys) slots (cell k 0) 0 = PROBE_EMPTY (cell k d)"
    using probe_walk[OF inv, of 0 d k hit] d by simp
  with d that show ?thesis by simp
qed

lemma next_free_walk:
  assumes "slots ! cell k d = 0" "\<forall>d'<d. slots ! cell k d' \<noteq> 0" "j \<le> d" "d - j < fuel"
  shows "next_free cells slots (cell k j) fuel = Some (cell k d)"
  using assms(3,4)
proof (induction fuel arbitrary: j)
  case (Suc fuel)
  show ?case
  proof (cases "j = d")
    case True
    then show ?thesis using assms(1) by simp
  next
    case False
    then have "slots ! cell k j \<noteq> 0" using assms(2) Suc.prems by simp
    moreover have "next_free cells slots (cell k (Suc j)) fuel = Some (cell k d)"
      using Suc False by (intro Suc.IH) auto
    ultimately show ?thesis by (simp add: cell_Suc[symmetric])
  qed
qed simp

lemma index_inv_add:
  assumes inv: "index_inv keys slots" and k: "k \<notin> set keys" and room: "Suc (length keys) < cells"
    and d: "d < cells" "slots ! cell k d = 0" "\<forall>d'<d. slots ! cell k d' \<noteq> 0"
  shows "index_inv (keys @ [k]) (slots[cell k d := Suc (length keys)])"
proof -
  let ?b = "cell k d" and ?s = "slots[cell k d := Suc (length keys)]"
  from inv have len: "length slots = cells" by (simp add: index_inv_def)
  have val: "?s ! b = (if b = ?b then Suc (length keys) else slots ! b)" if "b < cells" for b
    using that len by (simp add: nth_list_update_if)
  have bound: "slots ! b \<le> length keys" if "b < cells" for b using inv that by (simp add: index_inv_def)
  have reach: "\<exists>d<cells. ?s ! cell ((keys @ [k]) ! i) d = Suc i \<and>
      (\<forall>d'<d. ?s ! cell ((keys @ [k]) ! i) d' \<noteq> 0)" if "i < Suc (length keys)" for i
  proof (cases "i = length keys")
    case True
    then show ?thesis using d by (intro exI[of _ d]) (auto simp: val nth_append)
  next
    case False
    with that have i: "i < length keys" by simp
    then obtain e where e: "e < cells" "slots ! cell (keys ! i) e = Suc i"
      "\<forall>d'<e. slots ! cell (keys ! i) d' \<noteq> 0" using inv by (auto simp: index_inv_def)
    then have "cell (keys ! i) e \<noteq> ?b" using d by auto
    then show ?thesis using e i by (intro exI[of _ e]) (auto simp: val nth_append)
  qed
  show ?thesis unfolding index_inv_def
  proof (intro conjI allI impI)
    show "length ?s = cells" "length (keys @ [k]) < cells" "distinct (keys @ [k])"
      using inv k room by (simp_all add: index_inv_def)
  next
    fix b assume "b < cells"
    then show "?s ! b \<le> length (keys @ [k])" using bound[of b] by (simp add: val)
  next
    fix b b' assume h: "b < cells" "b' < cells" "?s ! b = ?s ! b'" "?s ! b \<noteq> 0"
    show "b = b'"
    proof (cases "b = ?b \<or> b' = ?b")
      case True
      then show ?thesis using h bound[of b] bound[of b'] by (auto simp: val split: if_splits)
    next
      case False
      then show ?thesis using h index_inj[OF inv, of b b'] by (simp add: val)
    qed
  next
    fix i assume "i < length (keys @ [k])"
    then show "\<exists>d<cells. ?s ! cell ((keys @ [k]) ! i) d = Suc i \<and>
      (\<forall>d'<d. ?s ! cell ((keys @ [k]) ! i) d' \<noteq> 0)" using reach by simp
  qed
qed

end

end
