(* ===== verification/Symbol_Table.thy ===== *)
theory Symbol_Table
  imports Core_Types Linear_Probing
begin

unbundle bit_operations_syntax

text \<open>
  The symbol table of \<^verbatim>\<open>src/core/maelys_datalog_symbol_table.c\<close>: a byte pool, an array of
  entries and a hash index with linear probing. \<open>storage\<close> and \<open>entries\<close> hold the used prefixes
  of their arrays, so \<^verbatim>\<open>used\<close> and \<^verbatim>\<open>count\<close> are their lengths; \<open>buckets\<close> is the whole
  \<^verbatim>\<open>index\<close> array. Texts are byte strings with an explicit length.
\<close>

record symbol_entry =
  sym_hash :: "32 word"
  sym_offset :: nat
  sym_len :: nat

record symbol_table =
  storage :: string
  entries :: "symbol_entry list"
  buckets :: "nat list"

definition fnv1a :: "string \<Rightarrow> 32 word" where
  "fnv1a s = fold (\<lambda>c h. (h XOR of_char c) * 16777619) s 2166136261"

definition symbol_table_init :: symbol_table where
  "symbol_table_init = \<lparr>storage = [], entries = [], buckets = replicate SYMBOL_INDEX_BUCKETS 0\<rparr>"

definition home_bucket :: "string \<Rightarrow> nat" where
  "home_bucket text = unat (fnv1a text AND 1023)"

definition entry_bytes :: "symbol_table \<Rightarrow> symbol_entry \<Rightarrow> string" where
  "entry_bytes tab e = segment (sym_offset e) (sym_offset e + sym_len e) (storage tab)"

definition entry_matches :: "symbol_table \<Rightarrow> 32 word \<Rightarrow> string \<Rightarrow> nat \<Rightarrow> bool" where
  "entry_matches tab h text i =
     (let e = entries tab ! i
      in sym_hash e = h \<and> sym_len e = length text \<and> entry_bytes tab e = text)"

definition symbol_append :: "symbol_table \<Rightarrow> string \<Rightarrow> nat \<Rightarrow> symbol_table" where
  "symbol_append tab text bucket =
     \<lparr>storage = storage tab @ text @ [CHR 0x00],
      entries = entries tab @
        [\<lparr>sym_hash = fnv1a text, sym_offset = length (storage tab), sym_len = length text\<rparr>],
      buckets = (buckets tab)[bucket := length (entries tab) + 1]\<rparr>"

definition symbol_intern :: "symbol_table \<Rightarrow> string \<Rightarrow> maelys_result \<times> symbol_table \<times> nat option" where
  "symbol_intern tab text =
     (if length text > MAX_STRING_BYTES then (MAELYS_ERR_INVALID_ARGUMENT, tab, None)
      else case probe SYMBOL_INDEX_BUCKETS (entry_matches tab (fnv1a text) text)
                  (length (entries tab)) (buckets tab) (home_bucket text) 0 of
        PROBE_FOUND i \<Rightarrow> (MAELYS_OK, tab, Some (i + 1))
      | PROBE_INVALID \<Rightarrow> (MAELYS_ERR_INVALID_STATE, tab, None)
      | PROBE_EMPTY bucket \<Rightarrow>
          if length (entries tab) \<ge> MAX_SYMBOLS then (MAELYS_ERR_PAYLOAD_TOO_LARGE, tab, None)
          else if length text + 1 > STRING_POOL_BYTES - length (storage tab)
          then (MAELYS_ERR_PAYLOAD_TOO_LARGE, tab, None)
          else (MAELYS_OK, symbol_append tab text bucket, Some (length (entries tab) + 1)))"

text \<open>The linear path of the lookup: the first entry with the same length and bytes.\<close>

fun scan_entries :: "symbol_table \<Rightarrow> string \<Rightarrow> symbol_entry list \<Rightarrow> nat \<Rightarrow> nat option" where
  "scan_entries tab text [] i = None"
| "scan_entries tab text (e # es) i =
     (if sym_len e = length text \<and> entry_bytes tab e = text then Some i
      else scan_entries tab text es (i + 1))"

definition symbol_lookup_readonly :: "symbol_table \<Rightarrow> string \<Rightarrow> maelys_result \<times> nat \<times> bool" where
  "symbol_lookup_readonly tab text =
     (if length text > MAX_STRING_BYTES then (MAELYS_ERR_INVALID_ARGUMENT, 0, False)
      else if length (entries tab) \<le> length text then
        (case scan_entries tab text (entries tab) 0 of
           Some i \<Rightarrow> (MAELYS_OK, i + 1, True) | None \<Rightarrow> (MAELYS_OK, 0, False))
      else case probe SYMBOL_INDEX_BUCKETS (entry_matches tab (fnv1a text) text)
                  (length (entries tab)) (buckets tab) (home_bucket text) 0 of
        PROBE_FOUND i \<Rightarrow> (MAELYS_OK, i + 1, True)
      | PROBE_INVALID \<Rightarrow> (MAELYS_ERR_INVALID_STATE, 0, False)
      | PROBE_EMPTY _ \<Rightarrow> (MAELYS_OK, 0, False))"

definition symbol_id_is_valid :: "symbol_table \<Rightarrow> nat \<Rightarrow> bool" where
  "symbol_id_is_valid tab sid \<longleftrightarrow> sid \<noteq> 0 \<and> sid \<le> length (entries tab)"

text \<open>The pointer returned for an identifier is the rest of the pool from the entry's offset.\<close>

definition symbol_text :: "symbol_table \<Rightarrow> nat \<Rightarrow> string option" where
  "symbol_text tab sid =
     (if \<not> symbol_id_is_valid tab sid then None
      else Some (drop (sym_offset (entries tab ! (sid - 1))) (storage tab)))"

definition c_string :: "string \<Rightarrow> string" where
  "c_string p = takeWhile (\<lambda>c. c \<noteq> CHR 0x00) p"

section \<open>The table as a list of distinct texts\<close>

definition sym_texts :: "symbol_table \<Rightarrow> string list" where
  "sym_texts tab = map (entry_bytes tab) (entries tab)"

lemma home_bucket_less: "home_bucket text < 1024"
proof -
  have "unat (fnv1a text AND 1023) \<le> unat (1023 :: 32 word)"
    by (rule word_and_le1 [THEN word_le_nat_alt [THEN iffD1]])
  then show ?thesis by (simp add: home_bucket_def)
qed

interpretation sym_index: probing SYMBOL_INDEX_BUCKETS home_bucket
  by unfold_locales (simp add: home_bucket_less SYMBOL_INDEX_BUCKETS_def)

definition entry_ok :: "symbol_table \<Rightarrow> symbol_entry \<Rightarrow> bool" where
  "entry_ok tab e \<longleftrightarrow>
     sym_hash e = fnv1a (entry_bytes tab e) \<and> sym_len e \<le> MAX_STRING_BYTES \<and>
     sym_offset e + sym_len e < length (storage tab) \<and>
     storage tab ! (sym_offset e + sym_len e) = CHR 0x00"

definition sym_inv :: "symbol_table \<Rightarrow> bool" where
  "sym_inv tab \<longleftrightarrow>
     sym_index.index_inv (sym_texts tab) (buckets tab) \<and>
     length (entries tab) \<le> MAX_SYMBOLS \<and> length (storage tab) \<le> STRING_POOL_BYTES \<and>
     (\<forall>e\<in>set (entries tab). entry_ok tab e)"

lemma length_sym_texts [simp]: "length (sym_texts tab) = length (entries tab)"
  by (simp add: sym_texts_def)

lemma sym_inv_init: "sym_inv symbol_table_init"
proof -
  have "sym_index.index_inv [] (replicate SYMBOL_INDEX_BUCKETS 0)"
    by (rule sym_index.index_inv_empty) (simp add: SYMBOL_INDEX_BUCKETS_def)
  then show ?thesis by (simp add: sym_inv_def symbol_table_init_def sym_texts_def)
qed

lemma entry_bytes_append:
  assumes "entry_ok tab e" "storage tab' = storage tab @ extra"
  shows "entry_bytes tab' e = entry_bytes tab e"
  using assms by (simp add: entry_bytes_def entry_ok_def segment_def)

lemma entry_ok_append:
  assumes "entry_ok tab e" "storage tab' = storage tab @ extra"
  shows "entry_ok tab' e"
  using assms entry_bytes_append[OF assms] by (auto simp: entry_ok_def nth_append)

lemma entry_matches_iff:
  assumes "sym_inv tab" "i < length (entries tab)"
  shows "entry_matches tab (fnv1a text) text i \<longleftrightarrow> sym_texts tab ! i = text"
proof -
  have "entry_ok tab (entries tab ! i)" using assms by (simp add: sym_inv_def)
  then show ?thesis using assms(2)
    by (auto simp: entry_matches_def Let_def sym_texts_def entry_ok_def entry_bytes_def)
qed

text \<open>The search through the index decides membership and never reports a broken index.\<close>

lemma symbol_probe_found:
  assumes "sym_inv tab" "i < length (entries tab)" "sym_texts tab ! i = text"
  shows "probe SYMBOL_INDEX_BUCKETS (entry_matches tab (fnv1a text) text)
    (length (entries tab)) (buckets tab) (home_bucket text) 0 = PROBE_FOUND i"
  using sym_index.probe_found[of "sym_texts tab" "buckets tab" i "entry_matches tab (fnv1a text) text"]
    entry_matches_iff[OF assms(1)] assms by (auto simp: sym_inv_def)

lemma symbol_probe_absent:
  assumes "sym_inv tab" "text \<notin> set (sym_texts tab)"
  obtains d where "d < SYMBOL_INDEX_BUCKETS" "buckets tab ! sym_index.cell text d = 0"
    "\<forall>d'<d. buckets tab ! sym_index.cell text d' \<noteq> 0"
    "probe SYMBOL_INDEX_BUCKETS (entry_matches tab (fnv1a text) text)
      (length (entries tab)) (buckets tab) (home_bucket text) 0 = PROBE_EMPTY (sym_index.cell text d)"
proof -
  have "\<forall>i<length (sym_texts tab). \<not> entry_matches tab (fnv1a text) text i"
    using entry_matches_iff[OF assms(1)] assms(2) by (metis length_sym_texts nth_mem)
  then show ?thesis
    using sym_index.probe_absent[of "sym_texts tab" "buckets tab" "entry_matches tab (fnv1a text) text" "text"]
      assms(1) that by (auto simp: sym_inv_def)
qed

lemma sym_texts_symbol_append:
  assumes "sym_inv tab"
  shows "sym_texts (symbol_append tab text b) = sym_texts tab @ [text]"
proof -
  have "\<forall>e\<in>set (entries tab). entry_bytes (symbol_append tab text b) e = entry_bytes tab e"
    using assms entry_bytes_append[of tab _ "symbol_append tab text b"]
    by (auto simp: sym_inv_def symbol_append_def)
  then show ?thesis
    by (simp add: sym_texts_def symbol_append_def entry_bytes_def segment_def)
qed

lemma sym_inv_symbol_append:
  assumes inv: "sym_inv tab" and new: "text \<notin> set (sym_texts tab)"
    and room: "length (entries tab) < MAX_SYMBOLS" "length text \<le> MAX_STRING_BYTES"
      "length text + 1 \<le> STRING_POOL_BYTES - length (storage tab)"
    and d: "d < SYMBOL_INDEX_BUCKETS" "buckets tab ! sym_index.cell text d = 0"
      "\<forall>d'<d. buckets tab ! sym_index.cell text d' \<noteq> 0"
  shows "sym_inv (symbol_append tab text (sym_index.cell text d))"
proof -
  let ?t = "symbol_append tab text (sym_index.cell text d)"
  have "sym_index.index_inv (sym_texts tab @ [text])
      ((buckets tab)[sym_index.cell text d := Suc (length (sym_texts tab))])"
    using inv new room d by (intro sym_index.index_inv_add) (auto simp: sym_inv_def limit_defs)
  then have idx: "sym_index.index_inv (sym_texts ?t) (buckets ?t)"
    using sym_texts_symbol_append[OF inv] by (simp add: symbol_append_def)
  have "entry_ok ?t e" if "e \<in> set (entries tab)" for e
    using that inv entry_ok_append[of tab e ?t "text @ [CHR 0x00]"]
    by (simp add: sym_inv_def symbol_append_def)
  moreover have "entry_ok ?t \<lparr>sym_hash = fnv1a text, sym_offset = length (storage tab), sym_len = length text\<rparr>"
    using room by (simp add: entry_ok_def entry_bytes_def symbol_append_def segment_def nth_append)
  ultimately show ?thesis
    using idx inv room by (auto simp: sym_inv_def symbol_append_def)
qed

lemma symbol_intern_known:
  assumes "sym_inv tab" "i < length (entries tab)" "sym_texts tab ! i = text"
  shows "symbol_intern tab text = (MAELYS_OK, tab, Some (i + 1))"
proof -
  have "entry_ok tab (entries tab ! i)" using assms by (simp add: sym_inv_def)
  then have "length text \<le> MAX_STRING_BYTES"
    using assms by (auto simp: entry_ok_def sym_texts_def entry_bytes_def)
  then show ?thesis using symbol_probe_found[OF assms] by (simp add: symbol_intern_def)
qed

lemma symbol_intern_new:
  assumes "sym_inv tab" "text \<notin> set (sym_texts tab)" "length text \<le> MAX_STRING_BYTES"
  shows "if length (entries tab) < MAX_SYMBOLS \<and> length text + 1 \<le> STRING_POOL_BYTES - length (storage tab)
    then \<exists>tab'. symbol_intern tab text = (MAELYS_OK, tab', Some (length (entries tab) + 1)) \<and>
      sym_inv tab' \<and> sym_texts tab' = sym_texts tab @ [text] \<and>
      length (storage tab') = length (storage tab) + length text + 1
    else symbol_intern tab text = (MAELYS_ERR_PAYLOAD_TOO_LARGE, tab, None)"
proof -
  obtain d where d: "d < SYMBOL_INDEX_BUCKETS" "buckets tab ! sym_index.cell text d = 0"
    "\<forall>d'<d. buckets tab ! sym_index.cell text d' \<noteq> 0"
    "probe SYMBOL_INDEX_BUCKETS (entry_matches tab (fnv1a text) text)
      (length (entries tab)) (buckets tab) (home_bucket text) 0 = PROBE_EMPTY (sym_index.cell text d)"
    using symbol_probe_absent[OF assms(1,2)] .
  have len: "length (storage (symbol_append tab text b)) = length (storage tab) + length text + 1" for b
    by (simp add: symbol_append_def)
  show ?thesis
    using d assms sym_inv_symbol_append[OF assms(1,2) _ assms(3) _ d(1,2,3)]
      sym_texts_symbol_append[OF assms(1)] len
    by (auto simp: symbol_intern_def)
qed

lemma scan_entries_none: "scan_entries tab text es i = None \<longleftrightarrow>
    (\<forall>e\<in>set es. \<not> (sym_len e = length text \<and> entry_bytes tab e = text))"
  by (induction es arbitrary: i) auto

lemma scan_entries_some: "scan_entries tab text es i = Some j \<Longrightarrow>
    i \<le> j \<and> j - i < length es \<and> entry_bytes tab (es ! (j - i)) = text"
proof (induction es arbitrary: i)
  case (Cons e es)
  show ?case
  proof (cases "sym_len e = length text \<and> entry_bytes tab e = text")
    case False
    then have "scan_entries tab text es (i + 1) = Some j" using Cons.prems by auto
    from Cons.IH[OF this] show ?thesis by (auto simp: nth_Cons' Suc_diff_Suc)
  qed (use Cons in auto)
qed simp

lemma symbol_lookup_known:
  assumes "sym_inv tab" "i < length (entries tab)" "sym_texts tab ! i = text"
  shows "symbol_lookup_readonly tab text = (MAELYS_OK, i + 1, True)"
proof -
  have ok: "entry_ok tab (entries tab ! i)" using assms by (simp add: sym_inv_def)
  then have len: "length text \<le> MAX_STRING_BYTES" "sym_len (entries tab ! i) = length text"
    "entry_bytes tab (entries tab ! i) = text"
    using assms by (auto simp: entry_ok_def sym_texts_def entry_bytes_def)
  have "scan_entries tab text (entries tab) 0 \<noteq> None"
    using len assms(2) by (auto simp: scan_entries_none intro!: bexI[of _ "entries tab ! i"])
  then obtain j where j: "scan_entries tab text (entries tab) 0 = Some j" by auto
  have "j < length (entries tab)" "sym_texts tab ! j = text"
    using scan_entries_some[OF j] by (auto simp: sym_texts_def)
  then have "j = i"
    using assms by (auto simp: sym_inv_def sym_index.index_inv_def nth_eq_iff_index_eq)
  then show ?thesis
    using j len symbol_probe_found[OF assms] by (simp add: symbol_lookup_readonly_def)
qed

lemma symbol_lookup_unknown:
  assumes "sym_inv tab" "text \<notin> set (sym_texts tab)" "length text \<le> MAX_STRING_BYTES"
  shows "symbol_lookup_readonly tab text = (MAELYS_OK, 0, False)"
proof -
  have "scan_entries tab text (entries tab) 0 = None"
    using assms(2) by (auto simp: scan_entries_none sym_texts_def)
  moreover obtain d where "probe SYMBOL_INDEX_BUCKETS (entry_matches tab (fnv1a text) text)
      (length (entries tab)) (buckets tab) (home_bucket text) 0 = PROBE_EMPTY (sym_index.cell text d)"
    using symbol_probe_absent[OF assms(1,2)] .
  ultimately show ?thesis using assms(3) by (simp add: symbol_lookup_readonly_def)
qed

lemma symbol_text_known:
  assumes "sym_inv tab" "i < length (entries tab)"
  shows "\<exists>rest. symbol_text tab (i + 1) = Some (sym_texts tab ! i @ CHR 0x00 # rest)"
proof -
  let ?e = "entries tab ! i"
  have ok: "entry_ok tab ?e" using assms by (simp add: sym_inv_def)
  then have "sym_offset ?e + sym_len ?e < length (storage tab)" by (simp add: entry_ok_def)
  then have "drop (sym_offset ?e) (storage tab) =
      entry_bytes tab ?e @ storage tab ! (sym_offset ?e + sym_len ?e) #
        drop (Suc (sym_offset ?e + sym_len ?e)) (storage tab)"
    by (metis Cons_nth_drop_Suc add_diff_cancel_left' append_take_drop_id drop_drop entry_bytes_def
        segment_def add.commute)
  then show ?thesis using ok assms(2)
    by (simp add: symbol_text_def symbol_id_is_valid_def sym_texts_def entry_ok_def)
qed

section \<open>The dictionary contract\<close>

text \<open>
  What the clients of a symbol table rely on (the parser, the extensional database and the public
  API all intern texts and compare identifiers): identifiers name positions of a growing list of
  distinct texts, a refused text changes nothing, and a lookup never inserts.
\<close>

locale symbol_dictionary =
  fixes inv :: "'t \<Rightarrow> bool" and texts :: "'t \<Rightarrow> string list"
    and intern :: "'t \<Rightarrow> string \<Rightarrow> maelys_result \<times> 't \<times> nat option"
    and lookup :: "'t \<Rightarrow> string \<Rightarrow> maelys_result \<times> nat \<times> bool"
  assumes texts_distinct: "inv t \<Longrightarrow> distinct (texts t)"
    and intern_ok: "inv t \<Longrightarrow> intern t s = (MAELYS_OK, t', r) \<Longrightarrow>
      inv t' \<and> (\<exists>i. r = Some (Suc i) \<and> i < length (texts t') \<and> texts t' ! i = s) \<and>
      (\<exists>new. texts t' = texts t @ new)"
    and intern_error: "inv t \<Longrightarrow> intern t s = (rc, t', r) \<Longrightarrow> rc \<noteq> MAELYS_OK \<Longrightarrow> t' = t \<and> r = None"
    and lookup_known: "inv t \<Longrightarrow> i < length (texts t) \<Longrightarrow> texts t ! i = s \<Longrightarrow> lookup t s = (MAELYS_OK, Suc i, True)"
begin

definition intern_run :: "string list \<Rightarrow> 't \<Rightarrow> 't" where
  "intern_run ss t = fold (\<lambda>s t. fst (snd (intern t s))) ss t"

lemma intern_step:
  assumes "inv t" shows "inv (fst (snd (intern t s))) \<and> (\<exists>new. texts (fst (snd (intern t s))) = texts t @ new)"
proof -
  obtain rc t' r where e: "intern t s = (rc, t', r)" by (metis prod_cases3)
  show ?thesis
  proof (cases "rc = MAELYS_OK")
    case True
    then show ?thesis using intern_ok[OF assms, of s t' r] e by auto
  next
    case False
    then show ?thesis using intern_error[OF assms e] e assms by auto
  qed
qed

lemma intern_run_grows:
  "inv t \<Longrightarrow> inv (intern_run ss t) \<and> (\<exists>new. texts (intern_run ss t) = texts t @ new)"
proof (induction ss arbitrary: t)
  case Nil
  then show ?case by (simp add: intern_run_def)
next
  case (Cons s ss)
  from intern_step[OF Cons.prems, of s] Cons.IH[of "fst (snd (intern t s))"]
  show ?case by (auto simp: intern_run_def)
qed

text \<open>An identifier once given out names its text in every later state.\<close>

lemma identifier_stable:
  assumes "inv t" "intern t s = (MAELYS_OK, t', r)"
  shows "\<exists>i. r = Some (Suc i) \<and> lookup (intern_run ss t') s = (MAELYS_OK, Suc i, True) \<and>
    texts (intern_run ss t') ! i = s \<and> i < length (texts (intern_run ss t'))"
proof -
  from intern_ok[OF assms] obtain i where i: "inv t'" "r = Some (Suc i)" "i < length (texts t')" "texts t' ! i = s"
    by auto
  from intern_run_grows[OF i(1), of ss] obtain new where
    "inv (intern_run ss t')" "texts (intern_run ss t') = texts t' @ new" by auto
  then show ?thesis using i lookup_known[of "intern_run ss t'" i s] by (auto simp: nth_append)
qed

text \<open>Two interned texts have the same identifier only when they are the same text.\<close>

lemma identifier_injective:
  assumes "inv t" "intern t s1 = (MAELYS_OK, t1, r1)" "intern (intern_run ss t1) s2 = (MAELYS_OK, t2, r2)"
  shows "r1 = r2 \<longleftrightarrow> s1 = s2"
proof -
  from identifier_stable[OF assms(1,2), of ss] obtain i where
    i: "r1 = Some (Suc i)" "texts (intern_run ss t1) ! i = s1" "i < length (texts (intern_run ss t1))" by blast
  have inv: "inv (intern_run ss t1)" using intern_ok[OF assms(1,2)] intern_run_grows by blast
  from intern_ok[OF inv assms(3)] obtain j new where
    j: "inv t2" "r2 = Some (Suc j)" "j < length (texts t2)" "texts t2 ! j = s2"
    "texts t2 = texts (intern_run ss t1) @ new" by blast
  then have "i < length (texts t2)" "texts t2 ! i = s1" using i by (auto simp: nth_append)
  then show ?thesis using i j texts_distinct[OF j(1)] by (auto simp: nth_eq_iff_index_eq)
qed

end

lemma symbol_intern_cases:
  assumes "sym_inv tab" "symbol_intern tab text = (rc, tab', r)"
  shows "(rc = MAELYS_OK \<and> sym_inv tab' \<and>
      (\<exists>i. r = Some (Suc i) \<and> i < length (sym_texts tab') \<and> sym_texts tab' ! i = text) \<and>
      (if text \<in> set (sym_texts tab) then tab' = tab else sym_texts tab' = sym_texts tab @ [text])) \<or>
    (rc \<noteq> MAELYS_OK \<and> tab' = tab \<and> r = None)"
proof (cases "text \<in> set (sym_texts tab)")
  case True
  then obtain i where "i < length (entries tab)" "sym_texts tab ! i = text"
    by (auto simp: in_set_conv_nth)
  with symbol_intern_known[OF assms(1) this] assms True show ?thesis by auto
next
  case False
  show ?thesis
  proof (cases "length text \<le> MAX_STRING_BYTES")
    case True
    have grow: "length (entries tab) < length (sym_texts tab') \<and> sym_texts tab' ! length (entries tab) = text"
      if "sym_texts tab' = sym_texts tab @ [text]" for tab'
      using that by (simp del: length_sym_texts) (simp add: nth_append)
    from symbol_intern_new[OF assms(1) False True] assms(2) False grow
    show ?thesis by (auto split: if_splits simp del: length_sym_texts)
  qed (use assms(2) in \<open>simp add: symbol_intern_def\<close>)
qed

interpretation symbols: symbol_dictionary sym_inv sym_texts symbol_intern symbol_lookup_readonly
proof unfold_locales
  show "distinct (sym_texts t)" if "sym_inv t" for t
    using that by (simp add: sym_inv_def sym_index.index_inv_def)
  show "sym_inv t' \<and> (\<exists>i. r = Some (Suc i) \<and> i < length (sym_texts t') \<and> sym_texts t' ! i = s) \<and>
      (\<exists>new. sym_texts t' = sym_texts t @ new)"
    if "sym_inv t" "symbol_intern t s = (MAELYS_OK, t', r)" for t s t' r
    using symbol_intern_cases[OF that] by (auto split: if_splits)
  show "t' = t \<and> r = None" if "sym_inv t" "symbol_intern t s = (rc, t', r)" "rc \<noteq> MAELYS_OK" for t s rc t' r
    using symbol_intern_cases[OF that(1,2)] that(3) by auto
  show "symbol_lookup_readonly t s = (MAELYS_OK, Suc i, True)"
    if "sym_inv t" "i < length (sym_texts t)" "sym_texts t ! i = s" for t i s
    using symbol_lookup_known[of t i s] that by simp
qed

section \<open>Properties\<close>

text \<open>
  (C34) \<^verbatim>\<open>maelys_datalog_symbol_intern\<close> on every branch, from a table that satisfies the invariant:
  a text longer than the bound is refused; a known text gets its old identifier and changes
  nothing; a new text is appended, with the next identifier and the invariant kept, when an entry
  and \<open>length + 1\<close> pool bytes are free, and is refused with the table unchanged otherwise. The
  hash index never makes the call fail.
\<close>

theorem symbol_intern_correct:
  assumes "sym_inv tab"
  shows "if length text > MAX_STRING_BYTES
    then symbol_intern tab text = (MAELYS_ERR_INVALID_ARGUMENT, tab, None)
    else if text \<in> set (sym_texts tab)
    then \<exists>i < length (sym_texts tab). sym_texts tab ! i = text \<and> symbol_intern tab text = (MAELYS_OK, tab, Some (i + 1))
    else if length (entries tab) < MAX_SYMBOLS \<and> length text + 1 \<le> STRING_POOL_BYTES - length (storage tab)
    then \<exists>tab'. symbol_intern tab text = (MAELYS_OK, tab', Some (length (entries tab) + 1)) \<and>
      sym_inv tab' \<and> sym_texts tab' = sym_texts tab @ [text] \<and>
      length (storage tab') = length (storage tab) + length text + 1
    else symbol_intern tab text = (MAELYS_ERR_PAYLOAD_TOO_LARGE, tab, None)"
proof (cases "text \<in> set (sym_texts tab)")
  case True
  then obtain i where i: "i < length (entries tab)" "sym_texts tab ! i = text"
    by (auto simp: in_set_conv_nth)
  have "symbol_intern tab text = (MAELYS_ERR_INVALID_ARGUMENT, tab, None)" if "length text > MAX_STRING_BYTES"
    using that by (simp add: symbol_intern_def)
  then show ?thesis using symbol_intern_known[OF assms i] i True by auto
next
  case False
  have "symbol_intern tab text = (MAELYS_ERR_INVALID_ARGUMENT, tab, None)" if "length text > MAX_STRING_BYTES"
    using that by (simp add: symbol_intern_def)
  then show ?thesis using symbol_intern_new[OF assms False] False by (cases "length text \<le> MAX_STRING_BYTES") (simp_all split: if_splits)
qed

theorem symbol_intern_witness:
  "\<exists>tab'. symbol_intern symbol_table_init ''alice'' = (MAELYS_OK, tab', Some 1) \<and>
     sym_inv tab' \<and> sym_texts tab' = [''alice'']"
  using symbol_intern_correct[OF sym_inv_init, of "''alice''"]
  by (auto simp: symbol_table_init_def sym_texts_def limit_defs)

text \<open>
  \<^verbatim>\<open>maelys_datalog_symbol_lookup_readonly\<close> gives the same answer on its two paths (the linear scan
  of a short table and the hashed search): the identifier of the text if it is in the table and
  "not found" otherwise.
\<close>

theorem symbol_lookup_correct:
  assumes "sym_inv tab" "length text \<le> MAX_STRING_BYTES"
  shows "(\<exists>i < length (sym_texts tab). sym_texts tab ! i = text \<and>
            symbol_lookup_readonly tab text = (MAELYS_OK, i + 1, True)) \<or>
         (text \<notin> set (sym_texts tab) \<and> symbol_lookup_readonly tab text = (MAELYS_OK, 0, False))"
proof (cases "text \<in> set (sym_texts tab)")
  case True
  then obtain i where i: "i < length (entries tab)" "sym_texts tab ! i = text"
    by (auto simp: in_set_conv_nth)
  then show ?thesis using symbol_lookup_known[OF assms(1) i] by auto
qed (use symbol_lookup_unknown[OF assms(1) _ assms(2)] in simp)

theorem symbol_lookup_witness:
  "symbol_lookup_readonly symbol_table_init ''bob'' = (MAELYS_OK, 0, False)"
  using symbol_lookup_correct[OF sym_inv_init, of "''bob''"]
  by (auto simp: limit_defs sym_texts_def symbol_table_init_def)

text \<open>
  Identifiers are stable and faithful: the identifier returned for a text is found again by a lookup
  after any further interning, and \<^verbatim>\<open>maelys_datalog_symbol_text\<close> of it still points at a
  NUL-terminated copy of the text, whole when the text has no NUL byte.
\<close>

theorem symbol_roundtrip:
  assumes "sym_inv tab" "symbol_intern tab text = (MAELYS_OK, tab', r)" "CHR 0x00 \<notin> set text"
  shows "\<exists>sid p. r = Some sid \<and>
    symbol_lookup_readonly (fold (\<lambda>s t. fst (snd (symbol_intern t s))) later tab') text = (MAELYS_OK, sid, True) \<and>
    symbol_text (fold (\<lambda>s t. fst (snd (symbol_intern t s))) later tab') sid = Some p \<and> c_string p = text"
proof -
  let ?final = "fold (\<lambda>s t. fst (snd (symbol_intern t s))) later tab'"
  from symbols.identifier_stable[OF assms(1,2), of later] obtain i where
    i: "r = Some (Suc i)" "symbol_lookup_readonly ?final text = (MAELYS_OK, Suc i, True)"
      "sym_texts ?final ! i = text" "i < length (entries ?final)"
    by (auto simp: symbols.intern_run_def)
  have "sym_inv ?final"
    using symbols.intern_ok[OF assms(1,2)] symbols.intern_run_grows[of tab' later]
    by (simp add: symbols.intern_run_def)
  from symbol_text_known[OF this i(4)] i(3) obtain rest where
    "symbol_text ?final (Suc i) = Some (text @ CHR 0x00 # rest)" by auto
  moreover have "c_string (text @ CHR 0x00 # rest) = text"
    using assms(3) by (induction "text") (auto simp: c_string_def)
  ultimately show ?thesis using i by blast
qed

theorem symbol_roundtrip_witness:
  "\<exists>sid p. snd (snd (symbol_intern symbol_table_init ''alice'')) = Some sid \<and>
    symbol_text (fold (\<lambda>s t. fst (snd (symbol_intern t s))) [''bob'']
      (fst (snd (symbol_intern symbol_table_init ''alice'')))) sid = Some p \<and> c_string p = ''alice''"
proof -
  from symbol_intern_new[OF sym_inv_init, of "''alice''"] obtain tab' where
    t: "symbol_intern symbol_table_init ''alice'' = (MAELYS_OK, tab', Some 1)"
    by (auto simp: symbol_table_init_def sym_texts_def limit_defs)
  from symbol_roundtrip[OF sym_inv_init t, of "[''bob'']"] t show ?thesis by auto
qed

end
