(* ===== verification/Predicate_Registry.thy ===== *)
theory Predicate_Registry
  imports Core_Types
begin

unbundle bit_operations_syntax

text \<open>
  The predicate registry of \<^verbatim>\<open>src/core/maelys_datalog_predicate_registry.c\<close>: the declared
  predicates (a predicate identifier is a position in \<open>defs\<close>), the closed vocabulary of atoms, and
  the frozen flag. \<open>defs\<close> and \<open>atoms\<close> hold the used prefixes of their arrays. Names are
  NUL-terminated in C; here they are the strings before the terminator.
\<close>

definition PRED_KIND_EDB :: "32 word" where "PRED_KIND_EDB = 1"
definition PRED_KIND_IDB :: "32 word" where "PRED_KIND_IDB = 2"
definition PRED_KIND_QUERY :: "32 word" where "PRED_KIND_QUERY = 4"
definition PRED_KIND_POLICY_FACT :: "32 word" where "PRED_KIND_POLICY_FACT = 8"
definition NAME_BYTES :: nat where "NAME_BYTES = 64"

lemmas kind_defs = PRED_KIND_EDB_def PRED_KIND_IDB_def PRED_KIND_QUERY_def PRED_KIND_POLICY_FACT_def

record predicate_entry =
  pred_name :: string
  pred_arity :: nat
  kind_flags :: "32 word"

record predicate_registry =
  defs :: "predicate_entry list"
  atoms :: "string list"
  frozen :: bool

definition predicate_registry_init :: predicate_registry where
  "predicate_registry_init = \<lparr>defs = [], atoms = [], frozen = False\<rparr>"

definition valid_kind_flags :: "32 word \<Rightarrow> bool" where
  "valid_kind_flags k \<longleftrightarrow>
     k = PRED_KIND_EDB \<or> k = (PRED_KIND_EDB OR PRED_KIND_QUERY) \<or>
     k = PRED_KIND_POLICY_FACT \<or> k = (PRED_KIND_POLICY_FACT OR PRED_KIND_QUERY) \<or>
     k = PRED_KIND_IDB \<or> k = (PRED_KIND_QUERY OR PRED_KIND_IDB)"

text \<open>The loop over the declared predicates: the verdict on the first one of the same name.\<close>

fun redeclaration :: "predicate_entry list \<Rightarrow> string \<Rightarrow> nat \<Rightarrow> 32 word \<Rightarrow> maelys_result option" where
  "redeclaration [] name n k = None"
| "redeclaration (d # ds) name n k =
     (if pred_name d \<noteq> name then redeclaration ds name n k
      else if pred_arity d \<noteq> n then Some MAELYS_ERR_INVALID_FIELD
      else if kind_flags d = k \<or> (kind_flags d OR k) = kind_flags d then Some MAELYS_OK
      else Some MAELYS_ERR_INVALID_FIELD)"

definition predicate_registry_add ::
  "predicate_registry \<Rightarrow> string \<Rightarrow> nat \<Rightarrow> 32 word \<Rightarrow> maelys_result \<times> predicate_registry" where
  "predicate_registry_add reg name n k =
     (if name = [] \<or> n > MAX_ARITY \<or> \<not> valid_kind_flags k then (MAELYS_ERR_INVALID_ARGUMENT, reg)
      else if frozen reg then (MAELYS_ERR_INVALID_STATE, reg)
      else case redeclaration (defs reg) name n k of
        Some rc \<Rightarrow> (rc, reg)
      | None \<Rightarrow>
          if length (defs reg) \<ge> MAX_PREDICATES then (MAELYS_ERR_PAYLOAD_TOO_LARGE, reg)
          else if length name \<ge> NAME_BYTES then (MAELYS_ERR_INVALID_FIELD, reg)
          else (MAELYS_OK, reg\<lparr>defs := defs reg @ [\<lparr>pred_name = name, pred_arity = n, kind_flags = k\<rparr>]\<rparr>))"

text \<open>\<^verbatim>\<open>add_builtin\<close> and \<^verbatim>\<open>add_domain\<close> are other names of \<open>predicate_registry_add\<close>.\<close>

definition predicate_registry_add_manifest_predicate ::
  "predicate_registry \<Rightarrow> string \<Rightarrow> nat \<Rightarrow> 32 word \<Rightarrow> maelys_result \<times> predicate_registry" where
  "predicate_registry_add_manifest_predicate reg name n k =
     (if (k AND (PRED_KIND_EDB OR PRED_KIND_POLICY_FACT)) \<noteq> 0 then (MAELYS_ERR_INVALID_FIELD, reg)
      else predicate_registry_add reg name n k)"

definition predicate_registry_add_atom :: "predicate_registry \<Rightarrow> string \<Rightarrow> maelys_result \<times> predicate_registry" where
  "predicate_registry_add_atom reg atom =
     (if atom = [] then (MAELYS_ERR_INVALID_ARGUMENT, reg)
      else if frozen reg then (MAELYS_ERR_INVALID_STATE, reg)
      else if atom \<in> set (atoms reg) then (MAELYS_OK, reg)
      else if length (atoms reg) \<ge> MAX_ATOMS then (MAELYS_ERR_PAYLOAD_TOO_LARGE, reg)
      else if length atom \<ge> NAME_BYTES then (MAELYS_ERR_INVALID_FIELD, reg)
      else (MAELYS_OK, reg\<lparr>atoms := atoms reg @ [atom]\<rparr>))"

definition predicate_registry_atom_allowed :: "predicate_registry \<Rightarrow> string \<Rightarrow> bool" where
  "predicate_registry_atom_allowed reg atom \<longleftrightarrow> atom \<noteq> [] \<and> atom \<in> set (atoms reg)"

definition predicate_registry_freeze :: "predicate_registry \<Rightarrow> maelys_result \<times> predicate_registry" where
  "predicate_registry_freeze reg = (MAELYS_OK, reg\<lparr>frozen := True\<rparr>)"

definition predicate_registry_is_frozen :: "predicate_registry \<Rightarrow> bool" where
  "predicate_registry_is_frozen reg = frozen reg"

fun find_loop :: "predicate_entry list \<Rightarrow> string \<Rightarrow> nat \<Rightarrow> nat \<Rightarrow> nat option" where
  "find_loop [] name n i = None"
| "find_loop (d # ds) name n i =
     (if pred_arity d = n \<and> pred_name d = name then Some i else find_loop ds name n (i + 1))"

definition predicate_registry_find :: "predicate_registry \<Rightarrow> string \<Rightarrow> nat \<Rightarrow> nat option" where
  "predicate_registry_find reg name n = find_loop (defs reg) name n 0"

definition predicate_registry_get :: "predicate_registry \<Rightarrow> nat \<Rightarrow> predicate_entry option" where
  "predicate_registry_get reg pid = (if pid \<ge> length (defs reg) then None else Some (defs reg ! pid))"

section \<open>Invariant\<close>

definition entry_valid :: "predicate_entry \<Rightarrow> bool" where
  "entry_valid d \<longleftrightarrow> pred_name d \<noteq> [] \<and> length (pred_name d) < NAME_BYTES \<and>
     pred_arity d \<le> MAX_ARITY \<and> valid_kind_flags (kind_flags d)"

definition registry_inv :: "predicate_registry \<Rightarrow> bool" where
  "registry_inv reg \<longleftrightarrow>
     length (defs reg) \<le> MAX_PREDICATES \<and> length (atoms reg) \<le> MAX_ATOMS \<and>
     distinct (map pred_name (defs reg)) \<and> distinct (atoms reg) \<and>
     (\<forall>d\<in>set (defs reg). entry_valid d) \<and>
     (\<forall>a\<in>set (atoms reg). a \<noteq> [] \<and> length a < NAME_BYTES)"

lemma redeclaration_None: "redeclaration ds name n k = None \<longleftrightarrow> name \<notin> pred_name ` set ds"
  by (induction ds) (auto split: if_splits)

lemma redeclaration_OK:
  "redeclaration ds name n k = Some MAELYS_OK \<Longrightarrow>
   \<exists>d\<in>set ds. pred_name d = name \<and> pred_arity d = n \<and> (kind_flags d OR k) = kind_flags d"
  by (induction ds) (auto split: if_splits simp: or.idem)

lemma find_loop_Some:
  "find_loop ds name n i = Some j \<Longrightarrow>
   i \<le> j \<and> j - i < length ds \<and> pred_name (ds ! (j - i)) = name \<and> pred_arity (ds ! (j - i)) = n"
proof (induction ds arbitrary: i)
  case (Cons d ds)
  show ?case
  proof (cases "pred_arity d = n \<and> pred_name d = name")
    case False
    then have "find_loop ds name n (i + 1) = Some j" using Cons.prems by auto
    from Cons.IH[OF this] show ?thesis by (auto simp: nth_Cons' Suc_diff_Suc)
  qed (use Cons in auto)
qed simp

lemma find_loop_None: "find_loop ds name n i = None \<longleftrightarrow> (\<forall>d\<in>set ds. \<not> (pred_arity d = n \<and> pred_name d = name))"
  by (induction ds arbitrary: i) auto

lemma find_loop_append: "find_loop ds name n i = Some j \<Longrightarrow> find_loop (ds @ es) name n i = Some j"
  by (induction ds arbitrary: i) (auto split: if_splits)

lemma find_Some:
  assumes "predicate_registry_find reg name n = Some pid"
  shows "pid < length (defs reg)" "pred_name (defs reg ! pid) = name" "pred_arity (defs reg ! pid) = n"
    "predicate_registry_get reg pid = Some (defs reg ! pid)"
  using find_loop_Some[of "defs reg" name n 0 pid] assms
  by (auto simp: predicate_registry_find_def predicate_registry_get_def)

lemma find_declared:
  assumes "registry_inv reg" "pid < length (defs reg)"
  shows "predicate_registry_find reg (pred_name (defs reg ! pid)) (pred_arity (defs reg ! pid)) = Some pid"
proof -
  let ?d = "defs reg ! pid"
  have "predicate_registry_find reg (pred_name ?d) (pred_arity ?d) \<noteq> None"
    using assms(2) by (auto simp: predicate_registry_find_def find_loop_None)
  then obtain j where j: "predicate_registry_find reg (pred_name ?d) (pred_arity ?d) = Some j" by auto
  then have "map pred_name (defs reg) ! j = map pred_name (defs reg) ! pid"
    using find_Some[OF j] assms by simp
  then have "j = pid"
    using assms find_Some(1)[OF j] nth_eq_iff_index_eq[of "map pred_name (defs reg)" j pid]
    by (simp add: registry_inv_def)
  with j show ?thesis by simp
qed

text \<open>What an \<^verbatim>\<open>add\<close> does to the registry, whatever it returns.\<close>

lemma add_cases:
  assumes "predicate_registry_add reg name n k = (rc, reg')"
  shows "(rc = MAELYS_OK \<and> reg' = reg \<and> (\<exists>d\<in>set (defs reg). pred_name d = name \<and> pred_arity d = n \<and>
            (kind_flags d OR k) = kind_flags d)) \<or>
         (rc = MAELYS_OK \<and> \<not> frozen reg \<and> length (defs reg) < MAX_PREDICATES \<and> name \<notin> pred_name ` set (defs reg) \<and>
            entry_valid \<lparr>pred_name = name, pred_arity = n, kind_flags = k\<rparr> \<and>
            reg' = reg\<lparr>defs := defs reg @ [\<lparr>pred_name = name, pred_arity = n, kind_flags = k\<rparr>]\<rparr>) \<or>
         (rc \<noteq> MAELYS_OK \<and> reg' = reg)"
  using assms redeclaration_None[of "defs reg" name n k] redeclaration_OK[of "defs reg" name n k]
  by (auto simp: predicate_registry_add_def entry_valid_def split: if_splits option.splits)

lemma registry_inv_init: "registry_inv predicate_registry_init"
  by (simp add: registry_inv_def predicate_registry_init_def)

lemma registry_inv_add:
  assumes "registry_inv reg" "predicate_registry_add reg name n k = (rc, reg')"
  shows "registry_inv reg'"
  using add_cases[OF assms(2)] assms(1) by (auto simp: registry_inv_def)

lemma registry_inv_add_atom:
  assumes "registry_inv reg" "predicate_registry_add_atom reg atom = (rc, reg')"
  shows "registry_inv reg'"
  using assms by (auto simp: predicate_registry_add_atom_def registry_inv_def split: if_splits)

section \<open>The vocabulary contract\<close>

text \<open>
  What the users of a registry rely on (the parser, the extensional database, the compiler): every
  operation keeps the invariant and only appends declarations, so an identifier never changes its meaning.
\<close>

locale append_only_registry =
  fixes inv :: "'r \<Rightarrow> bool" and decls :: "'r \<Rightarrow> 'd list" and step :: "'op \<Rightarrow> 'r \<Rightarrow> 'r"
  assumes step_inv: "inv r \<Longrightarrow> inv (step op r)"
    and step_append: "\<exists>new. decls (step op r) = decls r @ new"
begin

lemma run_inv: "inv r \<Longrightarrow> inv (fold step ops r)"
  by (induction ops arbitrary: r) (auto intro: step_inv)

lemma run_append: "\<exists>new. decls (fold step ops r) = decls r @ new"
proof (induction ops arbitrary: r)
  case (Cons op ops)
  from Cons.IH[of "step op r"] step_append[of op r] show ?case by auto
qed simp

lemma run_nth: "i < length (decls r) \<Longrightarrow> i < length (decls (fold step ops r)) \<and> decls (fold step ops r) ! i = decls r ! i"
  using run_append[of ops r] by (auto simp: nth_append)

end

datatype registry_op =
    OP_ADD string nat "32 word"
  | OP_ADD_MANIFEST string nat "32 word"
  | OP_ADD_ATOM string
  | OP_FREEZE

fun registry_step :: "registry_op \<Rightarrow> predicate_registry \<Rightarrow> predicate_registry" where
  "registry_step (OP_ADD name n k) reg = snd (predicate_registry_add reg name n k)"
| "registry_step (OP_ADD_MANIFEST name n k) reg = snd (predicate_registry_add_manifest_predicate reg name n k)"
| "registry_step (OP_ADD_ATOM atom) reg = snd (predicate_registry_add_atom reg atom)"
| "registry_step OP_FREEZE reg = snd (predicate_registry_freeze reg)"

interpretation vocabulary: append_only_registry registry_inv defs registry_step
proof unfold_locales
  show "registry_inv (registry_step op r)" if "registry_inv r" for op r
  proof -
    have "registry_inv (snd (predicate_registry_add r name n k))" for name n k
      by (rule registry_inv_add[OF that prod.collapse[symmetric]])
    moreover have "registry_inv (snd (predicate_registry_add_atom r atom))" for atom
      by (rule registry_inv_add_atom[OF that prod.collapse[symmetric]])
    moreover have "registry_inv (r\<lparr>frozen := True\<rparr>)" using that by (simp add: registry_inv_def)
    ultimately show ?thesis using that
      by (cases op) (simp_all add: predicate_registry_add_manifest_predicate_def predicate_registry_freeze_def)
  qed
  show "\<exists>new. defs (registry_step op r) = defs r @ new" for op r
  proof -
    have add: "\<exists>new. defs (snd (predicate_registry_add r name n k)) = defs r @ new" for name n k
      using add_cases[of r name n k] by (cases "predicate_registry_add r name n k") auto
    show ?thesis
      by (cases op) (auto simp: add predicate_registry_add_manifest_predicate_def
          predicate_registry_add_atom_def predicate_registry_freeze_def)
  qed
qed

lemma frozen_step: "frozen reg \<Longrightarrow> registry_step op reg = reg"
  by (cases op) (auto simp: predicate_registry_add_def predicate_registry_add_manifest_predicate_def
      predicate_registry_add_atom_def predicate_registry_freeze_def)

section \<open>Properties\<close>

text \<open>
  A declaration is found under its name and arity: after \<^verbatim>\<open>maelys_datalog_predicate_registry_add\<close>
  returns OK, and after any further sequence of declarations, atoms, freezes and refused calls,
  \<^verbatim>\<open>find\<close> returns an identifier, always the same, and \<^verbatim>\<open>get\<close> gives back an entry with that name and
  arity whose kinds include the requested ones.
\<close>

theorem registry_add_find:
  assumes "registry_inv reg" "predicate_registry_add reg name n k = (MAELYS_OK, reg')"
  shows "\<exists>pid d. predicate_registry_find (fold registry_step ops reg') name n = Some pid \<and>
    predicate_registry_get (fold registry_step ops reg') pid = Some d \<and>
    pred_name d = name \<and> pred_arity d = n \<and> (kind_flags d OR k) = kind_flags d \<and>
    pid < MAX_PREDICATES \<and> predicate_registry_find reg' name n = Some pid"
proof -
  have "\<exists>d\<in>set (defs reg'). pred_name d = name \<and> pred_arity d = n \<and> (kind_flags d OR k) = kind_flags d"
    using add_cases[OF assms(2)] by (auto simp: or.idem)
  then obtain pid where p: "pid < length (defs reg')" "pred_name (defs reg' ! pid) = name"
    "pred_arity (defs reg' ! pid) = n" "(kind_flags (defs reg' ! pid) OR k) = kind_flags (defs reg' ! pid)"
    by (metis in_set_conv_nth)
  have inv: "registry_inv reg'" using registry_inv_add[OF assms] .
  have q: "pid < length (defs (fold registry_step ops reg'))" "defs (fold registry_step ops reg') ! pid = defs reg' ! pid"
    using vocabulary.run_nth[OF p(1), of ops] by auto
  have fin: "registry_inv (fold registry_step ops reg')" by (rule vocabulary.run_inv[OF inv])
  then have "pid < MAX_PREDICATES" using q(1) by (simp add: registry_inv_def)
  then show ?thesis
    using find_declared[OF fin q(1)] find_declared[OF inv p(1)] p q
    by (auto simp: predicate_registry_get_def)
qed

theorem registry_add_find_witness:
  "\<exists>pid d. predicate_registry_find (fold registry_step [OP_ADD ''role'' 1 1, OP_FREEZE, OP_ADD_ATOM ''x'']
      (snd (predicate_registry_add predicate_registry_init ''user'' 1 1))) ''user'' 1 = Some pid \<and>
    predicate_registry_get (fold registry_step [OP_ADD ''role'' 1 1, OP_FREEZE, OP_ADD_ATOM ''x'']
      (snd (predicate_registry_add predicate_registry_init ''user'' 1 1))) pid = Some d \<and> pred_name d = ''user''"
proof -
  have "predicate_registry_add predicate_registry_init ''user'' 1 1 =
    (MAELYS_OK, snd (predicate_registry_add predicate_registry_init ''user'' 1 1))"
    by (simp add: predicate_registry_add_def predicate_registry_init_def limit_defs valid_kind_flags_def
        PRED_KIND_EDB_def NAME_BYTES_def)
  from registry_add_find[OF registry_inv_init this] show ?thesis by blast
qed

text \<open>
  (C35) Every operation keeps the registry well formed (distinct names, valid kind combinations, arities and
  sizes within bounds), and a frozen registry never changes again, whatever is called.
\<close>

theorem registry_invariant_and_freeze:
  assumes "registry_inv reg"
  shows "registry_inv (fold registry_step ops reg) \<and>
    fold registry_step ops (snd (predicate_registry_freeze reg)) = reg\<lparr>frozen := True\<rparr>"
proof
  show "registry_inv (fold registry_step ops reg)" by (rule vocabulary.run_inv[OF assms])
  have "fold registry_step ops r = r" if "frozen r" for r
    using that by (induction ops) (simp_all add: frozen_step)
  then show "fold registry_step ops (snd (predicate_registry_freeze reg)) = reg\<lparr>frozen := True\<rparr>"
    by (simp add: predicate_registry_freeze_def)
qed

theorem registry_invariant_witness:
  "registry_inv (fold registry_step [OP_ADD ''edge'' 2 1, OP_ADD ''edge'' 3 1, OP_ADD_ATOM ''a''] predicate_registry_init)"
  using registry_invariant_and_freeze[OF registry_inv_init] by blast

end
