(* ===== verification/Edb.thy ===== *)
theory Edb
  imports Fact_Set Symbol_Table Predicate_Registry
begin

unbundle bit_operations_syntax

text \<open>
  The extensional database of \<^verbatim>\<open>src/core/maelys_datalog_edb.c\<close>. \<^verbatim>\<open>facts\<close> and
  \<^verbatim>\<open>fact_set.facts\<close> are the same array and every operation keeps \<^verbatim>\<open>fact_set.count\<close> equal to
  \<^verbatim>\<open>fact_count\<close>, so the record has one fact set; \<^verbatim>\<open>fact_capacity\<close> is its capacity. The symbol
  table and the registry, which the C record points to, are fields. A batch of pairs is a list of
  pairs, the flat array of the code read two by two.
\<close>

record edb =
  fact_set :: fact_set
  facts_per_pred :: "nat list"
  immutable :: bool
  symbols :: symbol_table
  registry :: predicate_registry

abbreviation edb_facts :: "edb \<Rightarrow> fact list" where
  "edb_facts e \<equiv> set_facts (fact_set e)"

abbreviation fact_count :: "edb \<Rightarrow> nat" where
  "fact_count e \<equiv> length (edb_facts e)"

abbreviation fact_capacity :: "edb \<Rightarrow> nat" where
  "fact_capacity e \<equiv> set_capacity (fact_set e)"

definition edb_init :: "nat \<Rightarrow> symbol_table \<Rightarrow> predicate_registry \<Rightarrow> edb" where
  "edb_init capacity syms reg =
     \<lparr>fact_set = fact_set_init capacity, facts_per_pred = replicate MAX_PREDICATES 0,
      immutable = False, symbols = syms, registry = reg\<rparr>"

definition edb_clear :: "edb \<Rightarrow> edb" where
  "edb_clear e = e\<lparr>fact_set := (fact_set e)\<lparr>set_facts := [], set_sorted := True\<rparr>,
     immutable := False, facts_per_pred := replicate MAX_PREDICATES 0\<rparr>"

definition edb_contains :: "edb \<Rightarrow> fact \<Rightarrow> bool" where
  "edb_contains e f = fact_set_contains (fact_set e) f"

text \<open>
  \<^verbatim>\<open>maelys_datalog_fact_set_term\<close> stores the tag of a term in one byte; a tag outside the enumeration
  leaves a zero payload and may wrap into it.
\<close>

fun fact_set_term :: "term \<Rightarrow> term" where
  "fact_set_term (TERM_NOKIND n) =
     (let k = term_kind (TERM_NOKIND n) mod 256
      in if k = 1 then TERM_SYMBOL 0 else if k = 2 then TERM_INT 0 else if k = 3 then TERM_BOOL 0
         else if k = 4 then TERM_VAR 0 else TERM_NOKIND (k - 4))"
| "fact_set_term t = t"

definition validate_fact :: "edb \<Rightarrow> string \<Rightarrow> term list \<Rightarrow> maelys_result + fact" where
  "validate_fact e predicate ts =
     (if length ts > MAX_ARITY then Inl MAELYS_ERR_INVALID_ARGUMENT
      else if immutable e then Inl MAELYS_ERR_INVALID_STATE
      else case predicate_registry_find (registry e) predicate (length ts) of
        None \<Rightarrow> Inl MAELYS_ERR_INVALID_FIELD
      | Some pid \<Rightarrow> (case predicate_registry_get (registry e) pid of
          None \<Rightarrow> Inl MAELYS_ERR_INVALID_FIELD
        | Some d \<Rightarrow>
            if (kind_flags d AND PRED_KIND_POLICY_FACT) \<noteq> 0 then Inl MAELYS_ERR_FORBIDDEN
            else if (kind_flags d AND PRED_KIND_EDB) = 0 then Inl MAELYS_ERR_INVALID_FIELD
            else if fact_count e \<ge> fact_capacity e \<or> fact_count e \<ge> MAX_EDB_FACTS
            then Inl MAELYS_ERR_PAYLOAD_TOO_LARGE
            else if facts_per_pred e ! pid \<ge> MAX_FACTS_PER_PRED then Inl MAELYS_ERR_PAYLOAD_TOO_LARGE
            else Inr (Fact pid (map fact_set_term ts))))"

definition edb_append :: "edb \<Rightarrow> fact \<Rightarrow> edb" where
  "edb_append e f =
     e\<lparr>fact_set := (fact_set e)\<lparr>set_facts := edb_facts e @ [f], set_sorted := False\<rparr>,
       facts_per_pred := (facts_per_pred e)[predicate_id f := facts_per_pred e ! predicate_id f + 1]\<rparr>"

definition edb_add_fact :: "edb \<Rightarrow> string \<Rightarrow> term list \<Rightarrow> maelys_result \<times> edb" where
  "edb_add_fact e predicate ts =
     (case validate_fact e predicate ts of
        Inl rc \<Rightarrow> (rc, e)
      | Inr f \<Rightarrow> if edb_contains e f then (MAELYS_OK, e) else (MAELYS_OK, edb_append e f))"

section \<open>Insertion through a private index\<close>

definition EDB_INSERT_SCAN_LIMIT :: nat where "EDB_INSERT_SCAN_LIMIT = 32"
definition EDB_INSERT_SLOTS :: nat where "EDB_INSERT_SLOTS = 2 * MAX_EDB_FACTS"

fun term_hash_value :: "term \<Rightarrow> 64 word" where
  "term_hash_value (TERM_SYMBOL a) = of_nat a"
| "term_hash_value (TERM_INT i) = of_int i"
| "term_hash_value (TERM_BOOL b) = of_int b"
| "term_hash_value (TERM_VAR v) = of_nat v"
| "term_hash_value (TERM_NOKIND _) = 0"

definition insert_bucket :: "fact \<Rightarrow> nat" where
  "insert_bucket f =
     (let h = (of_nat (predicate_id f) XOR of_nat (arity f)) * 1099511628211;
          h = fold (\<lambda>t h. (((h XOR of_nat (term_kind t)) * 1099511628211) XOR term_hash_value t) * 1099511628211)
                (terms f) (h :: 64 word);
          h = h XOR drop_bit 30 h;
          h = h * 0xbf58476d1ce4e5b9;
          h = h XOR drop_bit 27 h;
          h = h * 0x94d049bb133111eb;
          h = h XOR drop_bit 31 h
      in unat h mod EDB_INSERT_SLOTS)"

text \<open>
  The backfill at fact 33. The inner loop of the code has no bound; \<open>None\<close> stands for a walk that
  would visit every slot without meeting an empty one.
\<close>

fun backfill :: "fact list \<Rightarrow> nat \<Rightarrow> nat list \<Rightarrow> nat list option" where
  "backfill [] i slots = Some slots"
| "backfill (f # fs) i slots =
     (case next_free EDB_INSERT_SLOTS slots (insert_bucket f) EDB_INSERT_SLOTS of
        None \<Rightarrow> None
      | Some slot \<Rightarrow> backfill fs (i + 1) (slots[slot := i + 1]))"

definition indexed_duplicate :: "edb \<Rightarrow> fact \<Rightarrow> nat list \<Rightarrow> probe_result" where
  "indexed_duplicate e f slots =
     (if fact_count e \<le> EDB_INSERT_SCAN_LIMIT then
        (if edb_contains e f then PROBE_FOUND 0 else PROBE_EMPTY 0)
      else if fact_equals (edb_facts e ! (fact_count e - 1)) f then PROBE_FOUND (fact_count e - 1)
      else probe EDB_INSERT_SLOTS (\<lambda>i. fact_equals (edb_facts e ! i) f) (fact_count e) slots (insert_bucket f) 0)"

definition edb_add_fact_indexed ::
  "edb \<Rightarrow> string \<Rightarrow> term list \<Rightarrow> nat list \<Rightarrow> (maelys_result \<times> edb \<times> nat list) option" where
  "edb_add_fact_indexed e predicate ts slots =
     (case validate_fact e predicate ts of
        Inl rc \<Rightarrow> Some (rc, e, slots)
      | Inr f \<Rightarrow> (case indexed_duplicate e f slots of
          PROBE_FOUND _ \<Rightarrow> Some (MAELYS_OK, e, slots)
        | PROBE_INVALID \<Rightarrow> Some (MAELYS_ERR_INTERNAL, e, slots)
        | PROBE_EMPTY slot \<Rightarrow>
            let e' = edb_append e f
            in if fact_count e' = EDB_INSERT_SCAN_LIMIT + 1 then
                 map_option (\<lambda>slots'. (MAELYS_OK, e', slots')) (backfill (edb_facts e') 0 slots)
               else if fact_count e' > EDB_INSERT_SCAN_LIMIT then
                 Some (MAELYS_OK, e', slots[slot := fact_count e'])
               else Some (MAELYS_OK, e', slots)))"

section \<open>Symbol facts\<close>

definition validate_edb_symbol_target :: "edb \<Rightarrow> string \<Rightarrow> nat \<Rightarrow> maelys_result" where
  "validate_edb_symbol_target e predicate n =
     (if n = 0 \<or> n > MAX_ARITY then MAELYS_ERR_INVALID_ARGUMENT
      else if immutable e then MAELYS_ERR_INVALID_STATE
      else case predicate_registry_find (registry e) predicate n of
        None \<Rightarrow> MAELYS_ERR_INVALID_FIELD
      | Some pid \<Rightarrow> (case predicate_registry_get (registry e) pid of
          None \<Rightarrow> MAELYS_ERR_INVALID_FIELD
        | Some d \<Rightarrow>
            if (kind_flags d AND PRED_KIND_POLICY_FACT) \<noteq> 0 then MAELYS_ERR_FORBIDDEN
            else if (kind_flags d AND PRED_KIND_EDB) = 0 then MAELYS_ERR_INVALID_FIELD
            else MAELYS_OK))"

definition validate_edb_symbol_batch_target :: "edb \<Rightarrow> string \<Rightarrow> nat \<Rightarrow> nat \<Rightarrow> maelys_result" where
  "validate_edb_symbol_batch_target e predicate n cnt =
     (if n = 0 \<or> n > MAX_ARITY then MAELYS_ERR_INVALID_ARGUMENT
      else if immutable e then MAELYS_ERR_INVALID_STATE
      else case predicate_registry_find (registry e) predicate n of
        None \<Rightarrow> MAELYS_ERR_INVALID_FIELD
      | Some pid \<Rightarrow> (case predicate_registry_get (registry e) pid of
          None \<Rightarrow> MAELYS_ERR_INVALID_FIELD
        | Some d \<Rightarrow>
            if (kind_flags d AND PRED_KIND_POLICY_FACT) \<noteq> 0 then MAELYS_ERR_FORBIDDEN
            else if (kind_flags d AND PRED_KIND_EDB) = 0 then MAELYS_ERR_INVALID_FIELD
            else if fact_count e > fact_capacity e \<or> fact_count e > MAX_EDB_FACTS \<or>
                    facts_per_pred e ! pid > MAX_FACTS_PER_PRED then MAELYS_ERR_PAYLOAD_TOO_LARGE
            else if cnt > fact_capacity e - fact_count e then MAELYS_ERR_PAYLOAD_TOO_LARGE
            else if cnt > MAX_EDB_FACTS - fact_count e then MAELYS_ERR_PAYLOAD_TOO_LARGE
            else if cnt > MAX_FACTS_PER_PRED - facts_per_pred e ! pid then MAELYS_ERR_PAYLOAD_TOO_LARGE
            else MAELYS_OK))"

definition validate_edb_symbol_capacity :: "edb \<Rightarrow> string \<Rightarrow> nat \<Rightarrow> maelys_result" where
  "validate_edb_symbol_capacity e predicate n =
     (if fact_count e \<ge> fact_capacity e \<or> fact_count e \<ge> MAX_EDB_FACTS then MAELYS_ERR_PAYLOAD_TOO_LARGE
      else case predicate_registry_find (registry e) predicate n of
        None \<Rightarrow> MAELYS_ERR_INVALID_FIELD
      | Some pid \<Rightarrow>
          if facts_per_pred e ! pid \<ge> MAX_FACTS_PER_PRED then MAELYS_ERR_PAYLOAD_TOO_LARGE else MAELYS_OK)"

definition validate_symbol_id :: "edb \<Rightarrow> nat \<Rightarrow> maelys_result" where
  "validate_symbol_id e sid =
     (if symbol_id_is_valid (symbols e) sid then MAELYS_OK else MAELYS_ERR_INVALID_ARGUMENT)"

definition edb_intern_runtime_symbol :: "edb \<Rightarrow> string \<Rightarrow> maelys_result \<times> edb \<times> nat option" where
  "edb_intern_runtime_symbol e text =
     (if immutable e then (MAELYS_ERR_INVALID_STATE, e, None)
      else case symbol_intern (symbols e) text of (rc, tab, sid) \<Rightarrow> (rc, e\<lparr>symbols := tab\<rparr>, sid))"

definition edb_add_symbol_id_fact :: "edb \<Rightarrow> string \<Rightarrow> nat \<Rightarrow> maelys_result \<times> edb" where
  "edb_add_symbol_id_fact e predicate sid =
     (let rc = validate_edb_symbol_target e predicate 1 in if rc \<noteq> MAELYS_OK then (rc, e) else
      let rc = validate_symbol_id e sid in if rc \<noteq> MAELYS_OK then (rc, e) else
      let rc = validate_edb_symbol_capacity e predicate 1 in if rc \<noteq> MAELYS_OK then (rc, e) else
      edb_add_fact e predicate [TERM_SYMBOL sid])"

definition edb_add_symbol_ids_fact :: "edb \<Rightarrow> string \<Rightarrow> nat \<Rightarrow> nat \<Rightarrow> maelys_result \<times> edb" where
  "edb_add_symbol_ids_fact e predicate left right =
     (let rc = validate_edb_symbol_target e predicate 2 in if rc \<noteq> MAELYS_OK then (rc, e) else
      let rc = validate_symbol_id e left in if rc \<noteq> MAELYS_OK then (rc, e) else
      let rc = validate_symbol_id e right in if rc \<noteq> MAELYS_OK then (rc, e) else
      let rc = validate_edb_symbol_capacity e predicate 2 in if rc \<noteq> MAELYS_OK then (rc, e) else
      edb_add_fact e predicate [TERM_SYMBOL left, TERM_SYMBOL right])"

fun validate_ids :: "edb \<Rightarrow> nat list \<Rightarrow> maelys_result" where
  "validate_ids e [] = MAELYS_OK"
| "validate_ids e (i # is) =
     (if validate_symbol_id e i \<noteq> MAELYS_OK then validate_symbol_id e i else validate_ids e is)"

fun add_rows :: "edb \<Rightarrow> string \<Rightarrow> term list list \<Rightarrow> maelys_result \<times> edb" where
  "add_rows e predicate [] = (MAELYS_OK, e)"
| "add_rows e predicate (row # rows) =
     (case edb_add_fact e predicate row of (rc, e') \<Rightarrow>
        if rc \<noteq> MAELYS_OK then (rc, e') else add_rows e' predicate rows)"

definition edb_add_symbol_id_facts :: "edb \<Rightarrow> string \<Rightarrow> nat list \<Rightarrow> maelys_result \<times> edb" where
  "edb_add_symbol_id_facts e predicate ids =
     (if ids = [] then (MAELYS_OK, e) else
      let rc = validate_edb_symbol_batch_target e predicate 1 (length ids) in if rc \<noteq> MAELYS_OK then (rc, e) else
      let rc = validate_ids e ids in if rc \<noteq> MAELYS_OK then (rc, e) else
      add_rows e predicate (map (\<lambda>i. [TERM_SYMBOL i]) ids))"

definition edb_add_symbol_ids_facts :: "edb \<Rightarrow> string \<Rightarrow> (nat \<times> nat) list \<Rightarrow> maelys_result \<times> edb" where
  "edb_add_symbol_ids_facts e predicate pairs =
     (if pairs = [] then (MAELYS_OK, e) else
      let rc = validate_edb_symbol_batch_target e predicate 2 (length pairs) in if rc \<noteq> MAELYS_OK then (rc, e) else
      let rc = validate_ids e (concat (map (\<lambda>(l, r). [l, r]) pairs)) in if rc \<noteq> MAELYS_OK then (rc, e) else
      add_rows e predicate (map (\<lambda>(l, r). [TERM_SYMBOL l, TERM_SYMBOL r]) pairs))"

text \<open>The loop that interns the texts of a batch, in order, into the scratch array of identifiers.\<close>

fun intern_texts :: "edb \<Rightarrow> string list \<Rightarrow> nat list \<Rightarrow> maelys_result \<times> edb \<times> nat list" where
  "intern_texts e [] ids = (MAELYS_OK, e, ids)"
| "intern_texts e (s # ss) ids =
     (case edb_intern_runtime_symbol e s of
        (MAELYS_OK, e', Some sid) \<Rightarrow> intern_texts e' ss (ids @ [sid])
      | (rc, e', _) \<Rightarrow> (rc, e', ids))"

definition edb_add_runtime_symbol_facts :: "edb \<Rightarrow> string \<Rightarrow> string list \<Rightarrow> maelys_result \<times> edb" where
  "edb_add_runtime_symbol_facts e predicate vals =
     (if vals = [] then (MAELYS_OK, e)
      else if length vals > MAX_EDB_FACTS then (MAELYS_ERR_PAYLOAD_TOO_LARGE, e) else
      let rc = validate_edb_symbol_batch_target e predicate 1 (length vals) in if rc \<noteq> MAELYS_OK then (rc, e) else
      case intern_texts e vals [] of (rc, e', ids) \<Rightarrow>
        if rc \<noteq> MAELYS_OK then (rc, e') else edb_add_symbol_id_facts e' predicate ids)"

fun pair_up :: "'a list \<Rightarrow> ('a \<times> 'a) list" where
  "pair_up (x # y # zs) = (x, y) # pair_up zs"
| "pair_up _ = []"

definition edb_add_runtime_symbol_pair_facts :: "edb \<Rightarrow> string \<Rightarrow> (string \<times> string) list \<Rightarrow> maelys_result \<times> edb" where
  "edb_add_runtime_symbol_pair_facts e predicate pairs =
     (if pairs = [] then (MAELYS_OK, e)
      else if length pairs > MAX_EDB_FACTS then (MAELYS_ERR_PAYLOAD_TOO_LARGE, e) else
      let rc = validate_edb_symbol_batch_target e predicate 2 (length pairs) in if rc \<noteq> MAELYS_OK then (rc, e) else
      case intern_texts e (concat (map (\<lambda>(l, r). [l, r]) pairs)) [] of (rc, e', ids) \<Rightarrow>
        if rc \<noteq> MAELYS_OK then (rc, e') else edb_add_symbol_ids_facts e' predicate (pair_up ids))"

definition edb_add_runtime_symbol_fact :: "edb \<Rightarrow> string \<Rightarrow> string \<Rightarrow> maelys_result \<times> edb" where
  "edb_add_runtime_symbol_fact e predicate val =
     (let rc = validate_edb_symbol_target e predicate 1 in if rc \<noteq> MAELYS_OK then (rc, e) else
      let rc = validate_edb_symbol_capacity e predicate 1 in if rc \<noteq> MAELYS_OK then (rc, e) else
      case edb_intern_runtime_symbol e val of
        (MAELYS_OK, e', Some sid) \<Rightarrow> edb_add_fact e' predicate [TERM_SYMBOL sid]
      | (rc, e', _) \<Rightarrow> (rc, e'))"

definition edb_add_atom_fact :: "edb \<Rightarrow> string \<Rightarrow> string \<Rightarrow> maelys_result \<times> edb" where
  "edb_add_atom_fact e predicate atom =
     (let rc = validate_edb_symbol_target e predicate 1 in if rc \<noteq> MAELYS_OK then (rc, e) else
      if \<not> predicate_registry_atom_allowed (registry e) atom then (MAELYS_ERR_FORBIDDEN, e) else
      let rc = validate_edb_symbol_capacity e predicate 1 in if rc \<noteq> MAELYS_OK then (rc, e) else
      case symbol_intern (symbols e) atom of
        (MAELYS_OK, tab, Some sid) \<Rightarrow> edb_add_fact (e\<lparr>symbols := tab\<rparr>) predicate [TERM_SYMBOL sid]
      | (rc, tab, _) \<Rightarrow> (rc, e\<lparr>symbols := tab\<rparr>))"

section \<open>Finalization\<close>

fun recompute_loop :: "fact list \<Rightarrow> nat list \<Rightarrow> maelys_result \<times> nat list" where
  "recompute_loop [] counts = (MAELYS_OK, counts)"
| "recompute_loop (f # fs) counts =
     (let pid = predicate_id f
      in if pid \<ge> MAX_PREDICATES then (MAELYS_ERR_INVALID_FIELD, counts)
         else if counts ! pid \<ge> MAX_FACTS_PER_PRED then (MAELYS_ERR_PAYLOAD_TOO_LARGE, counts)
         else recompute_loop fs (counts[pid := counts ! pid + 1]))"

definition recompute_edb_counts :: "edb \<Rightarrow> maelys_result \<times> edb" where
  "recompute_edb_counts e =
     (case recompute_loop (edb_facts e) (replicate MAX_PREDICATES 0) of
        (rc, counts) \<Rightarrow> (rc, e\<lparr>facts_per_pred := counts\<rparr>))"

definition edb_finalize :: "edb \<Rightarrow> maelys_result \<times> edb" where
  "edb_finalize e =
     (case fact_set_sort (fact_set e) of (rc, s) \<Rightarrow> if rc \<noteq> MAELYS_OK then (rc, e\<lparr>fact_set := s\<rparr>) else
      case fact_set_dedup s of (rc, s') \<Rightarrow> if rc \<noteq> MAELYS_OK then (rc, e\<lparr>fact_set := s'\<rparr>) else
      case recompute_edb_counts (e\<lparr>fact_set := s'\<rparr>) of (rc, e') \<Rightarrow>
        if rc \<noteq> MAELYS_OK then (rc, e') else (MAELYS_OK, e'\<lparr>immutable := True\<rparr>))"

section \<open>Invariant\<close>

definition edb_kind :: "predicate_entry \<Rightarrow> bool" where
  "edb_kind d \<longleftrightarrow> (kind_flags d AND PRED_KIND_POLICY_FACT) = 0 \<and> (kind_flags d AND PRED_KIND_EDB) \<noteq> 0"

definition fact_declared :: "predicate_registry \<Rightarrow> fact \<Rightarrow> bool" where
  "fact_declared reg f \<longleftrightarrow>
     predicate_id f < length (defs reg) \<and> pred_arity (defs reg ! predicate_id f) = arity f \<and>
     edb_kind (defs reg ! predicate_id f)"

definition edb_inv :: "edb \<Rightarrow> bool" where
  "edb_inv e \<longleftrightarrow>
     registry_inv (registry e) \<and> sym_inv (symbols e) \<and>
     fact_count e \<le> fact_capacity e \<and> fact_count e \<le> MAX_EDB_FACTS \<and>
     length (facts_per_pred e) = MAX_PREDICATES \<and>
     (\<forall>p<MAX_PREDICATES. facts_per_pred e ! p = pred_count p (edb_facts e)) \<and>
     (\<forall>p. pred_count p (edb_facts e) \<le> MAX_FACTS_PER_PRED) \<and>
     distinct (edb_facts e) \<and> (\<forall>f\<in>set (edb_facts e). fact_declared (registry e) f) \<and>
     (set_sorted (fact_set e) \<longrightarrow> sorted (edb_facts e))"

lemma edb_inv_init:
  "registry_inv reg \<Longrightarrow> sym_inv syms \<Longrightarrow> edb_inv (edb_init capacity syms reg)"
  by (simp add: edb_inv_def edb_init_def fact_set_init_def)

lemma edb_inv_clear: "edb_inv e \<Longrightarrow> edb_inv (edb_clear e)"
  by (simp add: edb_inv_def edb_clear_def)

lemma edb_contains_iff: "edb_inv e \<Longrightarrow> edb_contains e f \<longleftrightarrow> f \<in> set (edb_facts e)"
  by (simp add: edb_contains_def edb_inv_def fact_set_contains_spec)

lemma declared_pid:
  "edb_inv e \<Longrightarrow> fact_declared (registry e) f \<Longrightarrow> predicate_id f < MAX_PREDICATES"
  by (auto simp: edb_inv_def fact_declared_def registry_inv_def)

text \<open>A fact passes validation exactly when it is declared for host input and the three bounds leave room for it.\<close>

lemma validate_fact_Inr:
  assumes "edb_inv e" "validate_fact e predicate ts = Inr f"
  shows "\<not> immutable e" "f = Fact (predicate_id f) (map fact_set_term ts)" "fact_declared (registry e) f"
    "predicate_registry_find (registry e) predicate (length ts) = Some (predicate_id f)"
    "fact_count e < fact_capacity e" "fact_count e < MAX_EDB_FACTS"
    "pred_count (predicate_id f) (edb_facts e) < MAX_FACTS_PER_PRED"
proof -
  from assms(2) obtain pid d where pd: "\<not> immutable e"
    "predicate_registry_find (registry e) predicate (length ts) = Some pid"
    "predicate_registry_get (registry e) pid = Some d" "edb_kind d"
    "fact_count e < fact_capacity e" "fact_count e < MAX_EDB_FACTS"
    "facts_per_pred e ! pid < MAX_FACTS_PER_PRED" "f = Fact pid (map fact_set_term ts)"
    by (auto simp: validate_fact_def edb_kind_def split: if_splits option.splits)
  have decl: "fact_declared (registry e) f"
    using find_Some[OF pd(2)] pd(3,4,8) by (simp add: fact_declared_def)
  show "\<not> immutable e" "f = Fact (predicate_id f) (map fact_set_term ts)" "fact_count e < fact_capacity e"
    "fact_count e < MAX_EDB_FACTS" "fact_declared (registry e) f"
    "predicate_registry_find (registry e) predicate (length ts) = Some (predicate_id f)"
    using pd decl by simp_all
  show "pred_count (predicate_id f) (edb_facts e) < MAX_FACTS_PER_PRED"
    using pd(7,8) declared_pid[OF assms(1) decl] assms(1) by (simp add: edb_inv_def)
qed

lemma edb_inv_append:
  assumes "edb_inv e" "f \<notin> set (edb_facts e)" "fact_declared (registry e) f"
    "fact_count e < fact_capacity e" "fact_count e < MAX_EDB_FACTS"
    "pred_count (predicate_id f) (edb_facts e) < MAX_FACTS_PER_PRED"
  shows "edb_inv (edb_append e f)"
  using assms declared_pid[OF assms(1,3)]
  by (auto simp: edb_inv_def edb_append_def nth_list_update)

lemma edb_append_frame [frame_simps]:
  "registry (edb_append e f) = registry e" "symbols (edb_append e f) = symbols e"
  "immutable (edb_append e f) = immutable e" "edb_facts (edb_append e f) = edb_facts e @ [f]"
  "fact_capacity (edb_append e f) = fact_capacity e"
  by (simp_all add: edb_append_def)

lemma edb_add_fact_cases:
  assumes "edb_inv e" "edb_add_fact e predicate ts = (rc, e')"
  shows "(\<exists>f. rc = MAELYS_OK \<and> validate_fact e predicate ts = Inr f \<and> edb_inv e' \<and>
            e' = (if f \<in> set (edb_facts e) then e else edb_append e f)) \<or>
         (rc \<noteq> MAELYS_OK \<and> e' = e \<and> validate_fact e predicate ts = Inl rc)"
proof (cases "validate_fact e predicate ts")
  case (Inl r)
  then have "r \<noteq> MAELYS_OK" by (auto simp: validate_fact_def split: if_splits option.splits)
  with Inl assms(2) show ?thesis by (auto simp: edb_add_fact_def)
next
  case (Inr f)
  note v = validate_fact_Inr[OF assms(1) Inr]
  show ?thesis
    using Inr assms edb_inv_append[OF assms(1) _ v(3,5,6,7)]
    by (auto simp: edb_add_fact_def edb_contains_iff)
qed

lemma edb_inv_add_fact: "edb_inv e \<Longrightarrow> edb_inv (snd (edb_add_fact e predicate ts))"
  using edb_add_fact_cases[of e predicate ts] by (metis prod.collapse)

section \<open>The indexed path refines the plain one\<close>

lemma insert_bucket_less: "insert_bucket f < EDB_INSERT_SLOTS"
  by (simp add: insert_bucket_def Let_def EDB_INSERT_SLOTS_def limit_defs)

interpretation insert_index: probing EDB_INSERT_SLOTS insert_bucket
  by unfold_locales (rule insert_bucket_less)

text \<open>The index is untouched while the scan is used and indexes every fact afterwards.\<close>

definition index_rel :: "edb \<Rightarrow> nat list \<Rightarrow> bool" where
  "index_rel e slots \<longleftrightarrow>
     (if fact_count e \<le> EDB_INSERT_SCAN_LIMIT then slots = replicate EDB_INSERT_SLOTS 0
      else insert_index.index_inv (edb_facts e) slots)"

lemma slots_room: "n \<le> MAX_EDB_FACTS \<Longrightarrow> Suc n < EDB_INSERT_SLOTS"
  by (simp add: EDB_INSERT_SLOTS_def limit_defs)

lemma backfill_spec:
  assumes "insert_index.index_inv done slots" "distinct (done @ fs)" "length (done @ fs) \<le> MAX_EDB_FACTS"
  shows "\<exists>slots'. backfill fs (length done) slots = Some slots' \<and> insert_index.index_inv (done @ fs) slots'"
  using assms
proof (induction fs arbitrary: "done" slots)
  case (Cons f fs)
  from insert_index.first_free[OF Cons.prems(1), of f] obtain d where
    d: "d < EDB_INSERT_SLOTS" "slots ! insert_index.cell f d = 0" "\<forall>d'<d. slots ! insert_index.cell f d' \<noteq> 0" .
  have "next_free EDB_INSERT_SLOTS slots (insert_bucket f) EDB_INSERT_SLOTS = Some (insert_index.cell f d)"
    using insert_index.next_free_walk[OF d(2,3), of 0 EDB_INSERT_SLOTS] d(1) by simp
  moreover have "insert_index.index_inv (done @ [f]) (slots[insert_index.cell f d := Suc (length done)])"
    using Cons.prems slots_room[of "length done"] by (intro insert_index.index_inv_add d) auto
  ultimately show ?case
    using Cons.IH[of "done @ [f]" "slots[insert_index.cell f d := Suc (length done)]"] Cons.prems by simp
qed simp

lemma indexed_step:
  assumes inv: "edb_inv e" and rel: "index_rel e slots"
  shows "\<exists>slots'. edb_add_fact_indexed e predicate ts slots =
      Some (fst (edb_add_fact e predicate ts), snd (edb_add_fact e predicate ts), slots') \<and>
    index_rel (snd (edb_add_fact e predicate ts)) slots'"
proof (cases "validate_fact e predicate ts")
  case (Inl r)
  then show ?thesis using rel by (simp add: edb_add_fact_indexed_def edb_add_fact_def)
next
  case (Inr f)
  note v = validate_fact_Inr[OF inv Inr]
  have dist: "distinct (edb_facts e)" using inv by (simp add: edb_inv_def)
  consider "f \<in> set (edb_facts e)" | "f \<notin> set (edb_facts e)" "fact_count e \<le> EDB_INSERT_SCAN_LIMIT"
    | "f \<notin> set (edb_facts e)" "fact_count e > EDB_INSERT_SCAN_LIMIT" by linarith
  then show ?thesis
  proof cases
    case 1
    have "\<exists>i. indexed_duplicate e f slots = PROBE_FOUND i"
    proof (cases "fact_count e \<le> EDB_INSERT_SCAN_LIMIT")
      case False
      from 1 obtain i where i: "i < fact_count e" "edb_facts e ! i = f" by (auto simp: in_set_conv_nth)
      from False rel have "insert_index.index_inv (edb_facts e) slots" by (simp add: index_rel_def)
      from insert_index.probe_found[OF this i(1), of "\<lambda>k. fact_equals (edb_facts e ! k) f"] i
      show ?thesis using False by (auto simp: indexed_duplicate_def)
    qed (use 1 inv in \<open>simp add: indexed_duplicate_def edb_contains_iff\<close>)
    then show ?thesis using 1 Inr inv rel
      by (auto simp: edb_add_fact_indexed_def edb_add_fact_def edb_contains_iff)
  next
    case 2
    then have dup: "indexed_duplicate e f slots = PROBE_EMPTY 0"
      using inv by (simp add: indexed_duplicate_def edb_contains_iff)
    have "\<exists>slots'. backfill (edb_facts e @ [f]) 0 slots = Some slots' \<and>
        insert_index.index_inv (edb_facts e @ [f]) slots'"
    proof -
      have "insert_index.index_inv [] slots"
        using rel 2(2) insert_index.index_inv_empty[OF insert_index.size_pos] by (simp add: index_rel_def)
      then show ?thesis using backfill_spec[of "[]" slots "edb_facts e @ [f]"] dist 2(1) v(6) by simp
    qed
    then show ?thesis using 2 Inr inv rel dup
      by (auto simp: edb_add_fact_indexed_def edb_add_fact_def edb_contains_iff index_rel_def frame_simps Let_def)
  next
    case 3
    then have ix: "insert_index.index_inv (edb_facts e) slots" using rel by (simp add: index_rel_def)
    have "\<forall>i<fact_count e. \<not> fact_equals (edb_facts e ! i) f" using 3(1) by auto
    from insert_index.probe_absent[OF ix this, of f] obtain d where
      d: "d < EDB_INSERT_SLOTS" "slots ! insert_index.cell f d = 0" "\<forall>d'<d. slots ! insert_index.cell f d' \<noteq> 0"
      "probe EDB_INSERT_SLOTS (\<lambda>i. fact_equals (edb_facts e ! i) f) (fact_count e) slots (insert_bucket f) 0 =
        PROBE_EMPTY (insert_index.cell f d)" .
    have "edb_facts e ! (fact_count e - 1) \<noteq> f" using 3 by (metis diff_less less_nat_zero_code nth_mem zero_less_one linorder_neqE_nat)
    then have dup: "indexed_duplicate e f slots = PROBE_EMPTY (insert_index.cell f d)"
      using d 3 by (simp add: indexed_duplicate_def)
    have "insert_index.index_inv (edb_facts e @ [f]) (slots[insert_index.cell f d := Suc (fact_count e)])"
      using ix 3(1) v(6) slots_room[of "fact_count e"] d by (intro insert_index.index_inv_add) auto
    then show ?thesis using 3 Inr inv dup
      by (simp add: edb_add_fact_indexed_def edb_add_fact_def edb_contains_iff index_rel_def frame_simps Let_def)
  qed
qed

section \<open>Batches\<close>

text \<open>A batch target that passed validation: its predicate and the room for \<open>cnt\<close> more facts.\<close>

definition batch_room :: "edb \<Rightarrow> string \<Rightarrow> nat \<Rightarrow> nat \<Rightarrow> nat \<Rightarrow> bool" where
  "batch_room e predicate n pid cnt \<longleftrightarrow>
     \<not> immutable e \<and> n \<le> MAX_ARITY \<and> predicate_registry_find (registry e) predicate n = Some pid \<and>
     edb_kind (defs (registry e) ! pid) \<and>
     fact_count e + cnt \<le> fact_capacity e \<and> fact_count e + cnt \<le> MAX_EDB_FACTS \<and>
     pred_count pid (edb_facts e) + cnt \<le> MAX_FACTS_PER_PRED"

lemma batch_target_room:
  assumes "edb_inv e" "validate_edb_symbol_batch_target e predicate n cnt = MAELYS_OK"
  shows "\<exists>pid. batch_room e predicate n pid cnt"
proof -
  from assms(2) obtain pid d where pd: "\<not> immutable e" "n \<le> MAX_ARITY"
    "predicate_registry_find (registry e) predicate n = Some pid"
    "predicate_registry_get (registry e) pid = Some d" "edb_kind d"
    "fact_count e + cnt \<le> fact_capacity e" "fact_count e + cnt \<le> MAX_EDB_FACTS"
    "facts_per_pred e ! pid + cnt \<le> MAX_FACTS_PER_PRED"
    by (auto simp: validate_edb_symbol_batch_target_def edb_kind_def split: if_splits option.splits)
  have "pid < MAX_PREDICATES" using find_Some(1)[OF pd(3)] assms(1) by (simp add: edb_inv_def registry_inv_def)
  then show ?thesis using pd find_Some(4)[OF pd(3)] assms(1)
    by (auto simp: batch_room_def edb_inv_def)
qed

lemma batch_room_validate:
  assumes "edb_inv e" "batch_room e predicate n pid (Suc cnt)" "length ts = n"
  shows "validate_fact e predicate ts = Inr (Fact pid (map fact_set_term ts))"
proof -
  have find: "predicate_registry_find (registry e) predicate (length ts) = Some pid"
    using assms by (simp add: batch_room_def)
  have "pid < MAX_PREDICATES" using find_Some(1)[OF find] assms(1) by (simp add: edb_inv_def registry_inv_def)
  then have "facts_per_pred e ! pid < MAX_FACTS_PER_PRED" using assms by (simp add: edb_inv_def batch_room_def)
  then show ?thesis using assms find find_Some(4)[OF find]
    by (auto simp: validate_fact_def batch_room_def edb_kind_def)
qed

lemma add_rows_room:
  assumes "edb_inv e" "batch_room e predicate n pid (length rows)" "\<forall>row\<in>set rows. length row = n"
  shows "\<exists>e'. add_rows e predicate rows = (MAELYS_OK, e') \<and> edb_inv e' \<and>
    set (edb_facts e') = set (edb_facts e) \<union> (\<lambda>row. Fact pid (map fact_set_term row)) ` set rows \<and>
    registry e' = registry e \<and> symbols e' = symbols e \<and> fact_capacity e' = fact_capacity e \<and> \<not> immutable e'"
  using assms
proof (induction rows arbitrary: e)
  case Nil
  then show ?case by (simp add: batch_room_def)
next
  case (Cons row rows)
  let ?f = "Fact pid (map fact_set_term row)"
  have v: "validate_fact e predicate row = Inr ?f"
    using Cons.prems by (intro batch_room_validate[of _ _ n]) auto
  define e1 where "e1 = snd (edb_add_fact e predicate row)"
  have e1: "edb_add_fact e predicate row = (MAELYS_OK, e1)"
    using v by (simp add: e1_def edb_add_fact_def)
  have e1_eq: "e1 = (if ?f \<in> set (edb_facts e) then e else edb_append e ?f)" "edb_inv e1"
    using edb_add_fact_cases[OF Cons.prems(1) e1] v by auto
  then have "batch_room e1 predicate n pid (length rows)"
    using Cons.prems(2) by (auto simp: batch_room_def frame_simps)
  from Cons.IH[OF e1_eq(2) this] Cons.prems(3) e1 e1_eq(1) Cons.prems(2)
  show ?case by (auto simp: frame_simps split: if_splits)
qed

lemma validate_ids_OK: "validate_ids e ids = MAELYS_OK \<longleftrightarrow> (\<forall>i\<in>set ids. symbol_id_is_valid (symbols e) i)"
  by (induction ids) (auto simp: validate_symbol_id_def)

section \<open>Finalization\<close>

lemma recompute_loop_spec:
  assumes "length counts = MAX_PREDICATES" "\<forall>f\<in>set fs. predicate_id f < MAX_PREDICATES"
    "\<forall>p<MAX_PREDICATES. counts ! p + pred_count p fs \<le> MAX_FACTS_PER_PRED"
  shows "\<exists>counts'. recompute_loop fs counts = (MAELYS_OK, counts') \<and> length counts' = MAX_PREDICATES \<and>
    (\<forall>p<MAX_PREDICATES. counts' ! p = counts ! p + pred_count p fs)"
  using assms
proof (induction fs arbitrary: counts)
  case (Cons f fs)
  let ?c = "counts[predicate_id f := counts ! predicate_id f + 1]"
  have pid: "predicate_id f < MAX_PREDICATES" using Cons.prems(2) by simp
  then have room: "counts ! predicate_id f < MAX_FACTS_PER_PRED" using Cons.prems(3) by fastforce
  have val: "?c ! p + pred_count p fs = counts ! p + pred_count p (f # fs)" for p
    using pid Cons.prems(1) by (auto simp: nth_list_update_if)
  from Cons.IH[of ?c] Cons.prems have "\<exists>counts'. recompute_loop fs ?c = (MAELYS_OK, counts') \<and>
      length counts' = MAX_PREDICATES \<and> (\<forall>p<MAX_PREDICATES. counts' ! p = counts ! p + pred_count p (f # fs))"
    unfolding val by simp
  then show ?case using pid room by (simp add: Let_def)
qed simp

lemma edb_finalize_spec:
  assumes "edb_inv e"
  shows "\<exists>e'. edb_finalize e = (MAELYS_OK, e') \<and> edb_inv e' \<and> immutable e' \<and> set_sorted (fact_set e') \<and>
    edb_facts e' = sorted_list_of_set (set (edb_facts e)) \<and> registry e' = registry e \<and> symbols e' = symbols e"
proof -
  let ?s = "(fact_set e)\<lparr>set_facts := sort (edb_facts e), set_sorted := True\<rparr>"
  have sort: "fact_set_sort (fact_set e) = (MAELYS_OK, ?s)"
    using assms by (intro fact_set_sort_spec) (auto simp: edb_inv_def)
  have ded: "fact_set_dedup ?s = (MAELYS_OK, ?s\<lparr>set_facts := sorted_list_of_set (set (edb_facts e))\<rparr>)"
    using fact_set_dedup_spec[of ?s] by simp
  let ?fs = "sorted_list_of_set (set (edb_facts e))"
  have canon: "?fs = sort (edb_facts e)"
    using assms by (simp add: sorted_list_of_set_sort_remdups edb_inv_def distinct_remdups_id)
  have pc: "pred_count p ?fs = pred_count p (edb_facts e)" for p
    unfolding canon pred_count_def by (metis mset_filter mset_sort size_mset)
  from recompute_loop_spec[of "replicate MAX_PREDICATES 0" ?fs] obtain counts where
    c: "recompute_loop ?fs (replicate MAX_PREDICATES 0) = (MAELYS_OK, counts)" "length counts = MAX_PREDICATES"
    "\<forall>p<MAX_PREDICATES. counts ! p = pred_count p (edb_facts e)"
    using assms declared_pid[OF assms] by (auto simp: pc edb_inv_def)
  have "length ?fs = fact_count e" unfolding canon by simp
  then show ?thesis
    using sort ded c assms pc by (simp add: edb_finalize_def recompute_edb_counts_def edb_inv_def)
qed

section \<open>The store contract\<close>

text \<open>
  What the session and the runtime rely on: insertions keep the invariant, never lose a fact and never
  change the vocabulary; once finalized, the facts are the canonical array of the set inserted.
\<close>

locale fact_store =
  fixes inv :: "'s \<Rightarrow> bool" and contents :: "'s \<Rightarrow> fact set" and insert_fact :: "'i \<Rightarrow> 's \<Rightarrow> maelys_result \<times> 's"
    and seal :: "'s \<Rightarrow> maelys_result \<times> 's" and sealed_array :: "'s \<Rightarrow> fact list"
  assumes insert_inv: "inv s \<Longrightarrow> inv (snd (insert_fact i s))"
    and insert_mono: "inv s \<Longrightarrow> contents s \<subseteq> contents (snd (insert_fact i s))"
    and seal_ok: "inv s \<Longrightarrow> fst (seal s) = MAELYS_OK \<and> sealed_array (snd (seal s)) = sorted_list_of_set (contents s)"
begin

lemma insertions:
  "inv s \<Longrightarrow> inv (fold (\<lambda>i s. snd (insert_fact i s)) is s) \<and>
     contents s \<subseteq> contents (fold (\<lambda>i s. snd (insert_fact i s)) is s)"
proof (induction "is" arbitrary: s)
  case (Cons i "is")
  from Cons.IH[of "snd (insert_fact i s)"] insert_inv[OF Cons.prems, of i] insert_mono[OF Cons.prems, of i]
  show ?case by auto
qed simp

text \<open>The sealed array depends only on the set of facts inserted, not on the order or on repetitions.\<close>

lemma sealed_canonical:
  assumes "inv s" "inv s'" "contents s = contents s'"
  shows "sealed_array (snd (seal s)) = sealed_array (snd (seal s'))"
  using seal_ok[OF assms(1)] seal_ok[OF assms(2)] assms(3) by simp

end

interpretation store: fact_store edb_inv "\<lambda>e. set (edb_facts e)" "\<lambda>i e. edb_add_fact e (fst i) (snd i)"
  edb_finalize edb_facts
proof unfold_locales
  fix e :: edb and i :: "string \<times> term list" assume inv: "edb_inv e"
  show "edb_inv (snd (edb_add_fact e (fst i) (snd i)))" by (rule edb_inv_add_fact[OF inv])
  show "set (edb_facts e) \<subseteq> set (edb_facts (snd (edb_add_fact e (fst i) (snd i))))"
    by (auto simp: edb_add_fact_def frame_simps split: sum.splits)
next
  fix e :: edb assume "edb_inv e"
  from edb_finalize_spec[OF this]
  show "fst (edb_finalize e) = MAELYS_OK \<and> edb_facts (snd (edb_finalize e)) = sorted_list_of_set (set (edb_facts e))"
    by auto
qed

lemma batch_ids_atomic:
  assumes "edb_inv e"
  shows "case edb_add_symbol_id_facts e predicate ids of (rc, e') \<Rightarrow>
      if rc = MAELYS_OK
      then edb_inv e' \<and> (\<exists>pid. (ids \<noteq> [] \<longrightarrow> predicate_registry_find (registry e) predicate 1 = Some pid) \<and>
        set (edb_facts e') = set (edb_facts e) \<union> (\<lambda>i. Fact pid [TERM_SYMBOL i]) ` set ids)
      else e' = e"
proof (cases "ids \<noteq> [] \<and> validate_edb_symbol_batch_target e predicate 1 (length ids) = MAELYS_OK \<and>
    validate_ids e ids = MAELYS_OK")
  case True
  with batch_target_room[OF assms] obtain pid where room: "batch_room e predicate 1 pid (length ids)" by blast
  from add_rows_room[OF assms, of predicate 1 pid "map (\<lambda>i. [TERM_SYMBOL i]) ids"] room obtain e' where
    "add_rows e predicate (map (\<lambda>i. [TERM_SYMBOL i]) ids) = (MAELYS_OK, e')" "edb_inv e'"
    "set (edb_facts e') = set (edb_facts e) \<union> (\<lambda>i. Fact pid [TERM_SYMBOL i]) ` set ids"
    by (auto simp: image_image)
  moreover have "predicate_registry_find (registry e) predicate 1 = Some pid" using room by (simp add: batch_room_def)
  ultimately show ?thesis using True by (auto simp: edb_add_symbol_id_facts_def)
qed (use assms in \<open>auto simp: edb_add_symbol_id_facts_def Let_def\<close>)

lemma batch_pairs_atomic:
  assumes "edb_inv e"
  shows "case edb_add_symbol_ids_facts e predicate pairs of (rc, e') \<Rightarrow>
      if rc = MAELYS_OK
      then edb_inv e' \<and> (\<exists>pid. (pairs \<noteq> [] \<longrightarrow> predicate_registry_find (registry e) predicate 2 = Some pid) \<and>
        set (edb_facts e') = set (edb_facts e) \<union> (\<lambda>(l, r). Fact pid [TERM_SYMBOL l, TERM_SYMBOL r]) ` set pairs)
      else e' = e"
proof (cases "pairs \<noteq> [] \<and> validate_edb_symbol_batch_target e predicate 2 (length pairs) = MAELYS_OK \<and>
    validate_ids e (concat (map (\<lambda>(l, r). [l, r]) pairs)) = MAELYS_OK")
  case True
  let ?rows = "map (\<lambda>(l, r). [TERM_SYMBOL l, TERM_SYMBOL r]) pairs"
  from True batch_target_room[OF assms] obtain pid where room: "batch_room e predicate 2 pid (length pairs)" by blast
  have img: "(\<lambda>row. Fact pid (map fact_set_term row)) ` set ?rows =
      (\<lambda>(l, r). Fact pid [TERM_SYMBOL l, TERM_SYMBOL r]) ` set pairs"
    by (force simp: image_image)
  have "\<forall>row\<in>set ?rows. length row = 2" by auto
  from add_rows_room[OF assms _ this, of predicate pid] room obtain e' where
    "add_rows e predicate ?rows = (MAELYS_OK, e')" "edb_inv e'"
    "set (edb_facts e') = set (edb_facts e) \<union> (\<lambda>(l, r). Fact pid [TERM_SYMBOL l, TERM_SYMBOL r]) ` set pairs"
    unfolding img by auto
  moreover have "predicate_registry_find (registry e) predicate 2 = Some pid" using room by (simp add: batch_room_def)
  ultimately show ?thesis using True by (auto simp: edb_add_symbol_ids_facts_def)
qed (use assms in \<open>auto simp: edb_add_symbol_ids_facts_def Let_def\<close>)

section \<open>Properties\<close>


definition demo_registry :: predicate_registry where
  "demo_registry = \<lparr>defs = [\<lparr>pred_name = ''user'', pred_arity = 1, kind_flags = 1\<rparr>,
     \<lparr>pred_name = ''allow'', pred_arity = 1, kind_flags = 6\<rparr>], atoms = [], frozen = True\<rparr>"

definition demo_edb :: edb where
  "demo_edb = edb_init 16 symbol_table_init demo_registry"

lemma demo_edb_inv: "edb_inv demo_edb"
  unfolding demo_edb_def
  by (rule edb_inv_init[OF _ sym_inv_init])
    (simp add: registry_inv_def demo_registry_def entry_valid_def limit_defs NAME_BYTES_def valid_kind_flags_def kind_defs)


text \<open>
  (C29) \<^verbatim>\<open>maelys_datalog_edb_add_fact_indexed\<close> is equivalent to the plain insertion: run over any sequence of
  insertions from an empty database and a zeroed index, through the scan, the backfill at fact 33 and the
  hashed path, it terminates, returns the same codes and builds the same database.
\<close>

fun run_indexed :: "(string \<times> term list) list \<Rightarrow> edb \<Rightarrow> nat list \<Rightarrow> (maelys_result list \<times> edb) option" where
  "run_indexed [] e slots = Some ([], e)"
| "run_indexed ((predicate, ts) # rest) e slots =
     (case edb_add_fact_indexed e predicate ts slots of
        None \<Rightarrow> None
      | Some (rc, e', slots') \<Rightarrow> map_option (\<lambda>(rcs, e''). (rc # rcs, e'')) (run_indexed rest e' slots'))"

fun run_plain :: "(string \<times> term list) list \<Rightarrow> edb \<Rightarrow> maelys_result list \<times> edb" where
  "run_plain [] e = ([], e)"
| "run_plain ((predicate, ts) # rest) e =
     (case edb_add_fact e predicate ts of (rc, e') \<Rightarrow>
        case run_plain rest e' of (rcs, e'') \<Rightarrow> (rc # rcs, e''))"

theorem edb_indexed_equivalent:
  assumes "registry_inv reg" "sym_inv syms"
  shows "run_indexed inserts (edb_init capacity syms reg) (replicate EDB_INSERT_SLOTS 0) =
    Some (run_plain inserts (edb_init capacity syms reg))"
proof -
  have "run_indexed inserts e slots = Some (run_plain inserts e)" if "edb_inv e" "index_rel e slots" for e slots
    using that
  proof (induction inserts arbitrary: e slots)
    case (Cons i rest)
    obtain predicate ts where i: "i = (predicate, ts)" by fastforce
    from indexed_step[OF Cons.prems, of predicate ts] obtain slots' where
      s: "edb_add_fact_indexed e predicate ts slots =
        Some (fst (edb_add_fact e predicate ts), snd (edb_add_fact e predicate ts), slots')"
      "index_rel (snd (edb_add_fact e predicate ts)) slots'" by blast
    from Cons.IH[OF edb_inv_add_fact[OF Cons.prems(1)] s(2)] s(1) show ?case
      by (simp add: i split: prod.splits)
  qed simp
  moreover have "index_rel (edb_init capacity syms reg) (replicate EDB_INSERT_SLOTS 0)"
    by (simp add: index_rel_def edb_init_def fact_set_init_def EDB_INSERT_SCAN_LIMIT_def)
  ultimately show ?thesis using edb_inv_init[OF assms] by blast
qed

theorem edb_indexed_witness:
  "run_indexed [(''user'', [TERM_INT 7]), (''user'', [TERM_INT 7])] demo_edb (replicate EDB_INSERT_SLOTS 0) =
   Some (run_plain [(''user'', [TERM_INT 7]), (''user'', [TERM_INT 7])] demo_edb)"
  unfolding demo_edb_def
  by (rule edb_indexed_equivalent[OF _ sym_inv_init])
    (simp add: registry_inv_def demo_registry_def entry_valid_def limit_defs NAME_BYTES_def valid_kind_flags_def kind_defs)

text \<open>
  (C30) Batches of symbol identifiers are atomic: \<^verbatim>\<open>maelys_datalog_edb_add_symbol_id_facts\<close> and
  \<^verbatim>\<open>maelys_datalog_edb_add_symbol_ids_facts\<close> either insert every fact of the batch or refuse the whole batch
  and leave the database as it was; in particular no insertion fails after validation.
\<close>

theorem edb_batch_atomic:
  assumes "edb_inv e"
  shows "(case edb_add_symbol_id_facts e predicate ids of (rc, e') \<Rightarrow>
      if rc = MAELYS_OK
      then edb_inv e' \<and> (\<exists>pid. (ids \<noteq> [] \<longrightarrow> predicate_registry_find (registry e) predicate 1 = Some pid) \<and>
        set (edb_facts e') = set (edb_facts e) \<union> (\<lambda>i. Fact pid [TERM_SYMBOL i]) ` set ids)
      else e' = e) \<and>
    (case edb_add_symbol_ids_facts e predicate pairs of (rc, e') \<Rightarrow>
      if rc = MAELYS_OK
      then edb_inv e' \<and> (\<exists>pid. (pairs \<noteq> [] \<longrightarrow> predicate_registry_find (registry e) predicate 2 = Some pid) \<and>
        set (edb_facts e') = set (edb_facts e) \<union> (\<lambda>(l, r). Fact pid [TERM_SYMBOL l, TERM_SYMBOL r]) ` set pairs)
      else e' = e)"
  by (rule conjI[OF batch_ids_atomic[OF assms] batch_pairs_atomic[OF assms]])

theorem edb_batch_witness:
  "edb_add_symbol_id_facts demo_edb ''user'' [3] = (MAELYS_ERR_INVALID_ARGUMENT, demo_edb)"
proof -
  have rc: "fst (edb_add_symbol_id_facts demo_edb ''user'' [3]) = MAELYS_ERR_INVALID_ARGUMENT"
    by (simp add: demo_edb_def demo_registry_def edb_init_def edb_add_symbol_id_facts_def validate_edb_symbol_batch_target_def
        limit_defs kind_defs predicate_registry_find_def predicate_registry_get_def fact_set_init_def
        validate_symbol_id_def symbol_id_is_valid_def symbol_table_init_def)
  with edb_batch_atomic[OF demo_edb_inv, where predicate = "''user''" and ids = "[3]", THEN conjunct1] show ?thesis
    by (cases "edb_add_symbol_id_facts demo_edb ''user'' [3]") simp
qed



end
