(* ===== verification/Filters.thy ===== *)
theory Filters
  imports Core_Types
begin

text \<open>
  Filter modules: the standard string filters of \<^verbatim>\<open>modules/standard/string_filters.c\<close>, the catalog a
  ruleset refers to (the part of \<^verbatim>\<open>src/registry/maelys_datalog_modules.c\<close> the engine reads), and the guarded
  calls of \<^verbatim>\<open>src/core/maelys_datalog_filter.c\<close>. A registered module is code outside the repository: its
  three callbacks are function-valued fields returning a status and an output, whatever they are; the
  guards that turn them into results are the repository's.
\<close>

record filter_module =
  fm_name :: string
  fm_semantic_id :: string
  fm_validate_pattern :: "string \<Rightarrow> int"
  fm_cost :: "nat \<Rightarrow> nat \<Rightarrow> int \<times> nat"
  fm_evaluate :: "string \<Rightarrow> string \<Rightarrow> int \<times> int"

section \<open>Standard string filters\<close>

definition SIZE_MAX :: nat where "SIZE_MAX = 2 ^ 64 - 1"

definition filter_validate :: "string \<Rightarrow> int" where
  "filter_validate pattern = 0"

definition edge_cost :: "nat \<Rightarrow> nat \<Rightarrow> int \<times> nat" where
  "edge_cost v p = (0, p)"

definition contains_cost :: "nat \<Rightarrow> nat \<Rightarrow> int \<times> nat" where
  "contains_cost v p =
     (let v = (if v = 0 then 1 else v); p = (if p = 0 then 1 else p)
      in if v > SIZE_MAX div p then (-12, 0) else (0, v * p))"

text \<open>\<^verbatim>\<open>memcmp(v + i, p, pn) == 0\<close>.\<close>

definition bytes_at :: "string \<Rightarrow> nat \<Rightarrow> string \<Rightarrow> bool" where
  "bytes_at v i p \<longleftrightarrow> take (length p) (drop i v) = p"

definition starts_with :: "string \<Rightarrow> string \<Rightarrow> int \<times> int" where
  "starts_with v p = (0, if p = [] \<or> (length v \<ge> length p \<and> bytes_at v 0 p) then 1 else 0)"

definition ends_with :: "string \<Rightarrow> string \<Rightarrow> int \<times> int" where
  "ends_with v p = (0, if p = [] \<or> (length v \<ge> length p \<and> bytes_at v (length v - length p) p) then 1 else 0)"

text \<open>The search loop of \<^verbatim>\<open>contains\<close>, for \<open>n\<close> remaining start positions from \<open>i\<close>.\<close>

fun contains_loop :: "string \<Rightarrow> string \<Rightarrow> nat \<Rightarrow> nat \<Rightarrow> int" where
  "contains_loop v p i 0 = 0"
| "contains_loop v p i (Suc n) = (if bytes_at v i p then 1 else contains_loop v p (i + 1) n)"

definition contains_bytes :: "string \<Rightarrow> string \<Rightarrow> int \<times> int" where
  "contains_bytes v p =
     (if p = [] then (0, 1)
      else if length p > length v then (0, 0)
      else (0, contains_loop v p 0 (length v - length p + 1)))"

definition standard_string_filters :: "filter_module list" where
  "standard_string_filters =
     [\<lparr>fm_name = ''starts_with'', fm_semantic_id = ''string.starts-with.utf8-bytes-v1'',
       fm_validate_pattern = filter_validate, fm_cost = edge_cost, fm_evaluate = starts_with\<rparr>,
      \<lparr>fm_name = ''ends_with'', fm_semantic_id = ''string.ends-with.utf8-bytes-v1'',
       fm_validate_pattern = filter_validate, fm_cost = edge_cost, fm_evaluate = ends_with\<rparr>,
      \<lparr>fm_name = ''contains'', fm_semantic_id = ''string.contains.utf8-bytes-v1'',
       fm_validate_pattern = filter_validate, fm_cost = contains_cost, fm_evaluate = contains_bytes\<rparr>]"

section \<open>Guarded calls\<close>

text \<open>The catalog: kind \<open>k\<close> is the filter at position \<open>k - 1\<close>.\<close>

definition filter_by_kind_in :: "filter_module list \<Rightarrow> nat \<Rightarrow> filter_module option" where
  "filter_by_kind_in catalog kind =
     (if kind = 0 \<or> kind > length catalog then None else Some (catalog ! (kind - 1)))"

definition callback_status :: "int \<Rightarrow> maelys_result" where
  "callback_status status =
     (if status > 0 \<or> status < -14 then MAELYS_ERR_INTERNAL else result_of_code status)"

definition filter_validate_in :: "filter_module list \<Rightarrow> nat \<Rightarrow> string \<Rightarrow> maelys_result" where
  "filter_validate_in catalog kind pattern =
     (case filter_by_kind_in catalog kind of
        None \<Rightarrow> MAELYS_ERR_INVALID_ARGUMENT
      | Some d \<Rightarrow> callback_status (fm_validate_pattern d pattern))"

definition filter_cost_in :: "filter_module list \<Rightarrow> nat \<Rightarrow> nat \<Rightarrow> nat \<Rightarrow> maelys_result + nat" where
  "filter_cost_in catalog kind value_length pattern_length =
     (case filter_by_kind_in catalog kind of
        None \<Rightarrow> Inl MAELYS_ERR_INVALID_ARGUMENT
      | Some d \<Rightarrow> (case fm_cost d value_length pattern_length of (status, cost) \<Rightarrow>
          if callback_status status \<noteq> MAELYS_OK then Inl (callback_status status)
          else if kind > 3 \<and> cost = 0 then Inl MAELYS_ERR_INVALID_STATE
          else Inr cost))"

definition filter_evaluate_in :: "filter_module list \<Rightarrow> nat \<Rightarrow> string \<Rightarrow> string \<Rightarrow> maelys_result + bool" where
  "filter_evaluate_in catalog kind val pattern =
     (case filter_by_kind_in catalog kind of
        None \<Rightarrow> Inl MAELYS_ERR_INVALID_ARGUMENT
      | Some d \<Rightarrow> (case fm_evaluate d val pattern of (status, matched) \<Rightarrow>
          if callback_status status \<noteq> MAELYS_OK then Inl (callback_status status)
          else if matched \<noteq> 0 \<and> matched \<noteq> 1 then Inl MAELYS_ERR_INVALID_STATE
          else Inr (matched = 1)))"

section \<open>What the standard filters compute\<close>

lemma bytes_at_iff: "i + length p \<le> length v \<Longrightarrow> bytes_at v i p \<longleftrightarrow> (\<exists>a b. v = a @ p @ b \<and> length a = i)"
proof
  assume i: "i + length p \<le> length v" and "bytes_at v i p"
  then have "drop i v = p @ drop (length p) (drop i v)"
    by (metis append_take_drop_id bytes_at_def)
  then have "v = take i v @ p @ drop (length p) (drop i v)" by (metis append_take_drop_id)
  then show "\<exists>a b. v = a @ p @ b \<and> length a = i"
    using i by (intro exI[of _ "take i v"] exI[of _ "drop (length p) (drop i v)"]) simp
qed (auto simp: bytes_at_def)

lemma contains_loop_iff: "contains_loop v p i n = (if \<exists>k<n. bytes_at v (i + k) p then 1 else 0)"
proof (induction n arbitrary: i)
  case (Suc n)
  have "(\<exists>k<Suc n. bytes_at v (i + k) p) \<longleftrightarrow> bytes_at v i p \<or> (\<exists>k<n. bytes_at v (Suc i + k) p)"
    by (metis (no_types, lifting) Nat.add_0_right add_Suc_shift less_Suc_eq_0_disj)
  then show ?case using Suc[of "i + 1"] by simp
qed simp

lemma starts_with_iff: "starts_with v p = (0, if \<exists>b. v = p @ b then 1 else 0)"
  using bytes_at_iff[of 0 p v] by (auto simp: starts_with_def)

lemma ends_with_iff: "ends_with v p = (0, if \<exists>a. v = a @ p then 1 else 0)"
proof -
  have "(p = [] \<or> (length v \<ge> length p \<and> bytes_at v (length v - length p) p)) \<longleftrightarrow> (\<exists>a. v = a @ p)"
  proof
    assume "p = [] \<or> (length v \<ge> length p \<and> bytes_at v (length v - length p) p)"
    then show "\<exists>a. v = a @ p"
    proof
      assume le: "length v \<ge> length p \<and> bytes_at v (length v - length p) p"
      then obtain a b where ab: "v = a @ p @ b" "length a = length v - length p"
        using bytes_at_iff[of "length v - length p" p v] le_add_diff_inverse2 by (metis order_refl)
      have "length v = length a + length p + length b" using arg_cong[OF ab(1), of length] by simp
      then have "b = []" using ab(2) le by simp
      then show ?thesis using ab(1) by blast
    qed simp
  next
    assume "\<exists>a. v = a @ p"
    then show "p = [] \<or> (length v \<ge> length p \<and> bytes_at v (length v - length p) p)"
      by (auto simp: bytes_at_def)
  qed
  then show ?thesis by (simp add: ends_with_def)
qed

lemma contains_iff: "contains_bytes v p = (0, if \<exists>a b. v = a @ p @ b then 1 else 0)"
proof (cases "p = [] \<or> length p > length v")
  case True
  then show ?thesis by (auto simp: contains_bytes_def)
next
  case False
  have "(\<exists>k<length v - length p + 1. bytes_at v (0 + k) p) \<longleftrightarrow> (\<exists>a b. v = a @ p @ b)"
  proof
    assume "\<exists>k<length v - length p + 1. bytes_at v (0 + k) p"
    then obtain k where k: "k < length v - length p + 1" "bytes_at v k p" by auto
    then have "k + length p \<le> length v" using False by linarith
    then show "\<exists>a b. v = a @ p @ b" using k bytes_at_iff[of k p v] by blast
  next
    assume "\<exists>a b. v = a @ p @ b"
    then obtain a b where ab: "v = a @ p @ b" by blast
    then have "bytes_at v (length a) p" by (simp add: bytes_at_def)
    then show "\<exists>k<length v - length p + 1. bytes_at v (0 + k) p"
      using ab by (intro exI[of _ "length a"]) simp
  qed
  then show ?thesis using False by (simp add: contains_bytes_def contains_loop_iff)
qed

section \<open>Properties\<close>

text \<open>
  The three standard filters, called through the guards by their catalog kinds 1, 2 and 3, decide
  prefix, suffix and substring, never fail, and are charged exactly the pattern length (prefix, suffix) or
  the product of both lengths, at least one each (substring), unless that product exceeds \<^verbatim>\<open>SIZE_MAX\<close>.
\<close>

theorem standard_filters_correct:
  "filter_evaluate_in standard_string_filters 1 v p = Inr (\<exists>b. v = p @ b) \<and>
   filter_evaluate_in standard_string_filters 2 v p = Inr (\<exists>a. v = a @ p) \<and>
   filter_evaluate_in standard_string_filters 3 v p = Inr (\<exists>a b. v = a @ p @ b) \<and>
   filter_cost_in standard_string_filters 1 vn pn = Inr pn \<and>
   filter_cost_in standard_string_filters 2 vn pn = Inr pn \<and>
   filter_cost_in standard_string_filters 3 vn pn =
     (if max 1 vn * max 1 pn \<le> SIZE_MAX then Inr (max 1 vn * max 1 pn) else Inl MAELYS_ERR_PAYLOAD_TOO_LARGE)"
proof -
  have ok: "callback_status 0 = MAELYS_OK" "callback_status (-12) = MAELYS_ERR_PAYLOAD_TOO_LARGE"
    by (simp_all add: callback_status_def result_of_code_def)
  have len: "length standard_string_filters = 3" by (simp add: standard_string_filters_def)
  have nth: "standard_string_filters ! 0 = \<lparr>fm_name = ''starts_with'', fm_semantic_id = ''string.starts-with.utf8-bytes-v1'',
       fm_validate_pattern = filter_validate, fm_cost = edge_cost, fm_evaluate = starts_with\<rparr>"
    "standard_string_filters ! 1 = \<lparr>fm_name = ''ends_with'', fm_semantic_id = ''string.ends-with.utf8-bytes-v1'',
       fm_validate_pattern = filter_validate, fm_cost = edge_cost, fm_evaluate = ends_with\<rparr>"
    "standard_string_filters ! 2 = \<lparr>fm_name = ''contains'', fm_semantic_id = ''string.contains.utf8-bytes-v1'',
       fm_validate_pattern = filter_validate, fm_cost = contains_cost, fm_evaluate = contains_bytes\<rparr>"
    by (simp_all add: standard_string_filters_def)
  have get: "filter_by_kind_in standard_string_filters 1 = Some (standard_string_filters ! 0)"
    "filter_by_kind_in standard_string_filters 2 = Some (standard_string_filters ! 1)"
    "filter_by_kind_in standard_string_filters 3 = Some (standard_string_filters ! 2)"
    by (simp_all add: filter_by_kind_in_def len)
  have prod: "(v > SIZE_MAX div p) = (v * p > SIZE_MAX)" if "p > 0" for v p
    using that by (simp add: div_less_iff_less_mult)
  have "contains_cost vn pn = (if max 1 vn * max 1 pn \<le> SIZE_MAX then (0, max 1 vn * max 1 pn) else (-12, 0))"
    using prod[of "max 1 pn" "max 1 vn"] by (auto simp: contains_cost_def Let_def max_def not_less)
  then show ?thesis
    unfolding filter_evaluate_in_def filter_cost_in_def get nth
    by (simp add: starts_with_iff ends_with_iff contains_iff edge_cost_def ok)
qed

end
