(* ===== verification/Diagnostic.thy ===== *)
theory Diagnostic
  imports Core_Types
begin

text \<open>
  The internal diagnostic of \<^verbatim>\<open>src/core/maelys_datalog_diagnostic.h\<close> and \<^verbatim>\<open>.c\<close>, which the compiler, the
  evaluation and the registries fill in: a code, a source position and the sections a code uses. Text goes through
  \<^verbatim>\<open>copy_bounded\<close>, which keeps what fits its buffer before the terminator.
\<close>

section \<open>Codes\<close>

datatype compare_result =
    COMPARE_TRUE | COMPARE_FALSE | COMPARE_INVALID_KIND | COMPARE_INVALID_ORDINAL_TYPE
  | COMPARE_UNBOUND_VARIABLE | COMPARE_UNKNOWN_OPERATOR | COMPARE_UNKNOWN_TERM_KIND | COMPARE_ARITH_OVERFLOW

datatype diag_code =
      DIAG_NONE | DIAG_MANIFEST_INVALID_JSON | DIAG_MANIFEST_INVALID_FIELD
    | DIAG_MANIFEST_UNKNOWN_FIELD | DIAG_MANIFEST_UNKNOWN_DOMAIN | DIAG_MANIFEST_SHA_MISMATCH
    | DIAG_MANIFEST_POLICY_NOT_FOUND | DIAG_MANIFEST_TEST_ONLY_REJECTED | DIAG_LEXER_INVALID_TOKEN
    | DIAG_LEXER_UNSUPPORTED_CONSTRUCT | DIAG_LEXER_INVALID_UTF8 | DIAG_LEXER_STRING_TOO_LONG
    | DIAG_PARSER_EXPECTED_PREDICATE | DIAG_PARSER_UNKNOWN_PREDICATE | DIAG_PARSER_ARITY_MISMATCH
    | DIAG_PARSER_UNKNOWN_ATOM | DIAG_PARSER_RULE_HEAD_EDB_FORBIDDEN
    | DIAG_PARSER_RULE_BODY_LITERAL_OVERFLOW | DIAG_PARSER_UNSAFE_VARIABLE
    | DIAG_PARSER_INVALID_COMPARISON | DIAG_PARSER_INVALID_FILTER | DIAG_PARSER_EXPECTED_DOT
    | DIAG_PARSER_EXPECTED_NECK | DIAG_PARSER_FACT_USES_NON_BASE_PREDICATE
    | DIAG_PARSER_ANONYMOUS_VARIABLE_IN_HEAD | DIAG_PARSER_ANONYMOUS_VARIABLE_IN_COMPARISON
    | DIAG_PARSER_ANONYMOUS_VARIABLE_IN_FACT | DIAG_PARSER_TOO_MANY_VARIABLES
    | DIAG_POLICY_NOT_STRATIFIABLE | DIAG_RUNTIME_INVALID_COMPARISON | DIAG_RUNTIME_INVALID_FILTER
    | DIAG_REGISTRY_CONFLICT | DIAG_REGISTRY_MUTATION_AFTER_FREEZE | DIAG_MALFORMED_PROGRAM
    | DIAG_OPERATION_REJECTED | DIAG_SOLVE_MAX_DEPTH | DIAG_SOLVE_IDB_OVERFLOW
    | DIAG_SOLVE_COMPARISON_TYPE_ERROR | DIAG_SOLVE_FILTER_ERROR | DIAG_SOLVE_MALFORMED_FACT
    | DIAG_SOLVE_MALFORMED_EDB | DIAG_SOLVE_INVALID_STATE | DIAG_SOLVE_INVALID_ARGUMENT
    | DIAG_SOLVE_INTERNAL_ERROR | DIAG_SOLVE_AGGREGATE_DOMAIN_ERROR | DIAG_SOLVE_SUM_OVERFLOW

text \<open>The value 0 of the enumeration of limits is \<open>LIMIT_NONE\<close>: a diagnostic that names no bound.\<close>

datatype limit_kind =
      LIMIT_NONE | LIMIT_MAX_SYMBOLS | LIMIT_STRING_POOL_BYTES | LIMIT_MAX_PREDICATES
    | LIMIT_MAX_RULES | LIMIT_MAX_ARITY | LIMIT_MAX_BODY_LITERALS | LIMIT_MAX_DEPTH
    | LIMIT_MAX_EDB_FACTS | LIMIT_MAX_IDB_FACTS | LIMIT_MAX_FACTS_PER_PRED | LIMIT_MAX_STRING_BYTES
    | LIMIT_INPUT_EDB_TEXT_BYTES | LIMIT_MAX_POLICY_ATOMS | LIMIT_MAX_POLICY_ATOM_BYTES
    | LIMIT_MAX_RULE_VARIABLES | LIMIT_MAX_ARITH_EXPR_NODES | LIMIT_MAX_ARITH_EXPR_DEPTH
    | LIMIT_MAX_FILTER_PATTERN_BYTES | LIMIT_MAX_FILTER_PROGRAMS | LIMIT_FILTER_PATTERN_POOL_BYTES
    | LIMIT_MAX_FILTER_EVALUATIONS | LIMIT_MAX_FILTER_COST_UNITS | LIMIT_SESSION_ARENA_BYTES
    | LIMIT_EXECUTION_BYTES | LIMIT_MAX_RULE_FACTS | LIMIT_MAX_STRATA

fun diag_code_name :: "diag_code \<Rightarrow> string" where
  "diag_code_name DIAG_NONE = ''none''"
| "diag_code_name DIAG_MANIFEST_INVALID_JSON = ''manifest_invalid_json''"
| "diag_code_name DIAG_MANIFEST_INVALID_FIELD = ''manifest_invalid_field''"
| "diag_code_name DIAG_MANIFEST_UNKNOWN_FIELD = ''manifest_unknown_field''"
| "diag_code_name DIAG_MANIFEST_UNKNOWN_DOMAIN = ''manifest_unknown_domain''"
| "diag_code_name DIAG_MANIFEST_SHA_MISMATCH = ''manifest_sha_mismatch''"
| "diag_code_name DIAG_MANIFEST_POLICY_NOT_FOUND = ''manifest_policy_not_found''"
| "diag_code_name DIAG_MANIFEST_TEST_ONLY_REJECTED = ''manifest_test_only_rejected''"
| "diag_code_name DIAG_LEXER_INVALID_TOKEN = ''lexer_invalid_token''"
| "diag_code_name DIAG_LEXER_UNSUPPORTED_CONSTRUCT = ''lexer_unsupported_construct''"
| "diag_code_name DIAG_LEXER_INVALID_UTF8 = ''lexer_invalid_utf8''"
| "diag_code_name DIAG_LEXER_STRING_TOO_LONG = ''lexer_string_too_long''"
| "diag_code_name DIAG_PARSER_EXPECTED_PREDICATE = ''parser_expected_predicate''"
| "diag_code_name DIAG_PARSER_UNKNOWN_PREDICATE = ''parser_unknown_predicate''"
| "diag_code_name DIAG_PARSER_ARITY_MISMATCH = ''parser_arity_mismatch''"
| "diag_code_name DIAG_PARSER_UNKNOWN_ATOM = ''parser_unknown_atom''"
| "diag_code_name DIAG_PARSER_RULE_HEAD_EDB_FORBIDDEN = ''parser_rule_head_edb_forbidden''"
| "diag_code_name DIAG_PARSER_RULE_BODY_LITERAL_OVERFLOW = ''parser_rule_body_literal_overflow''"
| "diag_code_name DIAG_PARSER_UNSAFE_VARIABLE = ''parser_unsafe_variable''"
| "diag_code_name DIAG_PARSER_INVALID_COMPARISON = ''parser_invalid_comparison''"
| "diag_code_name DIAG_PARSER_INVALID_FILTER = ''parser_invalid_filter''"
| "diag_code_name DIAG_PARSER_EXPECTED_DOT = ''parser_expected_dot''"
| "diag_code_name DIAG_PARSER_EXPECTED_NECK = ''parser_expected_neck''"
| "diag_code_name DIAG_PARSER_FACT_USES_NON_BASE_PREDICATE = ''parser_fact_uses_non_base_predicate''"
| "diag_code_name DIAG_PARSER_ANONYMOUS_VARIABLE_IN_HEAD = ''parser_anonymous_variable_in_head''"
| "diag_code_name DIAG_PARSER_ANONYMOUS_VARIABLE_IN_COMPARISON = ''parser_anonymous_variable_in_comparison''"
| "diag_code_name DIAG_PARSER_ANONYMOUS_VARIABLE_IN_FACT = ''parser_anonymous_variable_in_fact''"
| "diag_code_name DIAG_PARSER_TOO_MANY_VARIABLES = ''parser_too_many_variables''"
| "diag_code_name DIAG_POLICY_NOT_STRATIFIABLE = ''policy_not_stratifiable''"
| "diag_code_name DIAG_RUNTIME_INVALID_COMPARISON = ''runtime_invalid_comparison''"
| "diag_code_name DIAG_RUNTIME_INVALID_FILTER = ''runtime_invalid_filter''"
| "diag_code_name DIAG_REGISTRY_CONFLICT = ''registry_conflict''"
| "diag_code_name DIAG_REGISTRY_MUTATION_AFTER_FREEZE = ''registry_mutation_after_freeze''"
| "diag_code_name DIAG_MALFORMED_PROGRAM = ''malformed_program''"
| "diag_code_name DIAG_OPERATION_REJECTED = ''operation_rejected''"
| "diag_code_name DIAG_SOLVE_MAX_DEPTH = ''solve_max_depth''"
| "diag_code_name DIAG_SOLVE_IDB_OVERFLOW = ''solve_idb_overflow''"
| "diag_code_name DIAG_SOLVE_COMPARISON_TYPE_ERROR = ''solve_comparison_type_error''"
| "diag_code_name DIAG_SOLVE_FILTER_ERROR = ''solve_filter_error''"
| "diag_code_name DIAG_SOLVE_MALFORMED_FACT = ''solve_malformed_fact''"
| "diag_code_name DIAG_SOLVE_MALFORMED_EDB = ''solve_malformed_edb''"
| "diag_code_name DIAG_SOLVE_INVALID_STATE = ''solve_invalid_state''"
| "diag_code_name DIAG_SOLVE_INVALID_ARGUMENT = ''solve_invalid_argument''"
| "diag_code_name DIAG_SOLVE_INTERNAL_ERROR = ''solve_internal_error''"
| "diag_code_name DIAG_SOLVE_AGGREGATE_DOMAIN_ERROR = ''solve_aggregate_domain_error''"
| "diag_code_name DIAG_SOLVE_SUM_OVERFLOW = ''solve_sum_overflow''"

section \<open>The record\<close>

record aggregate_error =
  ae_value :: int
  ae_predicate_id :: nat
  ae_kind :: nat
  ae_literal_kind :: agg_kind
  ae_term_index :: nat
  ae_overflow :: bool

record diagnostic =
  dg_code :: diag_code
  dg_compare_result :: compare_result
  dg_expected_kind :: nat
  dg_observed_lhs_kind :: nat
  dg_observed_rhs_kind :: nat
  dg_failed_op :: "cmp_op option"
  dg_term_index :: nat
  dg_expected_arity :: nat
  dg_observed_arity :: nat
  dg_predicate_id :: nat
  dg_phase :: string
  dg_file :: string
  dg_limit_kind :: limit_kind
  dg_line :: nat
  dg_column :: nat
  dg_predicate :: string
  dg_arity :: nat
  dg_token :: string
  dg_aggregate :: "aggregate_error option"
  dg_field :: string
  dg_domain :: string
  dg_count :: nat
  dg_limit :: nat
  dg_message :: string
  dg_hint :: string

section \<open>Operations\<close>

text \<open>\<^verbatim>\<open>copy_bounded(dst, cap, src)\<close>: \<^verbatim>\<open>snprintf\<close> writes at most \<open>cap - 1\<close> bytes and the terminator.\<close>

definition copy_bounded :: "nat \<Rightarrow> string \<Rightarrow> string" where
  "copy_bounded cap src = take (cap - 1) src"

definition diagnostic_clear :: diagnostic where
  "diagnostic_clear =
     \<lparr>dg_code = DIAG_NONE, dg_compare_result = COMPARE_TRUE, dg_expected_kind = 0, dg_observed_lhs_kind = 0,
      dg_observed_rhs_kind = 0, dg_failed_op = None, dg_term_index = 0, dg_expected_arity = 0,
      dg_observed_arity = 0, dg_predicate_id = 0, dg_phase = [], dg_file = [], dg_limit_kind = LIMIT_NONE,
      dg_line = 0, dg_column = 0, dg_predicate = [], dg_arity = 0, dg_token = [], dg_aggregate = None,
      dg_field = [], dg_domain = [], dg_count = 0, dg_limit = 0, dg_message = [], dg_hint = []\<rparr>"

definition diagnostic_set ::
  "diag_code \<Rightarrow> string \<Rightarrow> string \<Rightarrow> nat \<Rightarrow> nat \<Rightarrow> string \<Rightarrow> string \<Rightarrow> diagnostic" where
  "diagnostic_set code phase file line column message hint =
     diagnostic_clear\<lparr>dg_code := code, dg_line := line, dg_column := column, dg_phase := copy_bounded 32 phase,
       dg_file := copy_bounded 256 file, dg_message := copy_bounded 256 message, dg_hint := copy_bounded 256 hint\<rparr>"

definition diagnostic_set_predicate :: "string \<Rightarrow> nat \<Rightarrow> diagnostic \<Rightarrow> diagnostic" where
  "diagnostic_set_predicate predicate ar d = d\<lparr>dg_predicate := copy_bounded 96 predicate, dg_arity := ar\<rparr>"

definition diagnostic_set_limit :: "limit_kind \<Rightarrow> nat \<Rightarrow> nat \<Rightarrow> diagnostic \<Rightarrow> diagnostic" where
  "diagnostic_set_limit kind cnt limit d = d\<lparr>dg_limit_kind := kind, dg_count := cnt, dg_limit := limit\<rparr>"

definition diagnostic_set_comparison_error ::
  "compare_result \<Rightarrow> nat \<Rightarrow> nat \<Rightarrow> nat \<Rightarrow> cmp_op option \<Rightarrow> nat \<Rightarrow> diagnostic \<Rightarrow> diagnostic" where
  "diagnostic_set_comparison_error rc expected lhs rhs op index d =
     d\<lparr>dg_code := DIAG_RUNTIME_INVALID_COMPARISON, dg_compare_result := rc, dg_expected_kind := expected,
       dg_observed_lhs_kind := lhs, dg_observed_rhs_kind := rhs, dg_failed_op := op, dg_term_index := index\<rparr>"

lemma diagnostic_set_code [simp]: "dg_code (diagnostic_set code phase file line column message hint) = code"
  by (simp add: diagnostic_set_def)

lemma diagnostic_set_predicate_code [simp]: "dg_code (diagnostic_set_predicate p n d) = dg_code d"
  by (simp add: diagnostic_set_predicate_def)

lemma diagnostic_set_limit_code [simp]: "dg_code (diagnostic_set_limit k c l d) = dg_code d"
  by (simp add: diagnostic_set_limit_def)

end
