(* ===== verification/Solver_State.thy ===== *)
theory Solver_State
  imports Edb Filters Diagnostic
begin

unbundle bit_operations_syntax

text \<open>
  The state of one evaluation (\<^verbatim>\<open>struct maelys_datalog_solve_result\<close> of
  \<^verbatim>\<open>src/core/maelys_datalog_solver.c\<close>), the compiled ruleset it reads, its failure and diagnostic
  records, the proof tree of \<^verbatim>\<open>src/core/maelys_datalog_audit.c\<close> and the premise witness.

  \<open>idb_facts\<close> and \<open>idb_proof_index\<close> hold the cells below \<^verbatim>\<open>idb_merge_end\<close>, so that counter is their
  length, and \<^verbatim>\<open>idb_final.count\<close>, which the code keeps equal to the number of accepted cells, is not a
  field. The used prefixes of \<^verbatim>\<open>premise_pool\<close> and \<^verbatim>\<open>proof.nodes\<close> are lists as well. Byte-canonical copies
  (\<^verbatim>\<open>explanation_copy_*\<close>) are copies of values here.
\<close>

section \<open>Compiled rulesets\<close>

record filter_program =
  pattern_offset :: nat
  pattern_length :: nat
  program_kind :: nat

record join_candidate =
  jc_body_index :: nat
  jc_kind :: nat
  jc_predicate_name :: "string option"
  jc_predicate_flags :: "32 word"
  jc_arity :: nat
  jc_variable_mask :: "64 word"
  jc_bound_variable_mask :: "64 word"
  jc_constant_terms :: nat
  jc_bound_terms :: nat
  jc_default_score :: int

text \<open>
  The extension catalog a ruleset borrows: its filters and, when one was selected, its planner, a callback
  that returns a status and the index of a candidate. Of a ruleset's arrays the used prefixes are kept; the table of
  variable name offsets, indexed by row and slot, is an association list of its nonzero cells.
\<close>

record module_context =
  ctx_filters :: "filter_module list"
  ctx_planner :: "(join_candidate list \<Rightarrow> int \<times> nat) option"

record ruleset =
  rs_loaded :: bool
  rs_modules :: module_context
  rs_policy_id :: string
  rs_domain :: string
  rs_sha256 :: string
  rs_query_whitelist :: "(string \<times> nat) list"
  rs_enforces_query_whitelist :: bool
  rs_positive_recursion_supported :: bool
  rs_negation_supported :: bool
  rs_negation_recursion_supported :: bool
  rs_aggregates_supported :: bool
  rs_strata :: "nat list"
  rs_max_stratum :: nat
  rs_strata_assigned :: bool
  rs_has_positive_recursion :: bool
  rs_test_only :: bool
  rs_symbols :: symbol_table
  rs_registry :: predicate_registry
  rs_facts :: "fact list"
  rs_rules :: "rule list"
  rs_rule_sources :: "(nat \<times> nat) list"
  rs_frontend_name :: string
  rs_frontend_semantic_id :: string
  rs_source_sha256 :: string
  rs_program_validated :: bool
  rs_compiled_fingerprint :: string
  rs_filter_programs :: "filter_program list"
  rs_filter_pattern_pool :: string
  rs_variable_name_rows :: "nat list"
  rs_variable_name_offsets :: "((nat \<times> nat) \<times> nat) list"
  rs_variable_name_pool :: string

section \<open>Failures, proofs and witnesses\<close>

datatype deny_reason =
    DENY_NONE | DENY_EXPLICIT | DENY_DEFAULT | DENY_MAX_DEPTH | DENY_EDB_OVERFLOW | DENY_IDB_OVERFLOW
  | DENY_COMPARISON_TYPE_ERROR | DENY_FILTER_ERROR | DENY_CONFLICT | DENY_POLICY_LOAD_ERROR

record proof_node =
  pn_rule_id :: nat
  pn_predicate_id :: nat
  pn_deny_reason :: deny_reason
  pn_depth :: nat
  pn_derived_fact :: "fact option"
  pn_parent_index :: nat

record proof_tree =
  pt_policy_id :: string
  pt_sha256 :: string
  pt_nodes :: "proof_node list"
  pt_truncated :: bool
  pt_verbose :: bool

text \<open>\<^verbatim>\<open>snprintf\<close> into an array of \<open>n\<close> bytes keeps at most \<open>n - 1\<close> of them.\<close>

definition proof_init :: "string \<Rightarrow> string \<Rightarrow> bool \<Rightarrow> proof_tree" where
  "proof_init policy_id sha verbose =
     \<lparr>pt_policy_id = take 127 policy_id, pt_sha256 = take 64 sha, pt_nodes = [], pt_truncated = False, pt_verbose = verbose\<rparr>"

definition proof_add ::
  "proof_tree \<Rightarrow> nat \<Rightarrow> nat \<Rightarrow> fact option \<Rightarrow> deny_reason \<Rightarrow> nat \<Rightarrow> nat \<Rightarrow> proof_tree" where
  "proof_add p rid pid derived reason depth parent =
     (if length (pt_nodes p) \<ge> MAX_PROOF_NODES \<or> depth \<ge> MAX_PROOF_DEPTH then p\<lparr>pt_truncated := True\<rparr>
      else p\<lparr>pt_nodes := pt_nodes p @ [\<lparr>pn_rule_id = rid, pn_predicate_id = pid, pn_deny_reason = reason,
        pn_depth = depth, pn_derived_fact = derived, pn_parent_index = parent\<rparr>]\<rparr>)"

datatype origin = ORIGIN_POLICY_FACT | ORIGIN_EDB | ORIGIN_IDB | ORIGIN_NOT_APPLICABLE

definition EXPLANATION_NO_STEP :: nat where "EXPLANATION_NO_STEP = 65535"

datatype premise =
    PREMISE_NONE
  | PREMISE_POSITIVE_FACT (premise_origin: origin) (premise_body_index: nat) (premise_parent_step: nat) (premise_fact: fact)
  | PREMISE_NEGATED_ABSENCE (premise_origin: origin) (premise_body_index: nat) (premise_fact: fact)
  | PREMISE_COMPARISON_TRUE (premise_body_index: nat) (premise_op: cmp_op) (premise_lhs: "term") (premise_rhs: "term")
  | PREMISE_FILTER_TRUE (premise_body_index: nat) (premise_program: nat) (premise_filter_kind: nat) (premise_value: "term")
  | PREMISE_AGGREGATE (premise_agg: agg_kind) (premise_origin: origin) (premise_body_index: nat)
      (premise_pattern: fact) (premise_projected: nat) (premise_number: int)

record filter_statistics =
  fs_evaluations :: nat
  fs_cost_units :: nat
  fs_matches :: nat
  fs_non_matches :: nat

section \<open>The evaluation state\<close>

record solve_state =
  sr_ruleset :: ruleset
  sr_symbols :: symbol_table
  edb_snapshot :: fact_set
  edb_ranges :: "(nat \<times> nat) list"
  idb_facts :: "fact list"
  idb_proof_index :: "nat list"
  derived_capacity :: nat
  idb_sorted :: bool
  idb_per_pred :: "nat list"
  stratum_idb_end :: "nat list"
  idb_current_end :: nat
  idb_delta_begin :: nat
  idb_delta_end :: nat
  active_stratum :: nat
  stratified :: bool
  head_may_be_in_base :: bool
  witness_filled_mask :: "32 word"
  witness_slots :: "premise list"
  premise_pool :: "premise list"
  node_premise_begin :: "nat list"
  node_premise_count :: "nat list"
  node_has_premises :: "bool list"
  proof_tree :: proof_tree
  failure_reason :: deny_reason
  failure_error :: maelys_result
  runtime_diag :: diagnostic
  filter_stats :: filter_statistics
  finalized :: bool
  failed :: bool

abbreviation idb_merge_end :: "solve_state \<Rightarrow> nat" where
  "idb_merge_end st \<equiv> length (idb_facts st)"

section \<open>Structural validity\<close>

definition fact_structurally_valid :: "predicate_registry \<Rightarrow> fact \<Rightarrow> bool" where
  "fact_structurally_valid reg f \<longleftrightarrow>
     arity f \<le> MAX_TERMS \<and>
     (case predicate_registry_get reg (predicate_id f) of
        None \<Rightarrow> False
      | Some d \<Rightarrow> arity f = pred_arity d \<and> list_all (\<lambda>t. term_kind_known t \<and> \<not> is_var t) (terms f))"

definition fact_set_structurally_valid :: "predicate_registry \<Rightarrow> fact_set \<Rightarrow> bool" where
  "fact_set_structurally_valid reg s \<longleftrightarrow>
     set_count s \<le> set_capacity s \<and> list_all (fact_structurally_valid reg) (set_facts s)"

definition fact_slice_structurally_valid :: "predicate_registry \<Rightarrow> fact list \<Rightarrow> bool" where
  "fact_slice_structurally_valid reg fs \<longleftrightarrow> list_all (fact_structurally_valid reg) fs"

section \<open>Failure recording\<close>

definition set_comparison_failure ::
  "compare_result \<Rightarrow> nat \<Rightarrow> cmp_op \<Rightarrow> nat \<Rightarrow> solve_state \<Rightarrow> solve_state" where
  "set_comparison_failure rc lhs_kind op rhs_kind st =
     (if failure_error st \<noteq> MAELYS_OK then st
      else st\<lparr>failure_error := MAELYS_ERR_INVALID_FIELD, failure_reason := DENY_COMPARISON_TYPE_ERROR,
        runtime_diag := diagnostic_set_comparison_error rc 2 lhs_kind rhs_kind (Some op) 0 (runtime_diag st)\<rparr>)"

definition set_filter_failure ::
  "maelys_result \<Rightarrow> limit_kind \<Rightarrow> nat \<Rightarrow> nat \<Rightarrow> nat \<Rightarrow> solve_state \<Rightarrow> solve_state" where
  "set_filter_failure error kind cnt limit observed st =
     (if failure_error st \<noteq> MAELYS_OK then st
      else
        let d = diagnostic_set DIAG_RUNTIME_INVALID_FILTER ''solver'' [] 0 0
              (if error = MAELYS_ERR_PAYLOAD_TOO_LARGE then ''filter evaluation budget exceeded''
               else ''invalid filter evaluation state'')
              ''validate the filter program, ground symbol value, and configured capacities'';
            d = (if limit \<noteq> 0 then diagnostic_set_limit kind cnt limit d else d)
        in st\<lparr>failure_error := error, failure_reason := DENY_FILTER_ERROR,
             runtime_diag := d\<lparr>dg_observed_lhs_kind := observed\<rparr>\<rparr>)"

definition set_join_order_failure :: "maelys_result \<Rightarrow> solve_state \<Rightarrow> solve_state" where
  "set_join_order_failure plan_rc st =
     (if failure_error st \<noteq> MAELYS_OK then st
      else if plan_rc = MAELYS_ERR_INVALID_FIELD then
        st\<lparr>failure_error := MAELYS_ERR_INVALID_FIELD, failure_reason := DENY_COMPARISON_TYPE_ERROR,
          runtime_diag := diagnostic_set_comparison_error COMPARE_UNBOUND_VARIABLE 2 4 4 None 0 (runtime_diag st)\<rparr>
      else
        st\<lparr>failure_error := (if plan_rc \<noteq> MAELYS_OK then plan_rc else MAELYS_ERR_INVALID_STATE),
          failure_reason := DENY_POLICY_LOAD_ERROR\<rparr>)"

definition set_invalid_state :: "solve_state \<Rightarrow> solve_state" where
  "set_invalid_state st =
     (if failure_error st \<noteq> MAELYS_OK then st
      else st\<lparr>failure_error := MAELYS_ERR_INVALID_STATE, failure_reason := DENY_POLICY_LOAD_ERROR\<rparr>)"

text \<open>The first term of a fact that is a variable or has an unknown tag, with its position.\<close>

fun first_bad_term :: "term list \<Rightarrow> nat \<Rightarrow> (nat \<times> nat) option" where
  "first_bad_term [] i = None"
| "first_bad_term (t # ts) i =
     (if \<not> term_kind_known t \<or> is_var t then Some (i, term_kind t) else first_bad_term ts (i + 1))"

definition set_invalid_fact :: "predicate_registry \<Rightarrow> fact \<Rightarrow> solve_state \<Rightarrow> solve_state" where
  "set_invalid_fact reg f st0 =
     (let st = set_invalid_state st0;
          d = (runtime_diag st)\<lparr>dg_predicate_id := predicate_id f, dg_observed_arity := arity f\<rparr>;
          d = (case predicate_registry_get reg (predicate_id f) of
                 None \<Rightarrow> d | Some def \<Rightarrow> d\<lparr>dg_expected_arity := pred_arity def\<rparr>);
          d = (case first_bad_term (take MAX_TERMS (terms f)) 0 of
                 None \<Rightarrow> d | Some (i, k) \<Rightarrow> d\<lparr>dg_term_index := i, dg_observed_lhs_kind := k\<rparr>)
      in st\<lparr>runtime_diag := d\<rparr>)"

section \<open>Ranges over the extensional snapshot\<close>

function build_ranges :: "fact list \<Rightarrow> nat \<Rightarrow> nat option \<Rightarrow> (nat \<times> nat) list \<Rightarrow> maelys_result + (nat \<times> nat) list" where
  "build_ranges [] i previous ranges = Inr ranges"
| "build_ranges (f # fs) i previous ranges =
     (let pid = predicate_id f; cnt = Suc (length (takeWhile (\<lambda>g. predicate_id g = pid) fs))
      in if pid \<ge> MAX_PREDICATES then Inl MAELYS_ERR_INVALID_STATE
         else if (case previous of None \<Rightarrow> False | Some p \<Rightarrow> pid < p) then Inl MAELYS_ERR_INVALID_STATE
         else if i > 65535 \<or> cnt > 65535 then Inl MAELYS_ERR_INVALID_STATE
         else build_ranges (dropWhile (\<lambda>g. predicate_id g = pid) fs) (i + cnt) (Some pid) (ranges[pid := (i, cnt)]))"
  by pat_completeness auto
termination
  by (relation "measure (\<lambda>(fs, _). length fs)") (auto simp: le_imp_less_Suc length_dropWhile_le)

definition build_edb_ranges :: "solve_state \<Rightarrow> maelys_result \<times> solve_state" where
  "build_edb_ranges st =
     (if \<not> set_sorted (edb_snapshot st) then (MAELYS_ERR_INVALID_STATE, st)
      else case build_ranges (set_facts (edb_snapshot st)) 0 None (replicate MAX_PREDICATES (0, 0)) of
        Inl rc \<Rightarrow> (rc, st)
      | Inr ranges \<Rightarrow> (MAELYS_OK, st\<lparr>edb_ranges := ranges\<rparr>))"

definition edb_slice :: "solve_state \<Rightarrow> nat \<Rightarrow> fact list" where
  "edb_slice st pid =
     (if pid \<ge> MAX_PREDICATES then []
      else case edb_ranges st ! pid of (b, c) \<Rightarrow>
        if c = 0 then [] else take c (drop b (set_facts (edb_snapshot st))))"

section \<open>Accepting a derived fact\<close>

definition head_in_base_check :: "solve_state \<Rightarrow> rule \<Rightarrow> bool" where
  "head_in_base_check st rule \<longleftrightarrow>
     predicate_id (head rule) \<ge> MAX_PREDICATES \<or>
     snd (edb_ranges st ! predicate_id (head rule)) \<noteq> 0 \<or>
     list_ex (\<lambda>f. predicate_id f = predicate_id (head rule)) (rs_facts (sr_ruleset st))"

definition fact_in_slice :: "fact list \<Rightarrow> fact \<Rightarrow> bool" where
  "fact_in_slice fs f = list_ex (\<lambda>g. fact_equals g f) fs"

definition fact_in_base :: "solve_state \<Rightarrow> fact \<Rightarrow> bool" where
  "fact_in_base st f \<longleftrightarrow>
     fact_in_slice (rs_facts (sr_ruleset st)) f \<or> fact_set_contains (edb_snapshot st) f"

definition witness_put :: "nat \<Rightarrow> premise \<Rightarrow> solve_state \<Rightarrow> solve_state" where
  "witness_put i p st =
     (if i \<ge> MAX_BODY_LITERALS then st
      else st\<lparr>witness_slots := (witness_slots st)[i := p],
              witness_filled_mask := witness_filled_mask st OR push_bit i 1\<rparr>)"

definition witness_record_positive :: "nat \<Rightarrow> origin \<Rightarrow> fact \<Rightarrow> nat \<Rightarrow> solve_state \<Rightarrow> solve_state" where
  "witness_record_positive i org cand cand_proof st =
     witness_put i (PREMISE_POSITIVE_FACT org i (if org = ORIGIN_IDB then cand_proof else EXPLANATION_NO_STEP) cand) st"

definition witness_record_negation :: "nat \<Rightarrow> origin \<Rightarrow> fact \<Rightarrow> solve_state \<Rightarrow> solve_state" where
  "witness_record_negation i org ground st = witness_put i (PREMISE_NEGATED_ABSENCE org i ground) st"

definition witness_record_comparison :: "nat \<Rightarrow> cmp_op \<Rightarrow> term \<Rightarrow> term \<Rightarrow> solve_state \<Rightarrow> solve_state" where
  "witness_record_comparison i op lhs rhs st = witness_put i (PREMISE_COMPARISON_TRUE i op lhs rhs) st"

definition witness_record_filter :: "nat \<Rightarrow> nat \<Rightarrow> nat \<Rightarrow> term \<Rightarrow> solve_state \<Rightarrow> solve_state" where
  "witness_record_filter i program kind val st = witness_put i (PREMISE_FILTER_TRUE i program kind val) st"

definition slots_complete :: "solve_state \<Rightarrow> nat \<Rightarrow> bool" where
  "slots_complete st n \<longleftrightarrow>
     list_all (\<lambda>i. witness_slots st ! i \<noteq> PREMISE_NONE \<and> premise_body_index (witness_slots st ! i) = i) [0..<n]"

definition witness_commit_range :: "nat \<Rightarrow> rule \<Rightarrow> solve_state \<Rightarrow> solve_state" where
  "witness_commit_range node rule st0 =
     (if node \<ge> MAX_PROOF_NODES then st0
      else
        let st = st0\<lparr>node_has_premises := (node_has_premises st0)[node := False]\<rparr>;
            n = length (body rule);
            need = (if n = 0 then 0 else push_bit n 1 - 1 :: 32 word)
        in if n > MAX_BODY_LITERALS then st
           else if (witness_filled_mask st AND need) \<noteq> need then st
           else if \<not> slots_complete st n then st
           else if length (premise_pool st) + n > MAX_EXPLANATION_PREMISES then st
           else st\<lparr>premise_pool := premise_pool st @ take n (witness_slots st),
                   node_premise_begin := (node_premise_begin st)[node := length (premise_pool st)],
                   node_premise_count := (node_premise_count st)[node := n],
                   node_has_premises := (node_has_premises st)[node := True]\<rparr>)"

definition idb_overflow :: "fact \<Rightarrow> limit_kind \<Rightarrow> nat \<Rightarrow> nat \<Rightarrow> solve_state \<Rightarrow> solve_state" where
  "idb_overflow f kind observed limit st =
     st\<lparr>failure_reason := DENY_IDB_OVERFLOW,
       runtime_diag := (runtime_diag st)\<lparr>dg_predicate_id := predicate_id f, dg_limit_kind := kind,
         dg_count := observed, dg_limit := limit\<rparr>\<rparr>"

text \<open>
  \<^verbatim>\<open>solve_once_append_idb_merge\<close>: \<open>False\<close> is the fatal outcome. The proof node of the new fact is the next one
  when the tree has room at this depth; a parent that is not a node of the tree is dropped.
\<close>

definition append_idb_fact :: "fact \<Rightarrow> nat \<Rightarrow> nat \<Rightarrow> nat \<Rightarrow> rule \<Rightarrow> solve_state \<Rightarrow> solve_state" where
  "append_idb_fact f rid depth parent0 rule st0 =
     (let st = st0\<lparr>idb_facts := idb_facts st0 @ [f], idb_sorted := False,
            idb_per_pred := (idb_per_pred st0)[predicate_id f := idb_per_pred st0 ! predicate_id f + 1]\<rparr>;
          nodes = length (pt_nodes (proof_tree st));
          parent = (if parent0 \<noteq> PROOF_NO_PARENT \<and> parent0 \<ge> nodes then PROOF_NO_PARENT else parent0);
          node = (if nodes < MAX_PROOF_NODES \<and> depth < MAX_PROOF_DEPTH then nodes else PROOF_NO_PARENT);
          st = st\<lparr>proof_tree := proof_add (proof_tree st) rid (predicate_id f) (Some f) DENY_NONE depth parent,
                  idb_proof_index := idb_proof_index st @ [node]\<rparr>
      in if node \<noteq> PROOF_NO_PARENT then witness_commit_range node rule st else st)"

definition append_idb_merge :: "fact \<Rightarrow> nat \<Rightarrow> nat \<Rightarrow> nat \<Rightarrow> rule \<Rightarrow> solve_state \<Rightarrow> bool \<times> solve_state" where
  "append_idb_merge f rid depth parent rule st =
     (if \<not> fact_structurally_valid (rs_registry (sr_ruleset st)) f
      then (False, set_invalid_fact (rs_registry (sr_ruleset st)) f st)
      else if head_may_be_in_base st \<and> fact_in_base st f then (True, st)
      else if fact_in_slice (take (idb_current_end st) (idb_facts st)) f then (True, st)
      else if fact_in_slice (drop (idb_current_end st) (idb_facts st)) f then (True, st)
      else if idb_merge_end st \<ge> derived_capacity st \<or> idb_merge_end st \<ge> MAX_IDB_FACTS then
        let limit = min (derived_capacity st) MAX_IDB_FACTS
        in (False, idb_overflow f (if limit < MAX_IDB_FACTS then LIMIT_NONE else LIMIT_MAX_IDB_FACTS)
              (idb_merge_end st + 1) limit st)
      else if predicate_id f \<ge> MAX_PREDICATES then
        (False, idb_overflow f LIMIT_MAX_PREDICATES (predicate_id f + 1) MAX_PREDICATES st)
      else if idb_per_pred st ! predicate_id f \<ge> MAX_FACTS_PER_PRED then
        (False, idb_overflow f LIMIT_MAX_FACTS_PER_PRED (idb_per_pred st ! predicate_id f + 1) MAX_FACTS_PER_PRED st)
      else (True, append_idb_fact f rid depth parent rule st))"

section \<open>The ranges select exactly the facts of a predicate\<close>

abbreviation of_pred :: "nat \<Rightarrow> fact list \<Rightarrow> fact list" where
  "of_pred pid fs \<equiv> filter (\<lambda>f. predicate_id f = pid) fs"

definition range_slice :: "(nat \<times> nat) list \<Rightarrow> fact list \<Rightarrow> nat \<Rightarrow> fact list" where
  "range_slice ranges xs pid = take (snd (ranges ! pid)) (drop (fst (ranges ! pid)) xs)"

lemma sorted_run:
  assumes "sorted (map predicate_id (f # fs))"
  shows "takeWhile (\<lambda>g. predicate_id g = predicate_id f) fs = of_pred (predicate_id f) fs"
    and "\<forall>g\<in>set (dropWhile (\<lambda>g. predicate_id g = predicate_id f) fs). predicate_id f < predicate_id g"
proof -
  have "takeWhile (\<lambda>g. predicate_id g = predicate_id f) fs = of_pred (predicate_id f) fs \<and>
    (\<forall>g\<in>set (dropWhile (\<lambda>g. predicate_id g = predicate_id f) fs). predicate_id f < predicate_id g)"
    using assms
  proof (induction fs)
    case (Cons g gs)
    show ?case
    proof (cases "predicate_id g = predicate_id f")
      case True
      then show ?thesis using Cons by simp
    next
      case False
      then have "\<forall>h\<in>set (g # gs). predicate_id f < predicate_id h" using Cons.prems by auto
      then show ?thesis using False by (auto simp: filter_empty_conv eq_commute[of "[]"])
    qed
  qed simp
  then show "takeWhile (\<lambda>g. predicate_id g = predicate_id f) fs = of_pred (predicate_id f) fs"
    "\<forall>g\<in>set (dropWhile (\<lambda>g. predicate_id g = predicate_id f) fs). predicate_id f < predicate_id g"
    by auto
qed

lemma build_ranges_spec:
  assumes "sorted (map predicate_id fs)" "\<forall>f\<in>set fs. predicate_id f < MAX_PREDICATES"
    "case previous of None \<Rightarrow> True | Some p \<Rightarrow> \<forall>f\<in>set fs. p < predicate_id f"
    "length (pre @ fs) \<le> 65535" "length ranges = MAX_PREDICATES"
  shows "\<exists>ranges'. build_ranges fs (length pre) previous ranges = Inr ranges' \<and> length ranges' = MAX_PREDICATES \<and>
    (\<forall>pid<MAX_PREDICATES. if pid \<in> predicate_id ` set fs
       then range_slice ranges' (pre @ fs) pid = of_pred pid fs \<and> snd (ranges' ! pid) \<noteq> 0
       else ranges' ! pid = ranges ! pid)"
  using assms
proof (induction "length fs" arbitrary: fs pre previous ranges rule: less_induct)
  case (less gs)
  show ?case
  proof (cases gs)
    case Nil
    then show ?thesis using less.prems by simp
  next
    case (Cons f fs)
    note prems = less.prems[unfolded Cons]
  let ?p = "predicate_id f"
  define run where "run = takeWhile (\<lambda>g. predicate_id g = ?p) fs"
  define rest where "rest = dropWhile (\<lambda>g. predicate_id g = ?p) fs"
  have fs: "fs = run @ rest" by (simp add: run_def rest_def)
  have run: "run = of_pred ?p fs" and gt: "\<forall>g\<in>set rest. ?p < predicate_id g"
    using sorted_run[OF prems(1)] by (simp_all add: run_def rest_def)
  have p: "?p < MAX_PREDICATES" using prems(2) by simp
  have small: "length pre \<le> 65535" "Suc (length run) \<le> 65535" using prems(4) by (simp_all add: fs)
  have prev: "\<not> (case previous of None \<Rightarrow> False | Some q \<Rightarrow> ?p < q)"
    using prems(3) by (auto split: option.splits)
  let ?R = "ranges[?p := (length pre, Suc (length run))]"
  have step: "build_ranges (f # fs) (length pre) previous ranges =
      build_ranges rest (length (pre @ f # run)) (Some ?p) ?R"
    using p small prev by (simp add: Let_def run_def[symmetric] rest_def[symmetric])
  have "\<exists>ranges'. build_ranges rest (length (pre @ f # run)) (Some ?p) ?R = Inr ranges' \<and> length ranges' = MAX_PREDICATES \<and>
    (\<forall>pid<MAX_PREDICATES. if pid \<in> predicate_id ` set rest
       then range_slice ranges' ((pre @ f # run) @ rest) pid = of_pred pid rest \<and> snd (ranges' ! pid) \<noteq> 0
       else ranges' ! pid = ?R ! pid)"
  proof (rule less.hyps)
    show "length rest < length gs" by (simp add: Cons fs)
    show "sorted (map predicate_id rest)" using prems(1) by (simp add: fs sorted_append)
    show "\<forall>f\<in>set rest. predicate_id f < MAX_PREDICATES" using prems(2) by (simp add: fs)
    show "case Some ?p of None \<Rightarrow> True | Some p \<Rightarrow> \<forall>f\<in>set rest. p < predicate_id f" using gt by simp
    show "length ((pre @ f # run) @ rest) \<le> 65535" using prems(4) by (simp add: fs)
    show "length ?R = MAX_PREDICATES" using prems(5) by simp
  qed
  then obtain R' where R': "build_ranges rest (length (pre @ f # run)) (Some ?p) ?R = Inr R'" "length R' = MAX_PREDICATES"
    "\<forall>pid<MAX_PREDICATES. if pid \<in> predicate_id ` set rest
       then range_slice R' ((pre @ f # run) @ rest) pid = of_pred pid rest \<and> snd (R' ! pid) \<noteq> 0
       else R' ! pid = ?R ! pid" by blast
  have "if pid \<in> predicate_id ` set (f # fs)
       then range_slice R' (pre @ f # fs) pid = of_pred pid (f # fs) \<and> snd (R' ! pid) \<noteq> 0
       else R' ! pid = ranges ! pid" if pid: "pid < MAX_PREDICATES" for pid
  proof (cases "pid = ?p")
    case True
    then have "pid \<notin> predicate_id ` set rest" using gt by auto
    then have "R' ! pid = (length pre, Suc (length run))" using R'(3) pid True prems(5) by simp
    moreover have "of_pred ?p rest = []" using gt by (auto simp: filter_empty_conv)
    moreover have "of_pred ?p run = run" unfolding run by simp
    ultimately show ?thesis using True by (simp add: range_slice_def fs)
  next
    case False
    have ids: "\<forall>g\<in>set run. predicate_id g = ?p" unfolding run by simp
    then have "of_pred pid run = []" using False by (auto simp: filter_empty_conv)
    moreover have "pid \<in> predicate_id ` set (f # fs) \<longleftrightarrow> pid \<in> predicate_id ` set rest"
      using False ids by (auto simp: fs)
    moreover have "R' ! pid = ?R ! pid \<longleftrightarrow> R' ! pid = ranges ! pid" using False by simp
    ultimately show ?thesis
      using R'(3)[rule_format, OF pid] False by (cases "pid \<in> predicate_id ` set rest") (simp_all add: fs)
  qed
  then show ?thesis using step R'(1,2) Cons by auto
  qed
qed

definition snapshot_ok :: "solve_state \<Rightarrow> bool" where
  "snapshot_ok st \<longleftrightarrow>
     (set_sorted (edb_snapshot st) \<longrightarrow> sorted (set_facts (edb_snapshot st))) \<and>
     (\<forall>pid<MAX_PREDICATES. edb_slice st pid = of_pred pid (set_facts (edb_snapshot st)) \<and>
        (snd (edb_ranges st ! pid) = 0 \<longleftrightarrow> of_pred pid (set_facts (edb_snapshot st)) = []))"

lemma build_edb_ranges_ok:
  assumes "set_sorted (edb_snapshot st)" "sorted (set_facts (edb_snapshot st))"
    "\<forall>f\<in>set (set_facts (edb_snapshot st)). predicate_id f < MAX_PREDICATES"
    "set_count (edb_snapshot st) \<le> MAX_EDB_FACTS"
  shows "\<exists>ranges. build_edb_ranges st = (MAELYS_OK, st\<lparr>edb_ranges := ranges\<rparr>) \<and> snapshot_ok (st\<lparr>edb_ranges := ranges\<rparr>)"
proof -
  let ?fs = "set_facts (edb_snapshot st)"
  have "sorted (map predicate_id ?fs)"
    unfolding sorted_map using assms(2) by (rule sorted_wrt_mono_rel[rotated]) (rule predicate_id_mono)
  then obtain R where R: "build_ranges ?fs 0 None (replicate MAX_PREDICATES (0, 0)) = Inr R" "length R = MAX_PREDICATES"
    "\<forall>pid<MAX_PREDICATES. if pid \<in> predicate_id ` set ?fs
       then range_slice R ?fs pid = of_pred pid ?fs \<and> snd (R ! pid) \<noteq> 0 else R ! pid = replicate MAX_PREDICATES (0, 0) ! pid"
    using build_ranges_spec[of ?fs None "[]" "replicate MAX_PREDICATES (0, 0)",
        unfolded append_Nil list.size(3)] assms(3,4)
    by (auto simp: MAX_EDB_FACTS_def)
  have "edb_slice (st\<lparr>edb_ranges := R\<rparr>) pid = of_pred pid ?fs \<and> (snd (R ! pid) = 0 \<longleftrightarrow> of_pred pid ?fs = [])"
    if "pid < MAX_PREDICATES" for pid
    using R(3)[rule_format, OF that] that
    by (cases "pid \<in> predicate_id ` set ?fs")
      (auto simp: edb_slice_def range_slice_def filter_empty_conv eq_commute[of "[]"] split: prod.splits)
  then show ?thesis using R(1) assms(1,2) by (auto simp: build_edb_ranges_def snapshot_ok_def)
qed

lemma head_check_sound:
  assumes "snapshot_ok st" "\<not> head_in_base_check st rule" "predicate_id f = predicate_id (head rule)"
  shows "\<not> fact_in_slice (rs_facts (sr_ruleset st)) f \<and> f \<notin> set (set_facts (edb_snapshot st))"
proof -
  from assms(2) have pid: "predicate_id (head rule) < MAX_PREDICATES" "snd (edb_ranges st ! predicate_id (head rule)) = 0"
    "\<not> list_ex (\<lambda>f. predicate_id f = predicate_id (head rule)) (rs_facts (sr_ruleset st))"
    by (auto simp: head_in_base_check_def)
  then have "of_pred (predicate_id (head rule)) (set_facts (edb_snapshot st)) = []"
    using assms(1) by (auto simp: snapshot_ok_def)
  then show ?thesis using pid(3) assms(3) by (auto simp: filter_empty_conv fact_in_slice_def list_ex_iff)
qed

section \<open>What an evaluation step may change\<close>

text \<open>
  The part of the state that is fixed while the rules of one round are applied, and the relation between
  a state and a later one of the same round: facts are only appended.
\<close>

definition fixed_view :: "solve_state \<Rightarrow> _" where
  "fixed_view st = (sr_ruleset st, sr_symbols st, edb_snapshot st, edb_ranges st, derived_capacity st,
     stratum_idb_end st, idb_current_end st, idb_delta_begin st, idb_delta_end st, active_stratum st,
     stratified st, finalized st, failed st)"

lemma fixed_viewD:
  assumes "fixed_view st' = fixed_view st"
  shows "sr_ruleset st' = sr_ruleset st" "sr_symbols st' = sr_symbols st" "edb_snapshot st' = edb_snapshot st"
    "edb_ranges st' = edb_ranges st" "derived_capacity st' = derived_capacity st"
    "stratum_idb_end st' = stratum_idb_end st" "idb_current_end st' = idb_current_end st"
    "idb_delta_begin st' = idb_delta_begin st" "idb_delta_end st' = idb_delta_end st"
    "active_stratum st' = active_stratum st" "stratified st' = stratified st" "finalized st' = finalized st" "failed st' = failed st"
  using assms by (simp_all add: fixed_view_def)

definition extends :: "solve_state \<Rightarrow> solve_state \<Rightarrow> bool" where
  "extends st st' \<longleftrightarrow> fixed_view st' = fixed_view st \<and> head_may_be_in_base st' = head_may_be_in_base st \<and>
     (\<exists>new ps. idb_facts st' = idb_facts st @ new \<and> idb_proof_index st' = idb_proof_index st @ ps)"

lemma extends_refl [simp]: "extends st st"
  by (simp add: extends_def)

lemma extends_trans: "extends st st' \<Longrightarrow> extends st' st'' \<Longrightarrow> extends st st''"
  by (auto simp: extends_def)

text \<open>The derived part of the state, and operations that leave it alone.\<close>

definition derived_part :: "solve_state \<Rightarrow> _" where
  "derived_part st = (fixed_view st, head_may_be_in_base st, idb_facts st, idb_proof_index st, idb_per_pred st, idb_sorted st)"

lemma derived_part_extends: "derived_part st' = derived_part st \<Longrightarrow> extends st st'"
  by (simp add: derived_part_def extends_def)

lemma derived_part_frame [frame_simps]:
  "derived_part (set_comparison_failure rc lk op rk st) = derived_part st"
  "derived_part (set_filter_failure err kind cnt limit observed st) = derived_part st"
  "derived_part (set_join_order_failure plan_rc st) = derived_part st"
  "derived_part (set_invalid_state st) = derived_part st"
  "derived_part (set_invalid_fact reg f st) = derived_part st"
  "derived_part (witness_put i p st) = derived_part st"
  "derived_part (witness_record_positive i org cand cp st) = derived_part st"
  "derived_part (witness_record_negation i org g st) = derived_part st"
  "derived_part (witness_record_comparison i op lhs rhs st) = derived_part st"
  "derived_part (witness_record_filter i prog fk v st) = derived_part st"
  "derived_part (witness_commit_range node rule st) = derived_part st"
  "derived_part (idb_overflow f kind observed limit st) = derived_part st"
  by (auto simp: derived_part_def fixed_view_def set_comparison_failure_def set_filter_failure_def
      set_join_order_failure_def set_invalid_state_def set_invalid_fact_def witness_put_def
      witness_record_positive_def witness_record_negation_def witness_record_comparison_def
      witness_record_filter_def witness_commit_range_def idb_overflow_def Let_def split: option.splits prod.splits)

definition base_facts :: "solve_state \<Rightarrow> fact set" where
  "base_facts st = set (rs_facts (sr_ruleset st)) \<union> set (set_facts (edb_snapshot st))"

text \<open>The derived facts are distinct, valid, outside the base and within the three bounds.\<close>

definition idb_inv :: "solve_state \<Rightarrow> bool" where
  "idb_inv st \<longleftrightarrow>
     snapshot_ok st \<and> distinct (idb_facts st) \<and> length (idb_proof_index st) = length (idb_facts st) \<and>
     length (idb_facts st) \<le> derived_capacity st \<and> length (idb_facts st) \<le> MAX_IDB_FACTS \<and>
     idb_current_end st \<le> length (idb_facts st) \<and> (idb_sorted st \<longrightarrow> sorted (idb_facts st)) \<and>
     length (idb_per_pred st) = MAX_PREDICATES \<and>
     (\<forall>p<MAX_PREDICATES. idb_per_pred st ! p = pred_count p (idb_facts st)) \<and>
     (\<forall>p. pred_count p (idb_facts st) \<le> MAX_FACTS_PER_PRED) \<and>
     (\<forall>f\<in>set (idb_facts st). fact_structurally_valid (rs_registry (sr_ruleset st)) f \<and>
        predicate_id f < MAX_PREDICATES \<and> f \<notin> base_facts st)"

lemma snapshot_ok_cong: "fixed_view st' = fixed_view st \<Longrightarrow> snapshot_ok st' \<longleftrightarrow> snapshot_ok st"
  by (simp add: fixed_view_def snapshot_ok_def edb_slice_def cong: if_cong)

lemma base_facts_cong: "fixed_view st' = fixed_view st \<Longrightarrow> base_facts st' = base_facts st"
  by (simp add: base_facts_def fixed_view_def)

lemma idb_inv_cong:
  assumes "derived_part st' = derived_part st" shows "idb_inv st' \<longleftrightarrow> idb_inv st"
proof -
  from assms have fv: "fixed_view st' = fixed_view st" and
    d: "idb_facts st' = idb_facts st" "idb_proof_index st' = idb_proof_index st" "idb_per_pred st' = idb_per_pred st"
      "idb_sorted st' = idb_sorted st"
    by (simp_all add: derived_part_def)
  show ?thesis
    unfolding idb_inv_def snapshot_ok_cong[OF fv] base_facts_cong[OF fv] fixed_viewD[OF fv] d by (rule refl)
qed

lemma fact_in_base_iff: "snapshot_ok st \<Longrightarrow> fact_in_base st f \<longleftrightarrow> f \<in> base_facts st"
  by (simp add: fact_in_base_def fact_in_slice_def list_ex_iff base_facts_def fact_set_contains_spec snapshot_ok_def)

lemma append_idb_fact_parts:
  "fixed_view (append_idb_fact f rid depth parent rule st) = fixed_view st"
  "head_may_be_in_base (append_idb_fact f rid depth parent rule st) = head_may_be_in_base st"
  "idb_facts (append_idb_fact f rid depth parent rule st) = idb_facts st @ [f]"
  "\<exists>n. idb_proof_index (append_idb_fact f rid depth parent rule st) = idb_proof_index st @ [n]"
  "idb_per_pred (append_idb_fact f rid depth parent rule st) =
     (idb_per_pred st)[predicate_id f := idb_per_pred st ! predicate_id f + 1]"
  "\<not> idb_sorted (append_idb_fact f rid depth parent rule st)"
proof -
  have w: "fixed_view (witness_commit_range n rule s) = fixed_view s"
    "head_may_be_in_base (witness_commit_range n rule s) = head_may_be_in_base s"
    "idb_facts (witness_commit_range n rule s) = idb_facts s"
    "idb_proof_index (witness_commit_range n rule s) = idb_proof_index s"
    "idb_per_pred (witness_commit_range n rule s) = idb_per_pred s"
    "idb_sorted (witness_commit_range n rule s) = idb_sorted s" for n s
    using derived_part_frame(11)[of n rule s] by (simp_all add: derived_part_def)
  show "fixed_view (append_idb_fact f rid depth parent rule st) = fixed_view st"
    "head_may_be_in_base (append_idb_fact f rid depth parent rule st) = head_may_be_in_base st"
    "idb_facts (append_idb_fact f rid depth parent rule st) = idb_facts st @ [f]"
    "\<exists>n. idb_proof_index (append_idb_fact f rid depth parent rule st) = idb_proof_index st @ [n]"
    "idb_per_pred (append_idb_fact f rid depth parent rule st) =
     (idb_per_pred st)[predicate_id f := idb_per_pred st ! predicate_id f + 1]"
    "\<not> idb_sorted (append_idb_fact f rid depth parent rule st)"
    by (simp_all add: append_idb_fact_def Let_def w) (simp_all add: fixed_view_def)
qed

lemma append_idb_fact_inv:
  assumes "idb_inv st" "fact_structurally_valid (rs_registry (sr_ruleset st)) f" "f \<notin> base_facts st"
    "f \<notin> set (idb_facts st)" "length (idb_facts st) < derived_capacity st" "length (idb_facts st) < MAX_IDB_FACTS"
    "predicate_id f < MAX_PREDICATES" "idb_per_pred st ! predicate_id f < MAX_FACTS_PER_PRED"
  shows "idb_inv (append_idb_fact f rid depth parent rule st)"
proof -
  let ?st = "append_idb_fact f rid depth parent rule st"
  note parts = append_idb_fact_parts[of f rid depth parent rule st]
  note fv = fixed_viewD[OF parts(1)]
  obtain n where n: "idb_proof_index ?st = idb_proof_index st @ [n]" using parts(4) by blast
  have snap: "snapshot_ok ?st" using assms(1) snapshot_ok_cong[OF parts(1)] by (simp add: idb_inv_def)
  have "idb_per_pred ?st ! p = pred_count p (idb_facts ?st)" if "p < MAX_PREDICATES" for p
    using that assms(1,7) by (simp add: parts(3,5) idb_inv_def nth_list_update)
  moreover have "pred_count p (idb_facts ?st) \<le> MAX_FACTS_PER_PRED" for p
    using assms(1,7,8) by (auto simp: parts(3) idb_inv_def)
  ultimately show ?thesis
    using assms snap n by (simp add: idb_inv_def parts fv base_facts_cong[OF parts(1)])
qed

text \<open>Accepting a head: on success the fact is in the base or in the derived facts, and nothing else is new.\<close>

lemma append_idb_merge_spec:
  assumes inv: "idb_inv st" and flag: "\<not> head_may_be_in_base st \<Longrightarrow> f \<notin> base_facts st"
    and run: "append_idb_merge f rid depth parent rule st = (ok, st')"
  shows "extends st st'" "idb_inv st'"
    "ok \<Longrightarrow> set (idb_facts st') = set (idb_facts st) \<union> ({f} - base_facts st)"
    "ok \<Longrightarrow> fact_structurally_valid (rs_registry (sr_ruleset st)) f"
proof -
  have snap: "snapshot_ok st" using inv by (simp add: idb_inv_def)
  have slices: "fact_in_slice (take n (idb_facts st)) f \<or> fact_in_slice (drop n (idb_facts st)) f \<longleftrightarrow> f \<in> set (idb_facts st)" for n
  proof -
    have "set (take n (idb_facts st)) \<union> set (drop n (idb_facts st)) = set (idb_facts st)"
      by (metis append_take_drop_id set_append)
    then show ?thesis by (auto simp: fact_in_slice_def list_ex_iff)
  qed
  consider (fail) "\<not> ok" "derived_part st' = derived_part st"
    | (known) "ok" "st' = st" "f \<in> base_facts st \<or> f \<in> set (idb_facts st)"
        "fact_structurally_valid (rs_registry (sr_ruleset st)) f"
    | (new) "ok" "f \<notin> base_facts st" "f \<notin> set (idb_facts st)" "idb_inv st'"
        "st' = append_idb_fact f rid depth parent rule st"
        "fact_structurally_valid (rs_registry (sr_ruleset st)) f"
  proof (cases "fact_structurally_valid (rs_registry (sr_ruleset st)) f")
    case False
    then show ?thesis using run fail by (auto simp: append_idb_merge_def frame_simps)
  next
    case valid: True
    show ?thesis
    proof (cases "f \<in> base_facts st \<or> f \<in> set (idb_facts st)")
      case True
      then have "head_may_be_in_base st \<and> fact_in_base st f \<or>
          fact_in_slice (take (idb_current_end st) (idb_facts st)) f \<or>
          fact_in_slice (drop (idb_current_end st) (idb_facts st)) f"
        using flag fact_in_base_iff[OF snap] slices by blast
      then have "append_idb_merge f rid depth parent rule st = (True, st)"
        using valid by (auto simp: append_idb_merge_def)
      then show ?thesis using run known True valid by simp
    next
      case notin: False
      then have "\<not> fact_in_base st f" "\<not> fact_in_slice (take (idb_current_end st) (idb_facts st)) f"
        "\<not> fact_in_slice (drop (idb_current_end st) (idb_facts st)) f"
        using fact_in_base_iff[OF snap] slices by blast+
      note step = this valid
      show ?thesis
      proof (cases "length (idb_facts st) < derived_capacity st \<and> length (idb_facts st) < MAX_IDB_FACTS \<and>
          predicate_id f < MAX_PREDICATES \<and> idb_per_pred st ! predicate_id f < MAX_FACTS_PER_PRED")
        case True
        then have "append_idb_merge f rid depth parent rule st = (True, append_idb_fact f rid depth parent rule st)"
          using step by (simp add: append_idb_merge_def)
        then show ?thesis
          using run new True notin valid append_idb_fact_inv[OF inv valid, of rid depth parent rule] by simp
      next
        case False
        then show ?thesis using run fail step
          by (auto simp: append_idb_merge_def frame_simps Let_def split: if_splits)
      qed
    qed
  qed
  then have "extends st st' \<and> idb_inv st' \<and>
    (ok \<longrightarrow> set (idb_facts st') = set (idb_facts st) \<union> ({f} - base_facts st) \<and>
       fact_structurally_valid (rs_registry (sr_ruleset st)) f)"
  proof cases
    case fail
    then show ?thesis using inv idb_inv_cong derived_part_extends by blast
  next
    case known
    moreover have "f \<notin> base_facts st" if "f \<in> set (idb_facts st)" using that inv by (simp add: idb_inv_def)
    ultimately show ?thesis using inv by auto
  next
    case new
    then show ?thesis using append_idb_fact_parts[of f rid depth parent rule st] by (auto simp: extends_def)
  qed
  then show "extends st st'" "idb_inv st'"
    "ok \<Longrightarrow> set (idb_facts st') = set (idb_facts st) \<union> ({f} - base_facts st)"
    "ok \<Longrightarrow> fact_structurally_valid (rs_registry (sr_ruleset st)) f" by auto
qed

end
