(* ===== verification/Solver_Eval.thy ===== *)
theory Solver_Eval
  imports Solver_State
begin

unbundle bit_operations_syntax

text \<open>
  Evaluation of single body literals (\<^verbatim>\<open>src/core/maelys_datalog_solver.c\<close>): variable bindings and matching,
  comparisons over terms and over 64-bit arithmetic, filters, negation, and the four aggregates.

  An evaluator that returns 0 (fatal), 1 (no match) or 2 (match, with outputs) returns an
  \<open>eval_outcome\<close> and the state. Terms used as operands carry the member their tag selects; reading
  another union member is not modelled. Arithmetic evaluation recurses through node indices; \<open>fuel\<close> bounds
  the depth, and one more than the number of nodes is enough for every expression that is not cyclic.
\<close>

datatype 'a eval_outcome = EVAL_FATAL | EVAL_NO | EVAL_YES 'a

section \<open>Bindings\<close>

record bindings =
  bound_mask :: "32 word"
  bound_value :: "term list"

definition empty_bindings :: bindings where
  "empty_bindings = \<lparr>bound_mask = 0, bound_value = replicate MAX_RULE_VARIABLES (TERM_NOKIND 0)\<rparr>"

definition bindings_is_bound :: "bindings \<Rightarrow> nat \<Rightarrow> bool" where
  "bindings_is_bound b v \<longleftrightarrow> (bound_mask b AND push_bit v 1) \<noteq> 0"

definition bindings_set_bound :: "nat \<Rightarrow> bindings \<Rightarrow> bindings" where
  "bindings_set_bound v b = b\<lparr>bound_mask := bound_mask b OR push_bit v 1\<rparr>"

definition bind_or_match :: "bindings \<Rightarrow> term \<Rightarrow> term \<Rightarrow> bindings option" where
  "bind_or_match b pattern val =
     (case pattern of
        TERM_VAR v \<Rightarrow>
          if v \<ge> MAX_RULE_VARIABLES then None
          else if \<not> bindings_is_bound b v then
            Some ((bindings_set_bound v b)\<lparr>bound_value := (bound_value b)[v := val]\<rparr>)
          else if term_equal (bound_value b ! v) val then Some b else None
      | _ \<Rightarrow> if term_equal pattern val then Some b else None)"

text \<open>The loop that matches the terms of an atom against those of a fact.\<close>

fun match_terms :: "bindings \<Rightarrow> term list \<Rightarrow> term list \<Rightarrow> bindings option" where
  "match_terms b (p # ps) (t # ts) =
     (case bind_or_match b p t of None \<Rightarrow> None | Some b' \<Rightarrow> match_terms b' ps ts)"
| "match_terms b _ _ = Some b"

definition instantiate_term :: "bindings \<Rightarrow> term \<Rightarrow> term option" where
  "instantiate_term b src =
     (case src of
        TERM_VAR v \<Rightarrow> if v \<ge> MAX_RULE_VARIABLES \<or> \<not> bindings_is_bound b v then None else Some (bound_value b ! v)
      | _ \<Rightarrow> Some src)"

text \<open>\<^verbatim>\<open>solve_once_instantiate_fact_term\<close> over the terms of an atom, which is how both callers use it.\<close>

fun instantiate_terms :: "bindings \<Rightarrow> term list \<Rightarrow> term list option" where
  "instantiate_terms b [] = Some []"
| "instantiate_terms b (t # ts) =
     (case instantiate_term b t of
        None \<Rightarrow> None
      | Some u \<Rightarrow> map_option ((#) (fact_set_term u)) (instantiate_terms b ts))"

definition instantiate_atom :: "bindings \<Rightarrow> fact \<Rightarrow> fact option" where
  "instantiate_atom b a = map_option (Fact (predicate_id a)) (instantiate_terms b (terms a))"

section \<open>Comparisons\<close>

text \<open>A failure comes with the kind of the operand written so far, 0 when none was.\<close>

definition instantiate_comparison_term :: "bindings \<Rightarrow> term \<Rightarrow> (compare_result \<times> nat) + term" where
  "instantiate_comparison_term b src =
     (if \<not> term_kind_known src then Inl (COMPARE_UNKNOWN_TERM_KIND, 0)
      else case src of
        TERM_VAR v \<Rightarrow>
          if v \<ge> MAX_RULE_VARIABLES \<or> \<not> bindings_is_bound b v then Inl (COMPARE_UNBOUND_VARIABLE, 0)
          else
            let u = bound_value b ! v
            in if \<not> term_kind_known u then Inl (COMPARE_UNKNOWN_TERM_KIND, term_kind u)
               else if is_var u then Inl (COMPARE_UNBOUND_VARIABLE, term_kind u)
               else Inr u
      | _ \<Rightarrow> Inr src)"

fun term_integer :: "term \<Rightarrow> int" where
  "term_integer (TERM_INT i) = i"
| "term_integer _ = 0"

fun term_variable :: "term \<Rightarrow> nat" where
  "term_variable (TERM_VAR v) = v"
| "term_variable _ = 0"

definition compare_of :: "bool \<Rightarrow> compare_result" where
  "compare_of c = (if c then COMPARE_TRUE else COMPARE_FALSE)"

definition evaluate_comparison :: "term \<Rightarrow> cmp_op \<Rightarrow> term \<Rightarrow> compare_result" where
  "evaluate_comparison lhs op rhs =
     (if \<not> term_kind_known lhs \<or> \<not> term_kind_known rhs then COMPARE_UNKNOWN_TERM_KIND
      else if is_var lhs \<or> is_var rhs then COMPARE_UNBOUND_VARIABLE
      else case op of
        CMP_EQ \<Rightarrow> if term_kind lhs \<noteq> term_kind rhs then COMPARE_INVALID_KIND else compare_of (term_equal lhs rhs)
      | CMP_NEQ \<Rightarrow> if term_kind lhs \<noteq> term_kind rhs then COMPARE_INVALID_KIND else compare_of (\<not> term_equal lhs rhs)
      | CMP_OTHER _ \<Rightarrow> COMPARE_UNKNOWN_OPERATOR
      | _ \<Rightarrow>
          if term_kind lhs \<noteq> term_kind rhs then COMPARE_INVALID_KIND
          else if term_kind lhs \<noteq> 2 then COMPARE_INVALID_ORDINAL_TYPE
          else case op of
            CMP_LT \<Rightarrow> compare_of (term_integer lhs < term_integer rhs)
          | CMP_LTE \<Rightarrow> compare_of (term_integer lhs \<le> term_integer rhs)
          | CMP_GT \<Rightarrow> compare_of (term_integer lhs > term_integer rhs)
          | CMP_GTE \<Rightarrow> compare_of (term_integer lhs \<ge> term_integer rhs)
          | _ \<Rightarrow> COMPARE_UNKNOWN_OPERATOR)"

definition long_long_overflow :: "int \<Rightarrow> bool" where
  "long_long_overflow i \<longleftrightarrow> i < - (2 ^ 63) \<or> i \<ge> 2 ^ 63"

text \<open>
  The value of an expression, or the failure and the kind observed. \<^verbatim>\<open>__builtin_*_overflow\<close> compute exactly
  and report whether the result leaves the range of \<^verbatim>\<open>long long\<close>.
\<close>

fun eval_arith_expr :: "nat \<Rightarrow> rule \<Rightarrow> nat \<Rightarrow> bindings \<Rightarrow> (compare_result \<times> nat) + int" where
  "eval_arith_expr 0 rule root b = Inl (COMPARE_UNKNOWN_TERM_KIND, 0)"
| "eval_arith_expr (Suc fuel) rule root b =
     (if root = ARITH_EXPR_NO_NODE \<or> root \<ge> length (expr_nodes rule) then Inl (COMPARE_UNKNOWN_TERM_KIND, 0)
      else
        let node = expr_nodes rule ! root;
            binary = (\<lambda>f. case eval_arith_expr fuel rule (node_left node) b of
              Inl e \<Rightarrow> Inl e
            | Inr l \<Rightarrow> (case eval_arith_expr fuel rule (node_right node) b of
                Inl e \<Rightarrow> Inl e
              | Inr r \<Rightarrow> if long_long_overflow (f l r) then Inl (COMPARE_ARITH_OVERFLOW, 2) else Inr (f l r)))
        in case node_kind node of
          ARITH_INT_LITERAL \<Rightarrow> Inr (term_integer (node_term node))
        | ARITH_VAR \<Rightarrow>
            let v = term_variable (node_term node)
            in if v \<ge> MAX_RULE_VARIABLES \<or> \<not> bindings_is_bound b v then Inl (COMPARE_UNBOUND_VARIABLE, 4)
               else (case bound_value b ! v of
                 TERM_INT i \<Rightarrow> Inr i
               | u \<Rightarrow> if \<not> term_kind_known u then Inl (COMPARE_UNKNOWN_TERM_KIND, term_kind u)
                      else Inl (COMPARE_INVALID_ORDINAL_TYPE, term_kind u))
        | ARITH_ADD \<Rightarrow> binary (+)
        | ARITH_SUB \<Rightarrow> binary (-)
        | ARITH_MUL \<Rightarrow> binary (*)
        | ARITH_OTHER _ \<Rightarrow> Inl (COMPARE_UNKNOWN_TERM_KIND, 0))"

definition expr_fuel :: "rule \<Rightarrow> nat" where
  "expr_fuel rule = Suc (length (expr_nodes rule))"

text \<open>The two evaluated operands of a comparison, or what the failure reports.\<close>

definition comparison_operands :: "rule \<Rightarrow> literal \<Rightarrow> bindings \<Rightarrow> (compare_result \<times> nat \<times> nat) + (term \<times> term)" where
  "comparison_operands rule lit b =
     (if has_arith_expr lit then
        (case eval_arith_expr (expr_fuel rule) rule (lhs_expr_root lit) b of
           Inl (rc, k) \<Rightarrow> Inl (rc, k, 2)
         | Inr l \<Rightarrow> (case eval_arith_expr (expr_fuel rule) rule (rhs_expr_root lit) b of
             Inl (rc, k) \<Rightarrow> Inl (rc, 2, k)
           | Inr r \<Rightarrow> Inr (TERM_INT l, TERM_INT r)))
      else
        (case instantiate_comparison_term b (cmp_lhs lit) of
           Inl (rc, _) \<Rightarrow> Inl (rc, term_kind (cmp_lhs lit), term_kind (cmp_rhs lit))
         | Inr l \<Rightarrow> (case instantiate_comparison_term b (cmp_rhs lit) of
             Inl (rc, _) \<Rightarrow> Inl (rc, term_kind l, term_kind (cmp_rhs lit))
           | Inr r \<Rightarrow> Inr (l, r))))"

definition evaluate_comparison_literal ::
  "rule \<Rightarrow> literal \<Rightarrow> bindings \<Rightarrow> solve_state \<Rightarrow> (term \<times> term) eval_outcome \<times> solve_state" where
  "evaluate_comparison_literal rule lit b st =
     (case comparison_operands rule lit b of
        Inl (rc, lk, rk) \<Rightarrow> (EVAL_FATAL, set_comparison_failure rc lk (cmp_operator lit) rk st)
      | Inr (l, r) \<Rightarrow>
          (case evaluate_comparison l (cmp_operator lit) r of
             COMPARE_FALSE \<Rightarrow> (EVAL_NO, st)
           | COMPARE_TRUE \<Rightarrow> (EVAL_YES (l, r), st)
           | rc \<Rightarrow> (EVAL_FATAL, set_comparison_failure rc (term_kind l) (cmp_operator lit) (term_kind r) st)))"

section \<open>Filters\<close>

definition filter_program_resolve :: "ruleset \<Rightarrow> literal \<Rightarrow> (filter_program \<times> string) option" where
  "filter_program_resolve rs lit =
     (case lit of
        LIT_FILTER kind idx _ \<Rightarrow>
          if idx \<ge> length (rs_filter_programs rs) \<or> length (rs_filter_programs rs) > MAX_FILTER_PROGRAMS \<or>
             length (rs_filter_pattern_pool rs) > FILTER_PATTERN_POOL_BYTES then None
          else
            let p = rs_filter_programs rs ! idx
            in if program_kind p \<noteq> kind \<or> pattern_length p > MAX_FILTER_PATTERN_BYTES \<or>
                  pattern_offset p > length (rs_filter_pattern_pool rs) \<or>
                  pattern_length p > length (rs_filter_pattern_pool rs) - pattern_offset p then None
               else if filter_by_kind_in (ctx_filters (rs_modules rs)) (program_kind p) = None then None
               else Some (p, take (pattern_length p) (drop (pattern_offset p) (rs_filter_pattern_pool rs)))
      | _ \<Rightarrow> None)"

definition filter_symbol_bytes_resolve :: "symbol_table \<Rightarrow> nat \<Rightarrow> string option" where
  "filter_symbol_bytes_resolve tab sid =
     (if length (entries tab) > MAX_SYMBOLS \<or> length (storage tab) > STRING_POOL_BYTES \<or> \<not> symbol_id_is_valid tab sid
      then None
      else
        let e = entries tab ! (sid - 1)
        in if sym_len e > MAX_STRING_BYTES \<or> sym_offset e > length (storage tab) \<or>
              sym_len e \<ge> length (storage tab) - sym_offset e \<or>
              storage tab ! (sym_offset e + sym_len e) \<noteq> CHR 0x00 then None
           else Some (take (sym_len e) (drop (sym_offset e) (storage tab))))"

definition ruleset_filters_structurally_valid :: "ruleset \<Rightarrow> bool" where
  "ruleset_filters_structurally_valid rs \<longleftrightarrow>
     length (rs_rules rs) \<le> MAX_RULES \<and> length (rs_filter_programs rs) \<le> MAX_FILTER_PROGRAMS \<and>
     length (rs_filter_pattern_pool rs) \<le> FILTER_PATTERN_POOL_BYTES \<and>
     list_all (\<lambda>r. length (body r) \<le> MAX_BODY_LITERALS \<and>
       list_all (\<lambda>lit. case lit of
           LIT_FILTER _ _ v \<Rightarrow> (term_kind v = 1 \<or> term_kind v = 4) \<and> filter_program_resolve rs lit \<noteq> None
         | _ \<Rightarrow> True) (body r)) (rs_rules rs)"

definition evaluate_filter_literal ::
  "ruleset \<Rightarrow> literal \<Rightarrow> bindings \<Rightarrow> solve_state \<Rightarrow> term eval_outcome \<times> solve_state" where
  "evaluate_filter_literal rs lit b st =
     (case filter_program_resolve rs lit of
        None \<Rightarrow> (EVAL_FATAL, set_filter_failure MAELYS_ERR_INVALID_STATE LIMIT_NONE 0 0 0 st)
      | Some (p, pattern) \<Rightarrow>
     (case instantiate_comparison_term b (filter_value lit) of
        Inl (_, k) \<Rightarrow> (EVAL_FATAL, set_filter_failure MAELYS_ERR_INVALID_FIELD LIMIT_NONE 0 0 k st)
      | Inr val \<Rightarrow>
     (case val of
        TERM_SYMBOL sid \<Rightarrow>
     (case filter_symbol_bytes_resolve (sr_symbols st) sid of
        None \<Rightarrow> (EVAL_FATAL, set_filter_failure MAELYS_ERR_INVALID_STATE LIMIT_NONE 0 0 1 st)
      | Some bytes \<Rightarrow>
     (case filter_cost_in (ctx_filters (rs_modules rs)) (program_kind p) (length bytes) (pattern_length p) of
        Inl rc \<Rightarrow> (EVAL_FATAL, set_filter_failure rc LIMIT_NONE 0 0 1 st)
      | Inr cost \<Rightarrow>
          let fs = filter_stats st
          in if fs_evaluations fs \<ge> MAX_FILTER_EVALUATIONS then
               (EVAL_FATAL, set_filter_failure MAELYS_ERR_PAYLOAD_TOO_LARGE LIMIT_MAX_FILTER_EVALUATIONS
                  (fs_evaluations fs + 1) MAX_FILTER_EVALUATIONS 1 st)
             else if fs_cost_units fs > MAX_FILTER_COST_UNITS \<or> cost > MAX_FILTER_COST_UNITS - fs_cost_units fs then
               (EVAL_FATAL, set_filter_failure MAELYS_ERR_PAYLOAD_TOO_LARGE LIMIT_MAX_FILTER_COST_UNITS
                  (fs_cost_units fs + cost) MAX_FILTER_COST_UNITS 1 st)
             else (case filter_evaluate_in (ctx_filters (rs_modules rs)) (program_kind p) bytes pattern of
               Inl rc \<Rightarrow> (EVAL_FATAL, set_filter_failure rc LIMIT_NONE 0 0 1 st)
             | Inr matched \<Rightarrow>
                 let fs' = fs\<lparr>fs_evaluations := fs_evaluations fs + 1, fs_cost_units := fs_cost_units fs + cost\<rparr>;
                     fs' = (if matched then fs'\<lparr>fs_matches := fs_matches fs + 1\<rparr>
                            else fs'\<lparr>fs_non_matches := fs_non_matches fs + 1\<rparr>);
                     st' = st\<lparr>filter_stats := fs'\<rparr>
                 in if matched then (EVAL_YES (TERM_SYMBOL sid), st') else (EVAL_NO, st'))))
      | _ \<Rightarrow> (EVAL_FATAL, set_filter_failure MAELYS_ERR_INVALID_FIELD LIMIT_NONE 0 0 (term_kind val) st))))"

section \<open>Windows of derived facts and negation\<close>

definition idb_scan_window :: "ruleset \<Rightarrow> solve_state \<Rightarrow> nat \<Rightarrow> (nat \<times> nat) option" where
  "idb_scan_window rs st pid =
     (if pid \<ge> MAX_PREDICATES then None
      else if \<not> stratified st then Some (0, idb_current_end st)
      else
        let s = rs_strata rs ! pid
        in if s > active_stratum st \<or> s + 1 \<ge> MAX_STRATA + 1 then None
           else if s < active_stratum st then
             let b = stratum_idb_end st ! s; e = stratum_idb_end st ! (s + 1)
             in if e < b \<or> e > idb_current_end st then None else Some (b, e - b)
           else
             let b = stratum_idb_end st ! active_stratum st
             in if b > idb_current_end st then None else Some (b, idb_current_end st - b))"

text \<open>The frozen facts of a lower stratum, as \<^verbatim>\<open>solve_negated_literal\<close> and \<^verbatim>\<open>aggregate_source\<close> take them.\<close>

definition frozen_window :: "ruleset \<Rightarrow> solve_state \<Rightarrow> nat \<Rightarrow> fact list option" where
  "frozen_window rs st pid =
     (let s = rs_strata rs ! pid
      in if \<not> stratified st \<or> s \<ge> active_stratum st \<or> s \<ge> MAX_STRATA then None
         else
           let b = stratum_idb_end st ! s; e = stratum_idb_end st ! (s + 1)
           in if e < b \<or> e > idb_current_end st then None else Some (segment b e (idb_facts st)))"

definition solve_negated_literal :: "ruleset \<Rightarrow> literal \<Rightarrow> bindings \<Rightarrow> solve_state \<Rightarrow> (fact \<times> origin) option" where
  "solve_negated_literal rs lit b st =
     (case lit of
        LIT_NEGATED_ATOM a \<Rightarrow>
          if predicate_id a \<ge> MAX_PREDICATES then None
          else (case instantiate_atom b a of
            None \<Rightarrow> None
          | Some q \<Rightarrow>
              if \<not> fact_structurally_valid (rs_registry rs) q then None
              else (case predicate_registry_get (rs_registry rs) (predicate_id q) of
                None \<Rightarrow> None
              | Some d \<Rightarrow>
                  if (kind_flags d AND PRED_KIND_EDB) \<noteq> 0 then
                    (if fact_set_contains (edb_snapshot st) q then None else Some (q, ORIGIN_EDB))
                  else if (kind_flags d AND PRED_KIND_POLICY_FACT) \<noteq> 0 then
                    (if fact_in_slice (rs_facts rs) q then None else Some (q, ORIGIN_POLICY_FACT))
                  else if (kind_flags d AND PRED_KIND_IDB) \<noteq> 0 then
                    (case frozen_window rs st (predicate_id q) of
                       None \<Rightarrow> None
                     | Some fs \<Rightarrow>
                         if fact_set_contains \<lparr>set_facts = fs, set_capacity = length fs, set_sorted = True\<rparr> q
                         then None else Some (q, ORIGIN_IDB))
                  else None))
      | _ \<Rightarrow> None)"

section \<open>Aggregates\<close>

text \<open>Group keys: named variables of the source atom other than the projected one.\<close>

fun bind_group_keys :: "bindings \<Rightarrow> nat \<Rightarrow> term list \<Rightarrow> term list option" where
  "bind_group_keys b proj [] = Some []"
| "bind_group_keys b proj (t # ts) =
     (if \<not> is_var t \<or> term_variable t = proj \<or> term_variable t \<ge> NAMED_VARIABLE_COUNT
      then map_option ((#) t) (bind_group_keys b proj ts)
      else (case instantiate_term b t of
        None \<Rightarrow> None
      | Some u \<Rightarrow> map_option ((#) (fact_set_term u)) (bind_group_keys b proj ts)))"

fun agg_atom :: "literal \<Rightarrow> fact" where
  "agg_atom (LIT_AGGREGATE _ a _ _) = a"
| "agg_atom _ = Fact 0 []"

definition aggregate_source :: "literal \<Rightarrow> bindings \<Rightarrow> solve_state \<Rightarrow> maelys_result + (fact \<times> origin \<times> fact list)" where
  "aggregate_source lit b st =
     (let rs = sr_ruleset st; a = agg_atom lit
      in case predicate_registry_get (rs_registry rs) (predicate_id a) of
        None \<Rightarrow> Inl MAELYS_ERR_INVALID_STATE
      | Some d \<Rightarrow>
          if \<not> is_var (agg_lhs lit) \<or> term_variable (agg_lhs lit) \<ge> MAX_RULE_VARIABLES \<or>
             \<not> is_var (agg_rhs lit) \<or> term_variable (agg_rhs lit) \<ge> MAX_RULE_VARIABLES \<or>
             arity a > MAX_TERMS \<or> arity a \<noteq> pred_arity d then Inl MAELYS_ERR_INVALID_STATE
          else (case bind_group_keys b (term_variable (agg_lhs lit)) (map fact_set_term (terms a)) of
            None \<Rightarrow> Inl MAELYS_ERR_INVALID_STATE
          | Some ts \<Rightarrow>
              let pattern = Fact (predicate_id a) ts
              in if (kind_flags d AND PRED_KIND_EDB) \<noteq> 0 then Inr (pattern, ORIGIN_EDB, edb_slice st (predicate_id a))
                 else if (kind_flags d AND PRED_KIND_POLICY_FACT) \<noteq> 0 then Inr (pattern, ORIGIN_POLICY_FACT, rs_facts rs)
                 else if (kind_flags d AND PRED_KIND_IDB) \<noteq> 0 then
                   (if finalized st then Inr (pattern, ORIGIN_IDB, idb_facts st)
                    else case frozen_window rs st (predicate_id a) of
                      None \<Rightarrow> Inl MAELYS_ERR_INVALID_STATE
                    | Some fs \<Rightarrow> Inr (pattern, ORIGIN_IDB, fs))
                 else Inl MAELYS_ERR_INVALID_STATE))"

definition AGGREGATE_CAPACITY :: nat where
  "AGGREGATE_CAPACITY = max MAX_RULE_FACTS MAX_FACTS_PER_PRED"

text \<open>The scan of \<^verbatim>\<open>evaluate_count\<close>: the projected values of the matching facts.\<close>

fun count_values :: "fact \<Rightarrow> nat \<Rightarrow> fact list \<Rightarrow> term list \<Rightarrow> maelys_result + term list" where
  "count_values pattern proj [] vals = Inr vals"
| "count_values pattern proj (f # fs) vals =
     (if predicate_id f \<noteq> predicate_id pattern then count_values pattern proj fs vals
      else if arity f \<noteq> arity pattern then Inl MAELYS_ERR_INVALID_STATE
      else (case match_terms empty_bindings (terms pattern) (terms f) of
        None \<Rightarrow> count_values pattern proj fs vals
      | Some l \<Rightarrow>
          if \<not> bindings_is_bound l proj then Inl MAELYS_ERR_INVALID_STATE
          else if length vals = AGGREGATE_CAPACITY then Inl MAELYS_ERR_PAYLOAD_TOO_LARGE
          else count_values pattern proj fs (vals @ [bound_value l ! proj])))"

fun count_runs :: "term list \<Rightarrow> nat" where
  "count_runs [] = 0"
| "count_runs [t] = 1"
| "count_runs (t # u # ts) = (if term_equal t u then 0 else 1) + count_runs (u # ts)"

definition evaluate_count :: "literal \<Rightarrow> bindings \<Rightarrow> solve_state \<Rightarrow> maelys_result + (fact \<times> origin \<times> term)" where
  "evaluate_count lit b st =
     (case aggregate_source lit b st of
        Inl rc \<Rightarrow> Inl rc
      | Inr (pattern, org, fs) \<Rightarrow>
          (case count_values pattern (term_variable (agg_lhs lit)) fs [] of
             Inl rc \<Rightarrow> Inl rc
           | Inr vals \<Rightarrow> Inr (pattern, org, TERM_INT (int (count_runs (sort_array term_cmp vals))))))"

fun raw_value :: "term \<Rightarrow> int" where
  "raw_value (TERM_INT i) = i"
| "raw_value (TERM_SYMBOL s) = int s"
| "raw_value (TERM_BOOL v) = v"
| "raw_value _ = 0"

definition aggregate_rejection :: "agg_kind \<Rightarrow> nat \<Rightarrow> nat \<Rightarrow> term \<Rightarrow> bool \<Rightarrow> aggregate_error" where
  "aggregate_rejection kind pid index val overflow =
     \<lparr>ae_value = raw_value val, ae_predicate_id = pid, ae_kind = term_kind val, ae_literal_kind = kind,
      ae_term_index = index, ae_overflow = overflow\<rparr>"

fun projected_term :: "term list \<Rightarrow> nat \<Rightarrow> nat \<Rightarrow> nat option" where
  "projected_term [] proj i = None"
| "projected_term (t # ts) proj i = (if t = TERM_VAR proj then Some i else projected_term ts proj (i + 1))"

text \<open>The scan of \<^verbatim>\<open>evaluate_numeric_aggregate\<close>: matches kept for a sum, the running extremum otherwise.\<close>

fun numeric_scan ::
  "agg_kind \<Rightarrow> fact \<Rightarrow> nat \<Rightarrow> fact list \<Rightarrow> fact list \<Rightarrow> int option \<Rightarrow>
   (maelys_result \<times> aggregate_error option) + (fact list \<times> int option)" where
  "numeric_scan kind pattern pt [] ms acc = Inr (ms, acc)"
| "numeric_scan kind pattern pt (f # fs) ms acc =
     (if predicate_id f \<noteq> predicate_id pattern then numeric_scan kind pattern pt fs ms acc
      else if arity f \<noteq> arity pattern then Inl (MAELYS_ERR_INVALID_STATE, None)
      else (case match_terms empty_bindings (terms pattern) (terms f) of
        None \<Rightarrow> numeric_scan kind pattern pt fs ms acc
      | Some _ \<Rightarrow>
          let t = terms f ! pt; i = term_integer t
          in if term_kind t \<noteq> 2 \<or> i < 0 \<or> i > MAX_INT then
               Inl (MAELYS_ERR_INVALID_FIELD, Some (aggregate_rejection kind (predicate_id pattern) pt t False))
             else if kind = AGG_SUM then
               (if length ms = AGGREGATE_CAPACITY then Inl (MAELYS_ERR_PAYLOAD_TOO_LARGE, None)
                else numeric_scan kind pattern pt fs (ms @ [f]) (Some 0))
             else
               let acc' = (case acc of
                     None \<Rightarrow> i
                   | Some a \<Rightarrow> if (if kind = AGG_MIN then i < a else i > a) then i else a)
               in numeric_scan kind pattern pt fs ms (Some acc')))"

fun sum_runs :: "nat \<Rightarrow> nat \<Rightarrow> fact option \<Rightarrow> fact list \<Rightarrow> int \<Rightarrow> (maelys_result \<times> aggregate_error option) + int" where
  "sum_runs pid pt prev [] acc = Inr acc"
| "sum_runs pid pt prev (f # fs) acc =
     (if (case prev of None \<Rightarrow> False | Some g \<Rightarrow> fact_cmp g f = 0) then sum_runs pid pt (Some f) fs acc
      else
        let a = term_integer (terms f ! pt)
        in if acc > MAX_INT - a then
             Inl (MAELYS_ERR_INVALID_FIELD, Some (aggregate_rejection AGG_SUM pid pt (TERM_INT (acc + a)) True))
           else sum_runs pid pt (Some f) fs (acc + a))"

text \<open>The result is the pattern, the origin and the value, if the group has one.\<close>

definition evaluate_numeric_aggregate ::
  "agg_kind \<Rightarrow> literal \<Rightarrow> bindings \<Rightarrow> solve_state \<Rightarrow>
   (maelys_result \<times> aggregate_error option) + (fact \<times> origin \<times> term option)" where
  "evaluate_numeric_aggregate kind lit b st =
     (case aggregate_source lit b st of
        Inl rc \<Rightarrow> Inl (rc, None)
      | Inr (pattern, org, fs) \<Rightarrow>
     (case projected_term (terms pattern) (term_variable (agg_lhs lit)) 0 of
        None \<Rightarrow> Inl (MAELYS_ERR_INVALID_STATE, None)
      | Some pt \<Rightarrow>
     (case numeric_scan kind pattern pt fs [] None of
        Inl e \<Rightarrow> Inl e
      | Inr (ms, acc) \<Rightarrow>
          if kind = AGG_SUM then
            (case sum_runs (predicate_id pattern) pt None (sort_array fact_cmp ms) 0 of
               Inl e \<Rightarrow> Inl e
             | Inr amount \<Rightarrow> Inr (pattern, org, Some (TERM_INT amount)))
          else Inr (pattern, org, map_option TERM_INT acc))))"

definition evaluate_aggregate ::
  "literal \<Rightarrow> bindings \<Rightarrow> solve_state \<Rightarrow> (maelys_result \<times> aggregate_error option) + (fact \<times> origin \<times> term option)" where
  "evaluate_aggregate lit b st =
     (case lit of
        LIT_AGGREGATE AGG_COUNT _ _ _ \<Rightarrow>
          (case evaluate_count lit b st of
             Inl rc \<Rightarrow> Inl (rc, None)
           | Inr (pattern, org, val) \<Rightarrow> Inr (pattern, org, Some val))
      | LIT_AGGREGATE kind _ _ _ \<Rightarrow> evaluate_numeric_aggregate kind lit b st
      | _ \<Rightarrow> Inl (MAELYS_ERR_INVALID_STATE, None))"

fun agg_kind_of :: "literal \<Rightarrow> agg_kind" where
  "agg_kind_of (LIT_AGGREGATE k _ _ _) = k"
| "agg_kind_of _ = AGG_COUNT"

definition solve_aggregate_literal ::
  "literal \<Rightarrow> nat \<Rightarrow> bindings \<Rightarrow> solve_state \<Rightarrow> bindings eval_outcome \<times> solve_state" where
  "solve_aggregate_literal lit i b st =
     (case evaluate_aggregate lit b st of
        Inl (rc, err) \<Rightarrow>
          let st = (set_invalid_state st)\<lparr>failure_error := rc\<rparr>
          in (EVAL_FATAL,
              if rc = MAELYS_ERR_INVALID_FIELD then
                st\<lparr>runtime_diag := (runtime_diag st)\<lparr>
                  dg_code := (case err of Some e \<Rightarrow> if ae_overflow e then DIAG_SOLVE_SUM_OVERFLOW
                      else DIAG_SOLVE_AGGREGATE_DOMAIN_ERROR | None \<Rightarrow> DIAG_SOLVE_AGGREGATE_DOMAIN_ERROR),
                  dg_aggregate := err\<rparr>\<rparr>
              else st)
      | Inr (pattern, org, None) \<Rightarrow> (EVAL_NO, st)
      | Inr (pattern, org, Some val) \<Rightarrow>
          (case bind_or_match b (agg_rhs lit) val of
             None \<Rightarrow> (EVAL_NO, st)
           | Some b' \<Rightarrow> (EVAL_YES b',
               witness_put i (PREMISE_AGGREGATE (agg_kind_of lit) org i pattern (term_variable (agg_lhs lit))
                 (term_integer val)) st)))"

section \<open>Bindings as partial valuations\<close>

definition ground :: "term \<Rightarrow> bool" where
  "ground t \<longleftrightarrow> term_kind_known t \<and> \<not> is_var t"

lemma ground_fact_set_term [simp]: "term_kind_known t \<Longrightarrow> fact_set_term t = t"
  by (cases t) auto

lemma term_equal_ground: "ground t \<Longrightarrow> term_equal p t \<longleftrightarrow> p = t"
  by (auto simp: term_equal_iff ground_def)

definition bmap :: "bindings \<Rightarrow> nat \<Rightarrow> term option" where
  "bmap b v = (if v < MAX_RULE_VARIABLES \<and> bit (bound_mask b) v then Some (bound_value b ! v) else None)"

definition bindings_ok :: "bindings \<Rightarrow> bool" where
  "bindings_ok b \<longleftrightarrow> length (bound_value b) = MAX_RULE_VARIABLES \<and> (\<forall>v t. bmap b v = Some t \<longrightarrow> ground t)"

text \<open>A valuation gives every variable a ground value; it agrees with bindings when it extends them.\<close>

definition ground_valuation :: "(nat \<Rightarrow> term) \<Rightarrow> bool" where
  "ground_valuation \<sigma> \<longleftrightarrow> (\<forall>v. ground (\<sigma> v))"

definition agrees :: "bindings \<Rightarrow> (nat \<Rightarrow> term) \<Rightarrow> bool" where
  "agrees b \<sigma> \<longleftrightarrow> (\<forall>v t. bmap b v = Some t \<longrightarrow> \<sigma> v = t)"

fun subst :: "(nat \<Rightarrow> term) \<Rightarrow> term \<Rightarrow> term" where
  "subst \<sigma> (TERM_VAR v) = \<sigma> v"
| "subst \<sigma> t = t"

definition inst :: "(nat \<Rightarrow> term) \<Rightarrow> fact \<Rightarrow> fact" where
  "inst \<sigma> a = Fact (predicate_id a) (map (subst \<sigma>) (terms a))"

definition term_vars :: "term list \<Rightarrow> nat set" where
  "term_vars ts = {v. TERM_VAR v \<in> set ts}"

lemma term_vars_simps [simp]:
  "term_vars [] = {}"
  "term_vars (TERM_VAR v # ts) = insert v (term_vars ts)"
  "\<not> is_var t \<Longrightarrow> term_vars (t # ts) = term_vars ts"
  by (auto simp: term_vars_def)

text \<open>The terms a compiled rule may contain: known tags, variables below the array bound.\<close>

definition terms_wf :: "term list \<Rightarrow> bool" where
  "terms_wf ts \<longleftrightarrow> (\<forall>t\<in>set ts. term_kind_known t) \<and> (\<forall>v\<in>term_vars ts. v < MAX_RULE_VARIABLES)"

lemma terms_wf_Cons [simp]:
  "terms_wf (t # ts) \<longleftrightarrow> term_kind_known t \<and> (\<forall>v. t = TERM_VAR v \<longrightarrow> v < MAX_RULE_VARIABLES) \<and> terms_wf ts"
  by (auto simp: terms_wf_def term_vars_def)

lemma bindings_is_bound_iff: "v < MAX_RULE_VARIABLES \<Longrightarrow> bindings_is_bound b v \<longleftrightarrow> bmap b v \<noteq> None"
  by (simp add: bindings_is_bound_def bmap_def bit_iff_and_push_bit_not_eq_0)

lemma bmap_value: "bmap b v = Some t \<Longrightarrow> v < MAX_RULE_VARIABLES \<and> bound_value b ! v = t"
  by (auto simp: bmap_def split: if_splits)

lemma bindings_ok_empty [simp]: "bindings_ok empty_bindings" "bmap empty_bindings v = None"
  by (simp_all add: bindings_ok_def empty_bindings_def bmap_def)

lemma agrees_empty [simp]: "agrees empty_bindings \<sigma>"
  by (simp add: agrees_def)

lemma bmap_bind:
  assumes "v < MAX_RULE_VARIABLES" "length (bound_value b) = MAX_RULE_VARIABLES"
  shows "bmap ((bindings_set_bound v b)\<lparr>bound_value := (bound_value b)[v := val]\<rparr>) = (bmap b)(v \<mapsto> val)"
proof
  fix w
  have "bit (bound_mask b OR push_bit v 1) w \<longleftrightarrow> bit (bound_mask b) w \<or> w = v" if "w < MAX_RULE_VARIABLES"
    using that assms(1) by (auto simp: bit_or_iff bit_exp_iff limit_defs)
  then show "bmap ((bindings_set_bound v b)\<lparr>bound_value := (bound_value b)[v := val]\<rparr>) w = ((bmap b)(v \<mapsto> val)) w"
    using assms by (auto simp: bmap_def bindings_set_bound_def nth_list_update)
qed

lemma bind_or_match_spec:
  assumes ok: "bindings_ok b" and val: "ground val" and p: "\<forall>v. p = TERM_VAR v \<longrightarrow> v < MAX_RULE_VARIABLES"
  shows "bind_or_match b p val = None \<Longrightarrow> agrees b \<sigma> \<Longrightarrow> subst \<sigma> p \<noteq> val"
    and "bind_or_match b p val = Some b' \<Longrightarrow> bindings_ok b' \<and> dom (bmap b') = dom (bmap b) \<union> term_vars [p] \<and>
      (\<forall>\<sigma>. agrees b' \<sigma> \<longleftrightarrow> agrees b \<sigma> \<and> subst \<sigma> p = val)"
proof -
  have const: "(bind_or_match b p val = (if p = val then Some b else None)) \<and> subst \<sigma> p = p" if "\<not> is_var p" for \<sigma>
    using that val by (cases p) (auto simp: bind_or_match_def term_equal_ground ground_def)
  have var: "bind_or_match b p val = (case bmap b v of None \<Rightarrow> Some ((bindings_set_bound v b)\<lparr>bound_value := (bound_value b)[v := val]\<rparr>)
      | Some t \<Rightarrow> if t = val then Some b else None)" if "p = TERM_VAR v" for v
    using that p val bindings_is_bound_iff[of v b] bmap_value[of b v]
    by (auto simp: bind_or_match_def term_equal_ground split: option.splits)
  have "is_var p \<Longrightarrow> \<exists>v. p = TERM_VAR v" by (cases p) auto
  then consider "\<not> is_var p" | v where "p = TERM_VAR v" by blast
  note cases_p = this
  show "subst \<sigma> p \<noteq> val" if "bind_or_match b p val = None" "agrees b \<sigma>"
    using cases_p
  proof cases
    case 1
    then show ?thesis using const[OF 1, of \<sigma>] that by auto
  next
    case (2 v)
    then show ?thesis using var[OF 2] that by (auto simp: agrees_def split: option.splits if_splits)
  qed
  show "bindings_ok b' \<and> dom (bmap b') = dom (bmap b) \<union> term_vars [p] \<and>
      (\<forall>\<sigma>. agrees b' \<sigma> \<longleftrightarrow> agrees b \<sigma> \<and> subst \<sigma> p = val)" if some: "bind_or_match b p val = Some b'"
    using cases_p
  proof cases
    case 1
    then show ?thesis using const[OF 1] some ok by (auto split: if_splits)
  next
    case (2 v)
    have v: "v < MAX_RULE_VARIABLES" using 2 p by simp
    show ?thesis
    proof (cases "bmap b v")
      case None
      then have b': "b' = (bindings_set_bound v b)\<lparr>bound_value := (bound_value b)[v := val]\<rparr>"
        using var[OF 2] some by simp
      then have bm: "bmap b' = (bmap b)(v \<mapsto> val)" using bmap_bind[OF v] ok by (simp add: bindings_ok_def)
      have "length (bound_value b') = MAX_RULE_VARIABLES" using ok by (simp add: b' bindings_ok_def)
      then have "bindings_ok b'" using ok val by (simp add: bindings_ok_def bm)
      moreover have "agrees b' \<sigma> \<longleftrightarrow> agrees b \<sigma> \<and> \<sigma> v = val" for \<sigma>
        using None by (auto simp: agrees_def bm)
      ultimately show ?thesis using 2 by (auto simp: bm)
    next
      case (Some t)
      then show ?thesis using var[OF 2] some ok 2 by (auto simp: agrees_def split: if_splits)
    qed
  qed
qed

lemma term_vars_Cons: "term_vars (t # ts) = term_vars [t] \<union> term_vars ts"
  by (auto simp: term_vars_def)

lemma match_terms_spec:
  assumes "bindings_ok b" "\<forall>t\<in>set ts. ground t" "terms_wf ps" "length ps = length ts"
  shows "match_terms b ps ts = None \<Longrightarrow> agrees b \<sigma> \<Longrightarrow> map (subst \<sigma>) ps \<noteq> ts"
    and "match_terms b ps ts = Some b' \<Longrightarrow> bindings_ok b' \<and> dom (bmap b') = dom (bmap b) \<union> term_vars ps \<and>
      (\<forall>\<sigma>. agrees b' \<sigma> \<longleftrightarrow> agrees b \<sigma> \<and> map (subst \<sigma>) ps = ts)"
proof -
  have "(match_terms b ps ts = None \<longrightarrow> (\<forall>\<sigma>. agrees b \<sigma> \<longrightarrow> map (subst \<sigma>) ps \<noteq> ts)) \<and>
    (\<forall>b'. match_terms b ps ts = Some b' \<longrightarrow> bindings_ok b' \<and> dom (bmap b') = dom (bmap b) \<union> term_vars ps \<and>
      (\<forall>\<sigma>. agrees b' \<sigma> \<longleftrightarrow> agrees b \<sigma> \<and> map (subst \<sigma>) ps = ts))"
    using assms(4,1,2,3)
  proof (induction ps ts arbitrary: b rule: list_induct2)
    case (Cons p ps t ts)
    have g: "ground t" and pv: "\<forall>v. p = TERM_VAR v \<longrightarrow> v < MAX_RULE_VARIABLES" using Cons.prems by auto
    show ?case
    proof (cases "bind_or_match b p t")
      case None
      then show ?thesis using bind_or_match_spec(1)[OF Cons.prems(1) g pv None] by auto
    next
      case (Some b1)
      note s = bind_or_match_spec(2)[OF Cons.prems(1) g pv Some]
      from s Cons.IH[of b1] Cons.prems Some show ?thesis
        by (auto simp: term_vars_Cons[of p ps])
    qed
  qed simp
  then show "match_terms b ps ts = None \<Longrightarrow> agrees b \<sigma> \<Longrightarrow> map (subst \<sigma>) ps \<noteq> ts"
    "match_terms b ps ts = Some b' \<Longrightarrow> bindings_ok b' \<and> dom (bmap b') = dom (bmap b) \<union> term_vars ps \<and>
      (\<forall>\<sigma>. agrees b' \<sigma> \<longleftrightarrow> agrees b \<sigma> \<and> map (subst \<sigma>) ps = ts)" by auto
qed

lemma instantiate_term_agrees:
  assumes "bindings_ok b" "agrees b \<sigma>" "instantiate_term b t = Some u"
  shows "u = subst \<sigma> t" "term_vars [t] \<subseteq> dom (bmap b)"
proof -
  have "u = subst \<sigma> t \<and> term_vars [t] \<subseteq> dom (bmap b)"
  proof (cases t)
    case (TERM_VAR v)
    then have "v < MAX_RULE_VARIABLES" "bmap b v = Some u"
      using assms(3) bindings_is_bound_iff[of v b] bmap_value[of b v]
      by (auto simp: instantiate_term_def split: if_splits)
    then show ?thesis using TERM_VAR assms(2) by (auto simp: agrees_def)
  qed (use assms(3) in \<open>auto simp: instantiate_term_def\<close>)
  then show "u = subst \<sigma> t" "term_vars [t] \<subseteq> dom (bmap b)" by auto
qed

lemma instantiate_term_total:
  assumes "term_vars [t] \<subseteq> dom (bmap b)" shows "instantiate_term b t \<noteq> None"
proof (cases t)
  case (TERM_VAR v)
  then have "bmap b v \<noteq> None" using assms by auto
  then show ?thesis using TERM_VAR bindings_is_bound_iff[of v b] bmap_value[of b v]
    by (auto simp: instantiate_term_def)
qed (auto simp: instantiate_term_def)

lemma subst_known: "ground_valuation \<sigma> \<Longrightarrow> term_kind_known t \<Longrightarrow> ground (subst \<sigma> t)"
  by (cases t) (auto simp: ground_valuation_def ground_def)

lemma instantiate_terms_spec:
  assumes "bindings_ok b" "agrees b \<sigma>" "ground_valuation \<sigma>" "\<forall>t\<in>set ts. term_kind_known t"
  shows "instantiate_terms b ts = (if term_vars ts \<subseteq> dom (bmap b) then Some (map (subst \<sigma>) ts) else None)"
  using assms(4)
proof (induction ts)
  case (Cons t ts)
  have known: "term_kind_known (subst \<sigma> t)" using subst_known[OF assms(3), of t] Cons.prems by (simp add: ground_def)
  show ?case
  proof (cases "instantiate_term b t")
    case None
    then have "\<not> term_vars [t] \<subseteq> dom (bmap b)" using instantiate_term_total by blast
    then show ?thesis using None by (auto simp: term_vars_Cons[of t ts])
  next
    case (Some u)
    note u = instantiate_term_agrees[OF assms(1,2) Some]
    then show ?thesis using Some Cons known by (auto simp: term_vars_Cons[of t ts])
  qed
qed simp

lemma instantiate_atom_spec:
  assumes "bindings_ok b" "agrees b \<sigma>" "ground_valuation \<sigma>" "\<forall>t\<in>set (terms a). term_kind_known t"
  shows "instantiate_atom b a = (if term_vars (terms a) \<subseteq> dom (bmap b) then Some (inst \<sigma> a) else None)"
  using instantiate_terms_spec[OF assms] by (simp add: instantiate_atom_def inst_def)

text \<open>The bindings of a whole valuation, and a valuation that extends given bindings.\<close>

definition bindings_of :: "(nat \<Rightarrow> term) \<Rightarrow> bindings" where
  "bindings_of \<sigma> = \<lparr>bound_mask = -1, bound_value = map \<sigma> [0..<MAX_RULE_VARIABLES]\<rparr>"

definition valuation_of :: "bindings \<Rightarrow> nat \<Rightarrow> term" where
  "valuation_of b v = (case bmap b v of Some t \<Rightarrow> t | None \<Rightarrow> TERM_INT 0)"

lemma bmap_bindings_of: "bmap (bindings_of \<sigma>) v = (if v < MAX_RULE_VARIABLES then Some (\<sigma> v) else None)"
  by (simp add: bmap_def bindings_of_def limit_defs)

lemma bindings_of_ok: "ground_valuation \<sigma> \<Longrightarrow> bindings_ok (bindings_of \<sigma>)" "agrees (bindings_of \<sigma>) \<sigma>"
  by (simp_all add: bindings_ok_def agrees_def bmap_bindings_of ground_valuation_def)
    (simp_all add: bindings_of_def)

lemma valuation_of_ok: "bindings_ok b \<Longrightarrow> ground_valuation (valuation_of b)" "agrees b (valuation_of b)"
  by (auto simp: ground_valuation_def valuation_of_def bindings_ok_def agrees_def ground_def split: option.splits)

lemma agrees_sub:
  assumes "agrees b \<sigma>" "bmap b v = Some t"
  shows "bmap (bindings_of \<sigma>) v = Some t"
  using assms bmap_value[of b v t] by (simp add: agrees_def bmap_bindings_of)

section \<open>Evaluators under bindings and under a valuation\<close>

lemma instantiate_comparison_term_mono:
  assumes "agrees b \<sigma>" "instantiate_comparison_term b t = Inr u"
  shows "instantiate_comparison_term (bindings_of \<sigma>) t = Inr u"
proof (cases t)
  case (TERM_VAR v)
  then have v: "v < MAX_RULE_VARIABLES" "bindings_is_bound b v" "bound_value b ! v = u" "term_kind_known u" "\<not> is_var u"
    using assms(2) by (auto simp: instantiate_comparison_term_def Let_def split: if_splits)
  then have "bmap b v = Some u" using bindings_is_bound_iff[OF v(1)] bmap_value by fastforce
  from agrees_sub[OF assms(1) this] have b': "bmap (bindings_of \<sigma>) v = Some u" .
  then have "bindings_is_bound (bindings_of \<sigma>) v" "bound_value (bindings_of \<sigma>) ! v = u"
    using bindings_is_bound_iff[OF v(1), of "bindings_of \<sigma>"] bmap_value by auto
  then show ?thesis using TERM_VAR v by (simp add: instantiate_comparison_term_def)
qed (use assms(2) in \<open>auto simp: instantiate_comparison_term_def split: if_splits\<close>)

lemma bound_mono:
  assumes "agrees b \<sigma>" "v < MAX_RULE_VARIABLES" "bindings_is_bound b v"
  shows "bindings_is_bound (bindings_of \<sigma>) v \<and> bound_value (bindings_of \<sigma>) ! v = bound_value b ! v"
proof -
  obtain t where t: "bmap b v = Some t" using assms(2,3) bindings_is_bound_iff by blast
  from agrees_sub[OF assms(1) t] have "bmap (bindings_of \<sigma>) v = Some t" .
  then show ?thesis
    using bindings_is_bound_iff[OF assms(2), of "bindings_of \<sigma>"] bmap_value t by force
qed

lemma eval_arith_mono:
  "agrees b \<sigma> \<Longrightarrow> eval_arith_expr fuel rule root b = Inr i \<Longrightarrow> eval_arith_expr fuel rule root (bindings_of \<sigma>) = Inr i"
proof (induction fuel arbitrary: root i)
  case (Suc fuel)
  have guard: "\<not> (root = ARITH_EXPR_NO_NODE \<or> root \<ge> length (expr_nodes rule))"
    using Suc.prems(2) by (auto split: if_splits)
  let ?n = "expr_nodes rule ! root"
  have bin: "(case eval_arith_expr fuel rule (node_left ?n) (bindings_of \<sigma>) of Inl e \<Rightarrow> Inl e
      | Inr l \<Rightarrow> (case eval_arith_expr fuel rule (node_right ?n) (bindings_of \<sigma>) of Inl e \<Rightarrow> Inl e
        | Inr r \<Rightarrow> if long_long_overflow (f l r) then Inl (COMPARE_ARITH_OVERFLOW, 2) else Inr (f l r))) = Inr i"
    if "(case eval_arith_expr fuel rule (node_left ?n) b of Inl e \<Rightarrow> Inl e
      | Inr l \<Rightarrow> (case eval_arith_expr fuel rule (node_right ?n) b of Inl e \<Rightarrow> Inl e
        | Inr r \<Rightarrow> if long_long_overflow (f l r) then Inl (COMPARE_ARITH_OVERFLOW, 2) else Inr (f l r))) = Inr i" for f
    using that Suc.IH[OF Suc.prems(1)] by (auto split: sum.splits if_splits)
  show ?case
  proof (cases "node_kind ?n")
    case ARITH_VAR
    then have v: "term_variable (node_term ?n) < MAX_RULE_VARIABLES" "bindings_is_bound b (term_variable (node_term ?n))"
      using Suc.prems(2) guard by (auto simp: Let_def split: if_splits)
    from bound_mono[OF Suc.prems(1) v] v show ?thesis using ARITH_VAR Suc.prems(2) guard by simp
  qed (use Suc.prems(2) guard bin in \<open>auto simp: Let_def\<close>)
qed simp

lemma comparison_operands_mono:
  assumes "agrees b \<sigma>" "comparison_operands rule lit b = Inr x"
  shows "comparison_operands rule lit (bindings_of \<sigma>) = Inr x"
  using assms(2) eval_arith_mono[OF assms(1), of "expr_fuel rule" rule]
    instantiate_comparison_term_mono[OF assms(1)]
  by (auto simp: comparison_operands_def split: sum.splits if_splits)

definition comparison_holds :: "rule \<Rightarrow> literal \<Rightarrow> (nat \<Rightarrow> term) \<Rightarrow> bool" where
  "comparison_holds rule lit \<sigma> \<longleftrightarrow>
     (\<exists>l r. comparison_operands rule lit (bindings_of \<sigma>) = Inr (l, r) \<and> evaluate_comparison l (cmp_operator lit) r = COMPARE_TRUE)"

lemma comparison_literal_spec:
  assumes "evaluate_comparison_literal rule lit b st = (out, st')"
  shows "derived_part st' = derived_part st"
    "agrees b \<sigma> \<Longrightarrow> out = EVAL_YES x \<Longrightarrow> comparison_holds rule lit \<sigma>"
    "agrees b \<sigma> \<Longrightarrow> out = EVAL_NO \<Longrightarrow> \<not> comparison_holds rule lit \<sigma>"
proof -
  show "derived_part st' = derived_part st"
    using assms by (auto simp: evaluate_comparison_literal_def frame_simps split: sum.splits compare_result.splits)
  show "comparison_holds rule lit \<sigma>" if "agrees b \<sigma>" "out = EVAL_YES x"
    using assms that(2) comparison_operands_mono[OF that(1), of rule lit]
    by (auto simp: evaluate_comparison_literal_def comparison_holds_def split: sum.splits compare_result.splits)
  show "\<not> comparison_holds rule lit \<sigma>" if "agrees b \<sigma>" "out = EVAL_NO"
    using assms that(2) comparison_operands_mono[OF that(1), of rule lit]
    by (auto simp: evaluate_comparison_literal_def comparison_holds_def split: sum.splits compare_result.splits)
qed

definition filter_holds :: "ruleset \<Rightarrow> symbol_table \<Rightarrow> literal \<Rightarrow> (nat \<Rightarrow> term) \<Rightarrow> bool" where
  "filter_holds rs syms lit \<sigma> \<longleftrightarrow>
     (\<exists>p pattern sid bytes. filter_program_resolve rs lit = Some (p, pattern) \<and>
        instantiate_comparison_term (bindings_of \<sigma>) (filter_value lit) = Inr (TERM_SYMBOL sid) \<and>
        filter_symbol_bytes_resolve syms sid = Some bytes \<and>
        filter_evaluate_in (ctx_filters (rs_modules rs)) (program_kind p) bytes pattern = Inr True)"

lemma derived_part_filter_stats [frame_simps]: "derived_part (st\<lparr>filter_stats := fs\<rparr>) = derived_part st"
  by (simp add: derived_part_def fixed_view_def)

lemma filter_literal_cases:
  assumes "evaluate_filter_literal rs lit b st = (out, st')" "out \<noteq> EVAL_FATAL"
  obtains p pattern sid bytes matched where
    "filter_program_resolve rs lit = Some (p, pattern)"
    "instantiate_comparison_term b (filter_value lit) = Inr (TERM_SYMBOL sid)"
    "filter_symbol_bytes_resolve (sr_symbols st) sid = Some bytes"
    "filter_evaluate_in (ctx_filters (rs_modules rs)) (program_kind p) bytes pattern = Inr matched"
    "out = (if matched then EVAL_YES (TERM_SYMBOL sid) else EVAL_NO)" "derived_part st' = derived_part st"
  using assms
  by (auto simp: evaluate_filter_literal_def Let_def frame_simps split: option.splits sum.splits "term.splits" if_splits)

lemma filter_literal_spec:
  assumes "evaluate_filter_literal rs lit b st = (out, st')"
  shows "derived_part st' = derived_part st"
    "agrees b \<sigma> \<Longrightarrow> out = EVAL_YES x \<Longrightarrow> filter_holds rs (sr_symbols st) lit \<sigma>"
    "agrees b \<sigma> \<Longrightarrow> out = EVAL_NO \<Longrightarrow> \<not> filter_holds rs (sr_symbols st) lit \<sigma>"
proof -
  show "derived_part st' = derived_part st"
    using assms by (auto simp: evaluate_filter_literal_def Let_def frame_simps
        split: option.splits sum.splits "term.splits" if_splits)
  show "filter_holds rs (sr_symbols st) lit \<sigma>" if a: "agrees b \<sigma>" and o: "out = EVAL_YES x"
  proof -
    have "out \<noteq> EVAL_FATAL" using o by simp
    with assms obtain p pattern sid bytes matched where *: "filter_program_resolve rs lit = Some (p, pattern)"
      "instantiate_comparison_term b (filter_value lit) = Inr (TERM_SYMBOL sid)"
      "filter_symbol_bytes_resolve (sr_symbols st) sid = Some bytes"
      "filter_evaluate_in (ctx_filters (rs_modules rs)) (program_kind p) bytes pattern = Inr matched"
      "out = (if matched then EVAL_YES (TERM_SYMBOL sid) else EVAL_NO)" by (rule filter_literal_cases)
    then show ?thesis using instantiate_comparison_term_mono[OF a *(2)] o
      by (auto simp: filter_holds_def split: if_splits)
  qed
  show "\<not> filter_holds rs (sr_symbols st) lit \<sigma>" if a: "agrees b \<sigma>" and o: "out = EVAL_NO"
  proof -
    have "out \<noteq> EVAL_FATAL" using o by simp
    with assms obtain p pattern sid bytes matched where *: "filter_program_resolve rs lit = Some (p, pattern)"
      "instantiate_comparison_term b (filter_value lit) = Inr (TERM_SYMBOL sid)"
      "filter_symbol_bytes_resolve (sr_symbols st) sid = Some bytes"
      "filter_evaluate_in (ctx_filters (rs_modules rs)) (program_kind p) bytes pattern = Inr matched"
      "out = (if matched then EVAL_YES (TERM_SYMBOL sid) else EVAL_NO)" by (rule filter_literal_cases)
    then show ?thesis using instantiate_comparison_term_mono[OF a *(2)] o
      by (auto simp: filter_holds_def split: if_splits)
  qed
qed

text \<open>Negation: with every variable of the atom bound, the bindings do not matter beyond the instance.\<close>

definition negation_holds :: "ruleset \<Rightarrow> literal \<Rightarrow> solve_state \<Rightarrow> (nat \<Rightarrow> term) \<Rightarrow> bool" where
  "negation_holds rs lit st \<sigma> \<longleftrightarrow> solve_negated_literal rs lit (bindings_of \<sigma>) st \<noteq> None"

lemma negated_literal_spec:
  assumes "bindings_ok b" "agrees b \<sigma>" "ground_valuation \<sigma>" "lit = LIT_NEGATED_ATOM a" "terms_wf (terms a)"
  shows "solve_negated_literal rs lit b st = Some x \<Longrightarrow> negation_holds rs lit st \<sigma>"
    "term_vars (terms a) \<subseteq> dom (bmap b) \<Longrightarrow> negation_holds rs lit st \<sigma> \<Longrightarrow> solve_negated_literal rs lit b st \<noteq> None"
proof -
  have known: "\<forall>t\<in>set (terms a). term_kind_known t" using assms(5) by (simp add: terms_wf_def)
  have all: "term_vars (terms a) \<subseteq> dom (bmap (bindings_of \<sigma>))"
    using assms(5) by (auto simp: terms_wf_def bmap_bindings_of)
  have tot: "instantiate_atom (bindings_of \<sigma>) a = Some (inst \<sigma> a)"
    using instantiate_atom_spec[OF bindings_of_ok(1) bindings_of_ok(2) assms(3) known] assms(3) all by simp
  note part = instantiate_atom_spec[OF assms(1,2,3) known]
  have same: "solve_negated_literal rs lit b st = solve_negated_literal rs lit (bindings_of \<sigma>) st"
    if "term_vars (terms a) \<subseteq> dom (bmap b)"
    using that part tot assms(4) by (simp add: solve_negated_literal_def)
  show "negation_holds rs lit st \<sigma>" if s: "solve_negated_literal rs lit b st = Some x"
  proof -
    have "term_vars (terms a) \<subseteq> dom (bmap b)"
      using s part assms(4) by (auto simp: solve_negated_literal_def split: if_splits)
    then show ?thesis using s same by (simp add: negation_holds_def)
  qed
  show "solve_negated_literal rs lit b st \<noteq> None"
    if "term_vars (terms a) \<subseteq> dom (bmap b)" "negation_holds rs lit st \<sigma>"
    using that same by (simp add: negation_holds_def)
qed

text \<open>Aggregates: a result under bindings is the result under every valuation that agrees with them.\<close>

lemma bind_group_keys_mono:
  assumes "bindings_ok b" "agrees b \<sigma>" "ground_valuation \<sigma>"
  shows "bind_group_keys b proj ts = Some us \<Longrightarrow> bind_group_keys (bindings_of \<sigma>) proj ts = Some us"
proof (induction ts arbitrary: us)
  case (Cons t ts)
  have "instantiate_term (bindings_of \<sigma>) t = Some u" if "instantiate_term b t = Some u" for u
  proof -
    note u = instantiate_term_agrees[OF assms(1,2) that]
    have "term_vars [t] \<subseteq> dom (bmap (bindings_of \<sigma>))" using u(2) agrees_sub[OF assms(2)] by blast
    then obtain w where w: "instantiate_term (bindings_of \<sigma>) t = Some w" using instantiate_term_total by blast
    then show ?thesis using u(1) instantiate_term_agrees(1)[OF bindings_of_ok(1)[OF assms(3)] bindings_of_ok(2) w] by simp
  qed
  then show ?case using Cons by (auto split: if_splits option.splits)
qed simp

lemma aggregate_source_mono:
  assumes "bindings_ok b" "agrees b \<sigma>" "ground_valuation \<sigma>" "aggregate_source lit b st = Inr x"
  shows "aggregate_source lit (bindings_of \<sigma>) st = Inr x"
proof -
  let ?proj = "term_variable (agg_lhs lit)" and ?ts = "map fact_set_term (terms (agg_atom lit))"
  obtain us where us: "bind_group_keys b ?proj ?ts = Some us"
    using assms(4) by (cases "bind_group_keys b ?proj ?ts") (auto simp: aggregate_source_def Let_def split: option.splits if_splits)
  have "aggregate_source lit (bindings_of \<sigma>) st = aggregate_source lit b st"
    unfolding aggregate_source_def Let_def bind_group_keys_mono[OF assms(1-3) us] us ..
  then show ?thesis using assms(4) by simp
qed

lemma evaluate_aggregate_mono:
  assumes "bindings_ok b" "agrees b \<sigma>" "ground_valuation \<sigma>" "evaluate_aggregate lit b st = Inr x"
  shows "evaluate_aggregate lit (bindings_of \<sigma>) st = Inr x"
proof -
  obtain y where y: "aggregate_source lit b st = Inr y"
    using assms(4) by (cases "aggregate_source lit b st")
      (auto simp: evaluate_aggregate_def evaluate_count_def evaluate_numeric_aggregate_def split: literal.splits agg_kind.splits)
  from aggregate_source_mono[OF assms(1-3) y] y assms(4) show ?thesis
    by (simp add: evaluate_aggregate_def evaluate_count_def evaluate_numeric_aggregate_def split: literal.splits agg_kind.splits)
qed

definition aggregate_holds :: "literal \<Rightarrow> solve_state \<Rightarrow> (nat \<Rightarrow> term) \<Rightarrow> bool" where
  "aggregate_holds lit st \<sigma> \<longleftrightarrow>
     (\<exists>pattern org val. evaluate_aggregate lit (bindings_of \<sigma>) st = Inr (pattern, org, Some val) \<and> subst \<sigma> (agg_rhs lit) = val)"

lemma evaluate_aggregate_shape:
  assumes "evaluate_aggregate lit b st = Inr (pattern, org, Some val)"
  shows "ground val" "is_var (agg_rhs lit)" "term_variable (agg_rhs lit) < MAX_RULE_VARIABLES"
proof -
  obtain y where y: "aggregate_source lit b st = Inr y"
    using assms by (cases "aggregate_source lit b st")
      (auto simp: evaluate_aggregate_def evaluate_count_def evaluate_numeric_aggregate_def split: literal.splits agg_kind.splits)
  then show "is_var (agg_rhs lit)" "term_variable (agg_rhs lit) < MAX_RULE_VARIABLES"
    by (auto simp: aggregate_source_def Let_def split: option.splits if_splits)
  show "ground val"
    using assms by (auto simp: evaluate_aggregate_def evaluate_count_def evaluate_numeric_aggregate_def ground_def
        split: literal.splits agg_kind.splits sum.splits prod.splits option.splits)
qed

lemma aggregate_literal_spec:
  assumes "solve_aggregate_literal lit i b st = (out, st')" "bindings_ok b"
  shows "derived_part st' = derived_part st"
    "out = EVAL_YES b' \<Longrightarrow> bindings_ok b' \<and> dom (bmap b') = dom (bmap b) \<union> term_vars [agg_rhs lit] \<and>
       (\<forall>\<sigma>. ground_valuation \<sigma> \<longrightarrow> agrees b' \<sigma> \<longleftrightarrow> agrees b \<sigma> \<and> aggregate_holds lit st \<sigma>)"
    "ground_valuation \<sigma> \<Longrightarrow> agrees b \<sigma> \<Longrightarrow> out = EVAL_NO \<Longrightarrow> \<not> aggregate_holds lit st \<sigma>"
proof -
  have fe: "derived_part (s\<lparr>failure_error := rc\<rparr>) = derived_part s" "derived_part (s\<lparr>runtime_diag := d\<rparr>) = derived_part s"
    for s rc d by (simp_all add: derived_part_def fixed_view_def)
  show "derived_part st' = derived_part st"
    using assms(1) by (auto simp: solve_aggregate_literal_def Let_def fe frame_simps split: sum.splits option.splits if_splits)
  have var: "\<exists>v. agg_rhs lit = TERM_VAR v \<and> v < MAX_RULE_VARIABLES"
    if "evaluate_aggregate lit b st = Inr (pattern, org, Some val)" for pattern org val
    using evaluate_aggregate_shape(2,3)[OF that] by (cases "agg_rhs lit") auto
  show "bindings_ok b' \<and> dom (bmap b') = dom (bmap b) \<union> term_vars [agg_rhs lit] \<and>
       (\<forall>\<sigma>. ground_valuation \<sigma> \<longrightarrow> agrees b' \<sigma> \<longleftrightarrow> agrees b \<sigma> \<and> aggregate_holds lit st \<sigma>)" if "out = EVAL_YES b'"
  proof -
    from that assms(1) obtain pattern org val where
      ev: "evaluate_aggregate lit b st = Inr (pattern, org, Some val)" and bm: "bind_or_match b (agg_rhs lit) val = Some b'"
      by (auto simp: solve_aggregate_literal_def Let_def split: sum.splits option.splits prod.splits)
    have "\<forall>v. agg_rhs lit = TERM_VAR v \<longrightarrow> v < MAX_RULE_VARIABLES" using var[OF ev] by auto
    note s = bind_or_match_spec(2)[OF assms(2) evaluate_aggregate_shape(1)[OF ev] this bm]
    have "agrees b' \<sigma> \<longleftrightarrow> agrees b \<sigma> \<and> aggregate_holds lit st \<sigma>" if g: "ground_valuation \<sigma>" for \<sigma>
      using s evaluate_aggregate_mono[OF assms(2) _ g ev] by (auto simp: aggregate_holds_def)
    then show ?thesis using s by blast
  qed
  show "\<not> aggregate_holds lit st \<sigma>" if g: "ground_valuation \<sigma>" and a: "agrees b \<sigma>" and o: "out = EVAL_NO"
  proof -
    from o assms(1) obtain pattern org w where
      ev: "evaluate_aggregate lit b st = Inr (pattern, org, w)" and
      w: "case w of None \<Rightarrow> True | Some val \<Rightarrow> bind_or_match b (agg_rhs lit) val = None"
      by (auto simp: solve_aggregate_literal_def Let_def split: sum.splits option.splits prod.splits)
    note tot = evaluate_aggregate_mono[OF assms(2) a g ev]
    show ?thesis
    proof (cases w)
      case None
      then show ?thesis using tot by (simp add: aggregate_holds_def)
    next
      case (Some val)
      have "\<forall>v. agg_rhs lit = TERM_VAR v \<longrightarrow> v < MAX_RULE_VARIABLES" using var ev Some by auto
      then show ?thesis
        using bind_or_match_spec(1)[OF assms(2) evaluate_aggregate_shape(1)[OF ev[unfolded Some]]] a w tot Some
        by (auto simp: aggregate_holds_def)
    qed
  qed
qed

end
