(* ===== verification/Join_Plan.thy ===== *)
theory Join_Plan
  imports Solver_Eval
begin

unbundle bit_operations_syntax

text \<open>
  The static join plan of \<^verbatim>\<open>src/core/maelys_datalog_solver.c\<close>: which literals are safe once some variables
  are bound, the default score, the call of an external planner, and \<^verbatim>\<open>build_static_join_order\<close>. The
  array of body indices the plan writes is a list; the loop runs once for each literal not yet planned.
\<close>

definition literal_delta_eligible :: "ruleset \<Rightarrow> literal \<Rightarrow> bool" where
  "literal_delta_eligible rs lit \<longleftrightarrow>
     (case lit of
        LIT_ATOM a \<Rightarrow>
          (case predicate_registry_get (rs_registry rs) (predicate_id a) of
             None \<Rightarrow> False | Some d \<Rightarrow> (kind_flags d AND PRED_KIND_IDB) \<noteq> 0)
      | _ \<Rightarrow> False)"

fun literal_var_mask :: "literal \<Rightarrow> 64 word" where
  "literal_var_mask (LIT_AGGREGATE _ _ _ rhs) = push_bit (term_variable rhs) 1"
| "literal_var_mask (LIT_FILTER _ _ v) = (if is_var v \<and> term_variable v < 64 then push_bit (term_variable v) 1 else 0)"
| "literal_var_mask (LIT_ATOM a) =
     fold (\<lambda>t m. if is_var t \<and> term_variable t < 64 then m OR push_bit (term_variable t) 1 else m) (terms a) 0"
| "literal_var_mask _ = 0"

definition comparison_term_safe_with_bound_vars :: "term \<Rightarrow> 64 word \<Rightarrow> bool" where
  "comparison_term_safe_with_bound_vars t bvm \<longleftrightarrow>
     \<not> is_var t \<or> (term_variable t < 64 \<and> (bvm AND push_bit (term_variable t) 1) \<noteq> 0)"

fun arith_expr_safe_with_bound_vars :: "nat \<Rightarrow> rule \<Rightarrow> nat \<Rightarrow> 64 word \<Rightarrow> bool" where
  "arith_expr_safe_with_bound_vars 0 rule root bvm = False"
| "arith_expr_safe_with_bound_vars (Suc fuel) rule root bvm =
     (if root = ARITH_EXPR_NO_NODE \<or> root \<ge> length (expr_nodes rule) then False
      else
        let node = expr_nodes rule ! root;
            both = arith_expr_safe_with_bound_vars fuel rule (node_left node) bvm \<and>
                   arith_expr_safe_with_bound_vars fuel rule (node_right node) bvm
        in case node_kind node of
          ARITH_INT_LITERAL \<Rightarrow> True
        | ARITH_VAR \<Rightarrow> term_variable (node_term node) < 64 \<and> (bvm AND push_bit (term_variable (node_term node)) 1) \<noteq> 0
        | ARITH_OTHER _ \<Rightarrow> False
        | _ \<Rightarrow> both)"

definition literal_safe_with_bound_vars :: "rule \<Rightarrow> nat \<Rightarrow> 64 word \<Rightarrow> bool" where
  "literal_safe_with_bound_vars rule i bvm \<longleftrightarrow>
     i < length (body rule) \<and>
     (case body rule ! i of
        LIT_ATOM _ \<Rightarrow> True
      | LIT_AGGREGATE _ a lhs _ \<Rightarrow>
          list_all (\<lambda>t. \<not> is_var t \<or> term_variable t = term_variable lhs \<or> term_variable t \<ge> NAMED_VARIABLE_COUNT \<or>
            comparison_term_safe_with_bound_vars t bvm) (terms a)
      | LIT_FILTER _ _ v \<Rightarrow> comparison_term_safe_with_bound_vars v bvm
      | LIT_NEGATED_ATOM a \<Rightarrow>
          list_all (\<lambda>t. \<not> is_var t \<or> comparison_term_safe_with_bound_vars t bvm) (terms a)
      | LIT_COMPARISON l _ r has lroot rroot \<Rightarrow>
          if has then arith_expr_safe_with_bound_vars (expr_fuel rule) rule lroot bvm \<and>
                      arith_expr_safe_with_bound_vars (expr_fuel rule) rule rroot bvm
          else comparison_term_safe_with_bound_vars l bvm \<and> comparison_term_safe_with_bound_vars r bvm
      | LIT_OTHER _ \<Rightarrow> False)"

fun literal_atom :: "literal \<Rightarrow> fact option" where
  "literal_atom (LIT_ATOM a) = Some a"
| "literal_atom (LIT_NEGATED_ATOM a) = Some a"
| "literal_atom (LIT_AGGREGATE _ a _ _) = Some a"
| "literal_atom _ = None"

text \<open>
  The score of a literal. A literal of unknown kind would be scored by its atom; it is never safe, so it is
  never scored.
\<close>

definition literal_static_score :: "ruleset \<Rightarrow> rule \<Rightarrow> nat \<Rightarrow> 64 word \<Rightarrow> int" where
  "literal_static_score rs rule i bvm =
     (if i \<ge> length (body rule) then 0
      else case body rule ! i of
        LIT_ATOM a \<Rightarrow>
          fold (\<lambda>t s. if is_var t
                 then (if term_variable t < 64 \<and> (bvm AND push_bit (term_variable t) 1) \<noteq> 0 then s + 20 else s)
                 else s + 10) (terms a) 100 -
          (case predicate_registry_get (rs_registry rs) (predicate_id a) of
             Some d \<Rightarrow> if (kind_flags d AND PRED_KIND_IDB) \<noteq> 0 then 50 else 0
           | None \<Rightarrow> 0)
      | _ \<Rightarrow> 0)"

fun literal_kind_code :: "literal \<Rightarrow> nat" where
  "literal_kind_code (LIT_ATOM _) = 1"
| "literal_kind_code (LIT_COMPARISON _ _ _ _ _ _) = 2"
| "literal_kind_code (LIT_NEGATED_ATOM _) = 3"
| "literal_kind_code (LIT_FILTER _ _ _) = 4"
| "literal_kind_code (LIT_AGGREGATE AGG_COUNT _ _ _) = 5"
| "literal_kind_code (LIT_AGGREGATE AGG_MIN _ _ _) = 6"
| "literal_kind_code (LIT_AGGREGATE AGG_MAX _ _ _) = 7"
| "literal_kind_code (LIT_AGGREGATE AGG_SUM _ _ _) = 8"
| "literal_kind_code (LIT_OTHER n) = (if n = 0 then 0 else n + 8)"

text \<open>The candidates offered to a planner; \<open>None\<close> when an atom names no declared predicate.\<close>

definition join_candidate_of :: "ruleset \<Rightarrow> rule \<Rightarrow> 64 word \<Rightarrow> nat \<Rightarrow> join_candidate option" where
  "join_candidate_of rs rule bvm i =
     (let lit = body rule ! i;
          c = \<lparr>jc_body_index = i, jc_kind = literal_kind_code lit, jc_predicate_name = None, jc_predicate_flags = 0,
               jc_arity = 0, jc_variable_mask = literal_var_mask lit, jc_bound_variable_mask = bvm,
               jc_constant_terms = 0, jc_bound_terms = 0, jc_default_score = literal_static_score rs rule i bvm\<rparr>;
          atom = (\<lambda>a. case predicate_registry_get (rs_registry rs) (predicate_id a) of
            None \<Rightarrow> None
          | Some d \<Rightarrow>
              let vars = filter (\<lambda>t. is_var t \<and> term_variable t < 64) (terms a)
              in Some (c\<lparr>jc_predicate_name := Some (pred_name d), jc_predicate_flags := kind_flags d, jc_arity := arity a,
                   jc_constant_terms := length (filter (\<lambda>t. \<not> is_var t) (terms a)),
                   jc_variable_mask := fold (\<lambda>t m. m OR push_bit (term_variable t) 1) vars (literal_var_mask lit),
                   jc_bound_terms := length (filter (\<lambda>t. (bvm AND push_bit (term_variable t) 1) \<noteq> 0) vars)\<rparr>))
      in case lit of LIT_ATOM a \<Rightarrow> atom a | LIT_NEGATED_ATOM a \<Rightarrow> atom a | _ \<Rightarrow> Some c)"

definition unplanned :: "64 word \<Rightarrow> nat \<Rightarrow> bool" where
  "unplanned planned i \<longleftrightarrow> (planned AND push_bit i 1) = 0"

definition ready :: "rule \<Rightarrow> 64 word \<Rightarrow> 64 word \<Rightarrow> nat list" where
  "ready rule planned bvm =
     filter (\<lambda>i. unplanned planned i \<and> literal_safe_with_bound_vars rule i bvm) [0..<length (body rule)]"

definition module_choose_literal ::
  "(join_candidate list \<Rightarrow> int \<times> nat) \<Rightarrow> ruleset \<Rightarrow> rule \<Rightarrow> 64 word \<Rightarrow> 64 word \<Rightarrow> maelys_result + nat" where
  "module_choose_literal planner rs rule planned bvm =
     (let indices = ready rule planned bvm; cands = map (join_candidate_of rs rule bvm) indices
      in if None \<in> set cands then Inl MAELYS_ERR_INVALID_STATE
         else if indices = [] then Inl MAELYS_ERR_INVALID_FIELD
         else case planner (map the cands) of (status, chosen) \<Rightarrow>
           if status \<noteq> 0 then
             Inl (if status < 0 \<and> status \<ge> -14 then result_of_code status else MAELYS_ERR_INTERNAL)
           else if chosen \<ge> length indices then Inl MAELYS_ERR_INVALID_STATE
           else Inr (indices ! chosen))"

text \<open>The default choice: the highest score, the first on ties.\<close>

fun best_scored :: "(nat \<Rightarrow> int) \<Rightarrow> nat list \<Rightarrow> (nat \<times> int) option \<Rightarrow> nat option" where
  "best_scored score [] best = map_option fst best"
| "best_scored score (i # is) best =
     best_scored score is
       (case best of
          None \<Rightarrow> Some (i, score i)
        | Some (j, s) \<Rightarrow> if score i > s \<or> (score i = s \<and> i < j) then Some (i, score i) else best)"

definition plan_choose :: "ruleset \<Rightarrow> rule \<Rightarrow> 64 word \<Rightarrow> 64 word \<Rightarrow> maelys_result + nat" where
  "plan_choose rs rule planned bvm =
     (case ctx_planner (rs_modules rs) of
        Some planner \<Rightarrow>
          let aggs = (if rs_aggregates_supported rs
                      then filter (\<lambda>i. literal_is_aggregate (body rule ! i)) (ready rule planned bvm) else [])
          in (case aggs of
                i # _ \<Rightarrow> Inr i
              | [] \<Rightarrow> module_choose_literal planner rs rule planned bvm)
      | None \<Rightarrow>
          (case best_scored (\<lambda>i. literal_static_score rs rule i bvm) (ready rule planned bvm) None of
             None \<Rightarrow> Inl MAELYS_ERR_INVALID_FIELD
           | Some i \<Rightarrow> Inr i))"

fun plan_loop :: "nat \<Rightarrow> ruleset \<Rightarrow> rule \<Rightarrow> 64 word \<Rightarrow> 64 word \<Rightarrow> nat list \<Rightarrow> maelys_result + nat list" where
  "plan_loop 0 rs rule planned bvm order = Inr order"
| "plan_loop (Suc n) rs rule planned bvm order =
     (case plan_choose rs rule planned bvm of
        Inl rc \<Rightarrow> Inl rc
      | Inr i \<Rightarrow> plan_loop n rs rule (planned OR push_bit i 1) (bvm OR literal_var_mask (body rule ! i)) (order @ [i]))"

definition build_static_join_order :: "ruleset \<Rightarrow> rule \<Rightarrow> nat option \<Rightarrow> maelys_result + nat list" where
  "build_static_join_order rs rule delta =
     (let n = length (body rule)
      in if n > MAX_BODY_LITERALS \<or> n > 64 then Inl MAELYS_ERR_INVALID_ARGUMENT
         else case delta of
           None \<Rightarrow> plan_loop n rs rule 0 0 []
         | Some i \<Rightarrow>
             if i \<ge> n then Inl MAELYS_ERR_INVALID_ARGUMENT
             else (case body rule ! i of
               LIT_ATOM a \<Rightarrow>
                 (case predicate_registry_get (rs_registry rs) (predicate_id a) of
                    None \<Rightarrow> Inl MAELYS_ERR_INVALID_ARGUMENT
                  | Some d \<Rightarrow>
                      if (kind_flags d AND PRED_KIND_IDB) = 0 then Inl MAELYS_ERR_INVALID_ARGUMENT
                      else plan_loop (n - 1) rs rule (push_bit i 1) (literal_var_mask (LIT_ATOM a)) [i])
             | _ \<Rightarrow> Inl MAELYS_ERR_INVALID_ARGUMENT))"

section \<open>A plan is a safe permutation of the body\<close>

fun order_safe :: "rule \<Rightarrow> 64 word \<Rightarrow> nat list \<Rightarrow> bool" where
  "order_safe rule bvm [] = True"
| "order_safe rule bvm (i # is) \<longleftrightarrow>
     literal_safe_with_bound_vars rule i bvm \<and> order_safe rule (bvm OR literal_var_mask (body rule ! i)) is"

definition order_mask :: "rule \<Rightarrow> nat list \<Rightarrow> 64 word" where
  "order_mask rule order = fold (\<lambda>i m. m OR literal_var_mask (body rule ! i)) order 0"

lemma order_safe_append:
  "order_safe rule bvm (xs @ ys) \<longleftrightarrow>
     order_safe rule bvm xs \<and> order_safe rule (fold (\<lambda>i m. m OR literal_var_mask (body rule ! i)) xs bvm) ys"
  by (induction xs arbitrary: bvm) auto

lemma unplanned_iff: "i < 64 \<Longrightarrow> unplanned planned i \<longleftrightarrow> \<not> bit planned i"
  by (simp add: unplanned_def bit_iff_and_push_bit_not_eq_0)

lemma best_scored_mem: "best_scored score is best = Some i \<Longrightarrow> i \<in> set is \<or> (\<exists>s. best = Some (i, s))"
proof (induction "is" arbitrary: best)
  case (Cons j "is")
  from Cons.IH[OF Cons.prems[unfolded best_scored.simps]] show ?case
    by (auto split: option.splits if_splits)
qed auto

lemma best_scored_some: "is \<noteq> [] \<or> best \<noteq> None \<Longrightarrow> best_scored score is best \<noteq> None"
proof (induction "is" arbitrary: best)
  case (Cons j "is")
  show ?case unfolding best_scored.simps by (rule Cons.IH) (auto split: option.splits)
qed auto

lemma plan_choose_ready: "plan_choose rs rule planned bvm = Inr i \<Longrightarrow> i \<in> set (ready rule planned bvm)"
proof (cases "ctx_planner (rs_modules rs)")
  case None
  assume "plan_choose rs rule planned bvm = Inr i"
  with None have "best_scored (\<lambda>i. literal_static_score rs rule i bvm) (ready rule planned bvm) None = Some i"
    by (auto simp: plan_choose_def split: option.splits)
  from best_scored_mem[OF this] show ?thesis by simp
next
  case (Some planner)
  assume c: "plan_choose rs rule planned bvm = Inr i"
  show ?thesis
  proof (cases "if rs_aggregates_supported rs
      then filter (\<lambda>i. literal_is_aggregate (body rule ! i)) (ready rule planned bvm) else []")
    case Nil
    then have "module_choose_literal planner rs rule planned bvm = Inr i"
      using c Some by (simp add: plan_choose_def)
    then show ?thesis by (auto simp: module_choose_literal_def Let_def split: if_splits prod.splits)
  next
    case (Cons j js)
    then have "i = j" using c Some by (simp add: plan_choose_def)
    moreover have "j \<in> set (if rs_aggregates_supported rs
        then filter (\<lambda>i. literal_is_aggregate (body rule ! i)) (ready rule planned bvm) else [])" using Cons by simp
    ultimately show ?thesis by (auto split: if_splits)
  qed
qed

definition plan_state :: "rule \<Rightarrow> 64 word \<Rightarrow> 64 word \<Rightarrow> nat list \<Rightarrow> bool" where
  "plan_state rule planned bvm order \<longleftrightarrow>
     length (body rule) \<le> 64 \<and> distinct order \<and> set order \<subseteq> {..<length (body rule)} \<and>
     (\<forall>i<64. bit planned i \<longleftrightarrow> i \<in> set order) \<and> bvm = order_mask rule order \<and> order_safe rule 0 order"

lemma plan_state_step:
  assumes "plan_state rule planned bvm order" "i \<in> set (ready rule planned bvm)"
  shows "plan_state rule (planned OR push_bit i 1) (bvm OR literal_var_mask (body rule ! i)) (order @ [i])"
proof -
  from assms have i: "i < length (body rule)" "i < 64" "literal_safe_with_bound_vars rule i bvm" "\<not> bit planned i"
    by (auto simp: ready_def plan_state_def unplanned_iff)
  have "bit (planned OR push_bit i 1) j \<longleftrightarrow> bit planned j \<or> j = i" if "j < 64" for j
    using that i(2) by (auto simp: bit_or_iff bit_exp_iff)
  then show ?thesis using assms(1) i by (auto simp: plan_state_def order_mask_def order_safe_append)
qed

lemma plan_loop_spec:
  assumes "plan_state rule planned bvm order" "length order + n = length (body rule)"
    "plan_loop n rs rule planned bvm order = Inr out"
  shows "\<exists>planned' bvm' rest. out = order @ rest \<and> plan_state rule planned' bvm' out \<and> length out = length (body rule)"
  using assms
proof (induction n arbitrary: planned bvm order)
  case 0
  then show ?case by auto
next
  case (Suc n)
  obtain i where i: "plan_choose rs rule planned bvm = Inr i"
    using Suc.prems(3) by (cases "plan_choose rs rule planned bvm") auto
  note st = plan_state_step[OF Suc.prems(1) plan_choose_ready[OF i]]
  from Suc.IH[OF st] Suc.prems(2,3) i show ?case by auto
qed

lemma full_order: "distinct xs \<Longrightarrow> set xs \<subseteq> {..<n} \<Longrightarrow> length xs = n \<Longrightarrow> set xs = {..<n}"
  by (metis card_lessThan card_subset_eq distinct_card finite_lessThan)

lemma build_static_join_order_spec:
  assumes "build_static_join_order rs rule delta = Inr order"
  shows "distinct order" "set order = {..<length (body rule)}" "order_safe rule 0 order"
    "length (body rule) \<le> MAX_BODY_LITERALS"
    "delta = Some i \<Longrightarrow> \<exists>a rest. order = i # rest \<and> body rule ! i = LIT_ATOM a"
proof -
  have len: "length (body rule) \<le> MAX_BODY_LITERALS" "length (body rule) \<le> 64"
    using assms by (auto simp: build_static_join_order_def Let_def split: if_splits)
  obtain planned bvm start n where st: "plan_state rule planned bvm start" "length start + n = length (body rule)"
    "plan_loop n rs rule planned bvm start = Inr order"
    "case delta of None \<Rightarrow> start = [] | Some i \<Rightarrow> start = [i] \<and> (\<exists>a. body rule ! i = LIT_ATOM a)"
  proof (cases delta)
    case None
    have "plan_state rule 0 0 []" using len by (simp add: plan_state_def order_mask_def)
    then show ?thesis using that[of 0 0 "[]" "length (body rule)"] assms None len
      by (auto simp: build_static_join_order_def Let_def split: if_splits)
  next
    case (Some i)
    then obtain a where a: "i < length (body rule)" "body rule ! i = LIT_ATOM a"
      "plan_loop (length (body rule) - 1) rs rule (push_bit i 1) (literal_var_mask (LIT_ATOM a)) [i] = Inr order"
      using assms by (auto simp: build_static_join_order_def Let_def split: if_splits literal.splits option.splits)
    have "plan_state rule 0 0 []" using len by (simp add: plan_state_def order_mask_def)
    moreover have "i \<in> set (ready rule 0 0)" using a len by (simp add: ready_def unplanned_def literal_safe_with_bound_vars_def)
    ultimately have "plan_state rule (0 OR push_bit i 1) (0 OR literal_var_mask (body rule ! i)) ([] @ [i])"
      by (rule plan_state_step)
    then have "plan_state rule (push_bit i 1) (literal_var_mask (LIT_ATOM a)) [i]" using a(2) by simp
    then show ?thesis using that[of "push_bit i 1" "literal_var_mask (LIT_ATOM a)" "[i]" "length (body rule) - 1"] a Some by auto
  qed
  from plan_loop_spec[OF st(1-3)] obtain planned' bvm' rest where
    r: "order = start @ rest" "plan_state rule planned' bvm' order" "length order = length (body rule)" by blast
  then show "distinct order" "set order = {..<length (body rule)}" "order_safe rule 0 order"
    using full_order[of order "length (body rule)"] by (simp_all add: plan_state_def)
  show "length (body rule) \<le> MAX_BODY_LITERALS" by (rule len)
  show "delta = Some i \<Longrightarrow> \<exists>a rest. order = i # rest \<and> body rule ! i = LIT_ATOM a"
    using st(4) r(1) by auto
qed

section \<open>The greedy choice never blocks a rule that has a safe order\<close>

definition mask_le :: "64 word \<Rightarrow> 64 word \<Rightarrow> bool" where
  "mask_le a b \<longleftrightarrow> (\<forall>n. bit a n \<longrightarrow> bit b n)"

lemma mask_le_test: "mask_le a b \<Longrightarrow> v < 64 \<Longrightarrow> (a AND push_bit v 1) \<noteq> 0 \<Longrightarrow> (b AND push_bit v 1) \<noteq> 0"
  unfolding bit_iff_and_push_bit_not_eq_0 [symmetric] by (simp add: mask_le_def)

lemma comparison_term_safe_mono:
  "mask_le a b \<Longrightarrow> comparison_term_safe_with_bound_vars t a \<Longrightarrow> comparison_term_safe_with_bound_vars t b"
  using mask_le_test by (auto simp: comparison_term_safe_with_bound_vars_def)

lemma arith_expr_safe_mono:
  "mask_le a b \<Longrightarrow> arith_expr_safe_with_bound_vars fuel rule root a \<Longrightarrow> arith_expr_safe_with_bound_vars fuel rule root b"
proof (induction fuel arbitrary: root)
  case (Suc fuel)
  let ?n = "expr_nodes rule ! root"
  have guard: "\<not> (root = ARITH_EXPR_NO_NODE \<or> root \<ge> length (expr_nodes rule))"
    using Suc.prems(2) by (auto split: if_splits)
  show ?case
    using Suc.prems(2) guard Suc.IH[OF Suc.prems(1)] mask_le_test[OF Suc.prems(1)]
    by (cases "node_kind ?n") (auto simp: Let_def)
qed simp

lemma literal_safe_mono:
  "mask_le a b \<Longrightarrow> literal_safe_with_bound_vars rule i a \<Longrightarrow> literal_safe_with_bound_vars rule i b"
  using comparison_term_safe_mono[of a b] arith_expr_safe_mono[of a b]
  by (auto simp: literal_safe_with_bound_vars_def list_all_iff split: literal.splits if_splits)

lemma bit_fold_or: "bit (fold (\<lambda>i m. m OR f i) xs m0) n \<longleftrightarrow> bit (m0 :: 64 word) n \<or> (\<exists>i\<in>set xs. bit (f i) n)"
  by (induction xs arbitrary: m0) (auto simp: bit_or_iff)

lemma order_mask_le: "set xs \<subseteq> set ys \<Longrightarrow> mask_le (order_mask rule xs) (order_mask rule ys)"
  by (auto simp: mask_le_def order_mask_def bit_fold_or)

lemma first_unplanned:
  assumes "set order \<subset> set p"
  obtains pre i rest where "p = pre @ i # rest" "i \<notin> set order" "set pre \<subseteq> set order"
proof -
  from assms have "\<exists>x\<in>set p. x \<notin> set order" by blast
  then obtain pre i rest where "p = pre @ i # rest" "i \<notin> set order" "\<forall>x\<in>set pre. \<not> x \<notin> set order"
    using split_list_first_prop[of p "\<lambda>x. x \<notin> set order"] by blast
  then show thesis using that by blast
qed

definition safe_permutation :: "rule \<Rightarrow> nat list \<Rightarrow> bool" where
  "safe_permutation rule p \<longleftrightarrow> distinct p \<and> set p = {..<length (body rule)} \<and> order_safe rule 0 p"

text \<open>
  What the documentation of the planner interface asks of a callback: it accepts every nonempty list of
  candidates and answers with the index of one.
\<close>

definition planner_contract :: "ruleset \<Rightarrow> rule \<Rightarrow> bool" where
  "planner_contract rs rule \<longleftrightarrow>
     (case ctx_planner (rs_modules rs) of
        None \<Rightarrow> True
      | Some planner \<Rightarrow>
          (\<forall>cs. cs \<noteq> [] \<longrightarrow> fst (planner cs) = 0 \<and> snd (planner cs) < length cs) \<and>
          (\<forall>i<length (body rule). \<forall>m. join_candidate_of rs rule m i \<noteq> None))"

lemma ready_nonempty:
  assumes "plan_state rule planned bvm order" "length order < length (body rule)" "safe_permutation rule p"
  shows "ready rule planned bvm \<noteq> []"
proof -
  have "set order \<subset> set p"
    using assms distinct_card[of order] distinct_card[of p]
    by (auto simp: plan_state_def safe_permutation_def psubset_eq)
  then obtain pre i rest where p: "p = pre @ i # rest" "i \<notin> set order" "set pre \<subseteq> set order"
    by (rule first_unplanned)
  have i: "i < length (body rule)" using assms(3) p(1) by (auto simp: safe_permutation_def)
  have "literal_safe_with_bound_vars rule i (order_mask rule pre)"
    using assms(3) p(1) by (simp add: safe_permutation_def order_safe_append order_mask_def)
  then have "literal_safe_with_bound_vars rule i bvm"
    using literal_safe_mono[OF order_mask_le[OF p(3)]] assms(1) by (simp add: plan_state_def)
  moreover have "unplanned planned i" using assms(1) p(2) i by (simp add: plan_state_def unplanned_iff)
  ultimately show ?thesis using i by (auto simp: ready_def filter_empty_conv)
qed

lemma plan_choose_succeeds:
  assumes "ready rule planned bvm \<noteq> []" "planner_contract rs rule"
  shows "\<exists>i. plan_choose rs rule planned bvm = Inr i"
proof (cases "ctx_planner (rs_modules rs)")
  case None
  then show ?thesis
    using best_scored_some[of "ready rule planned bvm" None "\<lambda>i. literal_static_score rs rule i bvm"] assms(1)
    by (auto simp: plan_choose_def)
next
  case (Some planner)
  let ?cs = "map (join_candidate_of rs rule bvm) (ready rule planned bvm)"
  have "None \<notin> set ?cs"
  proof
    assume "None \<in> set ?cs"
    then obtain i where "i < length (body rule)" "join_candidate_of rs rule bvm i = None"
      by (auto simp: ready_def)
    moreover have "\<forall>i<length (body rule). \<forall>m. join_candidate_of rs rule m i \<noteq> None"
      using assms(2) Some by (simp add: planner_contract_def)
    ultimately show False by blast
  qed
  moreover have "fst (planner (map the ?cs)) = 0" "snd (planner (map the ?cs)) < length (map the ?cs)"
    using assms Some by (auto simp: planner_contract_def)
  ultimately have "\<exists>i. module_choose_literal planner rs rule planned bvm = Inr i"
    using assms(1) by (auto simp: module_choose_literal_def Let_def split: prod.splits)
  then show ?thesis using Some by (auto simp: plan_choose_def Let_def split: list.splits)
qed

lemma plan_loop_succeeds:
  assumes "plan_state rule planned bvm order" "length order + n = length (body rule)" "safe_permutation rule p"
    "planner_contract rs rule"
  shows "\<exists>out. plan_loop n rs rule planned bvm order = Inr out"
  using assms
proof (induction n arbitrary: planned bvm order)
  case (Suc n)
  have "ready rule planned bvm \<noteq> []" using ready_nonempty[OF Suc.prems(1) _ Suc.prems(3)] Suc.prems(2) by simp
  then obtain i where i: "plan_choose rs rule planned bvm = Inr i" using plan_choose_succeeds Suc.prems(4) by blast
  from Suc.IH[OF plan_state_step[OF Suc.prems(1) plan_choose_ready[OF i]]] i Suc.prems show ?case by simp
qed simp

lemma plan_state_start:
  assumes "length (body rule) \<le> 64"
  shows "plan_state rule 0 0 []"
    and "i < length (body rule) \<Longrightarrow> body rule ! i = LIT_ATOM a \<Longrightarrow>
      plan_state rule (push_bit i 1) (literal_var_mask (LIT_ATOM a)) [i]"
proof -
  show st: "plan_state rule 0 0 []" using assms by (simp add: plan_state_def order_mask_def)
  assume a: "i < length (body rule)" "body rule ! i = LIT_ATOM a"
  then have "i \<in> set (ready rule 0 0)" by (simp add: ready_def unplanned_def literal_safe_with_bound_vars_def)
  from plan_state_step[OF st this] show "plan_state rule (push_bit i 1) (literal_var_mask (LIT_ATOM a)) [i]"
    using a(2) by simp
qed

section \<open>Properties\<close>



text \<open>A two-rule program for the witnesses: reachability over \<^verbatim>\<open>edge\<close>.\<close>

definition demo_path_rules :: "rule list" where
  "demo_path_rules =
     [\<lparr>head = Fact 1 [TERM_VAR 0, TERM_VAR 1], body = [LIT_ATOM (Fact 0 [TERM_VAR 0, TERM_VAR 1])],
       expr_nodes = [], rule_id = 1\<rparr>,
      \<lparr>head = Fact 1 [TERM_VAR 0, TERM_VAR 2],
       body = [LIT_COMPARISON (TERM_VAR 0) CMP_NEQ (TERM_VAR 2) False 255 255,
               LIT_ATOM (Fact 0 [TERM_VAR 0, TERM_VAR 1]), LIT_ATOM (Fact 1 [TERM_VAR 1, TERM_VAR 2])],
       expr_nodes = [], rule_id = 2\<rparr>]"

definition demo_ruleset :: ruleset where
  "demo_ruleset =
     \<lparr>rs_loaded = True, rs_modules = \<lparr>ctx_filters = standard_string_filters, ctx_planner = None\<rparr>,
      rs_policy_id = ''demo'', rs_domain = ''demo'', rs_sha256 = [], rs_query_whitelist = [],
      rs_enforces_query_whitelist = False,
      rs_positive_recursion_supported = True, rs_negation_supported = False,
      rs_negation_recursion_supported = False, rs_aggregates_supported = False,
      rs_strata = replicate MAX_PREDICATES 0, rs_max_stratum = 0, rs_strata_assigned = True,
      rs_has_positive_recursion = True, rs_test_only = False, rs_symbols = symbol_table_init,
      rs_registry = \<lparr>defs = [\<lparr>pred_name = ''edge'', pred_arity = 2, kind_flags = 1\<rparr>,
         \<lparr>pred_name = ''path'', pred_arity = 2, kind_flags = 6\<rparr>], atoms = [], frozen = True\<rparr>,
      rs_facts = [], rs_rules = demo_path_rules, rs_rule_sources = [(1, 1), (2, 1)],
      rs_frontend_name = [], rs_frontend_semantic_id = [], rs_source_sha256 = [], rs_program_validated = True,
      rs_compiled_fingerprint = [], rs_filter_programs = [], rs_filter_pattern_pool = [],
      rs_variable_name_rows = [], rs_variable_name_offsets = [], rs_variable_name_pool = []\<rparr>"



end
