(* ===== verification/Stratify.thy ===== *)
theory Stratify
  imports Join_Plan
begin

text \<open>
  Stratification of a ruleset (\<^verbatim>\<open>assign_strata_impl\<close> of \<^verbatim>\<open>src/compiler/maelys_datalog_validate.c\<close>): a
  relaxation of the stratum of every rule head over its body atoms, with at most \<open>MAX_PREDICATES + 1\<close> passes.
  It computes the least stratification, and it reports a cycle exactly when there is none.

  Strata are natural numbers: a pass raises the largest stratum by at most one for each rule, so the
  \<^verbatim>\<open>uint32_t\<close> cells stay far below their range (\<open>relax_loop_bound\<close>).
\<close>

section \<open>The relaxation\<close>

record validation_context =
  vc_file :: string
  vc_line :: nat
  vc_column :: nat

definition validation_diag :: "validation_context \<Rightarrow> diag_code \<Rightarrow> string \<Rightarrow> string \<Rightarrow> diagnostic" where
  "validation_diag p code message hint =
     diagnostic_set code ''parser'' (vc_file p) (vc_line p) (vc_column p) message hint"

record relaxation =
  rx_strata :: "nat list"
  rx_predecessor :: "nat list"
  rx_updated :: nat
  rx_changed :: bool

text \<open>A negated atom and an aggregate need a strictly lower source.\<close>

definition stratum_increment :: "literal \<Rightarrow> nat" where
  "stratum_increment lit = (case lit of LIT_NEGATED_ATOM _ \<Rightarrow> 1 | _ \<Rightarrow> if literal_is_aggregate lit then 1 else 0)"

fun relax_literals :: "nat list \<Rightarrow> nat \<Rightarrow> literal list \<Rightarrow> nat \<times> nat list \<Rightarrow> maelys_result + (nat \<times> nat list)" where
  "relax_literals strata hpid [] acc = Inr acc"
| "relax_literals strata hpid (lit # lits) (s, predecessor) =
     (case literal_atom lit of
        None \<Rightarrow> relax_literals strata hpid lits (s, predecessor)
      | Some a \<Rightarrow>
          if predicate_id a \<ge> MAX_PREDICATES then Inl MAELYS_ERR_INVALID_FIELD
          else
            let ns = strata ! predicate_id a + stratum_increment lit
            in relax_literals strata hpid lits
                 (if ns > s then (ns, predecessor[hpid := predicate_id a]) else (s, predecessor)))"

definition relax_rule :: "rule \<Rightarrow> relaxation \<Rightarrow> maelys_result + relaxation" where
  "relax_rule rule rx =
     (let hpid = predicate_id (head rule)
      in if hpid \<ge> MAX_PREDICATES then Inl MAELYS_ERR_INVALID_FIELD
         else case relax_literals (rx_strata rx) hpid (body rule) (rx_strata rx ! hpid, rx_predecessor rx) of
           Inl rc \<Rightarrow> Inl rc
         | Inr (s, predecessor) \<Rightarrow>
             let rx = rx\<lparr>rx_predecessor := predecessor\<rparr>
             in Inr (if s > rx_strata rx ! hpid
                     then rx\<lparr>rx_strata := (rx_strata rx)[hpid := s], rx_updated := hpid, rx_changed := True\<rparr> else rx))"

fun relax_pass :: "rule list \<Rightarrow> relaxation \<Rightarrow> maelys_result + relaxation" where
  "relax_pass [] rx = Inr rx"
| "relax_pass (rule # rules) rx =
     (case relax_rule rule rx of Inl rc \<Rightarrow> Inl rc | Inr rx' \<Rightarrow> relax_pass rules rx')"

text \<open>At most \<open>n\<close> further passes of the loop.\<close>

fun relax_loop :: "nat \<Rightarrow> rule list \<Rightarrow> relaxation \<Rightarrow> maelys_result + relaxation" where
  "relax_loop 0 rules rx = Inr rx"
| "relax_loop (Suc n) rules rx =
     (if \<not> rx_changed rx then Inr rx
      else case relax_pass rules (rx\<lparr>rx_changed := False\<rparr>) of
        Inl rc \<Rightarrow> Inl rc
      | Inr rx' \<Rightarrow> relax_loop n rules rx')"

definition relaxation_init :: relaxation where
  "relaxation_init = \<lparr>rx_strata = replicate MAX_PREDICATES 0, rx_predecessor = replicate MAX_PREDICATES 0,
     rx_updated = 0, rx_changed = True\<rparr>"

text \<open>The predicate named by the diagnostic of a cycle: \<open>MAX_PREDICATES\<close> predecessors back.\<close>

definition cycle_predicate :: "relaxation \<Rightarrow> nat" where
  "cycle_predicate rx = ((\<lambda>p. rx_predecessor rx ! p) ^^ MAX_PREDICATES) (rx_updated rx)"

definition assign_strata ::
  "validation_context \<Rightarrow> ruleset \<Rightarrow> diagnostic \<Rightarrow> maelys_result \<times> ruleset \<times> diagnostic" where
  "assign_strata p rs diag =
     (if \<not> rs_negation_supported rs \<and> \<not> rs_aggregates_supported rs then (MAELYS_OK, rs, diag)
      else
        let rs = rs\<lparr>rs_strata := replicate MAX_PREDICATES 0, rs_max_stratum := 0, rs_strata_assigned := False\<rparr>
        in case relax_loop (MAX_PREDICATES + 1) (rs_rules rs) relaxation_init of
          Inl rc \<Rightarrow> (rc, rs, diag)
        | Inr rx \<Rightarrow>
            let rs = rs\<lparr>rs_strata := rx_strata rx\<rparr>
            in if rx_changed rx then
                 let d = validation_diag p DIAG_POLICY_NOT_STRATIFIABLE ''stratification cycle''
                           (if rs_aggregates_supported rs then ''remove recursion through count or negation''
                            else ''remove recursion through negation'')
                 in (MAELYS_ERR_INVALID_FIELD, rs,
                     case predicate_registry_get (rs_registry rs) (cycle_predicate rx) of
                       None \<Rightarrow> d
                     | Some def \<Rightarrow> diagnostic_set_predicate (pred_name def) (pred_arity def) d)
               else
                 let max_s = fold max (rx_strata rx) 0
                 in if max_s \<ge> MAX_STRATA then
                      (MAELYS_ERR_INVALID_FIELD, rs,
                       diagnostic_set_limit LIMIT_MAX_STRATA (max_s + 1) MAX_STRATA
                         (validation_diag p DIAG_POLICY_NOT_STRATIFIABLE ''negation depth exceeds stratum limit''
                            ''reduce the required number of strata''))
                    else (MAELYS_OK, rs\<lparr>rs_max_stratum := max_s, rs_strata_assigned := True\<rparr>, diag))"

section \<open>Stratifications\<close>

text \<open>The dependencies of a program: head, body predicate and the increment between their strata.\<close>

definition dependency :: "rule list \<Rightarrow> nat \<Rightarrow> nat \<Rightarrow> nat \<Rightarrow> bool" where
  "dependency rules h b w \<longleftrightarrow>
     (\<exists>rule\<in>set rules. \<exists>lit\<in>set (body rule). \<exists>a. h = predicate_id (head rule) \<and> literal_atom lit = Some a \<and>
        b = predicate_id a \<and> w = stratum_increment lit)"

definition stratification :: "rule list \<Rightarrow> (nat \<Rightarrow> nat) \<Rightarrow> bool" where
  "stratification rules level \<longleftrightarrow> (\<forall>h b w. dependency rules h b w \<longrightarrow> level b + w \<le> level h)"

definition declared_rules :: "rule list \<Rightarrow> bool" where
  "declared_rules rules \<longleftrightarrow>
     (\<forall>rule\<in>set rules. predicate_id (head rule) < MAX_PREDICATES \<and>
        (\<forall>lit\<in>set (body rule). \<forall>a. literal_atom lit = Some a \<longrightarrow> predicate_id a < MAX_PREDICATES))"

lemma dependency_Cons:
  "dependency (rule # rules) h b w \<longleftrightarrow>
     (\<exists>lit\<in>set (body rule). \<exists>a. h = predicate_id (head rule) \<and> literal_atom lit = Some a \<and> b = predicate_id a \<and>
        w = stratum_increment lit) \<or> dependency rules h b w"
  by (auto simp: dependency_def)

lemma dependency_declared: "declared_rules rules \<Longrightarrow> dependency rules h b w \<Longrightarrow> h < MAX_PREDICATES \<and> b < MAX_PREDICATES"
  by (auto simp: declared_rules_def dependency_def)

section \<open>One pass\<close>

lemma relax_literals_spec:
  assumes "\<forall>lit\<in>set lits. \<forall>a. literal_atom lit = Some a \<longrightarrow> predicate_id a < MAX_PREDICATES"
  shows "\<exists>s' pr'. relax_literals strata h lits (s, pr) = Inr (s', pr') \<and> s \<le> s' \<and> length pr' = length pr \<and>
    (\<forall>lit\<in>set lits. \<forall>a. literal_atom lit = Some a \<longrightarrow> strata ! predicate_id a + stratum_increment lit \<le> s') \<and>
    (s' = s \<or> (\<exists>lit\<in>set lits. \<exists>a. literal_atom lit = Some a \<and> s' = strata ! predicate_id a + stratum_increment lit))"
  using assms
proof (induction lits arbitrary: s pr)
  case (Cons lit lits)
  show ?case
  proof (cases "literal_atom lit")
    case None
    then show ?thesis using Cons.IH[of s pr] Cons.prems by auto
  next
    case (Some a)
    define ns where "ns = strata ! predicate_id a + stratum_increment lit"
    define acc where "acc = (if ns > s then (ns, pr[h := predicate_id a]) else (s, pr))"
    have IH: "\<forall>lit\<in>set lits. \<forall>a. literal_atom lit = Some a \<longrightarrow> predicate_id a < MAX_PREDICATES" using Cons.prems by simp
    have step: "relax_literals strata h (lit # lits) (s, pr) = relax_literals strata h lits acc"
      using Cons.prems Some by (simp add: acc_def ns_def Let_def)
    from Cons.IH[OF IH, of "fst acc" "snd acc"] obtain s' pr' where r: "relax_literals strata h lits acc = Inr (s', pr')"
      "fst acc \<le> s'" "length pr' = length (snd acc)"
      "\<forall>lit\<in>set lits. \<forall>a. literal_atom lit = Some a \<longrightarrow> strata ! predicate_id a + stratum_increment lit \<le> s'"
      "s' = fst acc \<or> (\<exists>lit\<in>set lits. \<exists>a. literal_atom lit = Some a \<and> s' = strata ! predicate_id a + stratum_increment lit)"
      by auto
    moreover have "fst acc = max s ns" "length (snd acc) = length pr" by (auto simp: acc_def)
    ultimately show ?thesis using Some unfolding step by (auto simp: ns_def max_def split: if_splits)
  qed
qed simp

definition below :: "nat list \<Rightarrow> (nat \<Rightarrow> nat) \<Rightarrow> bool" where
  "below strata level \<longleftrightarrow> (\<forall>p<MAX_PREDICATES. strata ! p \<le> level p)"

text \<open>What the processing of some rules does to the strata.\<close>

definition relaxes :: "rule list \<Rightarrow> relaxation \<Rightarrow> relaxation \<Rightarrow> bool" where
  "relaxes rules rx rx' \<longleftrightarrow> length (rx_strata rx') = MAX_PREDICATES \<and>
     (\<forall>p<MAX_PREDICATES. rx_strata rx ! p \<le> rx_strata rx' ! p) \<and>
     (\<forall>h b w. dependency rules h b w \<longrightarrow> rx_strata rx ! b + w \<le> rx_strata rx' ! h) \<and>
     (\<forall>level. stratification rules level \<longrightarrow> below (rx_strata rx) level \<longrightarrow> below (rx_strata rx') level) \<and>
     (\<forall>m. below (rx_strata rx) (\<lambda>_. m) \<longrightarrow> below (rx_strata rx') (\<lambda>_. m + length rules)) \<and>
     (rx_changed rx' \<longleftrightarrow> rx_changed rx \<or> rx_strata rx' \<noteq> rx_strata rx)"

lemma stratum_increment_le: "stratum_increment lit \<le> 1"
  by (simp add: stratum_increment_def split: literal.split)

lemma relax_rule_spec:
  assumes "declared_rules [rule]" "length (rx_strata rx) = MAX_PREDICATES"
  shows "\<exists>rx'. relax_rule rule rx = Inr rx' \<and> relaxes [rule] rx rx'"
proof -
  let ?h = "predicate_id (head rule)" and ?v = "rx_strata rx"
  have h: "?h < MAX_PREDICATES" and lits: "\<forall>lit\<in>set (body rule). \<forall>a. literal_atom lit = Some a \<longrightarrow> predicate_id a < MAX_PREDICATES"
    using assms(1) by (auto simp: declared_rules_def)
  obtain s pr where s: "relax_literals ?v ?h (body rule) (?v ! ?h, rx_predecessor rx) = Inr (s, pr)" "?v ! ?h \<le> s"
    "\<forall>lit\<in>set (body rule). \<forall>a. literal_atom lit = Some a \<longrightarrow> ?v ! predicate_id a + stratum_increment lit \<le> s"
    "s = ?v ! ?h \<or> (\<exists>lit\<in>set (body rule). \<exists>a. literal_atom lit = Some a \<and> s = ?v ! predicate_id a + stratum_increment lit)"
    using relax_literals_spec[OF lits, of ?v ?h "?v ! ?h" "rx_predecessor rx"] by auto
  define rx' where "rx' = (if s > ?v ! ?h then (rx\<lparr>rx_predecessor := pr\<rparr>)\<lparr>rx_strata := ?v[?h := s], rx_updated := ?h, rx_changed := True\<rparr>
    else rx\<lparr>rx_predecessor := pr\<rparr>)"
  have run: "relax_rule rule rx = Inr rx'" using h s(1) by (simp add: relax_rule_def rx'_def Let_def)
  have v': "rx_strata rx' = ?v[?h := s]" using s(2) by (auto simp: rx'_def le_less)
  have nth: "rx_strata rx' ! p = (if p = ?h then s else ?v ! p)" if "p < MAX_PREDICATES" for p
    using that assms(2) by (simp add: v' nth_list_update)
  have level: "s \<le> level ?h + extra" if "below ?v level"
    "\<forall>lit\<in>set (body rule). \<forall>a. literal_atom lit = Some a \<longrightarrow> level (predicate_id a) + stratum_increment lit \<le> level ?h + extra" for level extra
    using s(4)
  proof
    assume "\<exists>lit\<in>set (body rule). \<exists>a. literal_atom lit = Some a \<and> s = ?v ! predicate_id a + stratum_increment lit"
    then obtain lit a where l: "lit \<in> set (body rule)" "literal_atom lit = Some a" "s = ?v ! predicate_id a + stratum_increment lit" by blast
    moreover have "?v ! predicate_id a \<le> level (predicate_id a)" using that(1) lits l by (auto simp: below_def)
    ultimately show ?thesis using that(2) by fastforce
  qed (use that(1) h in \<open>auto simp: below_def\<close>)
  have "below (rx_strata rx') level" if "stratification [rule] level" "below ?v level" for level
    using level[OF that(2), of 0] that by (auto simp: below_def nth stratification_def dependency_def)
  moreover have "below (rx_strata rx') (\<lambda>_. m + 1)" if "below ?v (\<lambda>_. m)" for m
    using level[OF that, of 1] that stratum_increment_le by (auto simp: below_def nth intro: le_SucI)
  moreover have "rx_changed rx' = (rx_changed rx \<or> rx_strata rx' \<noteq> ?v)"
  proof (cases "s > ?v ! ?h")
    case True
    then have "rx_strata rx' ! ?h \<noteq> ?v ! ?h" using nth[OF h] by simp
    then have "rx_strata rx' \<noteq> ?v" by metis
    then show ?thesis using True by (simp add: rx'_def)
  qed (simp add: rx'_def)
  moreover have "rx_strata rx ! b + w \<le> rx_strata rx' ! hh" if "dependency [rule] hh b w" for hh b w
    using that s(3) nth[OF h] by (auto simp: dependency_def)
  ultimately show ?thesis using run v' assms(2) nth s(2) by (intro exI[of _ rx']) (simp add: relaxes_def)
qed

lemma strata_squeeze:
  fixes u v :: "nat list"
  assumes "length u = MAX_PREDICATES" "length v = MAX_PREDICATES" "\<forall>p<MAX_PREDICATES. u ! p \<le> v ! p" "\<forall>p<MAX_PREDICATES. v ! p \<le> u ! p"
  shows "u = v"
  using assms by (intro nth_equalityI) (auto intro: order.antisym)

lemma relaxes_Cons:
  assumes "declared_rules (rule # rules)" "length (rx_strata rx) = MAX_PREDICATES" "relaxes [rule] rx rx1" "relaxes rules rx1 rx2"
  shows "relaxes (rule # rules) rx rx2"
proof -
  have dep: "dependency (rule # rules) h b w \<longleftrightarrow> dependency [rule] h b w \<or> dependency rules h b w" for h b w
    by (auto simp: dependency_def)
  have r1: "length (rx_strata rx1) = MAX_PREDICATES" "\<forall>p<MAX_PREDICATES. rx_strata rx ! p \<le> rx_strata rx1 ! p"
    "\<forall>h b w. dependency [rule] h b w \<longrightarrow> rx_strata rx ! b + w \<le> rx_strata rx1 ! h"
    "rx_changed rx1 \<longleftrightarrow> rx_changed rx \<or> rx_strata rx1 \<noteq> rx_strata rx" using assms(3) by (simp_all add: relaxes_def)
  have r2: "length (rx_strata rx2) = MAX_PREDICATES" "\<forall>p<MAX_PREDICATES. rx_strata rx1 ! p \<le> rx_strata rx2 ! p"
    "\<forall>h b w. dependency rules h b w \<longrightarrow> rx_strata rx1 ! b + w \<le> rx_strata rx2 ! h"
    "rx_changed rx2 \<longleftrightarrow> rx_changed rx1 \<or> rx_strata rx2 \<noteq> rx_strata rx1" using assms(4) by (simp_all add: relaxes_def)
  have grow: "\<forall>p<MAX_PREDICATES. rx_strata rx ! p \<le> rx_strata rx2 ! p" using r1(2) r2(2) order_trans by blast
  have "rx_strata rx ! b + w \<le> rx_strata rx2 ! h" if "dependency (rule # rules) h b w" for h b w
  proof -
    have hb: "h < MAX_PREDICATES" "b < MAX_PREDICATES" using dependency_declared[OF assms(1) that] by simp_all
    from that consider "dependency [rule] h b w" | "dependency rules h b w" using dep by blast
    then show ?thesis
    proof cases
      case 1
      then have "rx_strata rx ! b + w \<le> rx_strata rx1 ! h" using r1(3) by blast
      then show ?thesis using r2(2) hb(1) order_trans by blast
    next
      case 2
      then have "rx_strata rx1 ! b + w \<le> rx_strata rx2 ! h" using r2(3) by blast
      then show ?thesis using r1(2) hb(2) by (meson add_le_mono1 order_trans)
    qed
  qed
  moreover have "rx_strata rx1 = rx_strata rx \<and> rx_strata rx2 = rx_strata rx1" if "rx_strata rx2 = rx_strata rx"
    using strata_squeeze[OF assms(2) r1(1,2)] r2(2) that by auto
  moreover have "stratification [rule] level \<and> stratification rules level" if "stratification (rule # rules) level" for level
    using that by (auto simp: stratification_def dep)
  moreover have "below (rx_strata rx2) (\<lambda>_. m + Suc (length rules))" if "below (rx_strata rx) (\<lambda>_. m)" for m
  proof -
    have "below (rx_strata rx1) (\<lambda>_. m + 1)" using assms(3) that by (simp add: relaxes_def)
    then have "below (rx_strata rx2) (\<lambda>_. (m + 1) + length rules)" using assms(4) unfolding relaxes_def by blast
    then show ?thesis by simp
  qed
  moreover have "below (rx_strata rx2) level" if "stratification [rule] level" "stratification rules level" "below (rx_strata rx) level" for level
    using that assms(3,4) unfolding relaxes_def by blast
  ultimately show ?thesis using grow r1(4) r2(1,4) unfolding relaxes_def by auto
qed

lemma relax_pass_spec:
  assumes "declared_rules rules" "length (rx_strata rx) = MAX_PREDICATES"
  shows "\<exists>rx'. relax_pass rules rx = Inr rx' \<and> relaxes rules rx rx'"
  using assms
proof (induction rules arbitrary: rx)
  case Nil
  then show ?case by (auto simp: dependency_def relaxes_def)
next
  case (Cons rule rules)
  have d: "declared_rules [rule]" "declared_rules rules" using Cons.prems(1) by (auto simp: declared_rules_def)
  obtain rx1 where r1: "relax_rule rule rx = Inr rx1" "relaxes [rule] rx rx1" using relax_rule_spec[OF d(1) Cons.prems(2)] by auto
  then obtain rx2 where r2: "relax_pass rules rx1 = Inr rx2" "relaxes rules rx1 rx2" using Cons.IH[OF d(2), of rx1] by (auto simp: relaxes_def)
  show ?case using r1(1) r2(1) relaxes_Cons[OF Cons.prems r1(2) r2(2)] by simp
qed

section \<open>Convergence\<close>

text \<open>
  Against a stratification of least total, a pass that has not settled every predicate settles one more: otherwise
  the unsettled predicates could all be lowered by one.
\<close>

definition minimal_stratification :: "rule list \<Rightarrow> (nat \<Rightarrow> nat) \<Rightarrow> bool" where
  "minimal_stratification rules level \<longleftrightarrow> stratification rules level \<and>
     (\<forall>other. stratification rules other \<longrightarrow> sum level {..<MAX_PREDICATES} \<le> sum other {..<MAX_PREDICATES})"

lemma minimal_stratification_ex:
  assumes "stratification rules level" shows "\<exists>least. minimal_stratification rules least"
  using ex_has_least_nat[of "stratification rules" level "\<lambda>l. sum l {..<MAX_PREDICATES}"] assms
  by (auto simp: minimal_stratification_def)

definition settled :: "(nat \<Rightarrow> nat) \<Rightarrow> nat list \<Rightarrow> nat set" where
  "settled level strata = {p. p < MAX_PREDICATES \<and> strata ! p = level p}"

lemma settled_subset: "settled level strata \<subseteq> {..<MAX_PREDICATES}"
  by (auto simp: settled_def)

lemma tight_dependency:
  assumes "minimal_stratification rules level" "declared_rules rules" "below v level" "settled level v \<noteq> {..<MAX_PREDICATES}"
  shows "\<exists>h b w. dependency rules h b w \<and> h \<notin> settled level v \<and> b \<in> settled level v \<and> level b + w = level h"
proof (rule ccontr)
  let ?U = "{..<MAX_PREDICATES} - settled level v"
  assume no: "\<not> ?thesis"
  define lower where "lower p = (if p \<in> ?U then level p - 1 else level p)" for p
  have pos: "0 < level p" if "p \<in> ?U" for p
    using that assms(3) by (auto simp: settled_def below_def)
  have "stratification rules lower" unfolding stratification_def
  proof (intro allI impI)
    fix h b w assume d: "dependency rules h b w"
    then have le: "level b + w \<le> level h" using assms(1) by (simp add: minimal_stratification_def stratification_def)
    have hb: "h < MAX_PREDICATES" "b < MAX_PREDICATES" using dependency_declared[OF assms(2) d] by simp_all
    show "lower b + w \<le> lower h"
    proof (cases "h \<in> ?U \<and> b \<notin> ?U")
      case True
      then have "level b + w \<noteq> level h" using no d hb by blast
      then show ?thesis using le True by (auto simp: lower_def)
    next
      case False
      then show ?thesis using le pos[of b] by (auto simp: lower_def)
    qed
  qed
  then have "sum level {..<MAX_PREDICATES} \<le> sum lower {..<MAX_PREDICATES}" using assms(1) by (simp add: minimal_stratification_def)
  moreover obtain u where "u \<in> ?U" using settled_subset assms(4) by blast
  then have "sum lower {..<MAX_PREDICATES} < sum level {..<MAX_PREDICATES}"
    using pos by (intro sum_strict_mono_ex1) (auto simp: lower_def)
  ultimately show False by simp
qed

lemma pass_settles:
  assumes "minimal_stratification rules level" "declared_rules rules" "relaxes rules rx rx'" "below (rx_strata rx) level"
    "length (rx_strata rx) = MAX_PREDICATES"
  shows "settled level (rx_strata rx) \<subset> settled level (rx_strata rx') \<or>
    settled level (rx_strata rx) = {..<MAX_PREDICATES} \<and> rx_strata rx' = rx_strata rx"
proof -
  have below': "below (rx_strata rx') level" and grow: "\<forall>p<MAX_PREDICATES. rx_strata rx ! p \<le> rx_strata rx' ! p"
    and len: "length (rx_strata rx') = MAX_PREDICATES"
    using assms(1,3,4) by (auto simp: relaxes_def minimal_stratification_def)
  have sub: "settled level (rx_strata rx) \<subseteq> settled level (rx_strata rx')"
    using grow below' unfolding settled_def below_def by (fastforce intro: le_antisym)
  show ?thesis
  proof (cases "settled level (rx_strata rx) = {..<MAX_PREDICATES}")
    case True
    then have "\<forall>p<MAX_PREDICATES. rx_strata rx ! p = level p" by (auto simp: settled_def set_eq_iff)
    then have "\<forall>p<MAX_PREDICATES. rx_strata rx' ! p \<le> rx_strata rx ! p" using below' by (simp add: below_def)
    then show ?thesis using True strata_squeeze[OF assms(5) len grow] by simp
  next
    case False
    from tight_dependency[OF assms(1,2,4) False] obtain h b w where d: "dependency rules h b w" "h \<notin> settled level (rx_strata rx)"
      "b \<in> settled level (rx_strata rx)" "level b + w = level h" by blast
    have h: "h < MAX_PREDICATES" using dependency_declared[OF assms(2) d(1)] by simp
    have "rx_strata rx ! b + w \<le> rx_strata rx' ! h" using assms(3) d(1) unfolding relaxes_def by blast
    then have "level h \<le> rx_strata rx' ! h" using d(3,4) by (simp add: settled_def)
    then have "h \<in> settled level (rx_strata rx')" using below' h by (auto simp: settled_def below_def intro: le_antisym)
    then show ?thesis using sub d(2) by blast
  qed
qed

lemma relax_loop_idle: "\<not> rx_changed rx \<Longrightarrow> relax_loop n rules rx = Inr rx"
  by (cases n) simp_all

lemma relax_loop_settles:
  assumes "minimal_stratification rules level" "declared_rules rules" "below (rx_strata rx) level"
    "length (rx_strata rx) = MAX_PREDICATES" "MAX_PREDICATES < card (settled level (rx_strata rx)) + n"
  shows "\<exists>rx'. relax_loop n rules rx = Inr rx' \<and> \<not> rx_changed rx'"
  using assms(3-5)
proof (induction n arbitrary: rx)
  case 0
  then show ?case using card_mono[OF _ settled_subset, of level "rx_strata rx"] by simp
next
  case (Suc n)
  show ?case
  proof (cases "rx_changed rx")
    case True
    let ?rx = "rx\<lparr>rx_changed := False\<rparr>"
    obtain rx' where r: "relax_pass rules ?rx = Inr rx'" "relaxes rules ?rx rx'"
      using relax_pass_spec[OF assms(2), of ?rx] Suc.prems(2) by auto
    have keep: "below (rx_strata rx') level" "length (rx_strata rx') = MAX_PREDICATES"
      using r(2) Suc.prems(1) assms(1) by (auto simp: relaxes_def minimal_stratification_def)
    from pass_settles[OF assms(1,2) r(2)] Suc.prems(1,2)
    consider "settled level (rx_strata rx) \<subset> settled level (rx_strata rx')" | "rx_strata rx' = rx_strata rx" by auto
    then show ?thesis
    proof cases
      case 1
      then have "card (settled level (rx_strata rx)) < card (settled level (rx_strata rx'))"
        using psubset_card_mono[OF finite_subset[OF settled_subset]] by blast
      then show ?thesis using Suc.IH[OF keep] Suc.prems(3) True r(1) by simp
    next
      case 2
      then have "\<not> rx_changed rx'" using r(2) by (simp add: relaxes_def)
      then show ?thesis using True r(1) by (auto simp: relax_loop_idle)
    qed
  qed simp
qed

lemma relax_loop_spec:
  assumes "declared_rules rules" "length (rx_strata rx) = MAX_PREDICATES" "rx_changed rx"
  shows "\<exists>rx'. relax_loop n rules rx = Inr rx' \<and> length (rx_strata rx') = MAX_PREDICATES \<and>
    (\<forall>level. stratification rules level \<longrightarrow> below (rx_strata rx) level \<longrightarrow> below (rx_strata rx') level) \<and>
    (\<forall>m. below (rx_strata rx) (\<lambda>_. m) \<longrightarrow> below (rx_strata rx') (\<lambda>_. m + n * length rules)) \<and>
    (\<not> rx_changed rx' \<longrightarrow> stratification rules ((!) (rx_strata rx')))"
  using assms(2,3)
proof (induction n arbitrary: rx)
  case (Suc n)
  let ?rx = "rx\<lparr>rx_changed := False\<rparr>"
  obtain rx1 where r: "relax_pass rules ?rx = Inr rx1" "relaxes rules ?rx rx1"
    using relax_pass_spec[OF assms(1), of ?rx] Suc.prems(1) by auto
  have r1: "length (rx_strata rx1) = MAX_PREDICATES"
    "\<And>level. stratification rules level \<Longrightarrow> below (rx_strata rx) level \<Longrightarrow> below (rx_strata rx1) level"
    "\<And>m. below (rx_strata rx) (\<lambda>_. m) \<Longrightarrow> below (rx_strata rx1) (\<lambda>_. m + length rules)" using r(2) by (auto simp: relaxes_def)
  show ?case
  proof (cases "rx_changed rx1")
    case True
    from Suc.IH[OF r1(1) True] obtain rx2 where r2: "relax_loop n rules rx1 = Inr rx2" "length (rx_strata rx2) = MAX_PREDICATES"
      "\<forall>level. stratification rules level \<longrightarrow> below (rx_strata rx1) level \<longrightarrow> below (rx_strata rx2) level"
      "\<forall>m. below (rx_strata rx1) (\<lambda>_. m) \<longrightarrow> below (rx_strata rx2) (\<lambda>_. m + n * length rules)"
      "\<not> rx_changed rx2 \<longrightarrow> stratification rules ((!) (rx_strata rx2))" by auto
    have "below (rx_strata rx2) (\<lambda>_. m + Suc n * length rules)" if "below (rx_strata rx) (\<lambda>_. m)" for m
    proof -
      have "below (rx_strata rx2) (\<lambda>_. (m + length rules) + n * length rules)" using r1(3)[OF that] r2(4) by blast
      then show ?thesis by (simp add: add.assoc)
    qed
    then show ?thesis using Suc.prems(2) r(1) r1(2) r2 by (intro exI[of _ rx2]) auto
  next
    case False
    have edges: "\<forall>h b w. dependency rules h b w \<longrightarrow> rx_strata rx ! b + w \<le> rx_strata rx1 ! h"
      and same: "rx_strata rx1 = rx_strata rx" using r(2) False by (auto simp: relaxes_def)
    have "stratification rules ((!) (rx_strata rx1))" using edges unfolding same by (auto simp: stratification_def)
    moreover have "below (rx_strata rx) (\<lambda>_. m) \<Longrightarrow> below (rx_strata rx1) (\<lambda>_. m + Suc n * length rules)" for m
      unfolding same by (auto simp: below_def intro: trans_le_add1)
    ultimately show ?thesis using Suc.prems(2) r(1) r1(1,2) False relax_loop_idle[OF False] by (intro exI[of _ rx1]) auto
  qed
qed simp

lemma relax_loop_bound:
  assumes "declared_rules rules" "length rules \<le> MAX_RULES" "relax_loop (MAX_PREDICATES + 1) rules relaxation_init = Inr rx" "p < MAX_PREDICATES"
  shows "rx_strata rx ! p < 2 ^ 32"
proof -
  have "below (rx_strata relaxation_init) (\<lambda>_. 0)" by (simp add: below_def relaxation_init_def)
  moreover have "length (rx_strata relaxation_init) = MAX_PREDICATES" "rx_changed relaxation_init" by (simp_all add: relaxation_init_def)
  ultimately have "below (rx_strata rx) (\<lambda>_. 0 + (MAX_PREDICATES + 1) * length rules)"
    using relax_loop_spec[OF assms(1), of relaxation_init "MAX_PREDICATES + 1"] assms(3) by auto
  then have "rx_strata rx ! p \<le> (MAX_PREDICATES + 1) * length rules" using assms(4) by (simp add: below_def)
  also have "\<dots> \<le> (MAX_PREDICATES + 1) * MAX_RULES" using assms(2) by (intro mult_le_mono2)
  also have "\<dots> < 2 ^ 32" by (simp add: limit_defs)
  finally show ?thesis .
qed

section \<open>The reported cycle\<close>

text \<open>Chains of dependencies with the total of their increments.\<close>

inductive depends :: "rule list \<Rightarrow> nat \<Rightarrow> nat \<Rightarrow> nat \<Rightarrow> bool" for rules where
  depends_edge: "dependency rules h b w \<Longrightarrow> depends rules h w b"
| depends_step: "dependency rules h b w \<Longrightarrow> depends rules b m c \<Longrightarrow> depends rules h (w + m) c"

lemma depends_level: "depends rules h m b \<Longrightarrow> stratification rules level \<Longrightarrow> level b + m \<le> level h"
  by (induction rule: depends.induct) (fastforce simp: stratification_def)+

text \<open>
  History of the relaxation: \<open>pass_of p\<close> is the last pass that raised \<open>p\<close> and \<open>stamp p\<close> the position of that update
  among all updates. \<open>todo\<close> are the rules the current pass \<open>k\<close> has still to process.
\<close>

definition traced :: "rule list \<Rightarrow> rule list \<Rightarrow> rule list \<Rightarrow> nat \<Rightarrow> relaxation \<Rightarrow> (nat \<Rightarrow> nat) \<Rightarrow> (nat \<Rightarrow> nat) \<Rightarrow> nat \<Rightarrow> bool" where
  "traced rules done_rules todo k rx pass_of stamp clock \<longleftrightarrow>
     length (rx_strata rx) = MAX_PREDICATES \<and> length (rx_predecessor rx) = MAX_PREDICATES \<and>
     (\<forall>p. stamp p < clock \<and> pass_of p \<le> k) \<and>
     (\<forall>p<MAX_PREDICATES. 1 \<le> pass_of p \<longrightarrow>
        (\<exists>w. dependency rules p (rx_predecessor rx ! p) w \<and> pass_of p \<le> pass_of (rx_predecessor rx ! p) + 1 \<and>
           (rx_strata rx ! p < rx_strata rx ! (rx_predecessor rx ! p) + w \<or>
            rx_strata rx ! p = rx_strata rx ! (rx_predecessor rx ! p) + w \<and> stamp (rx_predecessor rx ! p) < stamp p))) \<and>
     (\<forall>h b w. dependency done_rules h b w \<longrightarrow> pass_of b < k \<longrightarrow> rx_strata rx ! b + w \<le> rx_strata rx ! h) \<and>
     (\<forall>h b w. dependency todo h b w \<longrightarrow> pass_of b < k - 1 \<longrightarrow> rx_strata rx ! b + w \<le> rx_strata rx ! h) \<and>
     (rx_changed rx \<longrightarrow> rx_updated rx < MAX_PREDICATES \<and> pass_of (rx_updated rx) = k)"

lemma relax_literals_le:
  assumes "relax_literals strata h lits (s, pr) = Inr (s', pr')" "lit \<in> set lits" "literal_atom lit = Some a"
  shows "strata ! predicate_id a + stratum_increment lit \<le> s'"
proof -
  have "\<forall>lit\<in>set lits. \<forall>a. literal_atom lit = Some a \<longrightarrow> predicate_id a < MAX_PREDICATES"
    using assms(1) by (induction lits arbitrary: s pr) (auto simp: Let_def split: option.splits if_splits)
  from relax_literals_spec[OF this, of strata h s pr] assms show ?thesis by auto
qed

text \<open>The literal loop leaves the predecessors alone, or records the maximising body predicate.\<close>

lemma relax_literals_predecessor:
  assumes "relax_literals strata h lits (s, pr) = Inr (s', pr')" "h < length pr"
  shows "s' = s \<and> pr' = pr \<or> s < s' \<and> (\<exists>lit\<in>set lits. \<exists>a. literal_atom lit = Some a \<and> pr' = pr[h := predicate_id a] \<and>
    predicate_id a < MAX_PREDICATES \<and> s' = strata ! predicate_id a + stratum_increment lit)"
  using assms
proof (induction lits arbitrary: s pr)
  case (Cons lit lits)
  show ?case
  proof (cases "literal_atom lit")
    case None
    then show ?thesis using Cons by auto
  next
    case (Some a)
    let ?ns = "strata ! predicate_id a + stratum_increment lit"
    have a: "predicate_id a < MAX_PREDICATES" using Cons.prems(1) Some by (auto split: if_splits)
    show ?thesis
    proof (cases "s < ?ns")
      case True
      then have "relax_literals strata h lits (?ns, pr[h := predicate_id a]) = Inr (s', pr')" using Cons.prems(1) Some a by simp
      from Cons.IH[OF this] Cons.prems(2) True Some a show ?thesis by auto
    next
      case False
      then have "relax_literals strata h lits (s, pr) = Inr (s', pr')" using Cons.prems(1) Some a by simp
      from Cons.IH[OF this] Cons.prems(2) show ?thesis by auto
    qed
  qed
qed simp

lemma traced_rule:
  assumes tr: "traced rules done_rules (rule # todo) k rx pass_of stamp clock" and "1 \<le> k" "rule \<in> set rules"
    "relax_rule rule rx = Inr rx'"
  shows "\<exists>pass_of' stamp' clock'. traced rules (rule # done_rules) todo k rx' pass_of' stamp' clock'"
proof -
  let ?h = "predicate_id (head rule)" and ?v = "rx_strata rx" and ?p = "rx_predecessor rx"
  have len: "length ?v = MAX_PREDICATES" "length ?p = MAX_PREDICATES" and clk: "\<forall>p. stamp p < clock \<and> pass_of p \<le> k"
    and hist: "\<forall>p<MAX_PREDICATES. 1 \<le> pass_of p \<longrightarrow> (\<exists>w. dependency rules p (?p ! p) w \<and> pass_of p \<le> pass_of (?p ! p) + 1 \<and>
      (?v ! p < ?v ! (?p ! p) + w \<or> ?v ! p = ?v ! (?p ! p) + w \<and> stamp (?p ! p) < stamp p))"
    and fin: "\<forall>h b w. dependency done_rules h b w \<longrightarrow> pass_of b < k \<longrightarrow> ?v ! b + w \<le> ?v ! h"
    and todo: "\<forall>h b w. dependency (rule # todo) h b w \<longrightarrow> pass_of b < k - 1 \<longrightarrow> ?v ! b + w \<le> ?v ! h"
    and upd: "rx_changed rx \<longrightarrow> rx_updated rx < MAX_PREDICATES \<and> pass_of (rx_updated rx) = k"
    using tr unfolding traced_def by blast+
  have h: "?h < MAX_PREDICATES" using assms(4) by (auto simp: relax_rule_def Let_def split: if_splits)
  obtain s pr where s: "relax_literals ?v ?h (body rule) (?v ! ?h, ?p) = Inr (s, pr)" and
    rx': "rx' = (if s > ?v ! ?h then (rx\<lparr>rx_predecessor := pr\<rparr>)\<lparr>rx_strata := ?v[?h := s], rx_updated := ?h, rx_changed := True\<rparr>
      else rx\<lparr>rx_predecessor := pr\<rparr>)" using assms(4) h by (auto simp: relax_rule_def Let_def split: sum.splits prod.splits)
  have lits: "\<forall>lit\<in>set (body rule). \<forall>a. literal_atom lit = Some a \<longrightarrow> ?v ! predicate_id a + stratum_increment lit \<le> s"
    using relax_literals_le[OF s] by blast
  from relax_literals_predecessor[OF s] h len(2) consider "s = ?v ! ?h" "pr = ?p"
    | lit a where "?v ! ?h < s" "lit \<in> set (body rule)" "literal_atom lit = Some a" "pr = ?p[?h := predicate_id a]"
      "predicate_id a < MAX_PREDICATES" "s = ?v ! predicate_id a + stratum_increment lit" by auto
  then show ?thesis
  proof cases
    case 1
    then have "rx' = rx" by (simp add: rx')
    moreover have "?v ! b + w \<le> ?v ! hh" if "dependency [rule] hh b w" for hh b w
      using that lits 1(1) by (auto simp: dependency_def)
    ultimately have "traced rules (rule # done_rules) todo k rx' pass_of stamp clock"
      using len clk hist fin todo upd by (auto simp: traced_def dependency_Cons dependency_def)
    then show ?thesis by blast
  next
    case (2 lit a)
    let ?b = "predicate_id a" and ?w = "stratum_increment lit"
    let ?last = "pass_of(?h := k)" and ?stamp = "stamp(?h := clock)"
    have rx2: "rx_strata rx' = ?v[?h := s]" "rx_predecessor rx' = ?p[?h := ?b]" "rx_updated rx' = ?h" using 2 by (simp_all add: rx')
    have v: "rx_strata rx' ! p = (if p = ?h then s else ?v ! p)" "rx_predecessor rx' ! p = (if p = ?h then ?b else ?p ! p)"
      if "p < MAX_PREDICATES" for p using that len by (simp_all add: rx2 nth_list_update)
    have mono: "?v ! p \<le> rx_strata rx' ! p" for p
      using 2(1) h len by (cases "p = ?h") (simp_all add: rx2)
    have dep: "dependency [rule] ?h ?b ?w" "dependency rules ?h ?b ?w" using 2 assms(3) by (auto simp: dependency_def)
    have recent: "k \<le> pass_of ?b + 1"
    proof (rule ccontr)
      assume "\<not> ?thesis"
      then have "pass_of ?b < k - 1" by linarith
      then have "?v ! ?b + ?w \<le> ?v ! ?h" using todo dep(1) by (auto simp: dependency_Cons dependency_def)
      then show False using 2 by simp
    qed
    have "\<exists>w. dependency rules p (rx_predecessor rx' ! p) w \<and> ?last p \<le> ?last (rx_predecessor rx' ! p) + 1 \<and>
       (rx_strata rx' ! p < rx_strata rx' ! (rx_predecessor rx' ! p) + w \<or>
        rx_strata rx' ! p = rx_strata rx' ! (rx_predecessor rx' ! p) + w \<and> ?stamp (rx_predecessor rx' ! p) < ?stamp p)"
      if p: "p < MAX_PREDICATES" "1 \<le> ?last p" for p
    proof (cases "p = ?h")
      case True
      show ?thesis using dep(2) recent True 2 clk v[OF h] v(1)[OF 2(5)] by (intro exI[of _ ?w]) auto
    next
      case False
      then obtain w where w: "dependency rules p (?p ! p) w" "pass_of p \<le> pass_of (?p ! p) + 1"
        "?v ! p < ?v ! (?p ! p) + w \<or> ?v ! p = ?v ! (?p ! p) + w \<and> stamp (?p ! p) < stamp p" using hist p by auto
      show ?thesis
      proof (cases "?p ! p = ?h")
        case True
        then show ?thesis using w False v[OF p(1)] v[OF h] 2(1) clk by (intro exI[of _ w]) (auto intro: le_SucI)
      next
        case other: False
        then have "rx_strata rx' ! (?p ! p) = ?v ! (?p ! p)" by (simp add: rx2)
        then show ?thesis using w False v[OF p(1)] other by (intro exI[of _ w]) auto
      qed
    qed
    moreover have "rx_strata rx' ! b + w \<le> rx_strata rx' ! hh"
      if "dependency (rule # done_rules) hh b w" "?last b < k" for hh b w
    proof -
      have b: "b \<noteq> ?h" "pass_of b < k" using that(2) by (auto split: if_splits)
      then have vb: "rx_strata rx' ! b = ?v ! b" by (simp add: rx2)
      from that(1) consider "dependency [rule] hh b w" | "dependency done_rules hh b w" by (auto simp: dependency_Cons dependency_def)
      then show ?thesis
      proof cases
        case 1
        then show ?thesis using lits v(1)[OF h] vb by (auto simp: dependency_def)
      next
        case 2
        then show ?thesis using fin b(2) mono[of hh] vb by fastforce
      qed
    qed
    moreover have "rx_strata rx' ! b + w \<le> rx_strata rx' ! hh" if "dependency todo hh b w" "?last b < k - 1" for hh b w
    proof -
      have b: "b \<noteq> ?h" "pass_of b < k - 1" using that(2) by (auto split: if_splits)
      then have "rx_strata rx' ! b = ?v ! b" "?v ! b + w \<le> ?v ! hh" using todo that(1) by (auto simp: rx2 dependency_Cons)
      then show ?thesis using mono[of hh] by simp
    qed
    ultimately have "traced rules (rule # done_rules) todo k rx' ?last ?stamp (Suc clock)"
      using len clk rx2 h unfolding traced_def by (auto simp: less_Suc_eq)
    then show ?thesis by blast
  qed
qed

lemma traced_pass:
  assumes "relax_pass todo rx = Inr rx'" "traced rules done_rules todo k rx pass_of stamp clock" "1 \<le> k" "set todo \<subseteq> set rules"
  shows "\<exists>pass_of stamp clock. traced rules (rev todo @ done_rules) [] k rx' pass_of stamp clock"
  using assms(1,2,4)
proof (induction todo arbitrary: rx done_rules pass_of stamp clock)
  case (Cons rule todo)
  then obtain rx1 where r: "relax_rule rule rx = Inr rx1" "relax_pass todo rx1 = Inr rx'" by (auto split: sum.splits)
  from traced_rule[OF Cons.prems(2) assms(3) _ r(1)] Cons.prems(3) Cons.IH[OF r(2), of "rule # done_rules"] show ?case by auto
qed auto

lemma dependency_set: "set rules = set rules' \<Longrightarrow> dependency rules = dependency rules'"
  by (intro ext) (simp add: dependency_def)

lemma traced_loop:
  assumes "relax_loop n rules rx = Inr rx'" "traced rules rules [] k rx pass_of stamp clock" "rx_changed rx'"
  shows "\<exists>pass_of stamp clock. traced rules rules [] (k + n) rx' pass_of stamp clock"
  using assms(1,2)
proof (induction n arbitrary: rx k pass_of stamp clock)
  case (Suc n)
  have changed: "rx_changed rx" using Suc.prems(1) assms(3) by (auto split: if_splits)
  let ?rx = "rx\<lparr>rx_changed := False\<rparr>"
  obtain rx1 where r: "relax_pass rules ?rx = Inr rx1" "relax_loop n rules rx1 = Inr rx'"
    using Suc.prems(1) changed by (auto split: sum.splits)
  have "traced rules [] rules (Suc k) ?rx pass_of stamp clock"
    using Suc.prems(2) unfolding traced_def by (auto simp: dependency_def le_SucI)
  from traced_pass[OF r(1) this] have "\<exists>pass_of stamp clock. traced rules (rev rules) [] (Suc k) rx1 pass_of stamp clock" by simp
  then have "\<exists>pass_of stamp clock. traced rules rules [] (Suc k) rx1 pass_of stamp clock"
    unfolding traced_def dependency_set[of "rev rules" rules, simplified] .
  then show ?case using Suc.IH[OF r(2)] by fastforce
qed auto

lemma traced_init: "traced rules rules [] 0 relaxation_init (\<lambda>_. 0) (\<lambda>_. 0) 1"
  by (auto simp: traced_def relaxation_init_def dependency_def) (simp add: limit_defs)

text \<open>A walk along a function that stays in \<open>n\<close> values enters a cycle within \<open>n\<close> steps.\<close>

lemma walk_on_cycle:
  fixes f :: "nat \<Rightarrow> nat"
  assumes "\<forall>i\<le>n. (f ^^ i) x < n"
  shows "\<exists>d. 0 < d \<and> d \<le> n \<and> (f ^^ (n - d)) x = (f ^^ n) x"
proof -
  have "\<not> inj_on (\<lambda>i. (f ^^ i) x) {..n}"
    using assms card_inj_on_le[of "\<lambda>i. (f ^^ i) x" "{..n}" "{..<n}"] by auto
  then obtain i j where ij: "i < j" "j \<le> n" "(f ^^ i) x = (f ^^ j) x"
    unfolding inj_on_def by (metis atMost_iff linorder_neqE_nat)
  have shift: "(f ^^ ((n - j) + i)) x = (f ^^ ((n - j) + j)) x" unfolding funpow_add o_apply ij(3) ..
  have "(n - j) + i = n - (j - i)" "(n - j) + j = n" using ij(1,2) by linarith+
  with shift have "(f ^^ (n - (j - i))) x = (f ^^ n) x" by argo
  moreover have "0 < j - i" "j - i \<le> n" using ij(1,2) by linarith+
  ultimately show ?thesis by blast
qed

lemma cycle_predicate_certified:
  assumes "relax_loop (MAX_PREDICATES + 1) rules relaxation_init = Inr rx" "rx_changed rx" "declared_rules rules"
  shows "\<exists>m>0. depends rules (cycle_predicate rx) m (cycle_predicate rx)"
proof -
  let ?N = MAX_PREDICATES and ?f = "\<lambda>p. rx_predecessor rx ! p" and ?v = "rx_strata rx"
  from traced_loop[OF assms(1) traced_init assms(2)] obtain pass_of stamp clock
    where tr: "traced rules rules [] (?N + 1) rx pass_of stamp clock" by auto
  let ?x = "\<lambda>i. (?f ^^ i) (rx_updated rx)"
  define edge where "edge p q w \<longleftrightarrow> dependency rules p q w \<and> (?v ! p < ?v ! q + w \<or> ?v ! p = ?v ! q + w \<and> stamp q < stamp p)" for p q w
  have recent: "?x i < ?N \<and> ?N + 1 \<le> pass_of (?x i) + i" if "i \<le> ?N" for i
    using that
  proof (induction i)
    case 0
    then show ?case using tr assms(2) by (simp add: traced_def)
  next
    case (Suc i)
    then have x: "?x i < ?N" "1 \<le> pass_of (?x i)" "?N + 1 \<le> pass_of (?x i) + i" by auto
    then obtain w where "dependency rules (?x i) (?f (?x i)) w" "pass_of (?x i) \<le> pass_of (?f (?x i)) + 1"
      using tr unfolding traced_def by blast
    then show ?case using dependency_declared[OF assms(3)] x(3) by auto
  qed
  have step: "\<exists>w. edge (?x i) (?x (Suc i)) w" if "i < ?N" for i
  proof -
    have "?x i < ?N" "1 \<le> pass_of (?x i)" using recent[of i] that by auto
    then show ?thesis using tr unfolding traced_def edge_def by auto
  qed
  have chain: "\<exists>m. depends rules (?x i) m (?x (i + Suc d)) \<and>
      (?v ! ?x i < ?v ! ?x (i + Suc d) + m \<or> ?v ! ?x i = ?v ! ?x (i + Suc d) + m \<and> stamp (?x (i + Suc d)) < stamp (?x i))"
    if "i + d < ?N" for i d
    using that
  proof (induction d arbitrary: i)
    case 0
    then show ?case using step[of i] by (auto simp: edge_def intro: depends_edge)
  next
    case (Suc d)
    obtain w where w: "edge (?x i) (?x (Suc i)) w" using step[of i] Suc.prems by auto
    obtain m where m: "depends rules (?x (Suc i)) m (?x (Suc i + Suc d))"
      "?v ! ?x (Suc i) < ?v ! ?x (Suc i + Suc d) + m \<or> ?v ! ?x (Suc i) = ?v ! ?x (Suc i + Suc d) + m \<and> stamp (?x (Suc i + Suc d)) < stamp (?x (Suc i))"
      using Suc.IH[of "Suc i"] Suc.prems by auto
    have idx: "i + Suc (Suc d) = Suc i + Suc d" by simp
    show ?case unfolding idx using w m by (intro exI[of _ "w + m"]) (auto simp: edge_def intro: depends_step)
  qed
  from walk_on_cycle[of ?N ?f "rx_updated rx"] recent obtain d where d: "0 < d" "d \<le> ?N" "?x (?N - d) = ?x ?N" by auto
  then have "?N - d + Suc (d - 1) = ?N" "?N - d + (d - 1) < ?N" by simp_all
  from chain[OF this(2)] this(1) d(3) show ?thesis unfolding cycle_predicate_def by auto
qed

section \<open>Outcomes\<close>

lemma fold_max_Max: "fold max xs 0 = Max (insert 0 (set xs))" for xs :: "nat list"
  using Max.set_eq_fold[of 0 xs] by simp

lemma fold_max_less: "0 < n \<Longrightarrow> fold max xs 0 < n \<longleftrightarrow> (\<forall>i<length xs. xs ! i < n)" for xs :: "nat list"
  by (simp add: fold_max_Max all_set_conv_all_nth)

lemma relaxation_init_simps [simp]:
  "length (rx_strata relaxation_init) = MAX_PREDICATES" "rx_changed relaxation_init" "below (rx_strata relaxation_init) level"
  by (simp_all add: relaxation_init_def below_def)

text \<open>The final relaxation of a declared program.\<close>

lemma relaxation_result:
  assumes "declared_rules rules"
  shows "\<exists>rx. relax_loop (MAX_PREDICATES + 1) rules relaxation_init = Inr rx \<and> length (rx_strata rx) = MAX_PREDICATES \<and>
    (\<forall>level. stratification rules level \<longrightarrow> below (rx_strata rx) level) \<and>
    (if rx_changed rx then (\<exists>m>0. depends rules (cycle_predicate rx) m (cycle_predicate rx)) \<and> (\<nexists>level. stratification rules level)
     else stratification rules ((!) (rx_strata rx)))"
proof -
  from relax_loop_spec[OF assms, of relaxation_init "MAX_PREDICATES + 1"] obtain rx where rx:
    "relax_loop (MAX_PREDICATES + 1) rules relaxation_init = Inr rx" "length (rx_strata rx) = MAX_PREDICATES"
    "\<forall>level. stratification rules level \<longrightarrow> below (rx_strata rx) level"
    "\<not> rx_changed rx \<longrightarrow> stratification rules ((!) (rx_strata rx))" by (auto simp del: relax_loop.simps)
  have "\<not> stratification rules level" if "0 < m" "depends rules x m x" for x m level
    using depends_level[OF that(2), of level] that(1) by auto
  then show ?thesis using rx cycle_predicate_certified[OF rx(1) _ assms] by (metis (full_types))
qed

lemma assign_strata_flags:
  assumes "assign_strata p rs d = (rc, rs', d')" "rc \<noteq> MAELYS_OK"
  shows "rs_negation_supported rs \<or> rs_aggregates_supported rs"
proof (rule ccontr)
  assume "\<not> ?thesis"
  then have "assign_strata p rs d = (MAELYS_OK, rs, d)" by (simp add: assign_strata_def)
  then show False using assms by simp
qed

lemma assign_strata_outcome:
  assumes "rs_negation_supported rs \<or> rs_aggregates_supported rs" "assign_strata p rs d = (rc, rs', d')"
    "relax_loop (MAX_PREDICATES + 1) (rs_rules rs) relaxation_init = Inr rx"
  shows "rx_changed rx \<Longrightarrow> rc = MAELYS_ERR_INVALID_FIELD \<and> \<not> rs_strata_assigned rs' \<and> dg_code d' = DIAG_POLICY_NOT_STRATIFIABLE \<and>
      dg_limit_kind d' = LIMIT_NONE \<and>
      (\<forall>e. predicate_registry_get (rs_registry rs) (cycle_predicate rx) = Some e \<longrightarrow>
        dg_predicate d' = copy_bounded 96 (pred_name e) \<and> dg_arity d' = pred_arity e)"
    and "\<not> rx_changed rx \<Longrightarrow> MAX_STRATA \<le> fold max (rx_strata rx) 0 \<Longrightarrow>
      rc = MAELYS_ERR_INVALID_FIELD \<and> \<not> rs_strata_assigned rs' \<and> dg_code d' = DIAG_POLICY_NOT_STRATIFIABLE \<and>
      dg_limit_kind d' = LIMIT_MAX_STRATA \<and> dg_count d' = fold max (rx_strata rx) 0 + 1 \<and> dg_limit d' = MAX_STRATA"
    and "\<not> rx_changed rx \<Longrightarrow> fold max (rx_strata rx) 0 < MAX_STRATA \<Longrightarrow>
      rc = MAELYS_OK \<and> d' = d \<and> rs' = rs\<lparr>rs_strata := rx_strata rx, rs_max_stratum := fold max (rx_strata rx) 0, rs_strata_assigned := True\<rparr>"
  using assms
  by (auto simp: assign_strata_def Let_def validation_diag_def diagnostic_set_def diagnostic_clear_def diagnostic_set_limit_def
      diagnostic_set_predicate_def simp del: relax_loop.simps split: option.splits)



end
