(* ===== verification/Validate.thy ===== *)
theory Validate
  imports Stratify
begin

unbundle bit_operations_syntax

text \<open>
  The validation of a lowered program (\<^verbatim>\<open>src/compiler/maelys_datalog_validate.c\<close>): terms, atoms, expressions and
  literals, the safety of the variables of a rule, and the pass over filters, facts and rules that decides whether
  a program may be evaluated. The masks of variables are the 32-bit words of the code.

  The diagnostic argument is present throughout (a null one only suppresses the writes). The array of clause
  origins holds its used prefix; the cells behind it are zero, which is \<open>no_origin\<close>.
\<close>

section \<open>Provenance of parsed clauses\<close>

definition MAX_ARITH_EXPR_NODES :: nat where "MAX_ARITH_EXPR_NODES = 32"

record clause_origin =
  co_first_rule :: nat
  co_first_filter :: nat
  co_first_pattern_byte :: nat
  co_first_fact :: nat
  co_end :: "nat \<times> nat"

record parse_origin =
  po_rules :: "clause_origin list"
  po_eof :: "nat \<times> nat"

definition no_origin :: clause_origin where
  "no_origin = \<lparr>co_first_rule = 0, co_first_filter = 0, co_first_pattern_byte = 0, co_first_fact = 0, co_end = (0, 0)\<rparr>"

definition origin_at :: "parse_origin \<Rightarrow> nat \<Rightarrow> clause_origin" where
  "origin_at origin i = (if i < length (po_rules origin) then po_rules origin ! i else no_origin)"

text \<open>\<^verbatim>\<open>origin && origin->rules[i].end.line\<close>: rule \<open>i\<close> comes from a parsed clause.\<close>

definition parsed_clause :: "parse_origin option \<Rightarrow> nat \<Rightarrow> bool" where
  "parsed_clause origin i \<longleftrightarrow> (case origin of None \<Rightarrow> False | Some o' \<Rightarrow> fst (co_end (origin_at o' i)) \<noteq> 0)"

definition rule_source :: "ruleset \<Rightarrow> nat \<Rightarrow> nat \<times> nat" where
  "rule_source r i = (if i < length (rs_rule_sources r) then rs_rule_sources r ! i else (0, 0))"

section \<open>Variables\<close>

definition variable_bit :: "term \<Rightarrow> 32 word" where
  "variable_bit t = push_bit (term_variable t) 1"

definition vars_in_atom :: "fact \<Rightarrow> 32 word \<Rightarrow> 32 word" where
  "vars_in_atom a vs =
     fold (\<lambda>t m. if is_var t \<and> term_variable t < MAX_RULE_VARIABLES then m OR variable_bit t else m) (terms a) vs"

fun vars_in_arith_expr :: "nat \<Rightarrow> rule \<Rightarrow> nat \<Rightarrow> 32 word \<Rightarrow> 32 word" where
  "vars_in_arith_expr 0 rule root vs = vs"
| "vars_in_arith_expr (Suc fuel) rule root vs =
     (if root \<ge> length (expr_nodes rule) \<or> root = ARITH_EXPR_NO_NODE then vs
      else
        let node = expr_nodes rule ! root;
            both = vars_in_arith_expr fuel rule (node_right node) (vars_in_arith_expr fuel rule (node_left node) vs)
        in case node_kind node of
          ARITH_VAR \<Rightarrow> if term_variable (node_term node) < MAX_RULE_VARIABLES then vs OR variable_bit (node_term node) else vs
        | ARITH_ADD \<Rightarrow> both
        | ARITH_SUB \<Rightarrow> both
        | ARITH_MUL \<Rightarrow> both
        | _ \<Rightarrow> vs)"

definition named_mask :: "32 word" where
  "named_mask = push_bit NAMED_VARIABLE_COUNT 1 - 1"

definition atom_vars :: "fact \<Rightarrow> 32 word" where
  "atom_vars a = vars_in_atom a 0"

definition comparison_vars :: "rule \<Rightarrow> literal \<Rightarrow> 32 word \<Rightarrow> 32 word" where
  "comparison_vars rule l vs =
     (if has_arith_expr l then
        vars_in_arith_expr (expr_fuel rule) rule (rhs_expr_root l)
          (vars_in_arith_expr (expr_fuel rule) rule (lhs_expr_root l) vs)
      else
        let vs = (if is_var (cmp_lhs l) \<and> term_variable (cmp_lhs l) < MAX_RULE_VARIABLES
                    then vs OR variable_bit (cmp_lhs l) else vs)
        in if is_var (cmp_rhs l) \<and> term_variable (cmp_rhs l) < MAX_RULE_VARIABLES
           then vs OR variable_bit (cmp_rhs l) else vs)"

section \<open>Safety of a rule\<close>

text \<open>A fault carries the message and the hint of its diagnostic, and whether the head predicate is named.\<close>

type_synonym fault = "string \<times> string \<times> bool"

definition positive_vars :: "rule \<Rightarrow> 32 word" where
  "positive_vars rule = fold (\<lambda>l m. case l of LIT_ATOM a \<Rightarrow> vars_in_atom a m | _ \<Rightarrow> m) (body rule) 0"

text \<open>
  The scope pass over the body: \<open>bound\<close> are the variables bound by positive atoms and by the results of aggregates,
  \<open>outside\<close> those that occur outside the source of an aggregate or as one of its group keys.
\<close>

definition aggregate_keys :: "fact \<Rightarrow> term \<Rightarrow> 32 word" where
  "aggregate_keys a lhs = (atom_vars a AND named_mask) AND NOT (variable_bit lhs)"

fun scope_pass :: "rule \<Rightarrow> 32 word \<Rightarrow> literal list \<Rightarrow> 32 word \<times> 32 word \<Rightarrow> fault + (32 word \<times> 32 word)" where
  "scope_pass rule positive [] acc = Inr acc"
| "scope_pass rule positive (l # ls) (bound, outside) =
     (case l of
        LIT_AGGREGATE kind a lhs rhs \<Rightarrow>
          if term_variable lhs = term_variable rhs \<or> (atom_vars a AND variable_bit lhs) = 0 \<or>
             (atom_vars a AND variable_bit rhs) \<noteq> 0 then
            Inl (''aggregate result variable must differ from the projected variable and must not occur in the source atom'',
                 ''use count(U, member(G,U), N): project a source variable U and use a distinct result N outside the source atom'',
                 False)
          else if (aggregate_keys a lhs AND NOT positive) \<noteq> 0 then
            Inl (''aggregate group variable is not positively bound'',
                 ''bind group keys in ordinary positive body atoms'', False)
          else scope_pass rule positive ls
                 (bound OR variable_bit rhs, outside OR variable_bit rhs OR aggregate_keys a lhs)
      | LIT_NEGATED_ATOM a \<Rightarrow> scope_pass rule positive ls (bound, vars_in_atom a outside)
      | LIT_FILTER _ _ v \<Rightarrow>
          scope_pass rule positive ls (bound, if is_var v then outside OR variable_bit v else outside)
      | LIT_COMPARISON lhs _ rhs has lroot rroot \<Rightarrow>
          scope_pass rule positive ls (bound,
            if has then vars_in_arith_expr (expr_fuel rule) rule rroot (vars_in_arith_expr (expr_fuel rule) rule lroot outside)
            else outside OR (if is_var lhs then variable_bit lhs else 0) OR (if is_var rhs then variable_bit rhs else 0))
      | _ \<Rightarrow> scope_pass rule positive ls (bound, outside))"

definition aggregate_locals :: "fact \<Rightarrow> term \<Rightarrow> 32 word" where
  "aggregate_locals a lhs = (atom_vars a AND NOT named_mask) OR variable_bit lhs"

definition local_escapes :: "32 word \<Rightarrow> literal \<Rightarrow> bool" where
  "local_escapes outside l \<longleftrightarrow>
     (case l of LIT_AGGREGATE _ a lhs _ \<Rightarrow> (outside AND aggregate_locals a lhs) \<noteq> 0 | _ \<Rightarrow> False)"

definition filter_unbound :: "32 word \<Rightarrow> literal \<Rightarrow> bool" where
  "filter_unbound bound l \<longleftrightarrow>
     (case l of
        LIT_FILTER _ _ v \<Rightarrow> is_var v \<and> term_variable v < MAX_RULE_VARIABLES \<and> (variable_bit v AND NOT bound) \<noteq> 0
      | _ \<Rightarrow> False)"

definition comparison_unbound :: "rule \<Rightarrow> 32 word \<Rightarrow> literal \<Rightarrow> bool" where
  "comparison_unbound rule bound l \<longleftrightarrow>
     (case l of LIT_COMPARISON _ _ _ _ _ _ \<Rightarrow> (comparison_vars rule l 0 AND NOT bound) \<noteq> 0 | _ \<Rightarrow> False)"

definition negation_unbound :: "32 word \<Rightarrow> literal \<Rightarrow> bool" where
  "negation_unbound bound l \<longleftrightarrow>
     (case l of LIT_NEGATED_ATOM a \<Rightarrow> (atom_vars a AND NOT bound) \<noteq> 0 | _ \<Rightarrow> False)"

definition rule_fault :: "rule \<Rightarrow> fault option" where
  "rule_fault rule =
     (let head_vars = atom_vars (head rule); positive = positive_vars rule
      in case scope_pass rule positive (body rule) (positive, head_vars OR positive) of
           Inl fault \<Rightarrow> Some fault
         | Inr (bound, outside) \<Rightarrow>
             if list_ex (local_escapes outside) (body rule) then
               Some (''aggregate local variable escapes its scope'',
                     ''use distinct variables for local projection and existential terms'', False)
             else if list_ex (filter_unbound bound) (body rule) then
               Some (''filter variable not bound by positive body atom'',
                     ''bind the filter value in a positive body atom first'', True)
             else if list_ex (comparison_unbound rule bound) (body rule) then
               Some (''comparison variable not bound by positive body atom'',
                     ''bind all comparison variables in positive body atoms first'', True)
             else if list_ex (negation_unbound bound) (body rule) then
               Some (''negated atom variable not bound by positive body atom'',
                     ''bind all not() variables in positive body atoms first'', True)
             else if (head_vars AND NOT bound) \<noteq> 0 then
               Some (''head variable not bound by positive body atom'',
                     ''bind every head variable in a positive body atom'', True)
             else None)"

definition directly_recursive :: "rule \<Rightarrow> bool" where
  "directly_recursive rule \<longleftrightarrow>
     list_ex (\<lambda>l. case l of LIT_ATOM a \<Rightarrow> predicate_id a = predicate_id (head rule) | _ \<Rightarrow> False) (body rule)"

definition validate_rule ::
  "validation_context \<Rightarrow> ruleset \<Rightarrow> rule \<Rightarrow> diagnostic \<Rightarrow> maelys_result \<times> ruleset \<times> diagnostic" where
  "validate_rule p r rule diag =
     (let r = (if directly_recursive rule then r\<lparr>rs_has_positive_recursion := True\<rparr> else r)
      in case rule_fault rule of
           None \<Rightarrow> (MAELYS_OK, r, diag)
         | Some (message, hint, named) \<Rightarrow>
             let d = validation_diag p DIAG_PARSER_UNSAFE_VARIABLE message hint
             in (MAELYS_ERR_INVALID_FIELD, r,
                 case predicate_registry_get (rs_registry r) (predicate_id (head rule)) of
                   Some e \<Rightarrow> if named then diagnostic_set_predicate (pred_name e) (pred_arity e) d else d
                 | None \<Rightarrow> d))"

section \<open>Well-formed terms, atoms, expressions and literals\<close>

fun valid_term :: "ruleset \<Rightarrow> term \<Rightarrow> bool \<Rightarrow> bool" where
  "valid_term r (TERM_SYMBOL s) variables = symbol_id_is_valid (rs_symbols r) s"
| "valid_term r (TERM_INT i) variables = (0 \<le> i \<and> i \<le> MAX_INT)"
| "valid_term r (TERM_BOOL b) variables = (b = 0 \<or> b = 1)"
| "valid_term r (TERM_VAR v) variables = (variables \<and> v < MAX_RULE_VARIABLES)"
| "valid_term r (TERM_NOKIND _) variables = False"

definition valid_atom :: "ruleset \<Rightarrow> fact \<Rightarrow> bool \<Rightarrow> bool" where
  "valid_atom r a variables =
     (case predicate_registry_get (rs_registry r) (predicate_id a) of
        None \<Rightarrow> False
      | Some d \<Rightarrow> arity a \<le> MAX_TERMS \<and> arity a = pred_arity d \<and> list_all (\<lambda>t. valid_term r t variables) (terms a))"

text \<open>
  The loop over the expression nodes; \<open>expanded\<close> holds the sizes of the expanded trees of the nodes before, so the
  position of a node is its length.
\<close>

definition node_operands :: "ruleset \<Rightarrow> arith_expr_node \<Rightarrow> nat list \<Rightarrow> nat option" where
  "node_operands r n expanded =
     (case node_kind n of
        ARITH_INT_LITERAL \<Rightarrow> if term_kind (node_term n) = 2 \<and> valid_term r (node_term n) True then Some 0 else None
      | ARITH_VAR \<Rightarrow> if term_kind (node_term n) = 4 \<and> valid_term r (node_term n) True then Some 0 else None
      | ARITH_OTHER _ \<Rightarrow> None
      | _ \<Rightarrow>
          if node_left n \<ge> length expanded \<or> node_right n \<ge> length expanded then None
          else Some (expanded ! node_left n + expanded ! node_right n))"

fun expressions_loop :: "ruleset \<Rightarrow> arith_expr_node list \<Rightarrow> nat list \<Rightarrow> bool" where
  "expressions_loop r [] expanded = True"
| "expressions_loop r (n # ns) expanded =
     (case node_operands r n expanded of
        None \<Rightarrow> False
      | Some k \<Rightarrow> k + 1 \<le> MAX_ARITH_EXPR_NODES \<and> expressions_loop r ns (expanded @ [k + 1]))"

definition valid_expressions :: "ruleset \<Rightarrow> rule \<Rightarrow> bool" where
  "valid_expressions r rule \<longleftrightarrow> length (expr_nodes rule) \<le> MAX_ARITH_EXPR_NODES \<and> expressions_loop r (expr_nodes rule) []"

fun cmp_op_known :: "cmp_op \<Rightarrow> bool" where
  "cmp_op_known (CMP_OTHER _) = False"
| "cmp_op_known _ = True"

definition cmp_op_ordering :: "cmp_op \<Rightarrow> bool" where
  "cmp_op_ordering op \<longleftrightarrow> op \<noteq> CMP_EQ \<and> op \<noteq> CMP_NEQ"

definition valid_comparison :: "ruleset \<Rightarrow> rule \<Rightarrow> literal \<Rightarrow> bool" where
  "valid_comparison r rule l \<longleftrightarrow> cmp_op_known (cmp_operator l) \<and>
     (if has_arith_expr l then
        lhs_expr_root l < length (expr_nodes rule) \<and> rhs_expr_root l < length (expr_nodes rule)
      else
        valid_term r (cmp_lhs l) True \<and> valid_term r (cmp_rhs l) True \<and>
        (\<not> is_var (cmp_lhs l) \<and> \<not> is_var (cmp_rhs l) \<longrightarrow>
           term_kind (cmp_lhs l) = term_kind (cmp_rhs l) \<and>
           \<not> (term_kind (cmp_lhs l) \<noteq> 2 \<and> cmp_op_ordering (cmp_operator l))))"

definition valid_aggregate :: "ruleset \<Rightarrow> fact \<Rightarrow> term \<Rightarrow> term \<Rightarrow> bool \<Rightarrow> bool" where
  "valid_aggregate r a lhs rhs check_variables \<longleftrightarrow>
     valid_atom r a True \<and> is_var lhs \<and> is_var rhs \<and> valid_term r lhs True \<and> valid_term r rhs True \<and>
     term_variable lhs < NAMED_VARIABLE_COUNT \<and> term_variable rhs < NAMED_VARIABLE_COUNT \<and>
     (check_variables \<longrightarrow>
        term_variable lhs \<noteq> term_variable rhs \<and> (atom_vars a AND variable_bit lhs) \<noteq> 0 \<and>
        (atom_vars a AND variable_bit rhs) = 0)"

fun valid_literal_impl :: "ruleset \<Rightarrow> rule \<Rightarrow> literal \<Rightarrow> bool \<Rightarrow> bool" where
  "valid_literal_impl r rule (LIT_ATOM a) check = valid_atom r a True"
| "valid_literal_impl r rule (LIT_NEGATED_ATOM a) check = valid_atom r a True"
| "valid_literal_impl r rule (LIT_COMPARISON l op rh h i j) check = valid_comparison r rule (LIT_COMPARISON l op rh h i j)"
| "valid_literal_impl r rule (LIT_AGGREGATE kind a lhs rhs) check = valid_aggregate r a lhs rhs check"
| "valid_literal_impl r rule (LIT_FILTER kind idx v) check \<longleftrightarrow>
     idx < length (rs_filter_programs r) \<and> (term_kind v = 1 \<or> term_kind v = 4) \<and> valid_term r v True \<and>
     program_kind (rs_filter_programs r ! idx) = kind"
| "valid_literal_impl r rule (LIT_OTHER _) check = False"

definition valid_literal :: "ruleset \<Rightarrow> rule \<Rightarrow> literal \<Rightarrow> bool" where
  "valid_literal r rule l = valid_literal_impl r rule l True"

section \<open>The whole program\<close>

type_synonym validation = "maelys_result \<times> ruleset \<times> diagnostic"

text \<open>
  \<^verbatim>\<open>reject_parsed_clause\<close>: the program is cut back to the checkpoint of the clause, and the diagnostic points at
  its final dot.
\<close>

definition reject_parsed_clause :: "parse_origin option \<Rightarrow> nat \<Rightarrow> ruleset \<Rightarrow> diagnostic \<Rightarrow> ruleset \<times> diagnostic" where
  "reject_parsed_clause origin index r diag =
     (if \<not> parsed_clause origin index then (r, diag)
      else
        let c = origin_at (the origin) index;
            rules = take (co_first_rule c) (rs_rules r)
        in (r\<lparr>rs_rules := rules, rs_rule_sources := take (co_first_rule c) (rs_rule_sources r),
              rs_facts := take (co_first_fact c) (rs_facts r),
              rs_filter_programs := take (co_first_filter c) (rs_filter_programs r),
              rs_filter_pattern_pool := take (co_first_pattern_byte c) (rs_filter_pattern_pool r),
              rs_has_positive_recursion := list_ex directly_recursive rules\<rparr>,
            diag\<lparr>dg_line := fst (co_end c), dg_column := snd (co_end c), dg_token := ''.''\<rparr>))"

definition reject :: "parse_origin option \<Rightarrow> nat \<Rightarrow> validation \<Rightarrow> validation" where
  "reject origin index v = (case v of (rc, r, diag) \<Rightarrow> (rc, reject_parsed_clause origin index r diag))"

definition malformed :: "string \<Rightarrow> nat \<times> nat \<Rightarrow> ruleset \<Rightarrow> validation" where
  "malformed file pos r =
     (MAELYS_ERR_INVALID_FIELD, r,
      diagnostic_set DIAG_MALFORMED_PROGRAM ''validate'' file (fst pos) (snd pos) ''malformed intermediate program''
        ''check term kinds, predicate roles, expression indices and program bounds'')"

text \<open>The first rule, if any, with a filter literal that refers to program \<open>i\<close>.\<close>

definition uses_filter :: "nat \<Rightarrow> rule \<Rightarrow> bool" where
  "uses_filter i rule \<longleftrightarrow>
     list_ex (\<lambda>l. case l of LIT_FILTER _ idx _ \<Rightarrow> idx = i | _ \<Rightarrow> False) (take MAX_BODY_LITERALS (body rule))"

fun filter_user :: "nat \<Rightarrow> rule list \<Rightarrow> nat \<Rightarrow> nat option" where
  "filter_user i [] k = None"
| "filter_user i (rule # rules) k = (if uses_filter i rule then Some k else filter_user i rules (k + 1))"

definition filter_rejected :: "string \<Rightarrow> parse_origin option \<Rightarrow> nat \<Rightarrow> maelys_result \<Rightarrow> ruleset \<Rightarrow> validation" where
  "filter_rejected file origin i rc r =
     (let d = diagnostic_set DIAG_PARSER_INVALID_FILTER ''validate'' file 0 0 ''invalid filter program''
                ''check the provider and pattern''
      in case (if origin = None then None else filter_user i (rs_rules r) 0) of
           None \<Rightarrow> (rc, r, d)
         | Some k \<Rightarrow>
             reject origin k (rc, r,
               if parsed_clause origin k then
                 diagnostic_set DIAG_PARSER_INVALID_FILTER ''parser'' file 0 0 ''filter module rejected the pattern''
                   ''use a pattern supported by the registered filter module''
               else d))"

fun validate_filters ::
  "string \<Rightarrow> parse_origin option \<Rightarrow> ruleset \<Rightarrow> filter_program list \<Rightarrow> nat \<Rightarrow> validation option" where
  "validate_filters file origin r [] i = None"
| "validate_filters file origin r (f # fs) i =
     (let used = length (rs_filter_pattern_pool r)
      in if pattern_length f > MAX_FILTER_PATTERN_BYTES \<or> pattern_offset f > used \<or> pattern_length f > used - pattern_offset f
         then Some (malformed file (0, 0) r)
         else
           let rc = filter_validate_in (ctx_filters (rs_modules r)) (program_kind f)
                      (take (pattern_length f) (drop (pattern_offset f) (rs_filter_pattern_pool r)))
           in if rc \<noteq> MAELYS_OK then Some (filter_rejected file origin i rc r)
              else validate_filters file origin r fs (i + 1))"

definition valid_fact :: "ruleset \<Rightarrow> fact \<Rightarrow> bool" where
  "valid_fact r f \<longleftrightarrow> valid_atom r f False \<and>
     (case predicate_registry_get (rs_registry r) (predicate_id f) of
        None \<Rightarrow> False | Some d \<Rightarrow> (kind_flags d AND PRED_KIND_POLICY_FACT) \<noteq> 0)"

definition mark_features :: "literal \<Rightarrow> ruleset \<Rightarrow> ruleset" where
  "mark_features l r =
     (let r = (case l of LIT_NEGATED_ATOM _ \<Rightarrow> r\<lparr>rs_negation_supported := True\<rparr> | _ \<Rightarrow> r)
      in if literal_is_aggregate l then r\<lparr>rs_aggregates_supported := True\<rparr> else r)"

text \<open>
  The loop over the literals of rule \<open>i\<close>: the flags of the language features in use, or the failure at the first
  invalid literal. A parsed rule is given the diagnostic of its unsafe variable when that is the only fault.
\<close>

fun validate_literals ::
  "validation_context \<Rightarrow> parse_origin option \<Rightarrow> nat \<Rightarrow> rule \<Rightarrow> diagnostic \<Rightarrow> literal list \<Rightarrow> ruleset \<Rightarrow> validation + ruleset" where
  "validate_literals p origin i rule diag [] r = Inr r"
| "validate_literals p origin i rule diag (l # ls) r =
     (if \<not> valid_literal r rule l then
        Inl (if parsed_clause origin i \<and> valid_literal_impl r rule l False then
               (case validate_rule p r rule diag of
                  (rc, r', d) \<Rightarrow>
                    if rc \<noteq> MAELYS_OK then reject origin i (rc, r', d) else malformed (vc_file p) (vc_line p, vc_column p) r')
             else malformed (vc_file p) (vc_line p, vc_column p) r)
      else validate_literals p origin i rule diag ls (mark_features l r))"

definition base_head :: "predicate_entry \<Rightarrow> bool" where
  "base_head d \<longleftrightarrow> (kind_flags d AND PRED_KIND_IDB) = 0 \<or> (kind_flags d AND (PRED_KIND_EDB OR PRED_KIND_POLICY_FACT)) \<noteq> 0"

definition validate_rule_at ::
  "string \<Rightarrow> parse_origin option \<Rightarrow> diagnostic \<Rightarrow> nat \<Rightarrow> rule \<Rightarrow> ruleset \<Rightarrow> validation + ruleset" where
  "validate_rule_at file origin diag i rule r =
     (let (line, column) = rule_source r i;
          p = \<lparr>vc_file = file, vc_line = line, vc_column = column\<rparr>
      in if rule_id rule \<noteq> i + 1 \<or> body rule = [] \<or> length (body rule) > MAX_BODY_LITERALS \<or>
            \<not> valid_atom r (head rule) True \<or> \<not> valid_expressions r rule then Inl (malformed file (line, column) r)
         else
           let hd_def = the (predicate_registry_get (rs_registry r) (predicate_id (head rule)))
           in if base_head hd_def then
                Inl (if parsed_clause origin i then
                       reject origin i (MAELYS_ERR_INVALID_FIELD, r,
                         diagnostic_set_predicate (pred_name hd_def) (pred_arity hd_def)
                           (validation_diag p DIAG_PARSER_RULE_HEAD_EDB_FORBIDDEN ''base predicate used in rule head''
                              ''EDB/runtime and policy fact predicates cannot appear in rule heads''))
                     else malformed file (line, column) r)
              else case validate_literals p origin i rule diag (body rule) r of
                Inl v \<Rightarrow> Inl v
              | Inr r' \<Rightarrow>
                  (case validate_rule p r' rule diag of
                     (rc, r'', d) \<Rightarrow> if rc \<noteq> MAELYS_OK then Inl (reject origin i (rc, r'', d)) else Inr r''))"

fun validate_rules ::
  "string \<Rightarrow> parse_origin option \<Rightarrow> diagnostic \<Rightarrow> nat \<Rightarrow> rule list \<Rightarrow> ruleset \<Rightarrow> validation + ruleset" where
  "validate_rules file origin diag i [] r = Inr r"
| "validate_rules file origin diag i (rule # rules) r =
     (case validate_rule_at file origin diag i rule r of
        Inl v \<Rightarrow> Inl v
      | Inr r' \<Rightarrow> validate_rules file origin diag (i + 1) rules r')"

definition within_bounds :: "ruleset \<Rightarrow> bool" where
  "within_bounds r \<longleftrightarrow>
     length (defs (rs_registry r)) \<le> MAX_PREDICATES \<and> length (rs_rules r) \<le> MAX_RULES \<and>
     length (rs_facts r) \<le> MAX_RULE_FACTS \<and> length (rs_filter_programs r) \<le> MAX_FILTER_PROGRAMS \<and>
     length (rs_filter_pattern_pool r) \<le> FILTER_PATTERN_POOL_BYTES"

text \<open>Where a fault of the whole program is reported: the end of the source, or the last rule.\<close>

definition program_position :: "parse_origin option \<Rightarrow> ruleset \<Rightarrow> nat \<times> nat" where
  "program_position origin r =
     (let last_rule = (if rs_rules r = [] then (0, 0) else rule_source r (length (rs_rules r) - 1))
      in case origin of
           Some o' \<Rightarrow> if fst (po_eof o') \<noteq> 0 then po_eof o' else last_rule
         | None \<Rightarrow> last_rule)"

definition validate_program_impl ::
  "ruleset \<Rightarrow> string \<Rightarrow> parse_origin option \<Rightarrow> diagnostic \<Rightarrow> bool \<Rightarrow> validation" where
  "validate_program_impl r file origin diag strata =
     (if \<not> rs_loaded r \<or> \<not> frozen (rs_registry r) then (MAELYS_ERR_INVALID_STATE, r, diag)
      else
        let r = r\<lparr>rs_program_validated := False, rs_aggregates_supported := False, rs_compiled_fingerprint := []\<rparr>
        in if \<not> within_bounds r then malformed file (0, 0) r
           else case validate_filters file origin r (rs_filter_programs r) 0 of
             Some v \<Rightarrow> v
           | None \<Rightarrow>
               if \<not> list_all (valid_fact r) (rs_facts r) then malformed file (0, 0) r
               else case validate_rules file origin diag 0 (rs_rules r) r of
                 Inl v \<Rightarrow> v
               | Inr r' \<Rightarrow>
                   if \<not> strata then (MAELYS_OK, r', diag)
                   else
                     let (line, column) = program_position origin r'
                     in case assign_strata \<lparr>vc_file = file, vc_line = line, vc_column = column\<rparr> r' diag of
                          (rc, r'', d) \<Rightarrow>
                            (rc, if rc = MAELYS_OK then r''\<lparr>rs_program_validated := True\<rparr> else r'', d))"

definition validate_program :: "ruleset \<Rightarrow> string \<Rightarrow> parse_origin option \<Rightarrow> diagnostic \<Rightarrow> validation" where
  "validate_program r file origin diag = validate_program_impl r file origin diag True"

definition validate_parsed_prefix :: "ruleset \<Rightarrow> string \<Rightarrow> parse_origin option \<Rightarrow> diagnostic \<Rightarrow> validation" where
  "validate_parsed_prefix r file origin diag = validate_program_impl r file origin diag False"

end
