(* ===== verification/Derive.thy ===== *)
theory Derive
  imports Join_Plan
begin

unbundle bit_operations_syntax

text \<open>
  Deriving the heads of one rule (\<^verbatim>\<open>src/core/maelys_datalog_solver.c\<close>): the nested scans over the candidates
  of each body literal, in lexical order (\<^verbatim>\<open>solve_once_derive_recursive\<close>) or in the order of a join plan
  (\<^verbatim>\<open>solve_once_derive_ordered\<close>). The two recursions share everything but the choice of the next literal, so the
  treatment of one literal is a definition that takes the rest of the recursion as an argument. \<open>False\<close> is the
  fatal outcome 0, \<open>True\<close> the outcome 1.

  The lemmas show that a successful run derives exactly the heads of the valuations that satisfy the body.
\<close>

section \<open>Scanning candidates\<close>

text \<open>A candidate: the fact, the proof parent handed on, its origin and its proof node for the witness.\<close>

type_synonym candidate = "fact \<times> nat \<times> origin \<times> nat"

fun scan :: "('c \<Rightarrow> solve_state \<Rightarrow> bool \<times> solve_state) \<Rightarrow> 'c list \<Rightarrow> solve_state \<Rightarrow> bool \<times> solve_state" where
  "scan f [] st = (True, st)"
| "scan f (c # cs) st = (case f c st of (ok, st') \<Rightarrow> if ok then scan f cs st' else (False, st'))"

definition plain_candidates :: "nat \<Rightarrow> origin \<Rightarrow> fact list \<Rightarrow> candidate list" where
  "plain_candidates parent org fs = map (\<lambda>f. (f, parent, org, EXPLANATION_NO_STEP)) fs"

definition idb_candidates :: "nat \<Rightarrow> nat \<Rightarrow> nat \<Rightarrow> solve_state \<Rightarrow> candidate list" where
  "idb_candidates parent b n st =
     map (\<lambda>(f, p). (f, parent, ORIGIN_IDB, p)) (zip (take n (drop b (idb_facts st))) (take n (drop b (idb_proof_index st))))"

definition delta_candidates :: "solve_state \<Rightarrow> candidate list" where
  "delta_candidates st =
     map (\<lambda>(f, p). (f, p, ORIGIN_IDB, p))
       (zip (segment (idb_delta_begin st) (idb_delta_end st) (idb_facts st))
            (segment (idb_delta_begin st) (idb_delta_end st) (idb_proof_index st)))"

type_synonym continuation = "bindings \<Rightarrow> nat \<Rightarrow> solve_state \<Rightarrow> bool \<times> solve_state"

definition match_candidate ::
  "ruleset \<Rightarrow> nat \<Rightarrow> fact \<Rightarrow> bindings \<Rightarrow> continuation \<Rightarrow> candidate \<Rightarrow> solve_state \<Rightarrow> bool \<times> solve_state" where
  "match_candidate rs li atom b k = (\<lambda>(cand, parent, org, proof) st.
     if \<not> fact_structurally_valid (rs_registry rs) cand then (False, set_invalid_fact (rs_registry rs) cand st)
     else if predicate_id cand \<noteq> predicate_id atom \<or> arity cand \<noteq> arity atom then (True, st)
     else case match_terms b (terms atom) (terms cand) of
       None \<Rightarrow> (True, st)
     | Some next_b \<Rightarrow> k next_b parent (witness_record_positive li org cand proof st))"

text \<open>One stage of the scan of an atom follows the previous one unless that was fatal.\<close>

definition and_then :: "bool \<times> solve_state \<Rightarrow> (solve_state \<Rightarrow> bool \<times> solve_state) \<Rightarrow> bool \<times> solve_state" where
  "and_then r g = (case r of (ok, st) \<Rightarrow> if ok then g st else (False, st))"

definition derive_atom ::
  "ruleset \<Rightarrow> nat \<Rightarrow> fact \<Rightarrow> nat option \<Rightarrow> bindings \<Rightarrow> nat \<Rightarrow> continuation \<Rightarrow> solve_state \<Rightarrow> bool \<times> solve_state" where
  "derive_atom rs li atom delta b parent k st =
     (let m = match_candidate rs li atom b k; pid = predicate_id atom
      in case predicate_registry_get (rs_registry rs) pid of
        None \<Rightarrow> (True, st)
      | Some d \<Rightarrow>
          if delta = Some li then scan m (delta_candidates st) st
          else
            and_then (if (kind_flags d AND PRED_KIND_POLICY_FACT) \<noteq> 0
                      then scan m (plain_candidates parent ORIGIN_POLICY_FACT (rs_facts rs)) st else (True, st))
              (\<lambda>st. and_then (if (kind_flags d AND PRED_KIND_EDB) \<noteq> 0
                      then scan m (plain_candidates parent ORIGIN_EDB (edb_slice st pid)) st else (True, st))
              (\<lambda>st. if (kind_flags d AND PRED_KIND_IDB) \<noteq> 0 then
                      (case idb_scan_window rs st pid of
                         None \<Rightarrow> (False, set_invalid_state st)
                       | Some (start, n) \<Rightarrow> scan m (idb_candidates parent start n st) st)
                    else (True, st))))"

definition derive_literal ::
  "ruleset \<Rightarrow> rule \<Rightarrow> nat \<Rightarrow> nat option \<Rightarrow> bindings \<Rightarrow> nat \<Rightarrow> continuation \<Rightarrow> solve_state \<Rightarrow> bool \<times> solve_state" where
  "derive_literal rs rule li delta b parent k st =
     (let lit = body rule ! li
      in case lit of
        LIT_ATOM atom \<Rightarrow> derive_atom rs li atom delta b parent k st
      | LIT_COMPARISON _ op _ _ _ _ \<Rightarrow>
          (case evaluate_comparison_literal rule lit b st of
             (EVAL_FATAL, st') \<Rightarrow> (False, st')
           | (EVAL_NO, st') \<Rightarrow> (True, st')
           | (EVAL_YES (l, r), st') \<Rightarrow> k b parent (witness_record_comparison li op l r st'))
      | LIT_FILTER kind idx _ \<Rightarrow>
          (case evaluate_filter_literal rs lit b st of
             (EVAL_FATAL, st') \<Rightarrow> (False, st')
           | (EVAL_NO, st') \<Rightarrow> (True, st')
           | (EVAL_YES v, st') \<Rightarrow> k b parent (witness_record_filter li idx kind v st'))
      | LIT_AGGREGATE _ _ _ _ \<Rightarrow>
          (case solve_aggregate_literal lit li b st of
             (EVAL_FATAL, st') \<Rightarrow> (False, st')
           | (EVAL_NO, st') \<Rightarrow> (True, st')
           | (EVAL_YES next_b, st') \<Rightarrow> k next_b parent st')
      | LIT_NEGATED_ATOM _ \<Rightarrow>
          (case solve_negated_literal rs lit b st of
             None \<Rightarrow> (True, st)
           | Some (q, org) \<Rightarrow> k b parent (witness_record_negation li org q st))
      | LIT_OTHER _ \<Rightarrow> (False, set_invalid_state st))"

definition derive_head :: "rule \<Rightarrow> nat \<Rightarrow> continuation" where
  "derive_head rule depth b parent st =
     (case instantiate_atom b (head rule) of
        None \<Rightarrow> (True, st)
      | Some f \<Rightarrow> append_idb_merge f (rule_id rule) depth parent rule st)"

text \<open>The outermost entry of a rule application.\<close>

definition enter_rule :: "rule \<Rightarrow> solve_state \<Rightarrow> solve_state" where
  "enter_rule rule st = st\<lparr>witness_filled_mask := 0, head_may_be_in_base := head_in_base_check st rule\<rparr>"

function derive_recursive :: "ruleset \<Rightarrow> rule \<Rightarrow> nat \<Rightarrow> nat option \<Rightarrow> nat \<Rightarrow> continuation" where
  "derive_recursive rs rule li delta depth b parent st0 =
     (let st = (if li = 0 then enter_rule rule st0 else st0)
      in if li \<ge> length (body rule) then derive_head rule depth b parent st
         else derive_literal rs rule li delta b parent (derive_recursive rs rule (li + 1) delta depth) st)"
  by pat_completeness auto
termination by (relation "measure (\<lambda>(rs, rule, li, _). length (body rule) - li)") auto

text \<open>The rest of a join order; the entry at its first position is \<open>derive_planned\<close>.\<close>

fun derive_ordered :: "ruleset \<Rightarrow> rule \<Rightarrow> nat option \<Rightarrow> nat \<Rightarrow> nat list \<Rightarrow> continuation" where
  "derive_ordered rs rule delta depth [] b parent st = derive_head rule depth b parent st"
| "derive_ordered rs rule delta depth (li # order) b parent st =
     (if li \<ge> length (body rule) then (False, st)
      else derive_literal rs rule li delta b parent (derive_ordered rs rule delta depth order) st)"

definition derive_planned ::
  "ruleset \<Rightarrow> rule \<Rightarrow> nat option \<Rightarrow> nat \<Rightarrow> nat list \<Rightarrow> bindings \<Rightarrow> nat \<Rightarrow> solve_state \<Rightarrow> bool \<times> solve_state" where
  "derive_planned rs rule delta depth order b parent st =
     derive_ordered rs rule delta depth order b parent (enter_rule rule st)"

section \<open>Lexical evaluation is evaluation in the order of the body\<close>

declare derive_recursive.simps [simp del]

lemma derive_recursive_rest:
  "0 < li \<Longrightarrow> li \<le> length (body rule) \<Longrightarrow>
     derive_recursive rs rule li delta depth = derive_ordered rs rule delta depth [li..<length (body rule)]"
proof (induction "length (body rule) - li" arbitrary: li)
  case 0
  then show ?case by (intro ext) (simp add: derive_recursive.simps)
next
  case (Suc n)
  then have li: "li < length (body rule)" by simp
  have "derive_recursive rs rule (li + 1) delta depth = derive_ordered rs rule delta depth [li + 1..<length (body rule)]"
    using Suc.hyps(1)[of "li + 1"] Suc.hyps(2) li by simp
  then show ?case using li Suc.prems(1)
    by (intro ext) (simp add: derive_recursive.simps upt_conv_Cons)
qed

lemma derive_recursive_planned:
  "derive_recursive rs rule 0 delta depth b parent st = derive_planned rs rule delta depth [0..<length (body rule)] b parent st"
proof (cases "body rule")
  case Nil
  then show ?thesis by (simp add: derive_recursive.simps derive_planned_def)
next
  case (Cons l ls)
  then have "derive_recursive rs rule 1 delta depth = derive_ordered rs rule delta depth [1..<length (body rule)]"
    using derive_recursive_rest[of 1 rule] by simp
  then show ?thesis using Cons
    by (simp add: derive_recursive.simps[of _ _ 0] derive_planned_def upt_conv_Cons del: upt_Suc)
qed

section \<open>What a literal means in a state\<close>

text \<open>
  The derived facts an atom is matched against, and all its candidates. The windows end at
  \<^verbatim>\<open>idb_current_end\<close>, so the facts appended while a rule is applied are not among them.
\<close>

definition window_facts :: "ruleset \<Rightarrow> solve_state \<Rightarrow> nat \<Rightarrow> fact set" where
  "window_facts rs st pid =
     (case idb_scan_window rs st pid of None \<Rightarrow> {} | Some (start, n) \<Rightarrow> set (take n (drop start (idb_facts st))))"

definition atom_candidates :: "ruleset \<Rightarrow> solve_state \<Rightarrow> bool \<Rightarrow> fact \<Rightarrow> fact set" where
  "atom_candidates rs st is_delta atom =
     (case predicate_registry_get (rs_registry rs) (predicate_id atom) of
        None \<Rightarrow> {}
      | Some d \<Rightarrow>
          if is_delta then set (segment (idb_delta_begin st) (idb_delta_end st) (idb_facts st))
          else (if (kind_flags d AND PRED_KIND_POLICY_FACT) \<noteq> 0 then set (rs_facts rs) else {}) \<union>
               (if (kind_flags d AND PRED_KIND_EDB) \<noteq> 0 then set (edb_slice st (predicate_id atom)) else {}) \<union>
               (if (kind_flags d AND PRED_KIND_IDB) \<noteq> 0 then window_facts rs st (predicate_id atom) else {}))"

definition literal_true :: "ruleset \<Rightarrow> rule \<Rightarrow> solve_state \<Rightarrow> nat option \<Rightarrow> (nat \<Rightarrow> term) \<Rightarrow> nat \<Rightarrow> bool" where
  "literal_true rs rule st delta \<sigma> li \<longleftrightarrow>
     (case body rule ! li of
        LIT_ATOM atom \<Rightarrow> inst \<sigma> atom \<in> atom_candidates rs st (delta = Some li) atom
      | LIT_COMPARISON _ _ _ _ _ _ \<Rightarrow> comparison_holds rule (body rule ! li) \<sigma>
      | LIT_FILTER _ _ _ \<Rightarrow> filter_holds rs (sr_symbols st) (body rule ! li) \<sigma>
      | LIT_NEGATED_ATOM _ \<Rightarrow> negation_holds rs (body rule ! li) st \<sigma>
      | LIT_AGGREGATE _ _ _ _ \<Rightarrow> aggregate_holds (body rule ! li) st \<sigma>
      | LIT_OTHER _ \<Rightarrow> False)"

text \<open>The heads of the valuations that satisfy the body of a rule.\<close>

definition rule_heads :: "ruleset \<Rightarrow> rule \<Rightarrow> solve_state \<Rightarrow> nat option \<Rightarrow> fact set" where
  "rule_heads rs rule st delta =
     {inst \<sigma> (head rule) | \<sigma>. ground_valuation \<sigma> \<and> (\<forall>li<length (body rule). literal_true rs rule st delta \<sigma> li)}"

text \<open>The variables a literal binds, and orders in which every literal and the head find theirs bound.\<close>

fun literal_binds :: "literal \<Rightarrow> nat set" where
  "literal_binds (LIT_ATOM a) = term_vars (terms a)"
| "literal_binds (LIT_AGGREGATE _ _ _ rhs) = term_vars [rhs]"
| "literal_binds _ = {}"

fun literal_needs :: "literal \<Rightarrow> nat set" where
  "literal_needs (LIT_NEGATED_ATOM a) = term_vars (terms a)"
| "literal_needs _ = {}"

fun order_binds :: "rule \<Rightarrow> nat set \<Rightarrow> nat list \<Rightarrow> bool" where
  "order_binds rule D [] \<longleftrightarrow> term_vars (terms (head rule)) \<subseteq> D"
| "order_binds rule D (li # order) \<longleftrightarrow>
     li < length (body rule) \<and> literal_needs (body rule ! li) \<subseteq> D \<and>
     order_binds rule (D \<union> literal_binds (body rule ! li)) order"

text \<open>Rules as the compiler builds them: known terms, variables within the binding array.\<close>

fun literal_wf :: "literal \<Rightarrow> bool" where
  "literal_wf (LIT_ATOM a) = terms_wf (terms a)"
| "literal_wf (LIT_NEGATED_ATOM a) = terms_wf (terms a)"
| "literal_wf (LIT_AGGREGATE _ _ _ rhs) = is_var rhs"
| "literal_wf _ = True"

definition rule_wf :: "rule \<Rightarrow> bool" where
  "rule_wf rule \<longleftrightarrow> terms_wf (terms (head rule)) \<and> list_all literal_wf (body rule)"

definition windows_ok :: "solve_state \<Rightarrow> bool" where
  "windows_ok st \<longleftrightarrow> idb_delta_begin st \<le> idb_delta_end st \<and> idb_delta_end st \<le> idb_current_end st"

section \<open>Appending facts changes no literal\<close>

lemma take_drop_append: "b + n \<le> length xs \<Longrightarrow> take n (drop b (xs @ ys)) = take n (drop b xs)"
  by simp

lemma segment_prefix: "e \<le> length xs \<Longrightarrow> segment b e (xs @ ys) = segment b e xs"
  by (simp add: segment_def)

lemma extends_fixed:
  assumes "extends st st'"
  shows "fixed_view st' = fixed_view st" "head_may_be_in_base st' = head_may_be_in_base st"
    "\<exists>new. idb_facts st' = idb_facts st @ new"
  using assms by (auto simp: extends_def)

text \<open>A later state of the same round, whichever rule it is applying.\<close>

definition grows :: "solve_state \<Rightarrow> solve_state \<Rightarrow> bool" where
  "grows st st' \<longleftrightarrow> fixed_view st' = fixed_view st \<and> (\<exists>new. idb_facts st' = idb_facts st @ new)"

lemma extends_grows: "extends st st' \<Longrightarrow> grows st st'"
  by (auto simp: grows_def extends_def)

lemma grows_fixed:
  assumes "grows st st'"
  shows "fixed_view st' = fixed_view st" "\<exists>new. idb_facts st' = idb_facts st @ new"
  using assms by (auto simp: grows_def)

lemma grows_refl [simp]: "grows st st"
  by (simp add: grows_def)

lemma grows_trans: "grows st st' \<Longrightarrow> grows st' st'' \<Longrightarrow> grows st st''"
  by (auto simp: grows_def)

lemma idb_scan_window_cong:
  assumes "fixed_view st' = fixed_view st" shows "idb_scan_window rs st' pid = idb_scan_window rs st pid"
  unfolding idb_scan_window_def fixed_viewD[OF assms] ..

lemma idb_scan_window_bound: "idb_scan_window rs st pid = Some (start, n) \<Longrightarrow> start + n \<le> idb_current_end st"
  by (auto simp: idb_scan_window_def Let_def split: if_splits)

lemma window_facts_grows:
  assumes "grows st st'" "idb_current_end st \<le> length (idb_facts st)"
  shows "window_facts rs st' pid = window_facts rs st pid"
proof -
  obtain new where new: "idb_facts st' = idb_facts st @ new" using grows_fixed(2)[OF assms(1)] by blast
  show ?thesis
  proof (cases "idb_scan_window rs st pid")
    case (Some w)
    obtain b n where w: "w = (b, n)" by (cases w)
    then have "b + n \<le> length (idb_facts st)" using idb_scan_window_bound Some assms(2) by fastforce
    then have "take n (drop b (idb_facts st')) = take n (drop b (idb_facts st))" unfolding new by (rule take_drop_append)
    then show ?thesis using Some w by (simp add: window_facts_def idb_scan_window_cong[OF grows_fixed(1)[OF assms(1)]])
  qed (simp add: window_facts_def idb_scan_window_cong[OF grows_fixed(1)[OF assms(1)]])
qed

lemma edb_slice_cong:
  assumes "fixed_view st' = fixed_view st" shows "edb_slice st' pid = edb_slice st pid"
  unfolding edb_slice_def fixed_viewD[OF assms] ..

lemma frozen_window_grows:
  assumes "grows st st'" "idb_current_end st \<le> length (idb_facts st)"
  shows "frozen_window rs st' pid = frozen_window rs st pid"
proof -
  obtain new where new: "idb_facts st' = idb_facts st @ new" using grows_fixed(2)[OF assms(1)] by blast
  note fv = fixed_viewD[OF grows_fixed(1)[OF assms(1)]]
  have "segment b e (idb_facts st') = segment b e (idb_facts st)" if "e \<le> idb_current_end st" for b e
    using that assms(2) by (simp add: new segment_prefix)
  then show ?thesis unfolding frozen_window_def Let_def fv by simp
qed

lemma negation_holds_grows:
  assumes "grows st st'" "idb_current_end st \<le> length (idb_facts st)"
  shows "negation_holds rs lit st' \<sigma> \<longleftrightarrow> negation_holds rs lit st \<sigma>"
  unfolding negation_holds_def solve_negated_literal_def frozen_window_grows[OF assms]
    fixed_viewD[OF grows_fixed(1)[OF assms(1)]] ..

lemma aggregate_holds_grows:
  assumes "grows st st'" "idb_current_end st \<le> length (idb_facts st)" "\<not> finalized st"
  shows "aggregate_holds lit st' \<sigma> \<longleftrightarrow> aggregate_holds lit st \<sigma>"
proof -
  note fv = fixed_viewD[OF grows_fixed(1)[OF assms(1)]]
  have src: "aggregate_source lit b st' = aggregate_source lit b st" for b
    using assms(3) unfolding aggregate_source_def Let_def fv frozen_window_grows[OF assms(1,2)]
      edb_slice_cong[OF grows_fixed(1)[OF assms(1)]] by (simp cong: option.case_cong if_cong)
  show ?thesis
    unfolding aggregate_holds_def evaluate_aggregate_def evaluate_count_def evaluate_numeric_aggregate_def src ..
qed

lemma literal_true_grows:
  assumes "grows st st'" "idb_inv st" "windows_ok st" "\<not> finalized st"
  shows "literal_true rs rule st' delta \<sigma> li \<longleftrightarrow> literal_true rs rule st delta \<sigma> li"
proof -
  note fv = fixed_viewD[OF grows_fixed(1)[OF assms(1)]]
  have ce: "idb_current_end st \<le> length (idb_facts st)" using assms(2) by (simp add: idb_inv_def)
  obtain new where new: "idb_facts st' = idb_facts st @ new" using grows_fixed(2)[OF assms(1)] by blast
  have seg: "segment (idb_delta_begin st') (idb_delta_end st') (idb_facts st') =
      segment (idb_delta_begin st) (idb_delta_end st) (idb_facts st)"
    using assms(3) ce by (simp add: fv new segment_prefix windows_ok_def)
  have cands: "atom_candidates rs st' dl a = atom_candidates rs st dl a" for dl a
    unfolding atom_candidates_def window_facts_grows[OF assms(1) ce] edb_slice_cong[OF grows_fixed(1)[OF assms(1)]] seg ..
  show ?thesis
    unfolding literal_true_def negation_holds_grows[OF assms(1) ce] aggregate_holds_grows[OF assms(1) ce assms(4)]
      fv cands ..
qed

section \<open>A run derives exactly a set of facts\<close>

text \<open>
  \<open>derives st D r\<close>: the outcome \<open>r\<close> of a computation started in \<open>st\<close> keeps the invariant, appends only facts
  of \<open>D\<close>, and when it is not fatal every fact of \<open>D\<close> is in the base or derived.
\<close>

definition derives :: "solve_state \<Rightarrow> fact set \<Rightarrow> bool \<times> solve_state \<Rightarrow> bool" where
  "derives st D r \<longleftrightarrow>
     (case r of (ok, st') \<Rightarrow>
        extends st st' \<and> idb_inv st' \<and> set (idb_facts st') \<subseteq> set (idb_facts st) \<union> D \<and>
        (ok \<longrightarrow> D \<subseteq> base_facts st \<union> set (idb_facts st')))"

lemma derives_skip: "idb_inv st \<Longrightarrow> derives st {} (True, st)"
  by (simp add: derives_def)

lemma derived_part_facts:
  assumes "derived_part st' = derived_part st"
  shows "idb_facts st' = idb_facts st" "fixed_view st' = fixed_view st"
  using assms by (simp_all add: derived_part_def)

lemma derives_fail:
  assumes "idb_inv st" "derived_part st' = derived_part st" shows "derives st D (False, st')"
  using assms(1) derived_part_extends[OF assms(2)] idb_inv_cong[OF assms(2)] derived_part_facts(1)[OF assms(2)]
  by (simp add: derives_def)

lemma derives_empty:
  assumes "idb_inv st" "derived_part st' = derived_part st" "D = {}" shows "derives st D (True, st')"
  using assms(1,3) derived_part_extends[OF assms(2)] idb_inv_cong[OF assms(2)] derived_part_facts(1)[OF assms(2)]
  by (simp add: derives_def)

lemma derives_frame:
  assumes "derived_part st1 = derived_part st" "derives st1 D r" shows "derives st D r"
proof -
  obtain ok st2 where r: "r = (ok, st2)" by (cases r)
  have "extends st st2" using assms(2) extends_trans[OF derived_part_extends[OF assms(1)]] by (simp add: r derives_def)
  then show ?thesis
    using assms(2) unfolding r derives_def prod.case derived_part_facts(1)[OF assms(1)]
      base_facts_cong[OF derived_part_facts(2)[OF assms(1)]] by blast
qed

lemma extends_base: "extends st st' \<Longrightarrow> base_facts st' = base_facts st"
  by (rule base_facts_cong) (simp add: extends_def)

lemma extends_subset: "extends st st' \<Longrightarrow> set (idb_facts st) \<subseteq> set (idb_facts st')"
  by (auto simp: extends_def)

lemma derives_and_then:
  assumes "derives st D1 r" "\<And>st1. extends st st1 \<Longrightarrow> idb_inv st1 \<Longrightarrow> derives st1 D2 (g st1)"
  shows "derives st (D1 \<union> D2) (and_then r g)"
proof -
  obtain ok st1 where r: "r = (ok, st1)" by (cases r)
  note d1 = assms(1)[unfolded r derives_def prod.case]
  show ?thesis
  proof (cases ok)
    case False
    then show ?thesis using d1 by (auto simp: and_then_def r derives_def)
  next
    case True
    obtain ok2 st2 where g: "g st1 = (ok2, st2)" by (cases "g st1")
    have "derives st1 D2 (ok2, st2)" using assms(2) d1 g by metis
    note d2 = this[unfolded derives_def prod.case]
    have "extends st st2" using d1 d2 extends_trans by blast
    moreover have "set (idb_facts st1) \<subseteq> set (idb_facts st2)" using d2 extends_subset by blast
    moreover have "base_facts st1 = base_facts st" using d1 extends_base by blast
    ultimately show ?thesis using True d1 d2 by (auto simp: and_then_def r g derives_def)
  qed
qed

lemma scan_and_then: "scan f (c # cs) st = and_then (f c st) (scan f cs)"
  by (simp add: and_then_def)

lemma derives_scan:
  assumes "idb_inv st" "\<And>c st1. c \<in> set cs \<Longrightarrow> extends st st1 \<Longrightarrow> idb_inv st1 \<Longrightarrow> derives st1 (D c) (f c st1)"
  shows "derives st (\<Union>c\<in>set cs. D c) (scan f cs st)"
  using assms
proof (induction cs arbitrary: st)
  case Nil
  then show ?case by (simp add: derives_skip)
next
  case (Cons c cs)
  have "derives st (D c \<union> (\<Union>c\<in>set cs. D c)) (and_then (f c st) (scan f cs))"
  proof (rule derives_and_then)
    show "derives st (D c) (f c st)" using Cons.prems by simp
    fix st1
    assume st1: "extends st st1" "idb_inv st1"
    show "derives st1 (\<Union>c\<in>set cs. D c) (scan f cs st1)"
      by (rule Cons.IH[OF st1(2)]) (use Cons.prems(2) extends_trans[OF st1(1)] in auto)
  qed
  then show ?case by (simp only: scan_and_then list.set(2) UN_insert)
qed

text \<open>The facts that a rest of the body may yield: heads of the valuations a continuation is responsible for.\<close>

definition yields :: "bindings \<Rightarrow> ((nat \<Rightarrow> term) \<Rightarrow> bool) \<Rightarrow> fact \<Rightarrow> fact set" where
  "yields b R h = {inst \<sigma> h | \<sigma>. ground_valuation \<sigma> \<and> agrees b \<sigma> \<and> R \<sigma>}"

lemma yields_eq: "(\<And>\<sigma>. ground_valuation \<sigma> \<Longrightarrow> (agrees b \<sigma> \<and> R \<sigma>) = (agrees b' \<sigma> \<and> R' \<sigma>)) \<Longrightarrow> yields b R h = yields b' R' h"
  by (auto simp: yields_def)

lemma yields_none: "(\<And>\<sigma>. ground_valuation \<sigma> \<Longrightarrow> agrees b \<sigma> \<Longrightarrow> \<not> R \<sigma>) \<Longrightarrow> yields b R h = {}"
  by (auto simp: yields_def)

lemma yields_UN: "(\<Union>c\<in>C. yields b (\<lambda>\<sigma>. P c \<sigma> \<and> R \<sigma>) h) = yields b (\<lambda>\<sigma>. (\<exists>c\<in>C. P c \<sigma>) \<and> R \<sigma>) h"
  by (auto simp: yields_def)

lemma yields_Un: "yields b (\<lambda>\<sigma>. P \<sigma> \<and> R \<sigma>) h \<union> yields b (\<lambda>\<sigma>. Q \<sigma> \<and> R \<sigma>) h = yields b (\<lambda>\<sigma>. (P \<sigma> \<or> Q \<sigma>) \<and> R \<sigma>) h"
  by (auto simp: yields_def)

text \<open>What the rest of the recursion has to satisfy: it derives the heads it is responsible for.\<close>

definition continues :: "solve_state \<Rightarrow> nat set \<Rightarrow> ((nat \<Rightarrow> term) \<Rightarrow> bool) \<Rightarrow> fact \<Rightarrow> continuation \<Rightarrow> bool" where
  "continues st D R h k \<longleftrightarrow>
     (\<forall>b parent st1. extends st st1 \<longrightarrow> idb_inv st1 \<longrightarrow> bindings_ok b \<longrightarrow> dom (bmap b) = D \<longrightarrow>
        derives st1 (yields b R h) (k b parent st1))"

lemma continuesD:
  assumes "continues st D R h k" "extends st st1" "idb_inv st1" "bindings_ok b" "dom (bmap b) = D"
  shows "derives st1 (yields b R h) (k b parent st1)"
  using assms by (simp add: continues_def)

lemma continues_extends: "continues st D R h k \<Longrightarrow> extends st st1 \<Longrightarrow> continues st1 D R h k"
  using extends_trans by (fastforce simp: continues_def)

lemma derives_continue:
  assumes "continues st D R h k" "derived_part st1 = derived_part st" "idb_inv st" "bindings_ok b" "dom (bmap b) = D"
  shows "derives st (yields b R h) (k b parent st1)"
  using derives_frame[OF assms(2)] continuesD[OF assms(1) derived_part_extends[OF assms(2)]] idb_inv_cong[OF assms(2)]
    assms(3-5) by blast

section \<open>One literal\<close>

lemma valid_terms_ground: "fact_structurally_valid reg f \<Longrightarrow> \<forall>t\<in>set (terms f). ground t"
  by (auto simp: fact_structurally_valid_def ground_def list_all_iff split: option.splits)

lemma inst_eq: "inst \<sigma> a = f \<longleftrightarrow> predicate_id f = predicate_id a \<and> map (subst \<sigma>) (terms a) = terms f"
  by (cases f) (auto simp: inst_def)

lemma match_candidate_derives:
  assumes "idb_inv st" "bindings_ok b" "terms_wf (terms a)"
    and k: "continues st (dom (bmap b) \<union> term_vars (terms a)) R h k"
  shows "derives st (yields b (\<lambda>\<sigma>. inst \<sigma> a = fst c \<and> R \<sigma>) h) (match_candidate rs li a b k c st)"
proof -
  obtain f parent org cp where c: "c = (f, parent, org, cp)" by (cases c)
  let ?r = "match_candidate rs li a b k c st"
  consider (invalid) "\<not> fact_structurally_valid (rs_registry rs) f"
    | (other) "fact_structurally_valid (rs_registry rs) f" "predicate_id f \<noteq> predicate_id a \<or> arity f \<noteq> arity a"
    | (same) "fact_structurally_valid (rs_registry rs) f" "predicate_id f = predicate_id a" "arity f = arity a"
    by blast
  then show ?thesis
  proof cases
    case invalid
    then have "?r = (False, set_invalid_fact (rs_registry rs) f st)" by (simp add: match_candidate_def c)
    then show ?thesis using derives_fail[OF assms(1)] by (simp add: frame_simps)
  next
    case other
    then have "?r = (True, st)" by (auto simp: match_candidate_def c)
    moreover have "yields b (\<lambda>\<sigma>. inst \<sigma> a = f \<and> R \<sigma>) h = {}"
      using other(2) by (intro yields_none) (auto simp: inst_def)
    ultimately show ?thesis using assms(1) derives_empty by (simp add: c)
  next
    case same
    have len: "length (terms a) = length (terms f)" using same(3) by simp
    note spec = match_terms_spec[OF assms(2) valid_terms_ground[OF same(1)] assms(3) len]
    show ?thesis
    proof (cases "match_terms b (terms a) (terms f)")
      case None
      then have "?r = (True, st)" using same by (simp add: match_candidate_def c)
      moreover have "yields b (\<lambda>\<sigma>. inst \<sigma> a = f \<and> R \<sigma>) h = {}"
        using spec(1)[OF None] by (intro yields_none) (auto simp: inst_eq)
      ultimately show ?thesis using assms(1) derives_empty by (simp add: c)
    next
      case (Some b')
      note s = spec(2)[OF Some]
      have "?r = k b' parent (witness_record_positive li org f cp st)" using same Some by (simp add: match_candidate_def c)
      moreover have "yields b (\<lambda>\<sigma>. inst \<sigma> a = f \<and> R \<sigma>) h = yields b' R h"
        using s same(2) by (intro yields_eq) (auto simp: inst_eq)
      ultimately show ?thesis
        using derives_continue[OF k derived_part_frame(7)[of li org f cp st] assms(1), of b' parent] s by (simp add: c)
    qed
  qed
qed

lemma scan_candidates_derives:
  assumes "idb_inv st" "bindings_ok b" "terms_wf (terms a)"
    and k: "continues st (dom (bmap b) \<union> term_vars (terms a)) R h k" and F: "fst ` set cs = F"
  shows "derives st (yields b (\<lambda>\<sigma>. inst \<sigma> a \<in> F \<and> R \<sigma>) h) (scan (match_candidate rs li a b k) cs st)"
proof -
  have "derives st (\<Union>c\<in>set cs. yields b (\<lambda>\<sigma>. inst \<sigma> a = fst c \<and> R \<sigma>) h) (scan (match_candidate rs li a b k) cs st)"
    using match_candidate_derives[OF _ assms(2,3) continues_extends[OF k]] by (intro derives_scan[OF assms(1)]) auto
  moreover have "(\<exists>c\<in>set cs. inst \<sigma> a = fst c) \<longleftrightarrow> inst \<sigma> a \<in> F" for \<sigma> using F by auto
  ultimately show ?thesis by (simp add: yields_UN)
qed

lemma candidate_facts:
  "fst ` set (plain_candidates parent org fs) = set fs"
  "idb_inv st \<Longrightarrow> fst ` set (idb_candidates parent start n st) = set (take n (drop start (idb_facts st)))"
  "idb_inv st \<Longrightarrow> fst ` set (delta_candidates st) = set (segment (idb_delta_begin st) (idb_delta_end st) (idb_facts st))"
proof -
  have zip: "fst ` (\<lambda>(f, p). (f, g p, org, p)) ` set (zip xs ys) = set xs" if "length xs = length ys"
    for xs :: "fact list" and ys :: "nat list" and g :: "nat \<Rightarrow> nat" and org
    using that by (induction xs ys rule: list_induct2) auto
  show "fst ` set (plain_candidates parent org fs) = set fs" by (auto simp: plain_candidates_def image_image)
  assume "idb_inv st"
  then have len: "length (idb_proof_index st) = length (idb_facts st)" by (simp add: idb_inv_def)
  show "fst ` set (idb_candidates parent start n st) = set (take n (drop start (idb_facts st)))"
    using zip[of "take n (drop start (idb_facts st))" "take n (drop start (idb_proof_index st))" "\<lambda>_. parent" ORIGIN_IDB] len
    by (simp add: idb_candidates_def)
  show "fst ` set (delta_candidates st) = set (segment (idb_delta_begin st) (idb_delta_end st) (idb_facts st))"
    using zip[of "segment (idb_delta_begin st) (idb_delta_end st) (idb_facts st)"
        "segment (idb_delta_begin st) (idb_delta_end st) (idb_proof_index st)" "\<lambda>p. p" ORIGIN_IDB] len
    by (simp add: delta_candidates_def)
qed

lemma derives_if:
  assumes "P \<Longrightarrow> derives st (yields b (\<lambda>\<sigma>. inst \<sigma> a \<in> F \<and> R \<sigma>) h) r" "idb_inv st"
  shows "derives st (yields b (\<lambda>\<sigma>. inst \<sigma> a \<in> (if P then F else {}) \<and> R \<sigma>) h) (if P then r else (True, st))"
  using assms derives_skip yields_none[of b "\<lambda>\<sigma>. False" h] by (cases P) simp_all

lemma derive_atom_derives:
  assumes inv: "idb_inv st" and win: "windows_ok st" and nf: "\<not> finalized st" and b: "bindings_ok b" "terms_wf (terms a)"
    and k: "continues st (dom (bmap b) \<union> term_vars (terms a)) R h k"
  shows "derives st (yields b (\<lambda>\<sigma>. inst \<sigma> a \<in> atom_candidates rs st (delta = Some li) a \<and> R \<sigma>) h)
    (derive_atom rs li a delta b parent k st)"
proof (cases "predicate_registry_get (rs_registry rs) (predicate_id a)")
  case None
  then have "yields b (\<lambda>\<sigma>. inst \<sigma> a \<in> atom_candidates rs st (delta = Some li) a \<and> R \<sigma>) h = {}"
    by (intro yields_none) (simp add: atom_candidates_def)
  then show ?thesis using None derives_skip[OF inv] by (simp add: derive_atom_def)
next
  case (Some d)
  note scan = scan_candidates_derives[OF _ b continues_extends[OF k]]
  show ?thesis
  proof (cases "delta = Some li")
    case True
    then show ?thesis
      using Some scan[OF inv extends_refl candidate_facts(3)[OF inv], of rs li]
      by (simp add: derive_atom_def atom_candidates_def)
  next
    case False
    let ?m = "match_candidate rs li a b k" and ?pid = "predicate_id a"
    let ?P = "(kind_flags d AND PRED_KIND_POLICY_FACT) \<noteq> 0" and ?E = "(kind_flags d AND PRED_KIND_EDB) \<noteq> 0"
      and ?I = "(kind_flags d AND PRED_KIND_IDB) \<noteq> 0"
    let ?Y = "\<lambda>F. yields b (\<lambda>\<sigma>. inst \<sigma> a \<in> F \<and> R \<sigma>) h"
    have un: "?Y F \<union> ?Y G = ?Y (F \<union> G)" for F G by (simp add: yields_Un)
    have p: "derives st (?Y (if ?P then set (rs_facts rs) else {}))
      (if ?P then scan ?m (plain_candidates parent ORIGIN_POLICY_FACT (rs_facts rs)) st else (True, st))"
      using scan[OF inv extends_refl candidate_facts(1)] inv by (intro derives_if) blast+
    have e: "derives st1 (?Y (if ?E then set (edb_slice st ?pid) else {}))
      (if ?E then scan ?m (plain_candidates parent ORIGIN_EDB (edb_slice st1 ?pid)) st1 else (True, st1))"
      if "extends st st1" "idb_inv st1" for st1
      unfolding edb_slice_cong[OF extends_fixed(1)[OF that(1)]]
      using scan[OF that(2,1) candidate_facts(1)] that(2) by (intro derives_if) blast+
    have i: "derives st2 (?Y (if ?I then window_facts rs st ?pid else {}))
      (if ?I then (case idb_scan_window rs st2 ?pid of None \<Rightarrow> (False, set_invalid_state st2)
         | Some (start, n) \<Rightarrow> scan ?m (idb_candidates parent start n st2) st2) else (True, st2))"
      if st2: "extends st st2" "idb_inv st2" for st2
    proof (rule derives_if[OF _ st2(2)])
      have ce: "idb_current_end st \<le> length (idb_facts st)" using inv by (simp add: idb_inv_def)
      note w = window_facts_grows[OF extends_grows[OF st2(1)] ce, of rs ?pid, symmetric]
      show "derives st2 (?Y (window_facts rs st ?pid))
        (case idb_scan_window rs st2 ?pid of None \<Rightarrow> (False, set_invalid_state st2)
         | Some (start, n) \<Rightarrow> scan ?m (idb_candidates parent start n st2) st2)"
      proof (cases "idb_scan_window rs st2 ?pid")
        case None
        then show ?thesis using derives_fail[OF st2(2)] by (simp add: frame_simps)
      next
        case (Some sn)
        obtain start n where sn: "sn = (start, n)" by (cases sn)
        show ?thesis
          using scan[OF st2(2,1) candidate_facts(2)[OF st2(2), of parent start n], of rs li] Some sn
          unfolding w by (simp add: window_facts_def)
      qed
    qed
    have "derives st (?Y (if ?P then set (rs_facts rs) else {}) \<union>
        (?Y (if ?E then set (edb_slice st ?pid) else {}) \<union> ?Y (if ?I then window_facts rs st ?pid else {})))
      (derive_atom rs li a delta b parent k st)"
      unfolding derive_atom_def Let_def Some option.case if_not_P[OF False]
      by (intro derives_and_then p e i) (auto intro: extends_trans)
    then show ?thesis unfolding un
      by (simp add: atom_candidates_def Some False Un_assoc)
  qed
qed

text \<open>An evaluator that leaves the derived facts alone, followed by the rest of the recursion.\<close>

lemma derives_outcome:
  assumes "idb_inv st" "derived_part st' = derived_part st"
    "\<And>\<sigma>. out = EVAL_NO \<Longrightarrow> ground_valuation \<sigma> \<Longrightarrow> agrees b \<sigma> \<Longrightarrow> \<not> L \<sigma>"
    "\<And>x. out = EVAL_YES x \<Longrightarrow> derives st (yields b (\<lambda>\<sigma>. L \<sigma> \<and> R \<sigma>) h) (g x)"
  shows "derives st (yields b (\<lambda>\<sigma>. L \<sigma> \<and> R \<sigma>) h)
    (case out of EVAL_FATAL \<Rightarrow> (False, st') | EVAL_NO \<Rightarrow> (True, st') | EVAL_YES x \<Rightarrow> g x)"
proof (cases out)
  case EVAL_NO
  then have "yields b (\<lambda>\<sigma>. L \<sigma> \<and> R \<sigma>) h = {}" using assms(3) by (intro yields_none) blast
  then show ?thesis using EVAL_NO derives_empty[OF assms(1,2)] by simp
qed (use derives_fail[OF assms(1,2)] assms(4) in auto)

lemma derives_pass:
  assumes "continues st D R h k" "derived_part st1 = derived_part st" "idb_inv st" "bindings_ok b'" "dom (bmap b') = D"
    "\<And>\<sigma>. ground_valuation \<sigma> \<Longrightarrow> agrees b' \<sigma> \<longleftrightarrow> agrees b \<sigma> \<and> L \<sigma>"
  shows "derives st (yields b (\<lambda>\<sigma>. L \<sigma> \<and> R \<sigma>) h) (k b' parent st1)"
proof -
  have "yields b (\<lambda>\<sigma>. L \<sigma> \<and> R \<sigma>) h = yields b' R h" using assms(6) by (intro yields_eq) blast
  then show ?thesis using derives_continue[OF assms(1-5)] by simp
qed

lemma derive_literal_derives:
  assumes inv: "idb_inv st" and win: "windows_ok st" and nf: "\<not> finalized st" and b: "bindings_ok b"
    and wf: "literal_wf (body rule ! li)" and needs: "literal_needs (body rule ! li) \<subseteq> dom (bmap b)"
    and k: "continues st (dom (bmap b) \<union> literal_binds (body rule ! li)) R h k"
  shows "derives st (yields b (\<lambda>\<sigma>. literal_true rs rule st delta \<sigma> li \<and> R \<sigma>) h)
    (derive_literal rs rule li delta b parent k st)"
proof (cases "body rule ! li")
  case (LIT_ATOM a)
  then show ?thesis using derive_atom_derives[OF inv win nf b, of a R h k rs delta li parent] wf k
    by (simp add: derive_literal_def literal_true_def)
next
  case lit: (LIT_COMPARISON l op r e lr rr)
  obtain out st' where ev: "evaluate_comparison_literal rule (body rule ! li) b st = (out, st')"
    by (cases "evaluate_comparison_literal rule (body rule ! li) b st")
  note spec = comparison_literal_spec[OF ev]
  have "derives st (yields b (\<lambda>\<sigma>. comparison_holds rule (body rule ! li) \<sigma> \<and> R \<sigma>) h)
    (case out of EVAL_FATAL \<Rightarrow> (False, st') | EVAL_NO \<Rightarrow> (True, st')
     | EVAL_YES x \<Rightarrow> k b parent (witness_record_comparison li op (fst x) (snd x) st'))"
    using spec k lit by (intro derives_outcome derives_pass[OF _ _ inv b] inv) (auto simp: frame_simps)
  then show ?thesis using ev lit
    by (simp add: derive_literal_def literal_true_def case_prod_unfold cong: eval_outcome.case_cong)
next
  case lit: (LIT_FILTER kind idx v)
  obtain out st' where ev: "evaluate_filter_literal rs (body rule ! li) b st = (out, st')"
    by (cases "evaluate_filter_literal rs (body rule ! li) b st")
  note spec = filter_literal_spec[OF ev]
  have "derives st (yields b (\<lambda>\<sigma>. filter_holds rs (sr_symbols st) (body rule ! li) \<sigma> \<and> R \<sigma>) h)
    (case out of EVAL_FATAL \<Rightarrow> (False, st') | EVAL_NO \<Rightarrow> (True, st')
     | EVAL_YES u \<Rightarrow> k b parent (witness_record_filter li idx kind u st'))"
    using spec k lit by (intro derives_outcome derives_pass[OF _ _ inv b] inv) (auto simp: frame_simps)
  then show ?thesis using ev lit
    by (simp add: derive_literal_def literal_true_def cong: eval_outcome.case_cong)
next
  case lit: (LIT_AGGREGATE kind a l r)
  obtain out st' where ev: "solve_aggregate_literal (body rule ! li) li b st = (out, st')"
    by (cases "solve_aggregate_literal (body rule ! li) li b st")
  note spec = aggregate_literal_spec[OF ev b]
  have "derives st (yields b (\<lambda>\<sigma>. aggregate_holds (body rule ! li) st \<sigma> \<and> R \<sigma>) h)
    (case out of EVAL_FATAL \<Rightarrow> (False, st') | EVAL_NO \<Rightarrow> (True, st') | EVAL_YES b' \<Rightarrow> k b' parent st')"
    using spec k lit by (intro derives_outcome derives_pass[OF _ _ inv] inv) auto
  then show ?thesis using ev lit
    by (simp add: derive_literal_def literal_true_def cong: eval_outcome.case_cong)
next
  case lit: (LIT_NEGATED_ATOM a)
  have "terms_wf (terms a)" "term_vars (terms a) \<subseteq> dom (bmap b)" using wf needs lit by simp_all
  note spec = negated_literal_spec[OF b _ _ lit this(1), of _ rs st] this(2)
  have "derives st (yields b (\<lambda>\<sigma>. negation_holds rs (body rule ! li) st \<sigma> \<and> R \<sigma>) h)
    (case solve_negated_literal rs (body rule ! li) b st of None \<Rightarrow> (True, st)
     | Some x \<Rightarrow> k b parent (witness_record_negation li (snd x) (fst x) st))"
  proof (cases "solve_negated_literal rs (body rule ! li) b st")
    case None
    then have "yields b (\<lambda>\<sigma>. negation_holds rs (body rule ! li) st \<sigma> \<and> R \<sigma>) h = {}"
      using spec(2)[OF _ _ spec(3)] by (intro yields_none) auto
    then show ?thesis using None derives_skip[OF inv] by simp
  next
    case (Some x)
    then show ?thesis using spec(1)[OF _ _ Some] k lit by (simp, intro derives_pass[OF _ _ inv b]) (auto simp: frame_simps)
  qed
  then show ?thesis using lit
    by (simp add: derive_literal_def literal_true_def case_prod_unfold cong: option.case_cong)
next
  case (LIT_OTHER n)
  then show ?thesis using derives_fail[OF inv] by (simp add: derive_literal_def frame_simps)
qed

section \<open>One rule\<close>

text \<open>What the shortcut \<^verbatim>\<open>head_may_be_in_base\<close> stands for.\<close>

definition head_flag_ok :: "rule \<Rightarrow> solve_state \<Rightarrow> bool" where
  "head_flag_ok rule st \<longleftrightarrow>
     (head_may_be_in_base st \<or> (\<forall>f. predicate_id f = predicate_id (head rule) \<longrightarrow> f \<notin> base_facts st))"

lemma append_idb_merge_facts:
  "append_idb_merge f rid depth parent rule st = (ok, st') \<Longrightarrow> set (idb_facts st') \<subseteq> set (idb_facts st) \<union> {f}"
  by (auto simp: append_idb_merge_def Let_def append_idb_fact_parts(3) derived_part_facts(1)[OF derived_part_frame(5)]
      derived_part_facts(1)[OF derived_part_frame(12)] split: if_splits)

lemma derive_head_derives:
  assumes inv: "idb_inv st" and flag: "head_flag_ok rule st" and wf: "rule_wf rule" and b: "bindings_ok b"
    and bound: "term_vars (terms (head rule)) \<subseteq> dom (bmap b)"
  shows "derives st (yields b (\<lambda>_. True) (head rule)) (derive_head rule depth b parent st)"
proof -
  let ?f = "inst (valuation_of b) (head rule)"
  have known: "\<forall>t\<in>set (terms (head rule)). term_kind_known t" using wf by (simp add: rule_wf_def terms_wf_def)
  have all: "instantiate_atom b (head rule) = Some (inst \<sigma> (head rule))" if "agrees b \<sigma>" "ground_valuation \<sigma>" for \<sigma>
    using instantiate_atom_spec[OF b that known] bound by simp
  have here: "instantiate_atom b (head rule) = Some ?f" using all valuation_of_ok(1)[OF b] valuation_of_ok(2) by blast
  have same: "inst \<sigma> (head rule) = ?f" if "agrees b \<sigma>" "ground_valuation \<sigma>" for \<sigma> using all[OF that] here by simp
  have y: "yields b (\<lambda>_. True) (head rule) = {?f}"
  proof
    show "yields b (\<lambda>_. True) (head rule) \<subseteq> {?f}" using same by (auto simp: yields_def)
    show "{?f} \<subseteq> yields b (\<lambda>_. True) (head rule)" using valuation_of_ok(1)[OF b] valuation_of_ok(2)[of b] by (auto simp: yields_def)
  qed
  obtain ok st' where r: "append_idb_merge ?f (rule_id rule) depth parent rule st = (ok, st')"
    by (cases "append_idb_merge ?f (rule_id rule) depth parent rule st")
  have "\<not> head_may_be_in_base st \<Longrightarrow> ?f \<notin> base_facts st" using flag by (simp add: head_flag_ok_def inst_def)
  note spec = append_idb_merge_spec[OF inv this r]
  have "set (idb_facts st') \<subseteq> set (idb_facts st) \<union> {?f}"
    using append_idb_merge_facts[OF r] .
  then show ?thesis using spec here r by (auto simp: derives_def derive_head_def y)
qed

lemma head_flag_ok_extends: "extends st st' \<Longrightarrow> head_flag_ok rule st' \<longleftrightarrow> head_flag_ok rule st"
  using extends_base extends_fixed(2) by (simp add: head_flag_ok_def)

lemma windows_ok_grows: "grows st st' \<Longrightarrow> windows_ok st' \<longleftrightarrow> windows_ok st"
  using fixed_viewD[of st' st] by (simp add: windows_ok_def grows_def)

lemma derive_ordered_derives:
  assumes "idb_inv st" "windows_ok st" "\<not> finalized st" "head_flag_ok rule st" "rule_wf rule" "bindings_ok b"
    "order_binds rule (dom (bmap b)) order"
  shows "derives st (yields b (\<lambda>\<sigma>. \<forall>li\<in>set order. literal_true rs rule st delta \<sigma> li) (head rule))
    (derive_ordered rs rule delta depth order b parent st)"
  using assms
proof (induction order arbitrary: b parent st)
  case Nil
  then show ?case using derive_head_derives[of st rule b depth parent] by simp
next
  case (Cons li order)
  let ?R = "\<lambda>\<sigma>. \<forall>li\<in>set order. literal_true rs rule st delta \<sigma> li"
  have li: "li < length (body rule)" "literal_needs (body rule ! li) \<subseteq> dom (bmap b)"
    "order_binds rule (dom (bmap b) \<union> literal_binds (body rule ! li)) order" using Cons.prems(7) by simp_all
  have wf: "literal_wf (body rule ! li)" using Cons.prems(5) li(1) by (simp add: rule_wf_def list_all_length)
  have "continues st (dom (bmap b) \<union> literal_binds (body rule ! li)) ?R (head rule) (derive_ordered rs rule delta depth order)"
    unfolding continues_def
  proof (intro allI impI)
    fix b' parent' st1
    assume st1: "extends st st1" "idb_inv st1" and b': "bindings_ok b'" "dom (bmap b') = dom (bmap b) \<union> literal_binds (body rule ! li)"
    have "?R = (\<lambda>\<sigma>. \<forall>li\<in>set order. literal_true rs rule st1 delta \<sigma> li)"
      using literal_true_grows[OF extends_grows[OF st1(1)] Cons.prems(1-3)] by simp
    moreover have "derives st1 (yields b' (\<lambda>\<sigma>. \<forall>li\<in>set order. literal_true rs rule st1 delta \<sigma> li) (head rule))
      (derive_ordered rs rule delta depth order b' parent' st1)"
      using Cons.prems windows_ok_grows[OF extends_grows[OF st1(1)]] head_flag_ok_extends[OF st1(1)]
        fixed_viewD(12)[OF extends_fixed(1)[OF st1(1)]] b' li(3) st1(2) by (intro Cons.IH) simp_all
    ultimately show "derives st1 (yields b' ?R (head rule)) (derive_ordered rs rule delta depth order b' parent' st1)"
      by simp
  qed
  from derive_literal_derives[OF Cons.prems(1-3,6) wf li(2) this, of rs delta parent] li(1)
  show ?case by simp
qed

text \<open>A safe plan of a range-restricted rule binds what each literal and the head need.\<close>

definition range_restricted :: "rule \<Rightarrow> bool" where
  "range_restricted rule \<longleftrightarrow> term_vars (terms (head rule)) \<subseteq> (\<Union>l\<in>set (body rule). literal_binds l)"

lemma bit_var_mask:
  assumes "bit (literal_var_mask l) v" "literal_wf l"
  shows "v \<in> literal_binds l \<or> (\<exists>k i. l = LIT_FILTER k i (TERM_VAR v))"
proof -
  have fold: "bit (fold (\<lambda>t m. if is_var t \<and> term_variable t < 64 then m OR push_bit (term_variable t) 1 else m) ts m) v \<longleftrightarrow>
      bit m v \<or> (v < 64 \<and> TERM_VAR v \<in> set ts)" for ts and m :: "64 word"
  proof (induction ts arbitrary: m)
    case (Cons t ts)
    then show ?case by (cases t) (auto simp: bit_or_iff bit_exp_iff)
  qed simp
  show ?thesis
  proof (cases l)
    case (LIT_ATOM a)
    then show ?thesis using assms(1) fold[of "terms a" 0] by (simp add: term_vars_def)
  next
    case (LIT_FILTER k i u)
    then show ?thesis using assms(1) by (cases u) (auto simp: bit_exp_iff split: if_splits)
  next
    case (LIT_AGGREGATE k a u w)
    then show ?thesis using assms by (cases w) (auto simp: bit_exp_iff)
  qed (use assms(1) in simp_all)
qed

lemma safe_var_bound:
  "comparison_term_safe_with_bound_vars (TERM_VAR v) bvm \<Longrightarrow> bit bvm v"
  by (simp add: comparison_term_safe_with_bound_vars_def bit_iff_and_push_bit_not_eq_0)

lemma order_safe_binds:
  assumes "order_safe rule bvm order" "\<forall>v. bit bvm v \<longrightarrow> v \<in> D" "rule_wf rule"
    "term_vars (terms (head rule)) \<subseteq> D \<union> (\<Union>li\<in>set order. literal_binds (body rule ! li))"
  shows "order_binds rule D order"
  using assms
proof (induction order arbitrary: bvm D)
  case (Cons li order)
  let ?l = "body rule ! li"
  from Cons.prems(1) have safe: "literal_safe_with_bound_vars rule li bvm"
    "order_safe rule (bvm OR literal_var_mask ?l) order" by simp_all
  then have li: "li < length (body rule)" by (simp add: literal_safe_with_bound_vars_def)
  have wf: "literal_wf ?l" using Cons.prems(3) li by (simp add: rule_wf_def list_all_length)
  have bits: "\<forall>v. bit (bvm OR literal_var_mask ?l) v \<longrightarrow> v \<in> D \<union> literal_binds ?l"
    using bit_var_mask[OF _ wf] safe(1) Cons.prems(2) safe_var_bound
    by (fastforce simp: bit_or_iff literal_safe_with_bound_vars_def)
  have needs: "literal_needs ?l \<subseteq> D"
    using safe(1) Cons.prems(2) safe_var_bound
    by (cases ?l) (fastforce simp: literal_safe_with_bound_vars_def list_all_iff term_vars_def)+
  have "term_vars (terms (head rule)) \<subseteq> D \<union> literal_binds ?l \<union> (\<Union>li\<in>set order. literal_binds (body rule ! li))"
    using Cons.prems(4) by auto
  from Cons.IH[OF safe(2) bits Cons.prems(3) this] li needs show ?case by simp
qed simp

lemma plan_binds:
  assumes "safe_permutation rule order" "rule_wf rule" "range_restricted rule"
  shows "order_binds rule {} order"
proof -
  have "(\<Union>li\<in>set order. literal_binds (body rule ! li)) = (\<Union>l\<in>set (body rule). literal_binds l)"
    using assms(1) by (force simp: safe_permutation_def in_set_conv_nth)
  then show ?thesis
    using order_safe_binds[of rule 0 order "{}"] assms by (simp add: safe_permutation_def range_restricted_def)
qed

text \<open>The outcome of a whole rule application, which also moves the shortcut flag.\<close>

definition applied :: "solve_state \<Rightarrow> fact set \<Rightarrow> bool \<times> solve_state \<Rightarrow> bool" where
  "applied st D r \<longleftrightarrow>
     (case r of (ok, st') \<Rightarrow>
        grows st st' \<and> idb_inv st' \<and> set (idb_facts st') \<subseteq> set (idb_facts st) \<union> D \<and>
        (ok \<longrightarrow> D \<subseteq> base_facts st \<union> set (idb_facts st')))"

lemma enter_rule_parts [simp]:
  "fixed_view (enter_rule rule st) = fixed_view st" "idb_facts (enter_rule rule st) = idb_facts st"
  "idb_proof_index (enter_rule rule st) = idb_proof_index st" "idb_per_pred (enter_rule rule st) = idb_per_pred st"
  "head_may_be_in_base (enter_rule rule st) = head_in_base_check st rule" "idb_sorted (enter_rule rule st) = idb_sorted st"
  by (simp_all add: enter_rule_def fixed_view_def)

lemma enter_rule_grows: "grows st (enter_rule rule st)" "grows (enter_rule rule st) st"
  by (simp_all add: grows_def)

lemma enter_rule_inv: "idb_inv (enter_rule rule st) \<longleftrightarrow> idb_inv st"
proof -
  have fv: "fixed_view (enter_rule rule st) = fixed_view st" by simp
  show ?thesis unfolding idb_inv_def snapshot_ok_cong[OF fv] base_facts_cong[OF fv] fixed_viewD[OF fv] by simp
qed

lemma enter_rule_flag: "snapshot_ok st \<Longrightarrow> head_flag_ok rule (enter_rule rule st)"
  using head_check_sound[of st rule] base_facts_cong[of "enter_rule rule st" st]
  by (auto simp: head_flag_ok_def base_facts_def fact_in_slice_def list_ex_iff)

lemma derive_planned_applied:
  assumes inv: "idb_inv st" "windows_ok st" "\<not> finalized st" and rule: "rule_wf rule" "range_restricted rule"
    and plan: "safe_permutation rule order"
  shows "applied st (rule_heads rs rule st delta) (derive_planned rs rule delta depth order empty_bindings parent st)"
proof -
  let ?st = "enter_rule rule st"
  have dom: "dom (bmap empty_bindings) = {}" by (simp add: dom_def)
  have "derives ?st (yields empty_bindings (\<lambda>\<sigma>. \<forall>li\<in>set order. literal_true rs rule ?st delta \<sigma> li) (head rule))
    (derive_ordered rs rule delta depth order empty_bindings parent ?st)"
  proof (rule derive_ordered_derives)
    show "idb_inv ?st" using inv(1) by (simp add: enter_rule_inv)
    show "windows_ok ?st" using inv(2) windows_ok_grows[OF enter_rule_grows(1)] by simp
    show "\<not> finalized ?st" using inv(3) fixed_viewD(12)[OF enter_rule_parts(1)] by simp
    show "head_flag_ok rule ?st" using inv(1) by (intro enter_rule_flag) (simp add: idb_inv_def)
    show "order_binds rule (dom (bmap empty_bindings)) order" using plan_binds[OF plan rule] by (simp add: dom)
  qed (simp_all add: rule)
  moreover have "yields empty_bindings (\<lambda>\<sigma>. \<forall>li\<in>set order. literal_true rs rule ?st delta \<sigma> li) (head rule) =
      rule_heads rs rule st delta"
    using plan by (auto simp: yields_def rule_heads_def safe_permutation_def literal_true_grows[OF enter_rule_grows(1) inv])
  ultimately have d: "derives ?st (rule_heads rs rule st delta) (derive_planned rs rule delta depth order empty_bindings parent st)"
    by (simp add: derive_planned_def)
  obtain ok st' where r: "derive_planned rs rule delta depth order empty_bindings parent st = (ok, st')"
    by (cases "derive_planned rs rule delta depth order empty_bindings parent st")
  have "extends ?st st'" using d by (simp add: r derives_def)
  then have "grows st st'" by (rule grows_trans[OF enter_rule_grows(1) extends_grows])
  then show ?thesis using d base_facts_cong[OF enter_rule_parts(1)] by (simp add: r derives_def applied_def)
qed

lemma idb_outside_base: "idb_inv st \<Longrightarrow> set (idb_facts st) \<inter> base_facts st = {}"
  by (auto simp: idb_inv_def)

lemma applied_exact:
  assumes "applied st D (True, st')"
  shows "set (idb_facts st') = set (idb_facts st) \<union> (D - base_facts st)"
proof -
  have g: "grows st st'" "idb_inv st'" using assms by (simp_all add: applied_def)
  have "base_facts st' = base_facts st" using base_facts_cong grows_fixed(1)[OF g(1)] by blast
  then have "set (idb_facts st') \<inter> base_facts st = {}" using idb_outside_base[OF g(2)] by simp
  moreover have "set (idb_facts st) \<subseteq> set (idb_facts st')" using g(1) by (auto simp: grows_def)
  ultimately show ?thesis using assms by (auto simp: applied_def)
qed

section \<open>Properties\<close>

text \<open>
  (C23) One rule application is exact: with any safe join order it appends only heads of valuations that
  satisfy the body (positive atoms over the facts visible to the round, comparisons, filters, negation and
  aggregates), never a fact of the base or a duplicate, within the capacity bounds; and when it is not fatal
  it has appended every such head that is not in the base.
\<close>

theorem rule_application_exact:
  assumes "idb_inv st" "windows_ok st" "\<not> finalized st" "rule_wf rule" "range_restricted rule"
    "safe_permutation rule order"
    "derive_planned rs rule delta depth order empty_bindings parent st = (ok, st')"
  shows "idb_inv st' \<and> set (idb_facts st') \<subseteq> set (idb_facts st) \<union> (rule_heads rs rule st delta - base_facts st) \<and>
    (ok \<longrightarrow> set (idb_facts st') = set (idb_facts st) \<union> (rule_heads rs rule st delta - base_facts st))"
proof -
  have a: "applied st (rule_heads rs rule st delta) (ok, st')" using derive_planned_applied[OF assms(1-6)] assms(7) by metis
  then have g: "grows st st'" "idb_inv st'" "set (idb_facts st') \<subseteq> set (idb_facts st) \<union> rule_heads rs rule st delta"
    by (simp_all add: applied_def)
  have "set (idb_facts st') \<inter> base_facts st = {}"
    using idb_outside_base[OF g(2)] base_facts_cong grows_fixed(1)[OF g(1)] by metis
  then show ?thesis using g a applied_exact by auto
qed

text \<open>
  (C24) The join order does not matter: evaluating the body of a rule in the lexical order and in the order of
  any plan derives the same facts whenever neither run is fatal, for every lexically safe rule.
\<close>

theorem join_order_irrelevant:
  assumes "idb_inv st" "windows_ok st" "\<not> finalized st" "rule_wf rule" "range_restricted rule"
    "order_safe rule 0 [0..<length (body rule)]" "build_static_join_order rs rule delta = Inr order"
    "derive_recursive rs rule 0 delta depth empty_bindings parent st = (True, st1)"
    "derive_planned rs rule delta depth order empty_bindings parent st = (True, st2)"
  shows "set (idb_facts st1) = set (idb_facts st2)"
proof -
  have "safe_permutation rule [0..<length (body rule)]" using assms(6) by (auto simp: safe_permutation_def)
  from derive_planned_applied[OF assms(1-5) this, of rs delta depth parent] assms(8)
  have "applied st (rule_heads rs rule st delta) (True, st1)" by (simp add: derive_recursive_planned)
  moreover have "safe_permutation rule order"
    using build_static_join_order_spec[OF assms(7)] by (simp add: safe_permutation_def)
  with derive_planned_applied[OF assms(1-5) this, of rs delta depth parent] assms(9)
  have "applied st (rule_heads rs rule st delta) (True, st2)" by simp
  ultimately show ?thesis using applied_exact by simp
qed

end
