(* ===== verification/Safe_Rules.thy ===== *)
theory Safe_Rules
  imports Validate Derive
begin

unbundle bit_operations_syntax

text \<open>
  What the validation of a rule gives the evaluation: variable masks read as sets, a safe order of the body for
  every rule without a fault, and arithmetic expressions whose evaluation stays within the bound of expanded nodes.
\<close>

section \<open>Masks as sets\<close>

lemma bit_variable_bit: "bit (variable_bit t) v \<longleftrightarrow> v = term_variable t \<and> v < MAX_RULE_VARIABLES"
  by (auto simp: variable_bit_def bit_exp_iff MAX_RULE_VARIABLES_def)

lemma var_in: "is_var t \<Longrightarrow> t = TERM_VAR (term_variable t)"
  by (cases t) auto

lemma bit_vars_in_atom:
  "bit (vars_in_atom a m) v \<longleftrightarrow> bit m v \<or> v < MAX_RULE_VARIABLES \<and> v \<in> term_vars (terms a)"
proof -
  have "bit (fold (\<lambda>t m. if is_var t \<and> term_variable t < MAX_RULE_VARIABLES then m OR variable_bit t else m) ts m) v \<longleftrightarrow>
      bit m v \<or> v < MAX_RULE_VARIABLES \<and> v \<in> term_vars ts" for ts
  proof (induction ts arbitrary: m)
    case (Cons t ts)
    then show ?case by (cases t) (auto simp: bit_or_iff bit_variable_bit)
  qed simp
  then show ?thesis by (simp add: vars_in_atom_def)
qed

lemma bit_atom_vars: "bit (atom_vars a) v \<longleftrightarrow> v < MAX_RULE_VARIABLES \<and> v \<in> term_vars (terms a)"
  by (simp add: atom_vars_def bit_vars_in_atom)

lemma bit_range: "bit (m :: 32 word) v \<Longrightarrow> v < MAX_RULE_VARIABLES"
  using bit_imp_le_length[of m v] by (simp add: MAX_RULE_VARIABLES_def)

lemma masked_subset: "(m AND NOT b) = 0 \<longleftrightarrow> (\<forall>v. bit m v \<longrightarrow> bit b v)" for m b :: "32 word"
proof -
  have "(m AND NOT b) = 0 \<longleftrightarrow> (\<forall>v<32. bit m v \<longrightarrow> bit b v)"
    by (auto simp: bit_eq_iff bit_and_iff bit_not_iff)
  then show ?thesis using bit_range[of m] by (auto simp: MAX_RULE_VARIABLES_def)
qed

lemma masked_test: "(m AND variable_bit t) \<noteq> 0 \<longleftrightarrow> bit m (term_variable t)"
  by (simp add: variable_bit_def bit_iff_and_push_bit_not_eq_0)

lemma bit_named_mask: "bit named_mask v \<longleftrightarrow> v < NAMED_VARIABLE_COUNT"
proof -
  have "named_mask = mask NAMED_VARIABLE_COUNT" by (simp add: named_mask_def mask_eq_exp_minus_1 push_bit_eq_mult)
  moreover have "bit (mask NAMED_VARIABLE_COUNT :: 32 word) v \<longleftrightarrow> v < NAMED_VARIABLE_COUNT"
    by (auto simp: bit_mask_iff NAMED_VARIABLE_COUNT_def)
  ultimately show ?thesis by simp
qed

section \<open>Expressions\<close>

text \<open>Each node of a validated rule is a literal, a variable of the array, or an operation on earlier nodes.\<close>

definition node_ok :: "nat \<Rightarrow> arith_expr_node \<Rightarrow> bool" where
  "node_ok i n \<longleftrightarrow>
     (case node_kind n of
        ARITH_INT_LITERAL \<Rightarrow> \<exists>k. node_term n = TERM_INT k \<and> 0 \<le> k \<and> k \<le> MAX_INT
      | ARITH_VAR \<Rightarrow> is_var (node_term n) \<and> term_variable (node_term n) < MAX_RULE_VARIABLES
      | ARITH_OTHER _ \<Rightarrow> False
      | _ \<Rightarrow> node_left n < i \<and> node_right n < i)"

lemma node_operands_ok: "node_operands r n expanded = Some k \<Longrightarrow> node_ok (length expanded) n"
  by (cases "node_term n") (auto simp: node_operands_def node_ok_def split: arith_kind.splits if_splits)

lemma expressions_loop_nodes:
  assumes "expressions_loop r ns expanded" "i < length ns"
  shows "node_ok (length expanded + i) (ns ! i)"
  using assms
proof (induction ns arbitrary: expanded i)
  case (Cons n ns)
  then obtain k where k: "node_operands r n expanded = Some k" "expressions_loop r ns (expanded @ [k + 1])"
    by (auto split: option.splits)
  show ?case
  proof (cases i)
    case 0
    then show ?thesis using node_operands_ok[OF k(1)] by simp
  next
    case (Suc j)
    then show ?thesis using Cons.IH[OF k(2), of j] Cons.prems(2) by simp
  qed
qed simp

definition nodes_ok :: "rule \<Rightarrow> bool" where
  "nodes_ok rule \<longleftrightarrow> length (expr_nodes rule) \<le> MAX_ARITH_EXPR_NODES \<and> (\<forall>i<length (expr_nodes rule). node_ok i (expr_nodes rule ! i))"

lemma valid_expressions_nodes: "valid_expressions r rule \<Longrightarrow> nodes_ok rule"
  using expressions_loop_nodes[of r "expr_nodes rule" "[]"] by (auto simp: valid_expressions_def nodes_ok_def)

lemma nodes_root: "nodes_ok rule \<Longrightarrow> root < length (expr_nodes rule) \<Longrightarrow> root \<noteq> ARITH_EXPR_NO_NODE"
  by (auto simp: nodes_ok_def ARITH_EXPR_NO_NODE_def MAX_ARITH_EXPR_NODES_def)

lemma bit_vars_in_arith_expr:
  "bit (vars_in_arith_expr fuel rule root m) v \<longleftrightarrow> bit m v \<or> bit (vars_in_arith_expr fuel rule root 0) v"
proof (induction fuel arbitrary: root m)
  case (Suc fuel)
  show ?case
    using Suc[of _ m] Suc[of _ "vars_in_arith_expr fuel rule (node_left (expr_nodes rule ! root)) m"]
      Suc[of _ "vars_in_arith_expr fuel rule (node_left (expr_nodes rule ! root)) 0"]
    by (cases "node_kind (expr_nodes rule ! root)") (auto simp: Let_def bit_or_iff)
qed simp

lemma validated_expression_safe:
  assumes "nodes_ok rule" "root < length (expr_nodes rule)" "root < fuel"
    "\<forall>v. bit (vars_in_arith_expr fuel rule root 0) v \<longrightarrow> bit bvm v"
  shows "arith_expr_safe_with_bound_vars fuel rule root bvm"
  using assms(2-4)
proof (induction fuel arbitrary: root)
  case (Suc fuel)
  let ?n = "expr_nodes rule ! root"
  have ok: "node_ok root ?n" using assms(1) Suc.prems(1) by (simp add: nodes_ok_def)
  have root: "root \<noteq> ARITH_EXPR_NO_NODE" using nodes_root[OF assms(1) Suc.prems(1)] .
  have sub: "arith_expr_safe_with_bound_vars fuel rule (node_left ?n) bvm \<and> arith_expr_safe_with_bound_vars fuel rule (node_right ?n) bvm"
    if "node_left ?n < root" "node_right ?n < root"
      "\<forall>v. bit (vars_in_arith_expr fuel rule (node_right ?n) (vars_in_arith_expr fuel rule (node_left ?n) 0)) v \<longrightarrow> bit bvm v"
  proof -
    have "\<forall>v. bit (vars_in_arith_expr fuel rule (node_left ?n) 0) v \<or> bit (vars_in_arith_expr fuel rule (node_right ?n) 0) v \<longrightarrow> bit bvm v"
      using that(3) bit_vars_in_arith_expr[of fuel rule "node_right ?n" "vars_in_arith_expr fuel rule (node_left ?n) 0"] by blast
    then show ?thesis using Suc.IH Suc.prems(1,2) that(1,2) by simp
  qed
  have var: "bit bvm (term_variable (node_term ?n)) \<and> term_variable (node_term ?n) < 64" if "node_kind ?n = ARITH_VAR"
    using that ok Suc.prems(1,3) root by (simp add: node_ok_def Let_def bit_variable_bit MAX_RULE_VARIABLES_def)
  show ?case
    using ok root Suc.prems(1,3) sub var
    by (cases "node_kind ?n") (simp_all add: node_ok_def Let_def bit_iff_and_push_bit_not_eq_0)
qed simp

section \<open>A safe order for every rule without a fault\<close>

lemma bit_positive_vars:
  "bit (positive_vars rule) v \<longleftrightarrow> (\<exists>a. LIT_ATOM a \<in> set (body rule) \<and> v < MAX_RULE_VARIABLES \<and> v \<in> term_vars (terms a))"
proof -
  have "bit (fold (\<lambda>l m. case l of LIT_ATOM a \<Rightarrow> vars_in_atom a m | _ \<Rightarrow> m) ls m) v \<longleftrightarrow>
      bit m v \<or> (\<exists>a. LIT_ATOM a \<in> set ls \<and> v < MAX_RULE_VARIABLES \<and> v \<in> term_vars (terms a))" for ls m
    by (induction ls arbitrary: m) (auto simp: bit_vars_in_atom split: literal.split)
  then show ?thesis by (simp add: positive_vars_def)
qed

fun result_bit :: "literal \<Rightarrow> 32 word" where
  "result_bit (LIT_AGGREGATE _ _ _ rhs) = variable_bit rhs"
| "result_bit _ = 0"

fun keys_bound :: "32 word \<Rightarrow> literal \<Rightarrow> bool" where
  "keys_bound positive (LIT_AGGREGATE _ a lhs _) \<longleftrightarrow> (\<forall>v. bit (aggregate_keys a lhs) v \<longrightarrow> bit positive v)"
| "keys_bound positive _ \<longleftrightarrow> True"

lemma scope_pass_spec:
  assumes "scope_pass rule positive ls (bound, outside) = Inr (bound', outside')"
  shows "(bit bound' v \<longleftrightarrow> bit bound v \<or> (\<exists>l\<in>set ls. bit (result_bit l) v)) \<and> (\<forall>l\<in>set ls. keys_bound positive l)"
  using assms
proof (induction ls arbitrary: bound outside)
  case (Cons l ls)
  show ?case
  proof (cases l)
    case (LIT_AGGREGATE kind a lhs rhs)
    then have ok: "(aggregate_keys a lhs AND NOT positive) = 0"
      "scope_pass rule positive ls (bound OR variable_bit rhs, outside OR variable_bit rhs OR aggregate_keys a lhs) = Inr (bound', outside')"
      using Cons.prems by (auto split: if_splits)
    from Cons.IH[OF ok(2)] ok(1) LIT_AGGREGATE show ?thesis by (auto simp: masked_subset bit_or_iff)
  qed (use Cons in auto)
qed auto

text \<open>The rules a program pass accepts.\<close>

definition rule_valid :: "ruleset \<Rightarrow> rule \<Rightarrow> bool" where
  "rule_valid r rule \<longleftrightarrow> length (body rule) \<le> MAX_BODY_LITERALS \<and> valid_atom r (head rule) True \<and> valid_expressions r rule \<and>
     list_all (valid_literal r rule) (body rule) \<and> rule_fault rule = None"

lemma valid_atom_wf: "valid_atom r a variables \<Longrightarrow> terms_wf (terms a)"
proof -
  have "valid_term r t variables \<Longrightarrow> term_kind_known t \<and> (\<forall>v. t = TERM_VAR v \<longrightarrow> v < MAX_RULE_VARIABLES)" for t by (cases t) auto
  then show "valid_atom r a variables \<Longrightarrow> terms_wf (terms a)"
    by (auto simp: valid_atom_def terms_wf_def term_vars_def list_all_iff split: option.splits)
qed

lemma valid_literal_wf: "valid_literal r rule l \<Longrightarrow> literal_wf l"
  by (cases l) (auto simp: valid_literal_def valid_aggregate_def dest: valid_atom_wf)

lemma rule_valid_wf: "rule_valid r rule \<Longrightarrow> rule_wf rule"
  by (auto simp: rule_valid_def rule_wf_def list_all_iff dest: valid_atom_wf valid_literal_wf)

text \<open>The final masks of a rule without a fault.\<close>

lemma rule_valid_masks:
  assumes "rule_valid r rule"
  obtains bound where
    "\<And>v. bit bound v \<longleftrightarrow> v \<in> (\<Union>l\<in>set (body rule). literal_binds l) \<and> v < MAX_RULE_VARIABLES"
    "\<And>k i u. LIT_FILTER k i u \<in> set (body rule) \<Longrightarrow> is_var u \<Longrightarrow> bit bound (term_variable u)"
    "\<And>l. l \<in> set (body rule) \<Longrightarrow> \<not> comparison_unbound rule bound l"
    "\<And>a. LIT_NEGATED_ATOM a \<in> set (body rule) \<Longrightarrow> \<forall>v. bit (atom_vars a) v \<longrightarrow> bit bound v"
    "\<And>v. bit (atom_vars (head rule)) v \<Longrightarrow> bit bound v"
    "\<And>l. l \<in> set (body rule) \<Longrightarrow> keys_bound (positive_vars rule) l"
proof -
  let ?start = "(positive_vars rule, atom_vars (head rule) OR positive_vars rule)"
  have none: "rule_fault rule = None" and lits: "list_all (valid_literal r rule) (body rule)" using assms by (simp_all add: rule_valid_def)
  then obtain bound outside where pass: "scope_pass rule (positive_vars rule) (body rule) ?start = Inr (bound, outside)"
    and ok: "\<not> list_ex (filter_unbound bound) (body rule)" "\<not> list_ex (comparison_unbound rule bound) (body rule)"
    "\<not> list_ex (negation_unbound bound) (body rule)" "(atom_vars (head rule) AND NOT bound) = 0"
    by (auto simp: rule_fault_def Let_def split: sum.splits if_splits)
  note s = scope_pass_spec[OF pass]
  have bound: "bit bound v \<longleftrightarrow> v \<in> (\<Union>l\<in>set (body rule). literal_binds l) \<and> v < MAX_RULE_VARIABLES" for v
  proof -
    have "bit (result_bit l) v \<or> (\<exists>a. l = LIT_ATOM a \<and> v < MAX_RULE_VARIABLES \<and> v \<in> term_vars (terms a)) \<longleftrightarrow>
        v \<in> literal_binds l \<and> v < MAX_RULE_VARIABLES" if "l \<in> set (body rule)" for l
    proof (cases l)
      case (LIT_AGGREGATE kind a lhs rhs)
      then have "is_var rhs" using lits that by (auto simp: list_all_iff valid_literal_def valid_aggregate_def)
      then show ?thesis using LIT_AGGREGATE by (cases rhs) (auto simp: bit_variable_bit)
    qed auto
    then have "(\<exists>l\<in>set (body rule). bit (result_bit l) v \<or> (\<exists>a. l = LIT_ATOM a \<and> v < MAX_RULE_VARIABLES \<and> v \<in> term_vars (terms a))) \<longleftrightarrow>
        (\<exists>l\<in>set (body rule). v \<in> literal_binds l \<and> v < MAX_RULE_VARIABLES)" by blast
    moreover have "bit bound v \<longleftrightarrow> bit (positive_vars rule) v \<or> (\<exists>l\<in>set (body rule). bit (result_bit l) v)" using s[of v] by (rule conjunct1)
    ultimately show ?thesis unfolding bit_positive_vars UN_iff by blast
  qed
  have filters: "bit bound (term_variable u)" if "LIT_FILTER k i u \<in> set (body rule)" "is_var u" for k i u
  proof -
    have "valid_term r u True" using lits that(1) by (auto simp: list_all_iff valid_literal_def)
    then have "term_variable u < MAX_RULE_VARIABLES" using that(2) by (cases u) auto
    moreover have "\<not> filter_unbound bound (LIT_FILTER k i u)" using ok(1) that(1) by (auto simp: list_ex_iff)
    ultimately show ?thesis using that(2) by (simp add: filter_unbound_def masked_subset bit_variable_bit)
  qed
  show thesis
    by (rule that[of bound]) (use bound filters ok s in \<open>auto simp: list_ex_iff negation_unbound_def masked_subset\<close>)
qed

lemma term_safe_iff:
  "comparison_term_safe_with_bound_vars t bvm \<longleftrightarrow> (is_var t \<longrightarrow> term_variable t < 64 \<and> bit bvm (term_variable t))"
  by (auto simp: comparison_term_safe_with_bound_vars_def bit_iff_and_push_bit_not_eq_0)

lemma order_safe_all: "\<forall>i\<in>set is. literal_safe_with_bound_vars rule i bvm \<Longrightarrow> order_safe rule bvm is"
proof (induction "is" arbitrary: bvm)
  case (Cons i "is")
  have "mask_le bvm (bvm OR literal_var_mask (body rule ! i))" by (simp add: mask_le_def bit_or_iff)
  then show ?case using Cons literal_safe_mono by simp
qed simp

lemma bit_atom_mask: "bit (literal_var_mask (LIT_ATOM a)) v \<longleftrightarrow> v < 64 \<and> v \<in> term_vars (terms a)"
proof -
  have "bit (fold (\<lambda>t m. if is_var t \<and> term_variable t < 64 then m OR push_bit (term_variable t) 1 else m) ts m) v \<longleftrightarrow>
      bit m v \<or> v < 64 \<and> v \<in> term_vars ts" for ts and m :: "64 word"
  proof (induction ts arbitrary: m)
    case (Cons t ts)
    then show ?case by (cases t) (auto simp: bit_or_iff bit_exp_iff)
  qed simp
  then show ?thesis by simp
qed

text \<open>The order a compiler could have chosen: atoms, then aggregates, then the literals that only test.\<close>

definition binding_order :: "rule \<Rightarrow> nat list" where
  "binding_order rule =
     (let idx = [0..<length (body rule)]; at = (\<lambda>i. literal_kind_code (body rule ! i) = 1); ag = (\<lambda>i. literal_is_aggregate (body rule ! i))
      in filter at idx @ filter (\<lambda>i. \<not> at i \<and> ag i) idx @ filter (\<lambda>i. \<not> at i \<and> \<not> ag i) idx)"

lemma atom_kind: "literal_kind_code l = Suc 0 \<longleftrightarrow> (\<exists>a. l = LIT_ATOM a)"
  by (cases l rule: literal_kind_code.cases) auto

lemma aggregate_kind: "literal_is_aggregate l \<longleftrightarrow> (\<exists>kind a lhs rhs. l = LIT_AGGREGATE kind a lhs rhs)"
  by (cases l) auto

lemma small_variable: "v < MAX_RULE_VARIABLES \<Longrightarrow> v < 64"
  by (simp add: MAX_RULE_VARIABLES_def)

lemma order_mask_bits: "bit (order_mask rule is) v \<longleftrightarrow> (\<exists>i\<in>set is. bit (literal_var_mask (body rule ! i)) v)"
  by (simp add: order_mask_def bit_fold_or)

lemma binding_mask:
  assumes "rule_valid r rule" "l \<in> set (body rule)" "v \<in> literal_binds l" "v < MAX_RULE_VARIABLES"
  shows "bit (literal_var_mask l) v"
proof (cases l)
  case (LIT_ATOM a)
  then show ?thesis using assms(3,4) bit_atom_mask small_variable by simp
next
  case (LIT_AGGREGATE kind a lhs rhs)
  then have "is_var rhs" using assms(1,2) by (auto simp: rule_valid_def list_all_iff valid_literal_def valid_aggregate_def)
  then show ?thesis using LIT_AGGREGATE assms(3,4) small_variable by (cases rhs) (auto simp: bit_exp_iff)
qed (use assms(3) in auto)

lemma aggregate_safe:
  assumes "rule_valid r rule" "i < length (body rule)" "body rule ! i = LIT_AGGREGATE kind a lhs rhs"
    "keys_bound (positive_vars rule) (body rule ! i)" "\<And>v. bit (positive_vars rule) v \<Longrightarrow> bit bvm v"
  shows "literal_safe_with_bound_vars rule i bvm"
proof -
  have "terms_wf (terms a)"
    using assms(1-3) by (auto simp: rule_valid_def list_all_length valid_literal_def valid_aggregate_def dest!: spec[of _ i] dest: valid_atom_wf)
  then have "comparison_term_safe_with_bound_vars t bvm"
    if "t \<in> set (terms a)" "is_var t" "term_variable t \<noteq> term_variable lhs" "term_variable t < NAMED_VARIABLE_COUNT" for t
  proof -
    have t: "term_variable t \<in> term_vars (terms a)" using that var_in[of t] by (simp add: term_vars_def)
    then have "term_variable t < MAX_RULE_VARIABLES" using \<open>terms_wf (terms a)\<close> by (simp add: terms_wf_def)
    then have "bit (aggregate_keys a lhs) (term_variable t)"
      using t that(3,4) by (simp add: aggregate_keys_def bit_and_iff bit_atom_vars bit_named_mask bit_not_iff bit_variable_bit MAX_RULE_VARIABLES_def)
    then show ?thesis using assms(3-5) \<open>term_variable t < MAX_RULE_VARIABLES\<close> small_variable by (auto simp: term_safe_iff)
  qed
  then show ?thesis using assms(2,3) by (fastforce simp: literal_safe_with_bound_vars_def list_all_iff)
qed

lemma comparison_safe:
  assumes "nodes_ok rule" "valid_comparison r rule (LIT_COMPARISON lhs op rhs h p q)"
    "\<not> comparison_unbound rule bound (LIT_COMPARISON lhs op rhs h p q)" "\<And>v. bit bound v \<Longrightarrow> bit bvm v"
    "i < length (body rule)" "body rule ! i = LIT_COMPARISON lhs op rhs h p q"
  shows "literal_safe_with_bound_vars rule i bvm"
proof (cases h)
  case True
  then have root: "p < length (expr_nodes rule)" "q < length (expr_nodes rule)" using assms(2) by (simp_all add: valid_comparison_def)
  have "\<forall>v. bit (comparison_vars rule (LIT_COMPARISON lhs op rhs h p q) 0) v \<longrightarrow> bit bvm v"
    using assms(3,4) by (auto simp: comparison_unbound_def masked_subset)
  then have "\<forall>v. bit (vars_in_arith_expr (expr_fuel rule) rule p 0) v \<or> bit (vars_in_arith_expr (expr_fuel rule) rule q 0) v \<longrightarrow> bit bvm v"
    using True bit_vars_in_arith_expr[of "expr_fuel rule" rule q "vars_in_arith_expr (expr_fuel rule) rule p 0"] by (auto simp: comparison_vars_def)
  moreover have "p < expr_fuel rule" "q < expr_fuel rule" using root by (simp_all add: expr_fuel_def)
  ultimately have "arith_expr_safe_with_bound_vars (expr_fuel rule) rule p bvm" "arith_expr_safe_with_bound_vars (expr_fuel rule) rule q bvm"
    using root validated_expression_safe[OF assms(1)] by blast+
  then show ?thesis using True assms(5,6) by (simp add: literal_safe_with_bound_vars_def)
next
  case False
  have small: "is_var t \<Longrightarrow> valid_term r t True \<Longrightarrow> term_variable t < MAX_RULE_VARIABLES" for t by (cases t) auto
  have "valid_term r lhs True" "valid_term r rhs True" using False assms(2) by (simp_all add: valid_comparison_def)
  moreover have "\<forall>v. bit (comparison_vars rule (LIT_COMPARISON lhs op rhs h p q) 0) v \<longrightarrow> bit bvm v"
    using assms(3,4) by (auto simp: comparison_unbound_def masked_subset)
  ultimately show ?thesis using False assms(5,6) small small_variable
    by (auto simp: literal_safe_with_bound_vars_def term_safe_iff comparison_vars_def Let_def bit_or_iff bit_variable_bit split: if_splits)
qed

lemma rule_valid_permutation:
  assumes "rule_valid r rule" shows "safe_permutation rule (binding_order rule)"
proof -
  let ?idx = "[0..<length (body rule)]"
  let ?at = "\<lambda>i. literal_kind_code (body rule ! i) = 1" and ?ag = "\<lambda>i. literal_is_aggregate (body rule ! i)"
  define A where "A = filter ?at ?idx"
  define B where "B = filter (\<lambda>i. \<not> ?at i \<and> ?ag i) ?idx"
  define D where "D = filter (\<lambda>i. \<not> ?at i \<and> \<not> ?ag i) ?idx"
  have order: "binding_order rule = A @ B @ D" unfolding binding_order_def Let_def A_def B_def D_def ..
  obtain bound where m: "\<And>v. bit bound v \<longleftrightarrow> v \<in> (\<Union>l\<in>set (body rule). literal_binds l) \<and> v < MAX_RULE_VARIABLES"
    "\<And>k i u. LIT_FILTER k i u \<in> set (body rule) \<Longrightarrow> is_var u \<Longrightarrow> bit bound (term_variable u)"
    "\<And>l. l \<in> set (body rule) \<Longrightarrow> \<not> comparison_unbound rule bound l"
    "\<And>a. LIT_NEGATED_ATOM a \<in> set (body rule) \<Longrightarrow> \<forall>v. bit (atom_vars a) v \<longrightarrow> bit bound v"
    "\<And>v. bit (atom_vars (head rule)) v \<Longrightarrow> bit bound v"
    "\<And>l. l \<in> set (body rule) \<Longrightarrow> keys_bound (positive_vars rule) l"
    using rule_valid_masks[OF assms] by blast
  have maskA: "bit (order_mask rule A) v" if positive: "bit (positive_vars rule) v" for v
  proof -
    obtain a where a: "LIT_ATOM a \<in> set (body rule)" "v < MAX_RULE_VARIABLES" "v \<in> term_vars (terms a)" using positive bit_positive_vars by blast
    then obtain i where "i < length (body rule)" "body rule ! i = LIT_ATOM a" by (auto simp: in_set_conv_nth)
    then show ?thesis unfolding order_mask_bits using a bit_atom_mask small_variable by (intro bexI[of _ i]) (auto simp: A_def)
  qed
  have maskAB: "bit (order_mask rule (A @ B)) v" if bnd: "bit bound v" for v
  proof -
    obtain l where l: "l \<in> set (body rule)" "v \<in> literal_binds l" "v < MAX_RULE_VARIABLES" using bnd m(1) by blast
    then obtain i where i: "i < length (body rule)" "body rule ! i = l" by (auto simp: in_set_conv_nth)
    have "literal_kind_code l = 1 \<or> literal_is_aggregate l" using l(2) by (cases l) auto
    then show ?thesis unfolding order_mask_bits using binding_mask[OF assms l] i by (intro bexI[of _ i]) (auto simp: A_def B_def)
  qed
  have lit: "valid_literal r rule (body rule ! i)" if "i < length (body rule)" for i
    using assms that by (auto simp: rule_valid_def list_all_length)
  have nodes: "nodes_ok rule" using assms valid_expressions_nodes by (auto simp: rule_valid_def)
  have "order_safe rule 0 A" by (rule order_safe_all) (auto simp: A_def atom_kind literal_safe_with_bound_vars_def)
  moreover have "order_safe rule (order_mask rule A) B"
    using aggregate_safe[OF assms _ _ m(6)[OF nth_mem] maskA] by (intro order_safe_all) (auto simp: B_def aggregate_kind)
  moreover have "literal_safe_with_bound_vars rule i (order_mask rule (A @ B))" if "i \<in> set D" for i
  proof -
    have i: "i < length (body rule)" "\<not> ?at i" "\<not> ?ag i" using that by (auto simp: D_def)
    then have mem: "body rule ! i \<in> set (body rule)" by simp
    show ?thesis
    proof (cases "body rule ! i")
      case (LIT_COMPARISON lhs op rhs h p q)
      then show ?thesis using comparison_safe[OF nodes _ _ maskAB i(1)] lit[OF i(1)] m(3)[OF mem] by (simp add: valid_literal_def)
    next
      case (LIT_NEGATED_ATOM a)
      have "terms_wf (terms a)" using lit[OF i(1)] LIT_NEGATED_ATOM by (auto simp: valid_literal_def dest: valid_atom_wf)
      then have "is_var t \<Longrightarrow> bit bound (term_variable t) \<and> term_variable t < MAX_RULE_VARIABLES" if "t \<in> set (terms a)" for t
        using m(4)[of a] mem LIT_NEGATED_ATOM that var_in[of t] by (auto simp: bit_atom_vars terms_wf_def term_vars_def)
      then show ?thesis using LIT_NEGATED_ATOM i(1) maskAB small_variable
        by (auto simp: literal_safe_with_bound_vars_def list_all_iff term_safe_iff)
    next
      case (LIT_FILTER k j u)
      then have "is_var u \<Longrightarrow> bit bound (term_variable u)" using m(2) mem by metis
      then show ?thesis using LIT_FILTER i(1) maskAB bit_range small_variable by (auto simp: literal_safe_with_bound_vars_def term_safe_iff)
    next
      case (LIT_OTHER n)
      then show ?thesis using lit[OF i(1)] by (simp add: valid_literal_def)
    qed (use i in \<open>simp_all add: atom_kind\<close>)
  qed
  then have "order_safe rule (order_mask rule (A @ B)) D" by (simp add: order_safe_all)
  ultimately have "order_safe rule 0 (binding_order rule)" unfolding order order_safe_append order_mask_def by simp
  moreover have "distinct (binding_order rule)" "set (binding_order rule) = {..<length (body rule)}"
    unfolding order A_def B_def D_def by auto
  ultimately show ?thesis by (simp add: safe_permutation_def)
qed

section \<open>The value of an expression\<close>

text \<open>An expression node stands for a tree; the value of a tree over the bound variables, with 64-bit overflow at every node.\<close>

datatype arith_tree = A_INT int | A_VAR nat | A_BIN arith_kind arith_tree arith_tree

fun binary_kind :: "arith_kind \<Rightarrow> bool" where
  "binary_kind ARITH_ADD = True"
| "binary_kind ARITH_SUB = True"
| "binary_kind ARITH_MUL = True"
| "binary_kind _ = False"

fun arith_apply :: "arith_kind \<Rightarrow> int \<Rightarrow> int \<Rightarrow> int" where
  "arith_apply ARITH_ADD l r = l + r"
| "arith_apply ARITH_SUB l r = l - r"
| "arith_apply _ l r = l * r"

inductive denotes :: "rule \<Rightarrow> nat \<Rightarrow> arith_tree \<Rightarrow> bool" for rule where
  denotes_int: "i < length (expr_nodes rule) \<Longrightarrow> node_kind (expr_nodes rule ! i) = ARITH_INT_LITERAL \<Longrightarrow>
    denotes rule i (A_INT (term_integer (node_term (expr_nodes rule ! i))))"
| denotes_var: "i < length (expr_nodes rule) \<Longrightarrow> node_kind (expr_nodes rule ! i) = ARITH_VAR \<Longrightarrow>
    denotes rule i (A_VAR (term_variable (node_term (expr_nodes rule ! i))))"
| denotes_bin: "i < length (expr_nodes rule) \<Longrightarrow> binary_kind (node_kind (expr_nodes rule ! i)) \<Longrightarrow>
    denotes rule (node_left (expr_nodes rule ! i)) l \<Longrightarrow> denotes rule (node_right (expr_nodes rule ! i)) r \<Longrightarrow>
    denotes rule i (A_BIN (node_kind (expr_nodes rule ! i)) l r)"

inductive_cases denotesE: "denotes rule i t"

fun tree_value :: "(nat \<Rightarrow> term option) \<Rightarrow> arith_tree \<Rightarrow> int option" where
  "tree_value \<sigma> (A_INT k) = Some k"
| "tree_value \<sigma> (A_VAR v) = (case \<sigma> v of Some (TERM_INT k) \<Rightarrow> Some k | _ \<Rightarrow> None)"
| "tree_value \<sigma> (A_BIN op l r) =
     (case (tree_value \<sigma> l, tree_value \<sigma> r) of
        (Some x, Some y) \<Rightarrow> if long_long_overflow (arith_apply op x y) then None else Some (arith_apply op x y)
      | _ \<Rightarrow> None)"

fun tree_nodes :: "arith_tree \<Rightarrow> nat" where
  "tree_nodes (A_BIN _ l r) = tree_nodes l + tree_nodes r + 1"
| "tree_nodes _ = 1"

fun value_of :: "'e + int \<Rightarrow> int option" where
  "value_of (Inl _) = None"
| "value_of (Inr k) = Some k"

lemma denotes_unique: "denotes rule i t \<Longrightarrow> denotes rule i u \<Longrightarrow> t = u"
proof (induction arbitrary: u rule: denotes.induct)
  case (denotes_bin i l r)
  from denotes_bin.prems denotes_bin.IH denotes_bin.hyps(2) show ?case by (cases rule: denotesE) auto
qed (auto elim: denotesE)

lemma node_binary: "node_ok i n \<Longrightarrow> binary_kind (node_kind n) \<longleftrightarrow> node_kind n \<noteq> ARITH_INT_LITERAL \<and> node_kind n \<noteq> ARITH_VAR"
  by (cases "node_kind n") (auto simp: node_ok_def)

lemma node_children: "node_ok i n \<Longrightarrow> binary_kind (node_kind n) \<Longrightarrow> node_left n < i \<and> node_right n < i"
  by (cases "node_kind n") (auto simp: node_ok_def)

lemma denotes_total:
  assumes "nodes_ok rule" "i < length (expr_nodes rule)" shows "\<exists>t. denotes rule i t"
  using assms(2)
proof (induction i rule: less_induct)
  case (less i)
  let ?n = "expr_nodes rule ! i"
  have ok: "node_ok i ?n" using assms(1) less.prems by (simp add: nodes_ok_def)
  show ?case
  proof (cases "binary_kind (node_kind ?n)")
    case True
    then have "node_left ?n < i" "node_right ?n < i" using node_children[OF ok] by simp_all
    then obtain l r where "denotes rule (node_left ?n) l" "denotes rule (node_right ?n) r" using less by (meson order.strict_trans)
    then show ?thesis using denotes_bin[OF less.prems True] by blast
  next
    case False
    then show ?thesis using node_binary[OF ok] denotes_int[OF less.prems] denotes_var[OF less.prems] by blast
  qed
qed

lemma expressions_loop_sizes:
  assumes "expressions_loop r ns expanded"
  shows "\<exists>sizes. length sizes = length expanded + length ns \<and> (\<forall>i<length expanded. sizes ! i = expanded ! i) \<and>
    (\<forall>j<length ns. 1 \<le> sizes ! (length expanded + j) \<and> sizes ! (length expanded + j) \<le> MAX_ARITH_EXPR_NODES \<and>
      (binary_kind (node_kind (ns ! j)) \<longrightarrow>
        sizes ! (length expanded + j) = sizes ! node_left (ns ! j) + sizes ! node_right (ns ! j) + 1))"
  using assms
proof (induction ns arbitrary: expanded)
  case (Cons n ns)
  then obtain k where k: "node_operands r n expanded = Some k" "k + 1 \<le> MAX_ARITH_EXPR_NODES" "expressions_loop r ns (expanded @ [k + 1])"
    by (auto split: option.splits)
  from Cons.IH[OF k(3)] obtain sizes where s: "length sizes = length expanded + 1 + length ns"
    "\<forall>i<length expanded + 1. sizes ! i = (expanded @ [k + 1]) ! i"
    "\<forall>j<length ns. 1 \<le> sizes ! (length expanded + 1 + j) \<and> sizes ! (length expanded + 1 + j) \<le> MAX_ARITH_EXPR_NODES \<and>
      (binary_kind (node_kind (ns ! j)) \<longrightarrow>
        sizes ! (length expanded + 1 + j) = sizes ! node_left (ns ! j) + sizes ! node_right (ns ! j) + 1)" by auto
  have old: "\<forall>i<length expanded. sizes ! i = expanded ! i" using s(2) by (simp add: nth_append)
  have here: "sizes ! length expanded = k + 1" using s(2) by (auto simp: nth_append)
  have bin: "k = sizes ! node_left n + sizes ! node_right n" if "binary_kind (node_kind n)"
    using k(1) that old by (cases "node_kind n") (auto simp: node_operands_def split: if_splits)
  have "1 \<le> sizes ! (length expanded + j) \<and> sizes ! (length expanded + j) \<le> MAX_ARITH_EXPR_NODES \<and>
      (binary_kind (node_kind ((n # ns) ! j)) \<longrightarrow>
        sizes ! (length expanded + j) = sizes ! node_left ((n # ns) ! j) + sizes ! node_right ((n # ns) ! j) + 1)"
    if "j < length (n # ns)" for j
  proof (cases j)
    case 0
    then show ?thesis using here k(2) bin by simp
  next
    case (Suc m)
    then show ?thesis using s(3) that by simp
  qed
  then show ?case using s(1) old by (intro exI[of _ sizes]) simp
qed auto

lemma denotes_size:
  assumes "valid_expressions r rule" "denotes rule i t" shows "tree_nodes t \<le> MAX_ARITH_EXPR_NODES"
proof -
  obtain sizes where s: "\<forall>j<length (expr_nodes rule). 1 \<le> sizes ! j \<and> sizes ! j \<le> MAX_ARITH_EXPR_NODES \<and>
      (binary_kind (node_kind (expr_nodes rule ! j)) \<longrightarrow>
        sizes ! j = sizes ! node_left (expr_nodes rule ! j) + sizes ! node_right (expr_nodes rule ! j) + 1)"
    using expressions_loop_sizes[of r "expr_nodes rule" "[]"] assms(1) by (auto simp: valid_expressions_def)
  have "i < length (expr_nodes rule)" using assms(2) by (cases rule: denotesE) auto
  moreover have "tree_nodes t \<le> sizes ! i"
    using assms(2) by (induction rule: denotes.induct) (use s in force)+
  ultimately show ?thesis using s order_trans by blast
qed

lemma eval_denotes:
  assumes "nodes_ok rule" "denotes rule i t" "i < fuel"
  shows "value_of (eval_arith_expr fuel rule i b) = tree_value (bmap b) t"
  using assms(2,3)
proof (induction arbitrary: fuel rule: denotes.induct)
  case (denotes_int i)
  then show ?case using nodes_root[OF assms(1) denotes_int(1)] by (cases fuel) (auto simp: Let_def)
next
  case (denotes_var i)
  have "node_ok i (expr_nodes rule ! i)" using assms(1) denotes_var(1) by (simp add: nodes_ok_def)
  then have "term_variable (node_term (expr_nodes rule ! i)) < MAX_RULE_VARIABLES" using denotes_var(2) by (simp add: node_ok_def)
  then show ?case
    using denotes_var nodes_root[OF assms(1) denotes_var(1)] bindings_is_bound_iff[of "term_variable (node_term (expr_nodes rule ! i))" b]
      bmap_value[of b "term_variable (node_term (expr_nodes rule ! i))"]
    by (cases fuel; cases "bound_value b ! term_variable (node_term (expr_nodes rule ! i))") (auto simp: Let_def split: option.splits)
next
  case (denotes_bin i l r)
  let ?n = "expr_nodes rule ! i"
  have "node_ok i ?n" using assms(1) denotes_bin(1) by (simp add: nodes_ok_def)
  then have ch: "node_left ?n < i" "node_right ?n < i" using node_children denotes_bin(2) by blast+
  obtain f where f: "fuel = Suc f" using denotes_bin.prems by (cases fuel) auto
  have lt: "node_left ?n < f" "node_right ?n < f" using ch f denotes_bin.prems by linarith+
  have IH: "value_of (eval_arith_expr f rule (node_left ?n) b) = tree_value (bmap b) l"
    "value_of (eval_arith_expr f rule (node_right ?n) b) = tree_value (bmap b) r"
    using denotes_bin.IH(1)[OF lt(1)] denotes_bin.IH(2)[OF lt(2)] by simp_all
  show ?case
    using f denotes_bin.hyps(1,2) nodes_root[OF assms(1) denotes_bin.hyps(1)] IH[symmetric]
    by (cases "node_kind ?n") (auto simp: Let_def split: sum.splits option.splits)
qed

text \<open>
  (C8) Evaluation of a validated arithmetic expression terminates within the bound of expanded nodes: each root
  denotes exactly one tree, of at most \<^verbatim>\<open>MAX_ARITH_EXPR_NODES\<close> nodes although nodes are shared, and with any fuel above
  the position of the root the evaluator returns the value of that tree, or fails exactly when a variable has no
  integer value or an intermediate result leaves the 64-bit range.
\<close>

theorem expression_evaluation_terminates:
  assumes "valid_expressions r rule" "root < length (expr_nodes rule)"
  shows "\<exists>t. (\<forall>u. denotes rule root u \<longleftrightarrow> u = t) \<and> tree_nodes t \<le> MAX_ARITH_EXPR_NODES \<and> root < expr_fuel rule \<and>
    (\<forall>fuel b. root < fuel \<longrightarrow> value_of (eval_arith_expr fuel rule root b) = tree_value (bmap b) t)"
proof -
  have nodes: "nodes_ok rule" using valid_expressions_nodes[OF assms(1)] .
  obtain t where t: "denotes rule root t" using denotes_total[OF nodes assms(2)] by blast
  then have "\<forall>u. denotes rule root u \<longleftrightarrow> u = t" using denotes_unique by blast
  moreover have "root < expr_fuel rule" using assms(2) by (simp add: expr_fuel_def)
  ultimately show ?thesis using denotes_size[OF assms(1) t] eval_denotes[OF nodes t] by blast
qed

end
