(* ===== verification/Solve.thy ===== *)
theory Solve
  imports Derive
begin

unbundle bit_operations_syntax

text \<open>
  A whole evaluation (\<^verbatim>\<open>src/core/maelys_datalog_solver.c\<close>): the failure diagnostic it hands out, the
  preparation of the state, the semi-naive rounds, the single-stratum path (\<^verbatim>\<open>solve_once_run\<close>), the stratified
  path (\<^verbatim>\<open>solve_stratified_path\<close>) and ground queries over a finished result.

  A failing evaluation returns its result code and the diagnostic; the state, which the code frees, is not
  returned. Null arguments and an output that is already occupied are not modelled. Counters narrowed to
  \<^verbatim>\<open>uint16_t\<close> in the diagnostic are reduced modulo \<open>2 ^ 16\<close>; the anonymous union of the diagnostic is a
  record with a field for every view, and the category tells which one is meant.
\<close>

section \<open>The solve diagnostic\<close>

datatype solve_diag_category =
    SOLVE_DIAG_NONE | SOLVE_DIAG_MAX_DEPTH | SOLVE_DIAG_IDB_OVERFLOW | SOLVE_DIAG_COMPARISON_TYPE_ERROR
  | SOLVE_DIAG_FILTER_ERROR | SOLVE_DIAG_MALFORMED_FACT | SOLVE_DIAG_MALFORMED_EDB | SOLVE_DIAG_INVALID_STATE
  | SOLVE_DIAG_INVALID_ARGUMENT | SOLVE_DIAG_INTERNAL_ERROR | SOLVE_DIAG_AGGREGATE_DOMAIN_ERROR
  | SOLVE_DIAG_SUM_OVERFLOW

record solve_diagnostic =
  sd_failure_error :: maelys_result
  sd_failure_reason :: deny_reason
  sd_category :: solve_diag_category
  sd_predicate_id :: nat
  sd_rule_id :: nat
  sd_depth :: nat
  sd_depth_limit :: nat
  sd_capacity :: nat
  sd_count_observed :: nat
  sd_filter_capacity :: nat
  sd_filter_count_observed :: nat
  sd_lhs_kind :: nat
  sd_rhs_kind :: nat
  sd_comparison_op :: "cmp_op option"
  sd_term_index :: nat
  sd_arity_expected :: nat
  sd_arity_observed :: nat
  sd_limit_kind :: limit_kind
  sd_compare_result :: compare_result
  sd_aggregate :: "aggregate_error option"

definition uint16 :: "nat \<Rightarrow> nat" where
  "uint16 n = n mod 2 ^ 16"

definition diag_clear :: solve_diagnostic where
  "diag_clear =
     \<lparr>sd_failure_error = MAELYS_OK, sd_failure_reason = DENY_NONE, sd_category = SOLVE_DIAG_NONE,
      sd_predicate_id = 65535, sd_rule_id = 65535, sd_depth = 0, sd_depth_limit = 0, sd_capacity = 0,
      sd_count_observed = 0, sd_filter_capacity = 0, sd_filter_count_observed = 0, sd_lhs_kind = 0, sd_rhs_kind = 0,
      sd_comparison_op = None, sd_term_index = 0, sd_arity_expected = 0, sd_arity_observed = 0,
      sd_limit_kind = LIMIT_NONE, sd_compare_result = COMPARE_TRUE, sd_aggregate = None\<rparr>"

definition diag_base ::
  "solve_diag_category \<Rightarrow> maelys_result \<Rightarrow> deny_reason \<Rightarrow> solve_diagnostic \<Rightarrow> solve_diagnostic" where
  "diag_base category error reason d =
     (if sd_category d \<noteq> SOLVE_DIAG_NONE then d
      else d\<lparr>sd_category := category, sd_failure_error := error, sd_failure_reason := reason\<rparr>)"

definition diag_from_fact ::
  "solve_diag_category \<Rightarrow> maelys_result \<Rightarrow> deny_reason \<Rightarrow> predicate_registry \<Rightarrow> fact \<Rightarrow> solve_diagnostic \<Rightarrow>
   solve_diagnostic" where
  "diag_from_fact category error reason reg f d0 =
     (let d = (diag_base category error reason d0)\<lparr>sd_predicate_id := predicate_id f, sd_arity_observed := arity f\<rparr>;
          d = (case predicate_registry_get reg (predicate_id f) of
                 None \<Rightarrow> d | Some def \<Rightarrow> d\<lparr>sd_arity_expected := pred_arity def\<rparr>)
      in case first_bad_term (take MAX_TERMS (terms f)) 0 of
           None \<Rightarrow> d | Some (i, k) \<Rightarrow> d\<lparr>sd_term_index := i, sd_lhs_kind := k\<rparr>)"

definition first_invalid_fact_in_slice :: "predicate_registry \<Rightarrow> fact list \<Rightarrow> fact option" where
  "first_invalid_fact_in_slice reg fs = find (\<lambda>f. \<not> fact_structurally_valid reg f) fs"

definition first_invalid_fact_in_set :: "predicate_registry \<Rightarrow> fact_set \<Rightarrow> fact option" where
  "first_invalid_fact_in_set reg s =
     (if set_count s > set_capacity s then None else first_invalid_fact_in_slice reg (set_facts s))"

definition diag_malformed_edb :: "predicate_registry \<Rightarrow> fact_set \<Rightarrow> solve_diagnostic \<Rightarrow> solve_diagnostic" where
  "diag_malformed_edb reg s d0 =
     (let d = (diag_base SOLVE_DIAG_MALFORMED_EDB MAELYS_ERR_INVALID_STATE DENY_NONE d0)\<lparr>
            sd_count_observed := uint16 (set_count s), sd_capacity := uint16 (set_capacity s),
            sd_limit_kind := LIMIT_MAX_EDB_FACTS\<rparr>
      in case first_invalid_fact_in_set reg s of
           None \<Rightarrow> d
         | Some f \<Rightarrow> diag_from_fact SOLVE_DIAG_MALFORMED_EDB MAELYS_ERR_INVALID_STATE DENY_NONE reg f d)"

definition diag_malformed_fact :: "predicate_registry \<Rightarrow> fact option \<Rightarrow> solve_diagnostic \<Rightarrow> solve_diagnostic" where
  "diag_malformed_fact reg f d =
     (case f of
        None \<Rightarrow> diag_base SOLVE_DIAG_MALFORMED_FACT MAELYS_ERR_INVALID_STATE DENY_POLICY_LOAD_ERROR d
      | Some f \<Rightarrow>
          diag_from_fact SOLVE_DIAG_MALFORMED_FACT MAELYS_ERR_INVALID_STATE DENY_POLICY_LOAD_ERROR reg f d)"

definition diag_idb_overflow :: "solve_state \<Rightarrow> solve_diagnostic \<Rightarrow> solve_diagnostic" where
  "diag_idb_overflow st d =
     (diag_base SOLVE_DIAG_IDB_OVERFLOW MAELYS_ERR_PAYLOAD_TOO_LARGE DENY_IDB_OVERFLOW d)\<lparr>
       sd_capacity := uint16 (dg_limit (runtime_diag st)), sd_count_observed := uint16 (dg_count (runtime_diag st)),
       sd_predicate_id := dg_predicate_id (runtime_diag st), sd_limit_kind := dg_limit_kind (runtime_diag st)\<rparr>"

definition diag_comparison :: "solve_state \<Rightarrow> solve_diagnostic \<Rightarrow> solve_diagnostic" where
  "diag_comparison st d =
     (diag_base SOLVE_DIAG_COMPARISON_TYPE_ERROR MAELYS_ERR_INVALID_FIELD DENY_COMPARISON_TYPE_ERROR d)\<lparr>
       sd_lhs_kind := dg_observed_lhs_kind (runtime_diag st), sd_rhs_kind := dg_observed_rhs_kind (runtime_diag st),
       sd_comparison_op := dg_failed_op (runtime_diag st), sd_compare_result := dg_compare_result (runtime_diag st),
       sd_term_index := dg_term_index (runtime_diag st)\<rparr>"

text \<open>The fall-through of the \<^verbatim>\<open>switch\<close> when the reason gives no category of its own.\<close>

definition diag_by_code :: "maelys_result \<Rightarrow> deny_reason \<Rightarrow> solve_diagnostic \<Rightarrow> solve_diagnostic" where
  "diag_by_code rc reason d =
     (if rc = MAELYS_ERR_INVALID_STATE then diag_base SOLVE_DIAG_INVALID_STATE rc reason d
      else if rc = MAELYS_ERR_PAYLOAD_TOO_LARGE then diag_base SOLVE_DIAG_IDB_OVERFLOW rc reason d
      else d)"

definition diag_failed_result :: "solve_state \<Rightarrow> maelys_result \<Rightarrow> solve_diagnostic \<Rightarrow> solve_diagnostic" where
  "diag_failed_result st rc d =
     (let rd = runtime_diag st; reason = failure_reason st
      in if dg_code rd = DIAG_SOLVE_AGGREGATE_DOMAIN_ERROR \<or> dg_code rd = DIAG_SOLVE_SUM_OVERFLOW then
           (diag_base (if (case dg_aggregate rd of Some e \<Rightarrow> ae_overflow e | None \<Rightarrow> False)
                       then SOLVE_DIAG_SUM_OVERFLOW else SOLVE_DIAG_AGGREGATE_DOMAIN_ERROR) rc reason d)\<lparr>
             sd_predicate_id := (case dg_aggregate rd of Some e \<Rightarrow> ae_predicate_id e | None \<Rightarrow> 0),
             sd_aggregate := dg_aggregate rd\<rparr>
         else case reason of
           DENY_COMPARISON_TYPE_ERROR \<Rightarrow> diag_comparison st d
         | DENY_FILTER_ERROR \<Rightarrow>
             (diag_base SOLVE_DIAG_FILTER_ERROR rc DENY_FILTER_ERROR d)\<lparr>
               sd_filter_count_observed := dg_count rd mod 2 ^ 32, sd_filter_capacity := dg_limit rd mod 2 ^ 32,
               sd_limit_kind := dg_limit_kind rd, sd_lhs_kind := dg_observed_lhs_kind rd\<rparr>
         | DENY_IDB_OVERFLOW \<Rightarrow> diag_idb_overflow st d
         | DENY_POLICY_LOAD_ERROR \<Rightarrow>
             if rc = MAELYS_ERR_INVALID_STATE then
               (diag_base SOLVE_DIAG_MALFORMED_FACT MAELYS_ERR_INVALID_STATE DENY_POLICY_LOAD_ERROR d)\<lparr>
                 sd_predicate_id := dg_predicate_id rd, sd_arity_expected := dg_expected_arity rd,
                 sd_arity_observed := dg_observed_arity rd, sd_term_index := dg_term_index rd,
                 sd_lhs_kind := dg_observed_lhs_kind rd\<rparr>
             else diag_by_code rc reason d
         | _ \<Rightarrow> diag_by_code rc reason d)"

definition diag_max_depth :: solve_diagnostic where
  "diag_max_depth =
     (diag_base SOLVE_DIAG_MAX_DEPTH MAELYS_ERR_PAYLOAD_TOO_LARGE DENY_MAX_DEPTH diag_clear)\<lparr>
       sd_depth := MAX_DEPTH, sd_depth_limit := MAX_DEPTH\<rparr>"

section \<open>Preparing the state\<close>

text \<open>
  Where the result is kept: freshly allocated, if memory is left, or a reused workspace with its capacity for
  derived facts, which may borrow the extensional facts instead of copying them.
\<close>

datatype workspace = FRESH (allocated: bool) | REUSED (workspace_capacity: nat) (borrows_edb: bool)

type_synonym failure = "maelys_result \<times> solve_diagnostic"

definition fail_with :: "solve_diag_category \<Rightarrow> maelys_result \<Rightarrow> deny_reason \<Rightarrow> failure" where
  "fail_with category rc reason = (rc, diag_base category rc reason diag_clear)"

definition acquired_state :: "bool \<Rightarrow> workspace \<Rightarrow> ruleset \<Rightarrow> edb \<Rightarrow> solve_state" where
  "acquired_state strat ws rs e =
     \<lparr>sr_ruleset = rs,
      sr_symbols = (case ws of FRESH _ \<Rightarrow> rs_symbols rs | REUSED _ _ \<Rightarrow> symbols e),
      edb_snapshot = (case ws of
          REUSED _ True \<Rightarrow> fact_set e
        | _ \<Rightarrow> (fact_set_init MAX_EDB_FACTS)\<lparr>set_facts := edb_facts e, set_sorted := set_sorted (fact_set e)\<rparr>),
      edb_ranges = replicate MAX_PREDICATES (0, 0), idb_facts = [], idb_proof_index = [],
      derived_capacity = (case ws of FRESH _ \<Rightarrow> MAX_IDB_FACTS | REUSED n _ \<Rightarrow> n),
      idb_sorted = True, idb_per_pred = replicate MAX_PREDICATES 0, stratum_idb_end = replicate (MAX_STRATA + 1) 0,
      idb_current_end = 0, idb_delta_begin = 0, idb_delta_end = 0, active_stratum = 0, stratified = strat,
      head_may_be_in_base = False, witness_filled_mask = 0,
      witness_slots = replicate MAX_BODY_LITERALS PREMISE_NONE, premise_pool = [],
      node_premise_begin = replicate MAX_PROOF_NODES 0, node_premise_count = replicate MAX_PROOF_NODES 0,
      node_has_premises = replicate MAX_PROOF_NODES False,
      proof_tree = proof_init (rs_policy_id rs) (rs_sha256 rs) False,
      failure_reason = DENY_NONE, failure_error = MAELYS_OK, runtime_diag = diagnostic_clear,
      filter_stats = \<lparr>fs_evaluations = 0, fs_cost_units = 0, fs_matches = 0, fs_non_matches = 0\<rparr>,
      finalized = False, failed = False\<rparr>"

definition prepare :: "bool \<Rightarrow> workspace \<Rightarrow> ruleset \<Rightarrow> edb \<Rightarrow> failure + solve_state" where
  "prepare strat ws rs e =
     (if \<not> rs_loaded rs then Inl (fail_with SOLVE_DIAG_INVALID_ARGUMENT MAELYS_ERR_INVALID_ARGUMENT DENY_NONE)
      else if strat \<and> ((\<not> rs_negation_supported rs \<and> \<not> rs_aggregates_supported rs) \<or> \<not> rs_strata_assigned rs \<or>
                       rs_max_stratum rs \<ge> MAX_STRATA) then
        Inl (fail_with SOLVE_DIAG_INVALID_STATE MAELYS_ERR_INVALID_STATE DENY_POLICY_LOAD_ERROR)
      else if \<not> ruleset_filters_structurally_valid rs then
        Inl (fail_with SOLVE_DIAG_FILTER_ERROR MAELYS_ERR_INVALID_STATE DENY_FILTER_ERROR)
      else if \<not> immutable e \<or> \<not> set_sorted (fact_set e) then
        Inl (MAELYS_ERR_INVALID_STATE, diag_malformed_edb (rs_registry rs) (fact_set e) diag_clear)
      else if fact_count e > MAX_EDB_FACTS then
        Inl (MAELYS_ERR_PAYLOAD_TOO_LARGE,
          (diag_base SOLVE_DIAG_MALFORMED_EDB MAELYS_ERR_PAYLOAD_TOO_LARGE DENY_EDB_OVERFLOW diag_clear)\<lparr>
            sd_count_observed := uint16 (fact_count e), sd_capacity := MAX_EDB_FACTS,
            sd_limit_kind := LIMIT_MAX_EDB_FACTS\<rparr>)
      else if ws = FRESH False then Inl (fail_with SOLVE_DIAG_INTERNAL_ERROR MAELYS_ERR_INTERNAL DENY_NONE)
      else
        let st = acquired_state strat ws rs e
        in if \<not> fact_set_structurally_valid (rs_registry rs) (edb_snapshot st) then
             Inl (MAELYS_ERR_INVALID_STATE, diag_malformed_edb (rs_registry rs) (edb_snapshot st) diag_clear)
           else case build_edb_ranges st of (rc, st) \<Rightarrow>
             if rc \<noteq> MAELYS_OK then Inl (fail_with SOLVE_DIAG_INVALID_STATE rc DENY_NONE)
             else if \<not> fact_slice_structurally_valid (rs_registry rs) (rs_facts rs) then
               Inl (MAELYS_ERR_INVALID_STATE,
                 diag_malformed_fact (rs_registry rs) (first_invalid_fact_in_slice (rs_registry rs) (rs_facts rs)) diag_clear)
             else Inr st)"

section \<open>Rounds\<close>

text \<open>One rule application with its plan, and a sequence of them that stops at the first failure.\<close>

definition result_failure :: "maelys_result \<Rightarrow> solve_state \<Rightarrow> failure" where
  "result_failure default_rc st =
     (let rc = (if failure_error st \<noteq> MAELYS_OK then failure_error st else default_rc)
      in (rc, diag_failed_result st rc diag_clear))"

definition apply_rule :: "bool \<Rightarrow> ruleset \<Rightarrow> nat \<Rightarrow> rule \<times> nat option \<Rightarrow> solve_state \<Rightarrow> failure + solve_state" where
  "apply_rule use_plan rs depth job st =
     (case job of (rule, delta) \<Rightarrow>
      if use_plan then
        (case build_static_join_order rs rule delta of
           Inl plan_rc \<Rightarrow> Inl (result_failure plan_rc (set_join_order_failure plan_rc (st\<lparr>failed := True\<rparr>)))
         | Inr order \<Rightarrow>
             (case derive_planned rs rule delta depth order empty_bindings PROOF_NO_PARENT st of
                (False, st') \<Rightarrow> Inl (result_failure MAELYS_ERR_PAYLOAD_TOO_LARGE (st'\<lparr>failed := True\<rparr>))
              | (True, st') \<Rightarrow> Inr st'))
      else
        (case derive_recursive rs rule 0 delta depth empty_bindings PROOF_NO_PARENT st of
           (False, st') \<Rightarrow> Inl (result_failure MAELYS_ERR_PAYLOAD_TOO_LARGE (st'\<lparr>failed := True\<rparr>))
         | (True, st') \<Rightarrow> Inr st'))"

fun run_jobs :: "bool \<Rightarrow> ruleset \<Rightarrow> nat \<Rightarrow> (rule \<times> nat option) list \<Rightarrow> solve_state \<Rightarrow> failure + solve_state" where
  "run_jobs use_plan rs depth [] st = Inr st"
| "run_jobs use_plan rs depth (job # jobs) st =
     (case apply_rule use_plan rs depth job st of
        Inl e \<Rightarrow> Inl e
      | Inr st' \<Rightarrow> run_jobs use_plan rs depth jobs st')"

definition initial_jobs :: "rule list \<Rightarrow> (rule \<times> nat option) list" where
  "initial_jobs rules = map (\<lambda>r. (r, None)) rules"

definition delta_jobs :: "(literal \<Rightarrow> bool) \<Rightarrow> rule list \<Rightarrow> (rule \<times> nat option) list" where
  "delta_jobs eligible rules =
     concat (map (\<lambda>r. map (\<lambda>i. (r, Some i)) (filter (\<lambda>i. eligible (body r ! i)) [0..<length (body r)])) rules)"

text \<open>The windows after a round: what it appended is the next delta.\<close>

definition advance :: "nat \<Rightarrow> solve_state \<Rightarrow> solve_state" where
  "advance lo st = st\<lparr>idb_delta_begin := lo, idb_delta_end := idb_merge_end st, idb_current_end := idb_merge_end st\<rparr>"

text \<open>
  The loop over the depth. \<open>n\<close> rounds are left; the result tells whether an empty delta was seen at the top of
  a round.
\<close>

fun rounds ::
  "bool \<Rightarrow> ruleset \<Rightarrow> (rule \<times> nat option) list \<Rightarrow> nat \<Rightarrow> nat \<Rightarrow> solve_state \<Rightarrow> failure + (bool \<times> solve_state)" where
  "rounds use_plan rs jobs 0 depth st = Inr (False, st)"
| "rounds use_plan rs jobs (Suc n) depth st =
     (if idb_delta_begin st = idb_delta_end st then Inr (True, st)
      else case run_jobs use_plan rs depth jobs st of
        Inl e \<Rightarrow> Inl e
      | Inr st' \<Rightarrow> rounds use_plan rs jobs n (depth + 1) (advance (idb_current_end st) st'))"

text \<open>\<^verbatim>\<open>solve_once_finalize\<close> sorts the facts; the proof indices, which nothing reads afterwards, stay.\<close>

definition finalize :: "solve_state \<Rightarrow> maelys_result \<times> solve_state" where
  "finalize st =
     (if finalized st then (MAELYS_ERR_INVALID_STATE, st)
      else case fact_set_sort \<lparr>set_facts = idb_facts st, set_capacity = derived_capacity st, set_sorted = idb_sorted st\<rparr> of
        (rc, s) \<Rightarrow>
          if rc \<noteq> MAELYS_OK then (rc, st\<lparr>idb_facts := set_facts s, idb_sorted := set_sorted s\<rparr>)
          else case fact_set_dedup s of (rc, s) \<Rightarrow>
            let st = st\<lparr>idb_facts := set_facts s, idb_sorted := set_sorted s\<rparr>
            in if rc \<noteq> MAELYS_OK then (rc, st) else (MAELYS_OK, st\<lparr>finalized := True\<rparr>))"

definition finish :: "solve_state \<Rightarrow> failure + solve_state" where
  "finish st =
     (case finalize st of (rc, st) \<Rightarrow>
        if rc \<noteq> MAELYS_OK then Inl (fail_with SOLVE_DIAG_INVALID_STATE rc DENY_NONE) else Inr st)"

section \<open>The two paths\<close>

definition solve_once_run :: "bool \<Rightarrow> workspace \<Rightarrow> ruleset \<Rightarrow> edb \<Rightarrow> failure + solve_state" where
  "solve_once_run use_plan ws rs e =
     (case prepare False ws rs e of
        Inl f \<Rightarrow> Inl f
      | Inr st \<Rightarrow>
     (case run_jobs use_plan rs 0 (initial_jobs (rs_rules rs)) st of
        Inl f \<Rightarrow> Inl f
      | Inr st \<Rightarrow>
     (case rounds use_plan rs (delta_jobs (literal_delta_eligible rs) (rs_rules rs)) MAX_DEPTH 1 (advance 0 st) of
        Inl f \<Rightarrow> Inl f
      | Inr (converged, st) \<Rightarrow>
          if converged then finish st else Inl (MAELYS_ERR_PAYLOAD_TOO_LARGE, diag_max_depth))))"

definition rule_in_stratum :: "ruleset \<Rightarrow> nat \<Rightarrow> rule \<Rightarrow> bool" where
  "rule_in_stratum rs s rule \<longleftrightarrow>
     predicate_id (head rule) < MAX_PREDICATES \<and> rs_strata rs ! predicate_id (head rule) = s"

definition literal_delta_eligible_in_stratum :: "ruleset \<Rightarrow> nat \<Rightarrow> literal \<Rightarrow> bool" where
  "literal_delta_eligible_in_stratum rs s lit \<longleftrightarrow>
     literal_delta_eligible rs lit \<and>
     (case lit of LIT_ATOM a \<Rightarrow> predicate_id a < MAX_PREDICATES \<and> rs_strata rs ! predicate_id a = s | _ \<Rightarrow> False)"

definition fill_future_stratum_bounds :: "nat \<Rightarrow> solve_state \<Rightarrow> solve_state" where
  "fill_future_stratum_bounds start st =
     st\<lparr>stratum_idb_end :=
       map (\<lambda>i. if i \<ge> start then idb_current_end st else stratum_idb_end st ! i) [0..<length (stratum_idb_end st)]\<rparr>"

definition enter_stratum :: "nat \<Rightarrow> solve_state \<Rightarrow> solve_state" where
  "enter_stratum s st0 =
     (let st = st0\<lparr>active_stratum := s, stratum_idb_end := (stratum_idb_end st0)[s := idb_current_end st0]\<rparr>
      in (fill_future_stratum_bounds (s + 1) st)\<lparr>idb_delta_begin := idb_current_end st, idb_delta_end := idb_current_end st\<rparr>)"

text \<open>
  The insertion sort of a slice, which swaps the proof indices with the facts. The sorted part is kept with its
  last cell first, the order in which the inner loop meets it.
\<close>

fun sink_pair :: "fact \<times> nat \<Rightarrow> (fact \<times> nat) list \<Rightarrow> (fact \<times> nat) list" where
  "sink_pair x [] = [x]"
| "sink_pair x (y # ys) = (if fact_cmp (fst y) (fst x) > 0 then y # sink_pair x ys else x # y # ys)"

definition sort_idb_slice_with_proof :: "(fact \<times> nat) list \<Rightarrow> (fact \<times> nat) list" where
  "sort_idb_slice_with_proof ps = rev (fold sink_pair ps [])"

fun dedup_pairs :: "fact \<Rightarrow> (fact \<times> nat) list \<Rightarrow> (fact \<times> nat) list" where
  "dedup_pairs kept [] = []"
| "dedup_pairs kept (x # xs) = (if fact_equals kept (fst x) then dedup_pairs kept xs else x # dedup_pairs (fst x) xs)"

definition dedup_idb_slice_with_proof :: "(fact \<times> nat) list \<Rightarrow> (fact \<times> nat) list" where
  "dedup_idb_slice_with_proof ps = (case ps of [] \<Rightarrow> [] | x # xs \<Rightarrow> x # dedup_pairs (fst x) xs)"

definition freeze_active_stratum :: "solve_state \<Rightarrow> maelys_result \<times> solve_state" where
  "freeze_active_stratum st =
     (let s = active_stratum st; start = stratum_idb_end st ! s
      in if s \<ge> MAX_STRATA then (MAELYS_ERR_INVALID_ARGUMENT, st)
         else if start > idb_current_end st then (MAELYS_ERR_INVALID_STATE, st)
         else
           let ps = dedup_idb_slice_with_proof (sort_idb_slice_with_proof
                  (segment start (idb_current_end st) (zip (idb_facts st) (idb_proof_index st))));
               n = start + length ps;
               st = st\<lparr>idb_facts := take start (idb_facts st) @ map fst ps,
                       idb_proof_index := take start (idb_proof_index st) @ map snd ps, idb_sorted := False,
                       idb_current_end := n, idb_delta_begin := n, idb_delta_end := n,
                       stratum_idb_end := (stratum_idb_end st)[s + 1 := n]\<rparr>
           in (MAELYS_OK, fill_future_stratum_bounds (s + 2) st))"

definition solve_stratum :: "ruleset \<Rightarrow> nat \<Rightarrow> solve_state \<Rightarrow> failure + solve_state" where
  "solve_stratum rs s st0 =
     (let rules = filter (rule_in_stratum rs s) (rs_rules rs); st = enter_stratum s st0
      in case run_jobs True rs 0 (initial_jobs rules) st of
        Inl f \<Rightarrow> Inl f
      | Inr st \<Rightarrow>
     (case rounds True rs (delta_jobs (literal_delta_eligible_in_stratum rs s) rules) MAX_DEPTH 1
             (advance (stratum_idb_end st ! s) st) of
        Inl f \<Rightarrow> Inl f
      | Inr (converged, st) \<Rightarrow>
          if \<not> converged \<and> idb_delta_begin st \<noteq> idb_delta_end st then Inl (MAELYS_ERR_PAYLOAD_TOO_LARGE, diag_max_depth)
          else case freeze_active_stratum st of (rc, st) \<Rightarrow>
            if rc \<noteq> MAELYS_OK then Inl (fail_with SOLVE_DIAG_INVALID_STATE rc DENY_NONE) else Inr st))"

fun solve_strata :: "ruleset \<Rightarrow> nat list \<Rightarrow> solve_state \<Rightarrow> failure + solve_state" where
  "solve_strata rs [] st = Inr st"
| "solve_strata rs (s # ss) st = (case solve_stratum rs s st of Inl f \<Rightarrow> Inl f | Inr st' \<Rightarrow> solve_strata rs ss st')"

definition solve_stratified_path :: "workspace \<Rightarrow> ruleset \<Rightarrow> edb \<Rightarrow> failure + solve_state" where
  "solve_stratified_path ws rs e =
     (case prepare True ws rs e of
        Inl f \<Rightarrow> Inl f
      | Inr st \<Rightarrow>
     (case solve_strata rs [0..<rs_max_stratum rs + 1] st of
        Inl f \<Rightarrow> Inl f
      | Inr st \<Rightarrow> finish st))"

definition solve_with :: "workspace \<Rightarrow> ruleset \<Rightarrow> edb \<Rightarrow> failure + solve_state" where
  "solve_with ws rs e =
     (if rs_negation_supported rs \<or> rs_aggregates_supported rs then solve_stratified_path ws rs e
      else solve_once_run True ws rs e)"

definition solve_once_ex :: "bool \<Rightarrow> ruleset \<Rightarrow> edb \<Rightarrow> failure + solve_state" where
  "solve_once_ex memory_left rs e = solve_with (FRESH memory_left) rs e"

definition solve_once :: "bool \<Rightarrow> ruleset \<Rightarrow> edb \<Rightarrow> failure + solve_state" where
  "solve_once memory_left rs e = solve_once_ex memory_left rs e"

text \<open>
  A workspace that is not reusable, or that still serves a result, is refused before the caller's diagnostic
  \<open>d\<close> is touched.
\<close>

definition solve_reusing_workspace ::
  "bool \<Rightarrow> nat \<Rightarrow> bool \<Rightarrow> solve_diagnostic \<Rightarrow> ruleset \<Rightarrow> edb \<Rightarrow> failure + solve_state" where
  "solve_reusing_workspace idle capacity borrows d rs e =
     (if \<not> idle then Inl (MAELYS_ERR_INVALID_STATE, d) else solve_with (REUSED capacity borrows) rs e)"

end
