(* ===== verification/Fixpoint.thy ===== *)
theory Fixpoint
  imports Solve
begin

unbundle bit_operations_syntax

text \<open>
  The rounds of one stratum compute a least fixpoint. The meaning of a set of rules over a state is the
  operator \<open>consequence\<close>, which maps the facts derived so far in the stratum to the heads they yield outside
  the base; the lemmas follow the delta windows through the rounds and show that an evaluation that converges
  has derived exactly the least fixpoint of that operator.
\<close>

section \<open>The immediate consequence operator\<close>

definition stratum_start :: "solve_state \<Rightarrow> nat" where
  "stratum_start st = (if stratified st then stratum_idb_end st ! active_stratum st else 0)"

text \<open>Whether the facts of a predicate are derived in the stratum that is being evaluated.\<close>

definition computed_here :: "ruleset \<Rightarrow> solve_state \<Rightarrow> nat \<Rightarrow> bool" where
  "computed_here rs st pid \<longleftrightarrow> \<not> stratified st \<or> rs_strata rs ! pid = active_stratum st"

definition visible_facts :: "ruleset \<Rightarrow> solve_state \<Rightarrow> fact set \<Rightarrow> fact \<Rightarrow> fact set" where
  "visible_facts rs st X atom =
     (case predicate_registry_get (rs_registry rs) (predicate_id atom) of
        None \<Rightarrow> {}
      | Some d \<Rightarrow>
          (if (kind_flags d AND PRED_KIND_POLICY_FACT) \<noteq> 0 then set (rs_facts rs) else {}) \<union>
          (if (kind_flags d AND PRED_KIND_EDB) \<noteq> 0 then set (edb_slice st (predicate_id atom)) else {}) \<union>
          (if (kind_flags d AND PRED_KIND_IDB) \<noteq> 0
           then (if computed_here rs st (predicate_id atom) then X else window_facts rs st (predicate_id atom)) else {}))"

definition literal_holds :: "ruleset \<Rightarrow> rule \<Rightarrow> solve_state \<Rightarrow> fact set \<Rightarrow> (nat \<Rightarrow> term) \<Rightarrow> nat \<Rightarrow> bool" where
  "literal_holds rs rule st X \<sigma> li \<longleftrightarrow>
     (case body rule ! li of
        LIT_ATOM atom \<Rightarrow> inst \<sigma> atom \<in> visible_facts rs st X atom
      | _ \<Rightarrow> literal_true rs rule st None \<sigma> li)"

definition body_holds :: "ruleset \<Rightarrow> rule \<Rightarrow> solve_state \<Rightarrow> fact set \<Rightarrow> (nat \<Rightarrow> term) \<Rightarrow> bool" where
  "body_holds rs rule st X \<sigma> \<longleftrightarrow> ground_valuation \<sigma> \<and> (\<forall>li<length (body rule). literal_holds rs rule st X \<sigma> li)"

definition consequence :: "ruleset \<Rightarrow> rule list \<Rightarrow> solve_state \<Rightarrow> fact set \<Rightarrow> fact set" where
  "consequence rs rules st X =
     {inst \<sigma> (head rule) | rule \<sigma>. rule \<in> set rules \<and> body_holds rs rule st X \<sigma>} - base_facts st"

lemma visible_mono: "X \<subseteq> Y \<Longrightarrow> visible_facts rs st X a \<subseteq> visible_facts rs st Y a"
  by (auto simp: visible_facts_def split: option.splits)

lemma literal_holds_mono: "X \<subseteq> Y \<Longrightarrow> literal_holds rs rule st X \<sigma> li \<Longrightarrow> literal_holds rs rule st Y \<sigma> li"
  by (cases "body rule ! li") (auto simp: literal_holds_def dest: visible_mono[THEN subsetD])

lemma body_holds_mono: "X \<subseteq> Y \<Longrightarrow> body_holds rs rule st X \<sigma> \<Longrightarrow> body_holds rs rule st Y \<sigma>"
  using literal_holds_mono by (auto simp: body_holds_def)

lemma mono_consequence: "mono (consequence rs rules st)"
  unfolding mono_def consequence_def using body_holds_mono by blast

section \<open>Later states of the same stratum\<close>

text \<open>The part of the state that stays while a stratum is evaluated.\<close>

definition stratum_view :: "solve_state \<Rightarrow> _" where
  "stratum_view st = (sr_ruleset st, sr_symbols st, edb_snapshot st, edb_ranges st, stratum_idb_end st,
     active_stratum st, stratified st, finalized st, failed st)"

lemma stratum_viewD:
  assumes "stratum_view st' = stratum_view st"
  shows "sr_ruleset st' = sr_ruleset st" "sr_symbols st' = sr_symbols st" "edb_snapshot st' = edb_snapshot st"
    "edb_ranges st' = edb_ranges st" "stratum_idb_end st' = stratum_idb_end st" "active_stratum st' = active_stratum st"
    "stratified st' = stratified st" "finalized st' = finalized st" "failed st' = failed st"
  using assms by (simp_all add: stratum_view_def)

definition later :: "solve_state \<Rightarrow> solve_state \<Rightarrow> bool" where
  "later st st' \<longleftrightarrow> stratum_view st' = stratum_view st \<and> (\<exists>new. idb_facts st' = idb_facts st @ new) \<and>
     idb_current_end st \<le> idb_current_end st'"

text \<open>The frozen strata lie below the current window.\<close>

definition lower_frozen :: "solve_state \<Rightarrow> bool" where
  "lower_frozen st \<longleftrightarrow> idb_current_end st \<le> length (idb_facts st) \<and>
     (stratified st \<longrightarrow> active_stratum st < MAX_STRATA \<and> stratum_start st \<le> idb_current_end st \<and>
        (\<forall>s<active_stratum st. stratum_idb_end st ! Suc s \<le> idb_current_end st))"

lemma later_refl [simp]: "later st st"
  by (simp add: later_def)

lemma later_trans: "later st st' \<Longrightarrow> later st' st'' \<Longrightarrow> later st st''"
  by (auto simp: later_def)

lemma grows_later: "grows st st' \<Longrightarrow> later st st'"
  by (auto simp: grows_def later_def fixed_view_def stratum_view_def)

lemma later_view: "later st st' \<Longrightarrow> stratum_view st' = stratum_view st"
  by (simp add: later_def)

lemma later_slice:
  assumes "later st st'" shows "edb_slice st' pid = edb_slice st pid"
  unfolding edb_slice_def stratum_viewD[OF later_view[OF assms]] ..

lemma later_base: "later st st' \<Longrightarrow> base_facts st' = base_facts st"
  by (simp add: later_def base_facts_def stratum_view_def)

lemma later_frozen_window:
  assumes "later st st'" "lower_frozen st"
  shows "frozen_window rs st' pid = frozen_window rs st pid"
proof -
  obtain new where v: "stratum_view st' = stratum_view st" and new: "idb_facts st' = idb_facts st @ new"
    and ce: "idb_current_end st \<le> idb_current_end st'" using assms(1) by (auto simp: later_def)
  note sv = stratum_viewD[OF v]
  have "segment b e (idb_facts st') = segment b e (idb_facts st)" if "e \<le> idb_current_end st" for b e
    using that assms(2) by (simp add: new segment_prefix lower_frozen_def)
  moreover have "stratum_idb_end st ! Suc s \<le> idb_current_end st \<and> stratum_idb_end st ! Suc s \<le> idb_current_end st'"
    if "stratified st" "s < active_stratum st" for s
    using that assms(2) ce by (auto simp: lower_frozen_def intro: order_trans)
  ultimately show ?thesis
    unfolding frozen_window_def Let_def sv by (simp add: not_less[symmetric])
qed

lemma later_window:
  assumes "later st st'" "lower_frozen st" "\<not> computed_here rs st pid"
  shows "window_facts rs st' pid = window_facts rs st pid"
proof -
  obtain new where v: "stratum_view st' = stratum_view st" and new: "idb_facts st' = idb_facts st @ new"
    and ce: "idb_current_end st \<le> idb_current_end st'" using assms(1) by (auto simp: later_def)
  note sv = stratum_viewD[OF v]
  have strat: "stratified st" and ne: "rs_strata rs ! pid \<noteq> active_stratum st" using assms(3) by (simp_all add: computed_here_def)
  have bound: "stratum_idb_end st ! Suc s \<le> idb_current_end st \<and> stratum_idb_end st ! Suc s \<le> idb_current_end st'"
    if "s < active_stratum st" for s
    using that assms(2) strat ce by (auto simp: lower_frozen_def intro: order_trans)
  have win: "idb_scan_window rs st' pid = idb_scan_window rs st pid"
    unfolding idb_scan_window_def Let_def sv using strat ne bound by (simp add: not_less[symmetric])
  show ?thesis
  proof (cases "idb_scan_window rs st pid")
    case (Some w)
    obtain b n where w: "w = (b, n)" by (cases w)
    have "b + n \<le> length (idb_facts st)"
      using idb_scan_window_bound[of rs st pid b n] Some w assms(2) by (simp add: lower_frozen_def)
    then show ?thesis using Some w win take_drop_append[of b n "idb_facts st" new] by (simp add: window_facts_def new)
  qed (simp add: window_facts_def win)
qed

lemma later_computed_here: "later st st' \<Longrightarrow> computed_here rs st' pid = computed_here rs st pid"
  by (simp add: later_def stratum_view_def computed_here_def)

lemma later_literal:
  assumes "later st st'" "lower_frozen st" "\<not> finalized st"
  shows "literal_holds rs rule st' X \<sigma> li = literal_holds rs rule st X \<sigma> li"
proof -
  have v: "stratum_view st' = stratum_view st" using assms(1) by (simp add: later_def)
  note sv = stratum_viewD[OF v]
  have vis: "visible_facts rs st' X a = visible_facts rs st X a" for a
    unfolding visible_facts_def later_slice[OF assms(1)] later_computed_here[OF assms(1)]
    using later_window[OF assms(1,2), of rs "predicate_id a"] by (auto split: option.splits)
  have neg: "negation_holds rs lit st' \<sigma> = negation_holds rs lit st \<sigma>" for lit
    unfolding negation_holds_def solve_negated_literal_def later_frozen_window[OF assms(1,2)] sv ..
  have src: "aggregate_source lit b st' = aggregate_source lit b st" for lit b
    using assms(3) unfolding aggregate_source_def Let_def sv later_frozen_window[OF assms(1,2)] later_slice[OF assms(1)]
    by (simp cong: option.case_cong if_cong)
  have agg: "aggregate_holds lit st' \<sigma> = aggregate_holds lit st \<sigma>" for lit
    unfolding aggregate_holds_def evaluate_aggregate_def evaluate_count_def evaluate_numeric_aggregate_def src ..
  show ?thesis
    unfolding literal_holds_def literal_true_def vis neg agg sv by (simp split: literal.splits)
qed

lemma later_consequence:
  assumes "later st st'" "lower_frozen st" "\<not> finalized st"
  shows "consequence rs rules st' X = consequence rs rules st X"
  unfolding consequence_def body_holds_def later_literal[OF assms] later_base[OF assms(1)] ..

section \<open>Rule applications in terms of the operator\<close>

definition current_facts :: "solve_state \<Rightarrow> fact set" where
  "current_facts st = set (segment (stratum_start st) (idb_current_end st) (idb_facts st))"

lemma window_here:
  assumes "idb_inv st" "lower_frozen st" "computed_here rs st pid" "predicate_id f = pid"
  shows "f \<in> window_facts rs st pid \<longleftrightarrow> f \<in> current_facts st"
proof (cases "pid < MAX_PREDICATES")
  case False
  have "f \<notin> set (idb_facts st)" using assms(1,4) False by (auto simp: idb_inv_def)
  then show ?thesis
    using set_segment_subset[of "stratum_start st" "idb_current_end st" "idb_facts st"] False
    by (auto simp: current_facts_def window_facts_def idb_scan_window_def)
next
  case True
  then show ?thesis using assms(2,3)
    by (auto simp: current_facts_def window_facts_def idb_scan_window_def stratum_start_def computed_here_def
        lower_frozen_def segment_def Let_def)
qed

lemma literal_true_holds:
  assumes "idb_inv st" "lower_frozen st"
  shows "literal_true rs rule st None \<sigma> li \<longleftrightarrow> literal_holds rs rule st (current_facts st) \<sigma> li"
proof (cases "body rule ! li")
  case (LIT_ATOM a)
  have "inst \<sigma> a \<in> window_facts rs st (predicate_id a) \<longleftrightarrow> inst \<sigma> a \<in> current_facts st"
    if "computed_here rs st (predicate_id a)"
    using window_here[OF assms that, of "inst \<sigma> a"] by (simp add: inst_def)
  then show ?thesis using LIT_ATOM
    by (auto simp: literal_true_def literal_holds_def atom_candidates_def visible_facts_def split: option.splits)
qed (auto simp: literal_holds_def)

text \<open>The delta of a round, and which literals may take it.\<close>

definition delta_facts :: "solve_state \<Rightarrow> fact set" where
  "delta_facts st = set (segment (idb_delta_begin st) (idb_delta_end st) (idb_facts st))"

definition idb_literal :: "ruleset \<Rightarrow> solve_state \<Rightarrow> literal \<Rightarrow> bool" where
  "idb_literal rs st lit \<longleftrightarrow>
     (case lit of
        LIT_ATOM a \<Rightarrow>
          (case predicate_registry_get (rs_registry rs) (predicate_id a) of
             None \<Rightarrow> False
           | Some d \<Rightarrow> (kind_flags d AND PRED_KIND_IDB) \<noteq> 0 \<and> computed_here rs st (predicate_id a))
      | _ \<Rightarrow> False)"

lemma literal_true_delta:
  assumes "idb_inv st" "lower_frozen st" "idb_literal rs st (body rule ! i)"
  shows "literal_true rs rule st (Some i) \<sigma> li \<longleftrightarrow>
    (if li = i then inst \<sigma> (the (literal_atom (body rule ! i))) \<in> delta_facts st
     else literal_holds rs rule st (current_facts st) \<sigma> li)"
proof (cases "li = i")
  case True
  then show ?thesis using assms(3)
    by (auto simp: literal_true_def atom_candidates_def delta_facts_def idb_literal_def split: literal.splits option.splits)
next
  case False
  then have "literal_true rs rule st (Some i) \<sigma> li = literal_true rs rule st None \<sigma> li"
    by (auto simp: literal_true_def split: literal.splits)
  then show ?thesis using False literal_true_holds[OF assms(1,2)] by simp
qed

lemma idb_literal_visible:
  assumes "idb_literal rs st (body rule ! i)"
  shows "literal_holds rs rule st X \<sigma> i \<longleftrightarrow>
    inst \<sigma> (the (literal_atom (body rule ! i))) \<in> X \<union> visible_facts rs st {} (the (literal_atom (body rule ! i)))"
  using assms by (auto simp: literal_holds_def idb_literal_def visible_facts_def split: literal.splits option.splits)

lemma other_literal_visible:
  assumes "\<not> idb_literal rs st (body rule ! i)"
  shows "literal_holds rs rule st X \<sigma> i \<longleftrightarrow> literal_holds rs rule st Y \<sigma> i"
  using assms by (auto simp: literal_holds_def idb_literal_def visible_facts_def split: literal.splits option.splits)

section \<open>Sequences of rule applications\<close>

definition rule_ok :: "bool \<Rightarrow> rule \<Rightarrow> bool" where
  "rule_ok use_plan rule \<longleftrightarrow> rule_wf rule \<and> range_restricted rule \<and>
     (use_plan \<or> order_safe rule 0 [0..<length (body rule)])"

lemma apply_rule_applied:
  assumes "idb_inv st" "windows_ok st" "\<not> finalized st" "rule_ok use_plan (fst job)"
    "apply_rule use_plan rs depth job st = Inr st'"
  shows "applied st (rule_heads rs (fst job) st (snd job)) (True, st')"
proof -
  obtain rule delta where job: "job = (rule, delta)" by (cases job)
  obtain order where order: "safe_permutation rule order"
    "derive_planned rs rule delta depth order empty_bindings PROOF_NO_PARENT st = (True, st')"
  proof (cases use_plan)
    case True
    then obtain order where o: "build_static_join_order rs rule delta = Inr order"
      "derive_planned rs rule delta depth order empty_bindings PROOF_NO_PARENT st = (True, st')"
      using assms(5) by (auto simp: apply_rule_def job split: sum.splits prod.splits bool.splits)
    then show ?thesis using that build_static_join_order_spec[OF o(1)] by (simp add: safe_permutation_def)
  next
    case False
    then have "derive_planned rs rule delta depth [0..<length (body rule)] empty_bindings PROOF_NO_PARENT st = (True, st')"
      using assms(5) by (auto simp: apply_rule_def job derive_recursive_planned split: prod.splits bool.splits)
    moreover have "safe_permutation rule [0..<length (body rule)]"
      using assms(4) False by (auto simp: rule_ok_def safe_permutation_def job)
    ultimately show ?thesis using that by blast
  qed
  show ?thesis
    using derive_planned_applied[OF assms(1-3) _ _ order(1), of rs delta depth PROOF_NO_PARENT] assms(4) order(2)
    by (simp add: rule_ok_def job)
qed

lemma rule_heads_grows:
  assumes "grows st st'" "idb_inv st" "windows_ok st" "\<not> finalized st"
  shows "rule_heads rs rule st' delta = rule_heads rs rule st delta"
  unfolding rule_heads_def literal_true_grows[OF assms] ..

lemma applied_trans:
  assumes "applied st D (True, st1)" "applied st1 E (True, st2)"
  shows "applied st (D \<union> E) (True, st2)"
proof -
  have a: "grows st st1" "grows st1 st2" using assms by (simp_all add: applied_def)
  have "base_facts st1 = base_facts st" using base_facts_cong grows_fixed(1)[OF a(1)] by blast
  moreover have "set (idb_facts st1) \<subseteq> set (idb_facts st2)" using a(2) by (auto simp: grows_def)
  ultimately show ?thesis using assms grows_trans[OF a] by (auto simp: applied_def)
qed

lemma run_jobs_applied:
  assumes "idb_inv st" "windows_ok st" "\<not> finalized st" "\<forall>job\<in>set jobs. rule_ok use_plan (fst job)"
    "run_jobs use_plan rs depth jobs st = Inr st'"
  shows "applied st (\<Union>job\<in>set jobs. rule_heads rs (fst job) st (snd job)) (True, st')"
  using assms
proof (induction jobs arbitrary: st)
  case Nil
  then show ?case by (simp add: applied_def)
next
  case (Cons job jobs)
  from Cons.prems(5) obtain st1 where st1: "apply_rule use_plan rs depth job st = Inr st1"
    "run_jobs use_plan rs depth jobs st1 = Inr st'" by (auto split: sum.splits)
  have a: "applied st (rule_heads rs (fst job) st (snd job)) (True, st1)"
    using apply_rule_applied[OF Cons.prems(1-3) _ st1(1)] Cons.prems(4) by simp
  then have g: "grows st st1" "idb_inv st1" by (simp_all add: applied_def)
  have "applied st1 (\<Union>job\<in>set jobs. rule_heads rs (fst job) st1 (snd job)) (True, st')"
    using Cons.IH[OF g(2) _ _ _ st1(2)] Cons.prems(2-4) windows_ok_grows[OF g(1)] fixed_viewD(12)[OF grows_fixed(1)[OF g(1)]]
    by simp
  from applied_trans[OF a this] show ?case by (simp add: rule_heads_grows[OF g(1) Cons.prems(1-3)])
qed

section \<open>The rounds\<close>

text \<open>
  Between two rounds of a stratum that started in \<open>st0\<close>: everything derived is in the least fixpoint, and
  the consequences of the facts before the delta have been drawn.
\<close>

definition old_facts :: "solve_state \<Rightarrow> fact set" where
  "old_facts st = set (segment (stratum_start st) (idb_delta_begin st) (idb_facts st))"

definition stratum_entry :: "solve_state \<Rightarrow> bool" where
  "stratum_entry st \<longleftrightarrow> idb_inv st \<and> lower_frozen st \<and> \<not> finalized st \<and> \<not> failed st \<and> stratum_start st = length (idb_facts st) \<and>
     idb_current_end st = length (idb_facts st) \<and> windows_ok st"

definition round_inv :: "ruleset \<Rightarrow> rule list \<Rightarrow> solve_state \<Rightarrow> solve_state \<Rightarrow> bool" where
  "round_inv rs rules st0 st \<longleftrightarrow>
     later st0 st \<and> idb_inv st \<and> windows_ok st \<and> idb_delta_end st = length (idb_facts st) \<and>
     idb_current_end st = length (idb_facts st) \<and> length (idb_facts st0) \<le> idb_delta_begin st \<and>
     current_facts st \<subseteq> lfp (consequence rs rules st0) \<and> consequence rs rules st0 (old_facts st) \<subseteq> current_facts st"

lemma later_start: "later st st' \<Longrightarrow> stratum_start st' = stratum_start st"
  by (simp add: later_def stratum_view_def stratum_start_def)

lemma later_lower_frozen: "later st st' \<Longrightarrow> lower_frozen st \<Longrightarrow> idb_current_end st' \<le> length (idb_facts st') \<Longrightarrow> lower_frozen st'"
  using stratum_viewD[OF later_view, of st st'] later_start[of st st']
  by (auto simp: lower_frozen_def later_def intro: order_trans)

lemma set_segment_split:
  assumes "a \<le> b" "b \<le> c" "c \<le> length xs"
  shows "set (segment a c xs) = set (segment a b xs) \<union> set (segment b c xs)"
  using segment_append[of a b c xs] assms by (metis set_append)

lemma segment_all: "segment a (length xs) xs = drop a xs"
  by (simp add: segment_def)

lemma current_split:
  assumes "round_inv rs rules st0 st" "stratum_entry st0"
  shows "current_facts st = old_facts st \<union> delta_facts st"
proof -
  have s: "stratum_start st = length (idb_facts st0)"
    using assms later_start[of st0 st] by (simp add: round_inv_def stratum_entry_def)
  have w: "idb_delta_end st = length (idb_facts st)" "idb_current_end st = length (idb_facts st)"
    "idb_delta_begin st \<le> length (idb_facts st)" "length (idb_facts st0) \<le> idb_delta_begin st"
    using assms(1) by (simp_all add: round_inv_def windows_ok_def)
  show ?thesis
    unfolding current_facts_def old_facts_def delta_facts_def s w(1,2) by (rule set_segment_split[OF w(4,3) order_refl])
qed

lemma delta_heads_consequence:
  assumes "idb_inv st" "lower_frozen st" "idb_literal rs st (body rule ! i)" "delta_facts st \<subseteq> current_facts st"
    "rule \<in> set rules" "i < length (body rule)"
  shows "rule_heads rs rule st (Some i) - base_facts st \<subseteq> consequence rs rules st (current_facts st)"
proof
  fix f
  assume "f \<in> rule_heads rs rule st (Some i) - base_facts st"
  then obtain \<sigma> where f: "f = inst \<sigma> (head rule)" "f \<notin> base_facts st" "ground_valuation \<sigma>"
    "\<forall>li<length (body rule). literal_true rs rule st (Some i) \<sigma> li" by (auto simp: rule_heads_def)
  have "literal_holds rs rule st (current_facts st) \<sigma> li" if li: "li < length (body rule)" for li
  proof (cases "li = i")
    case True
    then show ?thesis
      using f(4) li assms(4) literal_true_delta[OF assms(1-3), of \<sigma> li] idb_literal_visible[OF assms(3)] by auto
  next
    case False
    then show ?thesis using f(4) li literal_true_delta[OF assms(1-3), of \<sigma> li] by simp
  qed
  then show "f \<in> consequence rs rules st (current_facts st)"
    using f assms(5) by (auto simp: consequence_def body_holds_def)
qed

text \<open>A body over the current facts either lies over the old ones or uses the delta in some literal.\<close>

lemma body_old_or_delta:
  assumes "idb_inv st" "lower_frozen st" "body_holds rs rule st (old \<union> delta_facts st) \<sigma>"
    "current_facts st = old \<union> delta_facts st"
  shows "body_holds rs rule st old \<sigma> \<or>
    (\<exists>i<length (body rule). idb_literal rs st (body rule ! i) \<and> inst \<sigma> (head rule) \<in> rule_heads rs rule st (Some i))"
proof (rule disjCI)
  assume no: "\<not> (\<exists>i<length (body rule). idb_literal rs st (body rule ! i) \<and> inst \<sigma> (head rule) \<in> rule_heads rs rule st (Some i))"
  have "literal_holds rs rule st old \<sigma> i" if i: "i < length (body rule)" for i
  proof (cases "idb_literal rs st (body rule ! i)")
    case False
    then show ?thesis using assms(3) i other_literal_visible[OF False] by (auto simp: body_holds_def)
  next
    case True
    let ?f = "inst \<sigma> (the (literal_atom (body rule ! i)))"
    have "?f \<notin> delta_facts st"
    proof
      assume d: "?f \<in> delta_facts st"
      have "\<forall>li<length (body rule). literal_true rs rule st (Some i) \<sigma> li"
        using assms(3,4) d by (auto simp: literal_true_delta[OF assms(1,2) True] body_holds_def)
      then have "inst \<sigma> (head rule) \<in> rule_heads rs rule st (Some i)"
        using assms(3) by (auto simp: rule_heads_def body_holds_def)
      then show False using no i True by blast
    qed
    then show ?thesis
      using assms(3) i idb_literal_visible[OF True] by (auto simp: body_holds_def)
  qed
  then show "body_holds rs rule st old \<sigma>" using assms(3) by (simp add: body_holds_def)
qed

text \<open>The jobs of a round are the literals of the rules over predicates computed in the stratum.\<close>

definition round_jobs :: "ruleset \<Rightarrow> rule list \<Rightarrow> solve_state \<Rightarrow> (rule \<times> nat option) list \<Rightarrow> bool" where
  "round_jobs rs rules st jobs \<longleftrightarrow>
     (\<forall>rule delta. (rule, delta) \<in> set jobs \<longrightarrow>
        (\<exists>i. delta = Some i \<and> rule \<in> set rules \<and> i < length (body rule) \<and> idb_literal rs st (body rule ! i))) \<and>
     (\<forall>rule i. rule \<in> set rules \<and> i < length (body rule) \<and> idb_literal rs st (body rule ! i) \<longrightarrow> (rule, Some i) \<in> set jobs)"

lemma later_idb_literal: "later st st' \<Longrightarrow> idb_literal rs st' lit = idb_literal rs st lit"
  by (auto simp: idb_literal_def later_computed_here split: literal.splits option.splits)

lemma advance_parts [simp]:
  "idb_facts (advance lo st) = idb_facts st" "idb_delta_begin (advance lo st) = lo"
  "idb_delta_end (advance lo st) = length (idb_facts st)" "idb_current_end (advance lo st) = length (idb_facts st)"
  "stratum_view (advance lo st) = stratum_view st" "base_facts (advance lo st) = base_facts st"
  "finalized (advance lo st) = finalized st"
  by (simp_all add: advance_def stratum_view_def base_facts_def)

lemma stratum_view_snapshot:
  assumes "stratum_view st' = stratum_view st" shows "snapshot_ok st' \<longleftrightarrow> snapshot_ok st"
  unfolding snapshot_ok_def edb_slice_def stratum_viewD[OF assms] ..

lemma advance_inv: "idb_inv st \<Longrightarrow> idb_inv (advance lo st)"
  using stratum_view_snapshot[OF advance_parts(5)[of lo st]]
  by (simp add: idb_inv_def) (simp add: advance_def)

lemma later_advance: "later st st' \<Longrightarrow> idb_current_end st \<le> length (idb_facts st') \<Longrightarrow> later st (advance lo st')"
  by (auto simp: later_def)

lemma start_advance [simp]: "stratum_start (advance lo st) = stratum_start st"
  by (simp add: stratum_start_def advance_def)

lemma advance_split:
  assumes "stratum_start st = start" "start \<le> lo" "idb_facts st = old @ new" "length old = lo"
  shows "current_facts (advance lo st) = set (drop start old) \<union> set new"
    "old_facts (advance lo st) = set (drop start old)"
proof -
  have "drop start (old @ new) = drop start old @ new" using assms by simp
  then show "current_facts (advance lo st) = set (drop start old) \<union> set new"
    unfolding current_facts_def using assms segment_all[of start "old @ new"] by simp
  have "segment start lo (old @ new) = drop start old"
    using segment_prefix[of lo old start new] assms(4) segment_all[of start old] by simp
  then show "old_facts (advance lo st) = set (drop start old)"
    unfolding old_facts_def using assms by simp
qed

text \<open>No fact of a lower stratum has the predicate of a head.\<close>

definition fresh_heads :: "rule list \<Rightarrow> solve_state \<Rightarrow> bool" where
  "fresh_heads rules st \<longleftrightarrow> (\<forall>f\<in>set (idb_facts st). \<forall>rule\<in>set rules. predicate_id f \<noteq> predicate_id (head rule))"

text \<open>What a sequence of applications appends, for a state whose windows are settled.\<close>

lemma run_jobs_new:
  assumes "idb_inv st" "windows_ok st" "\<not> finalized st" "\<forall>job\<in>set jobs. rule_ok use_plan (fst job)"
    "run_jobs use_plan rs depth jobs st = Inr st'"
  obtains new where "idb_facts st' = idb_facts st @ new" "grows st st'" "idb_inv st'"
    "set new = (\<Union>job\<in>set jobs. rule_heads rs (fst job) st (snd job)) - base_facts st - set (idb_facts st)"
proof -
  note a = run_jobs_applied[OF assms]
  have g: "grows st st'" "idb_inv st'" using a by (simp_all add: applied_def)
  obtain new where new: "idb_facts st' = idb_facts st @ new" using g(1) by (auto simp: grows_def)
  have "set (idb_facts st) \<inter> set new = {}" using g(2) by (simp add: new idb_inv_def)
  then show thesis using that[OF new g] applied_exact[OF a] by (auto simp: new)
qed

text \<open>A fact with the predicate of a head is not below the stratum.\<close>

lemma head_fact_current:
  assumes "fresh_heads rules st0" "later st0 st" "f \<in> set (idb_facts st)" "rule \<in> set rules"
    "predicate_id f = predicate_id (head rule)"
  shows "f \<in> set (drop (length (idb_facts st0)) (idb_facts st))"
proof -
  have "f \<notin> set (idb_facts st0)" using assms(1,4,5) by (auto simp: fresh_heads_def)
  moreover obtain new where "idb_facts st = idb_facts st0 @ new" using assms(2) by (auto simp: later_def)
  ultimately show ?thesis using assms(3) by auto
qed

lemma delta_new_sound:
  assumes "idb_inv st" "lower_frozen st" "delta_facts st \<subseteq> current_facts st" "round_jobs rs rules st jobs"
  shows "(\<Union>job\<in>set jobs. rule_heads rs (fst job) st (snd job)) - base_facts st \<subseteq> consequence rs rules st (current_facts st)"
proof
  fix f
  assume "f \<in> (\<Union>job\<in>set jobs. rule_heads rs (fst job) st (snd job)) - base_facts st"
  then obtain rule delta where f: "(rule, delta) \<in> set jobs" "f \<in> rule_heads rs rule st delta - base_facts st" by auto
  then obtain j where "delta = Some j" "rule \<in> set rules" "j < length (body rule)" "idb_literal rs st (body rule ! j)"
    using assms(4) unfolding round_jobs_def by blast
  then show "f \<in> consequence rs rules st (current_facts st)"
    using delta_heads_consequence[OF assms(1,2) _ assms(3)] f(2) by blast
qed

lemma delta_new_complete:
  assumes "idb_inv st" "lower_frozen st" "current_facts st = old \<union> delta_facts st" "round_jobs rs rules st jobs"
  shows "consequence rs rules st (current_facts st) \<subseteq>
    consequence rs rules st old \<union> ((\<Union>job\<in>set jobs. rule_heads rs (fst job) st (snd job)) - base_facts st)"
proof
  fix f
  assume "f \<in> consequence rs rules st (current_facts st)"
  then obtain rule \<sigma> where r: "rule \<in> set rules" "body_holds rs rule st (old \<union> delta_facts st) \<sigma>" "f = inst \<sigma> (head rule)"
    "f \<notin> base_facts st" unfolding assms(3) by (auto simp: consequence_def)
  from body_old_or_delta[OF assms(1,2) r(2) assms(3)]
  show "f \<in> consequence rs rules st old \<union> ((\<Union>job\<in>set jobs. rule_heads rs (fst job) st (snd job)) - base_facts st)"
  proof
    assume "body_holds rs rule st old \<sigma>"
    then show ?thesis using r by (auto simp: consequence_def)
  next
    assume "\<exists>i<length (body rule). idb_literal rs st (body rule ! i) \<and> inst \<sigma> (head rule) \<in> rule_heads rs rule st (Some i)"
    then obtain j where "(rule, Some j) \<in> set jobs" "f \<in> rule_heads rs rule st (Some j)"
      using assms(4) r(1) unfolding round_jobs_def r(3) by blast
    then show ?thesis using r(4) by force
  qed
qed

lemma round_step:
  assumes entry: "stratum_entry st0" and fresh: "fresh_heads rules st0" and inv: "round_inv rs rules st0 st"
    and jobs: "round_jobs rs rules st0 jobs" and ok: "\<forall>rule\<in>set rules. rule_ok use_plan rule"
    and run: "run_jobs use_plan rs depth jobs st = Inr st'"
  shows "round_inv rs rules st0 (advance (idb_current_end st) st')"
proof -
  let ?F = "consequence rs rules st0" and ?start = "length (idb_facts st0)"
  have i: "later st0 st" "idb_inv st" "windows_ok st" "idb_current_end st = length (idb_facts st)"
    "current_facts st \<subseteq> lfp ?F" "?F (old_facts st) \<subseteq> current_facts st"
    using inv by (simp_all add: round_inv_def)
  have e: "lower_frozen st0" "\<not> finalized st0" "stratum_start st0 = ?start"
    using entry by (simp_all add: stratum_entry_def)
  have fr: "lower_frozen st" using later_lower_frozen[OF i(1) e(1)] i(4) by simp
  have nf: "\<not> finalized st" using e(2) stratum_viewD(8)[OF later_view[OF i(1)]] by simp
  have F: "consequence rs rules st X = ?F X" for X by (rule later_consequence[OF i(1) e(1,2)])
  have jobs': "round_jobs rs rules st jobs" using jobs by (simp add: round_jobs_def later_idb_literal[OF i(1)])
  let ?D = "\<Union>job\<in>set jobs. rule_heads rs (fst job) st (snd job)"
  have "\<forall>job\<in>set jobs. rule_ok use_plan (fst job)" using jobs ok by (fastforce simp: round_jobs_def)
  from run_jobs_new[OF i(2,3) nf this run] obtain new where new: "idb_facts st' = idb_facts st @ new" "grows st st'" "idb_inv st'"
    "set new = ?D - base_facts st - set (idb_facts st)" by blast
  have start: "stratum_start st' = ?start" "stratum_start st = ?start" "?start \<le> length (idb_facts st)"
    using later_start[OF i(1)] later_start[OF grows_later[OF new(2)]] e(3) i(1) by (auto simp: later_def)
  have cur: "current_facts st = set (drop ?start (idb_facts st))"
    by (simp add: current_facts_def start(2) i(4) segment_all)
  note split = current_split[OF inv entry] and parts = advance_split[OF start(1,3) new(1) refl]
  have "set new \<subseteq> ?F (current_facts st)"
    using delta_new_sound[OF i(2) fr _ jobs'] split new(4) unfolding F by blast
  moreover have "?F (current_facts st) \<subseteq> lfp ?F"
    using i(5) mono_consequence[of rs rules st0] by (metis lfp_unfold monoD)
  ultimately have sound: "set new \<subseteq> lfp ?F" by blast
  have complete: "?F (current_facts st) \<subseteq> current_facts st \<union> set new"
  proof
    fix f
    assume f: "f \<in> ?F (current_facts st)"
    then obtain rule where "rule \<in> set rules" "predicate_id f = predicate_id (head rule)"
      by (auto simp: consequence_def inst_def)
    moreover have "f \<in> current_facts st \<or> f \<in> ?D - base_facts st"
      using f delta_new_complete[OF i(2) fr split jobs'] i(6) unfolding F by blast
    ultimately show "f \<in> current_facts st \<union> set new"
      using head_fact_current[OF fresh i(1)] new(4) unfolding cur by blast
  qed
  have "later st0 (advance (idb_current_end st) st')"
    using later_trans[OF i(1) grows_later[OF new(2)]] i(1)
    by (intro later_advance) (auto simp: later_def new(1) i(4))
  moreover have "windows_ok (advance (idb_current_end st) st')" by (simp add: windows_ok_def i(4) new(1))
  ultimately show ?thesis
    unfolding round_inv_def i(4) parts using advance_inv[OF new(3)] start(3) sound complete i(5) cur by (auto simp: new(1))
qed

lemma rounds_inv:
  assumes "stratum_entry st0" "fresh_heads rules st0" "round_jobs rs rules st0 jobs" "\<forall>rule\<in>set rules. rule_ok use_plan rule"
    "round_inv rs rules st0 st" "rounds use_plan rs jobs n depth st = Inr (converged, st')"
  shows "round_inv rs rules st0 st' \<and> (converged \<longrightarrow> idb_delta_begin st' = idb_delta_end st')"
  using assms(5,6)
proof (induction n arbitrary: depth st)
  case (Suc n)
  show ?case
  proof (cases "idb_delta_begin st = idb_delta_end st")
    case True
    then show ?thesis using Suc.prems by simp
  next
    case False
    then obtain st1 where st1: "run_jobs use_plan rs depth jobs st = Inr st1"
      "rounds use_plan rs jobs n (depth + 1) (advance (idb_current_end st) st1) = Inr (converged, st')"
      using Suc.prems(2) by (auto split: sum.splits)
    from Suc.IH[OF round_step[OF assms(1,2) Suc.prems(1) assms(3,4) st1(1)] st1(2)] show ?thesis .
  qed
qed simp

text \<open>The round before the loop draws the consequences of the empty set.\<close>

lemma current_entry: "stratum_entry st \<Longrightarrow> current_facts st = {}"
  by (simp add: stratum_entry_def current_facts_def)

lemma initial_round:
  assumes entry: "stratum_entry st0" and fresh: "fresh_heads rules st0" and ok: "\<forall>rule\<in>set rules. rule_ok use_plan rule"
    and run: "run_jobs use_plan rs 0 (initial_jobs rules) st0 = Inr st1"
  shows "round_inv rs rules st0 (advance (length (idb_facts st0)) st1)"
proof -
  let ?F = "consequence rs rules st0" and ?start = "length (idb_facts st0)"
  have e: "idb_inv st0" "lower_frozen st0" "\<not> finalized st0" "windows_ok st0" "stratum_start st0 = ?start"
    "idb_current_end st0 = ?start" using entry by (simp_all add: stratum_entry_def)
  have "\<forall>job\<in>set (initial_jobs rules). rule_ok use_plan (fst job)" using ok by (auto simp: initial_jobs_def)
  from run_jobs_new[OF e(1,4,3) this run] obtain new where new: "idb_facts st1 = idb_facts st0 @ new" "grows st0 st1" "idb_inv st1"
    "set new = (\<Union>job\<in>set (initial_jobs rules). rule_heads rs (fst job) st0 (snd job)) - base_facts st0 - set (idb_facts st0)"
    by blast
  have heads: "rule_heads rs rule st0 None = {inst \<sigma> (head rule) | \<sigma>. body_holds rs rule st0 {} \<sigma>}" for rule
    using literal_true_holds[OF e(1,2)] current_entry[OF entry] by (auto simp: rule_heads_def body_holds_def)
  have "?F {} \<inter> set (idb_facts st0) = {}"
    using fresh by (fastforce simp: fresh_heads_def consequence_def inst_def)
  moreover have "?F {} = (\<Union>job\<in>set (initial_jobs rules). rule_heads rs (fst job) st0 (snd job)) - base_facts st0"
    by (auto simp: initial_jobs_def heads consequence_def)
  ultimately have n: "set new = ?F {}" using new(4) by blast
  have start: "stratum_start st1 = ?start" using later_start[OF grows_later[OF new(2)]] e(5) by simp
  note parts = advance_split[OF start order_refl new(1) refl]
  have "?F {} \<subseteq> lfp ?F" using mono_consequence[of rs rules st0] by (metis empty_subsetI lfp_unfold monoD)
  moreover have "later st0 (advance ?start st1)" using grows_later[OF new(2)] by (intro later_advance) (simp_all add: e(6) new(1))
  ultimately show ?thesis unfolding round_inv_def parts
    using advance_inv[OF new(3)] by (simp add: n windows_ok_def new(1))
qed

lemma stratum_converged:
  assumes "stratum_entry st0" "round_inv rs rules st0 st" "idb_delta_begin st = idb_delta_end st"
  shows "set (drop (length (idb_facts st0)) (idb_facts st)) = lfp (consequence rs rules st0)"
proof -
  have s: "stratum_start st = length (idb_facts st0)"
    using assms(1,2) later_start[of st0 st] by (simp add: round_inv_def stratum_entry_def)
  have w: "idb_delta_begin st = length (idb_facts st)" "idb_current_end st = length (idb_facts st)"
    using assms(2,3) by (simp_all add: round_inv_def)
  have c: "current_facts st = set (drop (length (idb_facts st0)) (idb_facts st))" "old_facts st = current_facts st"
    by (simp_all add: current_facts_def old_facts_def s w segment_all)
  have "lfp (consequence rs rules st0) \<subseteq> current_facts st"
    using assms(2) c(2) by (intro lfp_lowerbound) (simp add: round_inv_def)
  then show ?thesis using assms(2) c(1) by (auto simp: round_inv_def)
qed

end
