(* ===== verification/Least_Model.thy ===== *)
theory Least_Model
  imports Fixpoint
begin

unbundle bit_operations_syntax

text \<open>
  The single-stratum evaluation (\<^verbatim>\<open>solve_once_run\<close>) computes the least model of a positive program: preparation
  gives a state from which the rounds start, finalisation sorts what they derived, and the least fixpoint of the
  operator of the rounds is, together with the base, the least Herbrand model.
\<close>

section \<open>Preparation and finalisation\<close>

lemma registry_get_bound: "registry_inv reg \<Longrightarrow> predicate_registry_get reg pid = Some d \<Longrightarrow> pid < MAX_PREDICATES"
  by (auto simp: predicate_registry_get_def registry_inv_def split: if_splits)

lemma valid_fact_bound:
  "registry_inv reg \<Longrightarrow> fact_structurally_valid reg f \<Longrightarrow> predicate_id f < MAX_PREDICATES"
  by (auto simp: fact_structurally_valid_def split: option.splits dest: registry_get_bound)

lemma acquired_parts [simp]:
  "sr_ruleset (acquired_state strat ws rs e) = rs" "idb_facts (acquired_state strat ws rs e) = []"
  "idb_proof_index (acquired_state strat ws rs e) = []" "idb_current_end (acquired_state strat ws rs e) = 0"
  "idb_delta_begin (acquired_state strat ws rs e) = 0" "idb_delta_end (acquired_state strat ws rs e) = 0"
  "stratified (acquired_state strat ws rs e) = strat" "active_stratum (acquired_state strat ws rs e) = 0"
  "stratum_idb_end (acquired_state strat ws rs e) = replicate (MAX_STRATA + 1) 0"
  "idb_per_pred (acquired_state strat ws rs e) = replicate MAX_PREDICATES 0"
  "finalized (acquired_state strat ws rs e) = False" "failed (acquired_state strat ws rs e) = False" "idb_sorted (acquired_state strat ws rs e) = True"
  by (simp_all add: acquired_state_def)

lemma acquired_snapshot:
  "set_facts (edb_snapshot (acquired_state strat ws rs e)) = edb_facts e"
  "set_sorted (edb_snapshot (acquired_state strat ws rs e)) = set_sorted (fact_set e)"
  by (auto simp: acquired_state_def fact_set_init_def split: workspace.splits bool.splits)

definition solve_symbols :: "workspace \<Rightarrow> ruleset \<Rightarrow> edb \<Rightarrow> symbol_table" where
  "solve_symbols ws rs e = (case ws of FRESH _ \<Rightarrow> rs_symbols rs | REUSED _ _ \<Rightarrow> symbols e)"

lemma prepare_entry:
  assumes "prepare strat ws rs e = Inr st" "edb_inv e" "registry_inv (rs_registry rs)"
  shows "stratum_entry st" "idb_facts st = []" "sr_ruleset st = rs" "sr_symbols st = solve_symbols ws rs e"
    "set_facts (edb_snapshot st) = edb_facts e" "stratified st = strat" "active_stratum st = 0"
    "stratum_idb_end st = replicate (MAX_STRATA + 1) 0"
proof -
  let ?st = "acquired_state strat ws rs e"
  have p: "build_edb_ranges ?st = (MAELYS_OK, st)" "fact_set_structurally_valid (rs_registry rs) (edb_snapshot ?st)"
    "set_sorted (fact_set e)" "fact_count e \<le> MAX_EDB_FACTS"
    using assms(1) by (auto simp: prepare_def Let_def split: if_splits prod.splits)
  have "sorted (edb_facts e)" using assms(2) p(3) by (simp add: edb_inv_def)
  moreover have "\<forall>f\<in>set (edb_facts e). predicate_id f < MAX_PREDICATES"
    using p(2) valid_fact_bound[OF assms(3)] by (auto simp: fact_set_structurally_valid_def acquired_snapshot list_all_iff)
  ultimately obtain R where R: "st = ?st\<lparr>edb_ranges := R\<rparr>" "snapshot_ok (?st\<lparr>edb_ranges := R\<rparr>)"
    using build_edb_ranges_ok[of ?st] p(1,3,4) by (auto simp: acquired_snapshot)
  show "idb_facts st = []" "sr_ruleset st = rs" "sr_symbols st = solve_symbols ws rs e"
    "set_facts (edb_snapshot st) = edb_facts e" "stratified st = strat" "active_stratum st = 0"
    "stratum_idb_end st = replicate (MAX_STRATA + 1) 0"
    by (simp_all add: R(1) acquired_snapshot) (simp add: acquired_state_def solve_symbols_def)
  show "stratum_entry st"
    using R by (simp add: stratum_entry_def idb_inv_def lower_frozen_def stratum_start_def windows_ok_def limit_defs)
qed

lemma snapshot_ok_edb:
  "edb_snapshot st' = edb_snapshot st \<Longrightarrow> edb_ranges st' = edb_ranges st \<Longrightarrow> snapshot_ok st' = snapshot_ok st"
  unfolding snapshot_ok_def edb_slice_def by (simp only: prod.case_eq_if)

lemma idb_inv_capacity: "idb_inv st \<Longrightarrow> length (idb_facts st) \<le> derived_capacity st"
  by (simp add: idb_inv_def)

lemma idb_inv_sorted: "idb_inv st \<Longrightarrow> idb_sorted st \<Longrightarrow> sorted (idb_facts st)"
  by (simp add: idb_inv_def)

lemma finish_spec:
  assumes "length (idb_facts st) \<le> derived_capacity st" "idb_sorted st \<Longrightarrow> sorted (idb_facts st)" "\<not> finalized st"
  shows "\<exists>st'. finish st = Inr st' \<and> idb_facts st' = sorted_list_of_set (set (idb_facts st)) \<and> finalized st' \<and>
    idb_sorted st' \<and> failed st' = failed st \<and> sr_ruleset st' = sr_ruleset st \<and> edb_snapshot st' = edb_snapshot st \<and>
    derived_capacity st' = derived_capacity st \<and> edb_ranges st' = edb_ranges st \<and> idb_current_end st' = idb_current_end st"
proof -
  let ?s = "\<lparr>set_facts = idb_facts st, set_capacity = derived_capacity st, set_sorted = idb_sorted st\<rparr>"
  have "fact_set_sort ?s = (MAELYS_OK, ?s\<lparr>set_facts := sort (idb_facts st), set_sorted := True\<rparr>)"
    using fact_set_sort_spec[of ?s] assms(1,2) by simp
  moreover have "fact_set_dedup (?s\<lparr>set_facts := sort (idb_facts st), set_sorted := True\<rparr>) =
      (MAELYS_OK, ?s\<lparr>set_facts := sorted_list_of_set (set (idb_facts st)), set_sorted := True\<rparr>)"
    using fact_set_dedup_spec[of "?s\<lparr>set_facts := sort (idb_facts st), set_sorted := True\<rparr>"] by simp
  ultimately show ?thesis using assms(3) by (simp add: finish_def finalize_def)
qed



section \<open>The single-stratum path\<close>

lemma delta_jobs_round:
  assumes "\<And>lit. lit \<in> (\<Union>r\<in>set rules. set (body r)) \<Longrightarrow> eligible lit \<longleftrightarrow> idb_literal rs st lit"
  shows "round_jobs rs rules st (delta_jobs eligible rules)"
proof -
  have "(rule, delta) \<in> set (delta_jobs eligible rules) \<longleftrightarrow>
    (\<exists>i. delta = Some i \<and> rule \<in> set rules \<and> i < length (body rule) \<and> eligible (body rule ! i))" for rule delta
    by (auto simp: delta_jobs_def)
  moreover have "eligible (body rule ! i) \<longleftrightarrow> idb_literal rs st (body rule ! i)"
    if "rule \<in> set rules" "i < length (body rule)" for rule i
    using assms that by (metis UN_I nth_mem)
  ultimately show ?thesis unfolding round_jobs_def by blast
qed

lemma eligible_idb_literal: "\<not> stratified st \<Longrightarrow> literal_delta_eligible rs lit \<longleftrightarrow> idb_literal rs st lit"
  by (auto simp: literal_delta_eligible_def idb_literal_def computed_here_def split: literal.splits option.splits)

lemma solve_once_run_lfp:
  assumes "edb_inv e" "registry_inv (rs_registry rs)" "\<forall>rule\<in>set (rs_rules rs). rule_ok use_plan rule"
    "solve_once_run use_plan ws rs e = Inr st"
  obtains st0 where "prepare False ws rs e = Inr st0" "stratum_entry st0"
    "set (idb_facts st) = lfp (consequence rs (rs_rules rs) st0)"
    "idb_facts st = sorted_list_of_set (set (idb_facts st))" "finalized st" "idb_sorted st"
    "sr_ruleset st = rs" "set_facts (edb_snapshot st) = edb_facts e"
    "length (idb_facts st) \<le> MAX_IDB_FACTS" "length (idb_facts st) \<le> derived_capacity st"
    "\<not> failed st" "snapshot_ok st" "idb_current_end st = length (idb_facts st)"
proof -
  obtain st0 st1 st2 where
    st0: "prepare False ws rs e = Inr st0" and
    st1: "run_jobs use_plan rs 0 (initial_jobs (rs_rules rs)) st0 = Inr st1" and
    st2: "rounds use_plan rs (delta_jobs (literal_delta_eligible rs) (rs_rules rs)) MAX_DEPTH 1 (advance 0 st1) = Inr (True, st2)" and
    st: "finish st2 = Inr st"
    using assms(4) by (auto simp: solve_once_run_def split: sum.splits if_splits)
  note p = prepare_entry[OF st0 assms(1,2)]
  let ?rules = "rs_rules rs"
  have fresh: "fresh_heads ?rules st0" by (simp add: fresh_heads_def p(2))
  have jobs: "round_jobs rs ?rules st0 (delta_jobs (literal_delta_eligible rs) ?rules)"
    using eligible_idb_literal p(6) by (intro delta_jobs_round) simp
  have "round_inv rs ?rules st0 (advance 0 st1)" using initial_round[OF p(1) fresh assms(3) st1] by (simp add: p(2))
  from rounds_inv[OF p(1) fresh jobs assms(3) this st2]
  have r: "round_inv rs ?rules st0 st2" "idb_delta_begin st2 = idb_delta_end st2" by simp_all
  have lfp: "set (idb_facts st2) = lfp (consequence rs ?rules st0)"
    using stratum_converged[OF p(1) r] by (simp add: p(2))
  have inv: "idb_inv st2" "later st0 st2" using r(1) by (simp_all add: round_inv_def)
  note v = stratum_viewD[OF later_view[OF inv(2)]]
  have "\<not> finalized st2" using v(8) p(1) by (simp add: stratum_entry_def)
  from finish_spec[OF idb_inv_capacity[OF inv(1)] idb_inv_sorted[OF inv(1)] this] st have f: "idb_facts st = sorted_list_of_set (set (idb_facts st2))" "finalized st"
    "idb_sorted st" "sr_ruleset st = sr_ruleset st2" "edb_snapshot st = edb_snapshot st2" "derived_capacity st = derived_capacity st2"
    "failed st = failed st2" "edb_ranges st = edb_ranges st2" "idb_current_end st = idb_current_end st2"
    by auto
  have len: "length (idb_facts st) = length (idb_facts st2)" using inv(1) by (simp add: f(1) idb_inv_def distinct_card)
  have sets: "set (idb_facts st) = set (idb_facts st2)" by (simp add: f(1))
  show thesis
  proof (rule that[OF st0 p(1)])
    show "set (idb_facts st) = lfp (consequence rs (rs_rules rs) st0)" using sets lfp by simp
    show "idb_facts st = sorted_list_of_set (set (idb_facts st))" using sets f(1) by simp
    show "length (idb_facts st) \<le> MAX_IDB_FACTS" "length (idb_facts st) \<le> derived_capacity st"
      using inv(1) by (simp_all add: len f(6) idb_inv_def)
    show "snapshot_ok st" using snapshot_ok_edb[OF f(5,8)] inv(1) by (simp add: idb_inv_def)
    show "idb_current_end st = length (idb_facts st)" using r(1) f(9) len by (simp add: round_inv_def)
    show "\<not> failed st" using p(1) v(9) f(7) by (simp add: stratum_entry_def)
  qed (simp_all add: f v p)
qed

section \<open>The least Herbrand model\<close>

fun positive_literal :: "literal \<Rightarrow> bool" where
  "positive_literal (LIT_ATOM _) = True"
| "positive_literal (LIT_COMPARISON _ _ _ _ _ _) = True"
| "positive_literal (LIT_FILTER _ _ _) = True"
| "positive_literal _ = False"

text \<open>Truth of a literal in a set of facts, and the operator whose least fixpoint is the model of a program.\<close>

fun true_in :: "ruleset \<Rightarrow> symbol_table \<Rightarrow> rule \<Rightarrow> fact set \<Rightarrow> (nat \<Rightarrow> term) \<Rightarrow> literal \<Rightarrow> bool" where
  "true_in rs syms rule M \<sigma> (LIT_ATOM a) \<longleftrightarrow> inst \<sigma> a \<in> M"
| "true_in rs syms rule M \<sigma> (LIT_COMPARISON l op r h i j) \<longleftrightarrow> comparison_holds rule (LIT_COMPARISON l op r h i j) \<sigma>"
| "true_in rs syms rule M \<sigma> (LIT_FILTER k i v) \<longleftrightarrow> filter_holds rs syms (LIT_FILTER k i v) \<sigma>"
| "true_in rs syms rule M \<sigma> _ \<longleftrightarrow> False"

definition herbrand_step :: "ruleset \<Rightarrow> symbol_table \<Rightarrow> fact set \<Rightarrow> fact set \<Rightarrow> fact set" where
  "herbrand_step rs syms B M =
     B \<union> {inst \<sigma> (head rule) | rule \<sigma>. rule \<in> set (rs_rules rs) \<and> ground_valuation \<sigma> \<and>
            (\<forall>lit\<in>set (body rule). true_in rs syms rule M \<sigma> lit)}"

lemma mono_herbrand: "mono (herbrand_step rs syms B)"
proof (rule monoI)
  fix M N :: "fact set"
  assume "M \<subseteq> N"
  then have "true_in rs syms rule M \<sigma> lit \<Longrightarrow> true_in rs syms rule N \<sigma> lit" for rule \<sigma> lit
    by (cases lit) auto
  then show "herbrand_step rs syms B M \<subseteq> herbrand_step rs syms B N" unfolding herbrand_step_def by blast
qed

text \<open>Predicates are declared for what defines them: policy facts, input facts and rule heads.\<close>

definition has_kind :: "ruleset \<Rightarrow> 32 word \<Rightarrow> nat \<Rightarrow> bool" where
  "has_kind rs kind pid \<longleftrightarrow>
     (case predicate_registry_get (rs_registry rs) pid of None \<Rightarrow> False | Some d \<Rightarrow> (kind_flags d AND kind) \<noteq> 0)"

definition well_declared :: "ruleset \<Rightarrow> bool" where
  "well_declared rs \<longleftrightarrow> registry_inv (rs_registry rs) \<and>
     (\<forall>f\<in>set (rs_facts rs). has_kind rs PRED_KIND_POLICY_FACT (predicate_id f)) \<and>
     (\<forall>rule\<in>set (rs_rules rs). has_kind rs PRED_KIND_IDB (predicate_id (head rule)))"

lemma edb_fact_kind: "edb_inv e \<Longrightarrow> registry e = rs_registry rs \<Longrightarrow> f \<in> set (edb_facts e) \<Longrightarrow> has_kind rs PRED_KIND_EDB (predicate_id f)"
  by (auto simp: edb_inv_def fact_declared_def edb_kind_def has_kind_def predicate_registry_get_def)

lemma visible_facts_in:
  assumes "well_declared rs" "edb_inv e" "registry e = rs_registry rs" "snapshot_ok st"
    "set_facts (edb_snapshot st) = edb_facts e" "\<not> stratified st" "sr_ruleset st = rs"
    "\<forall>f\<in>X. \<exists>rule\<in>set (rs_rules rs). predicate_id f = predicate_id (head rule)"
  shows "inst \<sigma> a \<in> visible_facts rs st X a \<longleftrightarrow> inst \<sigma> a \<in> base_facts st \<union> X"
proof
  have base: "base_facts st = set (rs_facts rs) \<union> set (edb_facts e)" by (simp add: base_facts_def assms(5,7))
  have slice: "set (edb_slice st (predicate_id a)) = {f \<in> set (edb_facts e). predicate_id f = predicate_id a}"
    if "predicate_id a < MAX_PREDICATES"
    using assms(4,5) that by (simp add: snapshot_ok_def)
  show "inst \<sigma> a \<in> base_facts st \<union> X" if "inst \<sigma> a \<in> visible_facts rs st X a"
    using that slice registry_get_bound[of "rs_registry rs" "predicate_id a"] assms(1,6) unfolding base
    by (auto simp: visible_facts_def computed_here_def well_declared_def split: option.splits if_splits)
  assume f: "inst \<sigma> a \<in> base_facts st \<union> X"
  have pid: "predicate_id (inst \<sigma> a) = predicate_id a" by (simp add: inst_def)
  have kind: "inst \<sigma> a \<in> set (rs_facts rs) \<and> has_kind rs PRED_KIND_POLICY_FACT (predicate_id a) \<or>
      inst \<sigma> a \<in> set (edb_facts e) \<and> has_kind rs PRED_KIND_EDB (predicate_id a) \<or>
      inst \<sigma> a \<in> X \<and> has_kind rs PRED_KIND_IDB (predicate_id a)"
    using f edb_fact_kind[OF assms(2,3)] assms(1,8) pid unfolding base by (force simp: well_declared_def)
  then obtain d where d: "predicate_registry_get (rs_registry rs) (predicate_id a) = Some d"
    by (auto simp: has_kind_def split: option.splits)
  then have "predicate_id a < MAX_PREDICATES" using registry_get_bound assms(1) by (auto simp: well_declared_def)
  then show "inst \<sigma> a \<in> visible_facts rs st X a"
    using kind d slice pid assms(6) by (auto simp: has_kind_def visible_facts_def computed_here_def)
qed

lemma body_holds_true_in:
  assumes "\<And>a. inst \<sigma> a \<in> visible_facts rs st X a \<longleftrightarrow> inst \<sigma> a \<in> M" "list_all positive_literal (body rule)"
  shows "body_holds rs rule st X \<sigma> \<longleftrightarrow>
    ground_valuation \<sigma> \<and> (\<forall>lit\<in>set (body rule). true_in rs (sr_symbols st) rule M \<sigma> lit)"
proof -
  have "literal_holds rs rule st X \<sigma> li \<longleftrightarrow> true_in rs (sr_symbols st) rule M \<sigma> (body rule ! li)"
    if "li < length (body rule)" for li
    using assms(2) that assms(1)
    by (cases "body rule ! li") (auto simp: list_all_length literal_holds_def literal_true_def dest: spec[of _ li])
  then show ?thesis unfolding body_holds_def all_set_conv_all_nth by auto
qed

lemma consequence_heads: "f \<in> consequence rs rules st X \<Longrightarrow> \<exists>rule\<in>set rules. predicate_id f = predicate_id (head rule)"
  by (auto simp: consequence_def inst_def)

lemma lfp_consequence_heads:
  "f \<in> lfp (consequence rs rules st) \<Longrightarrow> \<exists>rule\<in>set rules. predicate_id f = predicate_id (head rule)"
  using consequence_heads lfp_unfold[OF mono_consequence] by blast

text \<open>
  Two ways to close a set: an operator that yields only facts of \<open>P\<close> over a fixed set \<open>L\<close>, and one that
  includes \<open>L\<close>.
\<close>

lemma lfp_over_base:
  fixes F H :: "'a set \<Rightarrow> 'a set"
  assumes "mono F" "mono H" "\<And>X. X \<subseteq> P \<Longrightarrow> H (L \<union> X) = L \<union> F X" "\<And>X. F X \<subseteq> P" "\<And>M. L \<subseteq> H M"
  shows "L \<union> lfp F = lfp H"
proof
  have F: "F (lfp F) = lfp F" by (rule lfp_fixpoint[OF assms(1)])
  then have "lfp F \<subseteq> P" using assms(4) by metis
  then have "H (L \<union> lfp F) = L \<union> lfp F" using assms(3) F by simp
  then show "lfp H \<subseteq> L \<union> lfp F" by (intro lfp_lowerbound) simp
  have H: "H (lfp H) = lfp H" by (rule lfp_fixpoint[OF assms(2)])
  then have L: "L \<subseteq> lfp H" using assms(5) by metis
  have "F (lfp H \<inter> P) \<subseteq> H (L \<union> lfp H \<inter> P)" using assms(3)[of "lfp H \<inter> P"] by blast
  also have "\<dots> \<subseteq> H (lfp H)" using L by (intro monoD[OF assms(2)]) blast
  finally have "F (lfp H \<inter> P) \<subseteq> lfp H \<inter> P" using assms(4) H by blast
  then have "lfp F \<subseteq> lfp H \<inter> P" by (rule lfp_lowerbound)
  then show "L \<union> lfp F \<subseteq> lfp H" using L by blast
qed

lemma lfp_is_herbrand:
  assumes "well_declared rs" "edb_inv e" "registry e = rs_registry rs" "snapshot_ok st"
    "set_facts (edb_snapshot st) = edb_facts e" "\<not> stratified st" "sr_ruleset st = rs"
    "\<forall>rule\<in>set (rs_rules rs). list_all positive_literal (body rule)"
  shows "base_facts st \<union> lfp (consequence rs (rs_rules rs) st) = lfp (herbrand_step rs (sr_symbols st) (base_facts st))"
proof (rule lfp_over_base[OF mono_consequence mono_herbrand])
  let ?P = "{f. \<exists>rule\<in>set (rs_rules rs). predicate_id f = predicate_id (head rule)}" and ?B = "base_facts st"
  show "consequence rs (rs_rules rs) st X \<subseteq> ?P" for X using consequence_heads by blast
  show "?B \<subseteq> herbrand_step rs (sr_symbols st) ?B M" for M by (simp add: herbrand_step_def)
  show "herbrand_step rs (sr_symbols st) ?B (?B \<union> X) = ?B \<union> consequence rs (rs_rules rs) st X" if "X \<subseteq> ?P" for X
  proof -
    have "\<forall>f\<in>X. \<exists>rule\<in>set (rs_rules rs). predicate_id f = predicate_id (head rule)" using that by blast
    note vis = visible_facts_in[OF assms(1-7) this]
    have "(rule \<in> set (rs_rules rs) \<and> body_holds rs rule st X \<sigma>) =
      (rule \<in> set (rs_rules rs) \<and> ground_valuation \<sigma> \<and> (\<forall>lit\<in>set (body rule). true_in rs (sr_symbols st) rule (?B \<union> X) \<sigma> lit))"
      for rule \<sigma> using body_holds_true_in[OF vis] assms(8) by blast
    then show ?thesis unfolding consequence_def herbrand_step_def by blast
  qed
qed

section \<open>Properties\<close>

text \<open>
  (C2) A positive evaluation that succeeds computes the least Herbrand model: the policy facts, the input facts
  and the derived facts together are the least set that contains the base and is closed under the rules. The
  derived facts are strictly sorted, disjoint from the base and within the configured bounds. This holds with
  static join plans, whatever a planner callback answers, and with the lexical order; and for an owned result as
  for a reused workspace of any capacity.
\<close>

theorem positive_solve_least_model:
  assumes "edb_inv e" "registry e = rs_registry rs" "well_declared rs"
    "\<forall>rule\<in>set (rs_rules rs). rule_ok use_plan rule \<and> list_all positive_literal (body rule)"
    "solve_once_run use_plan ws rs e = Inr st"
  shows "set (rs_facts rs) \<union> set (edb_facts e) \<union> set (idb_facts st) =
      lfp (herbrand_step rs (solve_symbols ws rs e) (set (rs_facts rs) \<union> set (edb_facts e))) \<and>
    set (idb_facts st) \<inter> (set (rs_facts rs) \<union> set (edb_facts e)) = {} \<and>
    sorted_wrt (<) (idb_facts st) \<and> length (idb_facts st) \<le> MAX_IDB_FACTS"
proof -
  have reg: "registry_inv (rs_registry rs)" using assms(3) by (simp add: well_declared_def)
  have rules: "\<forall>rule\<in>set (rs_rules rs). rule_ok use_plan rule" using assms(4) by blast
  from solve_once_run_lfp[OF assms(1) reg rules assms(5)] obtain st0 where st0: "prepare False ws rs e = Inr st0"
    "set (idb_facts st) = lfp (consequence rs (rs_rules rs) st0)"
    "idb_facts st = sorted_list_of_set (set (idb_facts st))" "length (idb_facts st) \<le> MAX_IDB_FACTS" by metis
  note p = prepare_entry[OF st0(1) assms(1) reg]
  have base: "base_facts st0 = set (rs_facts rs) \<union> set (edb_facts e)" by (simp add: base_facts_def p(3,5))
  have "snapshot_ok st0" using p(1) by (simp add: stratum_entry_def idb_inv_def)
  from lfp_is_herbrand[OF assms(3,1,2) this p(5) _ p(3)] assms(4) p(6)
  have "base_facts st0 \<union> set (idb_facts st) = lfp (herbrand_step rs (sr_symbols st0) (base_facts st0))"
    by (simp add: st0(2))
  moreover have "set (idb_facts st) \<inter> base_facts st0 = {}"
    unfolding st0(2) using lfp_fixpoint[OF mono_consequence, of rs "rs_rules rs" st0] by (auto simp: consequence_def)
  moreover have "sorted_wrt (<) (idb_facts st)" by (subst st0(3)) (simp add: strict_sorted_list_of_set)
  ultimately show ?thesis using st0(4) by (simp add: base p(4))
qed

end
