(* ===== verification/Sample_Run.thy ===== *)
theory Sample_Run
  imports Least_Model
begin

unbundle bit_operations_syntax

text \<open>
  A small evaluation, followed step by step in the kernel: the transitive closure of two edges, with the rules
  \<^verbatim>\<open>path(X,Y) :- edge(X,Y)\<close> and \<^verbatim>\<open>path(X,Z) :- X != Z, edge(X,Y), path(Y,Z)\<close>. It takes the initial
  application of both rules, two rounds over the delta and the final test. The theory applies the properties of
  rule application and of the whole evaluation to it.
\<close>

section \<open>The input\<close>

definition sample_edb :: edb where
  "sample_edb =
     \<lparr>fact_set = \<lparr>set_facts = [Fact 0 [TERM_INT 1, TERM_INT 2], Fact 0 [TERM_INT 2, TERM_INT 3]], set_capacity = 16,
        set_sorted = True\<rparr>,
      facts_per_pred = (replicate MAX_PREDICATES 0)[0 := 2], immutable = True, symbols = symbol_table_init,
      registry = rs_registry demo_ruleset\<rparr>"

lemmas sample_defs = sample_edb_def demo_ruleset_def fact_set_init_def

lemma sample_registry: "registry_inv (rs_registry demo_ruleset)"
  by (simp add: registry_inv_def demo_ruleset_def entry_valid_def limit_defs NAME_BYTES_def valid_kind_flags_def kind_defs)

lemma sample_edb_inv: "edb_inv sample_edb"
proof -
  have "pred_count p (edb_facts sample_edb) = (if p = 0 then 2 else 0)" for p
    by (simp add: sample_edb_def pred_count_def)
  then show ?thesis
    using sample_registry sym_inv_init unfolding edb_inv_def
    by (simp add: sample_defs limit_defs fact_declared_def edb_kind_def kind_defs nth_list_update
        less_fact_def less_eq_fact_def fact_cmp_def)
qed

lemma sample_declared: "well_declared demo_ruleset"
  using sample_registry
  by (simp add: well_declared_def demo_ruleset_def demo_path_rules_def has_kind_def predicate_registry_get_def kind_defs)

lemma sample_rules_ok: "rule \<in> set (rs_rules demo_ruleset) \<Longrightarrow> rule_ok True rule \<and> list_all positive_literal (body rule)"
  by (auto simp: demo_ruleset_def demo_path_rules_def rule_ok_def rule_wf_def range_restricted_def terms_wf_def limit_defs)

section \<open>The states of the run\<close>

definition sample_step :: "nat \<Rightarrow> nat option \<Rightarrow> nat \<Rightarrow> nat list \<Rightarrow> solve_state \<Rightarrow> bool \<times> solve_state" where
  "sample_step i delta depth order st =
     derive_planned demo_ruleset (demo_path_rules ! i) delta depth order empty_bindings PROOF_NO_PARENT st"

definition sample_prepared :: solve_state where
  "sample_prepared = (acquired_state False (FRESH True) demo_ruleset sample_edb)\<lparr>
     edb_ranges := (replicate MAX_PREDICATES (0, 0))[0 := (0, Suc (Suc 0))]\<rparr>"

definition sample_first :: solve_state where
  "sample_first = snd (sample_step 0 None 0 [0] sample_prepared)"

definition sample_initial :: solve_state where
  "sample_initial = advance 0 (snd (sample_step 1 None 0 [1, 2, 0] sample_first))"

definition sample_round1 :: solve_state where
  "sample_round1 = advance 2 (snd (sample_step 1 (Some 2) 1 [2, 1, 0] sample_initial))"

definition sample_round2 :: solve_state where
  "sample_round2 = advance 3 (snd (sample_step 1 (Some 2) 2 [2, 1, 0] sample_round1))"

lemma match_candidate_apply:
  "match_candidate rs li atom b k (cand, parent, org, proof) st =
     (if \<not> fact_structurally_valid (rs_registry rs) cand then (False, set_invalid_fact (rs_registry rs) cand st)
      else if predicate_id cand \<noteq> predicate_id atom \<or> arity cand \<noteq> arity atom then (True, st)
      else case match_terms b (terms atom) (terms cand) of
        None \<Rightarrow> (True, st)
      | Some next_b \<Rightarrow> k next_b parent (witness_record_positive li org cand proof st))"
  by (simp add: match_candidate_def)

lemmas run_defs = derive_planned_def enter_rule_def acquired_state_def derive_literal_def derive_atom_def Let_def
  predicate_registry_get_def kind_defs and_then_def edb_slice_def limit_defs plain_candidates_def match_candidate_apply
  fact_structurally_valid_def bind_or_match_def bindings_is_bound_def bindings_set_bound_def empty_bindings_def
  witness_record_positive_def witness_put_def EXPLANATION_NO_STEP_def derive_head_def instantiate_atom_def
  instantiate_term_def append_idb_merge_def head_in_base_check_def fact_in_slice_def append_idb_fact_def proof_init_def
  proof_add_def witness_commit_range_def slots_complete_def fact_equals_def fact_cmp_def idb_candidates_def
  delta_candidates_def idb_scan_window_def segment_def evaluate_comparison_literal_def comparison_operands_def
  evaluate_comparison_def compare_of_def witness_record_comparison_def instantiate_comparison_term_def advance_def

lemmas sample_eval = sample_defs demo_path_rules_def sample_step_def sample_prepared_def run_defs

lemma sample_prepare: "prepare False (FRESH True) demo_ruleset sample_edb = Inr sample_prepared"
  by (simp add: prepare_def sample_prepared_def acquired_state_def sample_defs ruleset_filters_structurally_valid_def
      fact_set_structurally_valid_def fact_structurally_valid_def predicate_registry_get_def build_edb_ranges_def
      fact_slice_structurally_valid_def demo_path_rules_def limit_defs)

lemma sample_plans:
  "build_static_join_order demo_ruleset (demo_path_rules ! 0) None = Inr [0]"
  "build_static_join_order demo_ruleset (demo_path_rules ! 1) None = Inr [1, 2, 0]"
  "build_static_join_order demo_ruleset (demo_path_rules ! 1) (Some 2) = Inr [2, 1, 0]"
  by code_simp+

lemma sample_jobs:
  "rs_rules demo_ruleset = [demo_path_rules ! 0, demo_path_rules ! 1]"
  "delta_jobs (literal_delta_eligible demo_ruleset) (rs_rules demo_ruleset) = [(demo_path_rules ! 1, Some 2)]"
  by (simp add: demo_ruleset_def demo_path_rules_def) code_simp

lemma sample_first_ok: "fst (sample_step 0 None 0 [0] sample_prepared)"
  by (simp add: sample_eval)

lemma sample_initial_ok: "fst (sample_step 1 None 0 [1, 2, 0] sample_first)"
  by (simp add: sample_first_def sample_eval)

lemma sample_round1_ok: "fst (sample_step 1 (Some 2) 1 [2, 1, 0] sample_initial)"
  by (simp add: sample_initial_def sample_first_def sample_eval)

lemma sample_round2_ok: "fst (sample_step 1 (Some 2) 2 [2, 1, 0] sample_round1)"
  by (simp add: sample_round1_def sample_initial_def sample_first_def sample_eval)

text \<open>What the loop reads of a state.\<close>

definition loop_view :: "solve_state \<Rightarrow> (nat \<times> nat \<times> nat) \<times> (bool \<times> bool \<times> nat \<times> fact list)" where
  "loop_view st = ((idb_delta_begin st, idb_delta_end st, idb_current_end st),
     finalized st, idb_sorted st, derived_capacity st, idb_facts st)"

lemma sample_initial_view: "fst (loop_view sample_initial) = (0, 2, 2)"
  by (simp add: sample_initial_def sample_first_def sample_eval loop_view_def)

lemma sample_round1_view: "fst (loop_view sample_round1) = (2, 3, 3)"
  by (simp add: sample_round1_def sample_initial_def sample_first_def sample_eval loop_view_def)

lemma sample_round2_view:
  "loop_view sample_round2 = ((3, 3, 3), False, False, MAX_IDB_FACTS,
     [Fact 1 [TERM_INT 1, TERM_INT 2], Fact 1 [TERM_INT 2, TERM_INT 3], Fact 1 [TERM_INT 1, TERM_INT 3]])"
  by (simp add: sample_round2_def sample_round1_def sample_initial_def sample_first_def sample_eval loop_view_def)

lemmas sample_views = sample_initial_view sample_round1_view sample_round2_view

lemma sample_solved:
  "\<exists>st. solve_once_run True (FRESH True) demo_ruleset sample_edb = Inr st \<and>
     idb_facts st = [Fact 1 [TERM_INT 1, TERM_INT 2], Fact 1 [TERM_INT 1, TERM_INT 3], Fact 1 [TERM_INT 2, TERM_INT 3]]"
proof -
  have app: "apply_rule True demo_ruleset depth (demo_path_rules ! i, delta) st = Inr (snd (sample_step i delta depth order st))"
    if "build_static_join_order demo_ruleset (demo_path_rules ! i) delta = Inr order" "fst (sample_step i delta depth order st)"
    for i delta depth order st
    using that by (auto simp: apply_rule_def sample_step_def split: prod.splits)
  note a = app[OF sample_plans(1) sample_first_ok] app[OF sample_plans(2) sample_initial_ok]
    app[OF sample_plans(3) sample_round1_ok] app[OF sample_plans(3) sample_round2_ok]
  have init: "run_jobs True demo_ruleset 0 (initial_jobs (rs_rules demo_ruleset)) sample_prepared =
      Inr (snd (sample_step 1 None 0 [1, 2, 0] sample_first))"
    unfolding sample_jobs(1) using a(1,2) by (simp add: initial_jobs_def sample_first_def)
  let ?rounds = "rounds True demo_ruleset [(demo_path_rules ! 1, Some 2)]"
  have r: "?rounds (Suc n) 1 sample_initial = ?rounds n 2 sample_round1"
    "?rounds (Suc n) 2 sample_round1 = ?rounds n 3 sample_round2" "?rounds (Suc n) 3 sample_round2 = Inr (True, sample_round2)" for n
    using a(3,4) sample_views sample_round1_def sample_round2_def by (simp_all add: loop_view_def numeral_2_eq_2[symmetric])
  have depth: "MAX_DEPTH = Suc (Suc (Suc 7))" by (simp add: limit_defs)
  have "?rounds MAX_DEPTH 1 sample_initial = Inr (True, sample_round2)" unfolding depth r ..
  then have "solve_once_run True (FRESH True) demo_ruleset sample_edb = finish sample_round2"
    unfolding solve_once_run_def sample_prepare sample_jobs(2) by (simp add: init sample_initial_def)
  moreover have "\<exists>st. finish sample_round2 = Inr st \<and> idb_facts st = sorted_list_of_set (set (idb_facts sample_round2))"
    using finish_spec[of sample_round2] sample_round2_view by (auto simp: loop_view_def limit_defs)
  moreover have "sorted_list_of_set (set (idb_facts sample_round2)) =
      [Fact 1 [TERM_INT 1, TERM_INT 2], Fact 1 [TERM_INT 1, TERM_INT 3], Fact 1 [TERM_INT 2, TERM_INT 3]]"
    using sample_round2_view by (simp add: loop_view_def less_fact_def less_eq_fact_def fact_cmp_def)
  ultimately show ?thesis by auto
qed

section \<open>The properties on the sample\<close>

theorem positive_solve_least_model_witness:
  "set (edb_facts sample_edb) \<union> {Fact 1 [TERM_INT 1, TERM_INT 2], Fact 1 [TERM_INT 1, TERM_INT 3], Fact 1 [TERM_INT 2, TERM_INT 3]} =
   lfp (herbrand_step demo_ruleset symbol_table_init (set (edb_facts sample_edb)))"
proof -
  obtain st where st: "solve_once_run True (FRESH True) demo_ruleset sample_edb = Inr st"
    "idb_facts st = [Fact 1 [TERM_INT 1, TERM_INT 2], Fact 1 [TERM_INT 1, TERM_INT 3], Fact 1 [TERM_INT 2, TERM_INT 3]]"
    using sample_solved by blast
  have "registry sample_edb = rs_registry demo_ruleset" by (simp add: sample_edb_def)
  from positive_solve_least_model[OF sample_edb_inv this sample_declared _ st(1)] sample_rules_ok show ?thesis
    by (simp add: st(2) demo_ruleset_def solve_symbols_def)
qed
lemma sample_prepared_state: "idb_inv sample_prepared" "windows_ok sample_prepared" "\<not> finalized sample_prepared"
  using prepare_entry(1)[OF sample_prepare sample_edb_inv sample_registry] by (simp_all add: stratum_entry_def)

lemma sample_rule0: "rule_wf (demo_path_rules ! 0)" "range_restricted (demo_path_rules ! 0)"
    "order_safe (demo_path_rules ! 0) 0 [0..<length (body (demo_path_rules ! 0))]" "safe_permutation (demo_path_rules ! 0) [0]"
proof -
  show "rule_wf (demo_path_rules ! 0)" "range_restricted (demo_path_rules ! 0)"
    using sample_rules_ok[of "demo_path_rules ! 0"] by (simp_all add: sample_jobs(1) rule_ok_def)
  show "order_safe (demo_path_rules ! 0) 0 [0..<length (body (demo_path_rules ! 0))]" by code_simp
  then show "safe_permutation (demo_path_rules ! 0) [0]" by (auto simp: safe_permutation_def demo_path_rules_def)
qed

theorem rule_application_exact_witness:
  "idb_inv sample_first \<and>
   set (idb_facts sample_first) = rule_heads demo_ruleset (demo_path_rules ! 0) sample_prepared None - base_facts sample_prepared"
proof -
  have "derive_planned demo_ruleset (demo_path_rules ! 0) None 0 [0] empty_bindings PROOF_NO_PARENT sample_prepared = (True, sample_first)"
    using sample_first_ok by (simp add: sample_first_def sample_step_def prod_eq_iff)
  from rule_application_exact[OF sample_prepared_state sample_rule0(1,2,4) this] show ?thesis
    by (simp add: sample_prepared_def acquired_state_def)
qed

theorem join_order_irrelevant_witness:
  "\<exists>st1. derive_recursive demo_ruleset (demo_path_rules ! 0) 0 None 0 empty_bindings PROOF_NO_PARENT sample_prepared = (True, st1) \<and>
     set (idb_facts st1) = set (idb_facts sample_first)"
proof -
  have p: "derive_planned demo_ruleset (demo_path_rules ! 0) None 0 [0] empty_bindings PROOF_NO_PARENT sample_prepared = (True, sample_first)"
    using sample_first_ok by (simp add: sample_first_def sample_step_def prod_eq_iff)
  have "length (body (demo_path_rules ! 0)) = 1" by (simp add: demo_path_rules_def)
  then have r: "derive_recursive demo_ruleset (demo_path_rules ! 0) 0 None 0 empty_bindings PROOF_NO_PARENT sample_prepared = (True, sample_first)"
    using p by (simp add: derive_recursive_planned)
  from join_order_irrelevant[OF sample_prepared_state sample_rule0(1-3) sample_plans(1) r p] show ?thesis using r by blast
qed

end
