(* ===== verification/Aggregates.thy ===== *)
theory Aggregates
  imports Solver_Eval
begin

text \<open>
  What the four aggregates compute, as functions of a set of facts: the group of a valuation, the distinct
  projected values it counts, the sum over the distinct facts of the group and the extrema. The evaluators of
  \<^verbatim>\<open>src/core/maelys_datalog_solver.c\<close> (\<^verbatim>\<open>evaluate_count\<close>, \<^verbatim>\<open>evaluate_numeric_aggregate\<close>), which collect
  values in arrays, sort them and skip equal neighbours, are shown to return exactly these values.
\<close>

section \<open>The specification\<close>

text \<open>
  A valuation of the atom keeps the values of the group keys: the named variables other than the projected one.
\<close>

definition group_valuation :: "nat \<Rightarrow> (nat \<Rightarrow> term) \<Rightarrow> (nat \<Rightarrow> term) \<Rightarrow> bool" where
  "group_valuation proj \<sigma> \<tau> \<longleftrightarrow> ground_valuation \<tau> \<and> (\<forall>v<NAMED_VARIABLE_COUNT. v \<noteq> proj \<longrightarrow> \<tau> v = \<sigma> v)"

definition group_facts :: "fact \<Rightarrow> nat \<Rightarrow> (nat \<Rightarrow> term) \<Rightarrow> fact set \<Rightarrow> fact set" where
  "group_facts a proj \<sigma> L = {f \<in> L. \<exists>\<tau>. group_valuation proj \<sigma> \<tau> \<and> f = inst \<tau> a}"

definition projected_value :: "fact \<Rightarrow> nat \<Rightarrow> fact \<Rightarrow> term" where
  "projected_value a proj f = (case projected_term (terms a) proj 0 of None \<Rightarrow> TERM_INT 0 | Some pt \<Rightarrow> terms f ! pt)"

definition summable :: "term \<Rightarrow> bool" where
  "summable t \<longleftrightarrow> term_kind t = 2 \<and> 0 \<le> term_integer t \<and> term_integer t \<le> MAX_INT"

definition group_sum :: "fact \<Rightarrow> nat \<Rightarrow> fact set \<Rightarrow> int" where
  "group_sum a proj G = (\<Sum>f\<in>G. term_integer (projected_value a proj f))"

text \<open>Whether an aggregate has a legitimate value or absence of one, and that value.\<close>

definition aggregate_defined :: "agg_kind \<Rightarrow> fact \<Rightarrow> nat \<Rightarrow> fact set \<Rightarrow> bool" where
  "aggregate_defined kind a proj G \<longleftrightarrow>
     kind = AGG_COUNT \<or>
     ((\<forall>f\<in>G. summable (projected_value a proj f)) \<and> (kind = AGG_SUM \<longrightarrow> group_sum a proj G \<le> MAX_INT))"

definition aggregate_value :: "agg_kind \<Rightarrow> fact \<Rightarrow> nat \<Rightarrow> fact set \<Rightarrow> term option" where
  "aggregate_value kind a proj G =
     (case kind of
        AGG_COUNT \<Rightarrow> Some (TERM_INT (int (card (projected_value a proj ` G))))
      | AGG_SUM \<Rightarrow> Some (TERM_INT (group_sum a proj G))
      | AGG_MIN \<Rightarrow> if G = {} then None else Some (TERM_INT (Min (term_integer ` projected_value a proj ` G)))
      | AGG_MAX \<Rightarrow> if G = {} then None else Some (TERM_INT (Max (term_integer ` projected_value a proj ` G))))"

section \<open>Groups and patterns\<close>

definition group_pattern :: "nat \<Rightarrow> (nat \<Rightarrow> term) \<Rightarrow> term list \<Rightarrow> term list" where
  "group_pattern proj \<sigma> ts =
     map (\<lambda>t. if \<not> is_var t \<or> term_variable t = proj \<or> term_variable t \<ge> NAMED_VARIABLE_COUNT then t else subst \<sigma> t) ts"

lemma bind_group_keys_total:
  assumes "ground_valuation \<sigma>" "terms_wf ts"
  shows "bind_group_keys (bindings_of \<sigma>) proj ts = Some (group_pattern proj \<sigma> ts)"
  using assms(2)
proof (induction ts)
  case (Cons t ts)
  have "instantiate_term (bindings_of \<sigma>) t = Some (subst \<sigma> t)" if "is_var t"
  proof -
    have "term_vars [t] \<subseteq> dom (bmap (bindings_of \<sigma>))" using Cons.prems by (cases t) (auto simp: bmap_bindings_of)
    then obtain u where u: "instantiate_term (bindings_of \<sigma>) t = Some u" using instantiate_term_total by blast
    from instantiate_term_agrees(1)[OF bindings_of_ok(1)[OF assms(1)] bindings_of_ok(2) u] u show ?thesis by simp
  qed
  moreover have "term_kind_known (subst \<sigma> t)" using subst_known[OF assms(1), of t] Cons.prems by (simp add: ground_def)
  ultimately show ?case using Cons by (simp add: group_pattern_def)
qed (simp add: group_pattern_def)

lemma group_pattern_wf:
  assumes "ground_valuation \<sigma>" "terms_wf ts" shows "terms_wf (group_pattern proj \<sigma> ts)"
  using assms(2)
proof (induction ts)
  case (Cons t ts)
  have "ground (subst \<sigma> t)" using subst_known[OF assms(1)] Cons.prems by simp
  then show ?case using Cons by (auto simp: group_pattern_def ground_def)
qed (simp add: group_pattern_def)

lemma subst_nonvar [simp]: "\<not> is_var t \<Longrightarrow> subst \<sigma> t = t"
  by (cases t) auto

lemma group_pattern_subst:
  assumes "group_valuation proj \<sigma> \<tau>" shows "map (subst \<tau>) (group_pattern proj \<sigma> ts) = map (subst \<tau>) ts"
proof -
  have "subst \<tau> (subst \<sigma> t) = subst \<tau> t" if "is_var t" "term_variable t \<noteq> proj" "term_variable t < NAMED_VARIABLE_COUNT" for t
  proof (cases t)
    case (TERM_VAR v)
    then have e: "\<tau> v = \<sigma> v" using that assms by (simp add: group_valuation_def)
    moreover have "\<not> is_var (\<tau> v)" using assms by (simp add: group_valuation_def ground_valuation_def ground_def)
    ultimately show ?thesis using TERM_VAR by simp
  qed (use that in auto)
  then show ?thesis by (auto simp: group_pattern_def)
qed

text \<open>A fact matches the pattern exactly when it belongs to the group.\<close>

lemma subst_group_pattern:
  assumes "map (subst \<tau>) (group_pattern proj \<sigma> ts) = us" "ground_valuation \<tau>" "ground_valuation \<sigma>"
  shows "\<exists>\<rho>. group_valuation proj \<sigma> \<rho> \<and> map (subst \<rho>) ts = us"
proof -
  define \<rho> where "\<rho> v = (if v < NAMED_VARIABLE_COUNT \<and> v \<noteq> proj then \<sigma> v else \<tau> v)" for v
  have \<rho>: "group_valuation proj \<sigma> \<rho>" using assms(2,3) by (simp add: group_valuation_def ground_valuation_def \<rho>_def)
  have "subst \<rho> (subst \<sigma> t) = subst \<tau> (subst \<sigma> t)" if "is_var t" for t
  proof (cases t)
    case (TERM_VAR v)
    have "\<not> is_var (\<sigma> v)" using assms(3) by (simp add: ground_valuation_def ground_def)
    then show ?thesis using TERM_VAR by simp
  qed (use that in auto)
  moreover have "subst \<rho> t = subst \<tau> t" if "\<not> is_var t \<or> term_variable t = proj \<or> term_variable t \<ge> NAMED_VARIABLE_COUNT" for t
    using that by (cases t) (auto simp: \<rho>_def)
  ultimately have "map (subst \<rho>) (group_pattern proj \<sigma> ts) = map (subst \<tau>) (group_pattern proj \<sigma> ts)"
    by (auto simp: group_pattern_def)
  then show ?thesis using \<rho> group_pattern_subst[OF \<rho>, of ts] assms(1) by auto
qed

lemma match_group:
  assumes "ground_valuation \<sigma>" "terms_wf (terms a)" "\<forall>t\<in>set (terms f). ground t" "predicate_id f = predicate_id a"
    "arity f = arity a"
  shows "match_terms empty_bindings (group_pattern proj \<sigma> (terms a)) (terms f) \<noteq> None \<longleftrightarrow>
    (\<exists>\<tau>. group_valuation proj \<sigma> \<tau> \<and> f = inst \<tau> a)"
proof -
  let ?p = "group_pattern proj \<sigma> (terms a)"
  have len: "length ?p = length (terms f)" using assms(5) by (simp add: group_pattern_def)
  note spec = match_terms_spec[OF bindings_ok_empty(1) assms(3) group_pattern_wf[OF assms(1,2)] len]
  have f: "f = inst \<tau> a \<longleftrightarrow> map (subst \<tau>) (terms a) = terms f" for \<tau>
    using assms(4) by (cases f) (auto simp: inst_def)
  show ?thesis
  proof
    assume "match_terms empty_bindings ?p (terms f) \<noteq> None"
    then obtain b where b: "match_terms empty_bindings ?p (terms f) = Some b" by blast
    from spec(2)[OF this] have "bindings_ok b" "\<And>\<tau>. agrees b \<tau> \<Longrightarrow> map (subst \<tau>) ?p = terms f" by auto
    then have "map (subst (valuation_of b)) ?p = terms f" "ground_valuation (valuation_of b)"
      using valuation_of_ok by blast+
    from subst_group_pattern[OF this assms(1)] f show "\<exists>\<tau>. group_valuation proj \<sigma> \<tau> \<and> f = inst \<tau> a" by auto
  next
    assume "\<exists>\<tau>. group_valuation proj \<sigma> \<tau> \<and> f = inst \<tau> a"
    then obtain \<tau> where "group_valuation proj \<sigma> \<tau>" "map (subst \<tau>) (terms a) = terms f" using f by blast
    then have "map (subst \<tau>) ?p = terms f" using group_pattern_subst by simp
    then show "match_terms empty_bindings ?p (terms f) \<noteq> None" using spec(1) by auto
  qed
qed

section \<open>The scans\<close>

text \<open>What the scans assume of their source: ground facts, and the declared arity for the predicate of the atom.\<close>

definition source_ok :: "fact \<Rightarrow> fact list \<Rightarrow> bool" where
  "source_ok a fs \<longleftrightarrow> pred_count (predicate_id a) fs \<le> AGGREGATE_CAPACITY \<and>
     (\<forall>f\<in>set fs. (\<forall>t\<in>set (terms f). ground t) \<and> (predicate_id f = predicate_id a \<longrightarrow> arity f = arity a))"

definition in_group :: "fact \<Rightarrow> nat \<Rightarrow> (nat \<Rightarrow> term) \<Rightarrow> fact \<Rightarrow> bool" where
  "in_group a proj \<sigma> f \<longleftrightarrow> predicate_id f = predicate_id a \<and>
     match_terms empty_bindings (group_pattern proj \<sigma> (terms a)) (terms f) \<noteq> None"

lemma group_facts_filter:
  assumes "ground_valuation \<sigma>" "terms_wf (terms a)" "source_ok a fs"
  shows "group_facts a proj \<sigma> (set fs) = set (filter (in_group a proj \<sigma>) fs)"
proof -
  have "in_group a proj \<sigma> f \<longleftrightarrow> (\<exists>\<tau>. group_valuation proj \<sigma> \<tau> \<and> f = inst \<tau> a)" if "f \<in> set fs" for f
    using match_group[OF assms(1,2), of f proj] that assms(3) by (auto simp: in_group_def source_ok_def inst_def)
  then show ?thesis by (auto simp: group_facts_def)
qed

lemma projected_term_pattern:
  assumes "ground_valuation \<sigma>"
  shows "projected_term (group_pattern proj \<sigma> ts) proj i = projected_term ts proj i"
proof (induction ts arbitrary: i)
  case (Cons t ts)
  have "\<not> is_var (subst \<sigma> t)" if "is_var t"
    using that assms by (cases t) (auto simp: ground_valuation_def ground_def)
  then have "subst \<sigma> t \<noteq> TERM_VAR proj" if "is_var t" using that by auto
  then show ?case using Cons by (cases t) (auto simp: group_pattern_def)
qed (simp add: group_pattern_def)

lemma projected_term_Some:
  assumes "projected_term ts proj i = Some pt" shows "i \<le> pt \<and> pt - i < length ts \<and> ts ! (pt - i) = TERM_VAR proj"
  using assms
proof (induction ts arbitrary: i)
  case (Cons t ts)
  show ?case
  proof (cases "t = TERM_VAR proj")
    case False
    then have "Suc i \<le> pt \<and> pt - Suc i < length ts \<and> ts ! (pt - Suc i) = TERM_VAR proj" using Cons by simp
    moreover from this have "pt - i = Suc (pt - Suc i)" by linarith
    ultimately show ?thesis by simp
  qed (use Cons.prems in simp)
qed simp

lemma projected_term_None: "projected_term ts proj i = None \<longleftrightarrow> TERM_VAR proj \<notin> set ts"
  by (induction ts arbitrary: i) auto

lemma match_projects:
  assumes "ground_valuation \<sigma>" "terms_wf (terms a)" "\<forall>t\<in>set (terms f). ground t" "arity f = arity a"
    "TERM_VAR proj \<in> set (terms a)" "match_terms empty_bindings (group_pattern proj \<sigma> (terms a)) (terms f) = Some b"
  shows "bindings_is_bound b proj \<and> bound_value b ! proj = projected_value a proj f"
proof -
  let ?p = "group_pattern proj \<sigma> (terms a)"
  have len: "length ?p = length (terms f)" using assms(4) by (simp add: group_pattern_def)
  note spec = match_terms_spec(2)[OF bindings_ok_empty(1) assms(3) group_pattern_wf[OF assms(1,2)] len assms(6)]
  obtain pt where pt: "projected_term (terms a) proj 0 = Some pt" using assms(5) projected_term_None[of "terms a" proj 0] by auto
  then have p: "pt < length ?p" "?p ! pt = TERM_VAR proj"
    using projected_term_Some[OF pt] projected_term_Some[of ?p proj 0 pt] projected_term_pattern[OF assms(1), of proj "terms a" 0]
    by simp_all
  then have "proj \<in> term_vars ?p" by (auto simp: term_vars_def in_set_conv_nth)
  then obtain u where u: "bmap b proj = Some u" using spec by auto
  have "map (subst (valuation_of b)) ?p = terms f" using spec valuation_of_ok by blast
  then have "terms f ! pt = valuation_of b proj" using p by (metis nth_map subst.simps(1))
  then show ?thesis using u bmap_value[OF u] bindings_is_bound_iff[of proj b] pt by (simp add: projected_value_def valuation_of_def)
qed

lemma count_values_spec:
  assumes "ground_valuation \<sigma>" "terms_wf (terms a)" "TERM_VAR proj \<in> set (terms a)" "source_ok a fs"
    "length vals + pred_count (predicate_id a) fs \<le> AGGREGATE_CAPACITY"
  shows "count_values (Fact (predicate_id a) (group_pattern proj \<sigma> (terms a))) proj fs vals =
    Inr (vals @ map (projected_value a proj) (filter (in_group a proj \<sigma>) fs))"
  using assms(4,5)
proof (induction fs arbitrary: vals)
  case (Cons f fs)
  have ok: "source_ok a fs" "\<forall>t\<in>set (terms f). ground t" "predicate_id f = predicate_id a \<longrightarrow> arity f = arity a"
    using Cons.prems(1) by (auto simp: source_ok_def split: if_splits)
  have len: "length (group_pattern proj \<sigma> (terms a)) = arity a" by (simp add: group_pattern_def)
  show ?case
  proof (cases "match_terms empty_bindings (group_pattern proj \<sigma> (terms a)) (terms f)")
    case None
    then show ?thesis using Cons.IH[OF ok(1)] Cons.prems(2) ok(3) len by (auto simp: in_group_def)
  next
    case (Some b)
    then show ?thesis
      using Cons.IH[OF ok(1)] Cons.prems(2) ok(3) len match_projects[OF assms(1,2) ok(2) _ assms(3) Some]
      by (auto simp: in_group_def)
  qed
qed simp

lemma count_runs_card:
  assumes "sorted_wrt (\<lambda>a b. term_cmp a b \<le> 0) ts" "\<forall>t\<in>set ts. ground t"
  shows "count_runs ts = card (set ts)"
  using assms
proof (induction ts rule: count_runs.induct)
  case (3 t u ts)
  have eq: "term_equal t u \<longleftrightarrow> t = u" using 3(3) by (simp add: term_equal_ground)
  have "t \<in> set ts \<Longrightarrow> t = u"
    using 3(2) term_order.cmp_antisym[of t u] by auto
  then show ?case using 3 eq by (auto simp: card_insert_if insert_absorb)
qed simp_all

lemma count_sorted:
  assumes "\<forall>t\<in>set vals. ground t" shows "count_runs (sort_array term_cmp vals) = card (set vals)"
proof -
  have s: "mset (sort_array term_cmp vals) = mset vals" "sorted_wrt (\<lambda>a b. term_cmp a b \<le> 0) (sort_array term_cmp vals)"
    using term_order.sort_array_spec[of vals] by simp_all
  then have "set (sort_array term_cmp vals) = set vals" by (metis set_mset_mset)
  then show ?thesis using count_runs_card[OF s(2)] assms by simp
qed

lemma numeric_scan_bad:
  assumes "source_ok a fs" "f \<in> set fs" "in_group a proj \<sigma> f" "\<not> summable (terms f ! pt)" "kind \<noteq> AGG_COUNT"
    "length ms + pred_count (predicate_id a) fs \<le> AGGREGATE_CAPACITY"
  shows "\<exists>err. numeric_scan kind (Fact (predicate_id a) (group_pattern proj \<sigma> (terms a))) pt fs ms acc =
    Inl (MAELYS_ERR_INVALID_FIELD, Some err) \<and> \<not> ae_overflow err"
  using assms(1,2,6)
proof (induction fs arbitrary: ms acc)
  case (Cons g fs)
  have ok: "source_ok a fs" "predicate_id g = predicate_id a \<longrightarrow> arity g = arity a"
    using Cons.prems(1) by (auto simp: source_ok_def split: if_splits)
  have len: "length (group_pattern proj \<sigma> (terms a)) = arity a" by (simp add: group_pattern_def)
  show ?case
  proof (cases "in_group a proj \<sigma> g \<and> \<not> summable (terms g ! pt)")
    case True
    then show ?thesis using ok(2) len by (auto simp: in_group_def summable_def aggregate_rejection_def Let_def not_le)
  next
    case False
    then have f: "f \<in> set fs" using Cons.prems(2) assms(3,4) by auto
    have IH: "\<exists>err. numeric_scan kind (Fact (predicate_id a) (group_pattern proj \<sigma> (terms a))) pt fs ms' acc' =
        Inl (MAELYS_ERR_INVALID_FIELD, Some err) \<and> \<not> ae_overflow err" if "length ms' + pred_count (predicate_id a) fs \<le> AGGREGATE_CAPACITY" for ms' acc'
      using Cons.IH[OF ok(1) f that] .
    show ?thesis using False ok(2) len IH Cons.prems(3)
      by (cases "match_terms empty_bindings (group_pattern proj \<sigma> (terms a)) (terms g)")
        (auto simp: in_group_def summable_def Let_def)
  qed
qed simp

definition extremum :: "agg_kind \<Rightarrow> int \<Rightarrow> int \<Rightarrow> int" where
  "extremum kind i a = (if (if kind = AGG_MIN then i < a else i > a) then i else a)"

fun running :: "agg_kind \<Rightarrow> int list \<Rightarrow> int option \<Rightarrow> int option" where
  "running kind [] acc = acc"
| "running kind (i # is) acc = running kind is (Some (case acc of None \<Rightarrow> i | Some a \<Rightarrow> extremum kind i a))"

lemma numeric_scan_good:
  assumes "source_ok a fs" "\<forall>f\<in>set fs. in_group a proj \<sigma> f \<longrightarrow> summable (terms f ! pt)" "kind \<noteq> AGG_COUNT"
    "length ms + pred_count (predicate_id a) fs \<le> AGGREGATE_CAPACITY"
  shows "\<exists>acc'. numeric_scan kind (Fact (predicate_id a) (group_pattern proj \<sigma> (terms a))) pt fs ms acc =
    Inr (if kind = AGG_SUM then ms @ filter (in_group a proj \<sigma>) fs else ms, acc') \<and>
    (kind \<noteq> AGG_SUM \<longrightarrow> acc' = running kind (map (\<lambda>f. term_integer (terms f ! pt)) (filter (in_group a proj \<sigma>) fs)) acc)"
  using assms(1,2,4)
proof (induction fs arbitrary: ms acc)
  case (Cons f fs)
  have ok: "source_ok a fs" "predicate_id f = predicate_id a \<longrightarrow> arity f = arity a"
    "\<forall>f\<in>set fs. in_group a proj \<sigma> f \<longrightarrow> summable (terms f ! pt)"
    using Cons.prems(1,2) by (auto simp: source_ok_def split: if_splits)
  have len: "length (group_pattern proj \<sigma> (terms a)) = arity a" by (simp add: group_pattern_def)
  note IH = Cons.IH[OF ok(1,3)]
  show ?case
  proof (cases "in_group a proj \<sigma> f")
    case True
    then have s: "summable (terms f ! pt)" using Cons.prems(2) by simp
    show ?thesis
    proof (cases "kind = AGG_SUM")
      case sum: True
      then show ?thesis using True s ok(2) len IH[of "ms @ [f]" "Some 0"] Cons.prems(3)
        by (auto simp: in_group_def summable_def Let_def)
    next
      case False
      then show ?thesis
        using True s ok(2) len IH[of ms "Some (case acc of None \<Rightarrow> term_integer (terms f ! pt)
          | Some b \<Rightarrow> extremum kind (term_integer (terms f ! pt)) b)"] Cons.prems(3)
        by (cases acc) (auto simp: in_group_def summable_def Let_def extremum_def)
    qed
  next
    case False
    then show ?thesis using ok(2) len IH[of ms acc] Cons.prems(3)
      by (cases "match_terms empty_bindings (group_pattern proj \<sigma> (terms a)) (terms f)") (auto simp: in_group_def)
  qed
qed auto

lemma running_Some:
  "running AGG_MIN is (Some i) = Some (Min (insert i (set is)))" "running AGG_MAX is (Some i) = Some (Max (insert i (set is)))"
proof (induction "is" arbitrary: i)
  case (Cons j js)
  {
    case 1
    then show ?case using Cons(1)[of "extremum AGG_MIN j i"]
      by (cases "js = []") (auto simp: extremum_def min_def insert_commute)
  next
    case 2
    then show ?case using Cons(2)[of "extremum AGG_MAX j i"]
      by (cases "js = []") (auto simp: extremum_def max_def insert_commute)
  }
qed simp_all

lemma running_None:
  "running AGG_MIN is None = (if is = [] then None else Some (Min (set is)))"
  "running AGG_MAX is None = (if is = [] then None else Some (Max (set is)))"
  by (cases "is"; simp add: running_Some)+

text \<open>The sum skips equal neighbours, so over a sorted list it adds every fact once; it overflows iff the total does.\<close>

lemma sum_runs_spec:
  assumes "sorted_wrt (\<lambda>a b. fact_cmp a b \<le> 0) fs" "\<forall>f\<in>set fs. 0 \<le> term_integer (terms f ! pt)" "0 \<le> acc" "acc \<le> MAX_INT"
    "case prev of None \<Rightarrow> True | Some g \<Rightarrow> \<forall>f\<in>set fs. fact_cmp g f \<le> 0"
  shows "(let S = acc + (\<Sum>f\<in>set fs - set_option prev. term_integer (terms f ! pt))
    in if S \<le> MAX_INT then sum_runs pid pt prev fs acc = Inr S
       else \<exists>err. sum_runs pid pt prev fs acc = Inl (MAELYS_ERR_INVALID_FIELD, Some err) \<and> ae_overflow err)"
  using assms
proof (induction fs arbitrary: prev acc)
  case (Cons f fs)
  let ?v = "\<lambda>f. term_integer (terms f ! pt)"
  have after: "case Some f of None \<Rightarrow> True | Some g \<Rightarrow> \<forall>f\<in>set fs. fact_cmp g f \<le> 0" using Cons.prems(1) by simp
  have rest: "sorted_wrt (\<lambda>a b. fact_cmp a b \<le> 0) fs" "\<forall>f\<in>set fs. 0 \<le> ?v f" using Cons.prems(1,2) by simp_all
  have skip: "(case prev of None \<Rightarrow> False | Some g \<Rightarrow> fact_cmp g f = 0) \<longleftrightarrow> prev = Some f"
    by (auto simp: fact_order.cmp_eq_iff split: option.splits)
  show ?case
  proof (cases "prev = Some f")
    case True
    then have "set (f # fs) - set_option prev = set fs - set_option (Some f)" by auto
    then show ?thesis using Cons.IH[OF rest Cons.prems(3,4) after] skip True by (simp add: Let_def)
  next
    case False
    have "set (f # fs) - set_option prev = insert f (set fs - {f})"
    proof (cases prev)
      case (Some g)
      have "g \<notin> set fs"
      proof
        assume "g \<in> set fs"
        then have "fact_cmp f g \<le> 0" "fact_cmp g f \<le> 0" using Cons.prems(1,5) Some by auto
        then show False using fact_order.cmp_antisym[of f g] False Some by simp
      qed
      then show ?thesis using False Some by auto
    qed auto
    then have S: "(\<Sum>f\<in>set (f # fs) - set_option prev. ?v f) = ?v f + (\<Sum>f\<in>set fs - set_option (Some f). ?v f)"
      by (simp del: insert_Diff_single)
    have nn: "0 \<le> (\<Sum>f\<in>set fs - set_option (Some f). ?v f)" using rest(2) by (intro sum_nonneg) auto
    show ?thesis
    proof (cases "acc > MAX_INT - ?v f")
      case True
      then show ?thesis using skip False nn unfolding S Let_def by (auto simp: aggregate_rejection_def Let_def)
    next
      case le: False
      have "0 \<le> acc + ?v f" "acc + ?v f \<le> MAX_INT" using le Cons.prems(2,3) by auto
      from Cons.IH[OF rest this after] show ?thesis
        using skip False le unfolding S Let_def by (simp add: add.assoc Let_def)
    qed
  qed
qed (simp add: Let_def)

lemma sum_sorted:
  assumes "\<forall>f\<in>set ms. 0 \<le> term_integer (terms f ! pt)"
  shows "(let S = (\<Sum>f\<in>set ms. term_integer (terms f ! pt))
    in if S \<le> MAX_INT then sum_runs pid pt None (sort_array fact_cmp ms) 0 = Inr S
       else \<exists>err. sum_runs pid pt None (sort_array fact_cmp ms) 0 = Inl (MAELYS_ERR_INVALID_FIELD, Some err) \<and> ae_overflow err)"
proof -
  have s: "mset (sort_array fact_cmp ms) = mset ms" "sorted_wrt (\<lambda>a b. fact_cmp a b \<le> 0) (sort_array fact_cmp ms)"
    using fact_order.sort_array_spec[of ms] by simp_all
  then have set: "set (sort_array fact_cmp ms) = set ms" by (metis set_mset_mset)
  have "(0 :: int) \<le> MAX_INT" by (simp add: limit_defs)
  from sum_runs_spec[OF s(2), of pt 0 None pid] this assms show ?thesis by (simp add: set)
qed

section \<open>The evaluators\<close>

text \<open>The conditions that the compiler imposes on an aggregate literal.\<close>

definition aggregate_literal_ok :: "fact \<Rightarrow> term \<Rightarrow> term \<Rightarrow> bool" where
  "aggregate_literal_ok a lhs rhs \<longleftrightarrow>
     terms_wf (terms a) \<and> is_var lhs \<and> lhs \<in> set (terms a) \<and> is_var rhs \<and> term_variable rhs < MAX_RULE_VARIABLES"

definition aggregate_result :: "agg_kind \<Rightarrow> fact \<Rightarrow> nat \<Rightarrow> fact set \<Rightarrow> (maelys_result \<times> aggregate_error option) + term option \<Rightarrow> bool" where
  "aggregate_result kind a proj G r \<longleftrightarrow>
     (if aggregate_defined kind a proj G then r = Inr (aggregate_value kind a proj G)
      else \<exists>err. r = Inl (MAELYS_ERR_INVALID_FIELD, Some err))"

lemma evaluate_aggregate_exact:
  assumes "ground_valuation \<sigma>" "aggregate_literal_ok a lhs rhs"
    "aggregate_source (LIT_AGGREGATE kind a lhs rhs) (bindings_of \<sigma>) st = Inr (pattern, org, fs)" "source_ok a fs"
  shows "aggregate_result kind a (term_variable lhs) (group_facts a (term_variable lhs) \<sigma> (set fs))
    (map_sum id (snd \<circ> snd) (evaluate_aggregate (LIT_AGGREGATE kind a lhs rhs) (bindings_of \<sigma>) st))"
proof -
  let ?lit = "LIT_AGGREGATE kind a lhs rhs" and ?proj = "term_variable lhs"
  let ?p = "group_pattern ?proj \<sigma> (terms a)"
  have wf: "terms_wf (terms a)" "is_var lhs" and mem: "TERM_VAR ?proj \<in> set (terms a)"
    using assms(2) by (auto simp: aggregate_literal_ok_def) (cases lhs; auto)
  have "map fact_set_term (terms a) = terms a" using wf(1) by (auto simp: terms_wf_def intro!: map_idI)
  then have pattern: "pattern = Fact (predicate_id a) ?p"
    using assms(3) bind_group_keys_total[OF assms(1) wf(1), of ?proj]
    by (auto simp: aggregate_source_def Let_def split: option.splits if_splits)
  have len: "pred_count (predicate_id a) fs \<le> AGGREGATE_CAPACITY" using assms(4) by (simp add: source_ok_def)
  let ?ms = "filter (in_group a ?proj \<sigma>) fs"
  have G: "group_facts a ?proj \<sigma> (set fs) = set ?ms" by (rule group_facts_filter[OF assms(1) wf(1) assms(4)])
  obtain pt where pt: "projected_term (terms a) ?proj 0 = Some pt" using mem projected_term_None[of "terms a" ?proj 0] by auto
  then have pv: "projected_value a ?proj f = terms f ! pt" for f by (simp add: projected_value_def)
  show ?thesis
  proof (cases "kind = AGG_COUNT")
    case True
    have "\<forall>t\<in>set (map (projected_value a ?proj) ?ms). ground t"
    proof -
      have "pt < arity f" if "f \<in> set ?ms" for f
        using that projected_term_Some[OF pt] assms(4) by (auto simp: in_group_def source_ok_def)
      then show ?thesis using assms(4) by (auto simp: pv source_ok_def)
    qed
    from count_sorted[OF this] count_values_spec[OF assms(1) wf(1) mem assms(4), of "[]"] len show ?thesis
      by (simp add: True evaluate_aggregate_def evaluate_count_def assms(3)[unfolded True] pattern aggregate_result_def
          aggregate_defined_def aggregate_value_def G)
  next
    case False
    then have ev: "evaluate_aggregate ?lit (bindings_of \<sigma>) st = evaluate_numeric_aggregate kind ?lit (bindings_of \<sigma>) st"
      by (cases kind) (simp_all add: evaluate_aggregate_def)
    have pt': "projected_term ?p ?proj 0 = Some pt" using pt projected_term_pattern[OF assms(1)] by simp
    show ?thesis
    proof (cases "\<forall>f\<in>set ?ms. summable (terms f ! pt)")
      case bad: False
      then obtain f where f: "f \<in> set fs" "in_group a ?proj \<sigma> f" "\<not> summable (terms f ! pt)" by auto
      from numeric_scan_bad[OF assms(4) f False, of "[]"] len obtain err where
        "numeric_scan kind pattern pt fs [] None = Inl (MAELYS_ERR_INVALID_FIELD, Some err)" unfolding pattern by auto
      then have "evaluate_numeric_aggregate kind ?lit (bindings_of \<sigma>) st = Inl (MAELYS_ERR_INVALID_FIELD, Some err)"
        by (simp add: evaluate_numeric_aggregate_def assms(3)) (simp add: pattern pt')
      moreover have "\<not> aggregate_defined kind a ?proj (group_facts a ?proj \<sigma> (set fs))"
        using bad False by (simp add: aggregate_defined_def G pv)
      ultimately show ?thesis by (simp add: ev aggregate_result_def)
    next
      case good: True
      then have all: "\<forall>f\<in>set fs. in_group a ?proj \<sigma> f \<longrightarrow> summable (terms f ! pt)" by simp
      from numeric_scan_good[OF assms(4) all False, of "[]" None] len obtain acc where
        acc: "numeric_scan kind pattern pt fs [] None = Inr (if kind = AGG_SUM then ?ms else [], acc)"
        "kind \<noteq> AGG_SUM \<longrightarrow> acc = running kind (map (\<lambda>f. term_integer (terms f ! pt)) ?ms) None"
        unfolding pattern by auto
      show ?thesis
      proof (cases "kind = AGG_SUM")
        case True
        have "\<forall>f\<in>set ?ms. 0 \<le> term_integer (terms f ! pt)" using good by (simp add: summable_def)
        note sum = sum_sorted[OF this, of "predicate_id a"]
        have "evaluate_numeric_aggregate kind ?lit (bindings_of \<sigma>) st =
            (case sum_runs (predicate_id a) pt None (sort_array fact_cmp ?ms) 0 of
               Inl e \<Rightarrow> Inl e | Inr amount \<Rightarrow> Inr (pattern, org, Some (TERM_INT amount)))"
          using acc(1) unfolding evaluate_numeric_aggregate_def assms(3) pattern by (simp add: True pt')
        then show ?thesis using sum good unfolding ev aggregate_result_def aggregate_defined_def aggregate_value_def group_sum_def G pv
          by (auto simp: True Let_def split: if_splits)
      next
        case ext: False
        have img: "term_integer ` projected_value a ?proj ` set ?ms = set (map (\<lambda>f. term_integer (terms f ! pt)) ?ms)"
          by (simp add: pv image_image)
        have "evaluate_numeric_aggregate kind ?lit (bindings_of \<sigma>) st = Inr (pattern, org, map_option TERM_INT acc)"
          using acc(1) ext by (simp add: evaluate_numeric_aggregate_def assms(3)) (simp add: pattern pt')
        moreover have "map_option TERM_INT acc = aggregate_value kind a ?proj (set ?ms)"
          using acc(2) ext False running_None[of "map (\<lambda>f. term_integer (terms f ! pt)) ?ms"] unfolding aggregate_value_def img
          by (cases kind) (auto simp: filter_empty_conv)
        ultimately show ?thesis using good ext False by (simp add: ev aggregate_result_def aggregate_defined_def G pv)
      qed
    qed
  qed
qed

section \<open>Property\<close>

text \<open>
  (C25) The aggregates compute their reference values. Over a source of ground facts of the declared arity that
  respects the capacity, \<^verbatim>\<open>count\<close> returns the number of distinct projected values of the group, \<^verbatim>\<open>sum\<close> the
  total over its distinct facts, \<^verbatim>\<open>min\<close> and \<^verbatim>\<open>max\<close> the extrema and no value for an empty group. The evaluation
  fails, with the code for an invalid field, exactly when a projected value of a numeric aggregate is not an
  integer from 0 to the configured maximum or a sum exceeds it.
\<close>

theorem aggregate_exact:
  assumes "ground_valuation \<sigma>" "aggregate_literal_ok a lhs rhs"
    "aggregate_source (LIT_AGGREGATE kind a lhs rhs) (bindings_of \<sigma>) st = Inr (pattern, org, fs)" "source_ok a fs"
  shows "(let G = group_facts a (term_variable lhs) \<sigma> (set fs);
              r = map_sum id (snd \<circ> snd) (evaluate_aggregate (LIT_AGGREGATE kind a lhs rhs) (bindings_of \<sigma>) st)
          in if aggregate_defined kind a (term_variable lhs) G
             then r = Inr (aggregate_value kind a (term_variable lhs) G)
             else \<exists>err. r = Inl (MAELYS_ERR_INVALID_FIELD, Some err))"
  using evaluate_aggregate_exact[OF assms] by (simp add: aggregate_result_def Let_def)

end
