(* ===== verification/Strata.thy ===== *)
theory Strata
  imports Least_Model Aggregates
begin

unbundle bit_operations_syntax

text \<open>
  The stratified evaluation. Freezing a stratum sorts its facts in place; below the active stratum the windows of
  the frozen strata therefore hold, sorted, exactly the facts of their predicates, and negated literals and
  aggregates read complete relations. By induction over the strata an evaluation that succeeds computes the
  perfect model of the program.
\<close>

section \<open>Freezing a stratum\<close>

lemma sink_pair_mset: "mset (sink_pair x ps) = add_mset x (mset ps)"
  by (induction x ps rule: sink_pair.induct) auto

lemma sink_pair_sorted:
  "sorted_wrt (\<ge>) (map fst ps) \<Longrightarrow> sorted_wrt (\<ge>) (map fst (sink_pair x ps))"
proof (induction x ps rule: sink_pair.induct)
  case (2 x y ys)
  have set: "fst ` set (sink_pair x ys) = insert (fst x) (fst ` set ys)"
    using sink_pair_mset[of x ys] by (metis image_insert set_mset_add_mset_insert set_mset_mset)
  show ?case
  proof (cases "fact_cmp (fst y) (fst x) > 0")
    case True
    then have "fst x \<le> fst y" using fact_order.cmp_total[of "fst x" "fst y"] by (auto simp: less_eq_fact_def)
    then show ?thesis using True 2 set by auto
  next
    case False
    then have "fst y \<le> fst x" by (simp add: less_eq_fact_def)
    then show ?thesis using False 2(2) by auto
  qed
qed simp

lemma sort_idb_slice_facts: "map fst (sort_idb_slice_with_proof ps) = sort (map fst ps)"
proof -
  have "mset (fold sink_pair qs ps) = mset qs + mset ps \<and> (sorted_wrt (\<ge>) (map fst ps) \<longrightarrow> sorted_wrt (\<ge>) (map fst (fold sink_pair qs ps)))"
    for qs ps
    by (induction qs arbitrary: ps) (auto simp: sink_pair_mset sink_pair_sorted)
  from this[of ps "[]"] have "mset (map fst (sort_idb_slice_with_proof ps)) = mset (map fst ps)"
    "sorted (map fst (sort_idb_slice_with_proof ps))"
    by (simp_all add: sort_idb_slice_with_proof_def sorted_wrt_rev flip: rev_map)
  then show ?thesis by (metis properties_for_sort)
qed

lemma dedup_idb_slice_distinct: "distinct (map fst ps) \<Longrightarrow> dedup_idb_slice_with_proof ps = ps"
proof -
  have "kept \<notin> fst ` set qs \<Longrightarrow> distinct (map fst qs) \<Longrightarrow> dedup_pairs kept qs = qs" for kept and qs :: "(fact \<times> nat) list"
    by (induction kept qs rule: dedup_pairs.induct) (auto simp: fact_equals_def fact_order.cmp_eq_iff)
  then show "distinct (map fst ps) \<Longrightarrow> dedup_idb_slice_with_proof ps = ps"
    by (auto simp: dedup_idb_slice_with_proof_def split: list.splits)
qed

lemma fill_future_parts [simp]:
  "idb_facts (fill_future_stratum_bounds n st) = idb_facts st" "idb_current_end (fill_future_stratum_bounds n st) = idb_current_end st"
  "idb_delta_begin (fill_future_stratum_bounds n st) = idb_delta_begin st" "idb_delta_end (fill_future_stratum_bounds n st) = idb_delta_end st"
  "active_stratum (fill_future_stratum_bounds n st) = active_stratum st" "stratified (fill_future_stratum_bounds n st) = stratified st"
  "finalized (fill_future_stratum_bounds n st) = finalized st" "failed (fill_future_stratum_bounds n st) = failed st" "sr_ruleset (fill_future_stratum_bounds n st) = sr_ruleset st"
  "sr_symbols (fill_future_stratum_bounds n st) = sr_symbols st" "edb_snapshot (fill_future_stratum_bounds n st) = edb_snapshot st"
  "base_facts (fill_future_stratum_bounds n st) = base_facts st"
  "length (stratum_idb_end (fill_future_stratum_bounds n st)) = length (stratum_idb_end st)"
  "i < n \<Longrightarrow> i < length (stratum_idb_end st) \<Longrightarrow> stratum_idb_end (fill_future_stratum_bounds n st) ! i = stratum_idb_end st ! i"
  by (simp_all add: fill_future_stratum_bounds_def base_facts_def)

lemma idb_inv_reorder:
  assumes "idb_inv st" "mset (idb_facts st') = mset (idb_facts st)" "length (idb_proof_index st') = length (idb_proof_index st)"
    "idb_current_end st' = length (idb_facts st')" "\<not> idb_sorted st'" "idb_per_pred st' = idb_per_pred st"
    "derived_capacity st' = derived_capacity st" "sr_ruleset st' = sr_ruleset st" "edb_snapshot st' = edb_snapshot st"
    "edb_ranges st' = edb_ranges st"
  shows "idb_inv st'"
proof -
  have "set (idb_facts st') = set (idb_facts st)" "length (idb_facts st') = length (idb_facts st)"
    "distinct (idb_facts st') = distinct (idb_facts st)"
    using assms(2) by (metis set_mset_mset, metis size_mset, metis mset_eq_imp_distinct_iff)
  moreover have "pred_count p (idb_facts st') = pred_count p (idb_facts st)" for p
    unfolding pred_count_def by (metis assms(2) mset_filter size_mset)
  moreover have "snapshot_ok st' = snapshot_ok st" by (rule snapshot_ok_edb[OF assms(9,10)])
  moreover have "base_facts st' = base_facts st" by (simp add: base_facts_def assms(8,9))
  ultimately show ?thesis using assms by (simp add: idb_inv_def)
qed

lemma freeze_spec:
  assumes inv: "idb_inv st" and s: "active_stratum st < MAX_STRATA" "stratum_idb_end st ! active_stratum st = start"
    and ce: "start \<le> length (idb_facts st)" "idb_current_end st = length (idb_facts st)"
    and len: "length (stratum_idb_end st) = MAX_STRATA + 1"
  obtains st' where "freeze_active_stratum st = (MAELYS_OK, st')" "idb_inv st'"
    "idb_facts st' = take start (idb_facts st) @ sorted_list_of_set (set (drop start (idb_facts st)))"
    "idb_current_end st' = length (idb_facts st')" "length (stratum_idb_end st') = MAX_STRATA + 1"
    "stratum_idb_end st' ! Suc (active_stratum st) = length (idb_facts st')"
    "\<forall>i\<le>active_stratum st. stratum_idb_end st' ! i = stratum_idb_end st ! i"
    "stratified st' = stratified st" "finalized st' = finalized st" "failed st' = failed st" "sr_ruleset st' = sr_ruleset st"
    "sr_symbols st' = sr_symbols st" "edb_snapshot st' = edb_snapshot st"
proof -
  let ?s = "active_stratum st"
  let ?ps = "sort_idb_slice_with_proof (segment start (length (idb_facts st)) (zip (idb_facts st) (idb_proof_index st)))"
  have lens: "length (idb_proof_index st) = length (idb_facts st)" and d: "distinct (idb_facts st)" using inv by (simp_all add: idb_inv_def)
  have "map fst (segment start (length (idb_facts st)) (zip (idb_facts st) (idb_proof_index st))) = drop start (idb_facts st)"
    using lens by (simp add: segment_def drop_map take_map drop_zip)
  then have fst: "map fst ?ps = sort (drop start (idb_facts st))" by (simp add: sort_idb_slice_facts)
  then have ded: "dedup_idb_slice_with_proof ?ps = ?ps" by (intro dedup_idb_slice_distinct) (simp add: d)
  have n: "length ?ps = length (idb_facts st) - start" using arg_cong[OF fst, of length] by simp
  have srt: "sort (drop start (idb_facts st)) = sorted_list_of_set (set (drop start (idb_facts st)))"
    using d by (simp add: sorted_list_of_set_sort_remdups distinct_remdups_id)
  define st1 where "st1 = st\<lparr>idb_facts := take start (idb_facts st) @ map fst ?ps,
    idb_proof_index := take start (idb_proof_index st) @ map snd ?ps, idb_sorted := False,
    idb_current_end := length (idb_facts st), idb_delta_begin := length (idb_facts st), idb_delta_end := length (idb_facts st),
    stratum_idb_end := (stratum_idb_end st)[Suc ?s := length (idb_facts st)]\<rparr>"
  have fr: "freeze_active_stratum st = (MAELYS_OK, fill_future_stratum_bounds (?s + 2) st1)"
    using s ce n unfolding freeze_active_stratum_def Let_def s(2) ce(2) ded by (simp add: st1_def)
  let ?st' = "fill_future_stratum_bounds (?s + 2) st1"
  have facts: "idb_facts ?st' = take start (idb_facts st) @ sorted_list_of_set (set (drop start (idb_facts st)))"
    by (simp add: st1_def fst srt)
  have len': "length (idb_facts ?st') = length (idb_facts st)" using ce n by (simp add: st1_def)
  show thesis
  proof (rule that[OF fr _ facts])
    have "mset (take start (idb_facts st)) + mset (drop start (idb_facts st)) = mset (idb_facts st)"
      by (metis append_take_drop_id mset_append)
    then have "mset (idb_facts ?st') = mset (idb_facts st)" by (simp add: st1_def fst)
    then show "idb_inv ?st'"
      using n lens ce by (intro idb_inv_reorder[OF inv]) (simp_all add: fill_future_stratum_bounds_def st1_def)
    show "idb_current_end ?st' = length (idb_facts ?st')" unfolding len' by (simp add: st1_def)
    show "stratum_idb_end ?st' ! Suc ?s = length (idb_facts ?st')" unfolding len' using s(1) len by (simp add: st1_def)
    show "\<forall>i\<le>?s. stratum_idb_end ?st' ! i = stratum_idb_end st ! i" using s(1) len by (simp add: st1_def)
  qed (simp_all add: st1_def len)
qed

section \<open>Between two strata\<close>

text \<open>
  The first \<open>s\<close> strata are frozen: each window is sorted and holds all derived facts of its stratum.
\<close>

definition strata_frozen :: "ruleset \<Rightarrow> nat \<Rightarrow> solve_state \<Rightarrow> bool" where
  "strata_frozen rs s st \<longleftrightarrow>
     (\<forall>i < s. stratum_idb_end st ! i \<le> stratum_idb_end st ! Suc i \<and> stratum_idb_end st ! Suc i \<le> length (idb_facts st) \<and>
        sorted (segment (stratum_idb_end st ! i) (stratum_idb_end st ! Suc i) (idb_facts st)) \<and>
        set (segment (stratum_idb_end st ! i) (stratum_idb_end st ! Suc i) (idb_facts st)) =
          {f \<in> set (idb_facts st). rs_strata rs ! predicate_id f = i}) \<and>
     (\<forall>f\<in>set (idb_facts st). rs_strata rs ! predicate_id f < s)"

definition strata_inv :: "ruleset \<Rightarrow> nat \<Rightarrow> solve_state \<Rightarrow> bool" where
  "strata_inv rs s st \<longleftrightarrow>
     idb_inv st \<and> stratified st \<and> \<not> finalized st \<and> \<not> failed st \<and> sr_ruleset st = rs \<and> length (stratum_idb_end st) = MAX_STRATA + 1 \<and>
     idb_current_end st = length (idb_facts st) \<and> stratum_idb_end st ! s = length (idb_facts st) \<and> strata_frozen rs s st"

lemma strata_frozen_cong:
  assumes "idb_facts st' = idb_facts st" "\<And>i. i \<le> s \<Longrightarrow> stratum_idb_end st' ! i = stratum_idb_end st ! i"
  shows "strata_frozen rs s st' \<longleftrightarrow> strata_frozen rs s st"
proof -
  have "stratum_idb_end st' ! i = stratum_idb_end st ! i \<and> stratum_idb_end st' ! Suc i = stratum_idb_end st ! Suc i" if "i < s" for i
    using assms(2) that by simp
  then show ?thesis unfolding strata_frozen_def assms(1) by simp
qed

lemma enter_stratum_spec:
  assumes "strata_inv rs s st" "s < MAX_STRATA"
  shows "stratum_entry (enter_stratum s st)" "strata_frozen rs s (enter_stratum s st)" "active_stratum (enter_stratum s st) = s"
    "stratum_idb_end (enter_stratum s st) ! s = length (idb_facts st)" "idb_facts (enter_stratum s st) = idb_facts st"
    "stratified (enter_stratum s st)" "sr_ruleset (enter_stratum s st) = rs" "sr_symbols (enter_stratum s st) = sr_symbols st"
    "edb_snapshot (enter_stratum s st) = edb_snapshot st" "base_facts (enter_stratum s st) = base_facts st"
    "length (stratum_idb_end (enter_stratum s st)) = MAX_STRATA + 1"
proof -
  let ?st = "enter_stratum s st"
  have i: "idb_inv st" "stratified st" "\<not> finalized st" "sr_ruleset st = rs" "length (stratum_idb_end st) = MAX_STRATA + 1"
    "idb_current_end st = length (idb_facts st)" "stratum_idb_end st ! s = length (idb_facts st)" "strata_frozen rs s st" "\<not> failed st"
    using assms(1) by (simp_all add: strata_inv_def)
  show facts: "idb_facts ?st = idb_facts st" and act: "active_stratum ?st = s" and "stratified ?st" "sr_ruleset ?st = rs"
    "sr_symbols ?st = sr_symbols st" "edb_snapshot ?st = edb_snapshot st" "base_facts ?st = base_facts st"
    and len: "length (stratum_idb_end ?st) = MAX_STRATA + 1"
    using i by (simp_all add: enter_stratum_def Let_def base_facts_def)
  have ends: "stratum_idb_end ?st ! j = stratum_idb_end st ! j" if "j \<le> s" for j
    using that assms(2) i(5-7) by (auto simp: enter_stratum_def Let_def nth_list_update)
  then show start: "stratum_idb_end ?st ! s = length (idb_facts st)" using i(7) by simp
  show frozen: "strata_frozen rs s ?st" using strata_frozen_cong[OF facts ends] i(8) by blast
  have "idb_inv ?st"
  proof -
    have "snapshot_ok ?st = snapshot_ok st"
      by (rule snapshot_ok_edb) (simp_all add: enter_stratum_def Let_def fill_future_stratum_bounds_def)
    then show ?thesis using i(1)
      by (simp add: idb_inv_def) (simp add: enter_stratum_def Let_def fill_future_stratum_bounds_def base_facts_def)
  qed
  moreover have "lower_frozen ?st"
    using frozen assms(2) i(2,6) start act facts
    by (simp add: lower_frozen_def strata_frozen_def stratum_start_def) (simp add: enter_stratum_def Let_def)
  ultimately show "stratum_entry ?st"
    using i(2,3,6,9) start act facts
    by (simp add: stratum_entry_def stratum_start_def windows_ok_def) (simp add: enter_stratum_def Let_def)
qed

end
