(* ===== verification/Perfect_Model.thy ===== *)
theory Perfect_Model
  imports Strata
begin

unbundle bit_operations_syntax

text \<open>
  The model of a stratified program: stratum after stratum, the least set closed under the rules of the stratum,
  with negation and aggregates read in the strata below. The single literals of a rule read this model when the
  strata below are frozen, and \<^verbatim>\<open>solve_stratified_path\<close> computes it.
\<close>

section \<open>The reference model\<close>

text \<open>Truth of a literal over the facts \<open>L\<close> of the strata below and the facts \<open>M\<close> known so far.\<close>

fun holds_over :: "ruleset \<Rightarrow> symbol_table \<Rightarrow> rule \<Rightarrow> fact set \<Rightarrow> fact set \<Rightarrow> (nat \<Rightarrow> term) \<Rightarrow> literal \<Rightarrow> bool" where
  "holds_over rs syms rule L M \<sigma> (LIT_ATOM a) \<longleftrightarrow> inst \<sigma> a \<in> M"
| "holds_over rs syms rule L M \<sigma> (LIT_COMPARISON l op r h i j) \<longleftrightarrow> comparison_holds rule (LIT_COMPARISON l op r h i j) \<sigma>"
| "holds_over rs syms rule L M \<sigma> (LIT_FILTER k i v) \<longleftrightarrow> filter_holds rs syms (LIT_FILTER k i v) \<sigma>"
| "holds_over rs syms rule L M \<sigma> (LIT_NEGATED_ATOM a) \<longleftrightarrow> inst \<sigma> a \<notin> L"
| "holds_over rs syms rule L M \<sigma> (LIT_AGGREGATE kind a lhs rhs) \<longleftrightarrow>
     (let G = group_facts a (term_variable lhs) \<sigma> L
      in aggregate_defined kind a (term_variable lhs) G \<and> aggregate_value kind a (term_variable lhs) G = Some (subst \<sigma> rhs))"
| "holds_over rs syms rule L M \<sigma> (LIT_OTHER _) \<longleftrightarrow> False"

definition stratum_step :: "ruleset \<Rightarrow> symbol_table \<Rightarrow> nat \<Rightarrow> fact set \<Rightarrow> fact set \<Rightarrow> fact set" where
  "stratum_step rs syms s L M =
     L \<union> {inst \<sigma> (head rule) | rule \<sigma>. rule \<in> set (rs_rules rs) \<and> rule_in_stratum rs s rule \<and> ground_valuation \<sigma> \<and>
            (\<forall>lit\<in>set (body rule). holds_over rs syms rule L M \<sigma> lit)}"

primrec perfect_model :: "ruleset \<Rightarrow> symbol_table \<Rightarrow> fact set \<Rightarrow> nat \<Rightarrow> fact set" where
  "perfect_model rs syms B 0 = B"
| "perfect_model rs syms B (Suc s) = lfp (stratum_step rs syms s (perfect_model rs syms B s))"

lemma mono_stratum_step: "mono (stratum_step rs syms s L)"
proof (rule monoI)
  fix M N :: "fact set"
  assume "M \<subseteq> N"
  then have "holds_over rs syms rule L M \<sigma> lit \<Longrightarrow> holds_over rs syms rule L N \<sigma> lit" for rule \<sigma> lit
    by (cases lit) auto
  then show "stratum_step rs syms s L M \<subseteq> stratum_step rs syms s L N" unfolding stratum_step_def by blast
qed

section \<open>Stratified programs\<close>

definition declared_atom :: "ruleset \<Rightarrow> fact \<Rightarrow> bool" where
  "declared_atom rs a \<longleftrightarrow> terms_wf (terms a) \<and>
     (case predicate_registry_get (rs_registry rs) (predicate_id a) of None \<Rightarrow> False | Some d \<Rightarrow> arity a = pred_arity d)"

text \<open>What a literal of a rule may read when its head is in stratum \<open>s\<close>.\<close>

fun reads_below :: "ruleset \<Rightarrow> nat \<Rightarrow> literal \<Rightarrow> bool" where
  "reads_below rs s (LIT_ATOM a) \<longleftrightarrow>
     (has_kind rs PRED_KIND_IDB (predicate_id a) \<longrightarrow> rs_strata rs ! predicate_id a \<le> s)"
| "reads_below rs s (LIT_NEGATED_ATOM a) \<longleftrightarrow> declared_atom rs a \<and>
     (has_kind rs PRED_KIND_IDB (predicate_id a) \<longrightarrow> rs_strata rs ! predicate_id a < s)"
| "reads_below rs s (LIT_AGGREGATE kind a lhs rhs) \<longleftrightarrow> declared_atom rs a \<and> aggregate_literal_ok a lhs rhs \<and>
     (has_kind rs PRED_KIND_IDB (predicate_id a) \<longrightarrow> rs_strata rs ! predicate_id a < s)"
| "reads_below rs s _ \<longleftrightarrow> True"

definition stratified_program :: "ruleset \<Rightarrow> bool" where
  "stratified_program rs \<longleftrightarrow> well_declared rs \<and> length (rs_facts rs) \<le> MAX_RULE_FACTS \<and>
     (\<forall>rule\<in>set (rs_rules rs). rule_ok True rule \<and> rs_strata rs ! predicate_id (head rule) \<le> rs_max_stratum rs \<and>
        (\<forall>lit\<in>set (body rule). reads_below rs (rs_strata rs ! predicate_id (head rule)) lit))"

section \<open>Relations in a state\<close>

definition base_ok :: "ruleset \<Rightarrow> solve_state \<Rightarrow> bool" where
  "base_ok rs st \<longleftrightarrow> registry_inv (rs_registry rs) \<and> length (rs_facts rs) \<le> MAX_RULE_FACTS \<and>
     (\<forall>f\<in>set (rs_facts rs). has_kind rs PRED_KIND_POLICY_FACT (predicate_id f) \<and> fact_structurally_valid (rs_registry rs) f) \<and>
     (\<forall>f\<in>set (set_facts (edb_snapshot st)). has_kind rs PRED_KIND_EDB (predicate_id f) \<and> fact_structurally_valid (rs_registry rs) f) \<and>
     (\<forall>p. pred_count p (set_facts (edb_snapshot st)) \<le> MAX_FACTS_PER_PRED)"

definition idb_declared :: "ruleset \<Rightarrow> solve_state \<Rightarrow> bool" where
  "idb_declared rs st \<longleftrightarrow> (\<forall>f\<in>set (idb_facts st). has_kind rs PRED_KIND_IDB (predicate_id f))"

definition known_facts :: "solve_state \<Rightarrow> fact set" where
  "known_facts st = base_facts st \<union> set (idb_facts st)"

lemma kinds_exclusive:
  assumes "registry_inv reg" "predicate_registry_get reg pid = Some d"
  shows "(kind_flags d AND PRED_KIND_EDB) \<noteq> 0 \<and> (kind_flags d AND PRED_KIND_IDB) = 0 \<and> (kind_flags d AND PRED_KIND_POLICY_FACT) = 0 \<or>
    (kind_flags d AND PRED_KIND_EDB) = 0 \<and> (kind_flags d AND PRED_KIND_IDB) \<noteq> 0 \<and> (kind_flags d AND PRED_KIND_POLICY_FACT) = 0 \<or>
    (kind_flags d AND PRED_KIND_EDB) = 0 \<and> (kind_flags d AND PRED_KIND_IDB) = 0 \<and> (kind_flags d AND PRED_KIND_POLICY_FACT) \<noteq> 0"
proof -
  have "valid_kind_flags (kind_flags d)"
    using assms by (auto simp: registry_inv_def entry_valid_def predicate_registry_get_def split: if_splits)
  then show ?thesis by (auto simp: valid_kind_flags_def kind_defs)
qed

definition stratum_ready :: "ruleset \<Rightarrow> nat \<Rightarrow> solve_state \<Rightarrow> bool" where
  "stratum_ready rs s st \<longleftrightarrow>
     stratum_entry st \<and> strata_frozen rs s st \<and> active_stratum st = s \<and> stratified st \<and> sr_ruleset st = rs \<and>
     s < MAX_STRATA \<and> base_ok rs st \<and> idb_declared rs st"

lemma ready_base: "stratum_ready rs s st \<Longrightarrow> base_facts st = set (rs_facts rs) \<union> set (set_facts (edb_snapshot st))"
  by (simp add: stratum_ready_def base_facts_def)

text \<open>The facts of a declared predicate, by its kind.\<close>

lemma edb_relation:
  assumes "stratum_ready rs s st" "predicate_registry_get (rs_registry rs) p = Some d" "(kind_flags d AND PRED_KIND_EDB) \<noteq> 0"
    "predicate_id f = p"
  shows "f \<in> known_facts st \<longleftrightarrow> f \<in> set (edb_slice st p)"
proof -
  have b: "base_ok rs st" "idb_declared rs st" "snapshot_ok st" using assms(1) by (simp_all add: stratum_ready_def stratum_entry_def idb_inv_def)
  have "p < MAX_PREDICATES" using registry_get_bound[OF _ assms(2)] b(1) by (simp add: base_ok_def)
  then have "set (edb_slice st p) = {f \<in> set (set_facts (edb_snapshot st)). predicate_id f = p}" using b(3) by (simp add: snapshot_ok_def)
  moreover have "f \<notin> set (rs_facts rs)" "f \<notin> set (idb_facts st)"
    using kinds_exclusive[OF _ assms(2)] assms(2-4) b(1,2) by (auto simp: base_ok_def idb_declared_def has_kind_def)
  ultimately show ?thesis using assms(4) by (auto simp: known_facts_def ready_base[OF assms(1)])
qed

lemma policy_relation:
  assumes "stratum_ready rs s st" "predicate_registry_get (rs_registry rs) p = Some d" "(kind_flags d AND PRED_KIND_POLICY_FACT) \<noteq> 0"
    "predicate_id f = p"
  shows "f \<in> known_facts st \<longleftrightarrow> f \<in> set (rs_facts rs)"
proof -
  have b: "base_ok rs st" "idb_declared rs st" using assms(1) by (simp_all add: stratum_ready_def)
  have "f \<notin> set (set_facts (edb_snapshot st))" "f \<notin> set (idb_facts st)"
    using kinds_exclusive[OF _ assms(2)] assms(2-4) b(1,2) by (auto simp: base_ok_def idb_declared_def has_kind_def)
  then show ?thesis by (auto simp: known_facts_def ready_base[OF assms(1)])
qed

lemma idb_not_base:
  assumes "stratum_ready rs s st" "predicate_registry_get (rs_registry rs) p = Some d" "(kind_flags d AND PRED_KIND_IDB) \<noteq> 0"
    "predicate_id f = p"
  shows "f \<in> known_facts st \<longleftrightarrow> f \<in> set (idb_facts st)"
proof -
  have b: "base_ok rs st" using assms(1) by (simp_all add: stratum_ready_def)
  have "f \<notin> set (set_facts (edb_snapshot st))" "f \<notin> set (rs_facts rs)"
    using kinds_exclusive[OF _ assms(2)] assms(2-4) b by (auto simp: base_ok_def has_kind_def)
  then show ?thesis by (auto simp: known_facts_def ready_base[OF assms(1)])
qed

definition stratum_window :: "solve_state \<Rightarrow> nat \<Rightarrow> fact list" where
  "stratum_window st i = segment (stratum_idb_end st ! i) (stratum_idb_end st ! Suc i) (idb_facts st)"

lemma frozen_relation:
  assumes "stratum_ready rs s st" "predicate_registry_get (rs_registry rs) p = Some d" "(kind_flags d AND PRED_KIND_IDB) \<noteq> 0"
    "rs_strata rs ! p < s"
  shows "frozen_window rs st p = Some (stratum_window st (rs_strata rs ! p))" "sorted (stratum_window st (rs_strata rs ! p))"
    "window_facts rs st p = set (stratum_window st (rs_strata rs ! p))"
    "predicate_id f = p \<Longrightarrow> f \<in> known_facts st \<longleftrightarrow> f \<in> set (stratum_window st (rs_strata rs ! p))"
proof -
  let ?i = "rs_strata rs ! p"
  have r: "stratified st" "active_stratum st = s" "s < MAX_STRATA" "strata_frozen rs s st" "stratum_entry st" "base_ok rs st"
    using assms(1) by (simp_all add: stratum_ready_def)
  have ce: "idb_current_end st = length (idb_facts st)" using r(5) by (simp add: stratum_entry_def)
  have w: "stratum_idb_end st ! ?i \<le> stratum_idb_end st ! Suc ?i" "stratum_idb_end st ! Suc ?i \<le> length (idb_facts st)"
    "sorted (stratum_window st ?i)" "set (stratum_window st ?i) = {f \<in> set (idb_facts st). rs_strata rs ! predicate_id f = ?i}"
    using r(4) assms(4) by (simp_all add: strata_frozen_def stratum_window_def)
  show "frozen_window rs st p = Some (stratum_window st ?i)"
    using r w(1,2) ce assms(4) by (simp add: frozen_window_def stratum_window_def Let_def)
  show "sorted (stratum_window st ?i)" by (rule w(3))
  have "p < MAX_PREDICATES" using registry_get_bound[OF _ assms(2)] r(6) by (simp add: base_ok_def)
  then have "idb_scan_window rs st p = Some (stratum_idb_end st ! ?i, stratum_idb_end st ! Suc ?i - stratum_idb_end st ! ?i)"
    using r w(1,2) ce assms(4) by (simp add: idb_scan_window_def Let_def)
  then show "window_facts rs st p = set (stratum_window st ?i)" by (simp add: window_facts_def stratum_window_def segment_def)
  show "f \<in> known_facts st \<longleftrightarrow> f \<in> set (stratum_window st ?i)" if "predicate_id f = p"
    using idb_not_base[OF assms(1-3) that] w(4) that by simp
qed

section \<open>Literals in a state\<close>

lemma known_valid:
  assumes "stratum_ready rs s st" "f \<in> known_facts st" shows "fact_structurally_valid (rs_registry rs) f"
  using assms unfolding known_facts_def ready_base[OF assms(1)]
  by (auto simp: stratum_ready_def base_ok_def stratum_entry_def idb_inv_def)

lemma positive_reads:
  assumes "stratum_ready rs s st" "\<forall>f\<in>X. has_kind rs PRED_KIND_IDB (predicate_id f) \<and> rs_strata rs ! predicate_id f = s"
    "reads_below rs s (LIT_ATOM a)"
  shows "inst \<sigma> a \<in> visible_facts rs st X a \<longleftrightarrow> inst \<sigma> a \<in> known_facts st \<union> X"
proof (cases "predicate_registry_get (rs_registry rs) (predicate_id a)")
  case None
  have "\<not> fact_structurally_valid (rs_registry rs) (inst \<sigma> a)" using None by (simp add: fact_structurally_valid_def inst_def)
  moreover have "inst \<sigma> a \<notin> X" using None assms(2) by (auto simp: has_kind_def inst_def)
  ultimately show ?thesis using None known_valid[OF assms(1)] by (auto simp: visible_facts_def)
next
  case (Some d)
  let ?p = "predicate_id a" and ?f = "inst \<sigma> a"
  have p: "predicate_id ?f = ?p" by (simp add: inst_def)
  have reg: "registry_inv (rs_registry rs)" and act: "active_stratum st = s" "stratified st"
    using assms(1) by (simp_all add: stratum_ready_def base_ok_def)
  have X: "?f \<in> X \<Longrightarrow> (kind_flags d AND PRED_KIND_IDB) \<noteq> 0 \<and> rs_strata rs ! ?p = s"
    using assms(2) Some p by (auto simp: has_kind_def)
  from kinds_exclusive[OF reg Some] consider
    (edb) "(kind_flags d AND PRED_KIND_EDB) \<noteq> 0" "(kind_flags d AND PRED_KIND_IDB) = 0" "(kind_flags d AND PRED_KIND_POLICY_FACT) = 0"
  | (idb) "(kind_flags d AND PRED_KIND_EDB) = 0" "(kind_flags d AND PRED_KIND_IDB) \<noteq> 0" "(kind_flags d AND PRED_KIND_POLICY_FACT) = 0"
  | (pol) "(kind_flags d AND PRED_KIND_EDB) = 0" "(kind_flags d AND PRED_KIND_IDB) = 0" "(kind_flags d AND PRED_KIND_POLICY_FACT) \<noteq> 0"
    by blast
  then show ?thesis
  proof cases
    case edb
    then show ?thesis using Some X edb_relation[OF assms(1) Some edb(1) p] by (auto simp: visible_facts_def)
  next
    case pol
    then show ?thesis using Some X policy_relation[OF assms(1) Some pol(3) p] by (auto simp: visible_facts_def)
  next
    case idb
    have le: "rs_strata rs ! ?p \<le> s" using assms(3) Some idb(2) by (simp add: has_kind_def)
    show ?thesis
    proof (cases "rs_strata rs ! ?p = s")
      case True
      have "?f \<notin> set (idb_facts st)" using assms(1) True p by (auto simp: stratum_ready_def strata_frozen_def)
      then show ?thesis using Some idb True act idb_not_base[OF assms(1) Some idb(2) p]
        by (auto simp: visible_facts_def computed_here_def)
    next
      case False
      then have lt: "rs_strata rs ! ?p < s" using le by simp
      note w = frozen_relation[OF assms(1) Some idb(2) lt]
      have "?f \<notin> X" using X lt by auto
      then show ?thesis using Some idb lt act w(3) w(4)[OF p] by (simp add: visible_facts_def computed_here_def)
    qed
  qed
qed

lemma negated_reads:
  assumes "stratum_ready rs s st" "ground_valuation \<sigma>" "reads_below rs s (LIT_NEGATED_ATOM a)"
  shows "negation_holds rs (LIT_NEGATED_ATOM a) st \<sigma> \<longleftrightarrow> inst \<sigma> a \<notin> known_facts st"
proof -
  let ?f = "inst \<sigma> a"
  have p: "predicate_id ?f = predicate_id a" by (simp add: inst_def)
  obtain d where d: "predicate_registry_get (rs_registry rs) (predicate_id a) = Some d" "arity a = pred_arity d" and wf: "terms_wf (terms a)"
    using assms(3) by (auto simp: declared_atom_def split: option.splits)
  have reg: "registry_inv (rs_registry rs)" and snap: "snapshot_ok st"
    using assms(1) by (simp_all add: stratum_ready_def base_ok_def stratum_entry_def idb_inv_def)
  have pid: "predicate_id a < MAX_PREDICATES" by (rule registry_get_bound[OF reg d(1)])
  have "pred_arity d \<le> MAX_ARITY"
    using reg d(1) by (auto simp: registry_inv_def entry_valid_def predicate_registry_get_def split: if_splits)
  then have ar: "arity a \<le> MAX_TERMS" using d(2) by (simp add: limit_defs)
  have known: "\<forall>t\<in>set (terms a). term_kind_known t" and sub: "term_vars (terms a) \<subseteq> dom (bmap (bindings_of \<sigma>))"
    using wf by (auto simp: terms_wf_def bmap_bindings_of)
  have q: "instantiate_atom (bindings_of \<sigma>) a = Some ?f"
    using instantiate_atom_spec[OF bindings_of_ok(1)[OF assms(2)] bindings_of_ok(2) assms(2) known] sub by simp
  have valid: "fact_structurally_valid (rs_registry rs) ?f"
    using d ar known subst_known[OF assms(2)] by (auto simp: fact_structurally_valid_def inst_def list_all_iff ground_def)
  have snapshot: "fact_set_contains (edb_snapshot st) ?f \<longleftrightarrow> ?f \<in> set (edb_slice st (predicate_id a))"
    using fact_set_contains_spec[of "edb_snapshot st" ?f] snap pid p by (auto simp: snapshot_ok_def)
  note unf = negation_holds_def solve_negated_literal_def
  from kinds_exclusive[OF reg d(1)] consider
    (edb) "(kind_flags d AND PRED_KIND_EDB) \<noteq> 0"
  | (idb) "(kind_flags d AND PRED_KIND_EDB) = 0" "(kind_flags d AND PRED_KIND_IDB) \<noteq> 0" "(kind_flags d AND PRED_KIND_POLICY_FACT) = 0"
  | (pol) "(kind_flags d AND PRED_KIND_EDB) = 0" "(kind_flags d AND PRED_KIND_POLICY_FACT) \<noteq> 0" by blast
  then show ?thesis
  proof cases
    case edb
    then show ?thesis using q valid pid p d(1) snapshot edb_relation[OF assms(1) d(1) edb p] by (simp add: unf)
  next
    case pol
    then show ?thesis using q valid pid p d(1) policy_relation[OF assms(1) d(1) pol(2) p]
      by (auto simp: unf fact_in_slice_def fact_equals_def fact_order.cmp_eq_iff list_ex_iff)
  next
    case idb
    have lt: "rs_strata rs ! predicate_id a < s" using assms(3) d(1) idb(2) by (simp add: has_kind_def)
    note w = frozen_relation[OF assms(1) d(1) idb(2) lt]
    show ?thesis using q valid pid p d(1) idb w(1,2) w(4)[OF p] by (simp add: unf fact_set_contains_spec)
  qed
qed

text \<open>The source of an aggregate holds exactly the known facts of its predicate.\<close>

lemma pred_count_segment: "pred_count p (segment a b fs) \<le> pred_count p fs"
proof -
  have "pred_count p (take n xs) \<le> pred_count p xs" "pred_count p (drop n xs) \<le> pred_count p xs" for n xs
    using append_take_drop_id[of n xs] unfolding pred_count_def by (metis filter_append le_add1 le_add2 length_append)+
  then show ?thesis unfolding segment_def using order_trans by blast
qed


lemma aggregate_source_reads:
  assumes "stratum_ready rs s st" "ground_valuation \<sigma>" "reads_below rs s (LIT_AGGREGATE kind a lhs rhs)"
  obtains pattern org fs where "aggregate_source (LIT_AGGREGATE kind a lhs rhs) (bindings_of \<sigma>) st = Inr (pattern, org, fs)"
    "source_ok a fs" "set fs \<subseteq> known_facts st" "\<And>f. predicate_id f = predicate_id a \<Longrightarrow> f \<in> known_facts st \<longleftrightarrow> f \<in> set fs"
proof -
  let ?p = "predicate_id a"
  obtain d where d: "predicate_registry_get (rs_registry rs) ?p = Some d" "arity a = pred_arity d" and wf: "terms_wf (terms a)"
    and ok: "aggregate_literal_ok a lhs rhs"
    using assms(3) by (auto simp: declared_atom_def split: option.splits)
  have r: "registry_inv (rs_registry rs)" "snapshot_ok st" "sr_ruleset st = rs" "\<not> finalized st" "base_ok rs st" "idb_inv st"
    using assms(1) unfolding stratum_ready_def stratum_entry_def by (simp_all add: base_ok_def, simp_all add: idb_inv_def)
  have pid: "?p < MAX_PREDICATES" by (rule registry_get_bound[OF r(1) d(1)])
  have "pred_arity d \<le> MAX_ARITY"
    using r(1) d(1) by (auto simp: registry_inv_def entry_valid_def predicate_registry_get_def split: if_splits)
  then have ar: "arity a \<le> MAX_TERMS" using d(2) by (simp add: limit_defs)
  have v: "is_var lhs" "term_variable lhs < MAX_RULE_VARIABLES" "is_var rhs" "term_variable rhs < MAX_RULE_VARIABLES"
    using ok by (auto simp: aggregate_literal_ok_def terms_wf_def term_vars_def) (cases lhs; auto)
  have id: "map fact_set_term (terms a) = terms a" using wf by (auto simp: terms_wf_def intro!: map_idI)
  note src = bind_group_keys_total[OF assms(2) wf, of "term_variable lhs"]
  have cap: "MAX_FACTS_PER_PRED \<le> AGGREGATE_CAPACITY" "MAX_RULE_FACTS \<le> AGGREGATE_CAPACITY" by (simp_all add: AGGREGATE_CAPACITY_def)
  have valid: "source_ok a fs" if "set fs \<subseteq> known_facts st" "pred_count ?p fs \<le> AGGREGATE_CAPACITY" for fs
  proof -
    have "(\<forall>t\<in>set (terms f). ground t) \<and> (predicate_id f = ?p \<longrightarrow> arity f = arity a)" if "f \<in> set fs" for f
    proof -
      have "fact_structurally_valid (rs_registry rs) f" using known_valid[OF assms(1)] that \<open>set fs \<subseteq> known_facts st\<close> by blast
      then show ?thesis using d by (auto simp: fact_structurally_valid_def list_all_iff ground_def split: option.splits)
    qed
    then show ?thesis using that(2) by (simp add: source_ok_def)
  qed
  from kinds_exclusive[OF r(1) d(1)] consider
    (edb) "(kind_flags d AND PRED_KIND_EDB) \<noteq> 0"
  | (idb) "(kind_flags d AND PRED_KIND_EDB) = 0" "(kind_flags d AND PRED_KIND_IDB) \<noteq> 0" "(kind_flags d AND PRED_KIND_POLICY_FACT) = 0"
  | (pol) "(kind_flags d AND PRED_KIND_EDB) = 0" "(kind_flags d AND PRED_KIND_POLICY_FACT) \<noteq> 0" by blast
  then show thesis
  proof cases
    case edb
    have slice: "edb_slice st ?p = of_pred ?p (set_facts (edb_snapshot st))" using r(2) pid by (simp add: snapshot_ok_def)
    have sub: "set (edb_slice st ?p) \<subseteq> known_facts st"
      unfolding slice by (auto simp: known_facts_def ready_base[OF assms(1)])
    have "pred_count ?p (edb_slice st ?p) \<le> AGGREGATE_CAPACITY"
      using r(5) cap(1) order_trans unfolding slice pred_count_def base_ok_def by (simp add: filter_filter) blast
    then show thesis using edb d ar v id src r(3) valid[OF sub] sub edb_relation[OF assms(1) d(1) edb]
      by (intro that[of _ _ "edb_slice st ?p"]) (simp_all add: aggregate_source_def)
  next
    case pol
    have sub: "set (rs_facts rs) \<subseteq> known_facts st" by (auto simp: known_facts_def ready_base[OF assms(1)])
    have "pred_count ?p (rs_facts rs) \<le> length (rs_facts rs)" by (simp add: pred_count_def)
    then have "pred_count ?p (rs_facts rs) \<le> AGGREGATE_CAPACITY" using r(5) cap(2) by (simp add: base_ok_def)
    then show thesis using pol d ar v id src r(3) valid[OF sub] sub policy_relation[OF assms(1) d(1) pol(2)]
      by (intro that[of _ _ "rs_facts rs"]) (simp_all add: aggregate_source_def)
  next
    case idb
    have lt: "rs_strata rs ! ?p < s" using assms(3) d(1) idb(2) by (simp add: has_kind_def)
    let ?w = "stratum_window st (rs_strata rs ! ?p)"
    note w = frozen_relation[OF assms(1) d(1) idb(2) lt]
    have sub: "set ?w \<subseteq> known_facts st" unfolding stratum_window_def known_facts_def using set_segment_subset[of _ _ "idb_facts st"] by blast
    have "pred_count ?p ?w \<le> pred_count ?p (idb_facts st)" unfolding stratum_window_def by (rule pred_count_segment)
    also have "\<dots> \<le> MAX_FACTS_PER_PRED" using r(6) by (simp add: idb_inv_def)
    finally have "pred_count ?p ?w \<le> AGGREGATE_CAPACITY" using cap(1) by simp
    then show thesis using idb d ar v id src r(3,4) valid[OF sub] sub w(1,4)
      by (intro that[of _ _ ?w]) (simp_all add: aggregate_source_def)
  qed
qed

lemma aggregate_reads:
  assumes "stratum_ready rs s st" "ground_valuation \<sigma>" "reads_below rs s (LIT_AGGREGATE kind a lhs rhs)"
  shows "aggregate_holds (LIT_AGGREGATE kind a lhs rhs) st \<sigma> \<longleftrightarrow>
    holds_over rs syms rule (known_facts st) M \<sigma> (LIT_AGGREGATE kind a lhs rhs)"
proof -
  let ?lit = "LIT_AGGREGATE kind a lhs rhs" and ?proj = "term_variable lhs"
  obtain pattern org fs where src: "aggregate_source ?lit (bindings_of \<sigma>) st = Inr (pattern, org, fs)" "source_ok a fs"
    "\<And>f. predicate_id f = predicate_id a \<Longrightarrow> f \<in> known_facts st \<longleftrightarrow> f \<in> set fs"
    using aggregate_source_reads[OF assms] by metis
  have ok: "aggregate_literal_ok a lhs rhs" using assms(3) by simp
  have G: "group_facts a ?proj \<sigma> (set fs) = group_facts a ?proj \<sigma> (known_facts st)"
    using src(3) by (auto simp: group_facts_def inst_def)
  have "aggregate_holds ?lit st \<sigma> \<longleftrightarrow>
      map_sum id (snd \<circ> snd) (evaluate_aggregate ?lit (bindings_of \<sigma>) st) = Inr (Some (subst \<sigma> rhs))"
    by (cases "evaluate_aggregate ?lit (bindings_of \<sigma>) st") (auto simp: aggregate_holds_def)
  then show ?thesis using evaluate_aggregate_exact[OF assms(2) ok src(1,2)]
    by (auto simp: aggregate_result_def G Let_def split: if_splits)
qed

section \<open>One stratum\<close>

definition stratum_facts :: "ruleset \<Rightarrow> nat \<Rightarrow> fact set" where
  "stratum_facts rs s = {f. has_kind rs PRED_KIND_IDB (predicate_id f) \<and> rs_strata rs ! predicate_id f = s}"

lemma body_reads:
  assumes "stratum_ready rs s st" "X \<subseteq> stratum_facts rs s" "\<forall>lit\<in>set (body rule). reads_below rs s lit"
  shows "body_holds rs rule st X \<sigma> \<longleftrightarrow> ground_valuation \<sigma> \<and>
    (\<forall>lit\<in>set (body rule). holds_over rs (sr_symbols st) rule (known_facts st) (known_facts st \<union> X) \<sigma> lit)"
proof -
  have X: "\<forall>f\<in>X. has_kind rs PRED_KIND_IDB (predicate_id f) \<and> rs_strata rs ! predicate_id f = s"
    using assms(2) by (auto simp: stratum_facts_def)
  have "literal_holds rs rule st X \<sigma> li \<longleftrightarrow>
      holds_over rs (sr_symbols st) rule (known_facts st) (known_facts st \<union> X) \<sigma> (body rule ! li)"
    if li: "li < length (body rule)" and g: "ground_valuation \<sigma>" for li
  proof -
    have r: "reads_below rs s (body rule ! li)" using assms(3) li by simp
    show ?thesis
    proof (cases "body rule ! li")
      case (LIT_ATOM a)
      then show ?thesis using positive_reads[OF assms(1) X] r by (simp add: literal_holds_def)
    next
      case (LIT_NEGATED_ATOM a)
      then show ?thesis using negated_reads[OF assms(1) g] r by (simp add: literal_holds_def literal_true_def)
    next
      case (LIT_AGGREGATE kind a lhs rhs)
      then show ?thesis
        using aggregate_reads[OF assms(1) g, of kind a lhs rhs "sr_symbols st" rule "known_facts st \<union> X"] r
        by (simp add: literal_holds_def literal_true_def)
    qed (simp_all add: literal_holds_def literal_true_def)
  qed
  then show ?thesis unfolding body_holds_def all_set_conv_all_nth by auto
qed

lemma stratum_lfp:
  assumes "stratum_ready rs s st" "stratified_program rs"
  shows "known_facts st \<union> lfp (consequence rs (filter (rule_in_stratum rs s) (rs_rules rs)) st) =
    lfp (stratum_step rs (sr_symbols st) s (known_facts st))"
proof (rule lfp_over_base[OF mono_consequence mono_stratum_step])
  let ?rules = "filter (rule_in_stratum rs s) (rs_rules rs)" and ?L = "known_facts st"
  have heads: "rule \<in> set ?rules \<Longrightarrow> inst \<sigma> (head rule) \<in> stratum_facts rs s" for rule \<sigma>
    using assms(2) by (auto simp: stratum_facts_def rule_in_stratum_def stratified_program_def well_declared_def inst_def)
  then show "consequence rs ?rules st X \<subseteq> stratum_facts rs s" for X by (auto simp: consequence_def)
  show "?L \<subseteq> stratum_step rs (sr_symbols st) s ?L M" for M by (simp add: stratum_step_def)
  show "stratum_step rs (sr_symbols st) s ?L (?L \<union> X) = ?L \<union> consequence rs ?rules st X" if X: "X \<subseteq> stratum_facts rs s" for X
  proof -
    have "\<forall>lit\<in>set (body rule). reads_below rs s lit" if "rule \<in> set ?rules" for rule
      using assms(2) that by (auto simp: stratified_program_def rule_in_stratum_def)
    then have "rule \<in> set (rs_rules rs) \<and> rule_in_stratum rs s rule \<and> body_holds rs rule st X \<sigma> \<longleftrightarrow>
      rule \<in> set (rs_rules rs) \<and> rule_in_stratum rs s rule \<and> ground_valuation \<sigma> \<and>
      (\<forall>lit\<in>set (body rule). holds_over rs (sr_symbols st) rule ?L (?L \<union> X) \<sigma> lit)" for rule \<sigma>
      using body_reads[OF assms(1) X] by auto
    then have "stratum_step rs (sr_symbols st) s ?L (?L \<union> X) =
      ?L \<union> {inst \<sigma> (head rule) | rule \<sigma>. rule \<in> set ?rules \<and> body_holds rs rule st X \<sigma>}" unfolding stratum_step_def by auto
    also have "\<dots> = ?L \<union> consequence rs ?rules st X" by (auto simp: consequence_def known_facts_def)
    finally show ?thesis .
  qed
qed

lemma eligible_in_stratum:
  assumes "stratum_ready rs s st"
  shows "literal_delta_eligible_in_stratum rs s lit \<longleftrightarrow> idb_literal rs st lit"
proof -
  have "registry_inv (rs_registry rs)" "active_stratum st = s" "stratified st"
    using assms by (simp_all add: stratum_ready_def base_ok_def)
  then show ?thesis
    by (auto simp: literal_delta_eligible_in_stratum_def literal_delta_eligible_def idb_literal_def computed_here_def
        split: literal.splits option.splits dest: registry_get_bound)
qed

text \<open>The facts of a stratum that converged, before it is frozen.\<close>

lemma solve_stratum_rounds:
  assumes ready: "stratum_ready rs s st0" and prog: "stratified_program rs"
    and init: "run_jobs True rs 0 (initial_jobs (filter (rule_in_stratum rs s) (rs_rules rs))) st0 = Inr st1"
    and loop: "rounds True rs (delta_jobs (literal_delta_eligible_in_stratum rs s) (filter (rule_in_stratum rs s) (rs_rules rs)))
        MAX_DEPTH 1 (advance (length (idb_facts st0)) st1) = Inr (converged, st2)"
    and conv: "converged \<or> idb_delta_begin st2 = idb_delta_end st2"
  obtains new where "idb_facts st2 = idb_facts st0 @ new" "set new = lfp (consequence rs (filter (rule_in_stratum rs s) (rs_rules rs)) st0)"
    "later st0 st2" "idb_inv st2" "idb_current_end st2 = length (idb_facts st2)"
proof -
  let ?rules = "filter (rule_in_stratum rs s) (rs_rules rs)"
  have entry: "stratum_entry st0" using ready by (simp add: stratum_ready_def)
  have "\<forall>f\<in>set (idb_facts st0). rs_strata rs ! predicate_id f < s" using ready by (simp add: stratum_ready_def strata_frozen_def)
  then have fresh: "fresh_heads ?rules st0" by (fastforce simp: fresh_heads_def rule_in_stratum_def)
  have ok: "\<forall>rule\<in>set ?rules. rule_ok True rule" using prog by (simp add: stratified_program_def)
  have jobs: "round_jobs rs ?rules st0 (delta_jobs (literal_delta_eligible_in_stratum rs s) ?rules)"
    using eligible_in_stratum[OF ready] by (intro delta_jobs_round) simp
  from rounds_inv[OF entry fresh jobs ok initial_round[OF entry fresh ok init] loop]
  have r: "round_inv rs ?rules st0 st2" "idb_delta_begin st2 = idb_delta_end st2" using conv by auto
  obtain new where "idb_facts st2 = idb_facts st0 @ new" using r(1) by (auto simp: round_inv_def later_def)
  then show thesis using that[of new] stratum_converged[OF entry r] r(1) by (simp add: round_inv_def)
qed

lemma segment_append_left: "b \<le> length xs \<Longrightarrow> segment a b (xs @ ys) = segment a b xs"
  by (simp add: segment_def)

lemma strata_frozen_step:
  assumes "strata_frozen rs s st0" "idb_facts st = idb_facts st0 @ sorted_list_of_set N" "finite N"
    "\<forall>i \<le> s. stratum_idb_end st ! i = stratum_idb_end st0 ! i" "stratum_idb_end st0 ! s = length (idb_facts st0)"
    "stratum_idb_end st ! Suc s = length (idb_facts st)" "\<forall>f\<in>N. rs_strata rs ! predicate_id f = s"
  shows "strata_frozen rs (Suc s) st"
proof -
  have lower: "\<forall>f\<in>set (idb_facts st0). rs_strata rs ! predicate_id f < s" using assms(1) by (simp add: strata_frozen_def)
  have set: "set (idb_facts st) = set (idb_facts st0) \<union> N" by (simp add: assms(2,3))
  have "stratum_idb_end st ! i \<le> stratum_idb_end st ! Suc i \<and> stratum_idb_end st ! Suc i \<le> length (idb_facts st) \<and>
      sorted (segment (stratum_idb_end st ! i) (stratum_idb_end st ! Suc i) (idb_facts st)) \<and>
      set (segment (stratum_idb_end st ! i) (stratum_idb_end st ! Suc i) (idb_facts st)) = {f \<in> set (idb_facts st). rs_strata rs ! predicate_id f = i}"
    if i: "i < Suc s" for i
  proof (cases "i = s")
    case True
    have "segment (length (idb_facts st0)) (length (idb_facts st)) (idb_facts st) = sorted_list_of_set N"
      by (simp add: assms(2) segment_def)
    then show ?thesis using True assms(4-7) lower by (auto simp: set assms(3)) (auto simp: assms(2))
  next
    case False
    then have lt: "i < s" "Suc i \<le> s" using i by simp_all
    have b: "stratum_idb_end st0 ! i \<le> stratum_idb_end st0 ! Suc i" "stratum_idb_end st0 ! Suc i \<le> length (idb_facts st0)"
      "sorted (segment (stratum_idb_end st0 ! i) (stratum_idb_end st0 ! Suc i) (idb_facts st0))"
      "set (segment (stratum_idb_end st0 ! i) (stratum_idb_end st0 ! Suc i) (idb_facts st0)) =
        {f \<in> set (idb_facts st0). rs_strata rs ! predicate_id f = i}"
      using assms(1) lt(1) by (simp_all add: strata_frozen_def)
    then have "segment (stratum_idb_end st ! i) (stratum_idb_end st ! Suc i) (idb_facts st) =
        segment (stratum_idb_end st0 ! i) (stratum_idb_end st0 ! Suc i) (idb_facts st0)"
      using assms(4) lt by (simp add: assms(2) segment_append_left)
    then show ?thesis using b assms(4,7) lt unfolding set by (auto simp: assms(2))
  qed
  then show ?thesis using lower assms(7) by (fastforce simp: strata_frozen_def set)
qed

lemma base_ok_cong: "edb_snapshot st' = edb_snapshot st \<Longrightarrow> base_ok rs st' \<longleftrightarrow> base_ok rs st"
  by (simp add: base_ok_def)

lemma solve_stratum_spec:
  assumes inv: "strata_inv rs s st" "base_ok rs st" "idb_declared rs st" and prog: "stratified_program rs" "s < MAX_STRATA"
    and solve: "solve_stratum rs s st = Inr st'"
  shows "strata_inv rs (Suc s) st' \<and> base_ok rs st' \<and> idb_declared rs st' \<and> sr_symbols st' = sr_symbols st \<and>
    edb_snapshot st' = edb_snapshot st \<and> known_facts st' = lfp (stratum_step rs (sr_symbols st) s (known_facts st))"
proof -
  let ?rules = "filter (rule_in_stratum rs s) (rs_rules rs)" and ?st0 = "enter_stratum s st"
  note e = enter_stratum_spec[OF inv(1) prog(2)]
  have ready: "stratum_ready rs s ?st0" using e inv(2,3) prog(2) by (simp add: stratum_ready_def base_ok_def idb_declared_def)
  from solve obtain st1 converged st2 where
    st1: "run_jobs True rs 0 (initial_jobs ?rules) ?st0 = Inr st1" and
    st2: "rounds True rs (delta_jobs (literal_delta_eligible_in_stratum rs s) ?rules) MAX_DEPTH 1 (advance (stratum_idb_end st1 ! s) st1) =
        Inr (converged, st2)" "converged \<or> idb_delta_begin st2 = idb_delta_end st2" and
    fr: "freeze_active_stratum st2 = (MAELYS_OK, st')"
    by (auto simp: solve_stratum_def Let_def split: sum.splits prod.splits if_splits)
  have "later ?st0 st1"
  proof -
    have "idb_inv ?st0" "windows_ok ?st0" "\<not> finalized ?st0" using e(1) by (simp_all add: stratum_entry_def)
    moreover have "\<forall>job\<in>set (initial_jobs ?rules). rule_ok True (fst job)"
      using prog(1) by (auto simp: initial_jobs_def stratified_program_def)
    ultimately show ?thesis using run_jobs_new[OF _ _ _ _ st1] grows_later by metis
  qed
  then have "stratum_idb_end st1 ! s = length (idb_facts ?st0)" using stratum_viewD(5)[OF later_view] e(4,5) by simp
  from solve_stratum_rounds[OF ready prog(1) st1 st2(1)[unfolded this] st2(2)] obtain new where
    new: "idb_facts st2 = idb_facts ?st0 @ new" "set new = lfp (consequence rs ?rules ?st0)" "later ?st0 st2" "idb_inv st2"
      "idb_current_end st2 = length (idb_facts st2)" by blast
  note v = stratum_viewD[OF later_view[OF new(3)]]
  have heads: "set new \<subseteq> stratum_facts rs s"
    unfolding new(2) using lfp_consequence_heads[of _ rs ?rules ?st0] prog(1)
    by (fastforce simp: stratum_facts_def rule_in_stratum_def stratified_program_def well_declared_def)
  let ?n = "length (idb_facts ?st0)"
  have "active_stratum st2 < MAX_STRATA" "stratum_idb_end st2 ! active_stratum st2 = ?n" "?n \<le> length (idb_facts st2)"
    "length (stratum_idb_end st2) = MAX_STRATA + 1"
    using v(5,6) e(3,4,5,11) prog(2) new(1) by simp_all
  from freeze_spec[OF new(4) this(1,2,3) new(5) this(4)] obtain st3 where
    st3: "freeze_active_stratum st2 = (MAELYS_OK, st3)" "idb_inv st3"
    "idb_facts st3 = take ?n (idb_facts st2) @ sorted_list_of_set (set (drop ?n (idb_facts st2)))"
    "idb_current_end st3 = length (idb_facts st3)" "length (stratum_idb_end st3) = MAX_STRATA + 1"
    "stratum_idb_end st3 ! Suc (active_stratum st2) = length (idb_facts st3)"
    "\<forall>i\<le>active_stratum st2. stratum_idb_end st3 ! i = stratum_idb_end st2 ! i"
    "stratified st3 = stratified st2" "finalized st3 = finalized st2" "failed st3 = failed st2" "sr_ruleset st3 = sr_ruleset st2"
    "sr_symbols st3 = sr_symbols st2" "edb_snapshot st3 = edb_snapshot st2" by blast
  have st': "st' = st3" using fr st3(1) by simp
  have facts: "idb_facts st' = idb_facts ?st0 @ sorted_list_of_set (set new)" using st3(3) new(1) st' by simp
  have "strata_frozen rs (Suc s) st'"
  proof (rule strata_frozen_step[OF e(2) facts])
    show "\<forall>i \<le> s. stratum_idb_end st' ! i = stratum_idb_end ?st0 ! i" using st3(7) v(5,6) e(3) st' by simp
    show "stratum_idb_end st' ! Suc s = length (idb_facts st')" using st3(6) v(6) e(3) st' by simp
    show "stratum_idb_end ?st0 ! s = length (idb_facts ?st0)" using e(4,5) by simp
  qed (use heads in \<open>auto simp: stratum_facts_def\<close>)
  moreover have "\<not> finalized ?st0" "\<not> failed ?st0" using e(1) by (simp_all add: stratum_entry_def)
  ultimately have "strata_inv rs (Suc s) st'"
    using st3 v e(3,6,7) st' by (simp add: strata_inv_def)
  moreover have same: "sr_symbols st' = sr_symbols st" "edb_snapshot st' = edb_snapshot st" using st3(12,13) v(2,3) e(8,9) st' by simp_all
  moreover have "idb_declared rs st'" using inv(3) heads e(5) unfolding idb_declared_def facts by (auto simp: stratum_facts_def)
  moreover have "known_facts st' = lfp (stratum_step rs (sr_symbols st) s (known_facts st))"
  proof -
    have "base_facts st' = base_facts ?st0" using st3(11,13) v(1,3) st' by (simp add: base_facts_def)
    then have "known_facts st' = known_facts ?st0 \<union> set new" by (auto simp: known_facts_def facts)
    moreover have "known_facts ?st0 = known_facts st" by (simp add: known_facts_def e(5,10))
    ultimately show ?thesis using stratum_lfp[OF ready prog(1)] new(2) e(8) by simp
  qed
  ultimately show ?thesis using inv(2) base_ok_cong by blast
qed

section \<open>All strata\<close>

lemma solve_strata_spec:
  assumes "stratified_program rs" "strata_inv rs k st" "base_ok rs st" "idb_declared rs st" "k \<le> n" "n \<le> MAX_STRATA"
    "known_facts st = perfect_model rs (sr_symbols st) B k" "solve_strata rs [k..<n] st = Inr st'"
  shows "strata_inv rs n st' \<and> known_facts st' = perfect_model rs (sr_symbols st) B n \<and> sr_symbols st' = sr_symbols st \<and>
    edb_snapshot st' = edb_snapshot st"
  using assms(2-8)
proof (induction "n - k" arbitrary: k st)
  case (Suc m)
  then have k: "k < n" "[k..<n] = k # [Suc k..<n]" by (simp_all add: upt_conv_Cons)
  from Suc.prems(7) obtain st1 where st1: "solve_stratum rs k st = Inr st1" "solve_strata rs [Suc k..<n] st1 = Inr st'"
    unfolding k(2) by (auto split: sum.splits)
  have "k < MAX_STRATA" using k(1) Suc.prems(5) by simp
  from solve_stratum_spec[OF Suc.prems(1-3) assms(1) this st1(1)]
  have s: "strata_inv rs (Suc k) st1" "base_ok rs st1" "idb_declared rs st1" "sr_symbols st1 = sr_symbols st"
    "edb_snapshot st1 = edb_snapshot st" "known_facts st1 = lfp (stratum_step rs (sr_symbols st) k (known_facts st))" by simp_all
  have "known_facts st1 = perfect_model rs (sr_symbols st1) B (Suc k)" using s(4,6) Suc.prems(6) by simp
  from Suc.hyps(1)[OF _ s(1-3) _ Suc.prems(5) this st1(2)] Suc.hyps(2) k(1) s(4,5) show ?case by simp
qed simp

lemma prepare_base_ok:
  assumes "prepare strat ws rs e = Inr st" "edb_inv e" "registry e = rs_registry rs" "well_declared rs" "length (rs_facts rs) \<le> MAX_RULE_FACTS"
  shows "base_ok rs st"
proof -
  have reg: "registry_inv (rs_registry rs)" using assms(4) by (simp add: well_declared_def)
  have policy: "\<forall>f\<in>set (rs_facts rs). fact_structurally_valid (rs_registry rs) f"
    using assms(1) by (auto simp: prepare_def Let_def fact_slice_structurally_valid_def list_all_iff split: if_splits prod.splits)
  have "fact_set_structurally_valid (rs_registry rs) (edb_snapshot (acquired_state strat ws rs e))"
    using assms(1) by (auto simp: prepare_def Let_def split: if_splits)
  then have "\<forall>f\<in>set (edb_facts e). fact_structurally_valid (rs_registry rs) f"
    by (simp add: fact_set_structurally_valid_def list_all_iff acquired_snapshot)
  then show ?thesis
    using policy reg assms(2,4,5) edb_fact_kind[OF assms(2,3)] prepare_entry(5)[OF assms(1,2) reg]
    by (simp add: base_ok_def well_declared_def edb_inv_def)
qed

lemma prepare_strata_inv:
  assumes "prepare True ws rs e = Inr st" "edb_inv e" "registry_inv (rs_registry rs)"
  shows "strata_inv rs 0 st"
proof -
  note p = prepare_entry[OF assms]
  have "idb_inv st" "\<not> finalized st" "\<not> failed st" "idb_current_end st = length (idb_facts st)" using p(1) by (simp_all add: stratum_entry_def)
  then show ?thesis using p by (simp add: strata_inv_def strata_frozen_def)
qed

lemma solve_stratified_perfect:
  assumes "edb_inv e" "registry e = rs_registry rs" "stratified_program rs" "solve_stratified_path ws rs e = Inr st"
  shows "set (rs_facts rs) \<union> set (edb_facts e) \<union> set (idb_facts st) =
      perfect_model rs (solve_symbols ws rs e) (set (rs_facts rs) \<union> set (edb_facts e)) (Suc (rs_max_stratum rs))"
    "set (idb_facts st) \<inter> (set (rs_facts rs) \<union> set (edb_facts e)) = {}" "sorted_wrt (<) (idb_facts st)"
    "length (idb_facts st) \<le> MAX_IDB_FACTS" "finalized st" "\<not> failed st" "sr_ruleset st = rs"
    "set_facts (edb_snapshot st) = edb_facts e" "snapshot_ok st" "idb_current_end st = length (idb_facts st)" "idb_sorted st"
proof -
  have wd: "well_declared rs" "length (rs_facts rs) \<le> MAX_RULE_FACTS" using assms(3) by (simp_all add: stratified_program_def)
  then have reg: "registry_inv (rs_registry rs)" by (simp add: well_declared_def)
  from assms(4) obtain st0 st1 where st0: "prepare True ws rs e = Inr st0" and
    st1: "solve_strata rs [0..<rs_max_stratum rs + 1] st0 = Inr st1" and st: "finish st1 = Inr st"
    by (auto simp: solve_stratified_path_def split: sum.splits)
  note p = prepare_entry[OF st0 assms(1) reg]
  let ?B = "set (rs_facts rs) \<union> set (edb_facts e)"
  have base: "base_facts st0 = ?B" by (simp add: base_facts_def p(3,5))
  have "rs_max_stratum rs + 1 \<le> MAX_STRATA" using st0 by (auto simp: prepare_def split: if_splits)
  from solve_strata_spec[OF assms(3) prepare_strata_inv[OF st0 assms(1) reg] prepare_base_ok[OF st0 assms(1,2) wd] _ _ this _ st1, of ?B]
  have s: "strata_inv rs (rs_max_stratum rs + 1) st1" "known_facts st1 = perfect_model rs (solve_symbols ws rs e) ?B (Suc (rs_max_stratum rs))"
    "edb_snapshot st1 = edb_snapshot st0"
    by (simp_all add: idb_declared_def p(2,4) known_facts_def base)
  have i: "idb_inv st1" "\<not> finalized st1" "sr_ruleset st1 = rs" "\<not> failed st1" "idb_current_end st1 = length (idb_facts st1)"
    using s(1) by (simp_all add: strata_inv_def)
  from finish_spec[OF idb_inv_capacity[OF i(1)] idb_inv_sorted[OF i(1)] i(2)] st
  have f: "idb_facts st = sorted_list_of_set (set (idb_facts st1))" "finalized st" "idb_sorted st" "failed st = failed st1"
    "sr_ruleset st = sr_ruleset st1" "edb_snapshot st = edb_snapshot st1" "edb_ranges st = edb_ranges st1"
    "idb_current_end st = idb_current_end st1" by auto
  have sets: "set (idb_facts st) = set (idb_facts st1)" by (simp add: f(1))
  have base1: "base_facts st1 = ?B" using base s(3) i(3) by (simp add: base_facts_def p(3))
  show "?B \<union> set (idb_facts st) = perfect_model rs (solve_symbols ws rs e) ?B (Suc (rs_max_stratum rs))"
    using s(2) by (simp add: sets known_facts_def base1)
  show "set (idb_facts st) \<inter> ?B = {}" using idb_outside_base[OF i(1)] by (simp add: sets base1)
  show "sorted_wrt (<) (idb_facts st)" by (subst f(1)) (simp add: strict_sorted_list_of_set)
  show "length (idb_facts st) \<le> MAX_IDB_FACTS" using i(1) by (simp add: f(1) idb_inv_def distinct_card)
  show "finalized st" "\<not> failed st" "sr_ruleset st = rs" "idb_sorted st" using f i by simp_all
  show "set_facts (edb_snapshot st) = edb_facts e" using f(6) s(3) p(5) by simp
  show "snapshot_ok st" using snapshot_ok_edb[OF f(6,7)] i(1) by (simp add: idb_inv_def)
  show "idb_current_end st = length (idb_facts st)" using i(1,5) f(8) by (simp add: f(1) idb_inv_def distinct_card)
qed

section \<open>Properties\<close>

text \<open>
  (C1) A stratified evaluation that succeeds computes the perfect model: stratum by stratum the least set closed
  under the rules, where a negated literal holds when its instance is not among the facts of the strata below and
  an aggregate has its reference value over them. The derived facts are strictly sorted, disjoint from the base
  and within the configured bounds, for an owned result as for a reused workspace.
\<close>

theorem stratified_solve_perfect_model:
  assumes "edb_inv e" "registry e = rs_registry rs" "stratified_program rs" "solve_stratified_path ws rs e = Inr st"
  shows "set (rs_facts rs) \<union> set (edb_facts e) \<union> set (idb_facts st) =
      perfect_model rs (solve_symbols ws rs e) (set (rs_facts rs) \<union> set (edb_facts e)) (Suc (rs_max_stratum rs)) \<and>
    set (idb_facts st) \<inter> (set (rs_facts rs) \<union> set (edb_facts e)) = {} \<and>
    sorted_wrt (<) (idb_facts st) \<and> length (idb_facts st) \<le> MAX_IDB_FACTS"
  using solve_stratified_perfect[OF assms] by blast

end
