(* ===== verification/Sample_Stratified.thy ===== *)
theory Sample_Stratified
  imports Sample_Run Perfect_Model
begin

unbundle bit_operations_syntax

text \<open>
  A stratified evaluation in the kernel: over the edges of the first sample, \<^verbatim>\<open>src(X) :- edge(X,Y)\<close> in stratum 0
  and \<^verbatim>\<open>sink(Y) :- edge(X,Y), not src(Y)\<close> in stratum 1. The theory applies the property of the stratified path,
  and the one of the aggregates, to it.
\<close>

definition sink_rules :: "rule list" where
  "sink_rules =
     [\<lparr>head = Fact 1 [TERM_VAR 0], body = [LIT_ATOM (Fact 0 [TERM_VAR 0, TERM_VAR 1])], expr_nodes = [], rule_id = 1\<rparr>,
      \<lparr>head = Fact 2 [TERM_VAR 1], body = [LIT_ATOM (Fact 0 [TERM_VAR 0, TERM_VAR 1]), LIT_NEGATED_ATOM (Fact 1 [TERM_VAR 1])],
       expr_nodes = [], rule_id = 2\<rparr>]"

definition sink_ruleset :: ruleset where
  "sink_ruleset = demo_ruleset\<lparr>rs_negation_supported := True, rs_strata := (replicate MAX_PREDICATES 0)[2 := 1], rs_max_stratum := 1,
     rs_registry := \<lparr>defs = [\<lparr>pred_name = ''edge'', pred_arity = 2, kind_flags = 1\<rparr>,
       \<lparr>pred_name = ''src'', pred_arity = 1, kind_flags = 2\<rparr>, \<lparr>pred_name = ''sink'', pred_arity = 1, kind_flags = 6\<rparr>],
       atoms = [], frozen = True\<rparr>,
     rs_rules := sink_rules\<rparr>"

definition sink_edb :: edb where
  "sink_edb = sample_edb\<lparr>registry := rs_registry sink_ruleset\<rparr>"

lemmas sink_defs = sink_edb_def sink_ruleset_def sample_defs sink_rules_def

lemma sink_registry: "registry_inv (rs_registry sink_ruleset)"
  by (simp add: registry_inv_def sink_defs entry_valid_def limit_defs NAME_BYTES_def valid_kind_flags_def kind_defs)

lemma sink_edb_inv: "edb_inv sink_edb"
  using sample_edb_inv sink_registry by (simp add: edb_inv_def sink_defs fact_declared_def edb_kind_def kind_defs)

lemma sink_program: "stratified_program sink_ruleset"
proof -
  have "has_kind sink_ruleset PRED_KIND_IDB 1" "has_kind sink_ruleset PRED_KIND_IDB 2" "\<not> has_kind sink_ruleset PRED_KIND_IDB 0"
    by (simp_all add: has_kind_def sink_defs predicate_registry_get_def kind_defs)
  then have "\<forall>rule\<in>set (rs_rules sink_ruleset). rule_ok True rule \<and> has_kind sink_ruleset PRED_KIND_IDB (predicate_id (head rule)) \<and>
      rs_strata sink_ruleset ! predicate_id (head rule) \<le> rs_max_stratum sink_ruleset \<and>
      (\<forall>lit\<in>set (body rule). reads_below sink_ruleset (rs_strata sink_ruleset ! predicate_id (head rule)) lit)"
    by (simp add: sink_defs rule_ok_def rule_wf_def range_restricted_def terms_wf_def limit_defs declared_atom_def
        predicate_registry_get_def term_vars_def)
  then show ?thesis using sink_registry by (auto simp: stratified_program_def well_declared_def sink_ruleset_def demo_ruleset_def)
qed

definition sink_step :: "nat \<Rightarrow> nat list \<Rightarrow> solve_state \<Rightarrow> bool \<times> solve_state" where
  "sink_step i order st = derive_planned sink_ruleset (sink_rules ! i) None 0 order empty_bindings PROOF_NO_PARENT st"

definition sink_prepared :: solve_state where
  "sink_prepared = (acquired_state True (FRESH True) sink_ruleset sink_edb)\<lparr>
     edb_ranges := (replicate MAX_PREDICATES (0, 0))[0 := (0, Suc (Suc 0))]\<rparr>"

definition sink_stratum0 :: solve_state where
  "sink_stratum0 = snd (freeze_active_stratum (advance 2 (advance 0 (snd (sink_step 0 [0] (enter_stratum 0 sink_prepared))))))"

definition sink_stratum1 :: solve_state where
  "sink_stratum1 = snd (freeze_active_stratum (advance 3 (advance 2 (snd (sink_step 1 [0, 1] (enter_stratum 1 sink_stratum0))))))"

lemma sink_prepare: "prepare True (FRESH True) sink_ruleset sink_edb = Inr sink_prepared"
  by (simp add: prepare_def sink_prepared_def acquired_state_def sink_defs ruleset_filters_structurally_valid_def
      fact_set_structurally_valid_def fact_structurally_valid_def predicate_registry_get_def build_edb_ranges_def
      fact_slice_structurally_valid_def limit_defs)

lemma sink_plans:
  "build_static_join_order sink_ruleset (sink_rules ! 0) None = Inr [0]"
  "build_static_join_order sink_ruleset (sink_rules ! 1) None = Inr [0, 1]"
  by code_simp+

lemmas sink_eval = sink_defs sink_step_def sink_prepared_def run_defs enter_stratum_def fill_future_stratum_bounds_def
  freeze_active_stratum_def sort_idb_slice_with_proof_def dedup_idb_slice_with_proof_def solve_negated_literal_def
  frozen_window_def fact_set_contains_spec less_eq_fact_def witness_record_negation_def

lemma sink_step0: "fst (sink_step 0 [0] (enter_stratum 0 sink_prepared))"
  by (simp add: sink_eval)

lemma sink_stratum0_view:
  "loop_view (advance 0 (snd (sink_step 0 [0] (enter_stratum 0 sink_prepared)))) =
     ((0, 2, 2), False, False, MAX_IDB_FACTS, [Fact 1 [TERM_INT 1], Fact 1 [TERM_INT 2]])"
  "stratum_idb_end (snd (sink_step 0 [0] (enter_stratum 0 sink_prepared))) ! 0 = 0"
  by (simp add: sink_eval loop_view_def) (simp add: sink_eval)

lemma sink_stratum0_frozen:
  "fst (freeze_active_stratum (advance 2 (advance 0 (snd (sink_step 0 [0] (enter_stratum 0 sink_prepared)))))) = MAELYS_OK"
  by (simp add: sink_eval)

lemma sink_step1: "fst (sink_step 1 [0, 1] (enter_stratum 1 sink_stratum0))"
  by (simp add: sink_stratum0_def sink_eval)

lemma sink_stratum1_view:
  "loop_view (advance 2 (snd (sink_step 1 [0, 1] (enter_stratum 1 sink_stratum0)))) =
     ((2, 3, 3), False, False, MAX_IDB_FACTS, [Fact 1 [TERM_INT 1], Fact 1 [TERM_INT 2], Fact 2 [TERM_INT 3]])"
  "stratum_idb_end (snd (sink_step 1 [0, 1] (enter_stratum 1 sink_stratum0))) ! 1 = 2"
  by (simp add: loop_view_def sink_stratum0_def sink_eval) (simp add: sink_stratum0_def sink_eval)

lemma sink_stratum1_frozen:
  "freeze_active_stratum (advance 3 (advance 2 (snd (sink_step 1 [0, 1] (enter_stratum 1 sink_stratum0))))) = (MAELYS_OK, sink_stratum1)"
  "loop_view sink_stratum1 = ((3, 3, 3), False, False, MAX_IDB_FACTS, [Fact 1 [TERM_INT 1], Fact 1 [TERM_INT 2], Fact 2 [TERM_INT 3]])"
  by (simp add: loop_view_def sink_stratum1_def sink_stratum0_def sink_eval)+

lemma sink_solved:
  "\<exists>st. solve_stratified_path (FRESH True) sink_ruleset sink_edb = Inr st \<and>
     idb_facts st = [Fact 1 [TERM_INT 1], Fact 1 [TERM_INT 2], Fact 2 [TERM_INT 3]]"
proof -
  have app: "apply_rule True sink_ruleset 0 (sink_rules ! i, None) st = Inr (snd (sink_step i order st))"
    if "build_static_join_order sink_ruleset (sink_rules ! i) None = Inr order" "fst (sink_step i order st)" for i order st
    using that by (auto simp: apply_rule_def sink_step_def split: prod.splits)
  note a = app[OF sink_plans(1) sink_step0] app[OF sink_plans(2) sink_step1]
  have rules: "filter (rule_in_stratum sink_ruleset 0) (rs_rules sink_ruleset) = [sink_rules ! 0]"
    "filter (rule_in_stratum sink_ruleset 1) (rs_rules sink_ruleset) = [sink_rules ! 1]"
    by (simp_all add: sink_defs rule_in_stratum_def limit_defs)
  have jobs: "delta_jobs (literal_delta_eligible_in_stratum sink_ruleset 0) [sink_rules ! 0] = []"
    "delta_jobs (literal_delta_eligible_in_stratum sink_ruleset 1) [sink_rules ! 1] = []"
    by code_simp+
  have round: "rounds True sink_ruleset [] (Suc (Suc k)) 1 st = Inr (True, advance n st)"
    if "loop_view st = ((b, n, n), x, y, z, fs)" "b \<noteq> n" "length fs = n" for st b n k x y z fs
    using that by (auto simp: loop_view_def advance_def)
  have "MAX_DEPTH = Suc (Suc 8)" by (simp add: limit_defs)
  note loop = round[where k = 8, folded this]
  have s0: "solve_stratum sink_ruleset 0 sink_prepared = Inr sink_stratum0"
    using loop[OF sink_stratum0_view(1)] sink_stratum0_view(2) sink_stratum0_frozen
    by (simp add: solve_stratum_def rules initial_jobs_def a(1) jobs loop_view_def sink_stratum0_def prod.case_eq_if)
  have s1: "solve_stratum sink_ruleset 1 sink_stratum0 = Inr sink_stratum1"
    using loop[OF sink_stratum1_view(1)] sink_stratum1_view(2) sink_stratum1_frozen(1)
    by (simp add: solve_stratum_def rules(2)[simplified] initial_jobs_def a(2)[simplified] jobs(2)[simplified] loop_view_def)
  have "[0..<rs_max_stratum sink_ruleset + 1] = [0, 1]" by (simp add: sink_ruleset_def)
  then have "solve_stratified_path (FRESH True) sink_ruleset sink_edb = finish sink_stratum1"
    using s0 s1 by (simp add: solve_stratified_path_def sink_prepare)
  moreover have "\<exists>st. finish sink_stratum1 = Inr st \<and> idb_facts st = sorted_list_of_set (set (idb_facts sink_stratum1))"
    using finish_spec[of sink_stratum1] sink_stratum1_frozen(2) by (auto simp: loop_view_def limit_defs)
  moreover have "sorted_list_of_set (set (idb_facts sink_stratum1)) = [Fact 1 [TERM_INT 1], Fact 1 [TERM_INT 2], Fact 2 [TERM_INT 3]]"
    using sink_stratum1_frozen(2) by (simp add: loop_view_def less_fact_def less_eq_fact_def fact_cmp_def)
  ultimately show ?thesis by auto
qed

theorem stratified_solve_perfect_model_witness:
  "set (edb_facts sink_edb) \<union> {Fact 1 [TERM_INT 1], Fact 1 [TERM_INT 2], Fact 2 [TERM_INT 3]} =
   perfect_model sink_ruleset symbol_table_init (set (edb_facts sink_edb)) 2"
proof -
  obtain st where st: "solve_stratified_path (FRESH True) sink_ruleset sink_edb = Inr st"
    "idb_facts st = [Fact 1 [TERM_INT 1], Fact 1 [TERM_INT 2], Fact 2 [TERM_INT 3]]" using sink_solved by blast
  have "registry sink_edb = rs_registry sink_ruleset" by (simp add: sink_edb_def)
  from stratified_solve_perfect_model[OF sink_edb_inv this sink_program st(1)]
  have "set (rs_facts sink_ruleset) \<union> set (edb_facts sink_edb) \<union> set (idb_facts st) =
      perfect_model sink_ruleset (rs_symbols sink_ruleset) (set (rs_facts sink_ruleset) \<union> set (edb_facts sink_edb))
        (Suc (rs_max_stratum sink_ruleset))" by (simp add: solve_symbols_def)
  moreover have "rs_facts sink_ruleset = []" "Suc (rs_max_stratum sink_ruleset) = 2" "rs_symbols sink_ruleset = symbol_table_init"
    by (simp_all add: sink_ruleset_def demo_ruleset_def)
  ultimately show ?thesis by (simp only: st(2)) simp
qed

text \<open>The sum of the second components of the edges that start in 1.\<close>

theorem aggregate_exact_witness:
  "map_sum id (snd \<circ> snd) (evaluate_aggregate (LIT_AGGREGATE AGG_SUM (Fact 0 [TERM_VAR 0, TERM_VAR 1]) (TERM_VAR 1) (TERM_VAR 2))
     (bindings_of (\<lambda>_. TERM_INT 1)) sink_prepared) =
   (Inr (aggregate_value AGG_SUM (Fact 0 [TERM_VAR 0, TERM_VAR 1]) 1 {Fact 0 [TERM_INT 1, TERM_INT 2]}) ::
     (maelys_result \<times> aggregate_error option) + term option)"
proof -
  let ?a = "Fact 0 [TERM_VAR 0, TERM_VAR 1]" and ?\<sigma> = "\<lambda>_. TERM_INT 1"
  let ?lit = "LIT_AGGREGATE AGG_SUM ?a (TERM_VAR 1) (TERM_VAR 2)"
  let ?fs = "[Fact 0 [TERM_INT 1, TERM_INT 2], Fact 0 [TERM_INT 2, TERM_INT 3]]"
  have g: "ground_valuation ?\<sigma>" by (simp add: ground_valuation_def ground_def)
  have ok: "aggregate_literal_ok ?a (TERM_VAR 1) (TERM_VAR 2)"
    by (simp add: aggregate_literal_ok_def terms_wf_def term_vars_def limit_defs)
  have src: "aggregate_source ?lit (bindings_of ?\<sigma>) sink_prepared = Inr (Fact 0 [TERM_INT 1, TERM_VAR 1], ORIGIN_EDB, ?fs)"
    by (simp add: aggregate_source_def sink_eval instantiate_term_def bindings_is_bound_def bindings_of_def)
  have sok: "source_ok ?a ?fs" by (simp add: source_ok_def ground_def AGGREGATE_CAPACITY_def limit_defs)
  have G: "group_facts ?a 1 ?\<sigma> (set ?fs) = {Fact 0 [TERM_INT 1, TERM_INT 2]}"
    using group_facts_filter[OF g _ sok, of 1] ok
    by (simp add: aggregate_literal_ok_def in_group_def group_pattern_def limit_defs bind_or_match_def bindings_is_bound_def empty_bindings_def)
  have "aggregate_defined AGG_SUM ?a 1 {Fact 0 [TERM_INT 1, TERM_INT 2]}"
    by (simp add: aggregate_defined_def group_sum_def projected_value_def summable_def limit_defs)
  with aggregate_exact[OF g ok src sok] show ?thesis by (simp only: Let_def G term_variable.simps if_True)
qed

end
