(* ===== verification/Query.thy ===== *)
theory Query
  imports Sample_Stratified
begin

unbundle bit_operations_syntax

text \<open>
  What a host asks of a finished evaluation: ground queries and the enumeration of a predicate
  (\<^verbatim>\<open>src/core/maelys_datalog_solver.c\<close>, \<^verbatim>\<open>src/core/maelys_datalog_query.c\<close>) and the decision a policy yields
  (\<^verbatim>\<open>src/core/maelys_datalog_decision.c\<close>). Together with the evaluation theorems, a query is a membership test in
  the model of the program.

  Null arguments are not modelled. Out parameters are returned: the presence bit of a query with its code, the
  facts and the count of an enumeration.
\<close>

section \<open>Access to a result\<close>

definition query_whitelist_contains :: "ruleset \<Rightarrow> string \<Rightarrow> nat \<Rightarrow> bool" where
  "query_whitelist_contains rs predicate n \<longleftrightarrow> list_ex (\<lambda>(name, k). k = n \<and> name = predicate) (rs_query_whitelist rs)"

definition validate_query_predicate :: "ruleset \<Rightarrow> string \<Rightarrow> nat \<Rightarrow> maelys_result + nat" where
  "validate_query_predicate rs predicate n =
     (if rs_enforces_query_whitelist rs \<and> \<not> query_whitelist_contains rs predicate n then Inl MAELYS_ERR_FORBIDDEN
      else case predicate_registry_find (rs_registry rs) predicate n of
        None \<Rightarrow> Inl MAELYS_ERR_INVALID_FIELD
      | Some pid \<Rightarrow>
          (case predicate_registry_get (rs_registry rs) pid of
             None \<Rightarrow> Inl MAELYS_ERR_INVALID_FIELD
           | Some d \<Rightarrow> if (kind_flags d AND PRED_KIND_QUERY) = 0 then Inl MAELYS_ERR_INVALID_FIELD else Inr pid))"

definition result_usable :: "solve_state \<Rightarrow> bool" where
  "result_usable st \<longleftrightarrow> finalized st \<and> \<not> failed st \<and> rs_loaded (sr_ruleset st)"

definition result_symbol_text :: "solve_state \<Rightarrow> nat \<Rightarrow> maelys_result + string" where
  "result_symbol_text st sid =
     (if \<not> result_usable st \<or> \<not> symbol_id_is_valid (sr_symbols st) sid then Inl MAELYS_ERR_INVALID_STATE
      else case symbol_text (sr_symbols st) sid of None \<Rightarrow> Inl MAELYS_ERR_INVALID_STATE | Some s \<Rightarrow> Inr s)"

fun query_term_ground :: "term \<Rightarrow> bool" where
  "query_term_ground (TERM_SYMBOL _) = True"
| "query_term_ground (TERM_INT _) = True"
| "query_term_ground (TERM_BOOL _) = True"
| "query_term_ground _ = False"

definition query_terms_are_ground :: "term list \<Rightarrow> bool" where
  "query_terms_are_ground ts \<longleftrightarrow> list_all query_term_ground ts"

definition fact_matches_query :: "fact \<Rightarrow> nat \<Rightarrow> term list \<Rightarrow> bool" where
  "fact_matches_query f pid ts \<longleftrightarrow>
     predicate_id f = pid \<and> arity f = length ts \<and> list_all (\<lambda>(u, t). \<not> is_var t \<and> term_equal u t) (zip (terms f) ts)"

definition validate_solved_ground_query :: "solve_state \<Rightarrow> string \<Rightarrow> nat \<Rightarrow> maelys_result" where
  "validate_solved_ground_query st predicate n =
     (if n > MAX_ARITY then MAELYS_ERR_INVALID_FIELD
      else if \<not> result_usable st then MAELYS_ERR_INVALID_STATE
      else case validate_query_predicate (sr_ruleset st) predicate n of Inl rc \<Rightarrow> rc | Inr _ \<Rightarrow> MAELYS_OK)"

definition query_solved_ground_fact :: "solve_state \<Rightarrow> string \<Rightarrow> term list \<Rightarrow> maelys_result \<times> bool" where
  "query_solved_ground_fact st predicate ts =
     (if length ts > MAX_ARITY then (MAELYS_ERR_INVALID_FIELD, False)
      else if \<not> result_usable st then (MAELYS_ERR_INVALID_STATE, False)
      else if \<not> query_terms_are_ground ts then (MAELYS_ERR_INVALID_FIELD, False)
      else case validate_query_predicate (sr_ruleset st) predicate (length ts) of
        Inl rc \<Rightarrow> (rc, False)
      | Inr pid \<Rightarrow>
          if list_ex (\<lambda>f. fact_matches_query f pid ts) (rs_facts (sr_ruleset st)) then (MAELYS_OK, True)
          else
            let q = Fact pid (map fact_set_term ts)
            in if \<not> fact_structurally_valid (rs_registry (sr_ruleset st)) q then (MAELYS_ERR_INVALID_STATE, False)
               else (MAELYS_OK, fact_set_contains (edb_snapshot st) q \<or>
                  fact_set_contains \<lparr>set_facts = idb_facts st, set_capacity = derived_capacity st, set_sorted = idb_sorted st\<rparr> q))"

definition result_derived_fact_count :: "solve_state \<Rightarrow> maelys_result + nat" where
  "result_derived_fact_count st = (if \<not> finalized st \<or> failed st then Inl MAELYS_ERR_INVALID_STATE else Inr (idb_current_end st))"

definition result_idb_fact :: "solve_state \<Rightarrow> nat \<Rightarrow> maelys_result + fact" where
  "result_idb_fact st i =
     (if \<not> finalized st \<or> failed st then Inl MAELYS_ERR_INVALID_STATE
      else if i \<ge> idb_current_end st then Inl MAELYS_ERR_NOT_FOUND else Inr (idb_facts st ! i))"

definition result_filter_statistics :: "solve_state \<Rightarrow> maelys_result + filter_statistics" where
  "result_filter_statistics st = (if \<not> finalized st \<or> failed st then Inl MAELYS_ERR_INVALID_STATE else Inr (filter_stats st))"

text \<open>The loop of the enumeration: what it stored, below the capacity, and what it found.\<close>

fun collect_facts :: "nat \<Rightarrow> nat \<Rightarrow> fact list \<Rightarrow> fact list \<Rightarrow> nat \<Rightarrow> fact list \<times> nat" where
  "collect_facts pid capacity [] stored found = (stored, found)"
| "collect_facts pid capacity (f # fs) stored found =
     (if predicate_id f \<noteq> pid then collect_facts pid capacity fs stored found
      else collect_facts pid capacity fs (if found < capacity then stored @ [f] else stored) (found + 1))"

definition enumerate_predicate_facts :: "solve_state \<Rightarrow> string \<Rightarrow> nat \<Rightarrow> nat \<Rightarrow> maelys_result + (fact list \<times> nat)" where
  "enumerate_predicate_facts st predicate n capacity =
     (if n > MAX_ARITY then Inl MAELYS_ERR_INVALID_FIELD
      else if \<not> result_usable st then Inl MAELYS_ERR_INVALID_STATE
      else case validate_query_predicate (sr_ruleset st) predicate n of
        Inl rc \<Rightarrow> Inl rc
      | Inr pid \<Rightarrow> Inr (collect_facts pid capacity (take (idb_current_end st) (idb_facts st)) [] 0))"

section \<open>Decisions\<close>

datatype decision = DECISION_DENY | DECISION_ALLOW | DECISION_REDUCED | DECISION_DENY_DEFAULT | DECISION_DENY_CONFLICT

fun decision_name :: "decision \<Rightarrow> string" where
  "decision_name DECISION_ALLOW = ''allow''"
| "decision_name DECISION_REDUCED = ''reduced''"
| "decision_name DECISION_DENY_DEFAULT = ''deny_default''"
| "decision_name DECISION_DENY_CONFLICT = ''deny_conflict''"
| "decision_name DECISION_DENY = ''deny''"

definition decision_from_queries :: "bool \<Rightarrow> bool \<Rightarrow> bool \<Rightarrow> decision" where
  "decision_from_queries deny reduce allow =
     (if deny \<and> (allow \<or> reduce) then DECISION_DENY_CONFLICT
      else if deny then DECISION_DENY
      else if reduce then DECISION_REDUCED
      else if allow then DECISION_ALLOW
      else DECISION_DENY_DEFAULT)"

text \<open>The public variant takes C integers and refuses values other than 0 and 1; \<open>None\<close> is that refusal.\<close>

definition decision_from_presence :: "int \<Rightarrow> int \<Rightarrow> int \<Rightarrow> decision option" where
  "decision_from_presence allow reduce deny =
     (if (allow \<noteq> 0 \<and> allow \<noteq> 1) \<or> (reduce \<noteq> 0 \<and> reduce \<noteq> 1) \<or> (deny \<noteq> 0 \<and> deny \<noteq> 1) then None
      else Some (if deny \<noteq> 0 then (if allow \<noteq> 0 \<or> reduce \<noteq> 0 then DECISION_DENY_CONFLICT else DECISION_DENY)
                 else if reduce \<noteq> 0 then DECISION_REDUCED else if allow \<noteq> 0 then DECISION_ALLOW else DECISION_DENY_DEFAULT))"

text \<open>The printed name of a reason (\<^verbatim>\<open>src/core/maelys_datalog_audit.c\<close>); the last case is the default of the switch.\<close>

fun deny_reason_name :: "deny_reason \<Rightarrow> string" where
  "deny_reason_name DENY_EXPLICIT = ''DENY_EXPLICIT''"
| "deny_reason_name DENY_DEFAULT = ''DENY_DEFAULT''"
| "deny_reason_name DENY_MAX_DEPTH = ''DENY_MAX_DEPTH''"
| "deny_reason_name DENY_EDB_OVERFLOW = ''DENY_EDB_OVERFLOW''"
| "deny_reason_name DENY_IDB_OVERFLOW = ''DENY_IDB_OVERFLOW''"
| "deny_reason_name DENY_CONFLICT = ''DENY_CONFLICT''"
| "deny_reason_name DENY_POLICY_LOAD_ERROR = ''DENY_POLICY_LOAD_ERROR''"
| "deny_reason_name _ = ''DENY_NONE''"

text \<open>Two failures share the name of the absence of a reason.\<close>

lemma deny_reason_names_collide:
  "deny_reason_name DENY_COMPARISON_TYPE_ERROR = deny_reason_name DENY_NONE \<and>
   deny_reason_name DENY_FILTER_ERROR = deny_reason_name DENY_NONE"
  by simp

section \<open>Results of successful evaluations\<close>

definition accepted_program :: "ruleset \<Rightarrow> bool" where
  "accepted_program rs \<longleftrightarrow>
     (if rs_negation_supported rs \<or> rs_aggregates_supported rs then stratified_program rs
      else well_declared rs \<and> (\<forall>rule\<in>set (rs_rules rs). rule_ok True rule \<and> list_all positive_literal (body rule)))"

definition program_model :: "ruleset \<Rightarrow> symbol_table \<Rightarrow> fact set \<Rightarrow> fact set" where
  "program_model rs syms B =
     (if rs_negation_supported rs \<or> rs_aggregates_supported rs then perfect_model rs syms B (Suc (rs_max_stratum rs))
      else lfp (herbrand_step rs syms B))"

definition base_of :: "ruleset \<Rightarrow> edb \<Rightarrow> fact set" where
  "base_of rs e = set (rs_facts rs) \<union> set (edb_facts e)"

lemma prepare_loaded: "prepare strat ws rs e = Inr st \<Longrightarrow> rs_loaded rs"
  by (auto simp: prepare_def split: if_splits)

lemma positive_solve_lfp:
  assumes "edb_inv e" "registry e = rs_registry rs" "well_declared rs"
    "\<forall>rule\<in>set (rs_rules rs). rule_ok use_plan rule \<and> list_all positive_literal (body rule)" "prepare False ws rs e = Inr st0"
    "D = lfp (consequence rs (rs_rules rs) st0)"
  shows "base_of rs e \<union> D = lfp (herbrand_step rs (solve_symbols ws rs e) (base_of rs e))" "D \<inter> base_of rs e = {}"
proof -
  have reg: "registry_inv (rs_registry rs)" using assms(3) by (simp add: well_declared_def)
  note p = prepare_entry[OF assms(5,1) reg]
  have base: "base_facts st0 = base_of rs e" by (simp add: base_facts_def base_of_def p(3,5))
  have "snapshot_ok st0" using p(1) by (simp add: stratum_entry_def idb_inv_def)
  from lfp_is_herbrand[OF assms(3,1,2) this p(5) _ p(3)] assms(4) p(6)
  show "base_of rs e \<union> D = lfp (herbrand_step rs (solve_symbols ws rs e) (base_of rs e))" by (simp add: base assms(6) p(4))
  show "D \<inter> base_of rs e = {}"
    unfolding assms(6) using lfp_fixpoint[OF mono_consequence, of rs "rs_rules rs" st0] base by (auto simp: consequence_def)
qed

lemma solve_with_result:
  assumes "edb_inv e" "registry e = rs_registry rs" "accepted_program rs" "solve_with ws rs e = Inr st"
  shows "base_of rs e \<union> set (idb_facts st) = program_model rs (solve_symbols ws rs e) (base_of rs e)"
    "set (idb_facts st) \<inter> base_of rs e = {}" "sorted_wrt (<) (idb_facts st)" "result_usable st" "sr_ruleset st = rs"
    "set_facts (edb_snapshot st) = edb_facts e" "snapshot_ok st" "idb_current_end st = length (idb_facts st)" "idb_sorted st"
    "length (idb_facts st) \<le> MAX_IDB_FACTS"
proof -
  let ?model = "base_of rs e \<union> set (idb_facts st) = program_model rs (solve_symbols ws rs e) (base_of rs e) \<and>
    set (idb_facts st) \<inter> base_of rs e = {} \<and> sorted_wrt (<) (idb_facts st) \<and> result_usable st \<and> sr_ruleset st = rs \<and>
    set_facts (edb_snapshot st) = edb_facts e \<and> snapshot_ok st \<and> idb_current_end st = length (idb_facts st) \<and> idb_sorted st \<and>
    length (idb_facts st) \<le> MAX_IDB_FACTS"
  have ?model
  proof (cases "rs_negation_supported rs \<or> rs_aggregates_supported rs")
    case True
    then have a: "stratified_program rs" "solve_stratified_path ws rs e = Inr st"
      using assms(3,4) by (simp_all add: accepted_program_def solve_with_def)
    then have "rs_loaded rs" using prepare_loaded by (auto simp: solve_stratified_path_def split: sum.splits)
    with solve_stratified_perfect[OF assms(1,2) a] True show ?thesis by (simp add: program_model_def base_of_def result_usable_def)
  next
    case False
    then have a: "well_declared rs" "\<forall>rule\<in>set (rs_rules rs). rule_ok True rule \<and> list_all positive_literal (body rule)"
      "solve_once_run True ws rs e = Inr st" using assms(3,4) by (auto simp: accepted_program_def solve_with_def)
    have reg: "registry_inv (rs_registry rs)" and rules: "\<forall>rule\<in>set (rs_rules rs). rule_ok True rule"
      using a(1,2) by (simp_all add: well_declared_def)
    from solve_once_run_lfp[OF assms(1) reg rules a(3)] obtain st0 where st0: "prepare False ws rs e = Inr st0"
      "set (idb_facts st) = lfp (consequence rs (rs_rules rs) st0)" and s: "idb_facts st = sorted_list_of_set (set (idb_facts st))"
      "finalized st" "idb_sorted st" "sr_ruleset st = rs" "set_facts (edb_snapshot st) = edb_facts e" "\<not> failed st" "snapshot_ok st"
      "idb_current_end st = length (idb_facts st)" "length (idb_facts st) \<le> MAX_IDB_FACTS" by metis
    have "sorted_wrt (<) (idb_facts st)" by (subst s(1)) (simp add: strict_sorted_list_of_set)
    moreover have "result_usable st" using s prepare_loaded[OF st0(1)] by (simp add: result_usable_def)
    ultimately show ?thesis using False positive_solve_lfp[OF assms(1,2) a(1,2) st0] s by (simp add: program_model_def)
  qed
  then show "base_of rs e \<union> set (idb_facts st) = program_model rs (solve_symbols ws rs e) (base_of rs e)"
    "set (idb_facts st) \<inter> base_of rs e = {}" "sorted_wrt (<) (idb_facts st)" "result_usable st" "sr_ruleset st = rs"
    "set_facts (edb_snapshot st) = edb_facts e" "snapshot_ok st" "idb_current_end st = length (idb_facts st)" "idb_sorted st"
    "length (idb_facts st) \<le> MAX_IDB_FACTS" by simp_all
qed

lemma query_ground_wf: "query_terms_are_ground ts \<Longrightarrow> map fact_set_term ts = ts \<and> list_all (\<lambda>t. term_kind_known t \<and> \<not> is_var t) ts"
proof -
  have "query_term_ground t \<Longrightarrow> fact_set_term t = t \<and> term_kind_known t \<and> \<not> is_var t" for t by (cases t) auto
  then show "query_terms_are_ground ts \<Longrightarrow> map fact_set_term ts = ts \<and> list_all (\<lambda>t. term_kind_known t \<and> \<not> is_var t) ts"
    by (auto simp: query_terms_are_ground_def list_all_iff intro!: map_idI)
qed

lemma fact_matches_query_eq:
  assumes "query_terms_are_ground ts" shows "fact_matches_query f pid ts \<longleftrightarrow> f = Fact pid ts"
proof -
  have "list_all (\<lambda>(u, t). \<not> is_var t \<and> term_equal u t) (zip us ts) \<longleftrightarrow> us = ts" if "length us = length ts" for us
    using that assms
  proof (induction us ts rule: list_induct2)
    case (Cons u us t ts)
    then have "ground t" by (cases t) (auto simp: query_terms_are_ground_def ground_def)
    then show ?case using Cons by (auto simp: query_terms_are_ground_def term_equal_ground ground_def)
  qed simp
  then show ?thesis by (cases f) (auto simp: fact_matches_query_def)
qed

lemma validated_query:
  assumes "registry_inv (rs_registry rs)" "validate_query_predicate rs predicate n = Inr pid"
  shows "\<exists>d. predicate_registry_get (rs_registry rs) pid = Some d \<and> pred_arity d = n \<and> n \<le> MAX_ARITY"
proof -
  from assms(2) obtain d where d: "predicate_registry_find (rs_registry rs) predicate n = Some pid"
    "predicate_registry_get (rs_registry rs) pid = Some d"
    by (auto simp: validate_query_predicate_def split: if_splits option.splits)
  then have "pred_arity d = n" using find_Some[OF d(1)] by simp
  moreover have "pred_arity d \<le> MAX_ARITY"
    using assms(1) d(2) by (auto simp: registry_inv_def entry_valid_def predicate_registry_get_def split: if_splits)
  ultimately show ?thesis using d(2) by blast
qed

section \<open>Properties\<close>

text \<open>The answer to a ground query on the result of an accepted program.\<close>

lemma query_membership:
  assumes "edb_inv e" "registry e = rs_registry rs" "accepted_program rs" "solve_with ws rs e = Inr st"
    "query_terms_are_ground ts" "length ts \<le> MAX_ARITY"
  shows "query_solved_ground_fact st predicate ts =
    (case validate_query_predicate rs predicate (length ts) of
       Inl rc \<Rightarrow> (rc, False)
     | Inr pid \<Rightarrow> (MAELYS_OK, Fact pid ts \<in> program_model rs (solve_symbols ws rs e) (base_of rs e)))"
proof (cases "validate_query_predicate rs predicate (length ts)")
  case (Inl rc)
  then show ?thesis using assms(5,6) solve_with_result(4,5)[OF assms(1-4)] by (simp add: query_solved_ground_fact_def)
next
  case (Inr pid)
  note r = solve_with_result[OF assms(1-4)]
  have reg: "registry_inv (rs_registry rs)"
    using assms(3) by (auto simp: accepted_program_def stratified_program_def well_declared_def split: if_splits)
  obtain d where d: "predicate_registry_get (rs_registry rs) pid = Some d" "pred_arity d = length ts"
    using validated_query[OF reg Inr] by blast
  have g: "map fact_set_term ts = ts" "list_all (\<lambda>t. term_kind_known t \<and> \<not> is_var t) ts" using query_ground_wf[OF assms(5)] by simp_all
  have valid: "fact_structurally_valid (rs_registry rs) (Fact pid ts)"
    using d g(2) assms(6) by (simp add: fact_structurally_valid_def limit_defs)
  have "sorted (idb_facts st)" using r(3) by (simp add: strict_sorted_iff)
  then have "fact_set_contains \<lparr>set_facts = idb_facts st, set_capacity = derived_capacity st, set_sorted = idb_sorted st\<rparr> q \<longleftrightarrow>
      q \<in> set (idb_facts st)" "fact_set_contains (edb_snapshot st) q \<longleftrightarrow> q \<in> set (edb_facts e)" for q
    using r(6,7) by (simp_all add: fact_set_contains_spec snapshot_ok_def)
  then have "query_solved_ground_fact st predicate ts = (MAELYS_OK, Fact pid ts \<in> base_of rs e \<union> set (idb_facts st))"
    using assms(5,6) r(4,5) Inr valid g(1)
    by (auto simp: query_solved_ground_fact_def list_ex_iff fact_matches_query_eq base_of_def Let_def)
  then show ?thesis using Inr r(1) by simp
qed

lemma collect_facts_spec:
  "collect_facts pid capacity fs stored found = (stored @ take (capacity - found) (filter (\<lambda>f. predicate_id f = pid) fs),
     found + pred_count pid fs)"
proof (induction fs arbitrary: stored found)
  case (Cons f fs)
  have "capacity - found = Suc (capacity - Suc found)" if "found < capacity" using that by simp
  then show ?case using Cons by auto
qed simp

text \<open>
  (C9) The enumeration of a queryable predicate reports the exact number of its derived facts and stores the
  first of them, in order and without duplicates, up to the capacity of the caller; with enough capacity it
  returns all derived facts of the predicate, which for a rule-defined predicate are its facts in the model.
\<close>

theorem enumeration_exact:
  assumes "edb_inv e" "registry e = rs_registry rs" "accepted_program rs" "solve_with ws rs e = Inr st"
    "validate_query_predicate rs predicate n = Inr pid" "n \<le> MAX_ARITY"
  shows "\<exists>stored. enumerate_predicate_facts st predicate n capacity = Inr (stored, card {f \<in> set (idb_facts st). predicate_id f = pid}) \<and>
    stored = take capacity (sorted_list_of_set {f \<in> set (idb_facts st). predicate_id f = pid}) \<and>
    (has_kind rs PRED_KIND_IDB pid \<longrightarrow>
      {f \<in> set (idb_facts st). predicate_id f = pid} = {f \<in> program_model rs (solve_symbols ws rs e) (base_of rs e). predicate_id f = pid})"
proof -
  note r = solve_with_result[OF assms(1-4)]
  let ?fs = "filter (\<lambda>f. predicate_id f = pid) (idb_facts st)"
  have srt: "sorted ?fs" "distinct ?fs" using r(3) by (simp_all add: strict_sorted_iff sorted_wrt_filter)
  then have list: "?fs = sorted_list_of_set {f \<in> set (idb_facts st). predicate_id f = pid}"
    by (metis sorted_list_of_set.idem_if_sorted_distinct set_filter)
  have "pred_count pid (idb_facts st) = card {f \<in> set (idb_facts st). predicate_id f = pid}"
    using srt(2) by (simp add: pred_count_def flip: distinct_card)
  then have "enumerate_predicate_facts st predicate n capacity =
      Inr (take capacity ?fs, card {f \<in> set (idb_facts st). predicate_id f = pid})"
    using assms(5,6) r(4,5,8) by (simp add: enumerate_predicate_facts_def collect_facts_spec)
  moreover have "{f \<in> set (idb_facts st). predicate_id f = pid} = {f \<in> program_model rs (solve_symbols ws rs e) (base_of rs e). predicate_id f = pid}"
    if kind: "has_kind rs PRED_KIND_IDB pid"
  proof -
    have wd: "well_declared rs" using assms(3) by (auto simp: accepted_program_def stratified_program_def split: if_splits)
    then have reg: "registry_inv (rs_registry rs)" by (simp add: well_declared_def)
    obtain d where d: "predicate_registry_get (rs_registry rs) pid = Some d" "(kind_flags d AND PRED_KIND_IDB) \<noteq> 0"
      using kind by (auto simp: has_kind_def split: option.splits)
    have "f \<notin> base_of rs e" if "predicate_id f = pid" for f
      using that wd edb_fact_kind[OF assms(1,2), of f] kinds_exclusive[OF reg d(1)] d
      by (auto simp: base_of_def well_declared_def has_kind_def)
    then show ?thesis using r(1) by auto
  qed
  ultimately show ?thesis using list by simp
qed

text \<open>
  (C10) Decisions fail closed: access is allowed in full only when the allow query holds and neither the deny nor
  the reduce query does, reduced access only without a deny, and a deny always yields a denial, a conflict exactly
  when something was also permitted. The variant over integers agrees and refuses everything but 0 and 1.
\<close>

theorem decision_fail_closed:
  "(decision_from_queries deny reduce allow = DECISION_ALLOW \<longleftrightarrow> allow \<and> \<not> deny \<and> \<not> reduce) \<and>
   (decision_from_queries deny reduce allow = DECISION_REDUCED \<longleftrightarrow> reduce \<and> \<not> deny) \<and>
   (decision_from_queries deny reduce allow = DECISION_DENY_CONFLICT \<longleftrightarrow> deny \<and> (allow \<or> reduce)) \<and>
   (decision_from_queries deny reduce allow \<in> {DECISION_DENY, DECISION_DENY_CONFLICT} \<longleftrightarrow> deny) \<and>
   decision_from_presence (of_bool allow) (of_bool reduce) (of_bool deny) = Some (decision_from_queries deny reduce allow) \<and>
   (decision_from_presence a r d = None \<longleftrightarrow> \<not> {a, r, d} \<subseteq> {0, 1})"
  by (auto simp: decision_from_queries_def decision_from_presence_def)

section \<open>The properties on the samples\<close>

lemma sink_solve_with:
  "\<exists>st. solve_with (FRESH True) sink_ruleset sink_edb = Inr st \<and>
     idb_facts st = [Fact 1 [TERM_INT 1], Fact 1 [TERM_INT 2], Fact 2 [TERM_INT 3]]"
  using sink_solved by (simp add: solve_with_def sink_ruleset_def[THEN arg_cong, of rs_negation_supported])

lemma sink_accepted: "accepted_program sink_ruleset"
  using sink_program by (simp add: accepted_program_def sink_ruleset_def[THEN arg_cong, of rs_negation_supported])

lemma sink_query: "validate_query_predicate sink_ruleset ''sink'' (Suc 0) = Inr 2"
  by code_simp

theorem enumeration_exact_witness:
  "\<exists>st. solve_with (FRESH True) sink_ruleset sink_edb = Inr st \<and>
     enumerate_predicate_facts st ''sink'' 1 8 = Inr ([Fact 2 [TERM_INT 3]], 1)"
proof -
  obtain st where st: "solve_with (FRESH True) sink_ruleset sink_edb = Inr st"
    "idb_facts st = [Fact 1 [TERM_INT 1], Fact 1 [TERM_INT 2], Fact 2 [TERM_INT 3]]" using sink_solve_with by blast
  have "registry sink_edb = rs_registry sink_ruleset" by (simp add: sink_edb_def)
  note e = enumeration_exact[OF sink_edb_inv this sink_accepted st(1), of "''sink''" 1 2 8]
  have "{f \<in> set (idb_facts st). predicate_id f = 2} = {Fact 2 [TERM_INT 3]}" by (auto simp: st(2))
  then show ?thesis using e sink_query st(1) by (simp add: limit_defs)
qed

end
