(* ===== verification/Validate_Sound.thy ===== *)
theory Validate_Sound
  imports Safe_Rules Query
begin

unbundle bit_operations_syntax

text \<open>
  Validation against the rest of the system: a program that \<^verbatim>\<open>maelys_datalog_validate_program\<close> accepts meets every
  hypothesis of the evaluation theorems, so that compiling, evaluating and querying it reads the model of its
  rules; a program it refuses is reported and never marked as validated.
\<close>

section \<open>The vocabulary of a program\<close>

text \<open>The feature flags are all that the pass over the rules changes in an accepted program.\<close>

definition unflag :: "ruleset \<Rightarrow> ruleset" where
  "unflag r = r\<lparr>rs_negation_supported := False, rs_aggregates_supported := False, rs_has_positive_recursion := False\<rparr>"

definition flagged :: "ruleset \<Rightarrow> ruleset \<Rightarrow> bool" where
  "flagged r r' \<longleftrightarrow> unflag r' = unflag r"

lemma flagged_refl: "flagged r r"
  by (simp add: flagged_def)

lemma flagged_trans: "flagged r r1 \<Longrightarrow> flagged r1 r2 \<Longrightarrow> flagged r r2"
  by (simp add: flagged_def)

lemma flagged_step:
  "flagged r (r\<lparr>rs_negation_supported := b\<rparr>)" "flagged r (r\<lparr>rs_aggregates_supported := b\<rparr>)" "flagged r (r\<lparr>rs_has_positive_recursion := b\<rparr>)"
  by (simp_all add: flagged_def unflag_def)

lemma flagged_fields:
  assumes "flagged r r'"
  shows "rs_symbols r' = rs_symbols r" "rs_registry r' = rs_registry r" "rs_filter_programs r' = rs_filter_programs r"
    "rs_rules r' = rs_rules r" "rs_facts r' = rs_facts r" "rs_loaded r' = rs_loaded r" "rs_program_validated r' = rs_program_validated r"
    "rs_filter_pattern_pool r' = rs_filter_pattern_pool r" "rs_variable_name_pool r' = rs_variable_name_pool r"
proof -
  have u: "unflag r' = unflag r" using assms by (simp add: flagged_def)
  have f: "rs_symbols (unflag x) = rs_symbols x" "rs_registry (unflag x) = rs_registry x" "rs_filter_programs (unflag x) = rs_filter_programs x"
    "rs_rules (unflag x) = rs_rules x" "rs_facts (unflag x) = rs_facts x" "rs_loaded (unflag x) = rs_loaded x"
    "rs_program_validated (unflag x) = rs_program_validated x"
    "rs_filter_pattern_pool (unflag x) = rs_filter_pattern_pool x" "rs_variable_name_pool (unflag x) = rs_variable_name_pool x" for x by (simp_all add: unflag_def)
  show "rs_symbols r' = rs_symbols r" "rs_registry r' = rs_registry r" "rs_filter_programs r' = rs_filter_programs r"
    "rs_rules r' = rs_rules r" "rs_facts r' = rs_facts r" "rs_loaded r' = rs_loaded r" "rs_program_validated r' = rs_program_validated r"
    "rs_filter_pattern_pool r' = rs_filter_pattern_pool r" "rs_variable_name_pool r' = rs_variable_name_pool r"
    using u f by metis+
qed

text \<open>Validity of terms, atoms, expressions and literals reads the symbols, the registry and the filter programs only.\<close>

definition same_vocabulary :: "ruleset \<Rightarrow> ruleset \<Rightarrow> bool" where
  "same_vocabulary r r' \<longleftrightarrow> rs_symbols r' = rs_symbols r \<and> rs_registry r' = rs_registry r \<and> rs_filter_programs r' = rs_filter_programs r"

lemma flagged_vocabulary: "flagged r r' \<Longrightarrow> same_vocabulary r r'"
  using flagged_fields by (simp add: same_vocabulary_def)

lemma valid_term_cong: "same_vocabulary r r' \<Longrightarrow> valid_term r' t b = valid_term r t b"
  by (cases t) (auto simp: same_vocabulary_def)

lemma valid_atom_cong: "same_vocabulary r r' \<Longrightarrow> valid_atom r' a b = valid_atom r a b"
  unfolding valid_atom_def by (simp add: valid_term_cong[of r r'] same_vocabulary_def split: option.split)

lemma valid_expressions_cong: "same_vocabulary r r' \<Longrightarrow> valid_expressions r' rule = valid_expressions r rule"
proof -
  assume v: "same_vocabulary r r'"
  have "node_operands r' n e = node_operands r n e" for n e
    unfolding node_operands_def valid_term_cong[OF v] ..
  then have "expressions_loop r' ns e = expressions_loop r ns e" for ns e
    by (induction ns arbitrary: e) (auto split: option.splits)
  then show ?thesis by (simp add: valid_expressions_def)
qed

lemma valid_literal_cong: "same_vocabulary r r' \<Longrightarrow> valid_literal_impl r' rule l b = valid_literal_impl r rule l b"
  using valid_term_cong[of r r'] valid_atom_cong[of r r']
  by (cases l) (auto simp: valid_comparison_def valid_aggregate_def same_vocabulary_def)

lemma rule_valid_cong: "same_vocabulary r r' \<Longrightarrow> rule_valid r' rule = rule_valid r rule"
  using valid_atom_cong[of r r'] valid_expressions_cong[of r r'] valid_literal_cong[of r r']
  by (auto simp: rule_valid_def valid_literal_def list_all_iff)

section \<open>Accepted rules\<close>

definition rule_accepted :: "ruleset \<Rightarrow> rule \<Rightarrow> bool" where
  "rule_accepted r rule \<longleftrightarrow> rule_valid r rule \<and>
     (\<exists>d. predicate_registry_get (rs_registry r) (predicate_id (head rule)) = Some d \<and> \<not> base_head d)"

fun uses_negation :: "literal \<Rightarrow> bool" where
  "uses_negation (LIT_NEGATED_ATOM _) = True"
| "uses_negation _ = False"

definition flags_cover :: "ruleset \<Rightarrow> rule \<Rightarrow> bool" where
  "flags_cover r rule \<longleftrightarrow> (list_ex uses_negation (body rule) \<longrightarrow> rs_negation_supported r) \<and>
     (list_ex literal_is_aggregate (body rule) \<longrightarrow> rs_aggregates_supported r)"

definition flags_grow :: "ruleset \<Rightarrow> ruleset \<Rightarrow> bool" where
  "flags_grow r r' \<longleftrightarrow> (rs_negation_supported r \<longrightarrow> rs_negation_supported r') \<and> (rs_aggregates_supported r \<longrightarrow> rs_aggregates_supported r')"

lemma mark_features_flagged: "flagged r (mark_features l r)" "flags_grow r (mark_features l r)"
  using flagged_refl flagged_step by (auto simp: mark_features_def Let_def flags_grow_def split: literal.split)

lemma mark_features_marks:
  "uses_negation l \<Longrightarrow> rs_negation_supported (mark_features l r)" "literal_is_aggregate l \<Longrightarrow> rs_aggregates_supported (mark_features l r)"
  by (cases l; simp add: mark_features_def)+

lemma validate_literals_accepts:
  assumes "validate_literals p origin i rule diag ls r = Inr r'"
  shows "flagged r r' \<and> flags_grow r r' \<and> list_all (valid_literal r rule) ls \<and>
    (list_ex uses_negation ls \<longrightarrow> rs_negation_supported r') \<and> (list_ex literal_is_aggregate ls \<longrightarrow> rs_aggregates_supported r')"
  using assms
proof (induction ls arbitrary: r)
  case Nil
  then show ?case by (simp add: flagged_refl flags_grow_def)
next
  case (Cons l ls)
  let ?r = "mark_features l r"
  have v: "valid_literal r rule l" "validate_literals p origin i rule diag ls ?r = Inr r'"
    using Cons.prems by (auto split: if_splits)
  note m = mark_features_flagged[of r l] mark_features_marks[of l r]
  from Cons.IH[OF v(2)] m v(1) flagged_trans[OF m(1)] valid_literal_cong[OF flagged_vocabulary[OF m(1)]]
  show ?case by (auto simp: flags_grow_def valid_literal_def)
qed

lemma validate_rule_accepts:
  assumes "validate_rule p r rule diag = (MAELYS_OK, r', d)"
  shows "flagged r r' \<and> flags_grow r r' \<and> rule_fault rule = None \<and> d = diag"
  using assms flagged_refl flagged_step(3)
  by (auto simp: validate_rule_def Let_def flags_grow_def split: option.splits prod.splits if_splits)

lemma validate_rule_at_accepts:
  assumes "validate_rule_at file origin diag i rule r = Inr r'"
  shows "flagged r r' \<and> flags_grow r r' \<and> rule_accepted r rule \<and> flags_cover r' rule"
proof -
  let ?p = "\<lparr>vc_file = file, vc_line = fst (rule_source r i), vc_column = snd (rule_source r i)\<rparr>"
  let ?d = "the (predicate_registry_get (rs_registry r) (predicate_id (head rule)))"
  have g: "length (body rule) \<le> MAX_BODY_LITERALS" "valid_atom r (head rule) True" "valid_expressions r rule" "\<not> base_head ?d"
    using assms by (auto simp: validate_rule_at_def Let_def split: prod.splits if_splits)
  then obtain r1 where r1: "validate_literals ?p origin i rule diag (body rule) r = Inr r1"
    "\<exists>d. validate_rule ?p r1 rule diag = (MAELYS_OK, r', d)"
    using assms by (auto simp: validate_rule_at_def Let_def split: prod.splits if_splits sum.splits)
  then obtain d where d: "validate_rule ?p r1 rule diag = (MAELYS_OK, r', d)" by blast
  note l = validate_literals_accepts[OF r1(1)] and v = validate_rule_accepts[OF d]
  have "\<exists>d. predicate_registry_get (rs_registry r) (predicate_id (head rule)) = Some d"
    using g(2) by (auto simp: valid_atom_def split: option.splits)
  then have "rule_accepted r rule" using g l v by (auto simp: rule_accepted_def rule_valid_def)
  then show ?thesis using l v flagged_trans by (auto simp: flags_grow_def flags_cover_def)
qed

lemma validate_rules_accepts:
  assumes "validate_rules file origin diag i rules r = Inr r'"
  shows "flagged r r' \<and> flags_grow r r' \<and> (\<forall>rule\<in>set rules. rule_accepted r rule \<and> flags_cover r' rule)"
  using assms
proof (induction rules arbitrary: r i)
  case Nil
  then show ?case by (simp add: flagged_refl flags_grow_def)
next
  case (Cons rule rules)
  then obtain r1 where r1: "validate_rule_at file origin diag i rule r = Inr r1" "validate_rules file origin diag (i + 1) rules r1 = Inr r'"
    by (auto split: sum.splits)
  note a = validate_rule_at_accepts[OF r1(1)] and b = Cons.IH[OF r1(2)]
  have voc: "same_vocabulary r r1" using a flagged_vocabulary by blast
  then have "rule_accepted r1 ru \<longleftrightarrow> rule_accepted r ru" for ru
    using rule_valid_cong[OF voc] by (simp add: rule_accepted_def same_vocabulary_def)
  then show ?case using a b flagged_trans by (auto simp: flags_grow_def flags_cover_def)
qed

section \<open>Refused programs\<close>

definition validation_codes :: "diag_code set" where
  "validation_codes = {DIAG_MALFORMED_PROGRAM, DIAG_PARSER_INVALID_FILTER, DIAG_PARSER_RULE_HEAD_EDB_FORBIDDEN,
     DIAG_PARSER_UNSAFE_VARIABLE, DIAG_POLICY_NOT_STRATIFIABLE}"

text \<open>A refusal reports one of these codes; the program is not marked as validated, and is what it was or cut back to a prefix.\<close>

definition cut_back :: "ruleset \<Rightarrow> ruleset \<Rightarrow> bool" where
  "cut_back r r' \<longleftrightarrow> \<not> rs_program_validated r' \<and> rs_registry r' = rs_registry r \<and> rs_symbols r' = rs_symbols r \<and>
     rs_variable_name_pool r' = rs_variable_name_pool r \<and>
     (\<exists>n. rs_rules r' = take n (rs_rules r)) \<and> (\<exists>n. rs_facts r' = take n (rs_facts r)) \<and>
     (\<exists>n. rs_filter_programs r' = take n (rs_filter_programs r)) \<and> (\<exists>n. rs_filter_pattern_pool r' = take n (rs_filter_pattern_pool r))"

definition refused :: "ruleset \<Rightarrow> validation \<Rightarrow> bool" where
  "refused r v \<longleftrightarrow> (case v of (rc, r', d) \<Rightarrow> rc \<noteq> MAELYS_OK \<and> dg_code d \<in> validation_codes \<and> cut_back r r')"

lemma cut_back_refl: "\<not> rs_program_validated r \<Longrightarrow> cut_back r r"
  unfolding cut_back_def by (metis take_all_iff order_refl)

lemma cut_back_flagged: "flagged r r' \<Longrightarrow> cut_back r' r'' \<Longrightarrow> cut_back r r''"
  using flagged_fields[of r r'] by (simp add: cut_back_def)

lemma refused_flagged: "flagged r r' \<Longrightarrow> refused r' v \<Longrightarrow> refused r v"
  using cut_back_flagged by (auto simp: refused_def)

lemma refused_malformed: "\<not> rs_program_validated r \<Longrightarrow> refused r (malformed file pos r)"
  by (simp add: refused_def malformed_def validation_codes_def cut_back_refl)

lemma refused_reject: "refused r (rc, r', d) \<Longrightarrow> refused r (reject origin i (rc, r', d))"
  by (auto simp: refused_def reject_def reject_parsed_clause_def Let_def cut_back_def)

lemma refused_diagnostic:
  "\<not> rs_program_validated r \<Longrightarrow> rc \<noteq> MAELYS_OK \<Longrightarrow> dg_code d \<in> validation_codes \<Longrightarrow> refused r (rc, r, d)"
  by (simp add: refused_def cut_back_refl)

lemma filter_rejected_refused:
  assumes "\<not> rs_program_validated r" "rc \<noteq> MAELYS_OK" shows "refused r (filter_rejected file origin i rc r)"
  unfolding filter_rejected_def Let_def
  using assms by (auto simp: validation_codes_def split: option.splits intro!: refused_reject refused_diagnostic)

lemma validate_filters_refused:
  "\<not> rs_program_validated r \<Longrightarrow> validate_filters file origin r fs i = Some v \<Longrightarrow> refused r v"
  by (induction fs arbitrary: i) (auto simp: Let_def intro: refused_malformed filter_rejected_refused split: if_splits)

lemma validate_rule_refused:
  assumes "\<not> rs_program_validated r" "validate_rule p r rule diag = (rc, r', d)"
  shows "flagged r r' \<and> (rc \<noteq> MAELYS_OK \<longrightarrow> dg_code d \<in> validation_codes)"
  using assms(2) flagged_refl flagged_step(3)
  by (auto simp: validate_rule_def Let_def validation_diag_def validation_codes_def split: option.splits prod.splits if_splits)

lemma validate_rule_reject:
  assumes "\<not> rs_program_validated r" "validate_rule p r rule diag = (rc, r', d)" "rc \<noteq> MAELYS_OK"
  shows "refused r (reject origin i (rc, r', d))"
proof -
  note v = validate_rule_refused[OF assms(1,2)]
  then have "\<not> rs_program_validated r'" using flagged_fields(7) assms(1) by blast
  then have "refused r' (rc, r', d)" using v assms(3) by (simp add: refused_diagnostic)
  then show ?thesis using v refused_flagged refused_reject by blast
qed

lemma validate_literals_refused:
  assumes "\<not> rs_program_validated r" "validate_literals p origin i rule diag ls r = Inl v"
  shows "refused r v"
  using assms
proof (induction ls arbitrary: r)
  case (Cons l ls)
  show ?case
  proof (cases "valid_literal r rule l")
    case True
    note m = mark_features_flagged(1)[of r l]
    have "validate_literals p origin i rule diag ls (mark_features l r) = Inl v" using Cons.prems(2) True by simp
    then show ?thesis using Cons.IH[of "mark_features l r"] flagged_fields(7)[OF m] Cons.prems(1) refused_flagged[OF m] by simp
  next
    case False
    obtain rc r' d where v: "validate_rule p r rule diag = (rc, r', d)" by (metis prod_cases3)
    have "flagged r r'" using validate_rule_refused[OF Cons.prems(1) v] by blast
    then have "refused r (malformed (vc_file p) (vc_line p, vc_column p) r')"
      using refused_malformed refused_flagged flagged_fields(7) Cons.prems(1) by blast
    then show ?thesis
      using Cons.prems False v validate_rule_reject[OF Cons.prems(1) v] refused_malformed[OF Cons.prems(1)] by (auto split: if_splits)
  qed
qed simp

lemma validate_rule_at_refused:
  assumes "\<not> rs_program_validated r" "validate_rule_at file origin diag i rule r = Inl v"
  shows "refused r v"
proof -
  define p where "p = \<lparr>vc_file = file, vc_line = fst (rule_source r i), vc_column = snd (rule_source r i)\<rparr>"
  have head_code: "refused r (reject origin i (MAELYS_ERR_INVALID_FIELD, r, diagnostic_set_predicate n k (validation_diag p DIAG_PARSER_RULE_HEAD_EDB_FORBIDDEN m h)))" for n k m h
    by (intro refused_reject refused_diagnostic) (simp_all add: assms(1) validation_diag_def validation_codes_def)
  show ?thesis
  proof (cases "validate_literals p origin i rule diag (body rule) r")
    case (Inl w)
    then show ?thesis using assms head_code refused_malformed[OF assms(1)] validate_literals_refused[OF assms(1) Inl]
      by (auto simp: validate_rule_at_def Let_def p_def split: prod.splits if_splits)
  next
    case (Inr r1)
    have f: "flagged r r1" using validate_literals_accepts[OF Inr] by blast
    have nv: "\<not> rs_program_validated r1" using flagged_fields(7)[OF f] assms(1) by simp
    obtain rc r2 d where v: "validate_rule p r1 rule diag = (rc, r2, d)" by (metis prod_cases3)
    have "rc \<noteq> MAELYS_OK \<Longrightarrow> refused r (reject origin i (rc, r2, d))" using validate_rule_reject[OF nv v] refused_flagged[OF f] by blast
    then show ?thesis using assms Inr v head_code refused_malformed[OF assms(1)]
      by (auto simp: validate_rule_at_def Let_def p_def split: prod.splits if_splits)
  qed
qed

lemma validate_rules_refused:
  assumes "\<not> rs_program_validated r" "validate_rules file origin diag i rules r = Inl v"
  shows "refused r v"
  using assms
proof (induction rules arbitrary: r i)
  case (Cons rule rules)
  show ?case
  proof (cases "validate_rule_at file origin diag i rule r")
    case (Inl w)
    then show ?thesis using validate_rule_at_refused[OF Cons.prems(1) Inl] Cons.prems(2) by simp
  next
    case (Inr r1)
    have f: "flagged r r1" using validate_rule_at_accepts[OF Inr] by blast
    then have "refused r1 v" using Cons.IH[of r1 "i + 1"] flagged_fields(7)[OF f] Cons.prems Inr by simp
    then show ?thesis using refused_flagged[OF f] by blast
  qed
qed simp

section \<open>The whole validation\<close>

lemma assign_strata_fields:
  assumes "assign_strata p r d = (rc, r', d')"
  shows "rs_rules r' = rs_rules r" "rs_facts r' = rs_facts r" "rs_registry r' = rs_registry r" "rs_symbols r' = rs_symbols r"
    "rs_program_validated r' = rs_program_validated r" "rs_negation_supported r' = rs_negation_supported r"
    "rs_aggregates_supported r' = rs_aggregates_supported r" "rs_loaded r' = rs_loaded r"
    "rs_filter_programs r' = rs_filter_programs r" "rs_filter_pattern_pool r' = rs_filter_pattern_pool r"
    "rs_variable_name_pool r' = rs_variable_name_pool r"
  using assms by (auto simp: assign_strata_def Let_def simp del: relax_loop.simps split: if_splits sum.splits)

lemma accepted_declared:
  assumes "length (defs (rs_registry r)) \<le> MAX_PREDICATES" "\<forall>rule\<in>set (rs_rules r). rule_accepted r rule"
  shows "declared_rules (rs_rules r)"
proof -
  have atom: "predicate_id a < MAX_PREDICATES" if "valid_atom r a b" for a b
    using that assms(1) by (auto simp: valid_atom_def predicate_registry_get_def split: option.splits if_splits)
  have "predicate_id a < MAX_PREDICATES" if "valid_literal r rule lit" "literal_atom lit = Some a" for rule lit a
    using that atom by (cases lit) (auto simp: valid_literal_def valid_aggregate_def)
  then show ?thesis using assms(2) atom unfolding declared_rules_def rule_accepted_def rule_valid_def list_all_iff by blast
qed

text \<open>The program as the pass starts from it.\<close>

definition unvalidated :: "ruleset \<Rightarrow> ruleset" where
  "unvalidated r = r\<lparr>rs_program_validated := False, rs_aggregates_supported := False, rs_compiled_fingerprint := []\<rparr>"

lemma validate_program_cases:
  assumes "validate_program r file origin diag = (rc, r', d')" "rs_loaded r" "frozen (rs_registry r)"
  shows "refused (unvalidated r) (rc, r', d') \<or>
    (\<exists>r1 r2 p. rc = MAELYS_OK \<and> within_bounds (unvalidated r) \<and> list_all (valid_fact (unvalidated r)) (rs_facts r) \<and>
       flagged (unvalidated r) r1 \<and> (\<forall>rule\<in>set (rs_rules r). rule_accepted (unvalidated r) rule \<and> flags_cover r1 rule) \<and>
       assign_strata p r1 diag = (MAELYS_OK, r2, d') \<and> r' = r2\<lparr>rs_program_validated := True\<rparr>)"
proof -
  let ?r = "unvalidated r"
  have nv: "\<not> rs_program_validated ?r" and same: "rs_rules ?r = rs_rules r" "rs_facts ?r = rs_facts r" "rs_filter_programs ?r = rs_filter_programs r"
    by (simp_all add: unvalidated_def)
  have start: "validate_program r file origin diag =
    (if \<not> within_bounds ?r then malformed file (0, 0) ?r
     else case validate_filters file origin ?r (rs_filter_programs ?r) 0 of
       Some v \<Rightarrow> v
     | None \<Rightarrow>
         if \<not> list_all (valid_fact ?r) (rs_facts ?r) then malformed file (0, 0) ?r
         else case validate_rules file origin diag 0 (rs_rules ?r) ?r of
           Inl v \<Rightarrow> v
         | Inr r' \<Rightarrow>
             let (line, column) = program_position origin r'
             in case assign_strata \<lparr>vc_file = file, vc_line = line, vc_column = column\<rparr> r' diag of
                  (rc, r'', d) \<Rightarrow> (rc, if rc = MAELYS_OK then r''\<lparr>rs_program_validated := True\<rparr> else r'', d))"
    using assms(2,3) unfolding validate_program_def validate_program_impl_def Let_def unvalidated_def[symmetric]
    by (simp only: simp_thms if_True if_False)
  show ?thesis
  proof (cases "within_bounds ?r \<and> validate_filters file origin ?r (rs_filter_programs ?r) 0 = None \<and> list_all (valid_fact ?r) (rs_facts ?r)")
    case False
    then have "refused ?r (validate_program r file origin diag)"
      using refused_malformed[OF nv] validate_filters_refused[OF nv] unfolding start by (auto split: option.splits)
    then show ?thesis using assms(1) by simp
  next
    case True
    show ?thesis
    proof (cases "validate_rules file origin diag 0 (rs_rules ?r) ?r")
      case (Inl v)
      then show ?thesis using assms(1) True validate_rules_refused[OF nv Inl] unfolding start by simp
    next
      case (Inr r1)
      note a = validate_rules_accepts[OF Inr]
      obtain p where p: "validate_program r file origin diag =
          (case assign_strata p r1 diag of (rc, r'', d) \<Rightarrow> (rc, if rc = MAELYS_OK then r''\<lparr>rs_program_validated := True\<rparr> else r'', d))"
        using True Inr unfolding start by (cases "program_position origin r1") auto
      obtain rc2 r2 d2 where s: "assign_strata p r1 diag = (rc2, r2, d2)" by (metis prod_cases3)
      note f = assign_strata_fields[OF s] and ff = flagged_fields[of ?r r1]
      have out: "rc = rc2" "r' = (if rc2 = MAELYS_OK then r2\<lparr>rs_program_validated := True\<rparr> else r2)" "d' = d2"
        using assms(1) unfolding p s by (simp_all split: if_splits)
      show ?thesis
      proof (cases "rc2 = MAELYS_OK")
        case True
        then show ?thesis using out s a \<open>within_bounds ?r \<and> _ \<and> _\<close>
          by (intro disjI2 exI[of _ r1] exI[of _ r2] exI[of _ p]) (simp add: same)
      next
        case False
        have flags: "rs_negation_supported r1 \<or> rs_aggregates_supported r1" using assign_strata_flags[OF s False] .
        have "declared_rules (rs_rules r1)"
          using accepted_declared[of ?r] True a ff by (simp add: within_bounds_def same)
        from relaxation_result[OF this] obtain rx where rx: "relax_loop (MAX_PREDICATES + 1) (rs_rules r1) relaxation_init = Inr rx" by blast
        have "dg_code d2 = DIAG_POLICY_NOT_STRATIFIABLE" using assign_strata_outcome[OF flags s rx] False by (metis leI)
        then have "refused ?r (rc2, r2, d2)" using f ff a nv cut_back_refl[OF nv] False
          by (auto simp: refused_def cut_back_def validation_codes_def)
        then show ?thesis using out False by simp
      qed
    qed
  qed
qed

text \<open>The run over a prefix of a source stops before the strata and changes no more than a refusal does.\<close>

lemma validate_parsed_prefix_cut:
  assumes "validate_parsed_prefix r file origin diag = (rc, r', d')"
  shows "r' = r \<or> cut_back (unvalidated r) r'"
proof (cases "rs_loaded r \<and> frozen (rs_registry r)")
  case True
  let ?r = "unvalidated r"
  have nv: "\<not> rs_program_validated ?r" by (simp add: unvalidated_def)
  have start: "validate_parsed_prefix r file origin diag =
    (if \<not> within_bounds ?r then malformed file (0, 0) ?r
     else case validate_filters file origin ?r (rs_filter_programs ?r) 0 of
       Some v \<Rightarrow> v
     | None \<Rightarrow>
         if \<not> list_all (valid_fact ?r) (rs_facts ?r) then malformed file (0, 0) ?r
         else case validate_rules file origin diag 0 (rs_rules ?r) ?r of Inl v \<Rightarrow> v | Inr r' \<Rightarrow> (MAELYS_OK, r', diag))"
    using True unfolding validate_parsed_prefix_def validate_program_impl_def Let_def unvalidated_def[symmetric]
    by (simp only: simp_thms if_True if_False)
  have cut: "cut_back ?r x" if "refused ?r (a, x, b)" for a x b using that by (simp add: refused_def)
  have whole: "cut_back ?r r1" if "validate_rules file origin diag 0 (rs_rules ?r) ?r = Inr r1" for r1
  proof -
    have fl: "flagged ?r r1" using validate_rules_accepts[OF that] by blast
    then show ?thesis using cut_back_flagged[OF fl cut_back_refl] flagged_fields(7)[OF fl] nv by simp
  qed
  show ?thesis
  proof (cases "within_bounds ?r \<and> validate_filters file origin ?r (rs_filter_programs ?r) 0 = None \<and> list_all (valid_fact ?r) (rs_facts ?r)")
    case False
    then have "refused ?r (validate_parsed_prefix r file origin diag)"
      using refused_malformed[OF nv] validate_filters_refused[OF nv] unfolding start by (auto split: option.splits)
    then show ?thesis using assms cut by simp
  next
    case True
    then have "cut_back ?r r'" using assms cut[OF validate_rules_refused[OF nv]] whole unfolding start by (auto split: sum.splits)
    then show ?thesis by blast
  qed
qed (use assms in \<open>auto simp: validate_parsed_prefix_def validate_program_impl_def\<close>)

section \<open>Accepted programs\<close>

lemma accepted_rule_ok:
  assumes "rule_accepted r rule" shows "rule_ok True rule"
proof -
  have v: "rule_valid r rule" using assms by (simp add: rule_accepted_def)
  have "v \<in> (\<Union>l\<in>set (body rule). literal_binds l)" if "v \<in> term_vars (terms (head rule))" for v
  proof -
    obtain bound where b: "\<And>v. bit bound v \<longleftrightarrow> v \<in> (\<Union>l\<in>set (body rule). literal_binds l) \<and> v < MAX_RULE_VARIABLES"
      "\<And>k i u. LIT_FILTER k i u \<in> set (body rule) \<Longrightarrow> is_var u \<Longrightarrow> bit bound (term_variable u)"
      "\<And>l. l \<in> set (body rule) \<Longrightarrow> \<not> comparison_unbound rule bound l"
      "\<And>a. LIT_NEGATED_ATOM a \<in> set (body rule) \<Longrightarrow> \<forall>v. bit (atom_vars a) v \<longrightarrow> bit bound v"
      "\<And>v. bit (atom_vars (head rule)) v \<Longrightarrow> bit bound v"
      "\<And>l. l \<in> set (body rule) \<Longrightarrow> keys_bound (positive_vars rule) l"
      using rule_valid_masks[OF v] by blast
    have "v < MAX_RULE_VARIABLES" using rule_valid_wf[OF v] that by (simp add: rule_wf_def terms_wf_def)
    then show ?thesis using b(1,5) that bit_atom_vars by blast
  qed
  then show ?thesis using rule_valid_wf[OF v] by (auto simp: rule_ok_def range_restricted_def)
qed

lemma accepted_positive:
  assumes "rule_accepted r rule" "\<not> list_ex uses_negation (body rule)" "\<not> list_ex literal_is_aggregate (body rule)"
  shows "list_all positive_literal (body rule)"
proof -
  have "valid_literal r rule l \<Longrightarrow> \<not> uses_negation l \<Longrightarrow> \<not> literal_is_aggregate l \<Longrightarrow> positive_literal l" for l
    by (cases l) (auto simp: valid_literal_def)
  then show ?thesis using assms by (auto simp: rule_accepted_def rule_valid_def list_all_iff list_ex_iff)
qed

lemma valid_atom_declared: "valid_atom r a b \<Longrightarrow> declared_atom r a"
  using valid_atom_wf[of r a b] by (auto simp: declared_atom_def valid_atom_def split: option.splits)

lemma valid_aggregate_ok: "valid_aggregate r a lhs rhs True \<Longrightarrow> aggregate_literal_ok a lhs rhs"
proof -
  assume v: "valid_aggregate r a lhs rhs True"
  then have "bit (atom_vars a) (term_variable lhs)" by (simp add: valid_aggregate_def masked_test)
  then have "TERM_VAR (term_variable lhs) \<in> set (terms a)" by (simp add: bit_atom_vars term_vars_def)
  then show ?thesis using v valid_atom_wf[of r a True] var_in[of lhs]
    by (auto simp: aggregate_literal_ok_def valid_aggregate_def limit_defs)
qed

lemma accepted_reads_below:
  assumes "stratification rules ((!) (rs_strata r))" "rule \<in> set rules" "rule_accepted r rule" "lit \<in> set (body rule)"
  shows "reads_below r (rs_strata r ! predicate_id (head rule)) lit"
proof -
  have level: "rs_strata r ! predicate_id a + stratum_increment lit \<le> rs_strata r ! predicate_id (head rule)"
    if "literal_atom lit = Some a" for a
    using assms(1,2,4) that unfolding stratification_def dependency_def by blast
  have "valid_literal r rule lit" using assms(3,4) by (auto simp: rule_accepted_def rule_valid_def list_all_iff)
  then show ?thesis
  proof (cases lit)
    case (LIT_AGGREGATE kind a lhs rhs)
    then have "valid_aggregate r a lhs rhs True" using \<open>valid_literal r rule lit\<close> by (simp add: valid_literal_def)
    then show ?thesis using LIT_AGGREGATE level[of a] valid_aggregate_ok valid_atom_declared
      by (auto simp: stratum_increment_def valid_aggregate_def)
  qed (use level valid_atom_declared in \<open>auto simp: valid_literal_def stratum_increment_def\<close>)
qed

lemma accepted_of_validated:
  assumes "registry_inv (rs_registry r)" "validate_program r file origin diag = (MAELYS_OK, r', d')"
  shows "accepted_program r' \<and> rs_program_validated r' \<and> rs_loaded r' \<and> rs_rules r' = rs_rules r \<and> rs_facts r' = rs_facts r \<and>
    rs_registry r' = rs_registry r \<and> (\<forall>rule\<in>set (rs_rules r'). \<exists>order. safe_permutation rule order)"
proof -
  have live: "rs_loaded r" "frozen (rs_registry r)"
    using assms(2) by (auto simp: validate_program_def validate_program_impl_def split: if_splits)
  let ?r = "unvalidated r"
  obtain r1 r2 p where v: "within_bounds ?r" "list_all (valid_fact ?r) (rs_facts r)" "flagged ?r r1"
    "\<forall>rule\<in>set (rs_rules r). rule_accepted ?r rule \<and> flags_cover r1 rule" "assign_strata p r1 diag = (MAELYS_OK, r2, d')"
    "r' = r2\<lparr>rs_program_validated := True\<rparr>"
    using validate_program_cases[OF assms(2) live] by (auto simp: refused_def)
  note f1 = flagged_fields[OF v(3)] and f2 = assign_strata_fields[OF v(5)]
  have u: "rs_rules ?r = rs_rules r" "rs_facts ?r = rs_facts r" "rs_registry ?r = rs_registry r" "rs_symbols ?r = rs_symbols r"
    "rs_loaded ?r = rs_loaded r" by (simp_all add: unvalidated_def)
  have keep: "rs_rules r' = rs_rules r" "rs_facts r' = rs_facts r" "rs_registry r' = rs_registry r" "rs_loaded r'"
    "rs_negation_supported r' = rs_negation_supported r1" "rs_aggregates_supported r' = rs_aggregates_supported r1"
    using f1 f2 u live by (simp_all add: v(6))
  have voc: "has_kind r' k q \<longleftrightarrow> has_kind ?r k q" for k q by (simp add: has_kind_def keep u)
  have declared: "well_declared r'"
    unfolding well_declared_def voc
    using assms(1) v(2,4) by (auto simp: keep has_kind_def u list_all_iff valid_fact_def rule_accepted_def base_head_def split: option.splits)
  have rules: "\<forall>rule\<in>set (rs_rules r'). rule_ok True rule" using accepted_rule_ok v(4) keep(1) by auto
  have "accepted_program r'"
  proof (cases "rs_negation_supported r1 \<or> rs_aggregates_supported r1")
    case False
    then have "\<forall>rule\<in>set (rs_rules r'). list_all positive_literal (body rule)"
      using v(4) accepted_positive[of ?r] keep(1) by (auto simp: flags_cover_def)
    then show ?thesis using False declared rules by (simp add: accepted_program_def keep(5,6))
  next
    case True
    have dr: "declared_rules (rs_rules r1)" using accepted_declared[of ?r] v(1,4) f1 by (simp add: within_bounds_def u)
    obtain rx where rx: "relax_loop (MAX_PREDICATES + 1) (rs_rules r1) relaxation_init = Inr rx" "length (rx_strata rx) = MAX_PREDICATES"
      "if rx_changed rx then True else stratification (rs_rules r1) ((!) (rx_strata rx))"
      using relaxation_result[OF dr] by (metis (full_types))
    note out = assign_strata_outcome[OF True v(5) rx(1)]
    have ok: "\<not> rx_changed rx" "fold max (rx_strata rx) 0 < MAX_STRATA" using out(1,2) by (meson leI maelys_result.distinct(3))+
    then have r2: "rs_strata r' = rx_strata rx" "rs_max_stratum r' = fold max (rx_strata rx) 0" using out(3) by (simp_all add: v(6))
    have "same_vocabulary ?r r1" "same_vocabulary r1 r2" using flagged_vocabulary[OF v(3)] out(3) ok by (auto simp: same_vocabulary_def)
    then have voc': "same_vocabulary ?r r'" by (simp add: same_vocabulary_def v(6))
    then have acc: "\<forall>rule\<in>set (rs_rules r'). rule_accepted r' rule"
      using v(4) rule_valid_cong[OF voc'] by (simp add: rule_accepted_def same_vocabulary_def keep u)
    have strat: "stratification (rs_rules r') ((!) (rs_strata r'))" using rx(3) ok f1(4) keep(1) u(1) by (simp add: r2)
    have "rs_strata r' ! predicate_id (head rule) \<le> rs_max_stratum r'" if "rule \<in> set (rs_rules r')" for rule
    proof -
      have "predicate_id (head rule) < MAX_PREDICATES" using that dr f1(4) keep(1) u(1) by (simp add: declared_rules_def)
      then have "rx_strata rx ! predicate_id (head rule) \<in> set (rx_strata rx)" using rx(2) by simp
      then show ?thesis unfolding r2 fold_max_Max by simp
    qed
    moreover have "length (rs_facts r') \<le> MAX_RULE_FACTS" using v(1) by (simp add: within_bounds_def keep u)
    ultimately show ?thesis using True declared rules strat acc accepted_reads_below[OF strat]
      by (auto simp: accepted_program_def keep(5,6) stratified_program_def)
  qed
  moreover have "\<forall>rule\<in>set (rs_rules r'). \<exists>order. safe_permutation rule order"
    using v(4) rule_valid_permutation keep(1) by (auto simp: rule_accepted_def)
  ultimately show ?thesis using keep by (simp add: v(6))
qed

text \<open>
  (C5) Validation is sound for the evaluation. A program accepted by \<^verbatim>\<open>maelys_datalog_validate_program\<close> is marked as
  validated, keeps its rules and facts, and satisfies everything the evaluation theorems ask of a program: every
  rule is well formed and range restricted, every body has an order in which each literal runs after its variables
  are bound, negation and aggregates only read lower strata, and a program without them is positive.
\<close>

theorem validated_program_accepted:
  assumes "registry_inv (rs_registry r)" "validate_program r file origin diag = (MAELYS_OK, r', d')"
  shows "accepted_program r' \<and> rs_program_validated r' \<and> rs_loaded r' \<and> rs_rules r' = rs_rules r \<and> rs_facts r' = rs_facts r \<and>
    rs_registry r' = rs_registry r \<and> (\<forall>rule\<in>set (rs_rules r'). \<exists>order. safe_permutation rule order)"
  using accepted_of_validated[OF assms] .



end
