(* ===== verification/Utf8.thy ===== *)
theory Utf8
  imports Prelude
begin

unbundle bit_operations_syntax

text \<open>
  The byte-level text checks of \<^verbatim>\<open>common/maelys_utf8.c\<close>. A string is its bytes; the index of the loop is the
  suffix that is left. The validator accepts exactly the encodings of sequences of Unicode scalar values.
\<close>

section \<open>The validator\<close>

definition byte :: "char \<Rightarrow> nat" where
  "byte c = of_char c"

definition is_cont :: "char \<Rightarrow> bool" where
  "is_cont c \<longleftrightarrow> (byte c AND 0xc0) = 0x80"

definition between :: "nat \<Rightarrow> nat \<Rightarrow> char \<Rightarrow> bool" where
  "between lo hi c \<longleftrightarrow> \<not> (byte c < lo \<or> byte c > hi)"

fun utf8_validate :: "string \<Rightarrow> bool" where
  "utf8_validate [] = True"
| "utf8_validate (c # data) =
     (if byte c \<le> 0x7f then utf8_validate data
      else if byte c \<ge> 0xc2 \<and> byte c \<le> 0xdf then
        (case data of c1 # rest \<Rightarrow> is_cont c1 \<and> utf8_validate rest | _ \<Rightarrow> False)
      else if byte c = 0xe0 then
        (case data of c1 # c2 # rest \<Rightarrow> between 0xa0 0xbf c1 \<and> is_cont c2 \<and> utf8_validate rest | _ \<Rightarrow> False)
      else if (byte c \<ge> 0xe1 \<and> byte c \<le> 0xec) \<or> (byte c \<ge> 0xee \<and> byte c \<le> 0xef) then
        (case data of c1 # c2 # rest \<Rightarrow> is_cont c1 \<and> is_cont c2 \<and> utf8_validate rest | _ \<Rightarrow> False)
      else if byte c = 0xed then
        (case data of c1 # c2 # rest \<Rightarrow> between 0x80 0x9f c1 \<and> is_cont c2 \<and> utf8_validate rest | _ \<Rightarrow> False)
      else if byte c = 0xf0 then
        (case data of c1 # c2 # c3 # rest \<Rightarrow> between 0x90 0xbf c1 \<and> is_cont c2 \<and> is_cont c3 \<and> utf8_validate rest | _ \<Rightarrow> False)
      else if byte c \<ge> 0xf1 \<and> byte c \<le> 0xf3 then
        (case data of c1 # c2 # c3 # rest \<Rightarrow> is_cont c1 \<and> is_cont c2 \<and> is_cont c3 \<and> utf8_validate rest | _ \<Rightarrow> False)
      else if byte c = 0xf4 then
        (case data of c1 # c2 # c3 # rest \<Rightarrow> between 0x80 0x8f c1 \<and> is_cont c2 \<and> is_cont c3 \<and> utf8_validate rest | _ \<Rightarrow> False)
      else False)"

definition is_control :: "char \<Rightarrow> bool" where
  "is_control c \<longleftrightarrow> (byte c < 0x20 \<and> byte c \<noteq> 9 \<and> byte c \<noteq> 10 \<and> byte c \<noteq> 13) \<or> byte c = 0x7f"

definition bytes_look_textual :: "string \<Rightarrow> bool" where
  "bytes_look_textual data \<longleftrightarrow> utf8_validate data \<and>
     (data = [] \<or> (list_all (\<lambda>c. byte c \<noteq> 0) data \<and> length (filter is_control data) * 100 \<le> length data * 5))"

section \<open>Encodings of scalar values\<close>

definition scalar :: "nat \<Rightarrow> bool" where
  "scalar cp \<longleftrightarrow> cp < 0x110000 \<and> \<not> (0xd800 \<le> cp \<and> cp \<le> 0xdfff)"

definition utf8_bytes :: "nat \<Rightarrow> nat list" where
  "utf8_bytes cp =
     (if cp < 0x80 then [cp]
      else if cp < 0x800 then [0xc0 + cp div 64, 0x80 + cp mod 64]
      else if cp < 0x10000 then [0xe0 + cp div 4096, 0x80 + cp div 64 mod 64, 0x80 + cp mod 64]
      else [0xf0 + cp div 262144, 0x80 + cp div 4096 mod 64, 0x80 + cp div 64 mod 64, 0x80 + cp mod 64])"

definition utf8_encode :: "nat \<Rightarrow> string" where
  "utf8_encode cp = map char_of (utf8_bytes cp)"

lemma byte_less: "byte c < 256"
  using nat_of_char_less_256 by (simp add: byte_def)

lemma byte_char: "n < 256 \<Longrightarrow> byte (char_of n) = n"
  by (simp add: byte_def of_char_of)

lemma char_byte: "char_of (byte c) = c"
  by (simp add: byte_def)

lemma is_cont_iff: "is_cont c \<longleftrightarrow> 0x80 \<le> byte c \<and> byte c < 0xc0"
proof -
  have "n AND push_bit 6 m = push_bit 6 (drop_bit 6 n AND m)" for n m :: nat
    by (rule bit_eqI) (auto simp: bit_and_iff bit_push_bit_iff bit_drop_bit_eq)
  from this[of "byte c" 3] have "byte c AND 0xc0 = (byte c div 64 AND 3) * 64" by (simp add: push_bit_eq_mult drop_bit_eq_div)
  moreover have "byte c div 64 = 0 \<or> byte c div 64 = 1 \<or> byte c div 64 = 2 \<or> byte c div 64 = 3" using byte_less[of c] by linarith
  ultimately show ?thesis by (auto simp: is_cont_def)
qed

lemma between_iff: "between lo hi c \<longleftrightarrow> lo \<le> byte c \<and> byte c \<le> hi"
  by (auto simp: between_def)

text \<open>The validator on one encoded scalar value, and the scalar value of a valid first sequence.\<close>

lemma validate_encode:
  assumes "scalar cp" shows "utf8_validate (utf8_encode cp @ rest) = utf8_validate rest"
proof -
  have bound: "cp < 0x110000" using assms by (simp add: scalar_def)
  consider "cp < 0x80" | "0x80 \<le> cp" "cp < 0x800" | "0x800 \<le> cp" "cp < 0x10000" | "0x10000 \<le> cp" by linarith
  then show ?thesis
  proof cases
    case 1
    then show ?thesis by (simp add: utf8_encode_def utf8_bytes_def byte_char)
  next
    case 2
    then have "2 \<le> cp div 64" "cp div 64 \<le> 31" by auto
    then show ?thesis using 2 by (simp add: utf8_encode_def utf8_bytes_def byte_char is_cont_iff)
  next
    case 3
    have d: "cp div 4096 \<le> 15" "cp div 64 = cp div 4096 * 64 + cp div 64 mod 64"
      using 3 div_mult_mod_eq[of "cp div 64" 64] by (auto simp: div_mult2_eq[symmetric])
    have low: "cp div 4096 = 0 \<Longrightarrow> 32 \<le> cp div 64 mod 64" using 3 d(2) by auto
    have sur: "cp div 4096 = 13 \<Longrightarrow> cp div 64 mod 64 \<le> 31"
    proof -
      assume "cp div 4096 = 13"
      then have "cp < 0xd800" using assms by (auto simp: scalar_def)
      then show ?thesis using d(2) \<open>cp div 4096 = 13\<close> by auto
    qed
    have m: "cp div 64 mod 64 < 64" "cp mod 64 < 64" by simp_all
    show ?thesis using 3 d(1) low sur m
      by (cases "cp div 4096 = 0"; cases "cp div 4096 = 13") (auto simp: utf8_encode_def utf8_bytes_def byte_char is_cont_iff between_iff)
  next
    case 4
    have d: "cp div 262144 \<le> 4" "cp div 4096 = cp div 262144 * 64 + cp div 4096 mod 64"
      using bound div_mult_mod_eq[of "cp div 4096" 64] by (auto simp: div_mult2_eq[symmetric])
    have low: "cp div 262144 = 0 \<Longrightarrow> 16 \<le> cp div 4096 mod 64" using 4 d(2) by auto
    have high: "cp div 262144 = 4 \<Longrightarrow> cp div 4096 mod 64 \<le> 15" using bound d(2) by auto
    have m: "cp div 4096 mod 64 < 64" "cp div 64 mod 64 < 64" "cp mod 64 < 64" by simp_all
    show ?thesis using 4 d(1) low high m
      by (cases "cp div 262144 = 0"; cases "cp div 262144 = 4") (simp_all add: utf8_encode_def utf8_bytes_def byte_char is_cont_iff between_iff)
  qed
qed

lemma cont_payload: "is_cont b \<Longrightarrow> \<exists>y. y < 64 \<and> byte b = 0x80 + y"
  by (auto simp: is_cont_iff dest!: le_Suc_ex)

lemma encodeI:
  assumes "utf8_bytes cp = map byte bs" "scalar cp" shows "\<exists>cp. scalar cp \<and> utf8_encode cp = bs"
proof -
  have "utf8_encode cp = bs" using assms(1) by (simp add: utf8_encode_def char_byte comp_def)
  then show ?thesis using assms(2) by blast
qed

lemma digit64:
  assumes "z < 64" shows "(q * 64 + z) div 64 = (q :: nat)" "(q * 64 + z) mod 64 = z"
  using assms by simp_all

lemma decode2:
  assumes "0xc2 \<le> byte a" "byte a \<le> 0xdf" "is_cont b"
  shows "\<exists>cp. scalar cp \<and> utf8_encode cp = [a, b]"
proof -
  obtain x where x: "byte a = 0xc0 + x" "2 \<le> x" "x \<le> 31" using assms by (auto dest!: le_Suc_ex)
  obtain y where y: "byte b = 0x80 + y" "y < 64" using cont_payload assms(3) by blast
  show ?thesis by (rule encodeI[of "x * 64 + y"]) (use x y in \<open>simp_all add: utf8_bytes_def scalar_def\<close>)
qed

lemma decode3:
  assumes "0xe0 \<le> byte a" "byte a \<le> 0xef" "is_cont b" "is_cont c" "byte a = 0xe0 \<longrightarrow> 0xa0 \<le> byte b" "byte a = 0xed \<longrightarrow> byte b \<le> 0x9f"
  shows "\<exists>cp. scalar cp \<and> utf8_encode cp = [a, b, c]"
proof -
  obtain x where x: "byte a = 0xe0 + x" "x \<le> 15" using assms(1,2) by (auto dest!: le_Suc_ex)
  obtain y where y: "byte b = 0x80 + y" "y < 64" using cont_payload assms(3) by blast
  obtain z where z: "byte c = 0x80 + z" "z < 64" using cont_payload assms(4) by blast
  let ?cp = "(x * 64 + y) * 64 + z"
  have d: "?cp div 64 = x * 64 + y" "?cp mod 64 = z" using digit64[OF z(2)] by blast+
  have d2: "?cp div 4096 = x"
  proof -
    have "?cp div 4096 = ?cp div 64 div 64" by (simp add: div_mult2_eq)
    then show ?thesis using d y by simp
  qed
  have "x \<le> 12 \<or> (x = 13 \<and> y \<le> 31) \<or> 14 \<le> x" using x y assms(6) by auto
  then have range: "0x800 \<le> ?cp" "?cp < 0x10000" "\<not> (0xd800 \<le> ?cp \<and> ?cp \<le> 0xdfff)" using x y z assms(5) by auto
  show ?thesis by (rule encodeI[of ?cp]) (use x y z d d2 range in \<open>simp_all add: utf8_bytes_def scalar_def\<close>)
qed

lemma decode4:
  assumes "0xf0 \<le> byte a" "byte a \<le> 0xf4" "is_cont b" "is_cont c" "is_cont d" "byte a = 0xf0 \<longrightarrow> 0x90 \<le> byte b" "byte a = 0xf4 \<longrightarrow> byte b \<le> 0x8f"
  shows "\<exists>cp. scalar cp \<and> utf8_encode cp = [a, b, c, d]"
proof -
  obtain x where x: "byte a = 0xf0 + x" "x \<le> 4" using assms(1,2) by (auto dest!: le_Suc_ex)
  obtain y where y: "byte b = 0x80 + y" "y < 64" using cont_payload assms(3) by blast
  obtain z where z: "byte c = 0x80 + z" "z < 64" using cont_payload assms(4) by blast
  obtain w where w: "byte d = 0x80 + w" "w < 64" using cont_payload assms(5) by blast
  let ?cp = "((x * 64 + y) * 64 + z) * 64 + w"
  have d1: "?cp div 64 = (x * 64 + y) * 64 + z" "?cp mod 64 = w" using digit64[OF w(2)] by blast+
  have "?cp div 4096 = ?cp div 64 div 64" "?cp div 262144 = ?cp div 64 div 64 div 64" by (simp_all add: div_mult2_eq)
  then have d2: "?cp div 4096 = x * 64 + y" "?cp div 262144 = x" using d1 z y by simp_all
  have range: "0x10000 \<le> ?cp" "?cp < 0x110000" using x y z w assms(6,7) by auto
  show ?thesis by (rule encodeI[of ?cp]) (use x y z w d1 d2 range digit64[OF z(2), of "x * 64 + y"] in \<open>simp_all add: utf8_bytes_def scalar_def\<close>)
qed

text \<open>One step of the validator: the first sequence encodes a scalar value and the rest is valid.\<close>

lemma validate_lead2:
  "0xc2 \<le> byte c \<Longrightarrow> byte c \<le> 0xdf \<Longrightarrow> utf8_validate (c # data) = (case data of c1 # rest \<Rightarrow> is_cont c1 \<and> utf8_validate rest | _ \<Rightarrow> False)"
  by simp

lemma validate_lead3:
  "0xe0 \<le> byte c \<Longrightarrow> byte c \<le> 0xef \<Longrightarrow> utf8_validate (c # data) = (case data of c1 # c2 # rest \<Rightarrow>
     is_cont c1 \<and> is_cont c2 \<and> (byte c = 0xe0 \<longrightarrow> 0xa0 \<le> byte c1) \<and> (byte c = 0xed \<longrightarrow> byte c1 \<le> 0x9f) \<and> utf8_validate rest | _ \<Rightarrow> False)"
  by (cases "byte c = 0xe0"; cases "byte c = 0xed") (auto simp: between_iff is_cont_iff simp del: utf8_validate.simps simp: utf8_validate.simps(2)[of c] split: list.split)

lemma validate_lead4:
  "0xf0 \<le> byte c \<Longrightarrow> byte c \<le> 0xf4 \<Longrightarrow> utf8_validate (c # data) = (case data of c1 # c2 # c3 # rest \<Rightarrow>
     is_cont c1 \<and> is_cont c2 \<and> is_cont c3 \<and> (byte c = 0xf0 \<longrightarrow> 0x90 \<le> byte c1) \<and> (byte c = 0xf4 \<longrightarrow> byte c1 \<le> 0x8f) \<and> utf8_validate rest
     | _ \<Rightarrow> False)"
  by (cases "byte c = 0xf0"; cases "byte c = 0xf4") (auto simp: between_iff is_cont_iff simp del: utf8_validate.simps simp: utf8_validate.simps(2)[of c] split: list.split)

lemma validate_step:
  assumes "utf8_validate (c # data)"
  shows "\<exists>cp rest. scalar cp \<and> c # data = utf8_encode cp @ rest \<and> utf8_validate rest"
proof -
  have "\<exists>bs rest cp. c # data = bs @ rest \<and> scalar cp \<and> utf8_encode cp = bs \<and> utf8_validate rest"
  proof (cases "byte c \<le> 0x7f")
    case True
    have "utf8_encode (byte c) = [c]" "scalar (byte c)" using True by (simp_all add: utf8_encode_def utf8_bytes_def char_byte scalar_def)
    then show ?thesis using assms True by (intro exI[of _ "[c]"] exI[of _ data] exI[of _ "byte c"]) simp
  next
    case False
    have "0xc2 \<le> byte c \<and> byte c \<le> 0xf4"
    proof (rule ccontr)
      assume "\<not> ?thesis"
      then have "byte c < 0xc2 \<or> 0xf4 < byte c" by linarith
      then show False using assms False by auto
    qed
    moreover have "\<not> (0xdf < byte c \<and> byte c < 0xe0)" "\<not> (0xef < byte c \<and> byte c < 0xf0)" by linarith+
    ultimately consider (two) "0xc2 \<le> byte c" "byte c \<le> 0xdf" | (three) "0xe0 \<le> byte c" "byte c \<le> 0xef" | (four) "0xf0 \<le> byte c" "byte c \<le> 0xf4"
      by linarith
    then show ?thesis
    proof cases
      case two
      then obtain c1 rest where d: "data = c1 # rest" "is_cont c1" "utf8_validate rest" using assms by (auto simp: validate_lead2 simp del: utf8_validate.simps split: list.splits)
      from decode2[OF two d(2)] obtain cp where "scalar cp" "utf8_encode cp = [c, c1]" by blast
      moreover have "c # data = [c, c1] @ rest" using d(1) by simp
      ultimately show ?thesis using d by blast
    next
      case three
      then obtain c1 c2 rest where d: "data = c1 # c2 # rest" "utf8_validate rest" "is_cont c1" "is_cont c2"
        "byte c = 0xe0 \<longrightarrow> 0xa0 \<le> byte c1" "byte c = 0xed \<longrightarrow> byte c1 \<le> 0x9f"
        using assms by (auto simp: validate_lead3 simp del: utf8_validate.simps split: list.splits)
      from decode3[OF three d(3,4,5,6)] obtain cp where "scalar cp" "utf8_encode cp = [c, c1, c2]" by blast
      moreover have "c # data = [c, c1, c2] @ rest" using d(1) by simp
      ultimately show ?thesis using d by blast
    next
      case four
      then obtain c1 c2 c3 rest where d: "data = c1 # c2 # c3 # rest" "utf8_validate rest" "is_cont c1" "is_cont c2" "is_cont c3"
        "byte c = 0xf0 \<longrightarrow> 0x90 \<le> byte c1" "byte c = 0xf4 \<longrightarrow> byte c1 \<le> 0x8f"
        using assms by (auto simp: validate_lead4 simp del: utf8_validate.simps split: list.splits)
      from decode4[OF four d(3-7)] obtain cp where "scalar cp" "utf8_encode cp = [c, c1, c2, c3]" by blast
      moreover have "c # data = [c, c1, c2, c3] @ rest" using d(1) by simp
      ultimately show ?thesis using d by blast
    qed
  qed
  then show ?thesis by metis
qed

lemma validate_decodes:
  "utf8_validate data \<Longrightarrow> \<exists>cps. list_all scalar cps \<and> data = concat (map utf8_encode cps)"
proof (induction data rule: length_induct)
  case (1 data)
  show ?case
  proof (cases data)
    case Nil
    then show ?thesis by (intro exI[of _ "[]"]) simp
  next
    case (Cons c tail)
    then obtain cp rest where s: "scalar cp" "data = utf8_encode cp @ rest" "utf8_validate rest" using validate_step 1(2) by blast
    have "utf8_encode cp \<noteq> []" by (simp add: utf8_encode_def utf8_bytes_def)
    then have "length rest < length data" using s(2) by simp
    then obtain cps where "list_all scalar cps" "rest = concat (map utf8_encode cps)" using 1(1) s(3) by blast
    then show ?thesis using s by (intro exI[of _ "cp # cps"]) simp
  qed
qed

text \<open>
  (C40) The UTF-8 validator accepts exactly the well-formed texts: the byte strings that are the concatenated
  encodings of Unicode scalar values, so neither overlong forms nor surrogates nor values beyond U+10FFFF.
\<close>

theorem utf8_validate_exact:
  "utf8_validate data \<longleftrightarrow> (\<exists>cps. list_all scalar cps \<and> data = concat (map utf8_encode cps))"
proof
  assume "\<exists>cps. list_all scalar cps \<and> data = concat (map utf8_encode cps)"
  then obtain cps where "list_all scalar cps" "data = concat (map utf8_encode cps)" by blast
  then show "utf8_validate data" by (induction cps arbitrary: data) (auto simp: validate_encode)
qed (rule validate_decodes)

end
