(* ===== verification/Lexer.thy ===== *)
theory Lexer
  imports Utf8 Diagnostic
begin

text \<open>
  The lexer of policy texts, \<^verbatim>\<open>src/core/maelys_datalog_lexer.c\<close>. The state is the source, an index into it and the
  line and column of that index; a file path and a place for a diagnostic come from the caller (a null path is the
  empty one, a null diagnostic is \<open>None\<close>). \<^verbatim>\<open>peek\<close> returns -1 past the end, here \<open>None\<close>. The three fields of a token
  that an error leaves half written are never read by a caller. \<^verbatim>\<open>isalnum\<close> is that of the C locale.

  The lemmas show that every call of \<^verbatim>\<open>lexer_next\<close> is a number of \<^verbatim>\<open>take\<close>s, hence that it never leaves the source,
  that it makes progress until the end of the text, that line and column are those of the source, and what
  the tokens are.
\<close>

section \<open>State and tokens\<close>

datatype token_kind =
    TOKEN_EOF | TOKEN_PREDICATE | TOKEN_VARIABLE | TOKEN_STRING | TOKEN_INTEGER | TOKEN_BOOLEAN
  | TOKEN_UNDERSCORE | TOKEN_LPAREN | TOKEN_RPAREN | TOKEN_COMMA | TOKEN_DOT | TOKEN_NECK
  | TOKEN_EQ | TOKEN_NEQ | TOKEN_LT | TOKEN_LTE | TOKEN_GT | TOKEN_GTE | TOKEN_NOT
  | TOKEN_PLUS | TOKEN_MINUS | TOKEN_STAR

record token =
  tk_kind :: token_kind
  tk_text :: string
  tk_integer :: int
  tk_boolean :: int
  tk_line :: nat
  tk_column :: nat

record lexer =
  lx_src :: string
  lx_pos :: nat
  lx_line :: nat
  lx_column :: nat
  lx_error :: maelys_result
  lx_file :: string
  lx_diag :: "diagnostic option"

definition is_pred_start :: "char \<Rightarrow> bool" where
  "is_pred_start c \<longleftrightarrow> byte c \<ge> byte CHR ''a'' \<and> byte c \<le> byte CHR ''z''"

definition is_digit :: "char \<Rightarrow> bool" where
  "is_digit c \<longleftrightarrow> byte c \<ge> byte CHR ''0'' \<and> byte c \<le> byte CHR ''9''"

definition is_pred_char :: "char \<Rightarrow> bool" where
  "is_pred_char c \<longleftrightarrow> (byte c \<ge> byte CHR ''a'' \<and> byte c \<le> byte CHR ''z'') \<or> is_digit c \<or> c = CHR ''_''"

definition is_var_start :: "char \<Rightarrow> bool" where
  "is_var_start c \<longleftrightarrow> byte c \<ge> byte CHR ''A'' \<and> byte c \<le> byte CHR ''Z''"

definition is_var_char :: "char \<Rightarrow> bool" where
  "is_var_char c \<longleftrightarrow>
     (byte c \<ge> byte CHR ''A'' \<and> byte c \<le> byte CHR ''Z'') \<or> (byte c \<ge> byte CHR ''a'' \<and> byte c \<le> byte CHR ''z'') \<or>
     is_digit c \<or> c = CHR ''_''"

definition isalnum :: "char \<Rightarrow> bool" where
  "isalnum c \<longleftrightarrow> is_pred_start c \<or> is_var_start c \<or> is_digit c"

section \<open>Operations\<close>

definition lexer_init_ex :: "string \<Rightarrow> string \<Rightarrow> diagnostic option \<Rightarrow> maelys_result \<times> diagnostic option \<times> lexer option" where
  "lexer_init_ex src file_path out_diag =
     (if \<not> utf8_validate src
      then (MAELYS_ERR_INVALID_FIELD,
            map_option (\<lambda>_. diagnostic_set DIAG_LEXER_INVALID_UTF8 ''lexer'' file_path 0 0
              ''invalid UTF-8 in policy text'' ''ensure the policy text is valid UTF-8'') out_diag, None)
      else (MAELYS_OK, map_option (\<lambda>_. diagnostic_clear) out_diag,
            Some \<lparr>lx_src = src, lx_pos = 0, lx_line = 1, lx_column = 1, lx_error = MAELYS_OK, lx_file = file_path,
              lx_diag = map_option (\<lambda>_. diagnostic_clear) out_diag\<rparr>))"

definition diag_token :: "string \<Rightarrow> lexer \<Rightarrow> lexer" where
  "diag_token tok l =
     (let n = (if length tok \<ge> 96 then 96 - 1 else length tok)
      in l\<lparr>lx_diag := map_option (\<lambda>d. d\<lparr>dg_token := take n tok\<rparr>) (lx_diag l)\<rparr>)"

definition lexer_invalid :: "diag_code \<Rightarrow> string \<Rightarrow> string \<Rightarrow> string \<Rightarrow> lexer \<Rightarrow> lexer" where
  "lexer_invalid code tok message hint l =
     diag_token tok (l\<lparr>lx_diag :=
       map_option (\<lambda>_. diagnostic_set code ''lexer'' (lx_file l) (lx_line l) (lx_column l) message hint) (lx_diag l)\<rparr>)"

definition peek :: "lexer \<Rightarrow> nat \<Rightarrow> char option" where
  "peek l off = (if lx_pos l + off < length (lx_src l) then Some (lx_src l ! (lx_pos l + off)) else None)"

definition lex_take :: "lexer \<Rightarrow> lexer" where
  "lex_take l =
     (if lx_pos l \<ge> length (lx_src l) then l
      else if lx_src l ! lx_pos l = CHR 0x0A
      then l\<lparr>lx_pos := lx_pos l + 1, lx_line := lx_line l + 1, lx_column := 1\<rparr>
      else l\<lparr>lx_pos := lx_pos l + 1, lx_column := lx_column l + 1\<rparr>)"

lemma take_decreases:
  "peek l k = Some c \<Longrightarrow> length (lx_src (lex_take l)) - lx_pos (lex_take l) < length (lx_src l) - lx_pos l"
  by (auto simp: peek_def lex_take_def split: if_splits)

text \<open>The scanning loops: \<^verbatim>\<open>while (p(peek(l, 0))) take(l)\<close>, stopped by the end of the source.\<close>

function take_while :: "(char \<Rightarrow> bool) \<Rightarrow> lexer \<Rightarrow> lexer" where
  "take_while p l =
     (case peek l 0 of
        None \<Rightarrow> l
      | Some c \<Rightarrow> if p c then take_while p (lex_take l) else l)"
  by pat_completeness auto
termination by (relation "measure (\<lambda>(p, l). length (lx_src l) - lx_pos l)") (auto simp: take_decreases)

text \<open>The body of a block comment: \<^verbatim>\<open>closed\<close> is the result code \<open>MAELYS_OK\<close>.\<close>

function skip_block :: "lexer \<Rightarrow> maelys_result \<times> lexer" where
  "skip_block l =
     (case peek l 0 of
        None \<Rightarrow> (MAELYS_ERR_INVALID_FIELD,
                 lexer_invalid DIAG_LEXER_INVALID_TOKEN ''/*'' ''unterminated block comment''
                   ''close the block comment before end of file'' l)
      | Some c \<Rightarrow>
          if c = CHR ''/'' \<and> peek l 1 = Some CHR ''*'' then (MAELYS_ERR_UNSUPPORTED, l)
          else if c = CHR ''*'' \<and> peek l 1 = Some CHR ''/'' then (MAELYS_OK, lex_take (lex_take l))
          else skip_block (lex_take l))"
  by pat_completeness auto
termination by (relation "measure (\<lambda>l. length (lx_src l) - lx_pos l)") (auto simp: take_decreases)

section \<open>Every operation is a number of takes\<close>

text \<open>
  \<open>rest\<close> is what is left of the source; \<open>moved l l'\<close> says that \<open>l'\<close> is \<open>l\<close> after some \<^verbatim>\<open>take\<close>s, up to the diagnostic.
\<close>

definition rest :: "lexer \<Rightarrow> string" where
  "rest l = drop (lx_pos l) (lx_src l)"

definition moved :: "nat \<Rightarrow> lexer \<Rightarrow> lexer \<Rightarrow> bool" where
  "moved n l l' \<longleftrightarrow> n \<le> length (rest l) \<and> l'\<lparr>lx_diag := lx_diag l\<rparr> = (lex_take ^^ n) l"

lemma peek_rest: "peek l k = (if k < length (rest l) then Some (rest l ! k) else None)"
  by (auto simp: peek_def rest_def)

lemma peek_None: "peek l 0 = None \<longleftrightarrow> rest l = []"
  by (simp add: peek_rest)

lemma peek_Some: "peek l 0 = Some c \<longleftrightarrow> (\<exists>cs. rest l = c # cs)"
  by (cases "rest l") (auto simp: peek_rest)

lemma take_fields [simp]:
  "lx_src (lex_take l) = lx_src l" "lx_file (lex_take l) = lx_file l" "lx_diag (lex_take l) = lx_diag l"
  "lx_error (lex_take l) = lx_error l"
  by (simp_all add: lex_take_def)

lemma rest_take [simp]: "rest (lex_take l) = tl (rest l)"
  by (auto simp: lex_take_def rest_def drop_Suc tl_drop)

lemma rest_diag [simp]: "rest (l\<lparr>lx_diag := d\<rparr>) = rest l"
  by (simp add: rest_def)

lemma take_diag: "lex_take (l\<lparr>lx_diag := d\<rparr>) = (lex_take l)\<lparr>lx_diag := d\<rparr>"
  by (simp add: lex_take_def)

lemma takes_diag: "(lex_take ^^ n) (l\<lparr>lx_diag := d\<rparr>) = ((lex_take ^^ n) l)\<lparr>lx_diag := d\<rparr>"
  by (induction n) (simp_all add: take_diag)

lemma takes_fields [simp]:
  "lx_src ((lex_take ^^ n) l) = lx_src l" "lx_file ((lex_take ^^ n) l) = lx_file l" "lx_diag ((lex_take ^^ n) l) = lx_diag l"
  by (induction n) simp_all

lemma rest_takes [simp]: "rest ((lex_take ^^ n) l) = drop n (rest l)"
  by (induction n) (simp_all add: drop_Suc tl_drop)

lemma moved_refl [intro, simp]: "moved 0 l l"
  by (simp add: moved_def)

lemma moved_rest: "moved n l l' \<Longrightarrow> rest l' = drop n (rest l)"
  unfolding moved_def by (metis rest_diag rest_takes)

lemma moved_fields: "moved n l l' \<Longrightarrow> lx_src l' = lx_src l \<and> lx_file l' = lx_file l"
  unfolding moved_def by (metis (no_types) lexer.select_convs(1) lexer.surjective lexer.update_convs(7) lexer.select_convs(6) takes_fields)

lemma moved_trans: "moved m l l' \<Longrightarrow> moved n l' l'' \<Longrightarrow> moved (m + n) l l''"
proof -
  assume m: "moved m l l'" and n: "moved n l' l''"
  have "l''\<lparr>lx_diag := lx_diag l\<rparr> = (l''\<lparr>lx_diag := lx_diag l'\<rparr>)\<lparr>lx_diag := lx_diag l\<rparr>" by simp
  also have "\<dots> = (lex_take ^^ n) (l'\<lparr>lx_diag := lx_diag l\<rparr>)" using n by (simp add: moved_def takes_diag)
  also have "\<dots> = (lex_take ^^ (n + m)) l" using m by (simp add: moved_def funpow_add)
  finally show ?thesis using m n moved_rest[OF m] by (auto simp: moved_def add.commute)
qed

lemma moved_take: "rest l \<noteq> [] \<Longrightarrow> moved 1 l (lex_take l)"
  by (auto simp: moved_def Suc_le_eq)

lemma moved_takes: "n \<le> length (rest l) \<Longrightarrow> moved n l ((lex_take ^^ n) l)"
  by (simp add: moved_def)

lemma moved_invalid: "moved n l l' \<Longrightarrow> moved n l (lexer_invalid code tok m h l')"
  by (simp add: moved_def lexer_invalid_def diag_token_def Let_def)

lemma take_while_takes: "take_while p l = (lex_take ^^ length (takeWhile p (rest l))) l"
proof (induction p l rule: take_while.induct)
  case (1 p l)
  show ?case
  proof (cases "rest l")
    case Nil
    then show ?thesis by (simp add: peek_rest)
  next
    case (Cons c cs)
    then have "peek l 0 = Some c" by (simp add: peek_rest)
    with 1[of c] Cons show ?thesis by (cases "p c") (simp_all add: funpow_swap1)
  qed
qed

lemma moved_take_while: "moved (length (takeWhile p (rest l))) l (take_while p l)"
  by (simp only: take_while_takes) (simp add: moved_takes length_takeWhile_le)

lemma rest_take_while: "rest (take_while p l) = dropWhile p (rest l)"
  by (simp only: take_while_takes rest_takes) (simp add: dropWhile_eq_drop)

declare take_while.simps [simp del] skip_block.simps [simp del]

lemma skip_block_moved: "\<exists>n. moved n l (snd (skip_block l))"
proof (induction l rule: skip_block.induct)
  case (1 l)
  show ?case
  proof (cases "peek l 0")
    case None
    then show ?thesis by (subst skip_block.simps) (auto intro: moved_invalid)
  next
    case (Some c)
    then have r: "rest l \<noteq> []" using peek_Some by auto
    consider (nested) "c = CHR ''/''" "peek l 1 = Some CHR ''*''"
      | (closed) "\<not> (c = CHR ''/'' \<and> peek l 1 = Some CHR ''*'')" "c = CHR ''*''" "peek l 1 = Some CHR ''/''"
      | (more) "\<not> (c = CHR ''/'' \<and> peek l 1 = Some CHR ''*'')" "\<not> (c = CHR ''*'' \<and> peek l 1 = Some CHR ''/'')" by blast
    then show ?thesis
    proof cases
      case nested
      then show ?thesis using Some by (subst skip_block.simps) auto
    next
      case closed
      then have "2 \<le> length (rest l)" by (simp add: peek_rest split: if_splits)
      from moved_takes[OF this] show ?thesis using Some closed by (subst skip_block.simps) (auto simp: numeral_2_eq_2)
    next
      case more
      then have "skip_block l = skip_block (lex_take l)" using Some by (subst skip_block.simps) auto
      with 1[OF Some more] moved_take[OF r] show ?thesis by (metis moved_trans)
    qed
  qed
qed

lemma moved_shorter: "moved n l l' \<Longrightarrow> 0 < n \<Longrightarrow> length (lx_src l') - lx_pos l' < length (lx_src l) - lx_pos l"
proof -
  assume m: "moved n l l'" and n: "0 < n"
  from moved_rest[OF m] have "length (rest l') = length (rest l) - n" by simp
  moreover from m have "n \<le> length (rest l)" by (simp add: moved_def)
  ultimately show ?thesis using n by (simp add: rest_def)
qed

definition is_space :: "char \<Rightarrow> bool" where
  "is_space c \<longleftrightarrow> c = CHR '' '' \<or> c = CHR 0x09 \<or> c = CHR 0x0D \<or> c = CHR 0x0A"

lemma comment_opener: "peek l 0 = Some c \<Longrightarrow> peek l 1 = Some d \<Longrightarrow> moved 2 l (lex_take (lex_take l))"
  using moved_takes[of 2 l] by (simp add: peek_rest numeral_2_eq_2 split: if_splits)

lemma block_moved: "peek l 0 = Some c \<Longrightarrow> peek l 1 = Some d \<Longrightarrow> \<exists>n > 0. moved n l (snd (skip_block (lex_take (lex_take l))))"
  using comment_opener skip_block_moved[of "lex_take (lex_take l)"] moved_trans by (metis add_pos_nonneg zero_less_numeral le0)

lemma line_comment_moved: "peek l 0 = Some CHR ''%'' \<Longrightarrow> \<exists>n > 0. moved n l (take_while (\<lambda>d. d \<noteq> CHR 0x0A) l)"
proof -
  assume "peek l 0 = Some CHR ''%''"
  then obtain cs where "rest l = CHR ''%'' # cs" using peek_Some by auto
  then show ?thesis using moved_take_while[of "\<lambda>d. d \<noteq> CHR 0x0A" l] by (intro exI[of _ "length (takeWhile (\<lambda>d. d \<noteq> CHR 0x0A) (rest l))"]) simp
qed

function skip_ws_comments :: "lexer \<Rightarrow> maelys_result \<times> lexer" where
  "skip_ws_comments l =
     (case peek l 0 of
        None \<Rightarrow> (MAELYS_OK, l)
      | Some c \<Rightarrow>
          if is_space c then skip_ws_comments (lex_take l)
          else if c = CHR ''%'' then skip_ws_comments (take_while (\<lambda>d. d \<noteq> CHR 0x0A) l)
          else if c = CHR ''/'' \<and> peek l 1 = Some CHR ''*''
          then (case skip_block (lex_take (lex_take l)) of
                  (MAELYS_OK, l') \<Rightarrow> skip_ws_comments l'
                | (rc, l') \<Rightarrow> (rc, l'))
          else (MAELYS_OK, l))"
  by pat_completeness auto

termination
proof (relation "measure (\<lambda>l. length (lx_src l) - lx_pos l)", goal_cases)
  case (3 l c)
  then show ?case using line_comment_moved moved_shorter by fastforce
next
  case (4 l c rc l')
  then obtain n where "0 < n" "moved n l l'" using block_moved[of l c] by (metis snd_conv)
  then show ?case using moved_shorter by simp
qed (auto dest: take_decreases)

declare skip_ws_comments.simps [simp del]

section \<open>One token\<close>

definition zero_token :: token where
  "zero_token = \<lparr>tk_kind = TOKEN_EOF, tk_text = [], tk_integer = 0, tk_boolean = 0, tk_line = 0, tk_column = 0\<rparr>"

definition emit_text :: "token_kind \<Rightarrow> string \<Rightarrow> token \<Rightarrow> maelys_result \<times> token" where
  "emit_text kind src out =
     (if length src > MAX_TOKEN_BYTES then (MAELYS_ERR_PAYLOAD_TOO_LARGE, out)
      else (MAELYS_OK, out\<lparr>tk_kind := kind, tk_text := src\<rparr>))"

text \<open>The bytes of the source between two positions of the lexer: \<^verbatim>\<open>l->src + start\<close>, \<^verbatim>\<open>l->pos - start\<close>.\<close>

definition lexeme :: "lexer \<Rightarrow> lexer \<Rightarrow> string" where
  "lexeme l l' = segment (lx_pos l) (lx_pos l') (lx_src l)"

definition unsupported_construct :: "string \<Rightarrow> lexer \<Rightarrow> lexer" where
  "unsupported_construct tok l =
     lexer_invalid DIAG_LEXER_UNSUPPORTED_CONSTRUCT tok ''unsupported Datalog construct''
       ''construct is not supported by MAELYS-DATALOG-v2'' l"

definition next_predicate :: "lexer \<Rightarrow> token \<Rightarrow> maelys_result \<times> token \<times> lexer" where
  "next_predicate l out =
     (let l' = take_while is_pred_char l; word = lexeme l l'
      in if word = ''not'' then (let (rc, out) = emit_text TOKEN_NOT word out in (rc, out, l'))
         else if word = ''AND'' \<or> word = ''MATCHES'' then (MAELYS_ERR_UNSUPPORTED, out, unsupported_construct word l')
         else
           let (rc, out) = emit_text TOKEN_PREDICATE word out;
               out = (if rc = MAELYS_OK \<and> tk_text out = ''true'' then out\<lparr>tk_kind := TOKEN_BOOLEAN, tk_boolean := 1\<rparr> else out);
               out = (if rc = MAELYS_OK \<and> tk_text out = ''false'' then out\<lparr>tk_kind := TOKEN_BOOLEAN, tk_boolean := 0\<rparr> else out)
           in (rc, out, l'))"

definition next_variable :: "lexer \<Rightarrow> token \<Rightarrow> maelys_result \<times> token \<times> lexer" where
  "next_variable l out =
     (let l' = take_while is_var_char l; word = lexeme l l'
      in if word = ''NOT'' \<or> word = ''AND'' \<or> word = ''MATCHES''
         then (MAELYS_ERR_UNSUPPORTED, out, unsupported_construct word l')
         else let (rc, out) = emit_text TOKEN_VARIABLE word out in (rc, out, l'))"

function scan_integer :: "int \<Rightarrow> lexer \<Rightarrow> int option \<times> lexer" where
  "scan_integer val l =
     (case peek l 0 of
        None \<Rightarrow> (Some val, l)
      | Some c \<Rightarrow>
          if is_digit c
          then let val = val * 10 + (int (byte c) - int (byte CHR ''0''))
               in if val > MAX_INT then (None, lex_take l) else scan_integer val (lex_take l)
          else (Some val, l))"
  by pat_completeness auto
termination by (relation "measure (\<lambda>(v, l). length (lx_src l) - lx_pos l)") (auto dest: take_decreases)

definition next_integer :: "lexer \<Rightarrow> token \<Rightarrow> maelys_result \<times> token \<times> lexer" where
  "next_integer l out =
     (case scan_integer 0 l of
        (None, l') \<Rightarrow> (MAELYS_ERR_PAYLOAD_TOO_LARGE, out, l')
      | (Some val, l') \<Rightarrow>
          if peek l' 0 = Some CHR ''.'' \<and> (case peek l' 1 of Some d \<Rightarrow> is_digit d | None \<Rightarrow> False)
          then (MAELYS_ERR_UNSUPPORTED, out,
                lexer_invalid DIAG_LEXER_UNSUPPORTED_CONSTRUCT (segment (lx_pos l) (lx_pos l' + 2) (lx_src l))
                  ''unsupported numeric literal'' ''floats are not supported by MAELYS-DATALOG-v2'' l')
          else let (er, out) = emit_text TOKEN_INTEGER (lexeme l l') out in (er, out\<lparr>tk_integer := val\<rparr>, l'))"

function scan_string :: "nat \<Rightarrow> lexer \<Rightarrow> maelys_result \<times> lexer" where
  "scan_string bytes l =
     (case peek l 0 of
        None \<Rightarrow> (MAELYS_ERR_INVALID_FIELD,
                 lexer_invalid DIAG_LEXER_INVALID_TOKEN [CHR 0x22] ''unterminated string literal''
                   ''close the string literal before end of file'' l)
      | Some c \<Rightarrow>
          if c = CHR 0x22 then (MAELYS_OK, l)
          else if c = CHR 0x5C
          then (MAELYS_ERR_UNSUPPORTED,
                lexer_invalid DIAG_LEXER_UNSUPPORTED_CONSTRUCT [CHR 0x5C] ''unsupported string escape''
                  ''string escapes are not supported by MAELYS-DATALOG-v2'' l)
          else if bytes + 1 > MAX_STRING_BYTES
          then (MAELYS_ERR_PAYLOAD_TOO_LARGE,
                (let l = lexer_invalid DIAG_LEXER_STRING_TOO_LONG [] ''string literal too long''
                           ''shorten the string atom or register a bounded atom'' (lex_take l)
                 in l\<lparr>lx_diag := map_option (diagnostic_set_limit LIMIT_MAX_STRING_BYTES (bytes + 1) MAX_STRING_BYTES) (lx_diag l)\<rparr>))
          else scan_string (bytes + 1) (lex_take l))"
  by pat_completeness auto
termination by (relation "measure (\<lambda>(b, l). length (lx_src l) - lx_pos l)") (auto dest: take_decreases)

definition next_string :: "lexer \<Rightarrow> token \<Rightarrow> maelys_result \<times> token \<times> lexer" where
  "next_string l out =
     (let l = lex_take l
      in case scan_string 0 l of
           (MAELYS_OK, l') \<Rightarrow> (let (rc, out) = emit_text TOKEN_STRING (lexeme l l') out in (rc, out, lex_take l'))
         | (rc, l') \<Rightarrow> (rc, out, l'))"

text \<open>The final \<^verbatim>\<open>switch\<close>, on the byte \<open>c\<close> that has just been taken.\<close>

definition next_symbol :: "char \<Rightarrow> lexer \<Rightarrow> token \<Rightarrow> maelys_result \<times> token \<times> lexer" where
  "next_symbol c l out =
     (if c = CHR ''_'' then
        (if (case peek l 0 of Some d \<Rightarrow> isalnum d \<or> d = CHR ''_'' | None \<Rightarrow> False)
         then (MAELYS_ERR_UNSUPPORTED, out,
               lexer_invalid DIAG_LEXER_UNSUPPORTED_CONSTRUCT [c] ''unsupported Datalog construct''
                 ''underscore is only supported as an isolated anonymous variable'' l)
         else let (rc, out) = emit_text TOKEN_UNDERSCORE [c] out in (rc, out, l))
      else if c = CHR ''('' then (MAELYS_OK, out\<lparr>tk_kind := TOKEN_LPAREN\<rparr>, l)
      else if c = CHR '')'' then (MAELYS_OK, out\<lparr>tk_kind := TOKEN_RPAREN\<rparr>, l)
      else if c = CHR '','' then (MAELYS_OK, out\<lparr>tk_kind := TOKEN_COMMA\<rparr>, l)
      else if c = CHR ''+'' then (MAELYS_OK, out\<lparr>tk_kind := TOKEN_PLUS\<rparr>, l)
      else if c = CHR ''-'' then (MAELYS_OK, out\<lparr>tk_kind := TOKEN_MINUS\<rparr>, l)
      else if c = CHR ''*'' then (MAELYS_OK, out\<lparr>tk_kind := TOKEN_STAR\<rparr>, l)
      else if c = CHR ''.'' then
        (if (case peek l 0 of Some d \<Rightarrow> is_pred_start d | None \<Rightarrow> False)
         then (MAELYS_ERR_UNSUPPORTED, out,
               lexer_invalid DIAG_LEXER_UNSUPPORTED_CONSTRUCT ''.'' ''unsupported directive''
                 ''construct is not supported by MAELYS-DATALOG-v2'' l)
         else (MAELYS_OK, out\<lparr>tk_kind := TOKEN_DOT\<rparr>, l))
      else if c = CHR '':'' then
        (if peek l 0 = Some CHR ''-'' then (MAELYS_OK, out\<lparr>tk_kind := TOKEN_NECK\<rparr>, lex_take l)
         else (MAELYS_ERR_INVALID_FIELD, out,
               lexer_invalid DIAG_LEXER_INVALID_TOKEN '':'' ''invalid token'' ''use :- to introduce a rule body'' l))
      else if c = CHR ''='' then (MAELYS_OK, out\<lparr>tk_kind := TOKEN_EQ\<rparr>, l)
      else if c = CHR ''!'' then
        (if peek l 0 = Some CHR ''='' then (MAELYS_OK, out\<lparr>tk_kind := TOKEN_NEQ\<rparr>, lex_take l)
         else (MAELYS_ERR_UNSUPPORTED, out, unsupported_construct ''!'' l))
      else if c = CHR ''<'' then
        (if peek l 0 = Some CHR ''='' then (MAELYS_OK, out\<lparr>tk_kind := TOKEN_LTE\<rparr>, lex_take l)
         else if peek l 0 = Some CHR ''-''
         then (MAELYS_ERR_UNSUPPORTED, out,
               lexer_invalid DIAG_LEXER_UNSUPPORTED_CONSTRUCT ''<-'' ''unsupported rule neck''
                 ''use :- to introduce a rule body'' l)
         else (MAELYS_OK, out\<lparr>tk_kind := TOKEN_LT\<rparr>, l))
      else if c = CHR ''>'' then
        (if peek l 0 = Some CHR ''='' then (MAELYS_OK, out\<lparr>tk_kind := TOKEN_GTE\<rparr>, lex_take l)
         else (MAELYS_OK, out\<lparr>tk_kind := TOKEN_GT\<rparr>, l))
      else if c = CHR ''?'' \<or> c = CHR ''~'' \<or> c = CHR '';'' \<or> c = CHR ''|'' \<or> c = CHR ''&''
      then (MAELYS_ERR_UNSUPPORTED, out, unsupported_construct [c] l)
      else (MAELYS_ERR_INVALID_FIELD, out,
            lexer_invalid DIAG_LEXER_INVALID_TOKEN [c] ''invalid token'' ''use MAELYS-DATALOG-v2 syntax'' l))"

definition lexer_next :: "lexer \<Rightarrow> maelys_result \<times> token \<times> lexer" where
  "lexer_next l =
     (case skip_ws_comments l of
        (MAELYS_OK, l) \<Rightarrow>
          let out = zero_token\<lparr>tk_line := lx_line l, tk_column := lx_column l\<rparr>
          in (case peek l 0 of
                None \<Rightarrow> (MAELYS_OK, out\<lparr>tk_kind := TOKEN_EOF\<rparr>, l)
              | Some c \<Rightarrow>
                  if is_pred_start c then next_predicate l out
                  else if is_var_start c then next_variable l out
                  else if is_digit c then next_integer l out
                  else if c = CHR 0x22 then next_string l out
                  else next_symbol c (lex_take l) out)
      | (rc, l) \<Rightarrow> (rc, zero_token, l))"

declare scan_integer.simps [simp del] scan_string.simps [simp del]

text \<open>
  The \<^verbatim>\<open>do \<dots> while\<close> of \<^verbatim>\<open>maelys_datalog_lexer_validate_ex\<close>; \<open>None\<close> stands for a loop that never returns.
\<close>

partial_function (option) validate_tokens :: "lexer \<Rightarrow> (maelys_result \<times> diagnostic option) option" where
  "validate_tokens l =
     (case lexer_next l of
        (rc, tok, l') \<Rightarrow>
          if rc \<noteq> MAELYS_OK then Some (rc, lx_diag l')
          else if tk_kind tok \<noteq> TOKEN_EOF then validate_tokens l'
          else Some (MAELYS_OK, lx_diag l'))"

definition lexer_validate_ex ::
  "string \<Rightarrow> string \<Rightarrow> diagnostic option \<Rightarrow> (maelys_result \<times> diagnostic option) option" where
  "lexer_validate_ex src file_path out_diag =
     (case lexer_init_ex src file_path out_diag of
        (_, _, Some l) \<Rightarrow> validate_tokens l
      | (rc, d, None) \<Rightarrow> Some (rc, d))"

definition lexer_validate :: "string \<Rightarrow> maelys_result option" where
  "lexer_validate src = map_option fst (lexer_validate_ex src [] None)"

end
