(* ===== verification/Lexer_Spec.thy ===== *)
theory Lexer_Spec
  imports Lexer
begin

text \<open>
  A grammar of tokens and of the text between them, and the proof that \<^verbatim>\<open>maelys_datalog_lexer_next\<close> returns exactly
  the tokens of that grammar. From it follow progress, termination of \<^verbatim>\<open>maelys_datalog_lexer_validate\<close>, the bounds
  of tokens and the round trip of printed token lists.
\<close>

section \<open>The grammar\<close>

text \<open>
  \<open>skips s t\<close>: white space and comments lead from \<open>s\<close> to \<open>t\<close>. A block comment does not nest: its body has neither an
  opener nor a closer, also not one that overlaps the final closer.
\<close>

fun comment_body :: "string \<Rightarrow> bool" where
  "comment_body [] \<longleftrightarrow> True"
| "comment_body (c # cs) \<longleftrightarrow>
     (let d = (case cs of [] \<Rightarrow> CHR ''*'' | d # _ \<Rightarrow> d)
      in \<not> (c = CHR ''/'' \<and> d = CHR ''*'') \<and> \<not> (c = CHR ''*'' \<and> d = CHR ''/'')) \<and> comment_body cs"

inductive skips :: "string \<Rightarrow> string \<Rightarrow> bool" where
  skips_refl: "skips s s"
| skips_space: "is_space c \<Longrightarrow> skips s t \<Longrightarrow> skips (c # s) t"
| skips_line: "CHR 0x0A \<notin> set cm \<Longrightarrow> s = [] \<or> hd s = CHR 0x0A \<Longrightarrow> skips s t \<Longrightarrow> skips (CHR ''%'' # cm @ s) t"
| skips_block: "comment_body cm \<Longrightarrow> skips s t \<Longrightarrow> skips (''/*'' @ cm @ ''*/'' @ s) t"

definition ends :: "(char \<Rightarrow> bool) \<Rightarrow> string \<Rightarrow> bool" where
  "ends p tail \<longleftrightarrow> (case tail of [] \<Rightarrow> True | c # _ \<Rightarrow> \<not> p c)"

definition decimal_from :: "int \<Rightarrow> string \<Rightarrow> int" where
  "decimal_from v w = foldl (\<lambda>v c. v * 10 + (int (byte c) - int (byte CHR ''0''))) v w"

definition fraction_follows :: "string \<Rightarrow> bool" where
  "fraction_follows tail \<longleftrightarrow> (case tail of d # e # _ \<Rightarrow> d = CHR ''.'' \<and> is_digit e | _ \<Rightarrow> False)"

definition keyword :: "string \<Rightarrow> bool" where
  "keyword w \<longleftrightarrow> w = ''not'' \<or> w = ''true'' \<or> w = ''false'' \<or> w = ''NOT'' \<or> w = ''AND'' \<or> w = ''MATCHES''"

text \<open>The fixed spellings, with what must not follow them.\<close>

fun symbol_token :: "token_kind \<Rightarrow> (string \<times> (char \<Rightarrow> bool)) option" where
  "symbol_token TOKEN_LPAREN = Some (''('', \<lambda>_. False)"
| "symbol_token TOKEN_RPAREN = Some ('')'', \<lambda>_. False)"
| "symbol_token TOKEN_COMMA = Some ('','', \<lambda>_. False)"
| "symbol_token TOKEN_PLUS = Some (''+'', \<lambda>_. False)"
| "symbol_token TOKEN_MINUS = Some (''-'', \<lambda>_. False)"
| "symbol_token TOKEN_STAR = Some (''*'', \<lambda>_. False)"
| "symbol_token TOKEN_DOT = Some (''.'', is_pred_start)"
| "symbol_token TOKEN_NECK = Some ('':-'', \<lambda>_. False)"
| "symbol_token TOKEN_EQ = Some (''='', \<lambda>_. False)"
| "symbol_token TOKEN_NEQ = Some (''!='', \<lambda>_. False)"
| "symbol_token TOKEN_LTE = Some (''<='', \<lambda>_. False)"
| "symbol_token TOKEN_LT = Some (''<'', \<lambda>c. c = CHR ''='' \<or> c = CHR ''-'')"
| "symbol_token TOKEN_GTE = Some (''>='', \<lambda>_. False)"
| "symbol_token TOKEN_GT = Some (''>'', \<lambda>c. c = CHR ''='')"
| "symbol_token _ = None"

text \<open>\<open>token_of w tail kind text n b\<close>: the text \<open>w\<close> before \<open>tail\<close> is a token of this kind with these attributes.\<close>

inductive token_of :: "string \<Rightarrow> string \<Rightarrow> token_kind \<Rightarrow> string \<Rightarrow> int \<Rightarrow> int \<Rightarrow> bool" where
  eof: "token_of [] [] TOKEN_EOF [] 0 0"
| pred: "is_pred_start c \<Longrightarrow> list_all is_pred_char cs \<Longrightarrow> ends is_pred_char tail \<Longrightarrow> \<not> keyword (c # cs) \<Longrightarrow>
    length (c # cs) \<le> MAX_TOKEN_BYTES \<Longrightarrow> token_of (c # cs) tail TOKEN_PREDICATE (c # cs) 0 0"
| negation: "ends is_pred_char tail \<Longrightarrow> token_of ''not'' tail TOKEN_NOT ''not'' 0 0"
| yes: "ends is_pred_char tail \<Longrightarrow> token_of ''true'' tail TOKEN_BOOLEAN ''true'' 0 1"
| no: "ends is_pred_char tail \<Longrightarrow> token_of ''false'' tail TOKEN_BOOLEAN ''false'' 0 0"
| variable: "is_var_start c \<Longrightarrow> list_all is_var_char cs \<Longrightarrow> ends is_var_char tail \<Longrightarrow> \<not> keyword (c # cs) \<Longrightarrow>
    length (c # cs) \<le> MAX_TOKEN_BYTES \<Longrightarrow> token_of (c # cs) tail TOKEN_VARIABLE (c # cs) 0 0"
| integer: "w \<noteq> [] \<Longrightarrow> list_all is_digit w \<Longrightarrow> ends is_digit tail \<Longrightarrow> \<not> fraction_follows tail \<Longrightarrow>
    decimal_from 0 w \<le> MAX_INT \<Longrightarrow> length w \<le> MAX_TOKEN_BYTES \<Longrightarrow>
    token_of w tail TOKEN_INTEGER w (decimal_from 0 w) 0"
| text_literal: "list_all (\<lambda>c. c \<noteq> CHR 0x22 \<and> c \<noteq> CHR 0x5C) s \<Longrightarrow> length s \<le> MAX_STRING_BYTES \<Longrightarrow>
    token_of (CHR 0x22 # s @ [CHR 0x22]) tail TOKEN_STRING s 0 0"
| anonymous: "ends (\<lambda>c. isalnum c \<or> c = CHR ''_'') tail \<Longrightarrow> token_of ''_'' tail TOKEN_UNDERSCORE ''_'' 0 0"
| symbol: "symbol_token k = Some (w, p) \<Longrightarrow> ends p tail \<Longrightarrow> token_of w tail k [] 0 0"

section \<open>Skipping\<close>

text \<open>A text at which skipping stops.\<close>

definition clear :: "string \<Rightarrow> bool" where
  "clear s \<longleftrightarrow> (case s of [] \<Rightarrow> True
     | c # cs \<Rightarrow> \<not> is_space c \<and> c \<noteq> CHR ''%'' \<and> \<not> (c = CHR ''/'' \<and> cs \<noteq> [] \<and> hd cs = CHR ''*''))"

lemma peek_Cons: "rest l = c # cs \<Longrightarrow> peek l 0 = Some c"
  "rest l = c # cs \<Longrightarrow> peek l 1 = (case cs of [] \<Rightarrow> None | d # _ \<Rightarrow> Some d)"
  "rest l = c # cs \<Longrightarrow> peek l (Suc 0) = (case cs of [] \<Rightarrow> None | d # _ \<Rightarrow> Some d)"
  by (auto simp: peek_rest split: list.split)

lemma takes_Suc: "(lex_take ^^ n) (lex_take l) = (lex_take ^^ Suc n) l"
  by (simp only: funpow_Suc_right o_def)

lemma skip_block_exact:
  "rest l = cm @ ''*/'' @ s \<Longrightarrow> comment_body cm \<Longrightarrow> skip_block l = (MAELYS_OK, (lex_take ^^ (length cm + 2)) l)"
proof (induction cm arbitrary: l)
  case Nil
  then show ?case by (subst skip_block.simps) (simp add: peek_Cons)
next
  case (Cons c cm)
  have r: "rest (lex_take l) = cm @ ''*/'' @ s" using Cons.prems(1) by simp
  have p: "peek l 0 = Some c" "peek l 1 = Some (case cm of [] \<Rightarrow> CHR ''*'' | d # _ \<Rightarrow> d)"
    using Cons.prems(1) by (auto simp: peek_rest split: list.split)
  have "skip_block l = skip_block (lex_take l)"
    using Cons.prems(2) p by (auto simp: skip_block.simps[of l] Let_def simp del: One_nat_def)
  with Cons.IH[OF r] Cons.prems(2) show ?case by (simp add: takes_Suc del: funpow.simps)
qed

lemma skip_block_sound:
  "skip_block l = (MAELYS_OK, l') \<Longrightarrow>
   \<exists>cm. comment_body cm \<and> rest l = cm @ ''*/'' @ rest l' \<and> l' = (lex_take ^^ (length cm + 2)) l"
proof (induction l rule: skip_block.induct)
  case (1 l)
  from "1.prems" obtain c cs where r: "rest l = c # cs"
    by (cases "rest l") (simp_all add: skip_block.simps[of l] peek_rest)
  have p: "peek l 0 = Some c" "peek l 1 = (case cs of [] \<Rightarrow> None | d # _ \<Rightarrow> Some d)" using r by (simp_all add: peek_Cons)
  show ?case
  proof (cases "c = CHR ''*'' \<and> peek l 1 = Some CHR ''/''")
    case True
    then obtain t where t: "rest l = ''*/'' @ t" using r p by (auto split: list.splits)
    from "1.prems" True p have "l' = lex_take (lex_take l)" by (simp add: skip_block.simps[of l])
    with t show ?thesis by (intro exI[of _ "[]"]) (simp add: numeral_2_eq_2)
  next
    case False
    have n: "\<not> (c = CHR ''/'' \<and> peek l 1 = Some CHR ''*'')"
      using "1.prems" p by (auto simp: skip_block.simps[of l])
    have "skip_block (lex_take l) = (MAELYS_OK, l')"
      using "1.prems" p False n by (simp add: skip_block.simps[of l] del: One_nat_def split: if_splits)
    from "1.IH"[OF p(1) n False this] obtain cm where cm: "comment_body cm" "rest (lex_take l) = cm @ ''*/'' @ rest l'"
      "l' = (lex_take ^^ (length cm + 2)) (lex_take l)" by blast
    have "cs = cm @ ''*/'' @ rest l'" using cm(2) r by simp
    then have "comment_body (c # cm)" using cm(1) n False p(2) by (cases cm) (auto simp: Let_def)
    then show ?thesis using r cm \<open>cs = _\<close> by (intro exI[of _ "c # cm"]) (simp add: takes_Suc del: funpow.simps)
  qed
qed

text \<open>The three ways the loop goes on, and the one in which it stops.\<close>

lemma skip_ws_Nil: "rest l = [] \<Longrightarrow> skip_ws_comments l = (MAELYS_OK, l)"
  by (subst skip_ws_comments.simps) (simp add: peek_rest)

lemma skip_ws_space: "rest l = c # cs \<Longrightarrow> is_space c \<Longrightarrow> skip_ws_comments l = skip_ws_comments (lex_take l)"
  by (subst skip_ws_comments.simps) (simp add: peek_Cons)

lemma skip_ws_line:
  "rest l = CHR ''%'' # cs \<Longrightarrow> skip_ws_comments l = skip_ws_comments (take_while (\<lambda>d. d \<noteq> CHR 0x0A) l)"
  by (subst skip_ws_comments.simps) (simp add: peek_Cons is_space_def)

lemma skip_ws_block:
  "rest l = CHR ''/'' # CHR ''*'' # cs \<Longrightarrow> skip_ws_comments l = (case skip_block (lex_take (lex_take l)) of
     (MAELYS_OK, l') \<Rightarrow> skip_ws_comments l' | (rc, l') \<Rightarrow> (rc, l'))"
  by (subst skip_ws_comments.simps) (simp add: peek_Cons is_space_def)

lemma skip_ws_clear: "clear (rest l) \<Longrightarrow> skip_ws_comments l = (MAELYS_OK, l)"
proof (cases "rest l")
  case (Cons c cs)
  assume "clear (rest l)"
  then show ?thesis using Cons by (subst skip_ws_comments.simps) (auto simp: peek_Cons clear_def split: list.splits)
qed (simp add: skip_ws_Nil)

lemma not_clear_cases:
  assumes "\<not> clear s"
  obtains c cs where "s = c # cs" "is_space c" | cs where "s = CHR ''%'' # cs" | cs where "s = CHR ''/'' # CHR ''*'' # cs"
proof -
  from assms obtain c cs where "s = c # cs" by (cases s) (auto simp: clear_def)
  with assms have "is_space c \<or> c = CHR ''%'' \<or> (c = CHR ''/'' \<and> cs \<noteq> [] \<and> hd cs = CHR ''*'')" by (simp add: clear_def)
  then show thesis using that \<open>s = _\<close> by (cases cs) auto
qed

lemma take_while_comment: "rest l = cm @ s \<Longrightarrow> list_all p cm \<Longrightarrow> ends p s \<Longrightarrow> take_while p l = (lex_take ^^ length cm) l"
proof -
  assume a: "rest l = cm @ s" "list_all p cm" "ends p s"
  then have "takeWhile p (rest l) = cm" by (cases s) (auto simp: takeWhile_append list_all_iff ends_def)
  then show ?thesis by (simp add: take_while_takes)
qed

lemma skips_shorter: "skips s t \<Longrightarrow> length t \<le> length s"
  by (induction rule: skips.induct) auto

lemma skips_suffix: "skips s t \<Longrightarrow> \<exists>gap. s = gap @ t"
proof (induction rule: skips.induct)
  case (skips_line cm s t)
  then obtain gap where "s = gap @ t" by blast
  then show ?case by (intro exI[of _ "CHR ''%'' # cm @ gap"]) simp
next
  case (skips_block cm s t)
  then obtain gap where "s = gap @ t" by blast
  then show ?case by (intro exI[of _ "''/*'' @ cm @ ''*/'' @ gap"]) simp
qed auto

lemma skips_drop: "skips s t \<Longrightarrow> drop (length s - length t) s = t"
  using skips_suffix by fastforce

lemma takes_takes: "(lex_take ^^ m) ((lex_take ^^ n) l) = (lex_take ^^ (n + m)) l"
  by (simp add: funpow_add add.commute[of n])

lemma skip_ws_complete:
  "skips s t \<Longrightarrow> rest l = s \<Longrightarrow> clear t \<Longrightarrow> skip_ws_comments l = (MAELYS_OK, (lex_take ^^ (length s - length t)) l)"
proof (induction arbitrary: l rule: skips.induct)
  case (skips_refl s)
  then show ?case by (simp add: skip_ws_clear)
next
  case (skips_space c s t)
  then have "skip_ws_comments l = skip_ws_comments (lex_take l)" "rest (lex_take l) = s" by (simp_all add: skip_ws_space)
  then show ?case using skips_space.IH[of "lex_take l"] skips_space.prems skips_shorter[OF skips_space.hyps(2)]
    by (simp add: takes_Suc Suc_diff_le del: funpow.simps)
next
  case (skips_line cm s t)
  let ?l = "(lex_take ^^ Suc (length cm)) l"
  have "take_while (\<lambda>d. d \<noteq> CHR 0x0A) l = ?l"
    using take_while_comment[of l "CHR ''%'' # cm" s "\<lambda>d. d \<noteq> CHR 0x0A"] skips_line by (cases s) (auto simp: list_all_iff ends_def)
  then have "skip_ws_comments l = skip_ws_comments ?l" "rest ?l = s"
    using skips_line.prems skip_ws_line[of l "cm @ s"] by (simp_all del: funpow.simps)
  then show ?case using skips_line.IH[of ?l] skips_line.prems skips_shorter[OF skips_line.hyps(3)]
    by (simp add: takes_takes Suc_diff_le del: funpow.simps)
next
  case (skips_block cm s t)
  let ?l = "(lex_take ^^ (length cm + 2)) (lex_take (lex_take l))"
  have "skip_block (lex_take (lex_take l)) = (MAELYS_OK, ?l)"
    by (rule skip_block_exact[of _ cm s]) (use skips_block in simp_all)
  then have "skip_ws_comments l = skip_ws_comments ?l" using skip_ws_block skips_block.prems by simp
  moreover have "rest ?l = s" using skips_block.prems by simp
  ultimately show ?case using skips_block.IH[of ?l] skips_block.prems skips_shorter[OF skips_block.hyps(2)]
    by (simp add: takes_takes takes_Suc Suc_diff_le del: funpow.simps)
qed

lemma skip_ws_sound:
  "skip_ws_comments l = (MAELYS_OK, l') \<Longrightarrow>
   skips (rest l) (rest l') \<and> clear (rest l') \<and> l' = (lex_take ^^ (length (rest l) - length (rest l'))) l"
proof (induction "length (rest l)" arbitrary: l rule: less_induct)
  case less
  have step: ?case if s: "skip_ws_comments l = skip_ws_comments m" and m: "m = (lex_take ^^ n) l" "0 < n" "n \<le> length (rest l)"
    and ext: "\<And>t. skips (rest m) t \<Longrightarrow> skips (rest l) t" for m n
  proof -
    have r: "length (rest m) = length (rest l) - n" using m by simp
    then have "skips (rest m) (rest l') \<and> clear (rest l') \<and> l' = (lex_take ^^ (length (rest m) - length (rest l'))) m"
      using less.hyps[of m] less.prems s m by simp
    moreover from this have "length (rest l') \<le> length (rest m)" using skips_shorter by blast
    ultimately show ?thesis using ext m r by (simp add: takes_takes)
  qed
  show ?case
  proof (cases "clear (rest l)")
    case True
    then show ?thesis using less.prems by (simp add: skip_ws_clear skips.skips_refl)
  next
    case False
    then show ?thesis
    proof (cases rule: not_clear_cases)
      case (1 c cs)
      then show ?thesis by (intro step[of "lex_take l" 1]) (auto simp: skip_ws_space intro: skips.skips_space)
    next
      case (2 cs)
      let ?cm = "takeWhile (\<lambda>d. d \<noteq> CHR 0x0A) cs"
      let ?m = "take_while (\<lambda>d. d \<noteq> CHR 0x0A) l"
      have m: "?m = (lex_take ^^ Suc (length ?cm)) l" using 2 by (simp add: take_while_takes)
      have r: "rest ?m = dropWhile (\<lambda>d. d \<noteq> CHR 0x0A) cs" using 2 by (simp add: rest_take_while)
      have "skips (rest l) t" if "skips (rest ?m) t" for t
      proof -
        have "cs = ?cm @ rest ?m" using r by simp
        moreover have "CHR 0x0A \<notin> set ?cm" by (auto dest: set_takeWhileD)
        moreover have "rest ?m = [] \<or> hd (rest ?m) = CHR 0x0A" unfolding r using hd_dropWhile by blast
        ultimately show ?thesis using skips.skips_line[OF _ _ that] 2 by metis
      qed
      then show ?thesis using step[OF skip_ws_line[OF 2] m] 2 length_takeWhile_le[of "\<lambda>d. d \<noteq> CHR 0x0A" cs] by simp
    next
      case (3 cs)
      have "fst (skip_block (lex_take (lex_take l))) = MAELYS_OK"
        using less.prems skip_ws_block[OF 3] by (cases "skip_block (lex_take (lex_take l))") (auto split: maelys_result.splits)
      then obtain m where m: "skip_block (lex_take (lex_take l)) = (MAELYS_OK, m)" by (metis prod.collapse)
      from skip_block_sound[OF m] obtain cm where cm: "comment_body cm" "rest (lex_take (lex_take l)) = cm @ ''*/'' @ rest m"
        "m = (lex_take ^^ (length cm + 2)) (lex_take (lex_take l))" by blast
      have cs: "cs = cm @ ''*/'' @ rest m" using cm(2) 3 by simp
      have "skips (rest l) t" if "skips (rest m) t" for t using skips.skips_block[OF cm(1) that] cs 3 by simp
      moreover have "m = (lex_take ^^ Suc (Suc (length cm + 2))) l" using cm(3) by (simp only: takes_Suc)
      moreover have "skip_ws_comments l = skip_ws_comments m" using skip_ws_block[OF 3] m by simp
      moreover have "Suc (Suc (length cm + 2)) \<le> length (rest l)" using 3 cs by simp
      ultimately show ?thesis using step by blast
    qed
  qed
qed

section \<open>The branches\<close>

lemma lexeme_takes: "n \<le> length (rest l) \<Longrightarrow> lexeme l ((lex_take ^^ n) l) = take n (rest l)"
proof -
  assume n: "n \<le> length (rest l)"
  have "lx_pos ((lex_take ^^ n) l) = lx_pos l + n" using n
  proof (induction n arbitrary: l)
    case (Suc n)
    then have "lx_pos (lex_take l) = lx_pos l + 1" by (simp add: lex_take_def rest_def)
    then show ?case using Suc.IH[of "lex_take l"] Suc.prems by (simp add: takes_Suc[symmetric] del: funpow.simps)
  qed simp
  then show ?thesis by (simp add: lexeme_def segment_def rest_def)
qed

text \<open>Splitting the rest at the end of a maximal run.\<close>

lemma run_split:
  "takeWhile p s = w \<and> dropWhile p s = t \<longleftrightarrow> s = w @ t \<and> list_all p w \<and> ends p t"
proof
  assume a: "takeWhile p s = w \<and> dropWhile p s = t"
  then have "s = w @ t" by (metis takeWhile_dropWhile_id)
  moreover have "list_all p w" using a by (auto simp: list_all_iff dest: set_takeWhileD)
  moreover have "ends p t" using a hd_dropWhile[of p s] by (cases t) (auto simp: ends_def)
  ultimately show "s = w @ t \<and> list_all p w \<and> ends p t" by blast
next
  assume a: "s = w @ t \<and> list_all p w \<and> ends p t"
  then have "takeWhile p s = w @ takeWhile p t" "dropWhile p s = dropWhile p t"
    by (simp_all add: takeWhile_append2 dropWhile_append2 list_all_iff)
  then show "takeWhile p s = w \<and> dropWhile p s = t" using a by (cases t) (simp_all add: ends_def)
qed

lemma word_run:
  "lexeme l (take_while p l) = takeWhile p (rest l)" "rest (take_while p l) = dropWhile p (rest l)"
  by (simp_all only: take_while_takes lexeme_takes[OF length_takeWhile_le] rest_takes)
    (simp_all only: takeWhile_eq_take[symmetric] dropWhile_eq_drop[symmetric])

lemma run_takes: "take_while p l = (lex_take ^^ (length (rest l) - length (dropWhile p (rest l)))) l"
proof -
  have "length (rest l) = length (takeWhile p (rest l)) + length (dropWhile p (rest l))" by (metis length_append takeWhile_dropWhile_id)
  then show ?thesis by (simp add: take_while_takes)
qed

text \<open>What a branch yields: a token of the grammar at the front of the rest.\<close>

definition yields :: "lexer \<Rightarrow> token \<Rightarrow> token \<Rightarrow> lexer \<Rightarrow> bool" where
  "yields l out tok l' \<longleftrightarrow>
     (\<exists>w. rest l = w @ rest l' \<and> token_of w (rest l') (tk_kind tok) (tk_text tok) (tk_integer tok) (tk_boolean tok)) \<and>
     l' = (lex_take ^^ (length (rest l) - length (rest l'))) l \<and> tk_line tok = tk_line out \<and> tk_column tok = tk_column out"

lemma yieldsI:
  assumes "rest l = w @ t" "l' = (lex_take ^^ length w) l" "tk_line tok = tk_line out" "tk_column tok = tk_column out"
    "token_of w t (tk_kind tok) (tk_text tok) (tk_integer tok) (tk_boolean tok)"
  shows "yields l out tok l'"
proof -
  have "rest l' = t" using assms(1,2) by simp
  then show ?thesis using assms by (auto simp: yields_def)
qed

abbreviation fresh :: "token \<Rightarrow> bool" where
  "fresh out \<equiv> tk_kind out = TOKEN_EOF \<and> tk_text out = [] \<and> tk_integer out = 0 \<and> tk_boolean out = 0"

inductive_cases token_pred: "token_of w t TOKEN_PREDICATE s n b"
inductive_cases token_not: "token_of w t TOKEN_NOT s n b"

lemma upper_not_lower: "is_pred_start c \<Longrightarrow> \<not> is_var_start c" "is_pred_start c \<Longrightarrow> \<not> is_digit c" "is_var_start c \<Longrightarrow> \<not> is_digit c"
  by (auto simp: is_pred_start_def is_var_start_def is_digit_def byte_def)

lemma run_head: "rest l = c # cs \<Longrightarrow> p c \<Longrightarrow> takeWhile p (rest l) = c # takeWhile p cs \<and> list_all p (takeWhile p cs) \<and> ends p (dropWhile p cs)"
  using run_split[of p cs "takeWhile p cs" "dropWhile p cs"] by simp

lemma start_char: "is_pred_start c \<Longrightarrow> is_pred_char c" "is_var_start c \<Longrightarrow> is_var_char c"
  by (auto simp: is_pred_start_def is_pred_char_def is_var_start_def is_var_char_def)

lemma keyword_starts:
  "\<not> is_pred_start CHR ''N''" "\<not> is_pred_start CHR ''A''" "\<not> is_pred_start CHR ''M''"
  "\<not> is_var_start CHR ''n''" "\<not> is_var_start CHR ''t''" "\<not> is_var_start CHR ''f''"
  by (simp_all add: is_pred_start_def is_var_start_def byte_def)

lemma keyword_lower: "is_pred_start c \<Longrightarrow> keyword (c # cs) \<longleftrightarrow> c # cs = ''not'' \<or> c # cs = ''true'' \<or> c # cs = ''false''"
  using keyword_starts by (auto simp: keyword_def)

lemma keyword_upper: "is_var_start c \<Longrightarrow> keyword (c # cs) \<longleftrightarrow> c # cs = ''NOT'' \<or> c # cs = ''AND'' \<or> c # cs = ''MATCHES''"
  using keyword_starts by (auto simp: keyword_def)

lemma next_predicate_sound:
  assumes s: "next_predicate l out = (MAELYS_OK, tok, l')" and r: "rest l = c # cs" and c: "is_pred_start c" and f: "fresh out"
  shows "yields l out tok l'"
proof -
  obtain v t where v: "takeWhile is_pred_char (rest l) = c # v" "dropWhile is_pred_char (rest l) = t" "list_all is_pred_char v" "ends is_pred_char t"
    using run_head[OF r] start_char c r by auto
  note lw = word_run(1)[of l is_pred_char, unfolded v]
  have l': "l' = (lex_take ^^ length (c # v)) l"
    using s take_while_takes[of is_pred_char l] v(1) by (auto simp: next_predicate_def emit_text_def Let_def split: if_splits)
  have r': "rest l = (c # v) @ t" using v by (metis takeWhile_dropWhile_id)
  have "token_of (c # v) t (tk_kind tok) (tk_text tok) (tk_integer tok) (tk_boolean tok)"
    using s f v(4) token_of.pred[OF c v(3,4)] unfolding keyword_lower[OF c] next_predicate_def lw Let_def
    by (auto simp: emit_text_def limit_defs split: if_splits intro: token_of.negation token_of.yes token_of.no)
  moreover have "tk_line tok = tk_line out \<and> tk_column tok = tk_column out"
    using s by (auto simp: next_predicate_def emit_text_def Let_def split: if_splits)
  ultimately show ?thesis using yieldsI[OF r' l'] by blast
qed

lemma next_variable_sound:
  assumes s: "next_variable l out = (MAELYS_OK, tok, l')" and r: "rest l = c # cs" and c: "is_var_start c" and f: "fresh out"
  shows "yields l out tok l'"
proof -
  obtain v t where v: "takeWhile is_var_char (rest l) = c # v" "dropWhile is_var_char (rest l) = t" "list_all is_var_char v" "ends is_var_char t"
    using run_head[OF r] start_char c r by auto
  note lw = word_run(1)[of l is_var_char, unfolded v]
  have l': "l' = (lex_take ^^ length (c # v)) l"
    using s take_while_takes[of is_var_char l] v(1) by (auto simp: next_variable_def emit_text_def Let_def split: if_splits)
  have r': "rest l = (c # v) @ t" using v by (metis takeWhile_dropWhile_id)
  have "token_of (c # v) t (tk_kind tok) (tk_text tok) (tk_integer tok) (tk_boolean tok)"
    using s f v(4) token_of.variable[OF c v(3,4)] unfolding keyword_upper[OF c] next_variable_def lw Let_def
    by (auto simp: emit_text_def limit_defs split: if_splits)
  moreover have "tk_line tok = tk_line out \<and> tk_column tok = tk_column out"
    using s by (auto simp: next_variable_def emit_text_def Let_def split: if_splits)
  ultimately show ?thesis using yieldsI[OF r' l'] by blast
qed

lemma decimal_step: "decimal_from v (c # cs) = decimal_from (v * 10 + (int (byte c) - int (byte CHR ''0''))) cs"
  by (simp add: decimal_from_def)

lemma decimal_grows: "list_all is_digit w \<Longrightarrow> 0 \<le> v \<Longrightarrow> v \<le> decimal_from v w"
proof (induction w arbitrary: v)
  case (Cons c w)
  then have "0 \<le> int (byte c) - int (byte CHR ''0'')" by (simp add: is_digit_def)
  then have "v \<le> v * 10 + (int (byte c) - int (byte CHR ''0''))" "0 \<le> v * 10 + (int (byte c) - int (byte CHR ''0''))"
    using Cons.prems by linarith+
  then show ?case using Cons.IH[of "v * 10 + (int (byte c) - int (byte CHR ''0''))"] Cons.prems by (simp add: decimal_step)
qed (simp add: decimal_from_def)

lemma scan_integer_run:
  assumes "0 \<le> v" "v \<le> MAX_INT" "rest l = w @ t" "list_all is_digit w" "ends is_digit t"
  shows "if decimal_from v w \<le> MAX_INT then scan_integer v l = (Some (decimal_from v w), (lex_take ^^ length w) l)
         else fst (scan_integer v l) = None"
  using assms
proof (induction w arbitrary: v l)
  case Nil
  then show ?case by (cases t) (simp_all add: scan_integer.simps[of v l] peek_rest ends_def decimal_from_def)
next
  case (Cons c w)
  let ?v = "v * 10 + (int (byte c) - int (byte CHR ''0''))"
  have c: "is_digit c" "peek l 0 = Some c" "list_all is_digit w" using Cons.prems by (simp_all add: peek_rest)
  then have "0 \<le> int (byte c) - int (byte CHR ''0'')" by (simp add: is_digit_def)
  then have v: "0 \<le> ?v" using Cons.prems(1) by linarith
  have e: "scan_integer v l = (if ?v > MAX_INT then (None, lex_take l) else scan_integer ?v (lex_take l))"
    using c by (subst scan_integer.simps) (simp add: Let_def)
  show ?case
  proof (cases "?v > MAX_INT")
    case True
    then show ?thesis using e decimal_grows[OF c(3) v] by (simp add: decimal_step)
  next
    case False
    then show ?thesis using e Cons.IH[of ?v "lex_take l"] v Cons.prems by (simp add: decimal_step takes_Suc del: funpow.simps)
  qed
qed

lemma fraction_peek:
  "rest l = t \<Longrightarrow> (peek l 0 = Some CHR ''.'' \<and> (case peek l 1 of Some d \<Rightarrow> is_digit d | None \<Rightarrow> False)) \<longleftrightarrow> fraction_follows t"
  by (auto simp: peek_rest fraction_follows_def split: list.splits)

text \<open>The integer branch as a whole, on the run of digits at the front of the rest.\<close>

lemma next_integer_run:
  assumes r: "rest l = w @ t" and w: "list_all is_digit w" "ends is_digit t"
  shows "if decimal_from 0 w \<le> MAX_INT \<and> \<not> fraction_follows t \<and> length w \<le> MAX_TOKEN_BYTES
         then next_integer l out = (MAELYS_OK, out\<lparr>tk_kind := TOKEN_INTEGER, tk_text := w, tk_integer := decimal_from 0 w\<rparr>, (lex_take ^^ length w) l)
         else fst (next_integer l out) \<noteq> MAELYS_OK"
proof (cases "decimal_from 0 w \<le> MAX_INT")
  case True
  then have s: "scan_integer 0 l = (Some (decimal_from 0 w), (lex_take ^^ length w) l)"
    using scan_integer_run[OF _ _ r w, of 0] by (simp add: limit_defs)
  have lw: "lexeme l ((lex_take ^^ length w) l) = w" using r by (simp add: lexeme_takes)
  have "rest ((lex_take ^^ length w) l) = t" using r by simp
  from fraction_peek[OF this] show ?thesis using True by (simp add: next_integer_def s lw emit_text_def Let_def)
next
  case False
  then have "fst (scan_integer 0 l) = None" using scan_integer_run[OF _ _ r w, of 0] by (simp add: limit_defs)
  then show ?thesis using False by (cases "scan_integer 0 l") (simp add: next_integer_def)
qed

abbreviation plain :: "char \<Rightarrow> bool" where
  "plain c \<equiv> c \<noteq> CHR 0x22 \<and> c \<noteq> CHR 0x5C"

lemma scan_string_run:
  assumes "n \<le> MAX_STRING_BYTES" "rest l = w @ t" "list_all plain w" "ends plain t"
  shows "if (\<exists>t'. t = CHR 0x22 # t') \<and> n + length w \<le> MAX_STRING_BYTES
         then scan_string n l = (MAELYS_OK, (lex_take ^^ length w) l)
         else fst (scan_string n l) \<noteq> MAELYS_OK"
  using assms
proof (induction w arbitrary: n l)
  case Nil
  then show ?case by (cases t) (auto simp: scan_string.simps[of n l] peek_rest ends_def)
next
  case (Cons c w)
  have c: "plain c" "peek l 0 = Some c" "list_all plain w" using Cons.prems by (simp_all add: peek_rest)
  show ?case
  proof (cases "n + 1 > MAX_STRING_BYTES")
    case True
    then show ?thesis using c by (simp add: scan_string.simps[of n l])
  next
    case False
    then have "scan_string n l = scan_string (n + 1) (lex_take l)" using c by (simp add: scan_string.simps[of n l])
    then show ?thesis using False Cons.IH[of "Suc n" "lex_take l"] c(3) Cons.prems by (auto simp: takes_Suc simp del: funpow.simps split: if_splits)
  qed
qed

lemma next_string_run:
  assumes r: "rest l = CHR 0x22 # w @ t" and w: "list_all plain w" "ends plain t"
  shows "if (\<exists>t'. t = CHR 0x22 # t') \<and> length w \<le> MAX_STRING_BYTES
         then next_string l out = (MAELYS_OK, out\<lparr>tk_kind := TOKEN_STRING, tk_text := w\<rparr>, (lex_take ^^ (length w + 2)) l)
         else fst (next_string l out) \<noteq> MAELYS_OK"
proof -
  let ?l = "lex_take l"
  have r': "rest ?l = w @ t" using r by simp
  note run = scan_string_run[OF _ r' w, of 0, simplified]
  show ?thesis
  proof (cases "(\<exists>t'. t = CHR 0x22 # t') \<and> length w \<le> MAX_STRING_BYTES")
    case True
    then have s: "scan_string 0 ?l = (MAELYS_OK, (lex_take ^^ length w) ?l)" using run by simp
    have "lexeme ?l ((lex_take ^^ length w) ?l) = w" using r' by (simp add: lexeme_takes)
    moreover have "lex_take ((lex_take ^^ length w) ?l) = (lex_take ^^ (length w + 2)) l" by (simp add: funpow_swap1)
    ultimately show ?thesis using True s by (simp add: next_string_def Let_def emit_text_def limit_defs del: funpow.simps)
  next
    case False
    then have "fst (scan_string 0 ?l) \<noteq> MAELYS_OK" using run by auto
    then show ?thesis using False by (cases "scan_string 0 ?l") (auto simp: next_string_def Let_def split: maelys_result.splits)
  qed
qed

text \<open>The switch: the symbol tokens and the anonymous variable.\<close>

lemma ends_peek: "ends p (rest l) \<longleftrightarrow> \<not> (case peek l 0 of Some d \<Rightarrow> p d | None \<Rightarrow> False)"
  by (cases "rest l") (simp_all add: ends_def peek_rest)

definition symbol_start :: "char \<Rightarrow> bool" where
  "symbol_start c \<longleftrightarrow> \<not> is_pred_start c \<and> \<not> is_var_start c \<and> \<not> is_digit c \<and> c \<noteq> CHR 0x22"

lemma next_symbol_complete:
  assumes "symbol_token k = Some (w, p)" "ends p t" "rest l = w @ t"
  shows "next_symbol (hd w) (lex_take l) out = (MAELYS_OK, out\<lparr>tk_kind := k\<rparr>, (lex_take ^^ length w) l)"
proof -
  have "w \<noteq> []" using assms(1) by (cases k) auto
  then have pk: "peek (lex_take l) 0 = (case tl w @ t of [] \<Rightarrow> None | d # _ \<Rightarrow> Some d)"
    using assms(3) by (cases w) (auto simp: peek_rest split: list.split)
  show ?thesis using assms(1,2) pk by (cases k; clarsimp; cases t; simp add: next_symbol_def ends_def)
qed

lemma next_symbol_sound:
  assumes s: "next_symbol c (lex_take l) out = (MAELYS_OK, tok, l')" and r: "rest l = c # cs" and f: "fresh out"
  shows "yields l out tok l'"
proof -
  have one: "yields l out tok l'" if "tok = out\<lparr>tk_kind := k\<rparr>" "l' = lex_take l" "symbol_token k = Some ([c], p)" "ends p cs" for k p
    by (rule yieldsI[of l "[c]" cs]) (use that r f token_of.symbol in auto)
  have two: "yields l out tok l'" if "tok = out\<lparr>tk_kind := k\<rparr>" "l' = lex_take (lex_take l)" "symbol_token k = Some ([c, d], \<lambda>_. False)"
    "peek (lex_take l) 0 = Some d" for k d
  proof -
    have "\<exists>t. cs = d # t" using that(4) r peek_Some[of "lex_take l" d] by auto
    then obtain t where t: "cs = d # t" by blast
    show ?thesis by (rule yieldsI[of l "[c, d]" t]) (use that r t f token_of.symbol[OF that(3)] in \<open>auto simp: ends_def split: list.split\<close>)
  qed
  have p: "ends q cs \<longleftrightarrow> \<not> (case peek (lex_take l) 0 of Some d \<Rightarrow> q d | None \<Rightarrow> False)" for q using ends_peek[of q "lex_take l"] r by simp
  have never: "ends (\<lambda>_. False) cs" by (simp add: ends_def split: list.split)
  show ?thesis
  proof (cases "c = CHR ''_''")
    case True
    then show ?thesis using s f r p[of "\<lambda>d. isalnum d \<or> d = CHR ''_''"]
      by (intro yieldsI[of l "[c]" cs]) (auto simp: next_symbol_def emit_text_def limit_defs Let_def split: if_splits intro: token_of.anonymous)
  next
    case False
    then show ?thesis using s one[of TOKEN_LPAREN] one[of TOKEN_RPAREN] one[of TOKEN_COMMA] one[of TOKEN_PLUS] one[of TOKEN_MINUS]
      one[of TOKEN_STAR] one[of TOKEN_DOT] one[of TOKEN_EQ] one[of TOKEN_LT] one[of TOKEN_GT]
      two[of TOKEN_NECK] two[of TOKEN_NEQ] two[of TOKEN_LTE] two[of TOKEN_GTE] never p
      by (auto simp: next_symbol_def split: if_splits option.splits)
  qed
qed

section \<open>One call\<close>

lemma takes_chain:
  "m = (lex_take ^^ (a - b)) l \<Longrightarrow> l' = (lex_take ^^ (b - c)) m \<Longrightarrow> b \<le> a \<Longrightarrow> c \<le> b \<Longrightarrow> l' = (lex_take ^^ (a - c)) l"
  by (simp add: takes_takes)

lemma next_predicate_complete:
  assumes "rest l = (c # v) @ t" "is_pred_start c" "list_all is_pred_char v" "ends is_pred_char t" "length (c # v) \<le> MAX_TOKEN_BYTES"
  shows "next_predicate l out = (MAELYS_OK,
    (if c # v = ''not'' then out\<lparr>tk_kind := TOKEN_NOT, tk_text := c # v\<rparr>
     else if c # v = ''true'' then out\<lparr>tk_text := c # v, tk_kind := TOKEN_BOOLEAN, tk_boolean := 1\<rparr>
     else if c # v = ''false'' then out\<lparr>tk_text := c # v, tk_kind := TOKEN_BOOLEAN, tk_boolean := 0\<rparr>
     else out\<lparr>tk_kind := TOKEN_PREDICATE, tk_text := c # v\<rparr>), (lex_take ^^ length (c # v)) l)"
proof -
  have run: "takeWhile is_pred_char (rest l) = c # v" using run_split[of is_pred_char "rest l" "c # v" t] assms start_char by simp
  have "c \<noteq> CHR ''A''" "c \<noteq> CHR ''M''" using assms(2) keyword_starts by auto
  then show ?thesis using assms(5) take_while_takes[of is_pred_char l] word_run(1)[of l is_pred_char]
    unfolding run next_predicate_def Let_def by (auto simp: emit_text_def)
qed

lemma next_variable_complete:
  assumes "rest l = (c # v) @ t" "is_var_start c" "list_all is_var_char v" "ends is_var_char t" "length (c # v) \<le> MAX_TOKEN_BYTES"
    "\<not> keyword (c # v)"
  shows "next_variable l out = (MAELYS_OK, out\<lparr>tk_kind := TOKEN_VARIABLE, tk_text := c # v\<rparr>, (lex_take ^^ length (c # v)) l)"
proof -
  have run: "takeWhile is_var_char (rest l) = c # v" using run_split[of is_var_char "rest l" "c # v" t] assms start_char by simp
  show ?thesis using assms(5,6) take_while_takes[of is_var_char l] word_run(1)[of l is_var_char]
    unfolding run next_variable_def Let_def by (auto simp: emit_text_def keyword_def)
qed

text \<open>The part of \<^verbatim>\<open>maelys_datalog_lexer_next\<close> after the skipping.\<close>

definition scan_token :: "lexer \<Rightarrow> token \<Rightarrow> maelys_result \<times> token \<times> lexer" where
  "scan_token l out =
     (case peek l 0 of
        None \<Rightarrow> (MAELYS_OK, out\<lparr>tk_kind := TOKEN_EOF\<rparr>, l)
      | Some c \<Rightarrow>
          if is_pred_start c then next_predicate l out
          else if is_var_start c then next_variable l out
          else if is_digit c then next_integer l out
          else if c = CHR 0x22 then next_string l out
          else next_symbol c (lex_take l) out)"

abbreviation token_at :: "lexer \<Rightarrow> token" where
  "token_at l \<equiv> zero_token\<lparr>tk_line := lx_line l, tk_column := lx_column l\<rparr>"

lemma lexer_next_scan:
  "lexer_next l = (MAELYS_OK, tok, l') \<longleftrightarrow>
   (\<exists>m. skip_ws_comments l = (MAELYS_OK, m) \<and> scan_token m (token_at m) = (MAELYS_OK, tok, l'))"
  by (auto simp: lexer_next_def scan_token_def Let_def split: maelys_result.splits prod.splits)

lemma scan_token_sound:
  assumes s: "scan_token l out = (MAELYS_OK, tok, l')" and f: "fresh out"
  shows "yields l out tok l'"
proof (cases "rest l")
  case Nil
  then show ?thesis using s f by (intro yieldsI[of l "[]" "[]"]) (auto simp: scan_token_def peek_rest intro: token_of.eof)
next
  case (Cons c cs)
  then have p: "peek l 0 = Some c" by (simp add: peek_rest)
  consider "is_pred_start c" | "is_var_start c" "\<not> is_pred_start c" | "is_digit c" "\<not> is_pred_start c" "\<not> is_var_start c"
    | "c = CHR 0x22" "\<not> is_pred_start c" "\<not> is_var_start c" "\<not> is_digit c" | "symbol_start c"
    by (auto simp: symbol_start_def)
  then show ?thesis
  proof cases
    case 1
    then show ?thesis using s p next_predicate_sound[OF _ Cons 1 f] by (simp add: scan_token_def)
  next
    case 2
    then show ?thesis using s p next_variable_sound[OF _ Cons 2(1) f] by (simp add: scan_token_def)
  next
    case 3
    obtain w t where w: "rest l = w @ t" "list_all is_digit w" "ends is_digit t" using run_split by blast
    then have "w \<noteq> []" using Cons 3 by (auto simp: ends_def)
    have e: "next_integer l out = (MAELYS_OK, tok, l')" using s p 3 by (simp add: scan_token_def)
    note run = next_integer_run[OF w, of out, unfolded e]
    then have d: "decimal_from 0 w \<le> MAX_INT" "\<not> fraction_follows t" "length w \<le> MAX_TOKEN_BYTES" by (auto split: if_splits)
    have t: "tok = out\<lparr>tk_kind := TOKEN_INTEGER, tk_text := w, tk_integer := decimal_from 0 w\<rparr>" and l': "l' = (lex_take ^^ length w) l"
      using run d by simp_all
    show ?thesis by (rule yieldsI[OF w(1) l']) (use t f token_of.integer[OF \<open>w \<noteq> []\<close> w(2,3) d(2,1,3)] in auto)
  next
    case 4
    obtain w t where w: "cs = w @ t" "list_all plain w" "ends plain t" using run_split by blast
    have e: "next_string l out = (MAELYS_OK, tok, l')" using s p 4 by (simp add: scan_token_def)
    have r: "rest l = CHR 0x22 # w @ t" using Cons 4 w by simp
    note run = next_string_run[OF r w(2,3), of out, unfolded e]
    then obtain t' where d: "t = CHR 0x22 # t'" "length w \<le> MAX_STRING_BYTES" by (auto split: if_splits)
    have t: "tok = out\<lparr>tk_kind := TOKEN_STRING, tk_text := w\<rparr>" and l': "l' = (lex_take ^^ length (CHR 0x22 # w @ [CHR 0x22])) l"
      using run d by simp_all
    have "rest l = (CHR 0x22 # w @ [CHR 0x22]) @ t'" using r d by simp
    from yieldsI[OF this l'] show ?thesis using t f token_of.text_literal[OF w(2) d(2)] by auto
  next
    case 5
    then show ?thesis using s p next_symbol_sound[OF _ Cons f] by (simp add: scan_token_def symbol_start_def)
  qed
qed

lemma start_facts [simp]:
  "is_pred_start CHR ''n''" "is_pred_start CHR ''t''" "is_pred_start CHR ''f''" "\<not> is_digit CHR 0x22" "\<not> is_pred_start CHR 0x22"
  "\<not> is_var_start CHR 0x22" "\<not> is_pred_start CHR ''_''" "\<not> is_var_start CHR ''_''" "\<not> is_digit CHR ''_''"
  by (simp_all add: is_pred_start_def is_var_start_def is_digit_def byte_def)

lemma symbol_starts: "symbol_token k = Some (w, p) \<Longrightarrow> w \<noteq> [] \<and> symbol_start (hd w) \<and> clear (w @ t)"
  by (cases k; clarsimp; simp add: symbol_start_def is_pred_start_def is_var_start_def is_digit_def byte_def clear_def is_space_def)

lemma digit_start: "is_digit c \<Longrightarrow> \<not> is_pred_start c \<and> \<not> is_var_start c"
  using upper_not_lower by blast

lemma letters_clear: "is_pred_start c \<or> is_var_start c \<or> is_digit c \<Longrightarrow> clear (c # cs)"
  by (auto simp: clear_def is_space_def is_pred_start_def is_var_start_def is_digit_def byte_def)

lemma token_clear: "token_of w t k s n b \<Longrightarrow> clear (w @ t)"
proof (induction rule: token_of.induct)
  case (integer w tail)
  then show ?case by (cases w) (auto intro: letters_clear)
next
  case (symbol k w p tail)
  then show ?case using symbol_starts by blast
next
  case (pred c cs tail)
  then show ?case by (simp add: letters_clear)
next
  case (variable c cs tail)
  then show ?case by (simp add: letters_clear)
qed (simp_all add: clear_def is_space_def)

lemma scan_word:
  assumes "rest l = (c # v) @ t" "is_pred_start c" "list_all is_pred_char v" "ends is_pred_char t" "length (c # v) \<le> MAX_TOKEN_BYTES"
  shows "scan_token l out = next_predicate l out"
  using assms by (simp add: scan_token_def peek_rest)

lemma scan_token_complete:
  assumes "token_of w t k s n b" "rest l = w @ t" "fresh out"
  shows "scan_token l out = (MAELYS_OK, out\<lparr>tk_kind := k, tk_text := s, tk_integer := n, tk_boolean := b\<rparr>, (lex_take ^^ length w) l)"
  using assms
proof (induction rule: token_of.induct)
  case eof
  then show ?case by (simp add: scan_token_def peek_rest)
next
  case (pred c cs tail)
  then show ?case using scan_word[of l c cs tail out] next_predicate_complete[of l c cs tail out] by (simp add: keyword_def del: funpow.simps)
next
  case (negation tail)
  then show ?case using scan_word[of l "CHR ''n''" "''ot''" tail out] next_predicate_complete[of l "CHR ''n''" "''ot''" tail out]
    by (simp add: is_pred_char_def byte_def limit_defs del: funpow.simps)
next
  case (yes tail)
  then show ?case using scan_word[of l "CHR ''t''" "''rue''" tail out] next_predicate_complete[of l "CHR ''t''" "''rue''" tail out]
    by (simp add: is_pred_char_def byte_def limit_defs del: funpow.simps)
next
  case (no tail)
  then show ?case using scan_word[of l "CHR ''f''" "''alse''" tail out] next_predicate_complete[of l "CHR ''f''" "''alse''" tail out]
    by (simp add: is_pred_char_def byte_def limit_defs del: funpow.simps)
next
  case (variable c cs tail)
  then have "scan_token l out = next_variable l out" using upper_not_lower by (auto simp: scan_token_def peek_rest)
  then show ?case using variable next_variable_complete[of l c cs tail out] by (simp del: funpow.simps)
next
  case (integer w tail)
  then have "scan_token l out = next_integer l out" using digit_start by (cases w) (auto simp: scan_token_def peek_rest)
  then show ?case using integer next_integer_run[of l w tail out] by simp
next
  case (text_literal s tail)
  then have "scan_token l out = next_string l out" by (simp add: scan_token_def peek_rest)
  then show ?case using text_literal next_string_run[of l s "CHR 0x22 # tail" out] by (simp add: ends_def del: funpow.simps)
next
  case (anonymous tail)
  then have e: "scan_token l out = next_symbol CHR ''_'' (lex_take l) out" by (simp add: scan_token_def peek_rest)
  show ?case using anonymous ends_peek[of "\<lambda>c. isalnum c \<or> c = CHR ''_''" "lex_take l"] unfolding e
    by (simp add: next_symbol_def emit_text_def limit_defs)
next
  case (symbol k w p tail)
  then have "peek l 0 = Some (hd w)" "symbol_start (hd w)" using symbol_starts[OF symbol(1)] by (cases w; simp add: peek_rest)+
  then have "scan_token l out = next_symbol (hd w) (lex_take l) out" by (simp add: scan_token_def symbol_start_def)
  then show ?case using symbol next_symbol_complete[of k w p tail l out] by simp
qed

lemma skip_then_token:
  assumes "skips (rest l) (w @ t)" "token_of w t k s n b"
  shows "lexer_next l = (MAELYS_OK, \<lparr>tk_kind = k, tk_text = s, tk_integer = n, tk_boolean = b,
      tk_line = lx_line ((lex_take ^^ (length (rest l) - length (w @ t))) l),
      tk_column = lx_column ((lex_take ^^ (length (rest l) - length (w @ t))) l)\<rparr>,
    (lex_take ^^ (length (rest l) - length t)) l)"
proof -
  let ?m = "(lex_take ^^ (length (rest l) - length (w @ t))) l"
  have sk: "skip_ws_comments l = (MAELYS_OK, ?m)" using skip_ws_complete[OF assms(1) _ token_clear[OF assms(2)]] by simp
  have le: "length (w @ t) \<le> length (rest l)" using assms(1) skips_shorter by blast
  have "rest ?m = w @ t" using skips_drop[OF assms(1)] by simp
  from scan_token_complete[OF assms(2) this, of "token_at ?m"]
  have "scan_token ?m (token_at ?m) = (MAELYS_OK, \<lparr>tk_kind = k, tk_text = s, tk_integer = n, tk_boolean = b,
      tk_line = lx_line ?m, tk_column = lx_column ?m\<rparr>, (lex_take ^^ (length (rest l) - length t)) l)"
    using le by (simp add: zero_token_def takes_takes)
  then show ?thesis using sk by (auto simp: lexer_next_scan)
qed

lemma lexer_next_spec:
  "lexer_next l = (MAELYS_OK, tok, l') \<longleftrightarrow>
   (\<exists>w start. skips (rest l) (w @ rest l') \<and> start = (lex_take ^^ (length (rest l) - length (w @ rest l'))) l \<and>
      token_of w (rest l') (tk_kind tok) (tk_text tok) (tk_integer tok) (tk_boolean tok) \<and>
      tk_line tok = lx_line start \<and> tk_column tok = lx_column start \<and>
      l' = (lex_take ^^ (length (rest l) - length (rest l'))) l)"
  (is "?next \<longleftrightarrow> ?spec")
proof
  assume ?next
  then obtain m where sk: "skip_ws_comments l = (MAELYS_OK, m)" and sc: "scan_token m (token_at m) = (MAELYS_OK, tok, l')"
    unfolding lexer_next_scan by blast
  have "fresh (token_at m)" by (simp add: zero_token_def)
  note y = scan_token_sound[OF sc this, unfolded yields_def token.simps]
  obtain w where w: "rest m = w @ rest l'" "token_of w (rest l') (tk_kind tok) (tk_text tok) (tk_integer tok) (tk_boolean tok)"
    using conjunct1[OF y] by (elim exE conjE)
  note l' = conjunct1[OF conjunct2[OF y]]
  have p: "tk_line tok = lx_line m \<and> tk_column tok = lx_column m" using conjunct2[OF conjunct2[OF y]] by simp
  note s = skip_ws_sound[OF sk]
  have "length (rest m) \<le> length (rest l)" using s skips_shorter by blast
  moreover have "length (rest l') \<le> length (rest m)" using arg_cong[OF w(1), of length] by simp
  ultimately have "l' = (lex_take ^^ (length (rest l) - length (rest l'))) l"
    by (rule takes_chain[OF conjunct2[OF conjunct2[OF s]] l'])
  then show ?spec using s w(2) p unfolding w(1) by (intro exI[of _ w] exI[of _ m] conjI) (elim conjE, assumption)+
next
  assume ?spec
  then obtain w where w: "skips (rest l) (w @ rest l')" "token_of w (rest l') (tk_kind tok) (tk_text tok) (tk_integer tok) (tk_boolean tok)"
    and p: "tk_line tok = lx_line ((lex_take ^^ (length (rest l) - length (w @ rest l'))) l)"
      "tk_column tok = lx_column ((lex_take ^^ (length (rest l) - length (w @ rest l'))) l)"
    and l': "l' = (lex_take ^^ (length (rest l) - length (rest l'))) l" by blast
  from skip_then_token[OF w, folded p l'] show ?next by simp
qed

text \<open>
  (C36) A call of \<^verbatim>\<open>maelys_datalog_lexer_next\<close> succeeds exactly when white space and comments lead to a token of the
  grammar. It then returns that token, with its text, value and the position of its first byte, and leaves the lexer
  right behind it. The grammar fixes maximal munch, the keywords, the bounds of integers and texts and what may
  not follow a token.
\<close>

theorem lexer_next_exact:
  "lexer_next l = (MAELYS_OK, tok, l') \<longleftrightarrow>
   (\<exists>w start. skips (rest l) (w @ rest l') \<and> start = (lex_take ^^ (length (rest l) - length (w @ rest l'))) l \<and>
      token_of w (rest l') (tk_kind tok) (tk_text tok) (tk_integer tok) (tk_boolean tok) \<and>
      tk_line tok = lx_line start \<and> tk_column tok = lx_column start \<and>
      l' = (lex_take ^^ (length (rest l) - length (rest l'))) l)"
  by (rule lexer_next_spec)

section \<open>Consequences\<close>

lemma token_nonempty: "token_of w t k s n b \<Longrightarrow> k \<noteq> TOKEN_EOF \<Longrightarrow> w \<noteq> []"
  by (induction rule: token_of.induct) (auto dest: symbol_starts)

lemma next_progress:
  assumes "lexer_next l = (MAELYS_OK, tok, l')" "tk_kind tok \<noteq> TOKEN_EOF"
  shows "length (rest l') < length (rest l)"
proof -
  have "\<exists>w. skips (rest l) (w @ rest l') \<and> token_of w (rest l') (tk_kind tok) (tk_text tok) (tk_integer tok) (tk_boolean tok)"
    using assms(1) unfolding lexer_next_spec by blast
  then obtain w where "length (w @ rest l') \<le> length (rest l)" "w \<noteq> []" using token_nonempty assms(2) skips_shorter by blast
  then show ?thesis by (cases w) auto
qed

end
