(* ===== verification/Lexer_Props.thy ===== *)
theory Lexer_Props
  imports Lexer_Spec
begin

text \<open>
  What the token grammar gives for whole texts: \<^verbatim>\<open>maelys_datalog_lexer_validate\<close> always returns and accepts exactly the
  texts that are token sequences; tokens stay within their bounds; line and column are those of the source; and
  a printed token list lexes to itself.
\<close>

section \<open>Whole texts\<close>

text \<open>\<open>token_text s ts\<close>: the text \<open>s\<close> is the token sequence \<open>ts\<close> between white space and comments.\<close>

type_synonym content = "token_kind \<times> string \<times> int \<times> int"

definition content :: "token \<Rightarrow> content" where
  "content tok = (tk_kind tok, tk_text tok, tk_integer tok, tk_boolean tok)"

lemma content_simp [simp]:
  "content \<lparr>tk_kind = k, tk_text = x, tk_integer = n, tk_boolean = b, tk_line = i, tk_column = j\<rparr> = (k, x, n, b)"
  by (simp add: content_def)

inductive token_text :: "string \<Rightarrow> content list \<Rightarrow> bool" where
  text_end: "skips s [] \<Longrightarrow> token_text s []"
| text_token: "skips s (w @ t) \<Longrightarrow> token_of w t k x n b \<Longrightarrow> k \<noteq> TOKEN_EOF \<Longrightarrow> token_text t ts \<Longrightarrow>
    token_text s ((k, x, n, b) # ts)"

inductive_cases eofE: "token_of w t TOKEN_EOF x n b"
inductive_cases text_NilE: "token_text s []"
inductive_cases text_ConsE: "token_text s (c # ts)"

lemma eof_empty: "token_of w t TOKEN_EOF x n b \<Longrightarrow> w = [] \<and> t = [] \<and> x = [] \<and> n = 0 \<and> b = 0"
  by (erule eofE) simp_all

lemma next_eof:
  "lexer_next l = (MAELYS_OK, tok, l') \<Longrightarrow> tk_kind tok = TOKEN_EOF \<Longrightarrow> skips (rest l) []"
proof -
  assume "lexer_next l = (MAELYS_OK, tok, l')" "tk_kind tok = TOKEN_EOF"
  then obtain w where "skips (rest l) (w @ rest l')" "token_of w (rest l') TOKEN_EOF (tk_text tok) (tk_integer tok) (tk_boolean tok)"
    unfolding lexer_next_spec by metis
  then show ?thesis using eof_empty by fastforce
qed

text \<open>All tokens of a text: the calls until the end, \<open>None\<close> when one of them fails.\<close>

function lex_all :: "lexer \<Rightarrow> token list option" where
  "lex_all l =
     (case lexer_next l of
        (MAELYS_OK, tok, l') \<Rightarrow> if tk_kind tok = TOKEN_EOF then Some [] else map_option (Cons tok) (lex_all l')
      | _ \<Rightarrow> None)"
  by pat_completeness auto
termination by (relation "measure (\<lambda>l. length (rest l))") (auto dest: next_progress[OF sym])

declare lex_all.simps [simp del]

lemma lex_all_sound: "lex_all l = Some toks \<Longrightarrow> token_text (rest l) (map content toks)"
proof (induction l arbitrary: toks rule: lex_all.induct)
  case (1 l)
  obtain rc tok l' where e: "lexer_next l = (rc, tok, l')" by (metis prod.collapse)
  then have rc: "rc = MAELYS_OK" using "1.prems" by (cases rc) (auto simp: lex_all.simps[of l])
  show ?case
  proof (cases "tk_kind tok = TOKEN_EOF")
    case True
    then show ?thesis using "1.prems" e rc next_eof by (auto simp: lex_all.simps[of l] intro: token_text.text_end)
  next
    case False
    then obtain ts where ts: "lex_all l' = Some ts" "toks = tok # ts" using "1.prems" e rc by (auto simp: lex_all.simps[of l])
    obtain w where "skips (rest l) (w @ rest l')" "token_of w (rest l') (tk_kind tok) (tk_text tok) (tk_integer tok) (tk_boolean tok)"
      using e[unfolded rc lexer_next_spec] by blast
    then show ?thesis using ts False "1.IH"[OF e[symmetric] _ _ _ ts(1)] rc by (auto simp: content_def intro: token_text.text_token)
  qed
qed

lemma lex_all_complete: "token_text s ts \<Longrightarrow> rest l = s \<Longrightarrow> \<exists>toks. lex_all l = Some toks \<and> map content toks = ts"
proof (induction arbitrary: l rule: token_text.induct)
  case (text_end s)
  from skip_then_token[OF _ token_of.eof, of l] text_end show ?case by (simp add: lex_all.simps[of l])
next
  case (text_token s w t k x n b ts)
  let ?l = "(lex_take ^^ (length (rest l) - length t)) l"
  have "skips (rest l) (w @ t)" using text_token by simp
  note nx = skip_then_token[OF this text_token.hyps(2)]
  have "rest ?l = t" using skips_suffix[OF \<open>skips (rest l) (w @ t)\<close>] by fastforce
  then obtain toks where "lex_all ?l = Some toks" "map content toks = ts" using text_token.IH by blast
  then show ?case using nx text_token.hyps(3) by (simp add: lex_all.simps[of l])
qed

lemma validate_tokens_lex:
  "\<exists>rc d. validate_tokens l = Some (rc, d) \<and> (rc = MAELYS_OK \<longleftrightarrow> lex_all l \<noteq> None)"
proof (induction l rule: lex_all.induct)
  case (1 l)
  obtain rc tok l' where e: "lexer_next l = (rc, tok, l')" by (metis prod.collapse)
  show ?case
  proof (cases "rc = MAELYS_OK \<and> tk_kind tok \<noteq> TOKEN_EOF")
    case True
    then have "\<exists>rc d. validate_tokens l' = Some (rc, d) \<and> (rc = MAELYS_OK \<longleftrightarrow> lex_all l' \<noteq> None)" using "1.IH"[OF e[symmetric]] by blast
    then show ?thesis using True e by (auto simp: validate_tokens.simps[of l] lex_all.simps[of l])
  next
    case False
    then show ?thesis using e by (cases rc) (auto simp: validate_tokens.simps[of l] lex_all.simps[of l])
  qed
qed

text \<open>
  \<^verbatim>\<open>maelys_datalog_lexer_validate_ex\<close> returns on every input, whatever its bytes, and it returns \<open>MAELYS_OK\<close> exactly
  for the texts that are valid UTF-8 and a sequence of tokens of the grammar.
\<close>

theorem lexer_validate_returns:
  "\<exists>rc d. lexer_validate_ex src file diag = Some (rc, d) \<and>
     (rc = MAELYS_OK \<longleftrightarrow> utf8_validate src \<and> (\<exists>ts. token_text src ts))"
proof (cases "utf8_validate src")
  case True
  then obtain l where l: "lexer_init_ex src file diag = (MAELYS_OK, map_option (\<lambda>_. diagnostic_clear) diag, Some l)" "rest l = src"
    by (simp add: lexer_init_ex_def rest_def)
  obtain rc d where "validate_tokens l = Some (rc, d)" "rc = MAELYS_OK \<longleftrightarrow> lex_all l \<noteq> None" using validate_tokens_lex by blast
  moreover have "lex_all l \<noteq> None \<longleftrightarrow> (\<exists>ts. token_text src ts)" using lex_all_sound lex_all_complete l(2) by fastforce
  ultimately show ?thesis using True l(1) by (simp add: lexer_validate_ex_def)
next
  case False
  then show ?thesis by (simp add: lexer_validate_ex_def lexer_init_ex_def)
qed

section \<open>Bounds and positions\<close>

text \<open>
  (C38) Every token that a call returns fits its buffer and its value: the text has at most \<^verbatim>\<open>MAELYS_DATALOG_MAX_TOKEN_BYTES\<close>
  bytes, an integer lies between 0 and \<^verbatim>\<open>MAELYS_DATALOG_MAX_INT\<close> and a boolean is 0 or 1; and a call that returns a token
  other than the end of the text has consumed at least one byte.
\<close>

theorem token_bounds:
  assumes "lexer_next l = (MAELYS_OK, tok, l')"
  shows "length (tk_text tok) \<le> MAX_TOKEN_BYTES \<and> 0 \<le> tk_integer tok \<and> tk_integer tok \<le> MAX_INT \<and> tk_boolean tok \<in> {0, 1} \<and>
    (tk_kind tok = TOKEN_EOF \<or> length (rest l') < length (rest l))"
proof -
  obtain w where "token_of w (rest l') (tk_kind tok) (tk_text tok) (tk_integer tok) (tk_boolean tok)"
    using assms[unfolded lexer_next_spec] by blast
  then have "length (tk_text tok) \<le> MAX_TOKEN_BYTES \<and> 0 \<le> tk_integer tok \<and> tk_integer tok \<le> MAX_INT \<and> tk_boolean tok \<in> {0, 1}"
    by (induction rule: token_of.induct) (auto simp: limit_defs decimal_grows)
  then show ?thesis using next_progress[OF assms] by blast
qed

definition line_at :: "string \<Rightarrow> nat \<Rightarrow> nat" where
  "line_at src p = 1 + length (filter (\<lambda>c. c = CHR 0x0A) (take p src))"

definition column_at :: "string \<Rightarrow> nat \<Rightarrow> nat" where
  "column_at src p = 1 + length (takeWhile (\<lambda>c. c \<noteq> CHR 0x0A) (rev (take p src)))"

text \<open>The invariant of the lexer: the index is in the source and line and column are those of the index.\<close>

definition placed :: "lexer \<Rightarrow> bool" where
  "placed l \<longleftrightarrow> lx_pos l \<le> length (lx_src l) \<and> lx_line l = line_at (lx_src l) (lx_pos l) \<and> lx_column l = column_at (lx_src l) (lx_pos l)"

lemma placed_take: "placed l \<Longrightarrow> placed (lex_take l)"
  by (auto simp: placed_def lex_take_def line_at_def column_at_def take_Suc_conv_app_nth)

lemma placed_takes: "placed l \<Longrightarrow> placed ((lex_take ^^ n) l)"
  by (induction n) (simp_all add: placed_take)

lemma pos_rest: "placed l \<Longrightarrow> lx_pos l = length (lx_src l) - length (rest l)"
  by (simp add: placed_def rest_def)


section \<open>Printing and lexing\<close>

datatype printable =
    P_word string | P_variable string | P_text string | P_integer nat | P_boolean bool | P_not | P_anonymous | P_symbol token_kind

fun digits :: "nat \<Rightarrow> string" where
  "digits n = (if n < 10 then [char_of (48 + n)] else digits (n div 10) @ [char_of (48 + n mod 10)])"

declare digits.simps [simp del]

fun print_token :: "printable \<Rightarrow> string" where
  "print_token (P_word w) = w"
| "print_token (P_variable w) = w"
| "print_token (P_text x) = CHR 0x22 # x @ [CHR 0x22]"
| "print_token (P_integer n) = digits n"
| "print_token (P_boolean b) = (if b then ''true'' else ''false'')"
| "print_token P_not = ''not''"
| "print_token P_anonymous = ''_''"
| "print_token (P_symbol k) = (case symbol_token k of Some (w, _) \<Rightarrow> w | None \<Rightarrow> [])"

fun printed_content :: "printable \<Rightarrow> content" where
  "printed_content (P_word w) = (TOKEN_PREDICATE, w, 0, 0)"
| "printed_content (P_variable w) = (TOKEN_VARIABLE, w, 0, 0)"
| "printed_content (P_text x) = (TOKEN_STRING, x, 0, 0)"
| "printed_content (P_integer n) = (TOKEN_INTEGER, digits n, int n, 0)"
| "printed_content (P_boolean b) = (TOKEN_BOOLEAN, if b then ''true'' else ''false'', 0, if b then 1 else 0)"
| "printed_content P_not = (TOKEN_NOT, ''not'', 0, 0)"
| "printed_content P_anonymous = (TOKEN_UNDERSCORE, ''_'', 0, 0)"
| "printed_content (P_symbol k) = (k, [], 0, 0)"

fun well_formed :: "printable \<Rightarrow> bool" where
  "well_formed (P_word w) \<longleftrightarrow> w \<noteq> [] \<and> is_pred_start (hd w) \<and> list_all is_pred_char w \<and> \<not> keyword w \<and> length w \<le> MAX_TOKEN_BYTES"
| "well_formed (P_variable w) \<longleftrightarrow> w \<noteq> [] \<and> is_var_start (hd w) \<and> list_all is_var_char w \<and> \<not> keyword w \<and> length w \<le> MAX_TOKEN_BYTES"
| "well_formed (P_text x) \<longleftrightarrow> utf8_validate x \<and> list_all plain x \<and> length x \<le> MAX_STRING_BYTES"
| "well_formed (P_integer n) \<longleftrightarrow> int n \<le> MAX_INT"
| "well_formed (P_symbol k) \<longleftrightarrow> symbol_token k \<noteq> None"
| "well_formed _ \<longleftrightarrow> True"

definition print_tokens :: "printable list \<Rightarrow> string" where
  "print_tokens ts = concat (map (\<lambda>t. print_token t @ '' '') ts)"

lemma digits_digit: "list_all is_digit (digits n)"
proof (induction n rule: digits.induct)
  case (1 n)
  have "is_digit (char_of (48 + m))" if "m < 10" for m :: nat using that by (simp add: is_digit_def byte_def of_char_of)
  then show ?case using 1 by (simp add: digits.simps[of n])
qed

lemma digits_nonempty: "digits n \<noteq> []"
  by (subst digits.simps) simp

lemma digits_value: "decimal_from 0 (digits n) = int n"
proof (induction n rule: digits.induct)
  case (1 n)
  show ?case
  proof (cases "n < 10")
    case True
    then show ?thesis by (simp add: digits.simps[of n] decimal_from_def byte_def of_char_of)
  next
    case False
    then have "decimal_from 0 (digits n) = int (n div 10) * 10 + int (n mod 10)"
      using 1 by (simp add: digits.simps[of n] decimal_from_def byte_def of_char_of)
    then show ?thesis by (simp only: zdiv_int zmod_int) simp
  qed
qed

lemma digits_length: "n < 10 ^ Suc k \<Longrightarrow> length (digits n) \<le> Suc k"
proof (induction k arbitrary: n)
  case (Suc k)
  then have "n div 10 < 10 ^ Suc k" by (simp add: less_mult_imp_div_less)
  from Suc.IH[OF this] show ?case by (simp add: digits.simps[of n])
qed (simp add: digits.simps)

lemma space_ends: "ends is_pred_char (CHR '' '' # t)" "ends is_var_char (CHR '' '' # t)" "ends is_digit (CHR '' '' # t)"
  "ends (\<lambda>c. isalnum c \<or> c = CHR ''_'') (CHR '' '' # t)" "\<not> fraction_follows (CHR '' '' # t)"
  by (simp_all add: ends_def is_pred_char_def is_var_char_def is_digit_def isalnum_def is_pred_start_def is_var_start_def byte_def fraction_follows_def split: list.split)

lemma symbol_ends: "symbol_token k = Some (w, p) \<Longrightarrow> ends p (CHR '' '' # t)"
  by (cases k; clarsimp; simp add: ends_def is_pred_start_def byte_def)

lemma printed_token:
  assumes "well_formed p" "printed_content p = (k, x, n, b)"
  shows "token_of (print_token p) (CHR '' '' # t) k x n b \<and> k \<noteq> TOKEN_EOF"
proof (cases p)
  case (P_word w)
  then show ?thesis using assms token_of.pred[of "hd w" "tl w" "CHR '' '' # t"] space_ends by (cases w) auto
next
  case (P_variable w)
  then show ?thesis using assms token_of.variable[of "hd w" "tl w" "CHR '' '' # t"] space_ends by (cases w) auto
next
  case (P_text y)
  then show ?thesis using assms token_of.text_literal by auto
next
  case (P_integer m)
  have "length (digits m) \<le> Suc 9" by (rule digits_length) (use assms P_integer in \<open>simp add: limit_defs\<close>)
  then show ?thesis using assms P_integer token_of.integer[OF digits_nonempty digits_digit space_ends(3,5)] by (auto simp: digits_value limit_defs)
next
  case (P_boolean c)
  then show ?thesis using assms token_of.yes token_of.no space_ends by (cases c) auto
next
  case (P_symbol j)
  then obtain w q where "symbol_token j = Some (w, q)" using assms(1) by auto
  then show ?thesis using assms P_symbol token_of.symbol symbol_ends by auto
qed (use assms token_of.negation token_of.anonymous space_ends in auto)

lemma skips_one_space: "skips (CHR '' '' # s) t \<longleftrightarrow> t = CHR '' '' # s \<or> skips s t"
  by (auto simp: is_space_def intro: skips.intros elim: skips.cases)

lemma token_text_space: "token_text s ts \<Longrightarrow> token_text (CHR '' '' # s) ts"
proof (induction rule: token_text.induct)
  case (text_end s)
  then show ?case by (auto intro!: token_text.text_end simp: skips_one_space)
next
  case (text_token s w t k x n b ts)
  then show ?case by (auto intro: token_text.text_token simp: skips_one_space)
qed

lemma printed_text: "list_all well_formed ts \<Longrightarrow> token_text (print_tokens ts) (map printed_content ts)"
proof (induction ts)
  case Nil
  then show ?case by (auto simp: print_tokens_def intro: token_text.text_end skips.skips_refl)
next
  case (Cons p ts)
  obtain k x n b where c: "printed_content p = (k, x, n, b)" by (metis prod_cases4)
  have "token_of (print_token p) (CHR '' '' # print_tokens ts) k x n b" "k \<noteq> TOKEN_EOF" using printed_token[OF _ c] Cons.prems by simp_all
  moreover have "token_text (CHR '' '' # print_tokens ts) (map printed_content ts)" using Cons by (simp add: token_text_space)
  moreover have "print_tokens (p # ts) = print_token p @ CHR '' '' # print_tokens ts" by (simp add: print_tokens_def)
  ultimately show ?case unfolding list.map c by (metis token_text.text_token skips.skips_refl)
qed

text \<open>Printed tokens are valid UTF-8.\<close>

lemma utf8_append: "utf8_validate a \<Longrightarrow> utf8_validate (a @ b) = utf8_validate b"
proof -
  assume "utf8_validate a"
  then obtain cps where "list_all scalar cps" "a = concat (map utf8_encode cps)" using validate_decodes by blast
  then show ?thesis by (induction cps arbitrary: a) (simp_all add: validate_encode)
qed

lemma utf8_ascii: "list_all (\<lambda>c. byte c \<le> 0x7f) s \<Longrightarrow> utf8_validate s"
  by (induction s) simp_all

lemma printed_utf8: "well_formed p \<Longrightarrow> utf8_validate (print_token p)"
proof (cases p)
  case (P_text x)
  assume "well_formed p"
  then have "utf8_validate ([CHR 0x22] @ (x @ [CHR 0x22]))" using P_text by (subst utf8_append) (simp_all add: utf8_append byte_def)
  then show ?thesis using P_text by simp
next
  case (P_symbol k)
  assume "well_formed p"
  then show ?thesis using P_symbol by (intro utf8_ascii) (cases k; simp add: byte_def)
next
  case (P_integer n)
  have "list_all (\<lambda>c. byte c \<le> 0x7f) (digits n)" using digits_digit[of n] by (rule list.pred_mono_strong) (simp add: is_digit_def byte_def)
  then show ?thesis using P_integer by (simp add: utf8_ascii)
next
  case (P_word w)
  assume "well_formed p"
  then have "list_all is_pred_char w" using P_word by simp
  then have "list_all (\<lambda>c. byte c \<le> 0x7f) w" by (rule list.pred_mono_strong) (auto simp: is_pred_char_def is_digit_def byte_def)
  then show ?thesis using P_word by (simp add: utf8_ascii)
next
  case (P_variable w)
  assume "well_formed p"
  then have "list_all is_var_char w" using P_variable by simp
  then have "list_all (\<lambda>c. byte c \<le> 0x7f) w" by (rule list.pred_mono_strong) (auto simp: is_var_char_def is_digit_def byte_def)
  then show ?thesis using P_variable by (simp add: utf8_ascii)
qed (simp_all add: byte_def)

lemma print_tokens_utf8: "list_all well_formed ts \<Longrightarrow> utf8_validate (print_tokens ts)"
  by (induction ts) (simp_all add: print_tokens_def utf8_append printed_utf8 byte_def)

text \<open>
  (C37) Printing and lexing: the text of well-formed tokens, each followed by a space, passes \<^verbatim>\<open>maelys_datalog_lexer_init\<close>
  and lexes to exactly those tokens, with their kinds, texts, integers and booleans.
\<close>

theorem print_lex_round_trip:
  assumes "list_all well_formed ts"
  shows "\<exists>d l. lexer_init_ex (print_tokens ts) file diag = (MAELYS_OK, d, Some l) \<and>
    map_option (map content) (lex_all l) = Some (map printed_content ts)"
proof -
  let ?l = "\<lparr>lx_src = print_tokens ts, lx_pos = 0, lx_line = 1, lx_column = 1, lx_error = MAELYS_OK, lx_file = file,
    lx_diag = map_option (\<lambda>_. diagnostic_clear) diag\<rparr>"
  have "rest ?l = print_tokens ts" by (simp add: rest_def)
  from lex_all_complete[OF printed_text[OF assms] this] obtain toks where "lex_all ?l = Some toks" "map content toks = map printed_content ts"
    by blast
  then show ?thesis using print_tokens_utf8[OF assms] by (simp add: lexer_init_ex_def)
qed

section \<open>Witnesses\<close>

definition sample_lexer :: lexer where
  "sample_lexer = \<lparr>lx_src = ''  p(X, 42).'', lx_pos = 0, lx_line = 1, lx_column = 1, lx_error = MAELYS_OK, lx_file = [], lx_diag = None\<rparr>"

definition sample_after :: lexer where
  "sample_after = sample_lexer\<lparr>lx_pos := 3, lx_column := 4\<rparr>"

definition sample_token :: token where
  "sample_token = \<lparr>tk_kind = TOKEN_PREDICATE, tk_text = ''p'', tk_integer = 0, tk_boolean = 0, tk_line = 1, tk_column = 3\<rparr>"

lemma sample_next: "lexer_next sample_lexer = (MAELYS_OK, sample_token, sample_after)"
  by code_simp

theorem token_bounds_witness:
  "length (tk_text sample_token) \<le> MAX_TOKEN_BYTES \<and> length (rest sample_after) < length (rest sample_lexer)"
  using token_bounds[OF sample_next] by (simp add: sample_token_def)


theorem print_lex_round_trip_witness:
  "\<exists>d l. lexer_init_ex ''p ( X , 42 ) . '' [] None = (MAELYS_OK, d, Some l) \<and>
    map_option (map content) (lex_all l) =
      Some [(TOKEN_PREDICATE, ''p'', 0, 0), (TOKEN_LPAREN, [], 0, 0), (TOKEN_VARIABLE, ''X'', 0, 0), (TOKEN_COMMA, [], 0, 0),
            (TOKEN_INTEGER, ''42'', 42, 0), (TOKEN_RPAREN, [], 0, 0), (TOKEN_DOT, [], 0, 0)]"
proof -
  let ?ts = "[P_word ''p'', P_symbol TOKEN_LPAREN, P_variable ''X'', P_symbol TOKEN_COMMA, P_integer 42, P_symbol TOKEN_RPAREN, P_symbol TOKEN_DOT]"
  have "list_all well_formed ?ts" by code_simp
  moreover have "print_tokens ?ts = ''p ( X , 42 ) . ''" by code_simp
  moreover have "map printed_content ?ts = [(TOKEN_PREDICATE, ''p'', 0, 0), (TOKEN_LPAREN, [], 0, 0), (TOKEN_VARIABLE, ''X'', 0, 0),
    (TOKEN_COMMA, [], 0, 0), (TOKEN_INTEGER, ''42'', 42, 0), (TOKEN_RPAREN, [], 0, 0), (TOKEN_DOT, [], 0, 0)]" by code_simp
  ultimately show ?thesis using print_lex_round_trip[of ?ts "[]" None] by simp
qed

end
