(* ===== verification/Parser.thy ===== *)
theory Parser
  imports Validate Lexer_Spec
begin

unbundle bit_operations_syntax

text \<open>
  The parser of policy texts, \<^verbatim>\<open>src/core/maelys_datalog_parser.c\<close>. The parser, its lexer and the ruleset it fills are
  one state. The diagnostic of the parser and of its lexer are the same object in C; it is the one in the lexer.
  Rules of a clause are staged in the unused part of the rule array and published when the clause is complete: here
  they are a local list. A pointer that asks whether an anonymous variable was met is a second result.

  An operation returns \<open>Inl\<close> an error or \<open>Inr\<close> its result, with the state it leaves behind; \<open>None\<close> stands for a call that
  does not return. Only the loops that no bound of the code limits have a fuel argument, and it is chosen from the
  length of the source; that it suffices is proved.
\<close>

section \<open>State\<close>

definition MAX_ARITH_EXPR_DEPTH :: nat where "MAX_ARITH_EXPR_DEPTH = 8"
definition RULE_VARIABLE_NAME_POOL_BYTES :: nat where "RULE_VARIABLE_NAME_POOL_BYTES = 8192"

record parser =
  ps_lexer :: lexer
  ps_tok :: token
  ps_ruleset :: ruleset
  ps_file :: string
  ps_anonymous_var_count :: nat
  ps_named_slots :: "32 word"
  ps_variables :: "(string \<times> nat) list"
  ps_allow_undeclared :: bool
  ps_origin :: "parse_origin option"

datatype term_parse_context = TERM_CTX_HEAD_CANDIDATE | TERM_CTX_BODY_ATOM | TERM_CTX_COMPARISON

definition ANONYMOUS_CANDIDATE_VAR :: nat where "ANONYMOUS_CANDIDATE_VAR = MAX_RULE_VARIABLES"

type_synonym 'a parse = "parser \<Rightarrow> ((maelys_result + 'a) \<times> parser) option"

definition ret :: "'a \<Rightarrow> 'a parse" where
  "ret x = (\<lambda>p. Some (Inr x, p))"

definition fail :: "maelys_result \<Rightarrow> 'a parse" where
  "fail rc = (\<lambda>p. Some (Inl rc, p))"

definition pbind :: "'a parse \<Rightarrow> ('a \<Rightarrow> 'b parse) \<Rightarrow> 'b parse" where
  "pbind m f = (\<lambda>p. case m p of
     None \<Rightarrow> None
   | Some (Inl rc, p') \<Rightarrow> Some (Inl rc, p')
   | Some (Inr x, p') \<Rightarrow> f x p')"

definition modify :: "(parser \<Rightarrow> parser) \<Rightarrow> unit parse" where
  "modify f = (\<lambda>p. Some (Inr (), f p))"

text \<open>Continue with a function of the current state, and the common shape of it, on the current token.\<close>

definition with_state :: "(parser \<Rightarrow> 'a parse) \<Rightarrow> 'a parse" where
  "with_state f = (\<lambda>p. f p p)"

abbreviation kind_of :: "parser \<Rightarrow> token_kind" where
  "kind_of p \<equiv> tk_kind (ps_tok p)"

abbreviation text_of :: "parser \<Rightarrow> string" where
  "text_of p \<equiv> tk_text (ps_tok p)"

section \<open>Tokens and diagnostics\<close>

definition next_token :: "unit parse" where
  "next_token = (\<lambda>p. case lexer_next (ps_lexer p) of
     (rc, tok, l) \<Rightarrow> Some (if rc = MAELYS_OK then Inr () else Inl rc, p\<lparr>ps_lexer := l, ps_tok := tok\<rparr>))"

definition on_diag :: "(diagnostic \<Rightarrow> diagnostic) \<Rightarrow> parser \<Rightarrow> parser" where
  "on_diag f p = p\<lparr>ps_lexer := (ps_lexer p)\<lparr>lx_diag := map_option f (lx_diag (ps_lexer p))\<rparr>\<rparr>"

definition parser_diag :: "diag_code \<Rightarrow> string \<Rightarrow> string \<Rightarrow> parser \<Rightarrow> parser" where
  "parser_diag code message hint p =
     on_diag (\<lambda>_.
       let d = diagnostic_set code ''parser'' (ps_file p) (tk_line (ps_tok p)) (tk_column (ps_tok p)) message hint
       in if c_string (text_of p) \<noteq> [] then d\<lparr>dg_token := copy_bounded 96 (c_string (text_of p))\<rparr> else d) p"

text \<open>A refusal: the diagnostic, what is added to it, and the code.\<close>

definition refuse :: "diag_code \<Rightarrow> string \<Rightarrow> string \<Rightarrow> (diagnostic \<Rightarrow> diagnostic) \<Rightarrow> maelys_result \<Rightarrow> 'a parse" where
  "refuse code message hint extra rc = (\<lambda>p. Some (Inl rc, on_diag extra (parser_diag code message hint p)))"

definition invalid :: "diag_code \<Rightarrow> string \<Rightarrow> string \<Rightarrow> 'a parse" where
  "invalid code message hint = refuse code message hint id MAELYS_ERR_INVALID_FIELD"

definition expect :: "token_kind \<Rightarrow> diag_code \<Rightarrow> string \<Rightarrow> string \<Rightarrow> (diagnostic \<Rightarrow> diagnostic) \<Rightarrow> unit parse" where
  "expect k code message hint extra =
     with_state (\<lambda>p. if kind_of p \<noteq> k then refuse code message hint extra MAELYS_ERR_INVALID_FIELD else next_token)"

section \<open>Variables\<close>

lemma next_shrinks: "lexer_next l = (MAELYS_OK, tok, l') \<Longrightarrow> length (rest l') \<le> length (rest l)"
proof -
  assume "lexer_next l = (MAELYS_OK, tok, l')"
  then obtain w where "skips (rest l) (w @ rest l')" unfolding lexer_next_spec by blast
  from skips_shorter[OF this] show ?thesis by simp
qed

text \<open>The probe of \<^verbatim>\<open>reserve_letter_variables\<close>: a copy of the lexer without its diagnostic runs to the end of the clause.\<close>

function reserve_loop :: "lexer \<Rightarrow> token \<Rightarrow> string list \<Rightarrow> 32 word \<Rightarrow> 32 word" where
  "reserve_loop lx tok names slots =
     (if tk_kind tok = TOKEN_DOT \<or> tk_kind tok = TOKEN_EOF then slots
      else if tk_kind tok = TOKEN_VARIABLE \<and> tk_text tok \<notin> set names \<and> length names = NAMED_VARIABLE_COUNT then slots
      else
        let names = (if tk_kind tok = TOKEN_VARIABLE \<and> tk_text tok \<notin> set names then names @ [tk_text tok] else names);
            slots = (if tk_kind tok = TOKEN_VARIABLE \<and> length (tk_text tok) = 1
                     then slots OR push_bit (byte (hd (tk_text tok)) - byte CHR ''A'') 1 else slots)
        in case lexer_next lx of
             (MAELYS_OK, tok', lx') \<Rightarrow> reserve_loop lx' tok' names slots
           | _ \<Rightarrow> slots)"
  by pat_completeness auto
termination
proof (relation "measure (\<lambda>(lx, tok, names, slots). length (rest lx) + (if tk_kind tok = TOKEN_EOF then 0 else 1))", goal_cases)
  case (2 lx tok names slots names' slots' rc q tok' lx')
  then have n: "lexer_next lx = (MAELYS_OK, tok', lx')" by auto
  show ?case using next_progress[OF n] next_shrinks[OF n] 2(1) by (auto simp: less_Suc_eq_le)
qed simp

declare reserve_loop.simps [simp del]

definition reserve_letter_variables :: "unit parse" where
  "reserve_letter_variables =
     modify (\<lambda>p. p\<lparr>ps_named_slots := reserve_loop ((ps_lexer p)\<lparr>lx_diag := None\<rparr>) (ps_tok p) [] 0, ps_variables := []\<rparr>)"

definition lowest_free_slot :: "32 word \<Rightarrow> nat" where
  "lowest_free_slot slots =
     (case find (\<lambda>s. \<not> bit slots s) [0..<NAMED_VARIABLE_COUNT] of Some s \<Rightarrow> s | None \<Rightarrow> NAMED_VARIABLE_COUNT)"

definition named_variable :: "nat parse" where
  "named_variable = with_state (\<lambda>p.
     case map_of (ps_variables p) (text_of p) of
       Some slot \<Rightarrow> ret slot
     | None \<Rightarrow>
         let slot = (if length (text_of p) = 1 then byte (hd (text_of p)) - byte CHR ''A''
                     else lowest_free_slot (ps_named_slots p))
         in if length (ps_variables p) = NAMED_VARIABLE_COUNT \<or> slot = NAMED_VARIABLE_COUNT
            then refuse DIAG_PARSER_TOO_MANY_VARIABLES ''rule named variable limit exceeded''
                   ''use at most 26 distinct named variables per rule''
                   (diagnostic_set_limit LIMIT_MAX_RULE_VARIABLES 27 NAMED_VARIABLE_COUNT) MAELYS_ERR_PAYLOAD_TOO_LARGE
            else pbind (modify (\<lambda>p. p\<lparr>ps_variables := ps_variables p @ [(text_of p, slot)],
                                      ps_named_slots := ps_named_slots p OR push_bit slot 1\<rparr>)) (\<lambda>_. ret slot))"

definition predicate_name_exists :: "predicate_registry \<Rightarrow> string \<Rightarrow> bool" where
  "predicate_name_exists reg name \<longleftrightarrow> list_ex (\<lambda>d. pred_name d = name) (defs reg)"

fun token_is_cmp :: "token_kind \<Rightarrow> bool" where
  "token_is_cmp k \<longleftrightarrow> k = TOKEN_EQ \<or> k = TOKEN_NEQ \<or> k = TOKEN_LT \<or> k = TOKEN_LTE \<or> k = TOKEN_GT \<or> k = TOKEN_GTE"

definition token_is_contextual_or :: "token \<Rightarrow> bool" where
  "token_is_contextual_or tok \<longleftrightarrow> tk_kind tok = TOKEN_PREDICATE \<and> tk_text tok = ''or''"

definition allocate_anonymous_variable :: "term parse" where
  "allocate_anonymous_variable = with_state (\<lambda>p.
     let vid = NAMED_VARIABLE_COUNT + ps_anonymous_var_count p
     in if vid \<ge> MAX_RULE_VARIABLES
        then refuse DIAG_PARSER_TOO_MANY_VARIABLES ''rule variable limit exceeded''
               ''reduce anonymous variables or split the rule''
               (diagnostic_set_limit LIMIT_MAX_RULE_VARIABLES (vid + 1) MAX_RULE_VARIABLES) MAELYS_ERR_PAYLOAD_TOO_LARGE
        else pbind (modify (\<lambda>p. p\<lparr>ps_anonymous_var_count := ps_anonymous_var_count p + 1\<rparr>)) (\<lambda>_.
             pbind next_token (\<lambda>_. ret (TERM_VAR vid))))"

section \<open>Terms and atoms\<close>

text \<open>
  The check of a constant takes the token's buffer as a C string for the vocabulary and with its length elsewhere.
\<close>

definition validate_policy_symbol_constant :: "unit parse" where
  "validate_policy_symbol_constant = with_state (\<lambda>p.
     let declared = predicate_registry_atom_allowed (rs_registry (ps_ruleset p)) (c_string (text_of p));
         n = length (text_of p)
     in if \<not> declared \<and> \<not> ps_allow_undeclared p
        then invalid DIAG_PARSER_UNKNOWN_ATOM ''unknown atom'' ''register the atom in the domain registry''
        else if \<not> declared \<and> n > NAME_BYTES - 1
        then refuse DIAG_LEXER_STRING_TOO_LONG ''policy atom exceeds capacity'' ''limit policy atoms to 63 UTF-8 bytes''
               (diagnostic_set_limit LIMIT_MAX_POLICY_ATOM_BYTES n (NAME_BYTES - 1)) MAELYS_ERR_PAYLOAD_TOO_LARGE
        else case symbol_lookup_readonly (rs_symbols (ps_ruleset p)) (text_of p) of
          (rc, _, found) \<Rightarrow>
            if rc \<noteq> MAELYS_OK then fail rc
            else if \<not> found \<and> length (entries (rs_symbols (ps_ruleset p))) \<ge> MAX_ATOMS
            then refuse DIAG_LEXER_STRING_TOO_LONG ''policy atom count exceeds capacity''
                   ''limit each ruleset to 256 distinct policy atoms''
                   (diagnostic_set_limit LIMIT_MAX_POLICY_ATOMS (length (entries (rs_symbols (ps_ruleset p))) + 1) MAX_ATOMS)
                   MAELYS_ERR_PAYLOAD_TOO_LARGE
            else ret ())"

definition on_ruleset :: "(ruleset \<Rightarrow> ruleset) \<Rightarrow> parser \<Rightarrow> parser" where
  "on_ruleset f p = p\<lparr>ps_ruleset := f (ps_ruleset p)\<rparr>"

definition intern_text :: "string \<Rightarrow> term parse" where
  "intern_text x = with_state (\<lambda>p.
     case symbol_intern (rs_symbols (ps_ruleset p)) x of
       (MAELYS_OK, tab, Some sid) \<Rightarrow>
         pbind (modify (on_ruleset (\<lambda>r. r\<lparr>rs_symbols := tab\<rparr>))) (\<lambda>_. ret (TERM_SYMBOL sid))
     | (rc, _, _) \<Rightarrow> fail rc)"

definition intern_policy_symbol_constant :: "term parse" where
  "intern_policy_symbol_constant =
     pbind validate_policy_symbol_constant (\<lambda>_. with_state (\<lambda>p. intern_text (text_of p)))"

definition parse_term :: "term_parse_context \<Rightarrow> (term \<times> bool) parse" where
  "parse_term ctx = with_state (\<lambda>p.
     case kind_of p of
       TOKEN_VARIABLE \<Rightarrow> pbind named_variable (\<lambda>v. pbind next_token (\<lambda>_. ret (TERM_VAR v, False)))
     | TOKEN_UNDERSCORE \<Rightarrow>
         (case ctx of
            TERM_CTX_HEAD_CANDIDATE \<Rightarrow> pbind next_token (\<lambda>_. ret (TERM_VAR ANONYMOUS_CANDIDATE_VAR, True))
          | TERM_CTX_BODY_ATOM \<Rightarrow> pbind allocate_anonymous_variable (\<lambda>t. ret (t, True))
          | TERM_CTX_COMPARISON \<Rightarrow>
              invalid DIAG_PARSER_ANONYMOUS_VARIABLE_IN_COMPARISON ''anonymous variable is not allowed in comparisons''
                ''use a named variable bound by a positive body atom'')
     | TOKEN_STRING \<Rightarrow> pbind intern_policy_symbol_constant (\<lambda>t. pbind next_token (\<lambda>_. ret (t, False)))
     | TOKEN_INTEGER \<Rightarrow> pbind next_token (\<lambda>_. ret (TERM_INT (tk_integer (ps_tok p)), False))
     | TOKEN_BOOLEAN \<Rightarrow> pbind next_token (\<lambda>_. ret (TERM_BOOL (tk_boolean (ps_tok p)), False))
     | _ \<Rightarrow> invalid DIAG_LEXER_INVALID_TOKEN ''expected term'' ''use a variable, string atom, integer, or boolean term'')"

text \<open>The loop over the arguments, with the room that is left in the term array.\<close>

fun parse_terms :: "string \<Rightarrow> term_parse_context \<Rightarrow> nat \<Rightarrow> term list \<Rightarrow> bool \<Rightarrow> (term list \<times> bool) parse" where
  "parse_terms pred ctx 0 ts anon =
     refuse DIAG_PARSER_ARITY_MISMATCH ''predicate arity exceeds maximum''
       ''reduce predicate arity or update the accepted predicate declaration''
       (\<lambda>d. diagnostic_set_limit LIMIT_MAX_ARITY (length ts + 1) MAX_TERMS (diagnostic_set_predicate pred (length ts + 1) d))
       MAELYS_ERR_PAYLOAD_TOO_LARGE"
| "parse_terms pred ctx (Suc room) ts anon =
     pbind (parse_term ctx) (\<lambda>(t, a). with_state (\<lambda>p.
       if kind_of p = TOKEN_COMMA then pbind next_token (\<lambda>_. parse_terms pred ctx room (ts @ [t]) (anon \<or> a))
       else ret (ts @ [t], anon \<or> a)))"

definition unknown_predicate :: "string \<Rightarrow> nat \<Rightarrow> nat \<Rightarrow> nat \<Rightarrow> 'a parse" where
  "unknown_predicate pred ar line column = (\<lambda>p.
     let known = predicate_name_exists (rs_registry (ps_ruleset p)) pred
     in Some (Inl MAELYS_ERR_INVALID_FIELD, on_diag (\<lambda>_. diagnostic_set_predicate pred ar
          (diagnostic_set (if known then DIAG_PARSER_ARITY_MISMATCH else DIAG_PARSER_UNKNOWN_PREDICATE) ''parser'' (ps_file p)
             line column (if known then ''predicate arity mismatch'' else ''unknown predicate'')
             (if known then ''check registry or manifest arity'' else ''declare predicate in the domain registry''))) p))"

definition parse_atom :: "term_parse_context \<Rightarrow> (fact \<times> bool) parse" where
  "parse_atom ctx = with_state (\<lambda>p0.
     let pred = text_of p0; line = tk_line (ps_tok p0); column = tk_column (ps_tok p0)
     in if kind_of p0 \<noteq> TOKEN_PREDICATE
        then invalid DIAG_PARSER_EXPECTED_PREDICATE ''expected predicate'' ''start facts and rule heads with a declared predicate''
        else if length pred \<ge> 64
        then invalid DIAG_PARSER_UNKNOWN_PREDICATE ''predicate name too long''
               ''predicate names must be shorter than 64 characters''
        else
          pbind next_token (\<lambda>_.
          pbind (expect TOKEN_LPAREN DIAG_LEXER_INVALID_TOKEN ''expected predicate argument list''
                   ''add parentheses after the predicate name'' (diagnostic_set_predicate pred 0)) (\<lambda>_.
          pbind (with_state (\<lambda>p. if kind_of p \<noteq> TOKEN_RPAREN then parse_terms pred ctx MAX_TERMS [] False else ret ([], False))) (\<lambda>(ts, anon).
          with_state (\<lambda>p.
            if kind_of p \<noteq> TOKEN_RPAREN
            then refuse DIAG_LEXER_INVALID_TOKEN ''expected closing parenthesis'' ''close the predicate argument list''
                   (diagnostic_set_predicate pred (length ts)) MAELYS_ERR_INVALID_FIELD
            else case predicate_registry_find (rs_registry (ps_ruleset p)) pred (length ts) of
              None \<Rightarrow> unknown_predicate pred (length ts) line column
            | Some pid \<Rightarrow> pbind next_token (\<lambda>_. ret (Fact pid ts, anon)))))))"

section \<open>Arithmetic expressions\<close>

fun cmp_kind :: "token_kind \<Rightarrow> cmp_op" where
  "cmp_kind TOKEN_EQ = CMP_EQ"
| "cmp_kind TOKEN_NEQ = CMP_NEQ"
| "cmp_kind TOKEN_LT = CMP_LT"
| "cmp_kind TOKEN_LTE = CMP_LTE"
| "cmp_kind TOKEN_GT = CMP_GT"
| "cmp_kind TOKEN_GTE = CMP_GTE"
| "cmp_kind _ = CMP_OTHER 0"

definition token_starts_comparison_operand :: "token_kind \<Rightarrow> bool" where
  "token_starts_comparison_operand k \<longleftrightarrow>
     k = TOKEN_VARIABLE \<or> k = TOKEN_STRING \<or> k = TOKEN_INTEGER \<or> k = TOKEN_BOOLEAN \<or> k = TOKEN_UNDERSCORE \<or> k = TOKEN_LPAREN"

record arith_operand =
  ao_root :: nat
  ao_term :: "term"
  ao_has_simple_term :: bool
  ao_is_composite :: bool

text \<open>The node array of the rule under construction is threaded through the functions; a result is a root in it.\<close>

definition arith_expr_add_node ::
  "arith_expr_node list \<Rightarrow> arith_kind \<Rightarrow> term \<Rightarrow> nat \<Rightarrow> nat \<Rightarrow> (nat \<times> arith_expr_node list) parse" where
  "arith_expr_add_node nodes k t left right =
     (if length nodes \<ge> MAX_ARITH_EXPR_NODES
      then refuse DIAG_PARSER_INVALID_COMPARISON ''arithmetic expression node limit exceeded''
             ''simplify the arithmetic expression''
             (diagnostic_set_limit LIMIT_MAX_ARITH_EXPR_NODES (length nodes + 1) MAX_ARITH_EXPR_NODES) MAELYS_ERR_PAYLOAD_TOO_LARGE
      else ret (length nodes, nodes @ [\<lparr>node_kind = k, node_left = left, node_right = right, node_term = t\<rparr>]))"

type_synonym arith_result = "(nat \<times> bool \<times> arith_expr_node list) parse"

definition arith_too_deep :: "nat \<Rightarrow> 'a parse" where
  "arith_too_deep depth = refuse DIAG_PARSER_INVALID_COMPARISON ''arithmetic expression depth limit exceeded''
     ''reduce parentheses or split the expression''
     (diagnostic_set_limit LIMIT_MAX_ARITH_EXPR_DEPTH depth MAX_ARITH_EXPR_DEPTH) MAELYS_ERR_PAYLOAD_TOO_LARGE"

definition arith_anonymous :: "'a parse" where
  "arith_anonymous = invalid DIAG_PARSER_ANONYMOUS_VARIABLE_IN_COMPARISON
     ''anonymous variable is not allowed in arithmetic expressions'' ''use a named variable bound by a positive body atom''"

definition arith_expected :: "'a parse" where
  "arith_expected = invalid DIAG_PARSER_INVALID_COMPARISON ''expected integer arithmetic expression''
     ''use integer literals, variables, +, -, *, and parentheses''"

definition arith_close :: "unit parse" where
  "arith_close = expect TOKEN_RPAREN DIAG_LEXER_INVALID_TOKEN
     (''expected '' @ [CHR 0x27] @ '')'' @ [CHR 0x27] @ '' in arithmetic expression'')
     ''close the parenthesized arithmetic expression'' id"

definition arith_leaf :: "arith_expr_node list \<Rightarrow> arith_result" where
  "arith_leaf nodes =
     pbind (parse_term TERM_CTX_COMPARISON) (\<lambda>(t, _).
     pbind (arith_expr_add_node nodes (case t of TERM_INT _ \<Rightarrow> ARITH_INT_LITERAL | _ \<Rightarrow> ARITH_VAR) t ARITH_EXPR_NO_NODE ARITH_EXPR_NO_NODE)
       (\<lambda>(root, nodes). ret (root, False, nodes)))"

function parse_arith_sum :: "nat \<Rightarrow> nat \<Rightarrow> arith_expr_node list \<Rightarrow> arith_result"
and sum_loop :: "nat \<Rightarrow> nat \<Rightarrow> nat \<Rightarrow> bool \<Rightarrow> arith_expr_node list \<Rightarrow> arith_result"
and parse_arith_product :: "nat \<Rightarrow> nat \<Rightarrow> arith_expr_node list \<Rightarrow> arith_result"
and product_loop :: "nat \<Rightarrow> nat \<Rightarrow> nat \<Rightarrow> bool \<Rightarrow> arith_expr_node list \<Rightarrow> arith_result"
and parse_arith_atom :: "nat \<Rightarrow> nat \<Rightarrow> arith_expr_node list \<Rightarrow> arith_result" where
  "parse_arith_sum fuel depth nodes =
     (if fuel = 0 then (\<lambda>p. None)
      else pbind (parse_arith_product (fuel - 1) depth nodes) (\<lambda>(root, composite, nodes).
        sum_loop (fuel - 1) depth root composite nodes))"
| "sum_loop fuel depth root composite nodes =
     (if fuel = 0 then (\<lambda>p. None)
      else with_state (\<lambda>p.
        if kind_of p = TOKEN_PLUS \<or> kind_of p = TOKEN_MINUS then
          pbind next_token (\<lambda>_.
          pbind (parse_arith_product (fuel - 1) depth nodes) (\<lambda>(rhs, _, nodes).
          pbind (arith_expr_add_node nodes (if kind_of p = TOKEN_PLUS then ARITH_ADD else ARITH_SUB) (TERM_NOKIND 0) root rhs)
            (\<lambda>(root, nodes). sum_loop (fuel - 1) depth root True nodes)))
        else ret (root, composite, nodes)))"
| "parse_arith_product fuel depth nodes =
     (if fuel = 0 then (\<lambda>p. None)
      else pbind (parse_arith_atom (fuel - 1) depth nodes) (\<lambda>(root, composite, nodes).
        product_loop (fuel - 1) depth root composite nodes))"
| "product_loop fuel depth root composite nodes =
     (if fuel = 0 then (\<lambda>p. None)
      else with_state (\<lambda>p.
        if kind_of p = TOKEN_STAR then
          pbind next_token (\<lambda>_.
          pbind (parse_arith_atom (fuel - 1) depth nodes) (\<lambda>(rhs, _, nodes).
          pbind (arith_expr_add_node nodes ARITH_MUL (TERM_NOKIND 0) root rhs)
            (\<lambda>(root, nodes). product_loop (fuel - 1) depth root True nodes)))
        else ret (root, composite, nodes)))"
| "parse_arith_atom fuel depth nodes =
     (if fuel = 0 then (\<lambda>p. None)
      else with_state (\<lambda>p.
        if depth > MAX_ARITH_EXPR_DEPTH then arith_too_deep depth
        else if kind_of p = TOKEN_INTEGER \<or> kind_of p = TOKEN_VARIABLE then arith_leaf nodes
        else if kind_of p = TOKEN_UNDERSCORE then arith_anonymous
        else if kind_of p = TOKEN_LPAREN then
          pbind next_token (\<lambda>_.
          pbind (parse_arith_sum (fuel - 1) (depth + 1) nodes) (\<lambda>(root, _, nodes).
          pbind arith_close (\<lambda>_. ret (root, True, nodes))))
        else arith_expected))"
  by pat_completeness auto
termination
  by (relation "measure (\<lambda>x. case x of Inl (Inl (fuel, _)) \<Rightarrow> fuel | Inl (Inr (fuel, _)) \<Rightarrow> fuel
      | Inr (Inl (fuel, _)) \<Rightarrow> fuel | Inr (Inr (Inl (fuel, _))) \<Rightarrow> fuel | Inr (Inr (Inr (fuel, _))) \<Rightarrow> fuel)") simp_all

declare parse_arith_sum.simps [simp del] sum_loop.simps [simp del] parse_arith_product.simps [simp del]
  product_loop.simps [simp del] parse_arith_atom.simps [simp del]

text \<open>
  Fuel for an expression that starts at the current token: three calls for every byte of the source and the end.
\<close>

definition arith_fuel :: "parser \<Rightarrow> nat" where
  "arith_fuel p = 3 * (length (lx_src (ps_lexer p)) + 2)"

definition parse_comparison_operand :: "arith_expr_node list \<Rightarrow> (arith_operand \<times> arith_expr_node list) parse" where
  "parse_comparison_operand nodes = with_state (\<lambda>p.
     if kind_of p = TOKEN_VARIABLE \<or> kind_of p = TOKEN_INTEGER \<or> kind_of p = TOKEN_LPAREN then
       pbind (parse_arith_sum (arith_fuel p) 1 nodes) (\<lambda>(root, composite, nodes).
         let node = nodes ! root;
             simple = (\<not> composite \<and> (node_kind node = ARITH_INT_LITERAL \<or> node_kind node = ARITH_VAR))
         in ret (\<lparr>ao_root = root, ao_term = (if simple then node_term node else TERM_NOKIND 0),
                  ao_has_simple_term = simple, ao_is_composite = composite\<rparr>, nodes))
     else
       pbind (parse_term TERM_CTX_COMPARISON) (\<lambda>(t, _).
         ret (\<lparr>ao_root = ARITH_EXPR_NO_NODE, ao_term = t, ao_has_simple_term = True, ao_is_composite = False\<rparr>, nodes)))"

section \<open>Filters and aggregates\<close>

text \<open>The kind of a filter is its position in the catalog, counted from one.\<close>

definition filter_by_name_in :: "filter_module list \<Rightarrow> string \<Rightarrow> nat option" where
  "filter_by_name_in catalog name = map_option Suc (find (\<lambda>i. fm_name (catalog ! i) = name) [0..<length catalog])"

text \<open>The checks on the pattern, which is the current token.\<close>

definition check_filter_pattern :: "unit parse" where
  "check_filter_pattern = with_state (\<lambda>p.
     let n = length (text_of p); r = ps_ruleset p
     in if kind_of p \<noteq> TOKEN_STRING
        then invalid DIAG_PARSER_INVALID_FILTER ''filter pattern must be a string constant'' ''write the pattern as a quoted constant''
        else if n > MAX_FILTER_PATTERN_BYTES
        then refuse DIAG_PARSER_INVALID_FILTER ''filter pattern exceeds capacity'' ''shorten the constant pattern''
               (diagnostic_set_limit LIMIT_MAX_FILTER_PATTERN_BYTES n MAX_FILTER_PATTERN_BYTES) MAELYS_ERR_PAYLOAD_TOO_LARGE
        else if length (rs_filter_programs r) \<ge> MAX_FILTER_PROGRAMS
        then refuse DIAG_PARSER_INVALID_FILTER ''filter program capacity exceeded'' ''reduce the number of filter literals''
               (diagnostic_set_limit LIMIT_MAX_FILTER_PROGRAMS (length (rs_filter_programs r) + 1) MAX_FILTER_PROGRAMS)
               MAELYS_ERR_PAYLOAD_TOO_LARGE
        else if n > FILTER_PATTERN_POOL_BYTES - length (rs_filter_pattern_pool r)
        then refuse DIAG_PARSER_INVALID_FILTER ''filter pattern pool capacity exceeded'' ''reduce the total pattern bytes''
               (diagnostic_set_limit LIMIT_FILTER_PATTERN_POOL_BYTES (length (rs_filter_pattern_pool r) + n) FILTER_PATTERN_POOL_BYTES)
               MAELYS_ERR_PAYLOAD_TOO_LARGE
        else ret ())"

definition add_filter_program :: "nat \<Rightarrow> string \<Rightarrow> ruleset \<Rightarrow> ruleset" where
  "add_filter_program k pattern r =
     r\<lparr>rs_filter_programs := rs_filter_programs r @
         [\<lparr>pattern_offset = length (rs_filter_pattern_pool r), pattern_length = length pattern, program_kind = k mod 256\<rparr>],
       rs_filter_pattern_pool := rs_filter_pattern_pool r @ pattern\<rparr>"

definition filter_arity_mismatch :: "token_kind \<Rightarrow> unit parse" where
  "filter_arity_mismatch k =
     expect k DIAG_PARSER_ARITY_MISMATCH ''filter arity mismatch'' ''filters require exactly a value and a constant pattern'' id"

definition parse_filter_literal :: "nat \<Rightarrow> literal parse" where
  "parse_filter_literal k =
     pbind next_token (\<lambda>_.
     pbind (expect TOKEN_LPAREN DIAG_PARSER_INVALID_FILTER ''expected filter argument list''
              ([CHR ''u'', CHR ''s'', CHR ''e'', CHR '' ''] @ ''filter(Value, '' @ [CHR 0x22] @ ''constant pattern'' @ [CHR 0x22] @ '')'') id) (\<lambda>_.
     with_state (\<lambda>pv.
     pbind (if kind_of pv = TOKEN_VARIABLE then pbind named_variable (\<lambda>v. ret (TERM_VAR v))
            else if kind_of pv = TOKEN_STRING then pbind validate_policy_symbol_constant (\<lambda>_. ret (TERM_NOKIND 0))
            else invalid DIAG_PARSER_INVALID_FILTER ''filter value must be symbolic''
                   ''bind a symbol variable in a positive atom or use an allowed symbol'') (\<lambda>v.
     pbind next_token (\<lambda>_.
     pbind (filter_arity_mismatch TOKEN_COMMA) (\<lambda>_.
     pbind check_filter_pattern (\<lambda>_.
     with_state (\<lambda>pp.
     pbind next_token (\<lambda>_.
     pbind (filter_arity_mismatch TOKEN_RPAREN) (\<lambda>_.
     pbind (if kind_of pv = TOKEN_STRING then intern_text (text_of pv) else ret v) (\<lambda>v.
     with_state (\<lambda>p.
     pbind (modify (on_ruleset (add_filter_program k (text_of pp)))) (\<lambda>_.
       ret (LIT_FILTER (k mod 256) (length (rs_filter_programs (ps_ruleset p))) v))))))))))))))"

fun lookahead :: "lexer \<Rightarrow> token_kind list \<Rightarrow> bool" where
  "lookahead l [] = True"
| "lookahead l (k # ks) = (case lexer_next l of (rc, tok, l') \<Rightarrow> rc = MAELYS_OK \<and> tk_kind tok = k \<and> lookahead l' ks)"

definition token_starts_aggregate :: "parser \<Rightarrow> agg_kind option" where
  "token_starts_aggregate p =
     (let k = (if text_of p = ''count'' then Some AGG_COUNT
               else if text_of p = ''min'' then Some AGG_MIN
               else if text_of p = ''max'' then Some AGG_MAX
               else if text_of p = ''sum'' then Some AGG_SUM
               else None)
      in if k \<noteq> None \<and> lookahead ((ps_lexer p)\<lparr>lx_diag := None\<rparr>)
              [TOKEN_LPAREN, TOKEN_VARIABLE, TOKEN_COMMA, TOKEN_PREDICATE, TOKEN_LPAREN]
         then k else None)"

definition aggregate_syntax :: "'a parse" where
  "aggregate_syntax = invalid DIAG_LEXER_INVALID_TOKEN ''invalid aggregate literal''
     ''use count/min/max/sum(Variable, predicate(...), ResultVariable)''"

definition parse_aggregate_literal :: "agg_kind \<Rightarrow> literal parse" where
  "parse_aggregate_literal k =
     pbind next_token (\<lambda>_.
     pbind next_token (\<lambda>_.
     pbind (parse_term TERM_CTX_COMPARISON) (\<lambda>(lhs, _).
     pbind next_token (\<lambda>_.
     pbind (parse_atom TERM_CTX_BODY_ATOM) (\<lambda>(atom, _).
     with_state (\<lambda>p. if kind_of p \<noteq> TOKEN_COMMA then aggregate_syntax else
     pbind next_token (\<lambda>_.
     with_state (\<lambda>p. if kind_of p \<noteq> TOKEN_VARIABLE then aggregate_syntax else
     pbind (parse_term TERM_CTX_COMPARISON) (\<lambda>(rhs, _).
     with_state (\<lambda>p. if kind_of p \<noteq> TOKEN_RPAREN then aggregate_syntax else
     pbind next_token (\<lambda>_. ret (LIT_AGGREGATE k atom lhs rhs))))))))))))"

section \<open>Literals\<close>

definition quoted :: "string \<Rightarrow> string" where
  "quoted s = [CHR 0x27] @ s @ [CHR 0x27]"

definition parse_negated_literal :: "literal parse" where
  "parse_negated_literal =
     pbind next_token (\<lambda>_.
     pbind (expect TOKEN_LPAREN DIAG_LEXER_INVALID_TOKEN (''expected '' @ quoted ''('' @ '' after not'') ''use not(predicate(X)) syntax'' id) (\<lambda>_.
     pbind (parse_atom TERM_CTX_BODY_ATOM) (\<lambda>(atom, anon).
       if anon
       then invalid DIAG_PARSER_ANONYMOUS_VARIABLE_IN_COMPARISON ''anonymous variable not allowed in not()''
              ''bind variables via positive atoms before using not()''
       else
         pbind (expect TOKEN_RPAREN DIAG_LEXER_INVALID_TOKEN (''expected '' @ quoted '')'' @ '' to close not()'')
                  ''close the not() form with a parenthesis'' id) (\<lambda>_.
         pbind (modify (on_ruleset (\<lambda>r. r\<lparr>rs_negation_supported := True\<rparr>))) (\<lambda>_.
           ret (LIT_NEGATED_ATOM atom))))))"

text \<open>The checks on the two operands of a comparison.\<close>

definition make_comparison :: "cmp_op \<Rightarrow> arith_operand \<Rightarrow> arith_operand \<Rightarrow> literal parse" where
  "make_comparison op lhs rhs =
     (let arith = (ao_is_composite lhs \<or> ao_is_composite rhs); l = ao_term lhs; r = ao_term rhs
      in if arith \<and> (ao_root lhs = ARITH_EXPR_NO_NODE \<or> ao_root rhs = ARITH_EXPR_NO_NODE)
         then invalid DIAG_PARSER_INVALID_COMPARISON ''arithmetic comparison requires integer expressions''
                ''do not mix arithmetic expressions with symbols or booleans''
         else if \<not> arith \<and> (\<not> ao_has_simple_term lhs \<or> \<not> ao_has_simple_term rhs)
         then invalid DIAG_PARSER_INVALID_COMPARISON ''expected comparison terms''
                ''use simple typed terms or integer arithmetic expressions''
         else if arith
         then ret (LIT_COMPARISON (if ao_has_simple_term lhs then l else TERM_NOKIND 0) op
                     (if ao_has_simple_term rhs then r else TERM_NOKIND 0) True (ao_root lhs) (ao_root rhs))
         else if \<not> is_var l \<and> \<not> is_var r \<and> term_kind l \<noteq> term_kind r
         then invalid DIAG_PARSER_INVALID_COMPARISON ''comparison term kind mismatch'' ''compare terms of the same kind''
         else if \<not> is_var l \<and> \<not> is_var r \<and> (term_kind l = 1 \<or> term_kind l = 3) \<and> op \<noteq> CMP_EQ \<and> op \<noteq> CMP_NEQ
         then invalid DIAG_PARSER_INVALID_COMPARISON ''invalid comparison operator for term kind''
                ''symbols and booleans support equality and inequality only''
         else ret (LIT_COMPARISON l op r False ARITH_EXPR_NO_NODE ARITH_EXPR_NO_NODE))"

definition parse_comparison_literal :: "arith_expr_node list \<Rightarrow> (literal \<times> arith_expr_node list) parse" where
  "parse_comparison_literal nodes =
     pbind (parse_comparison_operand nodes) (\<lambda>(lhs, nodes).
     with_state (\<lambda>p.
       if \<not> token_is_cmp (kind_of p)
       then invalid DIAG_PARSER_INVALID_COMPARISON
              (if ao_has_simple_term lhs \<and> term_kind (ao_term lhs) = 3
               then ''boolean constant is not a body literal; compare it (X = true)'' else ''expected comparison operator'')
              ''use a supported comparison between typed terms''
       else
         pbind next_token (\<lambda>_.
         pbind (parse_comparison_operand nodes) (\<lambda>(rhs, nodes).
         pbind (make_comparison (cmp_kind (kind_of p)) lhs rhs) (\<lambda>lit. ret (lit, nodes))))))"

definition parse_literal :: "arith_expr_node list \<Rightarrow> (literal \<times> arith_expr_node list) parse" where
  "parse_literal nodes = with_state (\<lambda>p.
     if kind_of p = TOKEN_NOT then pbind parse_negated_literal (\<lambda>lit. ret (lit, nodes))
     else if kind_of p = TOKEN_PREDICATE then
       (case token_starts_aggregate p of
          Some k \<Rightarrow> pbind (parse_aggregate_literal k) (\<lambda>lit. ret (lit, nodes))
        | None \<Rightarrow>
            (case (if length (text_of p) < 64 \<and> \<not> predicate_name_exists (rs_registry (ps_ruleset p)) (text_of p)
                   then filter_by_name_in (ctx_filters (rs_modules (ps_ruleset p))) (text_of p) else None) of
               Some k \<Rightarrow> pbind (parse_filter_literal k) (\<lambda>lit. ret (lit, nodes))
             | None \<Rightarrow> pbind (parse_atom TERM_CTX_BODY_ATOM) (\<lambda>(atom, _). ret (LIT_ATOM atom, nodes))))
     else if token_starts_comparison_operand (kind_of p) then parse_comparison_literal nodes
     else invalid DIAG_LEXER_INVALID_TOKEN ''unexpected token in rule body'' ''expected a predicate atom or comparison'')"

section \<open>Clauses\<close>

text \<open>Anonymous variables of the terms of an atom are renumbered from \<open>n\<close>; \<open>None\<close> when the variables run out.\<close>

fun renumber_terms :: "nat \<Rightarrow> term list \<Rightarrow> (nat \<times> term list) option" where
  "renumber_terms n [] = Some (n, [])"
| "renumber_terms n (t # ts) =
     (if \<not> is_var t \<or> term_variable t < NAMED_VARIABLE_COUNT
      then map_option (\<lambda>(m, us). (m, t # us)) (renumber_terms n ts)
      else if n \<ge> MAX_RULE_VARIABLES then None
      else map_option (\<lambda>(m, us). (m, TERM_VAR n # us)) (renumber_terms (n + 1) ts))"

fun renumber_literal :: "nat \<Rightarrow> literal \<Rightarrow> (nat \<times> literal) option" where
  "renumber_literal n (LIT_ATOM a) = map_option (\<lambda>(m, ts). (m, LIT_ATOM (Fact (predicate_id a) ts))) (renumber_terms n (terms a))"
| "renumber_literal n (LIT_NEGATED_ATOM a) =
     map_option (\<lambda>(m, ts). (m, LIT_NEGATED_ATOM (Fact (predicate_id a) ts))) (renumber_terms n (terms a))"
| "renumber_literal n (LIT_AGGREGATE k a l r) =
     map_option (\<lambda>(m, ts). (m, LIT_AGGREGATE k (Fact (predicate_id a) ts) l r)) (renumber_terms n (terms a))"
| "renumber_literal n l = Some (n, l)"

fun renumber_body :: "nat \<Rightarrow> literal list \<Rightarrow> literal list option" where
  "renumber_body n [] = Some []"
| "renumber_body n (l # ls) =
     (case renumber_literal n l of
        None \<Rightarrow> None
      | Some (m, l') \<Rightarrow> map_option (Cons l') (renumber_body m ls))"

definition normalize_anonymous_variables :: "rule \<Rightarrow> rule parse" where
  "normalize_anonymous_variables rule =
     (case renumber_body NAMED_VARIABLE_COUNT (body rule) of
        None \<Rightarrow> refuse DIAG_PARSER_TOO_MANY_VARIABLES ''rule variable limit exceeded''
                  ''reduce anonymous variables or split the rule''
                  (diagnostic_set_limit LIMIT_MAX_RULE_VARIABLES (MAX_RULE_VARIABLES + 1) MAX_RULE_VARIABLES)
                  MAELYS_ERR_PAYLOAD_TOO_LARGE
      | Some ls \<Rightarrow> ret (rule\<lparr>body := ls\<rparr>))"

definition add_policy_fact :: "fact \<Rightarrow> ruleset \<Rightarrow> ruleset" where
  "add_policy_fact f r = r\<lparr>rs_facts := rs_facts r @ [f], rs_program_validated := False, rs_compiled_fingerprint := []\<rparr>"

definition note_predicate :: "ruleset \<Rightarrow> nat \<Rightarrow> diagnostic \<Rightarrow> diagnostic" where
  "note_predicate r pid d =
     (case predicate_registry_get (rs_registry r) pid of
        Some def \<Rightarrow> diagnostic_set_predicate (pred_name def) (pred_arity def) d
      | None \<Rightarrow> d)"

definition parse_fact_clause :: "fact \<Rightarrow> bool \<Rightarrow> unit parse" where
  "parse_fact_clause hd_atom anon = with_state (\<lambda>p.
     let r = ps_ruleset p; noted = note_predicate r (predicate_id hd_atom)
     in if (case predicate_registry_get (rs_registry r) (predicate_id hd_atom) of
              None \<Rightarrow> True | Some def \<Rightarrow> kind_flags def AND PRED_KIND_POLICY_FACT = 0)
        then refuse DIAG_PARSER_FACT_USES_NON_BASE_PREDICATE ''direct fact uses non-policy predicate''
               ''direct .dl facts must use policy fact predicates'' noted MAELYS_ERR_INVALID_FIELD
        else if anon
        then refuse DIAG_PARSER_ANONYMOUS_VARIABLE_IN_FACT ''anonymous variable is not allowed in direct facts''
               ''direct .dl facts must be ground policy facts'' noted MAELYS_ERR_INVALID_FIELD
        else if length (rs_facts r) \<ge> MAX_RULE_FACTS
        then refuse DIAG_OPERATION_REJECTED ''direct facts exceed policy fact capacity''
               ''reduce the number of direct policy facts''
               (diagnostic_set_limit LIMIT_MAX_RULE_FACTS (length (rs_facts r) + 1) MAX_RULE_FACTS) MAELYS_ERR_PAYLOAD_TOO_LARGE
        else if list_ex is_var (terms hd_atom)
        then refuse DIAG_PARSER_ANONYMOUS_VARIABLE_IN_FACT ''variables are not allowed in direct facts''
               ''direct .dl facts must be ground policy facts'' noted MAELYS_ERR_INVALID_FIELD
        else pbind (modify (on_ruleset (add_policy_fact hd_atom))) (\<lambda>_. next_token))"

text \<open>
  The alternatives of an atom. The bound on their number is \<open>staged_capacity / staged_count\<close>; the first argument is what
  it leaves. Alternatives share their anonymous variables: the counter restarts for each and ends at the maximum.
\<close>

fun parse_alternatives :: "nat \<Rightarrow> nat \<Rightarrow> nat \<Rightarrow> nat \<Rightarrow> nat \<Rightarrow> fact list \<Rightarrow> fact list parse" where
  "parse_alternatives room staged_base staged_count prior most alternatives = with_state (\<lambda>p.
     if \<not> token_is_contextual_or (ps_tok p)
     then pbind (modify (\<lambda>p. p\<lparr>ps_anonymous_var_count := most\<rparr>)) (\<lambda>_. ret alternatives)
     else case room of
       0 \<Rightarrow> refuse DIAG_PARSER_RULE_BODY_LITERAL_OVERFLOW ''OR expansion exceeds rule capacity''
              ''reduce OR alternatives or split the policy''
              (diagnostic_set_limit LIMIT_MAX_RULES (staged_base + staged_count * (length alternatives + 1)) MAX_RULES)
              MAELYS_ERR_PAYLOAD_TOO_LARGE
     | Suc room \<Rightarrow>
         pbind next_token (\<lambda>_.
         pbind (modify (\<lambda>p. p\<lparr>ps_anonymous_var_count := prior\<rparr>)) (\<lambda>_.
         pbind (parse_atom TERM_CTX_BODY_ATOM) (\<lambda>(atom, _).
         with_state (\<lambda>p. parse_alternatives room staged_base staged_count prior
           (max most (ps_anonymous_var_count p)) (alternatives @ [atom]))))))"

declare parse_alternatives.simps [simp del]

definition expand_rules :: "fact list \<Rightarrow> rule list \<Rightarrow> rule list" where
  "expand_rules alternatives staged =
     concat (map (\<lambda>r. map (\<lambda>a. r\<lparr>body := body r @ [LIT_ATOM a]\<rparr>) alternatives) staged)"

text \<open>A literal that is not expanded goes to every staged rule, with the expression nodes it added to the first.\<close>

definition extend_rules :: "nat \<Rightarrow> literal \<Rightarrow> arith_expr_node list \<Rightarrow> rule list \<Rightarrow> rule list" where
  "extend_rules prior lit nodes staged =
     map (\<lambda>r. r\<lparr>body := body r @ [lit], expr_nodes := take prior (expr_nodes r) @ drop prior nodes\<rparr>) staged"

fun parse_body :: "nat \<Rightarrow> nat \<Rightarrow> fact \<Rightarrow> rule list \<Rightarrow> rule list parse" where
  "parse_body room staged_base hd_atom staged = with_state (\<lambda>p.
     case room of
       0 \<Rightarrow> refuse DIAG_PARSER_RULE_BODY_LITERAL_OVERFLOW ''rule body literal limit exceeded''
              ''split rule into IDB helper predicates''
              (\<lambda>d. diagnostic_set_limit LIMIT_MAX_BODY_LITERALS (length (body (hd staged)) + 1) MAX_BODY_LITERALS
                     (note_predicate (ps_ruleset p) (predicate_id hd_atom) d)) MAELYS_ERR_PAYLOAD_TOO_LARGE
     | Suc room \<Rightarrow>
         let prior = length (expr_nodes (hd staged)); anonymous_before = ps_anonymous_var_count p;
             capacity = MAX_RULES - staged_base
         in pbind (parse_literal (expr_nodes (hd staged))) (\<lambda>(lit, nodes).
            pbind (with_state (\<lambda>p. case lit of
                LIT_ATOM atom \<Rightarrow>
                  if token_is_contextual_or (ps_tok p) then
                    pbind (parse_alternatives (capacity div length staged - 1) staged_base (length staged) anonymous_before
                             (ps_anonymous_var_count p) [atom]) (\<lambda>alternatives. ret (expand_rules alternatives staged))
                  else ret (extend_rules prior lit nodes staged)
              | _ \<Rightarrow> ret (extend_rules prior lit nodes staged))) (\<lambda>staged.
            with_state (\<lambda>p.
              if kind_of p = TOKEN_COMMA then pbind next_token (\<lambda>_. parse_body room staged_base hd_atom staged)
              else ret staged))))"

declare parse_body.simps [simp del]

fun normalize_rules :: "nat \<Rightarrow> rule list \<Rightarrow> rule list parse" where
  "normalize_rules i [] = ret []"
| "normalize_rules i (r # rs) =
     pbind (normalize_anonymous_variables (r\<lparr>rule_id := i + 1\<rparr>)) (\<lambda>r'.
     pbind (normalize_rules (i + 1) rs) (\<lambda>rs'. ret (r' # rs')))"

text \<open>Undo of a failed clause: filter programs and patterns go back to what they were.\<close>

definition staged_clause :: "'a parse \<Rightarrow> 'a parse" where
  "staged_clause m = (\<lambda>p. case m p of
     Some (Inl rc, p') \<Rightarrow> Some (Inl rc, on_ruleset (\<lambda>r. r\<lparr>
         rs_filter_programs := take (length (rs_filter_programs (ps_ruleset p))) (rs_filter_programs r),
         rs_filter_pattern_pool := take (length (rs_filter_pattern_pool (ps_ruleset p))) (rs_filter_pattern_pool r)\<rparr>) p')
   | res \<Rightarrow> res)"

text \<open>Cells of an array from a position on, behind a prefix whose missing cells are zero.\<close>

definition write_from :: "nat \<Rightarrow> 'a \<Rightarrow> 'a list \<Rightarrow> 'a list \<Rightarrow> 'a list" where
  "write_from base zero new old = take base (old @ replicate (base - length old) zero) @ new"

definition retain_name :: "nat \<Rightarrow> string \<times> nat \<Rightarrow> ruleset \<Rightarrow> ruleset" where
  "retain_name row v r =
     (let used = length (rs_variable_name_pool r); bytes = length (fst v) + 1
      in if bytes > RULE_VARIABLE_NAME_POOL_BYTES - used then r
         else r\<lparr>rs_variable_name_pool := rs_variable_name_pool r @ fst v @ [CHR 0x00],
                rs_variable_name_offsets := ((row, snd v), used + 1) # rs_variable_name_offsets r\<rparr>)"

definition publish_rules :: "clause_origin \<Rightarrow> nat \<times> nat \<Rightarrow> rule list \<Rightarrow> parser \<Rightarrow> parser" where
  "publish_rules checkpoint source staged p =
     (let base = co_first_rule checkpoint; n = length staged;
          p = on_ruleset (fold (retain_name base) (ps_variables p)) p;
          c = checkpoint\<lparr>co_first_fact := length (rs_facts (ps_ruleset p)), co_end := (tk_line (ps_tok p), tk_column (ps_tok p))\<rparr>
      in on_ruleset (\<lambda>r. r\<lparr>
             rs_rules := rs_rules r @ staged,
             rs_variable_name_rows := write_from base 0 (replicate n (base + 1)) (rs_variable_name_rows r),
             rs_rule_sources := write_from base (0, 0) (replicate n source) (rs_rule_sources r),
             rs_program_validated := False, rs_compiled_fingerprint := []\<rparr>)
           (p\<lparr>ps_origin := map_option (\<lambda>o'. o'\<lparr>po_rules := write_from base no_origin (replicate n c) (po_rules o')\<rparr>) (ps_origin p)\<rparr>))"

definition parse_rule_clause :: "nat \<times> nat \<Rightarrow> fact \<Rightarrow> unit parse" where
  "parse_rule_clause source hd_atom = with_state (\<lambda>p.
     let r = ps_ruleset p; base = length (rs_rules r);
         checkpoint = \<lparr>co_first_rule = base, co_first_filter = length (rs_filter_programs r),
           co_first_pattern_byte = length (rs_filter_pattern_pool r), co_first_fact = 0, co_end = (0, 0)\<rparr>
     in if base \<ge> MAX_RULES
        then refuse DIAG_PARSER_RULE_BODY_LITERAL_OVERFLOW ''rule capacity exceeded''
               ''reduce the number of rules or split the policy''
               (diagnostic_set_limit LIMIT_MAX_RULES (base + 1) MAX_RULES) MAELYS_ERR_PAYLOAD_TOO_LARGE
        else
          pbind (staged_clause (
            pbind (parse_body MAX_BODY_LITERALS base hd_atom [\<lparr>head = hd_atom, body = [], expr_nodes = [], rule_id = 0\<rparr>]) (\<lambda>staged.
            with_state (\<lambda>p.
              if kind_of p \<noteq> TOKEN_DOT
              then invalid DIAG_PARSER_EXPECTED_DOT ''expected clause terminator'' ''terminate facts and rules with a dot''
              else normalize_rules base staged)))) (\<lambda>staged.
          pbind (modify (publish_rules checkpoint source staged)) (\<lambda>_. next_token)))"

definition parse_clause :: "unit parse" where
  "parse_clause = with_state (\<lambda>p0.
     let source = (tk_line (ps_tok p0), tk_column (ps_tok p0))
     in pbind (modify (\<lambda>p. p\<lparr>ps_anonymous_var_count := 0\<rparr>)) (\<lambda>_.
        pbind reserve_letter_variables (\<lambda>_.
        pbind (parse_atom TERM_CTX_HEAD_CANDIDATE) (\<lambda>(hd_atom, anon).
        with_state (\<lambda>p.
          if kind_of p = TOKEN_DOT then parse_fact_clause hd_atom anon
          else if kind_of p \<noteq> TOKEN_NECK
          then invalid DIAG_PARSER_EXPECTED_NECK ''expected rule neck'' ''end direct facts with a dot or introduce a rule body with :-''
          else if anon
          then refuse DIAG_PARSER_ANONYMOUS_VARIABLE_IN_HEAD ''anonymous variable is not allowed in rule heads''
                 ''use named head variables bound by positive body atoms''
                 (note_predicate (ps_ruleset p) (predicate_id hd_atom)) MAELYS_ERR_INVALID_FIELD
          else pbind next_token (\<lambda>_. parse_rule_clause source hd_atom))))))"

section \<open>Whole texts\<close>

fun parse_clauses :: "nat \<Rightarrow> unit parse" where
  "parse_clauses 0 = (\<lambda>p. None)"
| "parse_clauses (Suc fuel) = with_state (\<lambda>p.
     if kind_of p = TOKEN_EOF then ret () else pbind parse_clause (\<lambda>_. parse_clauses fuel))"

text \<open>
  An error of validation in an earlier clause wins over the parse error of a later one. The diagnostic of the
  prefix run replaces the caller's.
\<close>

definition earliest_clause_error ::
  "maelys_result \<Rightarrow> ruleset \<Rightarrow> string \<Rightarrow> parse_origin option \<Rightarrow> diagnostic option \<Rightarrow> maelys_result \<times> ruleset \<times> diagnostic option" where
  "earliest_clause_error parse_rc r file origin diag =
     (case origin of
        None \<Rightarrow> (parse_rc, r, diag)
      | Some o' \<Rightarrow>
          if rs_rules r = [] then (parse_rc, r, diag)
          else case validate_parsed_prefix r file origin diagnostic_clear of
            (MAELYS_OK, r', _) \<Rightarrow> (parse_rc, r', diag)
          | (rc, r', prefix) \<Rightarrow> (rc, r', map_option (\<lambda>_. prefix) diag))"

text \<open>
  The result of \<^verbatim>\<open>maelys_datalog_parse_only\<close>: the code, the ruleset, the origins and the diagnostic; \<open>None\<close> when a loop does
  not return. The flag word has one bit.
\<close>

type_synonym parse_outcome = "maelys_result \<times> ruleset \<times> parse_origin option \<times> diagnostic option"

definition parse_only ::
  "ruleset \<Rightarrow> string \<Rightarrow> string \<Rightarrow> 32 word \<Rightarrow> parse_origin option \<Rightarrow> diagnostic option \<Rightarrow> parse_outcome option" where
  "parse_only r src file flags origin diag =
     (if \<not> rs_loaded r then Some (MAELYS_ERR_INVALID_STATE, r, origin, diag)
      else if flags AND (NOT 1) \<noteq> 0 then Some (MAELYS_ERR_INVALID_ARGUMENT, r, origin, diag)
      else if \<not> predicate_registry_is_frozen (rs_registry r)
      then Some (MAELYS_ERR_INVALID_STATE, r, origin,
             map_option (\<lambda>_. diagnostic_set DIAG_REGISTRY_MUTATION_AFTER_FREEZE ''registry'' file 0 0
               ''predicate registry is not frozen'' ''freeze the registry before parsing policy text'') diag)
      else case lexer_init_ex src file diag of
        (rc, d, None) \<Rightarrow> Some (rc, r, origin, d)
      | (_, d, Some l) \<Rightarrow>
          (case next_token \<lparr>ps_lexer = l, ps_tok = zero_token, ps_ruleset = r, ps_file = file, ps_anonymous_var_count = 0,
                 ps_named_slots = 0, ps_variables = [], ps_allow_undeclared = (flags AND 1 \<noteq> 0), ps_origin = origin\<rparr> of
             None \<Rightarrow> None
           | Some (Inl rc, p) \<Rightarrow> Some (rc, ps_ruleset p, ps_origin p, lx_diag (ps_lexer p))
           | Some (Inr _, p) \<Rightarrow>
               (case parse_clauses (length src + 2) p of
                  None \<Rightarrow> None
                | Some (Inl rc, p) \<Rightarrow>
                    (case earliest_clause_error rc (ps_ruleset p) file (ps_origin p) (lx_diag (ps_lexer p)) of
                       (rc, r', d') \<Rightarrow> Some (rc, r', ps_origin p, d'))
                | Some (Inr _, p) \<Rightarrow>
                    Some (MAELYS_OK, ps_ruleset p,
                      map_option (\<lambda>o'. o'\<lparr>po_eof := (tk_line (ps_tok p), tk_column (ps_tok p))\<rparr>) (ps_origin p),
                      lx_diag (ps_lexer p)))))"

definition parse_ruleset_ex_with_flags ::
  "ruleset \<Rightarrow> string \<Rightarrow> string \<Rightarrow> 32 word \<Rightarrow> diagnostic \<Rightarrow> (maelys_result \<times> ruleset \<times> diagnostic) option" where
  "parse_ruleset_ex_with_flags r src file flags diag =
     (case parse_only r src file flags (Some \<lparr>po_rules = [], po_eof = (0, 0)\<rparr>) (Some diag) of
        None \<Rightarrow> None
      | Some (rc, r', origin, d) \<Rightarrow>
          if rc \<noteq> MAELYS_OK then Some (rc, r', (case d of Some d \<Rightarrow> d | None \<Rightarrow> diag))
          else Some (validate_program r' file origin ((case d of Some d \<Rightarrow> d | None \<Rightarrow> diag))))"

definition parse_ruleset_ex :: "ruleset \<Rightarrow> string \<Rightarrow> string \<Rightarrow> diagnostic \<Rightarrow> (maelys_result \<times> ruleset \<times> diagnostic) option" where
  "parse_ruleset_ex r src file diag = parse_ruleset_ex_with_flags r src file 0 diag"

text \<open>Without a file and without a diagnostic; the one the callees fill is dropped.\<close>

definition parse_ruleset :: "ruleset \<Rightarrow> string \<Rightarrow> (maelys_result \<times> ruleset) option" where
  "parse_ruleset r src = map_option (\<lambda>(rc, r', _). (rc, r')) (parse_ruleset_ex r src [] diagnostic_clear)"

end
