(* ===== verification/Parser_Total.thy ===== *)
theory Parser_Total
  imports Parser
begin

text \<open>
  Every parser operation returns: the loops of the parser end because a token is consumed in every turn. The
  measure is the text that is left, plus one while the current token is not the end of the text.
\<close>

definition left :: "parser \<Rightarrow> nat" where
  "left p = length (rest (ps_lexer p)) + (if kind_of p = TOKEN_EOF then 0 else 1)"

text \<open>An operation is calm at a state when it returns there and no text comes back.\<close>

definition calm :: "'a parse \<Rightarrow> parser \<Rightarrow> bool" where
  "calm f p \<longleftrightarrow> (\<exists>r p'. f p = Some (r, p') \<and> (\<forall>a. r = Inr a \<longrightarrow> left p' \<le> left p \<and> lx_src (ps_lexer p') = lx_src (ps_lexer p)))"

lemma calmD: "calm f p \<Longrightarrow> f p = Some (Inr a, p') \<Longrightarrow> left p' \<le> left p \<and> lx_src (ps_lexer p') = lx_src (ps_lexer p)"
  by (auto simp: calm_def)

named_theorems calm_intros \<open>operations that return\<close>

lemma calm_ret [calm_intros]: "calm (ret x) p"
  by (simp add: calm_def ret_def)

lemma calm_fail [calm_intros]: "calm (fail rc) p"
  by (simp add: calm_def fail_def)

lemma calm_refuse [calm_intros]: "calm (refuse code m h e rc) p"
  by (simp add: calm_def refuse_def)

lemma calm_invalid [calm_intros]: "calm (invalid code m h) p"
  by (simp add: invalid_def calm_refuse)

lemma calm_modify: "ps_lexer (f p) = ps_lexer p \<Longrightarrow> ps_tok (f p) = ps_tok p \<Longrightarrow> calm (modify f) p"
  by (simp add: calm_def modify_def left_def)

lemma calm_on_ruleset [calm_intros]: "calm (modify (on_ruleset f)) p"
  by (rule calm_modify) (simp_all add: on_ruleset_def)

lemma calm_bind [calm_intros]:
  assumes "calm f p"
    "\<And>a q. f p = Some (Inr a, q) \<Longrightarrow> left q \<le> left p \<Longrightarrow> lx_src (ps_lexer q) = lx_src (ps_lexer p) \<Longrightarrow> calm (g a) q"
  shows "calm (pbind f g) p"
proof -
  from assms(1) obtain r q where r: "f p = Some (r, q)" by (auto simp: calm_def)
  show ?thesis
  proof (cases r)
    case (Inl rc)
    then show ?thesis using r by (simp add: calm_def pbind_def)
  next
    case (Inr a)
    then have q: "left q \<le> left p" "lx_src (ps_lexer q) = lx_src (ps_lexer p)" using calmD[OF assms(1)] r by auto
    from assms(2)[OF r[unfolded Inr] this] q show ?thesis using r Inr by (auto simp: calm_def pbind_def)
  qed
qed

lemma calm_state [calm_intros]: "calm (f p) p \<Longrightarrow> calm (with_state f) p"
  by (simp add: calm_def with_state_def)

lemma next_outcome:
  obtains "\<exists>rc. next_token p = Some (Inl rc, p\<lparr>ps_lexer := snd (snd (lexer_next (ps_lexer p))), ps_tok := fst (snd (lexer_next (ps_lexer p)))\<rparr>)"
  | tok l where "lexer_next (ps_lexer p) = (MAELYS_OK, tok, l)" "next_token p = Some (Inr (), p\<lparr>ps_lexer := l, ps_tok := tok\<rparr>)"
proof (cases "fst (lexer_next (ps_lexer p)) = MAELYS_OK")
  case True
  then show ?thesis using that(2) by (cases "lexer_next (ps_lexer p)") (auto simp: next_token_def)
next
  case False
  then show ?thesis using that(1) by (cases "lexer_next (ps_lexer p)") (auto simp: next_token_def)
qed

lemma next_source: "lexer_next l = (MAELYS_OK, tok, l') \<Longrightarrow> lx_src l' = lx_src l"
  unfolding lexer_next_spec by (metis takes_fields(1))

lemma next_eof_stays:
  assumes "lexer_next l = (MAELYS_OK, tok, l')" shows "length (rest l') + (if tk_kind tok = TOKEN_EOF then 0 else 1) \<le> length (rest l)"
  using next_shrinks[OF assms] next_progress[OF assms] by (auto simp: Suc_le_eq)

lemma calm_next [calm_intros]: "calm next_token p"
proof (cases rule: next_outcome[of p])
  case (2 tok l)
  then show ?thesis using next_eof_stays[OF 2(1)] next_source[OF 2(1)] by (simp add: calm_def left_def)
qed (auto simp: calm_def)

lemma next_consumes: "next_token p = Some (Inr a, q) \<Longrightarrow> kind_of p \<noteq> TOKEN_EOF \<Longrightarrow> left q < left p"
proof (cases rule: next_outcome[of p])
  case (2 tok l)
  assume "next_token p = Some (Inr a, q)" "kind_of p \<noteq> TOKEN_EOF"
  moreover from this(1) 2(2) have "q = p\<lparr>ps_lexer := l, ps_tok := tok\<rparr>" by simp
  ultimately show ?thesis using next_eof_stays[OF 2(1)] by (auto simp: left_def split: if_splits)
qed auto

lemma left_bound: "left p \<le> length (lx_src (ps_lexer p)) + 1"
  by (auto simp: left_def rest_def)

text \<open>The operations without fuel.\<close>

lemma calm_expect [calm_intros]: "calm (expect k code m h e) p"
  by (auto simp: expect_def intro!: calm_intros)

lemma calm_named_variable [calm_intros]: "calm named_variable p"
  by (auto simp: named_variable_def Let_def split: option.split intro!: calm_intros calm_modify)

lemma calm_allocate [calm_intros]: "calm allocate_anonymous_variable p"
  by (auto simp: allocate_anonymous_variable_def Let_def intro!: calm_intros calm_modify)

lemma calm_validate_constant [calm_intros]: "calm validate_policy_symbol_constant p"
  by (auto simp: validate_policy_symbol_constant_def Let_def split: prod.split intro!: calm_intros)

lemma calm_intern_text [calm_intros]: "calm (intern_text x) p"
  by (auto simp: intern_text_def split: prod.split maelys_result.split option.split intro!: calm_intros)

lemma calm_intern_constant [calm_intros]: "calm intern_policy_symbol_constant p"
  by (auto simp: intern_policy_symbol_constant_def intro!: calm_intros)

lemma calm_parse_term [calm_intros]: "calm (parse_term ctx) p"
  by (auto simp: parse_term_def split: token_kind.split term_parse_context.split intro!: calm_intros)

lemma calm_parse_terms [calm_intros]: "calm (parse_terms pred ctx room ts anon) p"
  by (induction room arbitrary: ts anon p) (auto intro!: calm_intros split: prod.split)

lemma calm_unknown [calm_intros]: "calm (unknown_predicate pred n line column) p"
  by (simp add: calm_def unknown_predicate_def Let_def)

lemma calm_parse_atom [calm_intros]: "calm (parse_atom ctx) p"
  by (auto simp: parse_atom_def Let_def split: prod.split option.split intro!: calm_intros)

lemma calm_add_node [calm_intros]: "calm (arith_expr_add_node nodes k t l r) p"
  by (auto simp: arith_expr_add_node_def intro!: calm_intros)

lemma calm_arith_parts [calm_intros]:
  "calm (arith_too_deep d) p" "calm arith_anonymous p" "calm arith_expected p" "calm arith_close p" "calm (arith_leaf nodes) p"
  by (auto simp: arith_too_deep_def arith_anonymous_def arith_expected_def arith_close_def arith_leaf_def split: prod.split intro!: calm_intros)

text \<open>
  The expressions: three calls per byte are enough. A parenthesis or an operator is consumed before a call that
  starts over.
\<close>

lemma calm_arith_fuel:
  "(3 * left p + 3 \<le> fuel \<longrightarrow> calm (parse_arith_sum fuel d nodes) p) \<and>
   (3 * left p + 2 \<le> fuel \<longrightarrow> calm (sum_loop fuel d root composite nodes) p) \<and>
   (3 * left p + 2 \<le> fuel \<longrightarrow> calm (parse_arith_product fuel d nodes) p) \<and>
   (3 * left p + 1 \<le> fuel \<longrightarrow> calm (product_loop fuel d root composite nodes) p) \<and>
   (3 * left p + 1 \<le> fuel \<longrightarrow> calm (parse_arith_atom fuel d nodes) p)"
proof (induction fuel arbitrary: p d nodes root composite)
  case 0
  then show ?case by simp
next
  case (Suc n)
  have sum: "calm (parse_arith_sum n d nodes) q" if "3 * left q + 3 \<le> n" for q d nodes using Suc that by blast
  have sumL: "calm (sum_loop n d root composite nodes) q" if "3 * left q + 2 \<le> n" for q d root composite nodes using Suc that by blast
  have prod: "calm (parse_arith_product n d nodes) q" if "3 * left q + 2 \<le> n" for q d nodes using Suc that by blast
  have prodL: "calm (product_loop n d root composite nodes) q" if "3 * left q + 1 \<le> n" for q d root composite nodes using Suc that by blast
  have atom: "calm (parse_arith_atom n d nodes) q" if "3 * left q + 1 \<le> n" for q d nodes using Suc that by blast
  have "calm (parse_arith_sum (Suc n) d nodes) p" if f: "3 * left p + 3 \<le> Suc n"
    unfolding parse_arith_sum.simps[of "Suc n"] using f by (auto intro!: calm_bind prod sumL)
  moreover have "calm (parse_arith_product (Suc n) d nodes) p" if f: "3 * left p + 2 \<le> Suc n"
    unfolding parse_arith_product.simps[of "Suc n"] using f by (auto intro!: calm_bind atom prodL)
  moreover have "calm (sum_loop (Suc n) d root composite nodes) p" if f: "3 * left p + 2 \<le> Suc n"
    unfolding sum_loop.simps[of "Suc n"] using f by (auto intro!: calm_intros prod sumL dest!: next_consumes)
  moreover have "calm (product_loop (Suc n) d root composite nodes) p" if f: "3 * left p + 1 \<le> Suc n"
    unfolding product_loop.simps[of "Suc n"] using f by (auto intro!: calm_intros atom prodL dest!: next_consumes)
  moreover have "calm (parse_arith_atom (Suc n) d nodes) p" if f: "3 * left p + 1 \<le> Suc n"
    unfolding parse_arith_atom.simps[of "Suc n"] using f by (auto intro!: calm_intros sum dest!: next_consumes)
  ultimately show ?case by blast
qed

lemma calm_operand [calm_intros]: "calm (parse_comparison_operand nodes) p"
proof -
  have "calm (parse_arith_sum (arith_fuel p) 1 nodes) p"
    using calm_arith_fuel[of p "arith_fuel p"] left_bound[of p] by (simp add: arith_fuel_def)
  then show ?thesis by (auto simp: parse_comparison_operand_def Let_def split: prod.split intro!: calm_intros)
qed

lemma calm_filter_parts [calm_intros]: "calm check_filter_pattern p" "calm (filter_arity_mismatch k) p"
  by (auto simp: check_filter_pattern_def filter_arity_mismatch_def Let_def intro!: calm_intros)

lemma calm_filter [calm_intros]: "calm (parse_filter_literal k) p"
  by (auto simp: parse_filter_literal_def intro!: calm_intros)

lemma calm_aggregate [calm_intros]: "calm (parse_aggregate_literal k) p"
  by (auto simp: parse_aggregate_literal_def aggregate_syntax_def split: prod.split intro!: calm_intros)

lemma calm_negated [calm_intros]: "calm parse_negated_literal p"
  by (auto simp: parse_negated_literal_def split: prod.split intro!: calm_intros)

lemma calm_make_comparison [calm_intros]: "calm (make_comparison op l r) p"
  by (simp add: make_comparison_def Let_def calm_ret calm_invalid)

lemma calm_comparison [calm_intros]: "calm (parse_comparison_literal nodes) p"
  by (auto simp: parse_comparison_literal_def split: prod.split intro!: calm_intros)

lemma calm_literal [calm_intros]: "calm (parse_literal nodes) p"
  by (auto simp: parse_literal_def split: prod.split option.split intro!: calm_intros)

lemma calm_alternatives [calm_intros]: "calm (parse_alternatives room base n prior most alts) p"
proof (induction room arbitrary: most alts p)
  case 0
  then show ?case by (subst parse_alternatives.simps) (auto intro!: calm_intros calm_modify)
next
  case (Suc room)
  then show ?case by (subst parse_alternatives.simps) (auto split: prod.split intro!: calm_intros calm_modify)
qed

lemma calm_body [calm_intros]: "calm (parse_body room base h staged) p"
proof (induction room arbitrary: staged p)
  case 0
  then show ?case by (subst parse_body.simps) (auto intro!: calm_intros)
next
  case (Suc room)
  then show ?case by (subst parse_body.simps) (auto simp: Let_def split: prod.split literal.split intro!: calm_intros)
qed

lemma calm_normalize [calm_intros]: "calm (normalize_rules i rs) p"
  by (induction rs arbitrary: i p) (auto simp: normalize_anonymous_variables_def split: option.split intro!: calm_intros)

lemma calm_staged [calm_intros]: "calm m p \<Longrightarrow> calm (staged_clause m) p"
  by (auto simp: calm_def staged_clause_def split: sum.split)

lemma calm_clause_parts [calm_intros]: "calm (parse_fact_clause h anon) p" "calm (parse_rule_clause source h) p"
  "calm reserve_letter_variables p"
  by (auto simp: parse_fact_clause_def parse_rule_clause_def reserve_letter_variables_def publish_rules_def Let_def on_ruleset_def
      split: option.split intro!: calm_intros calm_modify)

lemma calm_clause [calm_intros]: "calm parse_clause p"
  by (auto simp: parse_clause_def Let_def split: prod.split intro!: calm_intros calm_modify)

section \<open>The text is consumed\<close>

definition eats :: "'a parse \<Rightarrow> parser \<Rightarrow> bool" where
  "eats f p \<longleftrightarrow> (\<forall>a q. f p = Some (Inr a, q) \<longrightarrow> left q < left p)"

lemma eats_refuse: "eats (refuse code m h e rc) p" "eats (invalid code m h) p"
  by (simp_all add: eats_def refuse_def invalid_def)

lemma eats_state: "eats (f p) p \<Longrightarrow> eats (with_state f) p"
  by (simp add: eats_def with_state_def)

lemma eats_bind1:
  assumes "eats f p" "\<And>a q. calm (g a) q" shows "eats (pbind f g) p"
  unfolding eats_def
proof (intro allI impI)
  fix b q assume "pbind f g p = Some (Inr b, q)"
  then obtain a m where "f p = Some (Inr a, m)" "g a m = Some (Inr b, q)" by (auto simp: pbind_def split: option.splits sum.splits)
  then show "left q < left p" using assms(1) calmD[OF assms(2)] by (fastforce simp: eats_def)
qed

lemma eats_bind2:
  assumes "calm f p" "\<And>a q. eats (g a) q" shows "eats (pbind f g) p"
  unfolding eats_def
proof (intro allI impI)
  fix b q assume "pbind f g p = Some (Inr b, q)"
  then obtain a m where "f p = Some (Inr a, m)" "g a m = Some (Inr b, q)" by (auto simp: pbind_def split: option.splits sum.splits)
  then show "left q < left p" using assms(2) calmD[OF assms(1)] by (fastforce simp: eats_def)
qed

lemma eats_next: "kind_of p \<noteq> TOKEN_EOF \<Longrightarrow> eats next_token p"
  using next_consumes by (auto simp: eats_def)

lemma eats_atom: "eats (parse_atom ctx) p"
  unfolding parse_atom_def Let_def
  by (intro eats_state) (auto split: prod.split option.split intro!: eats_refuse eats_bind1 eats_next calm_intros)

lemma eats_clause: "eats parse_clause p"
  unfolding parse_clause_def Let_def
  by (intro eats_state eats_bind2 eats_bind1 eats_atom) (auto split: prod.split intro!: calm_intros calm_modify)

lemma clauses_return: "left p < fuel \<Longrightarrow> calm (parse_clauses fuel) p"
proof (induction fuel arbitrary: p)
  case (Suc fuel)
  have "left q < fuel" if "parse_clause p = Some (Inr a, q)" for a q using that eats_clause[of p] Suc.prems by (fastforce simp: eats_def)
  then show ?case using Suc.IH by (auto intro!: calm_intros)
qed simp

text \<open>
  (C14) Parsing always returns. For every ruleset, every source text and every flag word, \<^verbatim>\<open>maelys_datalog_parse_only\<close> and
  \<^verbatim>\<open>maelys_datalog_parse_ruleset_ex_with_flags\<close> end with a result code: neither the loop over the clauses nor the recursion
  over arithmetic expressions runs out of the fuel that is chosen from the length of the text.
\<close>

theorem parsing_returns:
  "parse_only r src file flags origin diag \<noteq> None \<and> parse_ruleset_ex_with_flags r src file flags d \<noteq> None"
proof -
  have returns: "parse_only r src file flags origin diag \<noteq> None" for origin diag
  proof (cases "lexer_init_ex src file diag")
    case (fields rc d l)
    show ?thesis
    proof (cases l)
      case None
      then show ?thesis using fields by (simp add: parse_only_def)
    next
      case (Some x)
      let ?p = "\<lparr>ps_lexer = x, ps_tok = zero_token, ps_ruleset = r, ps_file = file, ps_anonymous_var_count = 0,
                 ps_named_slots = 0, ps_variables = [], ps_allow_undeclared = (flags AND 1 \<noteq> 0), ps_origin = origin\<rparr>"
      have src: "lx_src x = src" using fields Some by (auto simp: lexer_init_ex_def split: if_splits)
      have "calm next_token ?p" by (rule calm_next)
      then obtain res q where n: "next_token ?p = Some (res, q)" by (auto simp: calm_def)
      have "parse_clauses (length src + 2) q \<noteq> None" if "res = Inr u" for u
      proof -
        have "lx_src (ps_lexer q) = src" using calmD[OF calm_next] n that src by fastforce
        then have "left q < length src + 2" using left_bound[of q] by simp
        from clauses_return[OF this] show ?thesis unfolding calm_def by (metis option.distinct(1))
      qed
      then show ?thesis using fields Some n by (cases res) (auto simp: parse_only_def split: option.splits sum.splits prod.splits)
    qed
  qed
  then show ?thesis by (auto simp: parse_ruleset_ex_with_flags_def split: option.splits) (metis prod_cases3)+
qed

end
