(* ===== verification/Parser_Frame.thy ===== *)
theory Parser_Frame
  imports Parser_Total
begin

text \<open>
  What the parser changes. Below the level of a clause the operations only add symbols and filter programs and mark
  the use of negation; a clause is published as a whole, and one that is refused leaves the program as it was.
\<close>

section \<open>Relations between states\<close>

locale state_relation =
  fixes R :: "parser \<Rightarrow> parser \<Rightarrow> bool"
  assumes R_refl: "R p p"
    and R_trans: "R p q \<Longrightarrow> R q s \<Longrightarrow> R p s"
begin

definition keeps :: "'a parse \<Rightarrow> parser \<Rightarrow> bool" where
  "keeps f p \<longleftrightarrow> (\<forall>r q. f p = Some (r, q) \<longrightarrow> R p q)"

lemma keepsD: "keeps f p \<Longrightarrow> f p = Some (r, q) \<Longrightarrow> R p q"
  by (simp add: keeps_def)

lemma keeps_ret: "keeps (ret x) p" "keeps (fail rc) p"
  by (auto simp: keeps_def ret_def fail_def R_refl)

lemma keeps_modify: "R p (f p) \<Longrightarrow> keeps (modify f) p"
  by (simp add: keeps_def modify_def)

lemma keeps_state: "keeps (f p) p \<Longrightarrow> keeps (with_state f) p"
  by (simp add: keeps_def with_state_def)

lemma keeps_bind:
  assumes "keeps f p" "\<And>a q. f p = Some (Inr a, q) \<Longrightarrow> R p q \<Longrightarrow> keeps (g a) q" shows "keeps (pbind f g) p"
  unfolding keeps_def
proof (intro allI impI)
  fix r q assume "pbind f g p = Some (r, q)"
  then consider rc where "f p = Some (Inl rc, q)" | a m where "f p = Some (Inr a, m)" "g a m = Some (r, q)"
    by (auto simp: pbind_def split: option.splits sum.splits)
  then show "R p q"
  proof cases
    case 1
    then show ?thesis using keepsD[OF assms(1)] by blast
  next
    case (2 a m)
    then have "R p m" using keepsD[OF assms(1)] by blast
    then show ?thesis using R_trans keepsD[OF assms(2)[OF 2(1)] 2(2)] by blast
  qed
qed

end

section \<open>The frame of an operation\<close>

text \<open>
  \<open>still\<close>: only symbols were added and the use of negation noted. \<open>frame\<close>: filter programs were added too, within their
  capacities.
\<close>

definition still :: "parser \<Rightarrow> parser \<Rightarrow> bool" where
  "still p q \<longleftrightarrow>
     (let r = ps_ruleset p; s = ps_ruleset q
      in s\<lparr>rs_symbols := rs_symbols r, rs_negation_supported := rs_negation_supported r\<rparr> = r \<and>
         (\<exists>es. entries (rs_symbols s) = entries (rs_symbols r) @ es)) \<and>
     ps_file q = ps_file p \<and> ps_allow_undeclared q = ps_allow_undeclared p \<and> ps_origin q = ps_origin p"

definition frame :: "parser \<Rightarrow> parser \<Rightarrow> bool" where
  "frame p q \<longleftrightarrow>
     (let r = ps_ruleset p; s = ps_ruleset q
      in s\<lparr>rs_symbols := rs_symbols r, rs_negation_supported := rs_negation_supported r,
           rs_filter_programs := rs_filter_programs r, rs_filter_pattern_pool := rs_filter_pattern_pool r\<rparr> = r \<and>
         (\<exists>es. entries (rs_symbols s) = entries (rs_symbols r) @ es) \<and>
         (\<exists>fs. rs_filter_programs s = rs_filter_programs r @ fs) \<and>
         (\<exists>ps. rs_filter_pattern_pool s = rs_filter_pattern_pool r @ ps) \<and>
         length (rs_filter_programs s) \<le> max (length (rs_filter_programs r)) MAX_FILTER_PROGRAMS \<and>
         length (rs_filter_pattern_pool s) \<le> max (length (rs_filter_pattern_pool r)) FILTER_PATTERN_POOL_BYTES) \<and>
     ps_file q = ps_file p \<and> ps_allow_undeclared q = ps_allow_undeclared p \<and> ps_origin q = ps_origin p"

lemma still_trans: "still p q \<Longrightarrow> still q s \<Longrightarrow> still p s"
proof -
  assume a: "still p q" and b: "still q s"
  have "(ps_ruleset s)\<lparr>rs_symbols := rs_symbols (ps_ruleset p), rs_negation_supported := rs_negation_supported (ps_ruleset p)\<rparr> = ps_ruleset p"
    using a b by (cases "ps_ruleset p"; cases "ps_ruleset q"; cases "ps_ruleset s") (simp add: still_def Let_def)
  then show ?thesis using a b by (auto simp: still_def Let_def)
qed

lemma frame_trans: "frame p q \<Longrightarrow> frame q s \<Longrightarrow> frame p s"
proof -
  assume a: "frame p q" and b: "frame q s"
  have "(ps_ruleset s)\<lparr>rs_symbols := rs_symbols (ps_ruleset p), rs_negation_supported := rs_negation_supported (ps_ruleset p),
      rs_filter_programs := rs_filter_programs (ps_ruleset p), rs_filter_pattern_pool := rs_filter_pattern_pool (ps_ruleset p)\<rparr> = ps_ruleset p"
    using a b by (cases "ps_ruleset p"; cases "ps_ruleset q"; cases "ps_ruleset s") (simp add: frame_def Let_def)
  then show ?thesis using a b by (auto simp: frame_def Let_def)
qed

interpretation st: state_relation still
  by unfold_locales (simp add: still_def Let_def, rule still_trans)

interpretation fr: state_relation frame
  by unfold_locales (simp add: frame_def Let_def, rule frame_trans)

lemma still_filters: "still p q \<Longrightarrow> rs_filter_programs (ps_ruleset q) = rs_filter_programs (ps_ruleset p) \<and>
  rs_filter_pattern_pool (ps_ruleset q) = rs_filter_pattern_pool (ps_ruleset p)"
  by (cases "ps_ruleset p"; cases "ps_ruleset q") (simp add: still_def Let_def)

lemma still_frame: "still p q \<Longrightarrow> frame p q"
  using still_filters[of p q] by (cases "ps_ruleset p"; cases "ps_ruleset q") (auto simp: still_def frame_def Let_def)

named_theorems still_intros \<open>operations inside a clause that add no filter\<close>
named_theorems frame_intros \<open>operations inside a clause\<close>

declare st.keeps_ret [still_intros] st.keeps_state [still_intros] st.keeps_bind [still_intros]
declare fr.keeps_ret [frame_intros] fr.keeps_state [frame_intros] fr.keeps_bind [frame_intros]

lemma still_keeps: "st.keeps f p \<Longrightarrow> fr.keeps f p"
  using still_frame by (auto simp: st.keeps_def fr.keeps_def)

lemma still_bind:
  assumes "st.keeps f p" "\<And>a q. f p = Some (Inr a, q) \<Longrightarrow> still p q \<Longrightarrow> fr.keeps (g a) q" shows "fr.keeps (pbind f g) p"
  by (rule fr.keeps_bind[OF still_keeps[OF assms(1)]]) (use assms st.keepsD in blast)

lemma still_same: "ps_ruleset q = ps_ruleset p \<Longrightarrow> ps_file q = ps_file p \<Longrightarrow> ps_allow_undeclared q = ps_allow_undeclared p \<Longrightarrow>
  ps_origin q = ps_origin p \<Longrightarrow> still p q"
  by (simp add: still_def Let_def)

lemma keeps_refuse [still_intros]: "st.keeps (refuse code m h e rc) p"
  by (auto simp: st.keeps_def refuse_def on_diag_def parser_diag_def intro!: still_same)

lemma keeps_invalid [still_intros]: "st.keeps (invalid code m h) p"
  by (simp add: invalid_def keeps_refuse)

lemma keeps_next [still_intros]: "st.keeps next_token p"
  by (auto simp: st.keeps_def next_token_def split: prod.splits intro!: still_same)

lemma keeps_expect [still_intros]: "st.keeps (expect k code m h e) p"
  by (auto simp: expect_def intro!: still_intros)

lemma keeps_local: "ps_ruleset (f p) = ps_ruleset p \<Longrightarrow> ps_file (f p) = ps_file p \<Longrightarrow>
    ps_allow_undeclared (f p) = ps_allow_undeclared p \<Longrightarrow> ps_origin (f p) = ps_origin p \<Longrightarrow> st.keeps (modify f) p"
  by (rule st.keeps_modify) (rule still_same)

lemma keeps_named_variable [still_intros]: "st.keeps named_variable p"
  by (auto simp: named_variable_def Let_def split: option.split intro!: still_intros keeps_local)

lemma keeps_allocate [still_intros]: "st.keeps allocate_anonymous_variable p"
  by (auto simp: allocate_anonymous_variable_def Let_def intro!: still_intros keeps_local)

lemma keeps_validate_constant [still_intros]: "st.keeps validate_policy_symbol_constant p"
  by (auto simp: validate_policy_symbol_constant_def Let_def split: prod.split intro!: still_intros)

lemma symbol_intern_grows: "symbol_intern tab x = (MAELYS_OK, tab', Some sid) \<Longrightarrow> \<exists>es. entries tab' = entries tab @ es"
  by (auto simp: symbol_intern_def symbol_append_def split: if_splits probe_result.splits)

lemma keeps_intern [still_intros]: "st.keeps (intern_text x) p"
proof -
  have "still p (on_ruleset (\<lambda>r. r\<lparr>rs_symbols := tab\<rparr>) p)" if "symbol_intern (rs_symbols (ps_ruleset p)) x = (MAELYS_OK, tab, Some sid)" for tab sid
    using symbol_intern_grows[OF that] by (auto simp: still_def on_ruleset_def Let_def)
  then show ?thesis
    by (auto simp: intern_text_def split: prod.split maelys_result.split option.split intro!: still_intros st.keeps_modify)
qed

lemma keeps_intern_constant [still_intros]: "st.keeps intern_policy_symbol_constant p"
  by (auto simp: intern_policy_symbol_constant_def intro!: still_intros)

lemma keeps_parse_term [still_intros]: "st.keeps (parse_term ctx) p"
  by (auto simp: parse_term_def split: token_kind.split term_parse_context.split intro!: still_intros)

lemma keeps_parse_terms [still_intros]: "st.keeps (parse_terms pred ctx room ts anon) p"
  by (induction room arbitrary: ts anon p) (auto intro!: still_intros split: prod.split)

lemma keeps_unknown [still_intros]: "st.keeps (unknown_predicate pred n line column) p"
  by (auto simp: st.keeps_def unknown_predicate_def on_diag_def Let_def intro!: still_same)

lemma keeps_parse_atom [still_intros]: "st.keeps (parse_atom ctx) p"
  by (auto simp: parse_atom_def Let_def split: prod.split option.split intro!: still_intros)

lemma keeps_add_node [still_intros]: "st.keeps (arith_expr_add_node nodes k t l r) p"
  by (auto simp: arith_expr_add_node_def intro!: still_intros)

lemma keeps_arith_parts [still_intros]: "st.keeps (arith_too_deep d) p" "st.keeps arith_anonymous p" "st.keeps arith_expected p"
  "st.keeps arith_close p" "st.keeps (arith_leaf nodes) p"
  by (auto simp: arith_too_deep_def arith_anonymous_def arith_expected_def arith_close_def arith_leaf_def split: prod.split intro!: still_intros)

lemma keeps_arith:
  "st.keeps (parse_arith_sum fuel d nodes) p \<and> st.keeps (sum_loop fuel d root composite nodes) p \<and>
   st.keeps (parse_arith_product fuel d nodes) p \<and> st.keeps (product_loop fuel d root composite nodes) p \<and>
   st.keeps (parse_arith_atom fuel d nodes) p"
proof (induction fuel arbitrary: p d nodes root composite)
  case 0
  then show ?case by (simp add: parse_arith_sum.simps[of 0] sum_loop.simps[of 0] parse_arith_product.simps[of 0] product_loop.simps[of 0]
      parse_arith_atom.simps[of 0] st.keeps_def)
next
  case (Suc n)
  then have ih: "st.keeps (parse_arith_sum n d nodes) q" "st.keeps (sum_loop n d root composite nodes) q" "st.keeps (parse_arith_product n d nodes) q"
    "st.keeps (product_loop n d root composite nodes) q" "st.keeps (parse_arith_atom n d nodes) q" for q d nodes root composite by blast+
  have "st.keeps (parse_arith_sum (Suc n) d nodes) p" unfolding parse_arith_sum.simps[of "Suc n"] by (auto intro!: still_intros ih)
  moreover have "st.keeps (sum_loop (Suc n) d root composite nodes) p" unfolding sum_loop.simps[of "Suc n"] by (auto intro!: still_intros ih)
  moreover have "st.keeps (parse_arith_product (Suc n) d nodes) p" unfolding parse_arith_product.simps[of "Suc n"] by (auto intro!: still_intros ih)
  moreover have "st.keeps (product_loop (Suc n) d root composite nodes) p" unfolding product_loop.simps[of "Suc n"] by (auto intro!: still_intros ih)
  moreover have "st.keeps (parse_arith_atom (Suc n) d nodes) p" unfolding parse_arith_atom.simps[of "Suc n"] by (auto intro!: still_intros ih)
  ultimately show ?case by blast
qed

lemma keeps_operand [still_intros]: "st.keeps (parse_comparison_operand nodes) p"
  using keeps_arith by (auto simp: parse_comparison_operand_def Let_def split: prod.split intro!: still_intros)

lemma keeps_filter_parts [still_intros]: "st.keeps check_filter_pattern p" "st.keeps (filter_arity_mismatch k) p"
  by (auto simp: check_filter_pattern_def filter_arity_mismatch_def Let_def intro!: still_intros)

lemma keeps_aggregate [still_intros]: "st.keeps (parse_aggregate_literal k) p"
  by (auto simp: parse_aggregate_literal_def aggregate_syntax_def split: prod.split intro!: still_intros)

lemma keeps_negated [still_intros]: "st.keeps parse_negated_literal p"
proof -
  have "still q (on_ruleset (\<lambda>r. r\<lparr>rs_negation_supported := True\<rparr>) q)" for q by (simp add: still_def on_ruleset_def Let_def)
  then show ?thesis by (auto simp: parse_negated_literal_def split: prod.split intro!: still_intros st.keeps_modify)
qed

lemma keeps_make_comparison [still_intros]: "st.keeps (make_comparison op l r) p"
  by (simp add: make_comparison_def Let_def st.keeps_ret keeps_invalid)

lemma keeps_comparison [still_intros]: "st.keeps (parse_comparison_literal nodes) p"
  by (auto simp: parse_comparison_literal_def split: prod.split intro!: still_intros)

text \<open>A filter literal adds one program; the checks on the pattern are those of the capacities.\<close>

lemma pattern_checked:
  "check_filter_pattern p = Some (Inr a, q) \<Longrightarrow> q = p \<and> length (rs_filter_programs (ps_ruleset p)) < MAX_FILTER_PROGRAMS \<and>
   length (text_of p) \<le> FILTER_PATTERN_POOL_BYTES - length (rs_filter_pattern_pool (ps_ruleset p))"
  by (auto simp: check_filter_pattern_def with_state_def ret_def invalid_def refuse_def Let_def split: if_splits)

lemma add_filter_frame:
  assumes "still pp p" "length (rs_filter_programs (ps_ruleset pp)) < MAX_FILTER_PROGRAMS"
    "length pattern \<le> FILTER_PATTERN_POOL_BYTES - length (rs_filter_pattern_pool (ps_ruleset pp))"
  shows "frame p (on_ruleset (add_filter_program k pattern) p)"
  using assms still_filters[OF assms(1)] by (auto simp: frame_def on_ruleset_def add_filter_program_def Let_def)

lemma filter_finish:
  assumes "still pp p" "length (rs_filter_programs (ps_ruleset pp)) < MAX_FILTER_PROGRAMS"
    "length (text_of pp) \<le> FILTER_PATTERN_POOL_BYTES - length (rs_filter_pattern_pool (ps_ruleset pp))"
  shows "fr.keeps (with_state (\<lambda>p. pbind (modify (on_ruleset (add_filter_program k (text_of pp)))) (\<lambda>_. ret (lit p)))) p"
  by (intro frame_intros fr.keeps_modify add_filter_frame[OF assms])

lemma filter_tail:
  assumes "length (rs_filter_programs (ps_ruleset pp)) < MAX_FILTER_PROGRAMS"
    "length (text_of pp) \<le> FILTER_PATTERN_POOL_BYTES - length (rs_filter_pattern_pool (ps_ruleset pp))" "\<And>v q. st.keeps (f v) q"
  shows "fr.keeps (pbind next_token (\<lambda>_. pbind (filter_arity_mismatch TOKEN_RPAREN) (\<lambda>_. pbind (f v) (\<lambda>v.
     with_state (\<lambda>p. pbind (modify (on_ruleset (add_filter_program k (text_of pp)))) (\<lambda>_. ret (lit v p))))))) pp"
  by (rule still_bind[OF keeps_next], rule still_bind[OF keeps_filter_parts(2)], rule still_bind[OF assms(3)], rule filter_finish)
    (use still_trans assms(1,2) in blast)+

lemma keeps_filter [frame_intros]: "fr.keeps (parse_filter_literal k) p"
  unfolding parse_filter_literal_def
proof (rule still_bind[OF keeps_next], rule still_bind[OF keeps_expect], rule fr.keeps_state, rule still_bind, goal_cases)
  case (1 a q b pv)
  then show ?case by (auto intro!: still_intros)
next
  case (2 a q b pv v q')
  show ?case
  proof (rule still_bind[OF keeps_next], rule still_bind[OF keeps_filter_parts(2)], rule still_bind[OF keeps_filter_parts(1)],
      rule fr.keeps_state, goal_cases)
    case (1 c q1 d q2 e pp)
    note bounds = pattern_checked[OF 1(5)]
    show ?case by (rule filter_tail[where f = "\<lambda>_. if kind_of pv = TOKEN_STRING then intern_text (text_of pv) else ret v"
          and lit = "\<lambda>v p. LIT_FILTER (k mod 256) (length (rs_filter_programs (ps_ruleset p))) v"])
      (use bounds in \<open>auto intro!: still_intros\<close>)
  qed
qed

lemma keeps_literal [frame_intros]: "fr.keeps (parse_literal nodes) p"
proof -
  have "fr.keeps (pbind parse_negated_literal (\<lambda>lit. ret (lit, nodes))) p" "fr.keeps (parse_comparison_literal nodes) p"
    "fr.keeps (pbind (parse_aggregate_literal k) (\<lambda>lit. ret (lit, nodes))) p"
    "fr.keeps (pbind (parse_atom TERM_CTX_BODY_ATOM) (\<lambda>(atom, _). ret (LIT_ATOM atom, nodes))) p" "fr.keeps (invalid code m h) p" for k code m h
    by (auto split: prod.split intro!: still_keeps still_intros)
  then show ?thesis by (auto simp: parse_literal_def split: option.split intro!: frame_intros)
qed

lemma keeps_alternatives [still_intros]: "st.keeps (parse_alternatives room base n prior most alts) p"
proof (induction room arbitrary: most alts p)
  case 0
  then show ?case by (subst parse_alternatives.simps) (auto intro!: still_intros keeps_local)
next
  case (Suc room)
  then show ?case by (subst parse_alternatives.simps) (auto split: prod.split intro!: still_intros keeps_local)
qed

lemma keeps_body [frame_intros]: "fr.keeps (parse_body room base h staged) p"
proof (induction room arbitrary: staged p)
  case 0
  then show ?case by (subst parse_body.simps) (auto intro!: still_keeps still_intros)
next
  case (Suc room)
  have "fr.keeps next_token q" "fr.keeps (parse_alternatives r b n prior most alts) q" for q r b n prior most alts
    by (auto intro!: still_keeps still_intros)
  then show ?case using Suc by (subst parse_body.simps) (auto simp: Let_def split: prod.split literal.split intro!: frame_intros)
qed

lemma keeps_normalize [still_intros]: "st.keeps (normalize_rules i rs) p"
  by (induction rs arbitrary: i p) (auto simp: normalize_anonymous_variables_def split: option.split intro!: still_intros)

end
