(* ===== verification/Parser_Bounds.thy ===== *)
theory Parser_Bounds
  imports Parser_Frame
begin

text \<open>
  The results of the parser: sizes of bodies, expressions and expansions, and what a clause does to the program,
  whether it is accepted or refused.
\<close>

section \<open>Results\<close>

definition gives :: "'a parse \<Rightarrow> parser \<Rightarrow> ('a \<Rightarrow> bool) \<Rightarrow> bool" where
  "gives f p P \<longleftrightarrow> (\<forall>a q. f p = Some (Inr a, q) \<longrightarrow> P a)"

lemma gives_ret: "P x \<Longrightarrow> gives (ret x) p P"
  by (simp add: gives_def ret_def)

lemma gives_refuse: "gives (refuse code m h e rc) p P" "gives (invalid code m h) p P" "gives (fail rc) p P"
  by (simp_all add: gives_def refuse_def invalid_def fail_def)

lemma gives_state: "gives (f p) p P \<Longrightarrow> gives (with_state f) p P"
  by (simp add: gives_def with_state_def)

lemma gives_if: "(c \<Longrightarrow> gives f p P) \<Longrightarrow> (\<not> c \<Longrightarrow> gives g p P) \<Longrightarrow> gives (if c then f else g) p P"
  by simp

lemma gives_bind: "gives f p Q \<Longrightarrow> (\<And>a q. Q a \<Longrightarrow> gives (g a) q P) \<Longrightarrow> gives (pbind f g) p P"
  by (fastforce simp: gives_def pbind_def split: option.splits sum.splits)

lemma gives_any: "gives f p (\<lambda>_. True)"
  by (simp add: gives_def)

lemma gives_then: "(\<And>a q. gives (g a) q P) \<Longrightarrow> gives (pbind f g) p P"
  by (rule gives_bind[OF gives_any]) simp

lemma gives_weaken: "gives f p Q \<Longrightarrow> (\<And>a. Q a \<Longrightarrow> P a) \<Longrightarrow> gives f p P"
  by (auto simp: gives_def)

text \<open>The node array grows, stays within its capacity and contains the root.\<close>

definition grown :: "arith_expr_node list \<Rightarrow> arith_expr_node list \<Rightarrow> bool" where
  "grown nodes nodes' \<longleftrightarrow> (\<exists>new. nodes' = nodes @ new) \<and> (length nodes \<le> MAX_ARITH_EXPR_NODES \<longrightarrow> length nodes' \<le> MAX_ARITH_EXPR_NODES)"

lemma grown_refl [simp]: "grown nodes nodes"
  by (simp add: grown_def)

lemma grown_trans: "grown a b \<Longrightarrow> grown b c \<Longrightarrow> grown a c"
  by (auto simp: grown_def)

lemma grown_length: "grown a b \<Longrightarrow> length a \<le> length b"
  by (auto simp: grown_def)

lemma gives_add_node: "gives (arith_expr_add_node nodes k t l r) p (\<lambda>(i, nodes'). grown nodes nodes' \<and> i < length nodes')"
  by (auto simp: arith_expr_add_node_def grown_def intro!: gives_refuse gives_ret)

lemma gives_leaf: "gives (arith_leaf nodes) p (\<lambda>(i, _, nodes'). grown nodes nodes' \<and> i < length nodes')"
  unfolding arith_leaf_def
  by (intro gives_then) (auto split: prod.split intro!: gives_bind[OF gives_add_node] gives_ret)

lemma gives_arith:
  "gives (parse_arith_sum fuel d nodes) p (\<lambda>(i, _, nodes'). grown nodes nodes' \<and> i < length nodes') \<and>
   (root < length nodes \<longrightarrow> gives (sum_loop fuel d root composite nodes) p (\<lambda>(i, _, nodes'). grown nodes nodes' \<and> i < length nodes')) \<and>
   gives (parse_arith_product fuel d nodes) p (\<lambda>(i, _, nodes'). grown nodes nodes' \<and> i < length nodes') \<and>
   (root < length nodes \<longrightarrow> gives (product_loop fuel d root composite nodes) p (\<lambda>(i, _, nodes'). grown nodes nodes' \<and> i < length nodes')) \<and>
   gives (parse_arith_atom fuel d nodes) p (\<lambda>(i, _, nodes'). grown nodes nodes' \<and> i < length nodes')"
proof (induction fuel arbitrary: p d nodes root composite)
  case 0
  then show ?case by (simp add: parse_arith_sum.simps[of 0] sum_loop.simps[of 0] parse_arith_product.simps[of 0] product_loop.simps[of 0]
      parse_arith_atom.simps[of 0] gives_def)
next
  case (Suc n)
  let ?P = "\<lambda>nodes (i, _, nodes'). grown nodes nodes' \<and> i < length nodes'"
  have sum: "gives (parse_arith_sum n d nodes) q (?P nodes)" and prod: "gives (parse_arith_product n d nodes) q (?P nodes)"
    and atom: "gives (parse_arith_atom n d nodes) q (?P nodes)" for q d nodes using Suc by blast+
  have sumL: "gives (sum_loop n d root composite nodes') q (?P nodes)" and prodL: "gives (product_loop n d root composite nodes') q (?P nodes)"
    if "grown nodes nodes'" "root < length nodes'" for q d root composite nodes nodes'
    by (rule gives_weaken[of _ _ "?P nodes'"]; use Suc that grown_trans in blast)+
  have "gives (parse_arith_sum (Suc n) d nodes) p (?P nodes)"
    unfolding parse_arith_sum.simps[of "Suc n"] by (auto intro!: gives_bind[OF prod] sumL)
  moreover have "gives (parse_arith_product (Suc n) d nodes) p (?P nodes)"
    unfolding parse_arith_product.simps[of "Suc n"] by (auto intro!: gives_bind[OF atom] prodL)
  moreover have "root < length nodes \<longrightarrow> gives (sum_loop (Suc n) d root composite nodes) p (?P nodes)"
    unfolding sum_loop.simps[of "Suc n"]
    by (auto intro!: gives_state gives_then gives_bind[OF prod] gives_bind[OF gives_add_node] sumL gives_ret dest: grown_trans)
  moreover have "root < length nodes \<longrightarrow> gives (product_loop (Suc n) d root composite nodes) p (?P nodes)"
    unfolding product_loop.simps[of "Suc n"]
    by (auto intro!: gives_state gives_then gives_bind[OF atom] gives_bind[OF gives_add_node] prodL gives_ret dest: grown_trans)
  moreover have "gives (parse_arith_atom (Suc n) d nodes) p (?P nodes)"
    unfolding parse_arith_atom.simps[of "Suc n"]
    by (auto simp: arith_too_deep_def arith_anonymous_def arith_expected_def
        intro!: gives_state gives_refuse gives_leaf gives_then gives_bind[OF sum] gives_ret)
  ultimately show ?case by blast
qed

text \<open>The roots of a comparison are nodes of its rule, and an atom adds none.\<close>

fun roots_in :: "arith_expr_node list \<Rightarrow> literal \<Rightarrow> bool" where
  "roots_in nodes (LIT_COMPARISON l op r arith i j) \<longleftrightarrow> (arith \<longrightarrow> i < length nodes \<and> j < length nodes)"
| "roots_in nodes _ \<longleftrightarrow> True"

definition literal_result :: "arith_expr_node list \<Rightarrow> literal \<times> arith_expr_node list \<Rightarrow> bool" where
  "literal_result nodes = (\<lambda>(lit, nodes'). grown nodes nodes' \<and> roots_in nodes' lit \<and> ((\<exists>a. lit = LIT_ATOM a) \<longrightarrow> nodes' = nodes))"

lemma gives_operand:
  "gives (parse_comparison_operand nodes) p (\<lambda>(o', nodes'). grown nodes nodes' \<and> (ao_root o' = ARITH_EXPR_NO_NODE \<or> ao_root o' < length nodes'))"
  unfolding parse_comparison_operand_def
proof (rule gives_state, rule gives_if, goal_cases)
  case 1
  have "gives (parse_arith_sum (arith_fuel p) 1 nodes) p (\<lambda>(i, _, nodes'). grown nodes nodes' \<and> i < length nodes')"
    using gives_arith by blast
  then show ?case by (rule gives_bind) (auto simp: Let_def intro!: gives_ret)
next
  case 2
  show ?case by (rule gives_then) (auto intro!: gives_ret split: prod.split)
qed

lemma gives_comparison:
  "(ao_root l = ARITH_EXPR_NO_NODE \<or> ao_root l < length nodes) \<Longrightarrow> (ao_root r = ARITH_EXPR_NO_NODE \<or> ao_root r < length nodes) \<Longrightarrow>
   gives (make_comparison op l r) p (\<lambda>lit. roots_in nodes lit \<and> (\<forall>a. lit \<noteq> LIT_ATOM a))"
  by (auto simp: make_comparison_def Let_def gives_def ret_def invalid_def refuse_def split: if_splits)

lemma gives_comparison_literal: "gives (parse_comparison_literal nodes) p (literal_result nodes)"
  unfolding parse_comparison_literal_def
proof (rule gives_bind[OF gives_operand], clarify, intro gives_state gives_if gives_refuse, rule gives_then, goal_cases)
  case (1 lhs n1 q a s)
  show ?case
  proof (rule gives_bind[OF gives_operand], clarify, goal_cases)
    case (1 rhs n2 s')
    have "ao_root lhs = ARITH_EXPR_NO_NODE \<or> ao_root lhs < length n2" using \<open>ao_root lhs = _ \<or> _\<close> grown_length[OF 1(1)] by auto
    then show ?case
      by (rule gives_bind[OF gives_comparison[OF _ 1(2)]]) (use \<open>grown nodes n1\<close> 1 grown_trans in \<open>auto simp: literal_result_def intro!: gives_ret\<close>)
  qed
qed

lemma gives_literal: "gives (parse_literal nodes) p (literal_result nodes)"
proof -
  have plain: "gives parse_negated_literal p (\<lambda>lit. literal_result nodes (lit, nodes))"
    "gives (parse_aggregate_literal k) p (\<lambda>lit. literal_result nodes (lit, nodes))"
    "gives (parse_filter_literal j) p (\<lambda>lit. literal_result nodes (lit, nodes))" for k j
    unfolding parse_negated_literal_def parse_aggregate_literal_def parse_filter_literal_def aggregate_syntax_def literal_result_def
    by (auto split: prod.split intro!: gives_then gives_state gives_refuse gives_ret)
  have pair: "gives (pbind f (\<lambda>lit. ret (lit, nodes))) p (literal_result nodes)"
    if "gives f p (\<lambda>lit. literal_result nodes (lit, nodes))" for f
    by (rule gives_bind[OF that]) (auto intro!: gives_ret)
  have atom: "gives (pbind (parse_atom TERM_CTX_BODY_ATOM) (\<lambda>(atom, _). ret (LIT_ATOM atom, nodes))) p (literal_result nodes)"
    by (rule gives_then) (auto simp: literal_result_def split: prod.split intro!: gives_ret)
  show ?thesis unfolding parse_literal_def
    by (rule gives_state) (simp add: pair plain atom gives_refuse gives_comparison_literal split: option.split)
qed

section \<open>Staged rules\<close>

text \<open>
  The rules under construction: they fit behind those of the program, have the same head, the same number of literals and
  the same expression nodes, and every arithmetic comparison points into them.
\<close>

definition staged_ok :: "nat \<Rightarrow> fact \<Rightarrow> nat \<Rightarrow> rule list \<Rightarrow> bool" where
  "staged_ok base h k staged \<longleftrightarrow> staged \<noteq> [] \<and> base + length staged \<le> MAX_RULES \<and>
     (\<exists>nodes. length nodes \<le> MAX_ARITH_EXPR_NODES \<and> (\<forall>r \<in> set staged. head r = h \<and> length (body r) = k \<and>
       expr_nodes r = nodes \<and> list_all (roots_in nodes) (body r)))"

lemma staged_nodes:
  assumes "staged_ok base h k staged"
  obtains nodes where "expr_nodes (hd staged) = nodes" "length nodes \<le> MAX_ARITH_EXPR_NODES"
    "\<And>r. r \<in> set staged \<Longrightarrow> head r = h \<and> length (body r) = k \<and> expr_nodes r = nodes \<and> list_all (roots_in nodes) (body r)"
proof -
  from assms obtain nodes where "staged \<noteq> []" "length nodes \<le> MAX_ARITH_EXPR_NODES"
    and "\<forall>r \<in> set staged. head r = h \<and> length (body r) = k \<and> expr_nodes r = nodes \<and> list_all (roots_in nodes) (body r)"
    unfolding staged_ok_def by blast
  with that[of nodes] list.set_sel(1)[of staged] show thesis by blast
qed

lemma gives_alternatives:
  "gives (parse_alternatives room base n prior most alts) p (\<lambda>alts'. length alts \<le> length alts' \<and> length alts' \<le> length alts + room)"
proof (induction room arbitrary: most alts p)
  case 0
  show ?case by (subst parse_alternatives.simps) (auto intro!: gives_state gives_if gives_refuse gives_then gives_ret)
next
  case (Suc room)
  have "gives (parse_alternatives room base n prior most (alts @ [a])) q
      (\<lambda>alts'. length alts \<le> length alts' \<and> length alts' \<le> length alts + Suc room)" for most a q
    by (rule gives_weaken[OF Suc]) auto
  then show ?case by (subst parse_alternatives.simps)
      (auto split: prod.split intro!: gives_state gives_if gives_then gives_ret)
qed

lemma roots_in_mono: "roots_in nodes l \<Longrightarrow> grown nodes nodes' \<Longrightarrow> roots_in nodes' l"
  by (cases "(nodes, l)" rule: roots_in.cases) (auto dest: grown_length)

lemma staged_extend:
  assumes "staged_ok base h k staged" "literal_result (expr_nodes (hd staged)) (lit, nodes)"
  shows "staged_ok base h (Suc k) (extend_rules (length (expr_nodes (hd staged))) lit nodes staged)"
proof -
  obtain old where old: "expr_nodes (hd staged) = old" "length old \<le> MAX_ARITH_EXPR_NODES"
    and s: "\<And>r. r \<in> set staged \<Longrightarrow> head r = h \<and> length (body r) = k \<and> expr_nodes r = old \<and> list_all (roots_in old) (body r)"
    using staged_nodes[OF assms(1)] by metis
  have g: "grown old nodes" and lit: "roots_in nodes lit" using assms(2) old by (auto simp: literal_result_def)
  then have n: "old @ drop (length old) nodes = nodes" "length nodes \<le> MAX_ARITH_EXPR_NODES" using old by (auto simp: grown_def)
  have "list_all (roots_in nodes) (body r)" if "r \<in> set staged" for r
    using s[OF that] roots_in_mono[OF _ g] by (auto simp: list_all_iff)
  moreover have "staged \<noteq> []" "base + length staged \<le> MAX_RULES" using assms(1) by (auto simp: staged_ok_def)
  ultimately show ?thesis unfolding staged_ok_def extend_rules_def old(1) using s n lit by (intro conjI exI[of _ nodes]) auto
qed

lemma expand_length: "length (expand_rules alts staged) = length staged * length alts"
  by (induction staged) (simp_all add: expand_rules_def)

lemma staged_expand:
  assumes "staged_ok base h k staged" "alts \<noteq> []" "length alts \<le> 1 + ((MAX_RULES - base) div length staged - 1)"
  shows "staged_ok base h (Suc k) (expand_rules alts staged)"
proof -
  obtain old where old: "length old \<le> MAX_ARITH_EXPR_NODES"
    and s: "\<And>r. r \<in> set staged \<Longrightarrow> head r = h \<and> length (body r) = k \<and> expr_nodes r = old \<and> list_all (roots_in old) (body r)"
    using staged_nodes[OF assms(1)] by metis
  have ne: "staged \<noteq> []" "length staged \<le> MAX_RULES - base" "base \<le> MAX_RULES" using assms(1) by (auto simp: staged_ok_def)
  then have "1 \<le> (MAX_RULES - base) div length staged" using div_le_mono[OF ne(2), of "length staged"] by simp
  then have "length alts \<le> (MAX_RULES - base) div length staged" using assms(3) by simp
  then have "length staged * length alts \<le> MAX_RULES - base"
    by (meson dual_order.trans mult_le_mono2 times_div_less_eq_dividend)
  moreover have "expand_rules alts staged \<noteq> []" using ne(1) assms(2) by (cases staged; cases alts) (auto simp: expand_rules_def)
  ultimately show ?thesis unfolding staged_ok_def using s ne old expand_length[of alts staged]
    by (intro conjI exI[of _ old]) (auto simp: expand_rules_def)
qed

lemma gives_body:
  "staged_ok base h k staged \<Longrightarrow> gives (parse_body room base h staged) p (\<lambda>st. \<exists>k'. k < k' \<and> k' \<le> k + room \<and> staged_ok base h k' st)"
proof (induction room arbitrary: k staged p)
  case 0
  show ?case by (subst parse_body.simps) (auto intro!: gives_state gives_refuse)
next
  case (Suc room)
  let ?P = "\<lambda>st. \<exists>k'. k < k' \<and> k' \<le> k + Suc room \<and> staged_ok base h k' st"
  have more: "gives (with_state (\<lambda>p. if kind_of p = TOKEN_COMMA then pbind next_token (\<lambda>_. parse_body room base h st) else ret st)) q ?P"
    if "staged_ok base h (Suc k) st" for st q
  proof (intro gives_state gives_if gives_then gives_ret, goal_cases)
    case (1 a q)
    show ?case by (rule gives_weaken[OF Suc.IH[OF that]]) (metis Suc_lessD add_Suc add_Suc_right)
  qed (use that in auto)
  have alternatives: "gives (pbind (parse_alternatives ((MAX_RULES - base) div length staged - 1) base (length staged) prior most [a])
      (\<lambda>alts. ret (expand_rules alts staged))) q (staged_ok base h (Suc k))" for prior most a q
    by (rule gives_bind[OF gives_alternatives]) (auto intro!: gives_ret staged_expand[OF Suc.prems])
  have step: "gives (with_state (\<lambda>p. case lit of
        LIT_ATOM atom \<Rightarrow>
          if token_is_contextual_or (ps_tok p) then
            pbind (parse_alternatives ((MAX_RULES - base) div length staged - 1) base (length staged) prior (ps_anonymous_var_count p) [atom])
              (\<lambda>alternatives. ret (expand_rules alternatives staged))
          else ret (extend_rules (length (expr_nodes (hd staged))) lit nodes staged)
      | _ \<Rightarrow> ret (extend_rules (length (expr_nodes (hd staged))) lit nodes staged))) q (staged_ok base h (Suc k))"
    if "literal_result (expr_nodes (hd staged)) (lit, nodes)" for lit nodes prior q
    using staged_extend[OF Suc.prems that] by (auto split: literal.split intro!: gives_state gives_if alternatives[simplified] gives_ret)
  show ?case by (subst parse_body.simps, rule gives_state, simp only: nat.case Let_def, rule gives_bind[OF gives_literal], clarify)
      (rule gives_bind[OF step], assumption, rule more)
qed

end
