(* ===== verification/Parser_Clause.thy ===== *)
theory Parser_Clause
  imports Parser_Bounds Validate_Sound
begin

text \<open>
  Clauses and whole texts: a clause is published completely or not at all, and every program the parser leaves behind is
  within the bounds of its arrays.
\<close>

section \<open>Published rules\<close>

lemma with_state_apply: "with_state f p = f p p"
  by (simp add: with_state_def)

text \<open>Rules behind the first \<open>base\<close> of the program: complete, numbered by position and within their bounds.\<close>

definition published :: "nat \<Rightarrow> fact \<Rightarrow> rule list \<Rightarrow> bool" where
  "published base h new \<longleftrightarrow> (\<exists>k. 1 \<le> k \<and> k \<le> MAX_BODY_LITERALS \<and> staged_ok base h k new) \<and>
     map rule_id new = [Suc base..<Suc base + length new]"

definition like :: "rule \<Rightarrow> rule \<Rightarrow> bool" where
  "like r r' \<longleftrightarrow> head r' = head r \<and> length (body r') = length (body r) \<and> expr_nodes r' = expr_nodes r \<and>
     (\<forall>nodes. list_all (roots_in nodes) (body r) \<longrightarrow> list_all (roots_in nodes) (body r'))"

lemma renumber_literal_roots: "renumber_literal n l = Some (m, l') \<Longrightarrow> roots_in nodes l \<Longrightarrow> roots_in nodes l'"
  by (cases "(n, l)" rule: renumber_literal.cases) auto

lemma renumber_body_like:
  "renumber_body n ls = Some ls' \<Longrightarrow> length ls' = length ls \<and> (list_all (roots_in nodes) ls \<longrightarrow> list_all (roots_in nodes) ls')"
  by (induction ls arbitrary: n ls') (auto split: option.splits dest: renumber_literal_roots)

lemma gives_normalize:
  "gives (normalize_rules i rs) p (\<lambda>rs'. list_all2 like rs rs' \<and> map rule_id rs' = [Suc i..<Suc i + length rs])"
proof (induction rs arbitrary: i p)
  case (Cons r rs)
  have one: "gives (normalize_anonymous_variables (r\<lparr>rule_id := i + 1\<rparr>)) q (\<lambda>r'. like r r' \<and> rule_id r' = Suc i)" for q
    unfolding normalize_anonymous_variables_def using renumber_body_like[of NAMED_VARIABLE_COUNT "body r"]
    by (auto simp: like_def split: option.split intro!: gives_refuse gives_ret)
  have ids: "[Suc i..<Suc i + length (r # rs)] = Suc i # [Suc (i + 1)..<Suc (i + 1) + length rs]" 
    by (simp add: upt_conv_Cons del: upt_Suc)
  show ?case unfolding normalize_rules.simps ids
    by (rule gives_bind[OF one], rule gives_bind[OF Cons], rule gives_ret) simp
qed (auto intro: gives_ret)

lemma staged_like:
  assumes "staged_ok base h k rs" "list_all2 like rs rs'" shows "staged_ok base h k rs'"
proof -
  obtain nodes where n: "length nodes \<le> MAX_ARITH_EXPR_NODES"
    and s: "\<And>r. r \<in> set rs \<Longrightarrow> head r = h \<and> length (body r) = k \<and> expr_nodes r = nodes \<and> list_all (roots_in nodes) (body r)"
    using staged_nodes[OF assms(1)] by metis
  have l: "rs' \<noteq> []" "base + length rs' \<le> MAX_RULES" using assms list_all2_lengthD[OF assms(2)] by (auto simp: staged_ok_def)
  have r: "head r' = h \<and> length (body r') = k \<and> expr_nodes r' = nodes \<and> list_all (roots_in nodes) (body r')" if mem: "r' \<in> set rs'" for r'
  proof -
    obtain i where i: "i < length rs'" "r' = rs' ! i" using mem by (auto simp: in_set_conv_nth)
    then have "like (rs ! i) r'" "rs ! i \<in> set rs" using assms(2) by (auto simp: list_all2_conv_all_nth)
    then show ?thesis using s[of "rs ! i"] by (simp add: like_def)
  qed
  show ?thesis unfolding staged_ok_def using l n r by blast
qed

text \<open>The part of a rule clause that is undone when it fails.\<close>

definition clause_body :: "nat \<Rightarrow> fact \<Rightarrow> rule list parse" where
  "clause_body base h = pbind (parse_body MAX_BODY_LITERALS base h [\<lparr>head = h, body = [], expr_nodes = [], rule_id = 0\<rparr>]) (\<lambda>staged.
     with_state (\<lambda>p. if kind_of p \<noteq> TOKEN_DOT
       then invalid DIAG_PARSER_EXPECTED_DOT ''expected clause terminator'' ''terminate facts and rules with a dot''
       else normalize_rules base staged))"

lemma rule_clause_run:
  assumes "length (rs_rules (ps_ruleset p)) < MAX_RULES"
  shows "parse_rule_clause source h p =
    pbind (staged_clause (clause_body (length (rs_rules (ps_ruleset p))) h)) (\<lambda>staged.
      pbind (modify (publish_rules \<lparr>co_first_rule = length (rs_rules (ps_ruleset p)), co_first_filter = length (rs_filter_programs (ps_ruleset p)),
        co_first_pattern_byte = length (rs_filter_pattern_pool (ps_ruleset p)), co_first_fact = 0, co_end = (0, 0)\<rparr> source staged)) (\<lambda>_. next_token)) p"
  using assms unfolding parse_rule_clause_def clause_body_def with_state_apply Let_def by (simp add: not_le[symmetric])

lemma gives_clause_body: "base < MAX_RULES \<Longrightarrow> gives (clause_body base h) p (published base h)"
proof -
  assume "base < MAX_RULES"
  then have "staged_ok base h 0 [\<lparr>head = h, body = [], expr_nodes = [], rule_id = 0\<rparr>]" by (auto simp: staged_ok_def)
  then show ?thesis unfolding clause_body_def
  proof (intro gives_bind[OF gives_body] gives_state gives_if gives_refuse, assumption, goal_cases)
    case (1 staged q)
    then obtain k where "0 < k" "k \<le> MAX_BODY_LITERALS" "staged_ok base h k staged" by auto
    note k = this
    show ?case
    proof (rule gives_weaken[OF gives_normalize], unfold published_def, goal_cases)
      case (1 rs)
      then show ?case using k staged_like[OF k(3), of rs] list_all2_lengthD[of like staged rs] by (auto intro!: exI[of _ k])
    qed
  qed
qed

section \<open>The effect of a clause\<close>

lemma frame_undone:
  assumes "frame p q"
  shows "still p (on_ruleset (\<lambda>r. r\<lparr>
         rs_filter_programs := take (length (rs_filter_programs (ps_ruleset p))) (rs_filter_programs r),
         rs_filter_pattern_pool := take (length (rs_filter_pattern_pool (ps_ruleset p))) (rs_filter_pattern_pool r)\<rparr>) q)"
  using assms by (cases "ps_ruleset p"; cases "ps_ruleset q") (auto simp: frame_def still_def on_ruleset_def Let_def)

text \<open>What an accepted clause adds, in terms of the fields that make up the program.\<close>

definition fact_added :: "fact \<Rightarrow> ruleset \<Rightarrow> ruleset \<Rightarrow> bool" where
  "fact_added f r s \<longleftrightarrow> rs_facts s = rs_facts r @ [f] \<and> length (rs_facts s) \<le> MAX_RULE_FACTS \<and> \<not> list_ex is_var (terms f) \<and>
     has_kind r PRED_KIND_POLICY_FACT (predicate_id f) \<and>
     rs_rules s = rs_rules r \<and> rs_filter_programs s = rs_filter_programs r \<and> rs_filter_pattern_pool s = rs_filter_pattern_pool r \<and>
     rs_variable_name_pool s = rs_variable_name_pool r \<and> rs_registry s = rs_registry r \<and> \<not> rs_program_validated s"

definition rules_added :: "fact \<Rightarrow> rule list \<Rightarrow> ruleset \<Rightarrow> ruleset \<Rightarrow> bool" where
  "rules_added h new r s \<longleftrightarrow> rs_rules s = rs_rules r @ new \<and> published (length (rs_rules r)) h new \<and> rs_facts s = rs_facts r \<and>
     (\<exists>fs. rs_filter_programs s = rs_filter_programs r @ fs) \<and> (\<exists>ps. rs_filter_pattern_pool s = rs_filter_pattern_pool r @ ps) \<and>
     length (rs_filter_programs s) \<le> max (length (rs_filter_programs r)) MAX_FILTER_PROGRAMS \<and>
     length (rs_filter_pattern_pool s) \<le> max (length (rs_filter_pattern_pool r)) FILTER_PATTERN_POOL_BYTES \<and>
     length (rs_variable_name_pool s) \<le> max (length (rs_variable_name_pool r)) RULE_VARIABLE_NAME_POOL_BYTES \<and>
     rs_registry s = rs_registry r \<and> \<not> rs_program_validated s"

lemma still_fields:
  assumes "still p q"
  shows "rs_rules (ps_ruleset q) = rs_rules (ps_ruleset p)" "rs_facts (ps_ruleset q) = rs_facts (ps_ruleset p)"
    "rs_filter_programs (ps_ruleset q) = rs_filter_programs (ps_ruleset p)"
    "rs_filter_pattern_pool (ps_ruleset q) = rs_filter_pattern_pool (ps_ruleset p)"
    "rs_variable_name_pool (ps_ruleset q) = rs_variable_name_pool (ps_ruleset p)" "rs_registry (ps_ruleset q) = rs_registry (ps_ruleset p)"
    "rs_program_validated (ps_ruleset q) = rs_program_validated (ps_ruleset p)"
  using assms by (cases "ps_ruleset p"; cases "ps_ruleset q"; simp add: still_def Let_def)+

lemma frame_fields:
  assumes "frame p q"
  shows "rs_rules (ps_ruleset q) = rs_rules (ps_ruleset p)" "rs_facts (ps_ruleset q) = rs_facts (ps_ruleset p)"
    "rs_variable_name_pool (ps_ruleset q) = rs_variable_name_pool (ps_ruleset p)" "rs_registry (ps_ruleset q) = rs_registry (ps_ruleset p)"
  using assms by (cases "ps_ruleset p"; cases "ps_ruleset q"; simp add: frame_def Let_def)+

text \<open>One of the three outcomes; what happens before and after that leaves the program alone.\<close>

definition clause_outcome :: "maelys_result + unit \<Rightarrow> parser \<Rightarrow> parser \<Rightarrow> bool" where
  "clause_outcome res p q \<longleftrightarrow> (\<exists>rc. res = Inl rc \<and> still p q) \<or> (\<exists>f. fact_added f (ps_ruleset p) (ps_ruleset q)) \<or>
     (\<exists>h new. rules_added h new (ps_ruleset p) (ps_ruleset q))"

lemma outcome_before: "still p m \<Longrightarrow> clause_outcome res m q \<Longrightarrow> clause_outcome res p q"
  using still_trans[of p m q] still_fields[of p m] by (auto simp: clause_outcome_def fact_added_def rules_added_def has_kind_def)

lemma fact_added_after: assumes "fact_added f r (ps_ruleset m)" "still m q" shows "fact_added f r (ps_ruleset q)"
  using assms(1) unfolding fact_added_def still_fields[OF assms(2)] .

lemma rules_added_after: assumes "rules_added h new r (ps_ruleset m)" "still m q" shows "rules_added h new r (ps_ruleset q)"
  using assms(1) unfolding rules_added_def still_fields[OF assms(2)] .

lemma pbind_cases:
  assumes "pbind f g p = Some (res, q)"
  obtains rc where "f p = Some (Inl rc, q)" "res = Inl rc" | a m where "f p = Some (Inr a, m)" "g a m = Some (res, q)"
  using assms by (auto simp: pbind_def split: option.splits sum.splits)

lemma pbind_outcome:
  assumes "st.keeps f p" "\<And>a m res q. f p = Some (Inr a, m) \<Longrightarrow> g a m = Some (res, q) \<Longrightarrow> clause_outcome res m q"
    "pbind f g p = Some (res, q)"
  shows "clause_outcome res p q"
  using assms(3)
proof (cases rule: pbind_cases)
  case 1
  then show ?thesis using st.keepsD[OF assms(1)] by (auto simp: clause_outcome_def)
next
  case (2 a m)
  then show ?thesis using outcome_before[OF st.keepsD[OF assms(1)]] assms(2) by blast
qed

lemma refuse_outcome: "st.keeps f p \<Longrightarrow> f p = Some (Inl rc, q) \<Longrightarrow> clause_outcome (Inl rc) p q"
  using st.keepsD[of f p] by (auto simp: clause_outcome_def)

lemma refused_outcome: "refuse code m h e rc p = Some (res, q) \<Longrightarrow> clause_outcome res p q"
  using refuse_outcome[OF keeps_refuse] by (auto simp: refuse_def)

lemma retain_name_pool:
  "length (rs_variable_name_pool (fold (retain_name row) vs r)) \<le> max (length (rs_variable_name_pool r)) RULE_VARIABLE_NAME_POOL_BYTES \<and>
   (let s = fold (retain_name row) vs r in rs_rules s = rs_rules r \<and> rs_facts s = rs_facts r \<and> rs_registry s = rs_registry r \<and>
      rs_filter_programs s = rs_filter_programs r \<and> rs_filter_pattern_pool s = rs_filter_pattern_pool r)"
proof (induction vs arbitrary: r)
  case (Cons v vs)
  have "length (rs_variable_name_pool (retain_name row v r)) \<le> max (length (rs_variable_name_pool r)) RULE_VARIABLE_NAME_POOL_BYTES"
    "rs_rules (retain_name row v r) = rs_rules r" "rs_facts (retain_name row v r) = rs_facts r" "rs_registry (retain_name row v r) = rs_registry r"
    "rs_filter_programs (retain_name row v r) = rs_filter_programs r" "rs_filter_pattern_pool (retain_name row v r) = rs_filter_pattern_pool r"
    by (auto simp: retain_name_def Let_def)
  then show ?case using Cons[of "retain_name row v r"] by (auto simp: Let_def)
qed simp

lemma publish_added:
  assumes "frame p m" "published (length (rs_rules (ps_ruleset p))) h new"
  shows "rules_added h new (ps_ruleset p) (ps_ruleset (publish_rules checkpoint source new m))"
  using assms(2) frame_fields[OF assms(1)] assms(1)
    retain_name_pool[of "co_first_rule checkpoint" "ps_variables m" "ps_ruleset m"]
  by (auto simp: rules_added_def publish_rules_def on_ruleset_def Let_def frame_def)

lemma staged_clause_cases:
  assumes "staged_clause m p = Some (res, q)" "fr.keeps m p"
  shows "(\<exists>rc. res = Inl rc \<and> still p q) \<or> (\<exists>x. res = Inr x \<and> m p = Some (Inr x, q) \<and> frame p q)"
  using assms frame_undone fr.keepsD[OF assms(2)] by (auto simp: staged_clause_def split: option.splits sum.splits)

lemma next_outcome_added:
  assumes "pbind (modify f) (\<lambda>_. next_token) p = Some (res, q)" shows "still (f p) q"
proof -
  have "next_token (f p) = Some (res, q)" using assms by (auto simp: pbind_def modify_def)
  then show ?thesis using st.keepsD[OF keeps_next] by blast
qed

lemma rule_clause_outcome:
  assumes "parse_rule_clause source h p = Some (res, q)" shows "clause_outcome res p q"
proof (cases "length (rs_rules (ps_ruleset p)) \<ge> MAX_RULES")
  case True
  then show ?thesis using assms refused_outcome by (auto simp: parse_rule_clause_def with_state_def Let_def)
next
  case False
  let ?base = "length (rs_rules (ps_ruleset p))"
  let ?body = "clause_body ?base h"
  obtain c where c: "pbind (staged_clause ?body) (\<lambda>staged. pbind (modify (publish_rules c source staged)) (\<lambda>_. next_token)) p = Some (res, q)"
    using assms rule_clause_run[of p source h] False by (auto simp: not_le)
  have keeps: "fr.keeps ?body p"
    unfolding clause_body_def by (intro frame_intros) (auto intro!: still_keeps still_intros)
  from c show ?thesis
  proof (cases rule: pbind_cases)
    case (1 rc)
    then show ?thesis using staged_clause_cases[OF _ keeps] by (auto simp: clause_outcome_def)
  next
    case (2 new m)
    then have body: "?body p = Some (Inr new, m)" "frame p m" using staged_clause_cases[OF 2(1) keeps] by auto
    have "published ?base h new" using gives_clause_body[of ?base h] False body(1) unfolding gives_def by (meson not_le)
    then show ?thesis using rules_added_after[OF publish_added[OF body(2)] next_outcome_added[OF 2(2)]]
      by (auto simp: clause_outcome_def)
  qed
qed

lemma fact_clause_outcome:
  assumes "parse_fact_clause h anon p = Some (res, q)" shows "clause_outcome res p q"
proof -
  let ?r = "ps_ruleset p"
  have added: "clause_outcome res p q"
    if "pbind (modify (on_ruleset (add_policy_fact h))) (\<lambda>_. next_token) p = Some (res, q)"
      "has_kind ?r PRED_KIND_POLICY_FACT (predicate_id h)" "length (rs_facts ?r) < MAX_RULE_FACTS" "\<not> list_ex is_var (terms h)"
  proof -
    have "fact_added h ?r (ps_ruleset (on_ruleset (add_policy_fact h) p))"
      using that by (simp add: fact_added_def on_ruleset_def add_policy_fact_def Suc_le_eq)
    from fact_added_after[OF this next_outcome_added[OF that(1)]] show ?thesis by (auto simp: clause_outcome_def)
  qed
  show ?thesis using assms unfolding parse_fact_clause_def with_state_def Let_def
    by (auto split: if_splits option.splits simp: has_kind_def not_le intro: added dest: refused_outcome)
qed

lemma clause_outcome_holds:
  assumes "parse_clause p = Some (res, q)" shows "clause_outcome res p q"
proof -
  define g where "g = (\<lambda>source. \<lambda>(hd_atom, anon). with_state (\<lambda>p.
          if kind_of p = TOKEN_DOT then parse_fact_clause hd_atom anon
          else if kind_of p \<noteq> TOKEN_NECK
          then invalid DIAG_PARSER_EXPECTED_NECK ''expected rule neck'' ''end direct facts with a dot or introduce a rule body with :-''
          else if anon
          then refuse DIAG_PARSER_ANONYMOUS_VARIABLE_IN_HEAD ''anonymous variable is not allowed in rule heads''
                 ''use named head variables bound by positive body atoms''
                 (note_predicate (ps_ruleset p) (predicate_id hd_atom)) MAELYS_ERR_INVALID_FIELD
          else pbind next_token (\<lambda>_. parse_rule_clause source hd_atom)))"
  have rule: "clause_outcome res m q" if "pbind next_token (\<lambda>_. parse_rule_clause source h) m = Some (res, q)" for source h m res q
    by (rule pbind_outcome[OF keeps_next _ that]) (rule rule_clause_outcome)
  have tail: "clause_outcome res m q" if "g source (h, anon) m = Some (res, q)" for source h anon m res q
    using that unfolding g_def with_state_def invalid_def prod.case
    by (auto split: if_splits dest: fact_clause_outcome rule refused_outcome)
  let ?s = "(tk_line (ps_tok p), tk_column (ps_tok p))"
  have run: "pbind (modify (\<lambda>p. p\<lparr>ps_anonymous_var_count := 0\<rparr>)) (\<lambda>_. pbind reserve_letter_variables (\<lambda>_.
      pbind (parse_atom TERM_CTX_HEAD_CANDIDATE) (g ?s))) p = Some (res, q)"
    using assms unfolding parse_clause_def g_def by (simp only: with_state_apply Let_def)
  have atom: "clause_outcome res m q" if "pbind (parse_atom TERM_CTX_HEAD_CANDIDATE) (g ?s) m = Some (res, q)" for m res q
    by (rule pbind_outcome[OF keeps_parse_atom _ that]) (metis tail surj_pair)
  have letters: "clause_outcome res m q"
    if "pbind reserve_letter_variables (\<lambda>_. pbind (parse_atom TERM_CTX_HEAD_CANDIDATE) (g ?s)) m = Some (res, q)" for m res q
    by (rule pbind_outcome[OF _ _ that]) (auto simp: reserve_letter_variables_def intro: keeps_local atom)
  show ?thesis by (rule pbind_outcome[OF _ _ run]) (auto intro: keeps_local letters)
qed

section \<open>Programs within their bounds\<close>

definition rule_bounded :: "nat \<Rightarrow> rule \<Rightarrow> bool" where
  "rule_bounded i r \<longleftrightarrow> rule_id r = i + 1 \<and> 1 \<le> length (body r) \<and> length (body r) \<le> MAX_BODY_LITERALS \<and>
     length (expr_nodes r) \<le> MAX_ARITH_EXPR_NODES \<and> list_all (roots_in (expr_nodes r)) (body r)"

definition program_bounded :: "ruleset \<Rightarrow> bool" where
  "program_bounded r \<longleftrightarrow> length (rs_rules r) \<le> MAX_RULES \<and> (\<forall>i < length (rs_rules r). rule_bounded i (rs_rules r ! i)) \<and>
     length (rs_facts r) \<le> MAX_RULE_FACTS \<and> list_all (\<lambda>f. \<not> list_ex is_var (terms f)) (rs_facts r) \<and>
     length (rs_filter_programs r) \<le> MAX_FILTER_PROGRAMS \<and> length (rs_filter_pattern_pool r) \<le> FILTER_PATTERN_POOL_BYTES \<and>
     length (rs_variable_name_pool r) \<le> RULE_VARIABLE_NAME_POOL_BYTES"

lemma published_bounded: "published base h new \<Longrightarrow> i < length new \<Longrightarrow> rule_bounded (base + i) (new ! i)"
proof -
  assume p: "published base h new" and i: "i < length new"
  have "rule_id (new ! i) = map rule_id new ! i" using i by simp
  also have "\<dots> = Suc base + i" using p i by (simp add: published_def del: upt_Suc)
  finally show ?thesis using p nth_mem[OF i] by (auto simp: published_def rule_bounded_def staged_ok_def)
qed

lemma rules_added_bounded:
  assumes "program_bounded r" "rules_added h new r s" shows "program_bounded s"
proof -
  have "rule_bounded i ((rs_rules r @ new) ! i)" if "i < length (rs_rules r @ new)" for i
    using that assms published_bounded[of "length (rs_rules r)" h new "i - length (rs_rules r)"]
    by (auto simp: program_bounded_def rules_added_def nth_append)
  moreover have "length (rs_rules r @ new) \<le> MAX_RULES" using assms(2) by (auto simp: rules_added_def published_def staged_ok_def)
  ultimately show ?thesis using assms by (auto simp: program_bounded_def rules_added_def)
qed

lemma fact_added_bounded: "program_bounded r \<Longrightarrow> fact_added f r s \<Longrightarrow> program_bounded s"
  by (auto simp: program_bounded_def fact_added_def)

lemma still_bounded: "program_bounded (ps_ruleset p) \<Longrightarrow> still p q \<Longrightarrow> program_bounded (ps_ruleset q)"
  using still_fields[of p q] by (simp add: program_bounded_def)

lemma outcome_bounded: "clause_outcome res p q \<Longrightarrow> program_bounded (ps_ruleset p) \<Longrightarrow> program_bounded (ps_ruleset q)"
  using rules_added_bounded fact_added_bounded still_bounded unfolding clause_outcome_def by blast

text \<open>What every clause keeps, a text keeps.\<close>

lemma clauses_keep:
  assumes step: "\<And>res p q. clause_outcome res p q \<Longrightarrow> P (ps_ruleset p) \<Longrightarrow> P (ps_ruleset q)"
  shows "parse_clauses fuel p = Some (res, q) \<Longrightarrow> P (ps_ruleset p) \<Longrightarrow> P (ps_ruleset q)"
proof (induction fuel arbitrary: p)
  case (Suc fuel)
  show ?case
  proof (cases "kind_of p = TOKEN_EOF")
    case True
    then show ?thesis using Suc.prems by (simp add: with_state_apply ret_def)
  next
    case False
    then have "pbind parse_clause (\<lambda>_. parse_clauses fuel) p = Some (res, q)" using Suc.prems(1) by (simp add: with_state_apply)
    then show ?thesis
    proof (cases rule: pbind_cases)
      case 1
      then show ?thesis using step clause_outcome_holds Suc.prems(2) by blast
    next
      case (2 a m)
      then show ?thesis using Suc.IH step[OF clause_outcome_holds[OF 2(1)] Suc.prems(2)] by blast
    qed
  qed
qed simp

lemma clauses_bounded:
  "parse_clauses fuel p = Some (res, q) \<Longrightarrow> program_bounded (ps_ruleset p) \<Longrightarrow> program_bounded (ps_ruleset q)"
  using clauses_keep[of program_bounded] outcome_bounded by blast

lemma outcome_registry: "clause_outcome res p q \<Longrightarrow> rs_registry (ps_ruleset p) = reg \<Longrightarrow> rs_registry (ps_ruleset q) = reg"
  using still_fields(6)[of p q] by (auto simp: clause_outcome_def fact_added_def rules_added_def)

lemma cut_bounded: "cut_back (unvalidated r) s \<Longrightarrow> program_bounded r \<Longrightarrow> program_bounded s"
  by (auto simp: cut_back_def unvalidated_def program_bounded_def list_all_iff) (meson in_set_takeD)

lemma prefix_bounded: "validate_parsed_prefix r file origin d = (rc, r', d') \<Longrightarrow> program_bounded r \<Longrightarrow> program_bounded r'"
  using validate_parsed_prefix_cut cut_bounded by blast

lemma earliest_bounded:
  "earliest_clause_error rc r file origin d = (rc', r', d') \<Longrightarrow> program_bounded r \<Longrightarrow> program_bounded r'"
  unfolding earliest_clause_error_def
  by (auto split: option.splits if_splits prod.splits maelys_result.splits dest: prefix_bounded)


text \<open>
  (C13) No text makes the parser overrun an array. When the ruleset it starts from is within its bounds, so is the one it
  leaves behind, whether the text is accepted or refused and whichever clause is refused: at most 256 rules with their
  position as identifier and bodies of one to eight literals, at most 32 expression nodes per rule with every arithmetic
  comparison pointing at one of them, ground facts within their capacity, and filter programs, patterns and variable
  names within their pools.
\<close>

theorem parsed_program_bounds:
  assumes "parse_only r src file flags origin diag = Some (rc, r', origin', diag')" "program_bounded r"
  shows "program_bounded r'"
proof -
  have start: "program_bounded (ps_ruleset q)" if "next_token p = Some (res, q)" "program_bounded (ps_ruleset p)" for p q res
    using still_bounded[OF that(2) st.keepsD[OF keeps_next that(1)]] .
  show ?thesis using assms unfolding parse_only_def
    by (auto split: if_splits prod.splits option.splits sum.splits simp del: parse_clauses.simps dest!: start clauses_bounded earliest_bounded)
qed

lemma parse_only_registry:
  assumes "parse_only r src file flags origin diag = Some (rc, r', origin', diag')"
  shows "rs_registry r' = rs_registry r"
proof -
  let ?P = "\<lambda>s. rs_registry s = rs_registry r"
  have start: "?P (ps_ruleset q)" if "next_token p = Some (res, q)" "?P (ps_ruleset p)" for p q res
    using still_fields(6)[OF st.keepsD[OF keeps_next that(1)]] that(2) by simp
  have clauses: "?P (ps_ruleset q)" if "parse_clauses fuel p = Some (res, q)" "?P (ps_ruleset p)" for fuel p q res
    by (rule clauses_keep[of ?P, OF _ that]) (rule outcome_registry)
  have prefix: "rs_registry s' = rs_registry s" if "validate_parsed_prefix s file og d = (rc, s', d')" for s s' og d rc d'
    using validate_parsed_prefix_cut[OF that] by (auto simp: cut_back_def unvalidated_def)
  have error: "?P s'" if "earliest_clause_error rc s file og d = (rc', s', d')" "?P s" for rc rc' s s' og d d'
    using that by (auto simp: earliest_clause_error_def split: option.splits if_splits prod.splits maelys_result.splits dest: prefix)
  show ?thesis using assms unfolding parse_only_def
    by (auto split: if_splits prod.splits option.splits sum.splits simp del: parse_clauses.simps dest!: start clauses error)
qed


end
