(* ===== verification/Sample_Parse.thy ===== *)
theory Sample_Parse
  imports Parser_Clause Sample_Run
begin

text \<open>
  A text in the kernel: \<^verbatim>\<open>p(A):-q(A).\<close> is parsed token by token, accepted by validation, and the program it denotes is
  evaluated. The theory applies the properties of the parser to it.
\<close>

section \<open>Tokens of the text\<close>

definition copy_text :: string where
  "copy_text = ''p(A):-q(A).''"

definition lex_at :: "nat \<Rightarrow> diagnostic option \<Rightarrow> lexer" where
  "lex_at k d = \<lparr>lx_src = copy_text, lx_pos = k, lx_line = 1, lx_column = k + 1, lx_error = MAELYS_OK, lx_file = [], lx_diag = d\<rparr>"

definition tok_at :: "nat \<Rightarrow> token_kind \<Rightarrow> string \<Rightarrow> token" where
  "tok_at k kind s = \<lparr>tk_kind = kind, tk_text = s, tk_integer = 0, tk_boolean = 0, tk_line = 1, tk_column = k + 1\<rparr>"

lemma lexed:
  "lexer_next (lex_at 0 d) = (MAELYS_OK, tok_at 0 TOKEN_PREDICATE ''p'', lex_at 1 d)"
  "lexer_next (lex_at (Suc 0) d) = (MAELYS_OK, tok_at 1 TOKEN_LPAREN [], lex_at 2 d)"
  "lexer_next (lex_at 2 d) = (MAELYS_OK, tok_at 2 TOKEN_VARIABLE ''A'', lex_at 3 d)"
  "lexer_next (lex_at 3 d) = (MAELYS_OK, tok_at 3 TOKEN_RPAREN [], lex_at 4 d)"
  "lexer_next (lex_at 4 d) = (MAELYS_OK, tok_at 4 TOKEN_NECK [], lex_at 6 d)"
  "lexer_next (lex_at 6 d) = (MAELYS_OK, tok_at 6 TOKEN_PREDICATE ''q'', lex_at 7 d)"
  "lexer_next (lex_at 7 d) = (MAELYS_OK, tok_at 7 TOKEN_LPAREN [], lex_at 8 d)"
  "lexer_next (lex_at 8 d) = (MAELYS_OK, tok_at 8 TOKEN_VARIABLE ''A'', lex_at 9 d)"
  "lexer_next (lex_at 9 d) = (MAELYS_OK, tok_at 9 TOKEN_RPAREN [], lex_at 10 d)"
  "lexer_next (lex_at 10 d) = (MAELYS_OK, tok_at 10 TOKEN_DOT [], lex_at 11 d)"
  "lexer_next (lex_at 11 d) = (MAELYS_OK, tok_at 11 TOKEN_EOF [], lex_at 11 d)"
  by code_simp+

lemma lex_at_diag: "(lex_at k d)\<lparr>lx_diag := e\<rparr> = lex_at k e"
  by (simp add: lex_at_def)

lemma tok_at_fields [simp]:
  "tk_kind (tok_at k kind s) = kind" "tk_text (tok_at k kind s) = s" "tk_line (tok_at k kind s) = 1" "tk_column (tok_at k kind s) = k + 1"
  by (simp_all add: tok_at_def)

section \<open>Running the parser\<close>

text \<open>The simplifier runs a parser from the outside: it does not look into what comes after the current step.\<close>

lemma pbind_lazy: "pbind m f p = pbind m f p"
  by (rule refl)

lemma with_state_lazy: "with_state f p = with_state f p"
  by (rule refl)

lemma staged_clause_lazy: "staged_clause m p = staged_clause m p"
  by (rule refl)

lemma pbind_run: "pbind m f p = (case m p of None \<Rightarrow> None | Some (Inl rc, q) \<Rightarrow> Some (Inl rc, q) | Some (Inr x, q) \<Rightarrow> f x q)"
  by (simp add: pbind_def)

lemma staged_run: "m p = Some (Inr x, q) \<Longrightarrow> staged_clause m p = Some (Inr x, q)"
  by (simp add: staged_clause_def)

lemma simple_runs: "modify g p = Some (Inr (), g p)" "ret x p = Some (Inr x, p)"
  by (simp_all add: modify_def ret_def)

lemma next_run: "next_token p = (case lexer_next (ps_lexer p) of
    (rc, tok, l) \<Rightarrow> Some (if rc = MAELYS_OK then Inr () else Inl rc, p\<lparr>ps_lexer := l, ps_tok := tok\<rparr>))"
  by (simp add: next_token_def)

lemma terms_run: "parse_terms pred ctx MAX_TERMS ts a = parse_terms pred ctx (Suc (MAX_TERMS - 1)) ts a"
  by (simp add: limit_defs)

lemma body_room: "(case MAX_BODY_LITERALS of 0 \<Rightarrow> a | Suc room \<Rightarrow> f room) = f 7"
  by (simp add: limit_defs)

lemmas runs = pbind_run simple_runs with_state_apply next_run expect_def terms_run parse_term_def named_variable_def
  NAMED_VARIABLE_COUNT_def byte_def lexed lex_at_diag Let_def

definition copy_ruleset :: ruleset where
  "copy_ruleset = demo_ruleset\<lparr>rs_rules := [], rs_rule_sources := [], rs_program_validated := False, rs_has_positive_recursion := False,
     rs_registry := \<lparr>defs = [\<lparr>pred_name = ''q'', pred_arity = 1, kind_flags = 1\<rparr>, \<lparr>pred_name = ''p'', pred_arity = 1, kind_flags = 6\<rparr>],
       atoms = [], frozen = True\<rparr>\<rparr>"

definition copy_rule :: rule where
  "copy_rule = \<lparr>head = Fact 1 [TERM_VAR 0], body = [LIT_ATOM (Fact 0 [TERM_VAR 0])], expr_nodes = [], rule_id = 1\<rparr>"

lemma copy_found: "predicate_registry_find (rs_registry copy_ruleset) ''p'' (Suc 0) = Some 1"
  "predicate_registry_find (rs_registry copy_ruleset) ''q'' (Suc 0) = Some 0" "predicate_name_exists (rs_registry copy_ruleset) ''q''"
  by code_simp+

lemma copy_fields: "rs_rules copy_ruleset = []" "rs_facts copy_ruleset = []" "rs_filter_programs copy_ruleset = []"
  "rs_filter_pattern_pool copy_ruleset = []" "rs_variable_name_pool copy_ruleset = []" "rs_variable_name_rows copy_ruleset = []"
  "rs_rule_sources copy_ruleset = []" "rs_variable_name_offsets copy_ruleset = []" "rs_loaded copy_ruleset" "frozen (rs_registry copy_ruleset)"
  by (simp_all add: copy_ruleset_def demo_ruleset_def)

definition copy_parser :: "diagnostic option \<Rightarrow> parse_origin option \<Rightarrow> parser" where
  "copy_parser d origin = \<lparr>ps_lexer = lex_at 1 d, ps_tok = tok_at 0 TOKEN_PREDICATE ''p'', ps_ruleset = copy_ruleset, ps_file = [],
     ps_anonymous_var_count = 0, ps_named_slots = 0, ps_variables = [], ps_allow_undeclared = False, ps_origin = origin\<rparr>"

lemma copy_reserved: "reserve_loop (lex_at (Suc 0) None) (tok_at 0 TOKEN_PREDICATE ''p'') [] 0 = 1"
  by (simp add: reserve_loop.simps lexed Let_def NAMED_VARIABLE_COUNT_def)

lemma copy_head:
  "parse_atom TERM_CTX_HEAD_CANDIDATE ((copy_parser d origin)\<lparr>ps_named_slots := 1\<rparr>) =
     Some (Inr (Fact 1 [TERM_VAR 0], False), (copy_parser d origin)\<lparr>ps_lexer := lex_at 6 d, ps_tok := tok_at 4 TOKEN_NECK [],
       ps_named_slots := 1, ps_variables := [(''A'', 0)]\<rparr>)"
  by (simp add: copy_parser_def parse_atom_def runs copy_found cong: pbind_lazy with_state_lazy)

lemma copy_body:
  "parse_body MAX_BODY_LITERALS 0 h [\<lparr>head = h, body = [], expr_nodes = [], rule_id = 0\<rparr>]
     ((copy_parser d origin)\<lparr>ps_lexer := lex_at 7 d, ps_tok := tok_at 6 TOKEN_PREDICATE ''q'', ps_named_slots := 1, ps_variables := [(''A'', 0)]\<rparr>) =
   Some (Inr [\<lparr>head = h, body = [LIT_ATOM (Fact 0 [TERM_VAR 0])], expr_nodes = [], rule_id = 0\<rparr>],
     (copy_parser d origin)\<lparr>ps_lexer := lex_at 11 d, ps_tok := tok_at 10 TOKEN_DOT [], ps_named_slots := 1, ps_variables := [(''A'', 0)]\<rparr>)"
  by (simp add: copy_parser_def body_room parse_body.simps parse_literal_def token_starts_aggregate_def parse_atom_def runs copy_found
      token_is_contextual_or_def extend_rules_def cong: pbind_lazy with_state_lazy)

lemma copy_normalized:
  "normalize_rules 0 [\<lparr>head = Fact (Suc 0) [TERM_VAR 0], body = [LIT_ATOM (Fact 0 [TERM_VAR 0])], expr_nodes = [], rule_id = 0\<rparr>] q = Some (Inr [copy_rule], q)"
  by (simp add: normalize_anonymous_variables_def runs copy_rule_def cong: pbind_lazy)

text \<open>The ruleset after the clause.\<close>

definition copied_ruleset :: ruleset where
  "copied_ruleset = copy_ruleset\<lparr>rs_rules := [copy_rule], rs_variable_name_rows := [1], rs_variable_name_offsets := [((0, 0), 1)],
     rs_variable_name_pool := [CHR ''A'', CHR 0x00], rs_rule_sources := [(1, 1)]\<rparr>"

lemma copy_staged:
  "staged_clause (clause_body 0 (Fact 1 [TERM_VAR 0]))
     ((copy_parser d origin)\<lparr>ps_lexer := lex_at 7 d, ps_tok := tok_at 6 TOKEN_PREDICATE ''q'', ps_named_slots := 1, ps_variables := [(''A'', 0)]\<rparr>) =
   Some (Inr [copy_rule], (copy_parser d origin)\<lparr>ps_lexer := lex_at 11 d, ps_tok := tok_at 10 TOKEN_DOT [], ps_named_slots := 1, ps_variables := [(''A'', 0)]\<rparr>)"
  by (rule staged_run) (simp add: clause_body_def pbind_run copy_body with_state_apply copy_normalized del: normalize_rules.simps cong: pbind_lazy with_state_lazy)

lemma copy_rule_clause:
  "\<exists>q. parse_rule_clause (1, 1) (Fact 1 [TERM_VAR 0])
     ((copy_parser d origin)\<lparr>ps_lexer := lex_at 7 d, ps_tok := tok_at 6 TOKEN_PREDICATE ''q'', ps_named_slots := 1, ps_variables := [(''A'', 0)]\<rparr>) =
       Some (Inr (), q) \<and> ps_ruleset q = copied_ruleset \<and> kind_of q = TOKEN_EOF \<and> lx_diag (ps_lexer q) = d"
proof -
  let ?p = "(copy_parser d origin)\<lparr>ps_lexer := lex_at 7 d, ps_tok := tok_at 6 TOKEN_PREDICATE ''q'', ps_named_slots := 1, ps_variables := [(''A'', 0)]\<rparr>"
  have base: "length (rs_rules (ps_ruleset ?p)) = 0" by (simp add: copy_parser_def copy_fields)
  then have "length (rs_rules (ps_ruleset ?p)) < MAX_RULES" by (simp add: limit_defs)
  from rule_clause_run[OF this, of "(1, 1)" "Fact 1 [TERM_VAR 0]"] show ?thesis unfolding base pbind_run copy_staged
    by (simp add: simple_runs pbind_run next_run publish_rules_def on_ruleset_def write_from_def retain_name_def copy_parser_def copy_fields
        RULE_VARIABLE_NAME_POOL_BYTES_def copied_ruleset_def lexed Let_def) (simp add: lex_at_def copy_ruleset_def demo_ruleset_def)
qed

lemma copy_clause:
  "\<exists>q. parse_clause (copy_parser d origin) = Some (Inr (), q) \<and> ps_ruleset q = copied_ruleset \<and> kind_of q = TOKEN_EOF \<and> lx_diag (ps_lexer q) = d"
proof -
  let ?p = "(copy_parser d origin)\<lparr>ps_lexer := lex_at 6 d, ps_tok := tok_at 4 TOKEN_NECK [], ps_named_slots := 1, ps_variables := [(''A'', 0)]\<rparr>"
  let ?q = "(copy_parser d origin)\<lparr>ps_lexer := lex_at 7 d, ps_tok := tok_at 6 TOKEN_PREDICATE ''q'', ps_named_slots := 1, ps_variables := [(''A'', 0)]\<rparr>"
  have "reserve_letter_variables (copy_parser d origin) = Some (Inr (), (copy_parser d origin)\<lparr>ps_named_slots := 1\<rparr>)"
    using copy_reserved by (simp add: reserve_letter_variables_def modify_def copy_parser_def lex_at_diag)
  moreover have "(copy_parser d origin)\<lparr>ps_anonymous_var_count := 0\<rparr> = copy_parser d origin" by (simp add: copy_parser_def)
  moreover have "next_token ?p = Some (Inr (), ?q)" by (simp add: copy_parser_def next_run lexed)
  moreover have "ps_tok (copy_parser d origin) = tok_at 0 TOKEN_PREDICATE ''p''" by (simp add: copy_parser_def)
  ultimately show ?thesis unfolding parse_clause_def using copy_head[of d origin] copy_rule_clause[of d origin]
    by (simp add: pbind_run simple_runs with_state_apply Let_def cong: pbind_lazy with_state_lazy)
qed

section \<open>The whole text\<close>

lemma copy_lexer: "lexer_init_ex copy_text [] d = (MAELYS_OK, map_option (\<lambda>_. diagnostic_clear) d, Some (lex_at 0 (map_option (\<lambda>_. diagnostic_clear) d)))"
  by code_simp

lemma copy_parsed:
  "\<exists>origin'. parse_only copy_ruleset copy_text [] 0 origin (Some diagnostic_clear) = Some (MAELYS_OK, copied_ruleset, origin', Some diagnostic_clear)"
proof -
  obtain q where q: "parse_clause (copy_parser (Some diagnostic_clear) origin) = Some (Inr (), q)" "ps_ruleset q = copied_ruleset" "kind_of q = TOKEN_EOF"
    "lx_diag (ps_lexer q) = Some diagnostic_clear"
    using copy_clause by blast
  have start: "next_token \<lparr>ps_lexer = lex_at 0 (Some diagnostic_clear), ps_tok = zero_token, ps_ruleset = copy_ruleset, ps_file = [], ps_anonymous_var_count = 0,
      ps_named_slots = 0, ps_variables = [], ps_allow_undeclared = False, ps_origin = origin\<rparr> = Some (Inr (), copy_parser (Some diagnostic_clear) origin)"
    by (simp add: next_run lexed copy_parser_def)
  have "parse_clauses (Suc (Suc n)) (copy_parser (Some diagnostic_clear) origin) = Some (Inr (), q)" for n
    using q by (simp add: with_state_apply pbind_run simple_runs cong: pbind_lazy with_state_lazy) (simp add: copy_parser_def)
  then show ?thesis unfolding parse_only_def using copy_fields(9,10) copy_lexer[of "Some diagnostic_clear"] start q(2-4)
    by (simp add: predicate_registry_is_frozen_def del: parse_clauses.simps)
qed

text \<open>Validation accepts it.\<close>

definition copy_program :: ruleset where
  "copy_program = copied_ruleset\<lparr>rs_program_validated := True\<rparr>"

lemmas copy_defs = copied_ruleset_def copy_ruleset_def demo_ruleset_def copy_rule_def

lemma copied_checks:
  "valid_atom copied_ruleset (Fact 1 [TERM_VAR 0]) True" "valid_atom copied_ruleset (Fact 0 [TERM_VAR 0]) True"
  "rule_fault copy_rule = None" "\<not> base_head (the (predicate_registry_get (rs_registry copied_ruleset) 1))"
  by code_simp+

lemma copied_validated: "validate_program copied_ruleset [] origin diagnostic_clear = (MAELYS_OK, copy_program, diagnostic_clear)"
proof -
  have same: "copied_ruleset\<lparr>rs_program_validated := False, rs_aggregates_supported := False, rs_compiled_fingerprint := []\<rparr> = copied_ruleset"
    by (simp add: copy_defs)
  have mark: "mark_features (LIT_ATOM a) copied_ruleset = copied_ruleset" for a by (simp add: mark_features_def)
  have "validate_rule_at [] origin diagnostic_clear 0 copy_rule copied_ruleset = Inr copied_ruleset"
    using copied_checks mark
    by (simp add: validate_rule_at_def copy_rule_def Let_def limit_defs valid_expressions_def valid_literal_def validate_rule_def
        directly_recursive_def split: prod.split)
  then have rules: "validate_rules [] origin diagnostic_clear 0 (rs_rules copied_ruleset) copied_ruleset = Inr copied_ruleset"
    by (simp add: copied_ruleset_def[THEN arg_cong, of rs_rules])
  have bounds: "within_bounds copied_ruleset" "rs_facts copied_ruleset = []" "rs_filter_programs copied_ruleset = []"
    "rs_loaded copied_ruleset" "frozen (rs_registry copied_ruleset)" by (simp_all add: within_bounds_def copy_defs limit_defs)
  have "assign_strata p copied_ruleset diagnostic_clear = (MAELYS_OK, copied_ruleset, diagnostic_clear)" for p
    by (simp add: assign_strata_def copy_defs)
  then show ?thesis unfolding validate_program_def validate_program_impl_def Let_def same
    using rules bounds by (simp add: copy_program_def split: prod.split)
qed

lemma copy_accepted:
  "parse_ruleset_ex_with_flags copy_ruleset copy_text [] 0 diagnostic_clear = Some (MAELYS_OK, copy_program, diagnostic_clear)"
  using copy_parsed[of "Some \<lparr>po_rules = [], po_eof = (0, 0)\<rparr>"] copied_validated by (auto simp: parse_ruleset_ex_with_flags_def)

text \<open>The evaluation over one input fact.\<close>

definition copy_edb :: edb where
  "copy_edb = sample_edb\<lparr>fact_set := \<lparr>set_facts = [Fact 0 [TERM_INT 1]], set_capacity = 16, set_sorted = True\<rparr>,
     facts_per_pred := (replicate MAX_PREDICATES 0)[0 := 1], registry := rs_registry copy_ruleset\<rparr>"

lemma copy_edb_inv: "edb_inv copy_edb"
proof -
  have "registry_inv (rs_registry copy_ruleset)"
    by (simp add: registry_inv_def copy_defs entry_valid_def limit_defs NAME_BYTES_def valid_kind_flags_def kind_defs)
  moreover have "pred_count p (edb_facts copy_edb) = (if p = 0 then 1 else 0)" for p by (simp add: copy_edb_def pred_count_def)
  ultimately show ?thesis using sym_inv_init unfolding edb_inv_def
    by (simp add: copy_edb_def copy_defs sample_defs limit_defs fact_declared_def edb_kind_def kind_defs nth_list_update)
qed

definition copy_prepared :: solve_state where
  "copy_prepared = (acquired_state False (FRESH True) copy_program copy_edb)\<lparr>
     edb_ranges := (replicate MAX_PREDICATES (0, 0))[0 := (0, Suc 0)]\<rparr>"

lemma copy_prepare: "prepare False (FRESH True) copy_program copy_edb = Inr copy_prepared"
  by (simp add: prepare_def copy_prepared_def acquired_state_def copy_program_def copy_edb_def copy_defs sample_defs
      ruleset_filters_structurally_valid_def fact_set_structurally_valid_def fact_structurally_valid_def predicate_registry_get_def
      build_edb_ranges_def fact_slice_structurally_valid_def limit_defs)

lemma copy_plan: "build_static_join_order copy_program copy_rule None = Inr [0]" "delta_jobs (literal_delta_eligible copy_program) [copy_rule] = []"
  by code_simp+

definition copy_step :: "bool \<times> solve_state" where
  "copy_step = derive_planned copy_program copy_rule None 0 [0] empty_bindings PROOF_NO_PARENT copy_prepared"

lemmas copy_eval = copy_step_def copy_prepared_def copy_program_def copy_edb_def copy_defs sample_defs run_defs

lemma copy_step_ok: "fst copy_step" "idb_facts (snd copy_step) = [Fact 1 [TERM_INT 1]]"
  by (simp_all add: copy_eval)

definition copy_first :: solve_state where
  "copy_first = advance 0 (snd copy_step)"

lemma copy_view: "loop_view copy_first = ((0, 1, 1), False, False, MAX_IDB_FACTS, [Fact 1 [TERM_INT 1]])"
  "loop_view (advance 1 copy_first) = ((1, 1, 1), False, False, MAX_IDB_FACTS, [Fact 1 [TERM_INT 1]])"
  by (simp_all add: copy_first_def copy_eval loop_view_def)

lemma copy_solved: "\<exists>st. solve_with (FRESH True) copy_program copy_edb = Inr st"
proof -
  have rules: "rs_rules copy_program = [copy_rule]" "\<not> rs_negation_supported copy_program" "\<not> rs_aggregates_supported copy_program"
    by (simp_all add: copy_program_def copy_defs)
  have "apply_rule True copy_program 0 (copy_rule, None) copy_prepared = Inr (snd copy_step)"
    using copy_plan(1) copy_step_ok(1) by (auto simp: apply_rule_def copy_step_def split: prod.splits)
  then have init: "run_jobs True copy_program 0 (initial_jobs [copy_rule]) copy_prepared = Inr (snd copy_step)" by (simp add: initial_jobs_def)
  let ?rounds = "rounds True copy_program []"
  have r: "?rounds (Suc n) 1 copy_first = ?rounds n 2 (advance 1 copy_first)" "?rounds (Suc n) 2 (advance 1 copy_first) = Inr (True, advance 1 copy_first)" for n
    using copy_view by (simp_all add: loop_view_def numeral_2_eq_2)
  have depth: "MAX_DEPTH = Suc (Suc 8)" by (simp add: limit_defs)
  have "?rounds MAX_DEPTH 1 copy_first = Inr (True, advance 1 copy_first)" unfolding depth r ..
  then have "solve_with (FRESH True) copy_program copy_edb = finish (advance 1 copy_first)"
    unfolding solve_with_def solve_once_run_def copy_prepare rules(1) copy_plan(2) using rules init by (simp add: copy_first_def)
  moreover have "\<exists>st. finish (advance 1 copy_first) = Inr st"
    using finish_spec[of "advance 1 copy_first"] copy_view(2) by (auto simp: loop_view_def limit_defs)
  ultimately show ?thesis by simp
qed

section \<open>The properties on the text\<close>


theorem parsed_program_bounds_witness: "program_bounded copied_ruleset"
proof -
  have "program_bounded copy_ruleset" by (simp add: program_bounded_def copy_fields)
  moreover obtain origin where "parse_only copy_ruleset copy_text [] 0 None (Some diagnostic_clear) = Some (MAELYS_OK, copied_ruleset, origin, Some diagnostic_clear)"
    using copy_parsed by blast
  ultimately show ?thesis using parsed_program_bounds by blast
qed


end
