(* ===== verification/Sha256.thy ===== *)
theory Sha256
  imports Main "HOL-Library.Word"
begin

unbundle bit_operations_syntax

text \<open>
  The hash of \<^verbatim>\<open>common/maelys_sha256.c\<close>, which identifies policy texts and compiled programs: a context that takes
  its input in pieces of any size, and the one-shot functions over it. The standard, FIPS 180-4, is stated beside it
  on whole messages, with the message schedule as a recursion and the padding as a function of the length; the
  pieces are shown not to matter. A byte is an \<^typ>\<open>8 word\<close>.
\<close>

type_synonym bytes = "8 word list"

section \<open>The code\<close>

definition rotr32 :: "32 word \<Rightarrow> nat \<Rightarrow> 32 word" where
  "rotr32 x n = drop_bit n x OR push_bit (32 - n) x"

definition load_be32 :: "bytes \<Rightarrow> 32 word" where
  "load_be32 p = push_bit 24 (ucast (p ! 0)) OR push_bit 16 (ucast (p ! 1)) OR push_bit 8 (ucast (p ! 2)) OR ucast (p ! 3)"

definition store_be32 :: "32 word \<Rightarrow> bytes" where
  "store_be32 v = [ucast (drop_bit 24 v), ucast (drop_bit 16 v), ucast (drop_bit 8 v), ucast v]"

text \<open>The loop of \<^verbatim>\<open>store_be64\<close> fills its eight cells from the last one.\<close>

fun store_be64_loop :: "nat \<Rightarrow> 64 word \<Rightarrow> bytes \<Rightarrow> bytes" where
  "store_be64_loop 0 v p = p"
| "store_be64_loop (Suc n) v p = store_be64_loop n (drop_bit 8 v) (ucast v # p)"

definition store_be64 :: "64 word \<Rightarrow> bytes" where
  "store_be64 v = store_be64_loop 8 v []"

definition round_constants :: "32 word list" where
  "round_constants =
     [0x428a2f98, 0x71374491, 0xb5c0fbcf, 0xe9b5dba5, 0x3956c25b, 0x59f111f1, 0x923f82a4, 0xab1c5ed5,
      0xd807aa98, 0x12835b01, 0x243185be, 0x550c7dc3, 0x72be5d74, 0x80deb1fe, 0x9bdc06a7, 0xc19bf174,
      0xe49b69c1, 0xefbe4786, 0x0fc19dc6, 0x240ca1cc, 0x2de92c6f, 0x4a7484aa, 0x5cb0a9dc, 0x76f988da,
      0x983e5152, 0xa831c66d, 0xb00327c8, 0xbf597fc7, 0xc6e00bf3, 0xd5a79147, 0x06ca6351, 0x14292967,
      0x27b70a85, 0x2e1b2138, 0x4d2c6dfc, 0x53380d13, 0x650a7354, 0x766a0abb, 0x81c2c92e, 0x92722c85,
      0xa2bfe8a1, 0xa81a664b, 0xc24b8b70, 0xc76c51a3, 0xd192e819, 0xd6990624, 0xf40e3585, 0x106aa070,
      0x19a4c116, 0x1e376c08, 0x2748774c, 0x34b0bcb5, 0x391c0cb3, 0x4ed8aa4a, 0x5b9cca4f, 0x682e6ff3,
      0x748f82ee, 0x78a5636f, 0x84c87814, 0x8cc70208, 0x90befffa, 0xa4506ceb, 0xbef9a3f7, 0xc67178f2]"

type_synonym registers = "32 word \<times> 32 word \<times> 32 word \<times> 32 word \<times> 32 word \<times> 32 word \<times> 32 word \<times> 32 word"

text \<open>The three loops of \<^verbatim>\<open>transform\<close>: the block as words, the schedule behind them, the rounds.\<close>

definition schedule_word :: "32 word list \<Rightarrow> nat \<Rightarrow> 32 word" where
  "schedule_word w i =
     (let s0 = rotr32 (w ! (i - 15)) 7 XOR rotr32 (w ! (i - 15)) 18 XOR drop_bit 3 (w ! (i - 15));
          s1 = rotr32 (w ! (i - 2)) 17 XOR rotr32 (w ! (i - 2)) 19 XOR drop_bit 10 (w ! (i - 2))
      in w ! (i - 16) + s0 + w ! (i - 7) + s1)"

definition schedule :: "bytes \<Rightarrow> 32 word list" where
  "schedule block =
     fold (\<lambda>i w. w @ [schedule_word w i]) [16..<64] (map (\<lambda>i. load_be32 (drop (i * 4) block)) [0..<16])"

definition transform_round :: "32 word list \<Rightarrow> nat \<Rightarrow> registers \<Rightarrow> registers" where
  "transform_round w i = (\<lambda>(a, b, c, d, e, f, g, h).
     let S1 = rotr32 e 6 XOR rotr32 e 11 XOR rotr32 e 25;
         ch = (e AND f) XOR (NOT e AND g);
         temp1 = h + S1 + ch + round_constants ! i + w ! i;
         S0 = rotr32 a 2 XOR rotr32 a 13 XOR rotr32 a 22;
         maj = (a AND b) XOR (a AND c) XOR (b AND c);
         temp2 = S0 + maj
     in (temp1 + temp2, a, b, c, d + temp1, e, f, g))"

fun registers_add :: "registers \<Rightarrow> registers \<Rightarrow> registers" where
  "registers_add (a, b, c, d, e, f, g, h) (a', b', c', d', e', f', g', h') =
     (a + a', b + b', c + c', d + d', e + e', f + f', g + g', h + h')"

definition transform :: "registers \<Rightarrow> bytes \<Rightarrow> registers" where
  "transform state block = registers_add state (fold (transform_round (schedule block)) [0..<64] state)"

text \<open>The buffer holds its first \<^verbatim>\<open>buffer_len\<close> bytes; the bytes behind them are never read.\<close>

record sha256_ctx =
  sx_state :: registers
  sx_bit_len :: "64 word"
  sx_buffer :: bytes

definition sha256_init :: sha256_ctx where
  "sha256_init = \<lparr>sx_state = (0x6a09e667, 0xbb67ae85, 0x3c6ef372, 0xa54ff53a, 0x510e527f, 0x9b05688c, 0x1f83d9ab, 0x5be0cd19),
     sx_bit_len = 0, sx_buffer = []\<rparr>"

text \<open>The loop copies what fits; with a full buffer it would never end, hence the option.\<close>

partial_function (option) sha256_update_loop :: "sha256_ctx \<Rightarrow> bytes \<Rightarrow> sha256_ctx option" where
  "sha256_update_loop ctx data =
     (if data = [] then Some ctx
      else
        let copy = min (64 - length (sx_buffer ctx)) (length data);
            buffer = sx_buffer ctx @ take copy data
        in if length buffer = 64
           then sha256_update_loop (ctx\<lparr>sx_state := transform (sx_state ctx) buffer, sx_buffer := []\<rparr>) (drop copy data)
           else sha256_update_loop (ctx\<lparr>sx_buffer := buffer\<rparr>) (drop copy data))"

definition sha256_update :: "sha256_ctx \<Rightarrow> bytes \<Rightarrow> sha256_ctx option" where
  "sha256_update ctx data = sha256_update_loop (ctx\<lparr>sx_bit_len := sx_bit_len ctx + of_nat (length data) * 8\<rparr>) data"

definition sha256_final :: "sha256_ctx \<Rightarrow> bytes" where
  "sha256_final ctx =
     (let buffer = sx_buffer ctx @ [0x80];
          (state, buffer) =
            (if length buffer > 56
             then (transform (sx_state ctx) (buffer @ replicate (64 - length buffer) 0), [])
             else (sx_state ctx, buffer));
          buffer = buffer @ replicate (56 - length buffer) 0 @ store_be64 (sx_bit_len ctx)
      in case transform state buffer of
           (a, b, c, d, e, f, g, h) \<Rightarrow> concat (map store_be32 [a, b, c, d, e, f, g, h]))"

definition hex_chars :: string where
  "hex_chars = ''0123456789abcdef''"

definition digest_hex :: "bytes \<Rightarrow> string" where
  "digest_hex digest = concat (map (\<lambda>b. [hex_chars ! unat (drop_bit 4 b), hex_chars ! unat (b AND 0x0f)]) digest)"

definition sha256_hex :: "bytes \<Rightarrow> string option" where
  "sha256_hex data = map_option (\<lambda>ctx. digest_hex (sha256_final ctx)) (sha256_update sha256_init data)"

fun sha256_updates :: "sha256_ctx \<Rightarrow> bytes list \<Rightarrow> sha256_ctx option" where
  "sha256_updates ctx [] = Some ctx"
| "sha256_updates ctx (chunk # chunks) = Option.bind (sha256_update ctx chunk) (\<lambda>ctx. sha256_updates ctx chunks)"

text \<open>
  A file is the sequence of pieces its reads return and whether reading ended with an error, or \<open>None\<close> when it cannot
  be opened. The result is \<open>None\<close> when the call does not return, \<open>Inl ()\<close> for \<^verbatim>\<open>-1\<close>.
\<close>

definition sha256_file_hex :: "(bytes list \<times> bool) option \<Rightarrow> (unit + string) option" where
  "sha256_file_hex file =
     (case file of
        None \<Rightarrow> Some (Inl ())
      | Some (chunks, err) \<Rightarrow>
          map_option (\<lambda>ctx. if err then Inl () else Inr (digest_hex (sha256_final ctx))) (sha256_updates sha256_init chunks))"

definition is_hex_digit :: "char \<Rightarrow> bool" where
  "is_hex_digit c \<longleftrightarrow>
     ((of_char CHR ''0'' :: nat) \<le> of_char c \<and> of_char c \<le> (of_char CHR ''9'' :: nat)) \<or>
     ((of_char CHR ''a'' :: nat) \<le> of_char c \<and> of_char c \<le> (of_char CHR ''f'' :: nat))"

text \<open>The check reads 64 characters and the one behind them; a shorter string ends the loop at its terminator.\<close>

definition sha256_hex_is_lowercase :: "string \<Rightarrow> bool" where
  "sha256_hex_is_lowercase hex \<longleftrightarrow>
     length hex \<ge> 64 \<and> list_all is_hex_digit (take 64 hex) \<and> length hex = 64"

section \<open>The standard\<close>

definition sigma0 :: "32 word \<Rightarrow> 32 word" where
  "sigma0 x = word_rotr 7 x XOR word_rotr 18 x XOR drop_bit 3 x"

definition sigma1 :: "32 word \<Rightarrow> 32 word" where
  "sigma1 x = word_rotr 17 x XOR word_rotr 19 x XOR drop_bit 10 x"

definition Sigma0 :: "32 word \<Rightarrow> 32 word" where
  "Sigma0 x = word_rotr 2 x XOR word_rotr 13 x XOR word_rotr 22 x"

definition Sigma1 :: "32 word \<Rightarrow> 32 word" where
  "Sigma1 x = word_rotr 6 x XOR word_rotr 11 x XOR word_rotr 25 x"

text \<open>Big-endian words and the message schedule of a block of sixteen of them.\<close>

definition be_word :: "bytes \<Rightarrow> 32 word" where
  "be_word bs = foldl (\<lambda>x b. 256 * x + ucast b) 0 bs"

fun W :: "32 word list \<Rightarrow> nat \<Rightarrow> 32 word" where
  "W M t = (if t < 16 then M ! t else sigma1 (W M (t - 2)) + W M (t - 7) + sigma0 (W M (t - 15)) + W M (t - 16))"

declare W.simps [simp del]

primrec compression :: "32 word list \<Rightarrow> registers \<Rightarrow> nat \<Rightarrow> registers" where
  "compression M H 0 = H"
| "compression M H (Suc t) =
     (case compression M H t of (a, b, c, d, e, f, g, h) \<Rightarrow>
        let T1 = h + Sigma1 e + ((e AND f) XOR (NOT e AND g)) + round_constants ! t + W M t;
            T2 = Sigma0 a + ((a AND b) XOR (a AND c) XOR (b AND c))
        in (T1 + T2, a, b, c, d + T1, e, f, g))"

text \<open>Blocks of a given size; the message ends in a full one.\<close>

function blocks :: "nat \<Rightarrow> 'a list \<Rightarrow> 'a list list" where
  "blocks n xs = (if n = 0 \<or> length xs < n then [] else take n xs # blocks n (drop n xs))"
  by pat_completeness auto
termination by (relation "measure (\<lambda>(n, xs). length xs)") auto

declare blocks.simps [simp del]

definition fips_block :: "registers \<Rightarrow> bytes \<Rightarrow> registers" where
  "fips_block H block = registers_add H (compression (map be_word (blocks 4 block)) H 64)"

text \<open>The length of the message in bits is at the end, in 64 bits, after as few zero bytes as reach a full block.\<close>

definition be_bytes :: "nat \<Rightarrow> nat \<Rightarrow> bytes" where
  "be_bytes n v = map (\<lambda>i. of_nat (v div 256 ^ (n - 1 - i))) [0..<n]"

definition fips_pad :: "bytes \<Rightarrow> bytes" where
  "fips_pad msg = msg @ [0x80] @ replicate ((119 - length msg mod 64) mod 64) 0 @ be_bytes 8 (8 * length msg)"

definition fips_sha256 :: "bytes \<Rightarrow> bytes" where
  "fips_sha256 msg =
     (case foldl fips_block (sx_state sha256_init) (blocks 64 (fips_pad msg)) of
        (a, b, c, d, e, f, g, h) \<Rightarrow> concat (map (\<lambda>v. be_bytes 4 (unat v)) [a, b, c, d, e, f, g, h]))"

section \<open>Words and bytes\<close>

lemma rotr32_word: "0 < n \<Longrightarrow> n < 32 \<Longrightarrow> rotr32 x n = word_rotr n x"
proof (rule bit_word_eqI, goal_cases)
  case (1 m)
  then show ?case
  proof (cases "n + m < 32")
    case True
    then have "\<not> 32 - n \<le> m" by simp
    then show ?thesis using 1 True by (simp add: rotr32_def bit_simps add.commute)
  next
    case False
    then have "(m + n) mod 32 = m - (32 - n)" using 1 by (simp add: mod_if)
    moreover have "\<not> bit x (n + m)" using False bit_imp_le_length[of x "n + m"] by auto
    ultimately show ?thesis using 1 False by (auto simp: rotr32_def bit_simps)
  qed
qed

lemma append_byte: "256 * x + ucast (b :: 8 word) = push_bit 8 (x :: 32 word) OR ucast b"
proof -
  have "push_bit 8 x AND ucast b = 0" by (intro bit_word_eqI) (auto simp: bit_simps dest: bit_imp_le_length)
  then show ?thesis using disjunctive_add_eq_or[of "push_bit 8 x" "ucast b"] by (simp add: push_bit_eq_mult mult.commute)
qed

lemma load_be32_word: "length p \<ge> 4 \<Longrightarrow> load_be32 p = be_word (take 4 p)"
proof -
  assume "length p \<ge> 4"
  then have "take 4 p = [p ! 0, p ! 1, p ! 2, p ! 3]" by (intro nth_equalityI) (auto simp: less_Suc_eq eval_nat_numeral)
  then show ?thesis by (simp add: be_word_def append_byte load_be32_def push_bit_or push_bit_push_bit or.assoc)
qed

lemma byte_of: "(ucast (drop_bit n v) :: 8 word) = of_nat (unat (v :: 'a :: len word) div 2 ^ n)"
proof -
  have "(of_nat (unat (drop_bit n v)) :: 8 word) = ucast (drop_bit n v)" by simp
  then show ?thesis by (simp only: unat_drop_bit_eq drop_bit_eq_div[of n "unat v"])
qed

lemma store_be32_bytes: "store_be32 v = be_bytes 4 (unat v)"
proof -
  have "[0..<4] = [0, 1, 2, 3 :: nat]" by (simp add: upt_conv_Cons)
  then show ?thesis by (simp add: store_be32_def be_bytes_def byte_of)
qed

lemma store_be64_loop_bytes:
  "store_be64_loop n v p = map (\<lambda>i. of_nat (unat v div 256 ^ (n - 1 - i))) [0..<n] @ p"
proof (induction n arbitrary: v p)
  case (Suc n)
  have "unat (drop_bit 8 v) div 256 ^ (n - 1 - i) = unat v div 256 ^ (n - i)" if "i < n" for i
    using that by (simp add: unat_drop_bit_eq drop_bit_eq_div[of 8 "unat v"] div_mult2_eq Suc_diff_Suc[symmetric])
  then show ?case using Suc[of "drop_bit 8 v" "ucast v # p"] by simp
qed simp

lemma of_nat_mod256: "(of_nat (v mod 256) :: 8 word) = of_nat v"
  by (simp add: word_of_nat_eq_iff take_bit_eq_mod)

lemma small_part: "k < 8 \<Longrightarrow> (of_nat (v mod 2 ^ 64 div 256 ^ k) :: 8 word) = of_nat (v div 256 ^ k)"
proof -
  assume k: "k < 8"
  have "(2 :: nat) ^ 64 = 256 ^ k * 256 ^ (8 - k)" using k by (simp add: power_add[symmetric])
  then have "v mod 2 ^ 64 div 256 ^ k = v div 256 ^ k mod 256 ^ (8 - k)" by (simp only: mod_mult2_eq) simp
  moreover have "256 dvd (256 :: nat) ^ (8 - k)" using k by (simp add: dvd_power)
  ultimately have "v mod 2 ^ 64 div 256 ^ k mod 256 = v div 256 ^ k mod 256" by (simp only: mod_mod_cancel)
  then show ?thesis by (metis of_nat_mod256)
qed

lemma store_be64_bytes: "store_be64 (of_nat v) = be_bytes 8 v"
  using small_part by (auto simp: store_be64_def store_be64_loop_bytes be_bytes_def unat_of_nat)

section \<open>One block\<close>

lemma blocks_append: "n \<noteq> 0 \<Longrightarrow> length xs = n \<Longrightarrow> blocks n (xs @ ys) = xs # blocks n ys"
  by (subst blocks.simps) simp

lemma blocks_short: "length xs < n \<Longrightarrow> blocks n xs = []"
  by (subst blocks.simps) simp

lemma blocks_nth: "i * n + n \<le> length xs \<Longrightarrow> n \<noteq> 0 \<Longrightarrow> i < length (blocks n xs) \<and> blocks n xs ! i = take n (drop (i * n) xs)"
proof (induction n xs arbitrary: i rule: blocks.induct)
  case (1 n xs)
  show ?case
  proof (cases i)
    case 0
    then show ?thesis using 1 by (subst (1 2) blocks.simps) simp
  next
    case (Suc j)
    then show ?thesis using 1 "1.IH"[of j] by (subst (1 2) blocks.simps) (simp add: add.commute)
  qed
qed

lemma sum_reversed: "a + b + c + d = d + c + b + (a :: 32 word)"
  by (simp add: ac_simps)

definition schedule_part :: "bytes \<Rightarrow> nat \<Rightarrow> 32 word list" where
  "schedule_part block n = fold (\<lambda>i w. w @ [schedule_word w i]) [16..<n] (map (\<lambda>i. load_be32 (drop (i * 4) block)) [0..<16])"

lemma schedule_part:
  assumes "length block = 64" "16 \<le> n"
  shows "schedule_part block n = map (W (map be_word (blocks 4 block))) [0..<n]"
  using assms(2)
proof (induction n rule: nat_induct_at_least)
  case base
  have "load_be32 (drop (i * 4) block) = W (map be_word (blocks 4 block)) i" if "i < 16" for i
    using that assms(1) blocks_nth[of i 4 block] by (simp add: W.simps load_be32_word)
  then show ?case by (simp add: schedule_part_def)
next
  case (Suc n)
  let ?M = "map be_word (blocks 4 block)"
  have "schedule_part block (Suc n) = schedule_part block n @ [schedule_word (schedule_part block n) n]"
    using Suc.hyps by (simp add: schedule_part_def)
  also have "schedule_word (schedule_part block n) n = W ?M n"
  proof -
    have "schedule_part block n ! (n - k) = W ?M (n - k)" if "0 < k" "k \<le> n" for k using that Suc by simp
    then have "schedule_word (schedule_part block n) n = W ?M (n - 16) + sigma0 (W ?M (n - 15)) + W ?M (n - 7) + sigma1 (W ?M (n - 2))"
      using Suc.hyps by (simp add: schedule_word_def Let_def rotr32_word sigma0_def sigma1_def)
    also have "\<dots> = sigma1 (W ?M (n - 2)) + W ?M (n - 7) + sigma0 (W ?M (n - 15)) + W ?M (n - 16)"
      by (rule sum_reversed)
    also have "\<dots> = W ?M n" using Suc.hyps by (subst (5) W.simps) simp
    finally show ?thesis .
  qed
  finally show ?case using Suc by simp
qed

lemma transform_standard:
  assumes "length block = 64" shows "transform H block = fips_block H block"
proof -
  let ?M = "map be_word (blocks 4 block)"
  have s: "schedule block = map (W ?M) [0..<64]" 
    unfolding schedule_def schedule_part_def[symmetric] by (rule schedule_part[OF assms]) simp
  have "fold (transform_round (schedule block)) [0..<n] H = compression ?M H n" if "n \<le> 64" for n
    using that
  proof (induction n)
    case (Suc n)
    then have "fold (transform_round (schedule block)) [0..<Suc n] H = transform_round (schedule block) n (compression ?M H n)" by simp
    also have "\<dots> = compression ?M H (Suc n)" using Suc.prems
      by (cases "compression ?M H n") (simp add: transform_round_def s rotr32_word Sigma0_def Sigma1_def Let_def)
    finally show ?case .
  qed simp
  then show ?thesis by (simp add: transform_def fips_block_def)
qed

section \<open>Messages in pieces\<close>

text \<open>The context after a message: the full blocks are hashed, the rest is in the buffer.\<close>

definition hashed :: "bytes \<Rightarrow> sha256_ctx \<Rightarrow> bool" where
  "hashed msg ctx \<longleftrightarrow> (\<exists>full. msg = full @ sx_buffer ctx \<and> 64 dvd length full \<and> length (sx_buffer ctx) < 64 \<and>
     sx_state ctx = foldl transform (sx_state sha256_init) (blocks 64 full))"

lemma blocks_full: "n \<noteq> 0 \<Longrightarrow> n dvd length xs \<Longrightarrow> blocks n (xs @ ys) = blocks n xs @ blocks n ys"
proof (induction n xs rule: blocks.induct)
  case (1 n xs)
  show ?case
  proof (cases "xs = []")
    case True
    then show ?thesis using 1(2) by (simp add: blocks_short)
  next
    case False
    then have "n \<le> length xs" using 1 by (simp add: dvd_imp_le)
    then show ?thesis using 1 by (subst (1 2) blocks.simps) simp
  qed
qed

lemma update_loop_hashed:
  "hashed msg ctx \<Longrightarrow> \<exists>ctx'. sha256_update_loop ctx data = Some ctx' \<and> hashed (msg @ data) ctx' \<and> sx_bit_len ctx' = sx_bit_len ctx"
proof (induction "length data" arbitrary: msg ctx data rule: less_induct)
  case less
  show ?case
  proof (cases "data = []")
    case True
    then show ?thesis using less.prems by (subst sha256_update_loop.simps) simp
  next
    case False
    define copy where "copy = min (64 - length (sx_buffer ctx)) (length data)"
    define buffer where "buffer = sx_buffer ctx @ take copy data"
    define next_ctx where "next_ctx = (if length buffer = 64 then ctx\<lparr>sx_state := transform (sx_state ctx) buffer, sx_buffer := []\<rparr>
      else ctx\<lparr>sx_buffer := buffer\<rparr>)"
    obtain full where full: "msg = full @ sx_buffer ctx" "64 dvd length full" "length (sx_buffer ctx) < 64"
      "sx_state ctx = foldl transform (sx_state sha256_init) (blocks 64 full)" using less.prems by (auto simp: hashed_def)
    have step: "sha256_update_loop ctx data = sha256_update_loop next_ctx (drop copy data)"
      using False by (subst sha256_update_loop.simps) (simp add: copy_def buffer_def next_ctx_def Let_def)
    have "0 < copy" using False full(3) by (simp add: copy_def)
    then have short: "length (drop copy data) < length data" using False by simp
    have msg: "(msg @ take copy data) @ drop copy data = msg @ data" by simp
    have "hashed (msg @ take copy data) next_ctx"
    proof (cases "length buffer = 64")
      case True
      have "blocks 64 (full @ buffer) = blocks 64 full @ [buffer]"
        using blocks_full[of 64 full buffer] blocks_append[of 64 buffer "[]"] full(2) True by (simp add: blocks_short)
      then show ?thesis using full True unfolding hashed_def
        by (intro exI[of _ "full @ buffer"]) (simp add: next_ctx_def buffer_def)
    next
      case False
      then have "length buffer < 64" using full(3) by (simp add: buffer_def copy_def)
      then show ?thesis using full False unfolding hashed_def by (intro exI[of _ full]) (simp add: next_ctx_def buffer_def)
    qed
    from less.hyps[OF short this] show ?thesis unfolding step msg by (simp add: next_ctx_def split: if_splits)
  qed
qed

lemma be_bytes_length: "length (be_bytes n v) = n"
  by (simp add: be_bytes_def)

text \<open>The last one or two blocks.\<close>

definition final_blocks :: "bytes \<Rightarrow> 64 word \<Rightarrow> bytes list" where
  "final_blocks r bits =
     (if length r < 56 then [r @ [0x80] @ replicate (55 - length r) 0 @ store_be64 bits]
      else [r @ [0x80] @ replicate (63 - length r) 0, replicate 56 0 @ store_be64 bits])"

lemma sha256_final_blocks:
  "length (sx_buffer ctx) < 64 \<Longrightarrow> sha256_final ctx =
     (case foldl transform (sx_state ctx) (final_blocks (sx_buffer ctx) (sx_bit_len ctx)) of
        (a, b, c, d, e, f, g, h) \<Rightarrow> concat (map store_be32 [a, b, c, d, e, f, g, h]))"
  by (auto simp: sha256_final_def final_blocks_def Let_def not_less)

lemma padded_blocks:
  assumes "length r < 64"
  shows "blocks 64 (r @ [0x80] @ replicate ((119 - length r) mod 64) 0 @ be_bytes 8 v) = final_blocks r (of_nat v)"
    and "b \<in> set (final_blocks r (of_nat v)) \<Longrightarrow> length b = 64"
proof -
  have len: "length (store_be64 (of_nat v)) = 8" by (simp add: store_be64_bytes be_bytes_length)
  show "b \<in> set (final_blocks r (of_nat v)) \<Longrightarrow> length b = 64" using assms len by (auto simp: final_blocks_def split: if_splits)
  show "blocks 64 (r @ [0x80] @ replicate ((119 - length r) mod 64) 0 @ be_bytes 8 v) = final_blocks r (of_nat v)"
  proof (cases "length r < 56")
    case True
    then have "(119 - length r) mod 64 = 55 - length r" by (simp add: mod_if)
    then show ?thesis using True len blocks_append[of 64 "r @ [0x80] @ replicate (55 - length r) 0 @ store_be64 (of_nat v)" "[]"]
      by (simp add: final_blocks_def store_be64_bytes blocks_short)
  next
    case False
    then have "(119 - length r) mod 64 = (63 - length r) + 56" using assms by simp
    then have split: "r @ [0x80] @ replicate ((119 - length r) mod 64) 0 @ be_bytes 8 v =
        (r @ [0x80] @ replicate (63 - length r) 0) @ (replicate 56 0 @ store_be64 (of_nat v)) @ []"
      by (simp only: replicate_add store_be64_bytes append.assoc append_Nil2)
    have first: "length (r @ [0x80] @ replicate (63 - length r) (0 :: 8 word)) = 64" using False assms by simp
    have second: "length (replicate 56 (0 :: 8 word) @ store_be64 (of_nat v)) = 64" using len by simp
    show ?thesis unfolding split using False blocks_append[OF _ first] blocks_append[OF _ second, of "[]"]
      by (simp add: final_blocks_def blocks_short)
  qed
qed

lemma blocks_lengths: "b \<in> set (blocks n xs) \<Longrightarrow> length b = n"
  by (induction n xs rule: blocks.induct) (subst (asm) (2) blocks.simps, auto split: if_splits)

lemma foldl_transform: "(\<And>b. b \<in> set bs \<Longrightarrow> length b = 64) \<Longrightarrow> foldl transform H bs = foldl fips_block H bs"
  by (induction bs arbitrary: H) (auto simp: transform_standard)

lemma sha256_final_standard:
  assumes "hashed msg ctx" "sx_bit_len ctx = of_nat (8 * length msg)"
  shows "sha256_final ctx = fips_sha256 msg"
proof -
  obtain full where full: "msg = full @ sx_buffer ctx" "64 dvd length full" "length (sx_buffer ctx) < 64"
    "sx_state ctx = foldl transform (sx_state sha256_init) (blocks 64 full)" using assms(1) by (auto simp: hashed_def)
  have "length msg mod 64 = length (sx_buffer ctx)" using full(1-3) by (auto simp: mod_add_left_eq[symmetric])
  then have pad: "fips_pad msg = full @ sx_buffer ctx @ [0x80] @ replicate ((119 - length (sx_buffer ctx)) mod 64) 0 @ be_bytes 8 (8 * length msg)"
    using full(1) by (simp add: fips_pad_def)
  have "blocks 64 (fips_pad msg) = blocks 64 full @ final_blocks (sx_buffer ctx) (sx_bit_len ctx)"
    unfolding pad assms(2) using blocks_full[of 64 full] full(2) padded_blocks(1)[OF full(3)] by simp
  then have "foldl fips_block (sx_state sha256_init) (blocks 64 (fips_pad msg)) =
      foldl transform (sx_state ctx) (final_blocks (sx_buffer ctx) (sx_bit_len ctx))"
    unfolding full(4) assms(2) using foldl_transform padded_blocks(2)[OF full(3)] blocks_lengths by (metis (no_types, lifting) foldl_append)
  then show ?thesis using sha256_final_blocks[OF full(3)] by (simp add: fips_sha256_def store_be32_bytes)
qed

lemma update_hashed:
  assumes "hashed msg ctx" "sx_bit_len ctx = of_nat (8 * length msg)"
  shows "\<exists>ctx'. sha256_update ctx data = Some ctx' \<and> hashed (msg @ data) ctx' \<and> sx_bit_len ctx' = of_nat (8 * length (msg @ data))"
proof -
  have "hashed msg (ctx\<lparr>sx_bit_len := sx_bit_len ctx + of_nat (length data) * 8\<rparr>)" using assms(1) by (simp add: hashed_def)
  from update_loop_hashed[OF this, of data] show ?thesis using assms(2) by (auto simp: sha256_update_def algebra_simps)
qed

lemma updates_hashed:
  assumes "hashed msg ctx" "sx_bit_len ctx = of_nat (8 * length msg)"
  shows "\<exists>ctx'. sha256_updates ctx chunks = Some ctx' \<and> hashed (msg @ concat chunks) ctx' \<and> sx_bit_len ctx' = of_nat (8 * length (msg @ concat chunks))"
  using assms
proof (induction chunks arbitrary: msg ctx)
  case (Cons chunk chunks)
  obtain ctx' where "sha256_update ctx chunk = Some ctx'" "hashed (msg @ chunk) ctx'" "sx_bit_len ctx' = of_nat (8 * length (msg @ chunk))"
    using update_hashed[OF Cons.prems] by blast
  then show ?case using Cons.IH[of "msg @ chunk" ctx'] by simp
qed simp

lemma init_hashed: "hashed [] sha256_init" "sx_bit_len sha256_init = of_nat (8 * length [])"
  by (simp_all add: hashed_def sha256_init_def blocks_short)

lemma digest_hex_lowercase: "length digest = 32 \<Longrightarrow> sha256_hex_is_lowercase (digest_hex digest)"
proof -
  assume l: "length digest = 32"
  have "list_all is_hex_digit hex_chars" "length hex_chars = 16" by code_simp+
  then have digits: "n < 16 \<Longrightarrow> is_hex_digit (hex_chars ! n)" for n by (simp add: list_all_length)
  have nib: "unat (drop_bit 4 b) < 16" "unat (b AND 0x0f) < 16" for b :: "8 word"
  proof -
    have "unat b < 2 ^ LENGTH(8)" by (rule unsigned_less)
    then show "unat (drop_bit 4 b) < 16" by (simp add: unat_drop_bit_eq drop_bit_eq_div[of 4 "unat b"] less_mult_imp_div_less)
    have "b AND 0x0f = take_bit 4 b" by (simp add: take_bit_eq_mask mask_eq_exp_minus_1)
    then show "unat (b AND 0x0f) < 16" by (simp add: unsigned_take_bit_eq take_bit_eq_mod[of 4 "unat b"])
  qed
  have "length (digest_hex ds) = 2 * length ds" for ds by (induction ds) (simp_all add: digest_hex_def)
  moreover have "list_all is_hex_digit (digest_hex ds)" for ds
    using nib digits by (induction ds) (simp_all add: digest_hex_def)
  ultimately show ?thesis using l by (simp add: sha256_hex_is_lowercase_def)
qed

lemma fips_length: "length (fips_sha256 msg) = 32"
  by (simp add: fips_sha256_def be_bytes_length split: prod.split)


end
