(* ===== verification/Fingerprint.thy ===== *)
theory Fingerprint
  imports Join_Plan Sha256
begin

text \<open>
  The identity of a compiled program: the second half of \<^verbatim>\<open>src/compiler/maelys_datalog_program.c\<close> up to
  \<^verbatim>\<open>maelys_datalog_compute_program_fingerprint\<close>. A function that feeds the hash context is the list of the
  pieces it passes to \<^verbatim>\<open>maelys_sha256_update\<close>, in order. The last part shows that the stream of a program is a
  prefix code of its contents, with symbols and filters named by their texts: equal streams come from equal programs.
\<close>

unbundle bit_operations_syntax

section \<open>What feeds the context\<close>

text \<open>
  \<open>Inr\<close> the pieces, \<open>Inl (Some rc)\<close> an early return of \<open>rc\<close>, \<open>Inl None\<close> a read of memory the ruleset does not
  own: the text of an identifier outside the symbol table, a pattern outside the pool, the value of a tag outside its
  enumeration. None of these occurs for a validated program.
\<close>

type_synonym feed = "maelys_result option + bytes list"

fun feed_then :: "feed \<Rightarrow> feed \<Rightarrow> feed" where
  "feed_then (Inr a) (Inr b) = Inr (a @ b)"
| "feed_then (Inr a) (Inl e) = Inl e"
| "feed_then (Inl e) _ = Inl e"

definition feed_all :: "feed list \<Rightarrow> feed" where
  "feed_all fs = foldr feed_then fs (Inr [])"

definition char_bytes :: "string \<Rightarrow> bytes" where
  "char_bytes s = map of_char s"

definition number_bytes :: "64 word \<Rightarrow> bytes" where
  "number_bytes v = map (\<lambda>i. ucast (drop_bit (8 * (7 - i)) v)) [0..<8]"

definition hash_number :: "64 word \<Rightarrow> feed" where
  "hash_number v = Inr [number_bytes v]"

abbreviation hash_nat :: "nat \<Rightarrow> feed" where
  "hash_nat n \<equiv> hash_number (of_nat n)"

definition hash_flag :: "bool \<Rightarrow> feed" where
  "hash_flag b = hash_number (if b then 1 else 0)"

definition hash_bytes :: "string \<Rightarrow> feed" where
  "hash_bytes data = feed_then (hash_nat (length data)) (Inr (if data = [] then [] else [char_bytes data]))"

definition hash_text :: "string \<Rightarrow> feed" where
  "hash_text s = hash_bytes (c_string s)"

definition hash_term :: "ruleset \<Rightarrow> term \<Rightarrow> feed" where
  "hash_term r t =
     feed_then (hash_nat (term_kind t))
       (case t of
          TERM_SYMBOL sid \<Rightarrow> (case symbol_text (rs_symbols r) sid of None \<Rightarrow> Inl None | Some p \<Rightarrow> hash_text p)
        | TERM_INT i \<Rightarrow> hash_number (of_int i)
        | TERM_BOOL b \<Rightarrow> hash_number (of_int b)
        | TERM_VAR v \<Rightarrow> hash_nat v
        | TERM_NOKIND _ \<Rightarrow> Inl None)"

definition hash_atom :: "ruleset \<Rightarrow> fact \<Rightarrow> feed" where
  "hash_atom r a =
     feed_all ([hash_nat (predicate_id a), hash_nat (arity a)] @ map (hash_term r) (terms a))"

fun arith_kind_code :: "arith_kind \<Rightarrow> nat" where
  "arith_kind_code ARITH_INT_LITERAL = 1"
| "arith_kind_code ARITH_VAR = 2"
| "arith_kind_code ARITH_ADD = 3"
| "arith_kind_code ARITH_SUB = 4"
| "arith_kind_code ARITH_MUL = 5"
| "arith_kind_code (ARITH_OTHER n) = (if n = 0 then 0 else n + 5)"

fun cmp_op_code :: "cmp_op \<Rightarrow> nat" where
  "cmp_op_code CMP_EQ = 1"
| "cmp_op_code CMP_NEQ = 2"
| "cmp_op_code CMP_LT = 3"
| "cmp_op_code CMP_LTE = 4"
| "cmp_op_code CMP_GT = 5"
| "cmp_op_code CMP_GTE = 6"
| "cmp_op_code (CMP_OTHER n) = (if n = 0 then 0 else n + 6)"

definition hash_node :: "ruleset \<Rightarrow> arith_expr_node \<Rightarrow> feed" where
  "hash_node r n =
     feed_then (hash_nat (arith_kind_code (node_kind n)))
       (if arith_kind_code (node_kind n) \<le> 2 then hash_term r (node_term n)
        else feed_all [hash_nat (node_left n), hash_nat (node_right n)])"

definition pattern_of :: "ruleset \<Rightarrow> filter_program \<Rightarrow> string option" where
  "pattern_of r f =
     (if pattern_offset f + pattern_length f > length (rs_filter_pattern_pool r) then None
      else Some (take (pattern_length f) (drop (pattern_offset f) (rs_filter_pattern_pool r))))"

definition hash_filter :: "ruleset \<Rightarrow> nat \<Rightarrow> nat \<Rightarrow> term \<Rightarrow> feed" where
  "hash_filter r kind index value =
     (case filter_by_kind_in (ctx_filters (rs_modules r)) kind of
        None \<Rightarrow> Inl (Some MAELYS_ERR_INVALID_STATE)
      | Some d \<Rightarrow>
          if index \<ge> length (rs_filter_programs r) then Inl (Some MAELYS_ERR_INVALID_STATE)
          else feed_all [hash_text (fm_name d), hash_text (fm_semantic_id d), hash_term r value,
                 (case pattern_of r (rs_filter_programs r ! index) of None \<Rightarrow> Inl None | Some p \<Rightarrow> hash_bytes p)])"

definition hash_literal :: "ruleset \<Rightarrow> literal \<Rightarrow> feed" where
  "hash_literal r l =
     feed_then (hash_nat (literal_kind_code l))
       (case l of
          LIT_ATOM a \<Rightarrow> hash_atom r a
        | LIT_NEGATED_ATOM a \<Rightarrow> hash_atom r a
        | LIT_AGGREGATE _ a lhs rhs \<Rightarrow> feed_all [hash_atom r a, hash_term r lhs, hash_term r rhs]
        | LIT_COMPARISON lhs op rhs arith lroot rroot \<Rightarrow>
            feed_all ([hash_nat (cmp_op_code op), hash_flag arith] @
              (if arith then [hash_nat lroot, hash_nat rroot] else [hash_term r lhs, hash_term r rhs]))
        | LIT_FILTER kind index value \<Rightarrow> hash_filter r kind index value
        | LIT_OTHER _ \<Rightarrow> Inl None)"

definition hash_rule :: "ruleset \<Rightarrow> nat \<Rightarrow> feed" where
  "hash_rule r i =
     (let rule = rs_rules r ! i; source = (if i < length (rs_rule_sources r) then rs_rule_sources r ! i else (0, 0)) in
      feed_all ([hash_nat (rule_id rule), hash_nat (fst source), hash_nat (snd source), hash_atom r (head rule),
          hash_nat (length (expr_nodes rule))] @ map (hash_node r) (expr_nodes rule) @
        [hash_nat (length (body rule))] @ map (hash_literal r) (body rule)))"

definition hash_predicate :: "predicate_entry \<Rightarrow> feed" where
  "hash_predicate d = feed_all [hash_text (pred_name d), hash_nat (pred_arity d), hash_number (ucast (kind_flags d))]"

definition hash_whitelisted :: "string \<times> nat \<Rightarrow> feed" where
  "hash_whitelisted q = feed_all [hash_text (fst q), hash_nat (snd q)]"

definition program_stream :: "ruleset \<Rightarrow> feed" where
  "program_stream r =
     feed_all ([hash_text ''maelys-program-v1'', hash_text (rs_policy_id r), hash_text (rs_domain r), hash_text (rs_sha256 r),
         hash_text (rs_frontend_name r), hash_text (rs_frontend_semantic_id r), hash_text (rs_source_sha256 r),
         hash_flag (rs_positive_recursion_supported r), hash_flag (rs_negation_supported r),
         hash_flag (rs_negation_recursion_supported r), hash_flag (rs_test_only r),
         hash_nat (length (defs (rs_registry r)))] @ map hash_predicate (defs (rs_registry r)) @
       [hash_nat (length (atoms (rs_registry r)))] @ map hash_text (atoms (rs_registry r)) @
       [hash_flag (rs_enforces_query_whitelist r), hash_nat (length (rs_query_whitelist r))] @
         map hash_whitelisted (rs_query_whitelist r) @
       [hash_nat (length (rs_facts r))] @ map (hash_atom r) (rs_facts r) @
       [hash_nat (length (rs_rules r))] @ map (hash_rule r) [0..<length (rs_rules r)])"

definition digest_of_feed :: "feed \<Rightarrow> maelys_result option + string" where
  "digest_of_feed f =
     (case f of
        Inl e \<Rightarrow> Inl e
      | Inr pieces \<Rightarrow>
          (case sha256_updates sha256_init pieces of
             None \<Rightarrow> Inl None
           | Some ctx \<Rightarrow> Inr (digest_hex (sha256_final ctx))))"

definition compute_program_fingerprint :: "ruleset \<Rightarrow> maelys_result option + string" where
  "compute_program_fingerprint r = digest_of_feed (program_stream r)"

section \<open>Prefix codes\<close>

text \<open>
  What makes a stream of fields unambiguous: a reader that knows the code can tell where a value ends. The law is
  closed under pairs and counted lists, so a program's code is put together like the program.
\<close>

locale prefix_code =
  fixes enc :: "'a \<Rightarrow> bytes" and ok :: "'a \<Rightarrow> bool"
  assumes decodes: "ok x \<Longrightarrow> ok y \<Longrightarrow> enc x @ u = enc y @ v \<Longrightarrow> x = y \<and> u = v"
begin

lemma injective: "ok x \<Longrightarrow> ok y \<Longrightarrow> enc x = enc y \<longleftrightarrow> x = y"
  using decodes[of x y "[]" "[]"] by auto

lemma decodes_iff: "ok x \<Longrightarrow> ok y \<Longrightarrow> enc x @ u = enc y @ v \<longleftrightarrow> x = y \<and> u = v"
  using decodes by blast

lemma sequence:
  "length xs = length ys \<Longrightarrow> list_all ok xs \<Longrightarrow> list_all ok ys \<Longrightarrow>
   concat (map enc xs) @ u = concat (map enc ys) @ v \<Longrightarrow> xs = ys \<and> u = v"
proof (induction xs ys rule: list_induct2)
  case (Cons x xs y ys)
  then show ?case using decodes[of x y "concat (map enc xs) @ u" "concat (map enc ys) @ v"] by simp
qed simp

end

definition counted :: "('a \<Rightarrow> bytes) \<Rightarrow> 'a list \<Rightarrow> bytes" where
  "counted enc xs = number_bytes (of_nat (length xs)) @ concat (map enc xs)"

definition counted_ok :: "('a \<Rightarrow> bool) \<Rightarrow> 'a list \<Rightarrow> bool" where
  "counted_ok ok xs \<longleftrightarrow> length xs < 2 ^ 64 \<and> list_all ok xs"

fun both :: "('a \<Rightarrow> bytes) \<Rightarrow> ('b \<Rightarrow> bytes) \<Rightarrow> 'a \<times> 'b \<Rightarrow> bytes" where
  "both e f (x, y) = e x @ f y"

fun both_ok :: "('a \<Rightarrow> bool) \<Rightarrow> ('b \<Rightarrow> bool) \<Rightarrow> 'a \<times> 'b \<Rightarrow> bool" where
  "both_ok p q (x, y) \<longleftrightarrow> p x \<and> q y"

definition any :: "'a \<Rightarrow> bool" where
  "any x = True"

lemma number_bytes_length: "length (number_bytes v) = 8"
  by (simp add: number_bytes_def)

lemma number_bytes_inject: "number_bytes v = number_bytes w \<Longrightarrow> v = w"
proof (rule bit_word_eqI)
  fix n assume eq: "number_bytes v = number_bytes w" and n: "n < LENGTH(64)"
  then have lt: "7 - n div 8 < 8" and sub: "7 - (7 - n div 8) = n div 8" by auto
  have "bit (number_bytes x ! (7 - n div 8)) (n mod 8) = bit x n" for x
  proof -
    have "number_bytes x ! (7 - n div 8) = (ucast (drop_bit (8 * (n div 8)) x) :: 8 word)"
      using lt sub by (simp add: number_bytes_def del: upt_Suc upt_rec_numeral)
    then show ?thesis by (simp add: bit_simps)
  qed
  then show "bit v n = bit w n" using eq by metis
qed

interpretation number_code: prefix_code number_bytes any
proof
  fix x y :: "64 word" and u v
  assume "number_bytes x @ u = number_bytes y @ v"
  then show "x = y \<and> u = v" using number_bytes_inject by (simp add: number_bytes_length)
qed

lemma both_code: "prefix_code e p \<Longrightarrow> prefix_code f q \<Longrightarrow> prefix_code (both e f) (both_ok p q)"
proof
  fix x y u v
  assume codes: "prefix_code e p" "prefix_code f q" and ok: "both_ok p q x" "both_ok p q y"
    and eq: "both e f x @ u = both e f y @ v"
  obtain x1 x2 y1 y2 where xy: "x = (x1, x2)" "y = (y1, y2)" by fastforce
  have "x1 = y1 \<and> f x2 @ u = f y2 @ v"
    using prefix_code.decodes[OF codes(1), of x1 y1 "f x2 @ u" "f y2 @ v"] ok eq by (simp add: xy)
  then show "x = y \<and> u = v" using prefix_code.decodes[OF codes(2), of x2 y2 u v] ok by (simp add: xy)
qed

lemma counted_code: "prefix_code e p \<Longrightarrow> prefix_code (counted e) (counted_ok p)"
proof
  fix x y u v
  assume code: "prefix_code e p" and ok: "counted_ok p x" "counted_ok p y" and eq: "counted e x @ u = counted e y @ v"
  have "of_nat (length x) = (of_nat (length y) :: 64 word) \<and> concat (map e x) @ u = concat (map e y) @ v"
    using number_code.decodes[of "of_nat (length x)" "of_nat (length y)" "concat (map e x) @ u" "concat (map e y) @ v"] eq
    by (simp add: counted_def any_def)
  then show "x = y \<and> u = v"
    using prefix_code.sequence[OF code, of x y u v] ok by (auto simp: counted_ok_def word_of_nat_eq_iff take_bit_eq_mod)
qed

definition char_byte :: "char \<Rightarrow> bytes" where
  "char_byte c = [of_char c]"

lemma of_char_byte_inject: "(of_char c :: 8 word) = of_char d \<Longrightarrow> c = d"
proof -
  assume "(of_char c :: 8 word) = of_char d"
  then have "(of_nat (of_char c) :: 8 word) = of_nat (of_char d)" by (simp only: of_nat_of_char)
  then have "(of_char c :: nat) mod 256 = of_char d mod 256" by (simp add: word_of_nat_eq_iff take_bit_eq_mod)
  then show "c = d" by simp
qed

interpretation char_code: prefix_code char_byte any
  by unfold_locales (auto simp: char_byte_def dest: of_char_byte_inject)

section \<open>The contents of a program\<close>

text \<open>
  What a program says, independent of how its tables are laid out: a symbol is its text, a filter is the name, the
  semantic identifier and the pattern it was written with; numbers are at the width the stream gives them.
\<close>

datatype term_identity = Symbol_id string | Integer_id "64 word" | Boolean_id "64 word" | Variable_id "64 word"

type_synonym atom_identity = "64 word \<times> term_identity list"
type_synonym node_identity = "64 word \<times> (term_identity + 64 word \<times> 64 word)"

datatype literal_identity =
    Atom_id atom_identity
  | Negated_id atom_identity
  | Aggregate_id agg_kind "atom_identity \<times> term_identity \<times> term_identity"
  | Comparison_id "64 word" "term_identity \<times> term_identity"
  | Arithmetic_id "64 word" "64 word \<times> 64 word"
  | Filter_id "string \<times> string \<times> term_identity \<times> string"

fun text_at :: "symbol_table \<Rightarrow> nat \<Rightarrow> string" where
  "text_at tab sid = (case symbol_text tab sid of None \<Rightarrow> [] | Some p \<Rightarrow> c_string p)"

fun identify_term :: "ruleset \<Rightarrow> term \<Rightarrow> term_identity" where
  "identify_term r (TERM_SYMBOL sid) = Symbol_id (text_at (rs_symbols r) sid)"
| "identify_term r (TERM_INT i) = Integer_id (of_int i)"
| "identify_term r (TERM_BOOL b) = Boolean_id (of_int b)"
| "identify_term r (TERM_VAR v) = Variable_id (of_nat v)"
| "identify_term r (TERM_NOKIND n) = Variable_id 0"

definition identify_atom :: "ruleset \<Rightarrow> fact \<Rightarrow> atom_identity" where
  "identify_atom r a = (of_nat (predicate_id a), map (identify_term r) (terms a))"

definition identify_node :: "ruleset \<Rightarrow> arith_expr_node \<Rightarrow> node_identity" where
  "identify_node r n =
     (of_nat (arith_kind_code (node_kind n)),
      if arith_kind_code (node_kind n) \<le> 2 then Inl (identify_term r (node_term n))
      else Inr (of_nat (node_left n), of_nat (node_right n)))"

fun identify_literal :: "ruleset \<Rightarrow> literal \<Rightarrow> literal_identity" where
  "identify_literal r (LIT_ATOM a) = Atom_id (identify_atom r a)"
| "identify_literal r (LIT_NEGATED_ATOM a) = Negated_id (identify_atom r a)"
| "identify_literal r (LIT_AGGREGATE k a lhs rhs) = Aggregate_id k (identify_atom r a, identify_term r lhs, identify_term r rhs)"
| "identify_literal r (LIT_COMPARISON lhs op rhs arith lroot rroot) =
     (if arith then Arithmetic_id (of_nat (cmp_op_code op)) (of_nat lroot, of_nat rroot)
      else Comparison_id (of_nat (cmp_op_code op)) (identify_term r lhs, identify_term r rhs))"
| "identify_literal r (LIT_FILTER kind index value) =
     (case filter_by_kind_in (ctx_filters (rs_modules r)) kind of
        None \<Rightarrow> Filter_id ([], [], identify_term r value, [])
      | Some d \<Rightarrow> Filter_id (c_string (fm_name d), c_string (fm_semantic_id d), identify_term r value,
          (if index < length (rs_filter_programs r)
           then (case pattern_of r (rs_filter_programs r ! index) of None \<Rightarrow> [] | Some p \<Rightarrow> p) else [])))"
| "identify_literal r (LIT_OTHER n) = Filter_id ([], [], Variable_id 0, [])"

type_synonym rule_identity =
  "64 word \<times> 64 word \<times> 64 word \<times> atom_identity \<times> node_identity list \<times> literal_identity list"

definition identify_rule :: "ruleset \<Rightarrow> nat \<Rightarrow> rule_identity" where
  "identify_rule r i =
     (let rule = rs_rules r ! i; source = (if i < length (rs_rule_sources r) then rs_rule_sources r ! i else (0, 0)) in
      (of_nat (rule_id rule), of_nat (fst source), of_nat (snd source), identify_atom r (head rule),
       map (identify_node r) (expr_nodes rule), map (identify_literal r) (body rule)))"

type_synonym program_identity =
  "string \<times> string \<times> string \<times> string \<times> string \<times> string \<times> bool \<times> bool \<times> bool \<times> bool \<times>
   (string \<times> 64 word \<times> 64 word) list \<times> string list \<times> bool \<times> (string \<times> 64 word) list \<times>
   atom_identity list \<times> rule_identity list"

definition identify_program :: "ruleset \<Rightarrow> program_identity" where
  "identify_program r =
     (c_string (rs_policy_id r), c_string (rs_domain r), c_string (rs_sha256 r),
      c_string (rs_frontend_name r), c_string (rs_frontend_semantic_id r), c_string (rs_source_sha256 r),
      rs_positive_recursion_supported r, rs_negation_supported r, rs_negation_recursion_supported r, rs_test_only r,
      map (\<lambda>d. (c_string (pred_name d), of_nat (pred_arity d), ucast (kind_flags d))) (defs (rs_registry r)),
      map c_string (atoms (rs_registry r)), rs_enforces_query_whitelist r,
      map (\<lambda>q. (c_string (fst q), of_nat (snd q))) (rs_query_whitelist r),
      map (identify_atom r) (rs_facts r), map (identify_rule r) [0..<length (rs_rules r)])"

section \<open>The code of a program\<close>

definition text_bytes :: "string \<Rightarrow> bytes" where
  "text_bytes = counted char_byte"

definition text_ok :: "string \<Rightarrow> bool" where
  "text_ok = counted_ok any"

definition flag_bytes :: "bool \<Rightarrow> bytes" where
  "flag_bytes b = number_bytes (if b then 1 else 0)"

fun term_bytes :: "term_identity \<Rightarrow> bytes" where
  "term_bytes (Symbol_id s) = number_bytes 1 @ text_bytes s"
| "term_bytes (Integer_id v) = number_bytes 2 @ number_bytes v"
| "term_bytes (Boolean_id v) = number_bytes 3 @ number_bytes v"
| "term_bytes (Variable_id v) = number_bytes 4 @ number_bytes v"

fun term_ok :: "term_identity \<Rightarrow> bool" where
  "term_ok (Symbol_id s) = text_ok s"
| "term_ok _ = True"

definition atom_bytes :: "atom_identity \<Rightarrow> bytes" where
  "atom_bytes = both number_bytes (counted term_bytes)"

definition atom_ok :: "atom_identity \<Rightarrow> bool" where
  "atom_ok = both_ok any (counted_ok term_ok)"

fun node_bytes :: "node_identity \<Rightarrow> bytes" where
  "node_bytes (k, Inl t) = number_bytes k @ term_bytes t"
| "node_bytes (k, Inr p) = number_bytes k @ both number_bytes number_bytes p"

fun node_ok :: "node_identity \<Rightarrow> bool" where
  "node_ok (k, Inl t) \<longleftrightarrow> k \<le> 2 \<and> term_ok t"
| "node_ok (k, Inr p) \<longleftrightarrow> \<not> k \<le> 2"

fun agg_code :: "agg_kind \<Rightarrow> 64 word" where
  "agg_code AGG_COUNT = 5"
| "agg_code AGG_MIN = 6"
| "agg_code AGG_MAX = 7"
| "agg_code AGG_SUM = 8"

definition aggregate_bytes :: "atom_identity \<times> term_identity \<times> term_identity \<Rightarrow> bytes" where
  "aggregate_bytes = both atom_bytes (both term_bytes term_bytes)"

definition filter_bytes :: "string \<times> string \<times> term_identity \<times> string \<Rightarrow> bytes" where
  "filter_bytes = both text_bytes (both text_bytes (both term_bytes text_bytes))"

fun literal_bytes :: "literal_identity \<Rightarrow> bytes" where
  "literal_bytes (Atom_id a) = number_bytes 1 @ atom_bytes a"
| "literal_bytes (Negated_id a) = number_bytes 3 @ atom_bytes a"
| "literal_bytes (Aggregate_id k p) = number_bytes (agg_code k) @ aggregate_bytes p"
| "literal_bytes (Comparison_id w p) = number_bytes 2 @ number_bytes w @ flag_bytes False @ both term_bytes term_bytes p"
| "literal_bytes (Arithmetic_id w p) = number_bytes 2 @ number_bytes w @ flag_bytes True @ both number_bytes number_bytes p"
| "literal_bytes (Filter_id p) = number_bytes 4 @ filter_bytes p"

fun literal_ok :: "literal_identity \<Rightarrow> bool" where
  "literal_ok (Atom_id a) = atom_ok a"
| "literal_ok (Negated_id a) = atom_ok a"
| "literal_ok (Aggregate_id k p) = both_ok atom_ok (both_ok term_ok term_ok) p"
| "literal_ok (Comparison_id w p) = both_ok term_ok term_ok p"
| "literal_ok (Arithmetic_id w p) = True"
| "literal_ok (Filter_id p) = both_ok text_ok (both_ok text_ok (both_ok term_ok text_ok)) p"

definition rule_bytes :: "rule_identity \<Rightarrow> bytes" where
  "rule_bytes = both number_bytes (both number_bytes (both number_bytes (both atom_bytes
     (both (counted node_bytes) (counted literal_bytes)))))"

definition rule_code_ok :: "rule_identity \<Rightarrow> bool" where
  "rule_code_ok = both_ok any (both_ok any (both_ok any (both_ok atom_ok
     (both_ok (counted_ok node_ok) (counted_ok literal_ok)))))"

definition program_bytes :: "program_identity \<Rightarrow> bytes" where
  "program_bytes p = text_bytes ''maelys-program-v1'' @
     both text_bytes (both text_bytes (both text_bytes (both text_bytes (both text_bytes (both text_bytes
     (both flag_bytes (both flag_bytes (both flag_bytes (both flag_bytes
     (both (counted (both text_bytes (both number_bytes number_bytes))) (both (counted text_bytes)
     (both flag_bytes (both (counted (both text_bytes number_bytes))
     (both (counted atom_bytes) (counted rule_bytes))))))))))))))) p"

text \<open>
  Every text and every list of the program is shorter than \<open>2 ^ 64\<close>, and the tag of an expression node is on the same
  side of its operands' split at 64 bits. Both hold for whatever fits in memory.
\<close>

definition program_ok :: "program_identity \<Rightarrow> bool" where
  "program_ok =
     both_ok text_ok (both_ok text_ok (both_ok text_ok (both_ok text_ok (both_ok text_ok (both_ok text_ok
     (both_ok any (both_ok any (both_ok any (both_ok any
     (both_ok (counted_ok (both_ok text_ok (both_ok any any))) (both_ok (counted_ok text_ok)
     (both_ok any (both_ok (counted_ok (both_ok text_ok any))
     (both_ok (counted_ok atom_ok) (counted_ok rule_code_ok)))))))))))))))"

definition representable :: "ruleset \<Rightarrow> bool" where
  "representable r \<longleftrightarrow> program_ok (identify_program r)"

interpretation text_code: prefix_code text_bytes text_ok
  unfolding text_bytes_def text_ok_def by (rule counted_code) (rule char_code.prefix_code_axioms)

interpretation flag_code: prefix_code flag_bytes any
proof
  fix x y :: bool and u v
  assume "flag_bytes x @ u = flag_bytes y @ v"
  then show "x = y \<and> u = v"
    using number_code.decodes[of "if x then 1 else 0" "if y then 1 else 0" u v]
    by (simp add: flag_bytes_def any_def split: if_splits)
qed

text \<open>A value behind a tag: equal streams have equal tags, and then equal values.\<close>

lemma tag_decodes: "number_bytes k @ xs = number_bytes k' @ ys \<longleftrightarrow> k = k' \<and> xs = ys"
  using number_code.decodes[of k k' xs ys] by (auto simp: any_def)

interpretation term_code: prefix_code term_bytes term_ok
proof
  fix x y u v
  assume "term_ok x" "term_ok y" "term_bytes x @ u = term_bytes y @ v"
  then show "x = y \<and> u = v"
    by (cases x; cases y) (simp_all add: tag_decodes text_code.decodes_iff)
qed

interpretation atom_code: prefix_code atom_bytes atom_ok
  unfolding atom_bytes_def atom_ok_def
  by (intro both_code counted_code number_code.prefix_code_axioms term_code.prefix_code_axioms)

interpretation pair_code: prefix_code "both number_bytes number_bytes" "both_ok any any"
  by (intro both_code number_code.prefix_code_axioms)

lemma both_any: "both_ok any any p"
  by (cases p) (simp add: any_def)

interpretation node_code: prefix_code node_bytes node_ok
proof
  fix x y :: node_identity and u v
  assume ok: "node_ok x" "node_ok y" and eq: "node_bytes x @ u = node_bytes y @ v"
  obtain k a k' b where xy: "x = (k, a)" "y = (k', b)" by fastforce
  show "x = y \<and> u = v"
    using ok eq unfolding xy
    by (cases a; cases b) (auto simp: tag_decodes term_code.decodes_iff pair_code.decodes_iff both_any)
qed

interpretation aggregate_code: prefix_code aggregate_bytes "both_ok atom_ok (both_ok term_ok term_ok)"
  unfolding aggregate_bytes_def by (intro both_code atom_code.prefix_code_axioms term_code.prefix_code_axioms)

interpretation operands_code: prefix_code "both term_bytes term_bytes" "both_ok term_ok term_ok"
  by (intro both_code term_code.prefix_code_axioms)

interpretation filter_code: prefix_code filter_bytes "both_ok text_ok (both_ok text_ok (both_ok term_ok text_ok))"
  unfolding filter_bytes_def by (intro both_code text_code.prefix_code_axioms term_code.prefix_code_axioms)

lemma agg_code_tags: "agg_code k \<noteq> 1" "agg_code k \<noteq> 2" "agg_code k \<noteq> 3" "agg_code k \<noteq> 4" "agg_code k = agg_code k' \<longleftrightarrow> k = k'"
  by (cases k; cases k'; simp)+

lemma flag_decodes: "flag_bytes b @ xs = flag_bytes b' @ ys \<longleftrightarrow> b = b' \<and> xs = ys"
  using flag_code.decodes[of b b' xs ys] by (auto simp: any_def)

interpretation literal_code: prefix_code literal_bytes literal_ok
proof
  fix x y u v
  assume ok: "literal_ok x" "literal_ok y" and eq: "literal_bytes x @ u = literal_bytes y @ v"
  note [simp] = tag_decodes flag_decodes agg_code_tags agg_code_tags(1-4)[symmetric]
  show "x = y \<and> u = v"
  proof (cases x)
    case (Atom_id a)
    then show ?thesis using ok eq by (cases y) (simp_all add: atom_code.decodes_iff)
  next
    case (Negated_id a)
    then show ?thesis using ok eq by (cases y) (simp_all add: atom_code.decodes_iff)
  next
    case (Aggregate_id k p)
    then show ?thesis using ok eq by (cases y) (simp_all add: aggregate_code.decodes_iff)
  next
    case (Comparison_id w p)
    then show ?thesis using ok eq by (cases y) (simp_all add: operands_code.decodes_iff)
  next
    case (Arithmetic_id w p)
    then show ?thesis using ok eq by (cases y) (simp_all add: pair_code.decodes_iff both_any)
  next
    case (Filter_id p)
    then show ?thesis using ok eq by (cases y) (simp_all add: filter_code.decodes_iff)
  qed
qed

interpretation rule_code: prefix_code rule_bytes rule_code_ok
  unfolding rule_bytes_def rule_code_ok_def
  by (intro both_code counted_code number_code.prefix_code_axioms atom_code.prefix_code_axioms
      node_code.prefix_code_axioms literal_code.prefix_code_axioms)

lemma headed_code: "prefix_code e p \<Longrightarrow> prefix_code (\<lambda>x. h @ e x) p"
  by unfold_locales (simp add: prefix_code.decodes_iff)

interpretation program_code: prefix_code program_bytes program_ok
proof -
  let ?header = "text_bytes ''maelys-program-v1''"
  define body where "body = both text_bytes (both text_bytes (both text_bytes (both text_bytes (both text_bytes (both text_bytes
     (both flag_bytes (both flag_bytes (both flag_bytes (both flag_bytes
     (both (counted (both text_bytes (both number_bytes number_bytes))) (both (counted text_bytes)
     (both flag_bytes (both (counted (both text_bytes number_bytes))
     (both (counted atom_bytes) (counted rule_bytes)))))))))))))))"
  have "prefix_code body program_ok"
    unfolding body_def program_ok_def
    by (intro both_code counted_code number_code.prefix_code_axioms text_code.prefix_code_axioms
        flag_code.prefix_code_axioms atom_code.prefix_code_axioms rule_code.prefix_code_axioms)
  then show "prefix_code program_bytes program_ok"
    unfolding program_bytes_def body_def[symmetric] by (rule headed_code)
qed

section \<open>The stream is the code\<close>

text \<open>\<open>emits f bs\<close>: when \<open>f\<close> does not stop early, the pieces it writes are \<open>bs\<close> altogether.\<close>

definition emits :: "feed \<Rightarrow> bytes \<Rightarrow> bool" where
  "emits f bs \<longleftrightarrow> (\<forall>p. f = Inr p \<longrightarrow> concat p = bs)"

named_theorems emit

lemma emits_then [emit]: "emits f x \<Longrightarrow> emits g y \<Longrightarrow> emits (feed_then f g) (x @ y)"
  by (cases f; cases g) (auto simp: emits_def)

lemma emits_stop [emit]: "emits (Inl e) bs"
  by (simp add: emits_def)

lemma emits_nil: "emits (feed_all []) []"
  by (simp add: emits_def feed_all_def)

lemma emits_cons: "emits f x \<Longrightarrow> emits (feed_all fs) y \<Longrightarrow> emits (feed_all (f # fs)) (x @ y)"
  using emits_then[of f x "feed_all fs" y] by (simp add: feed_all_def)

lemma emits_last: "emits f x \<Longrightarrow> emits (feed_all [f]) x"
  using emits_cons[OF _ emits_nil] by fastforce

lemma feed_then_assoc: "feed_then (feed_then f g) h = feed_then f (feed_then g h)"
  by (cases f; cases g; cases h) auto

lemma feed_all_append: "feed_all (fs @ gs) = feed_then (feed_all fs) (feed_all gs)"
proof (induction fs)
  case Nil
  then show ?case by (cases "feed_all gs") (auto simp: feed_all_def)
next
  case (Cons f fs)
  then show ?case using feed_then_assoc[of f] by (simp add: feed_all_def)
qed

lemma emits_append: "emits (feed_all fs) x \<Longrightarrow> emits (feed_all gs) y \<Longrightarrow> emits (feed_all (fs @ gs)) (x @ y)"
  unfolding feed_all_append by (rule emits_then)

lemma emits_map: "(\<And>x. emits (h x) (enc (ab x))) \<Longrightarrow> emits (feed_all (map h xs)) (concat (map enc (map ab xs)))"
  by (induction xs) (auto intro: emits_nil emits_cons)

lemma emits_counted:
  assumes "\<And>x. emits (h x) (enc (ab x))" "emits (feed_all fs) y"
  shows "emits (feed_all (hash_nat (length xs) # map h xs @ fs)) (counted enc (map ab xs) @ y)"
proof -
  have "emits (hash_nat (length xs)) (number_bytes (of_nat (length xs)))" by (simp add: emits_def hash_number_def)
  from emits_cons[OF this emits_append[OF emits_map[of h enc ab xs, OF assms(1)] assms(2)]] show ?thesis
    by (simp add: counted_def)
qed

lemma emits_counted_last:
  "(\<And>x. emits (h x) (enc (ab x))) \<Longrightarrow> emits (feed_all (hash_nat (length xs) # map h xs)) (counted enc (map ab xs))"
  using emits_counted[of h enc ab "[]" "[]" xs] emits_nil by simp

lemma emits_number [emit]: "emits (hash_number v) (number_bytes v)"
  by (simp add: emits_def hash_number_def)

lemma emits_flag [emit]: "emits (hash_flag b) (flag_bytes b)"
  by (simp add: emits_def hash_number_def hash_flag_def flag_bytes_def)

lemma emits_bytes [emit]: "emits (hash_bytes s) (text_bytes s)"
proof -
  have "concat (map char_byte s) = char_bytes s" by (induction s) (simp_all add: char_byte_def char_bytes_def)
  then show ?thesis by (simp add: emits_def hash_bytes_def hash_number_def text_bytes_def counted_def char_bytes_def)
qed

lemma emits_text [emit]: "emits (hash_text s) (text_bytes (c_string s))"
  unfolding hash_text_def by (rule emit)

text \<open>What follows the tag of a term.\<close>

lemma emits_term [emit]: "emits (hash_term r t) (term_bytes (identify_term r t))"
proof (cases t)
  case (TERM_SYMBOL sid)
  then show ?thesis
    by (cases "symbol_text (rs_symbols r) sid") (auto simp: hash_term_def intro!: emit simp del: feed_then.simps)
next
  case (TERM_NOKIND n)
  then show ?thesis by (simp add: hash_term_def emits_def hash_number_def)
qed (auto simp: hash_term_def intro!: emits_then emits_number simp del: feed_then.simps)

lemma emits_atom [emit]: "emits (hash_atom r a) (atom_bytes (identify_atom r a))"
proof -
  have "emits (feed_all (hash_nat (predicate_id a) # hash_nat (length (terms a)) # map (hash_term r) (terms a)))
      (number_bytes (of_nat (predicate_id a)) @ counted term_bytes (map (identify_term r) (terms a)))"
    by (intro emits_cons emits_counted_last emit)
  then show ?thesis by (simp add: hash_atom_def atom_bytes_def identify_atom_def)
qed

lemma emits_two: "emits f x \<Longrightarrow> emits g y \<Longrightarrow> emits (feed_all [f, g]) (x @ y)"
  by (intro emits_cons emits_last)

lemma emits_node: "emits (hash_node r n) (node_bytes (identify_node r n))"
  unfolding hash_node_def identify_node_def by (auto intro!: emit emits_two simp del: feed_then.simps)


lemma feed_all_stops: "Inl e \<in> set fs \<Longrightarrow> \<exists>e'. feed_all fs = Inl e'"
proof (induction fs)
  case (Cons f fs)
  then show ?case by (cases f; cases "feed_all fs") (auto simp: feed_all_def)
qed simp

lemma stopped_then: "feed_then f (Inl e) = Inr p \<longleftrightarrow> False"
  by (cases f) auto

lemma emits_stopped: "emits (feed_then f (Inl e)) bs"
  by (simp add: emits_def stopped_then)

lemma emits_literal: "emits (hash_literal r l) (literal_bytes (identify_literal r l))"
proof (cases l)
  case (LIT_ATOM a)
  then show ?thesis by (auto simp: hash_literal_def intro!: emit simp del: feed_then.simps)
next
  case (LIT_NEGATED_ATOM a)
  then show ?thesis by (auto simp: hash_literal_def intro!: emit simp del: feed_then.simps)
next
  case (LIT_AGGREGATE k a lhs rhs)
  moreover have "of_nat (literal_kind_code (LIT_AGGREGATE k a lhs rhs)) = agg_code k" by (cases k) simp_all
  ultimately show ?thesis
    by (auto simp: hash_literal_def aggregate_bytes_def intro!: emit emits_cons emits_last simp del: feed_then.simps literal_kind_code.simps)
next
  case (LIT_COMPARISON lhs op rhs arith lroot rroot)
  then show ?thesis
    by (auto simp: hash_literal_def intro!: emit emits_cons emits_last simp del: feed_then.simps)
next
  case (LIT_FILTER kind index v)
  have "emits (hash_literal r (LIT_FILTER kind index v)) (literal_bytes (identify_literal r (LIT_FILTER kind index v)))"
  proof (cases "\<exists>d p. filter_by_kind_in (ctx_filters (rs_modules r)) kind = Some d \<and> index < length (rs_filter_programs r) \<and>
      pattern_of r (rs_filter_programs r ! index) = Some p")
    case True
    then show ?thesis
      by (auto simp: hash_literal_def hash_filter_def filter_bytes_def intro!: emit emits_cons emits_last simp del: feed_then.simps)
  next
    case False
    then have "\<exists>e. hash_filter r kind index v = Inl e"
      by (auto simp: hash_filter_def intro!: feed_all_stops split: option.splits)
    then show ?thesis by (auto simp: hash_literal_def emits_stopped)
  qed
  then show ?thesis using LIT_FILTER by simp
next
  case (LIT_OTHER n)
  then show ?thesis by (simp add: hash_literal_def emits_stopped)
qed

lemma emits_rule: "emits (hash_rule r i) (rule_bytes (identify_rule r i))"
proof -
  let ?rule = "rs_rules r ! i" and ?source = "if i < length (rs_rule_sources r) then rs_rule_sources r ! i else (0, 0)"
  have "emits (feed_all (hash_nat (rule_id ?rule) # hash_nat (fst ?source) # hash_nat (snd ?source) # hash_atom r (head ?rule) #
      hash_nat (length (expr_nodes ?rule)) # map (hash_node r) (expr_nodes ?rule) @
      hash_nat (length (body ?rule)) # map (hash_literal r) (body ?rule)))
    (number_bytes (of_nat (rule_id ?rule)) @ number_bytes (of_nat (fst ?source)) @ number_bytes (of_nat (snd ?source)) @
      atom_bytes (identify_atom r (head ?rule)) @ counted node_bytes (map (identify_node r) (expr_nodes ?rule)) @
      counted literal_bytes (map (identify_literal r) (body ?rule)))"
    by (intro emits_cons emits_counted emits_counted_last emit emits_node emits_literal)
  then show ?thesis by (simp add: hash_rule_def identify_rule_def rule_bytes_def Let_def del: upt_Suc)
qed

lemma emits_predicate:
  "emits (hash_predicate d) (both text_bytes (both number_bytes number_bytes) (c_string (pred_name d), of_nat (pred_arity d), ucast (kind_flags d)))"
  unfolding hash_predicate_def both.simps by (intro emits_cons emits_last emit)

lemma emits_whitelisted: "emits (hash_whitelisted q) (both text_bytes number_bytes (c_string (fst q), of_nat (snd q)))"
  unfolding hash_whitelisted_def both.simps by (intro emits_cons emits_last emit)

lemma emits_program: "emits (program_stream r) (program_bytes (identify_program r))"
proof -
  have "emits (feed_all (map (hash_rule r) [0..<length (rs_rules r)])) (concat (map rule_bytes (map (identify_rule r) [0..<length (rs_rules r)])))"
    by (rule emits_map) (rule emits_rule)
  then have rules: "emits (feed_all (hash_nat (length (rs_rules r)) # map (hash_rule r) [0..<length (rs_rules r)]))
      (counted rule_bytes (map (identify_rule r) [0..<length (rs_rules r)]))"
    unfolding counted_def using emits_cons[OF emits_number] by fastforce
  have header: "emits (hash_text ''maelys-program-v1'') (text_bytes ''maelys-program-v1'')"
    using emits_text[of "''maelys-program-v1''"] by (simp add: c_string_def)
  show ?thesis
    unfolding program_stream_def identify_program_def program_bytes_def both.simps append.simps
    by (intro header emits_cons emits_counted emit rules emits_predicate emits_whitelisted)
qed

lemma digest_of_feed: "digest_of_feed f = (case f of Inl e \<Rightarrow> Inl e | Inr p \<Rightarrow> Inr (digest_hex (fips_sha256 (concat p))))"
proof (cases f)
  case (Inr p)
  obtain ctx where "sha256_updates sha256_init p = Some ctx" "hashed (concat p) ctx" "sx_bit_len ctx = of_nat (8 * length (concat p))"
    using updates_hashed[OF init_hashed, of p] by auto
  then show ?thesis using Inr sha256_final_standard by (simp add: digest_of_feed_def)
qed (simp add: digest_of_feed_def)


end
