(* ===== verification/Canonical.thy ===== *)
theory Canonical
  imports Fingerprint Validate_Sound Lexer_Props
begin

unbundle bit_operations_syntax

text \<open>
  The authority hash and the finalisation of a ruleset, \<^verbatim>\<open>src/core/maelys_datalog_ruleset_canonical.c\<close>: the text
  form of a policy that is hashed when no source hash was supplied, or when the policy depends on an extension, and
  the fingerprint of the compiled program on top of it. The planner of the extension catalog enters by its name and
  semantic identifier, a parameter here.
\<close>

section \<open>Formatted pieces\<close>

definition canonical_update :: "string \<Rightarrow> feed" where
  "canonical_update s = Inr [char_bytes (c_string s)]"

definition canonical_update_bytes :: "string \<Rightarrow> feed" where
  "canonical_update_bytes s = Inr (if s = [] then [] else [char_bytes s])"

text \<open>The argument is what \<^verbatim>\<open>vsnprintf\<close> formats; it is refused when it does not fit in the buffer of 256 bytes.\<close>

definition canonical_printf :: "string \<Rightarrow> feed" where
  "canonical_printf s =
     (if s = [] \<or> length s \<ge> 256 then Inl (Some MAELYS_ERR_PAYLOAD_TOO_LARGE) else Inr [char_bytes s])"

definition print_unsigned :: "nat \<Rightarrow> string" where
  "print_unsigned n = digits (n mod 2 ^ 32)"

definition print_signed :: "int \<Rightarrow> string" where
  "print_signed i = (if i < 0 then CHR ''-'' # digits (nat (- i)) else digits (nat i))"

section \<open>Terms, atoms and literals\<close>

definition canonical_predicate_def :: "ruleset \<Rightarrow> nat \<Rightarrow> predicate_entry option" where
  "canonical_predicate_def r pid =
     (if pid \<ge> length (defs (rs_registry r)) \<or> pid \<ge> MAX_PREDICATES then None else Some (defs (rs_registry r) ! pid))"

definition canonical_stream_term :: "ruleset \<Rightarrow> term \<Rightarrow> feed" where
  "canonical_stream_term r t =
     (case t of
        TERM_SYMBOL sid \<Rightarrow>
          (case symbol_text (rs_symbols r) sid of
             None \<Rightarrow> Inl (Some MAELYS_ERR_INVALID_STATE)
           | Some p \<Rightarrow> canonical_printf (''sym:'' @ c_string p))
      | TERM_INT i \<Rightarrow> canonical_printf (''int:'' @ print_signed i)
      | TERM_BOOL b \<Rightarrow> canonical_printf (''bool:'' @ (if b \<noteq> 0 then ''1'' else ''0''))
      | TERM_VAR v \<Rightarrow> canonical_printf (''var:'' @ print_unsigned v)
      | TERM_NOKIND _ \<Rightarrow> Inl (Some MAELYS_ERR_INVALID_STATE))"

fun separated_terms :: "ruleset \<Rightarrow> term list \<Rightarrow> feed list" where
  "separated_terms r [] = []"
| "separated_terms r [t] = [canonical_stream_term r t]"
| "separated_terms r (t # ts) = canonical_stream_term r t # canonical_update '','' # separated_terms r ts"

definition canonical_stream_terms :: "ruleset \<Rightarrow> term list \<Rightarrow> feed" where
  "canonical_stream_terms r ts =
     (if length ts > MAX_TERMS then Inl (Some MAELYS_ERR_INVALID_ARGUMENT) else feed_all (separated_terms r ts))"

definition canonical_stream_atom :: "ruleset \<Rightarrow> string \<Rightarrow> fact \<Rightarrow> feed" where
  "canonical_stream_atom r prefix a =
     (if arity a > MAX_TERMS then Inl (Some MAELYS_ERR_INVALID_ARGUMENT)
      else case canonical_predicate_def r (predicate_id a) of
        None \<Rightarrow> Inl (Some MAELYS_ERR_INVALID_STATE)
      | Some d \<Rightarrow>
          feed_all [canonical_printf (prefix @ c_string (pred_name d) @ ''/'' @ print_unsigned (arity a) @ ''(''),
            canonical_stream_terms r (terms a), canonical_update ('')'' @ [CHR 0x0A])])"

definition canonical_stream_node :: "ruleset \<Rightarrow> nat \<Rightarrow> arith_expr_node \<Rightarrow> feed" where
  "canonical_stream_node r i n =
     feed_all ([canonical_printf (''['' @ print_unsigned i @ '':'' @ print_unsigned (arith_kind_code (node_kind n)) @ '':'' @
         print_unsigned (node_left n) @ '':'' @ print_unsigned (node_right n) @ '':'')] @
       (if node_kind n = ARITH_INT_LITERAL \<or> node_kind n = ARITH_VAR then [canonical_stream_term r (node_term n)] else []) @
       [canonical_update '']''])"

definition canonical_stream_comparison :: "ruleset \<Rightarrow> rule \<Rightarrow> literal \<Rightarrow> feed" where
  "canonical_stream_comparison r rule l =
     feed_all ([canonical_printf (''body.cmp='' @ print_unsigned (cmp_op_code (cmp_operator l)) @ '':'')] @
       (if has_arith_expr l
        then canonical_printf (''expr:'' @ print_unsigned (lhs_expr_root l) @ '':'' @ print_unsigned (rhs_expr_root l) @
               '':nodes='' @ print_unsigned (length (expr_nodes rule)) @ '':'') #
             map (\<lambda>i. canonical_stream_node r i (expr_nodes rule ! i)) [0..<length (expr_nodes rule)]
        else [canonical_stream_term r (cmp_lhs l), canonical_update '','', canonical_stream_term r (cmp_rhs l)]) @
       [canonical_update [CHR 0x0A]])"

definition canonical_stream_filter :: "ruleset \<Rightarrow> nat \<Rightarrow> nat \<Rightarrow> term \<Rightarrow> feed" where
  "canonical_stream_filter r kind index value =
     (if index \<ge> length (rs_filter_programs r) then Inl (Some MAELYS_ERR_INVALID_STATE)
      else
        let f = rs_filter_programs r ! index; used = length (rs_filter_pattern_pool r) in
        if program_kind f \<noteq> kind \<or> pattern_length f > MAX_FILTER_PATTERN_BYTES \<or> pattern_offset f > used \<or>
           pattern_length f > used - pattern_offset f
        then Inl (Some MAELYS_ERR_INVALID_STATE)
        else case filter_by_kind_in (ctx_filters (rs_modules r)) (program_kind f) of
          None \<Rightarrow> Inl (Some MAELYS_ERR_INVALID_STATE)
        | Some d \<Rightarrow>
            feed_all [canonical_printf (''body.filter='' @ c_string (fm_name d) @ ''/'' @ c_string (fm_semantic_id d) @ '':''),
              canonical_stream_term r value,
              canonical_printf ('':pattern:'' @ print_unsigned (pattern_length f) @ '':''),
              canonical_update_bytes (take (pattern_length f) (drop (pattern_offset f) (rs_filter_pattern_pool r))),
              canonical_update [CHR 0x0A]])"

definition canonical_stream_literal :: "ruleset \<Rightarrow> rule \<Rightarrow> literal \<Rightarrow> feed" where
  "canonical_stream_literal r rule l =
     (case l of
        LIT_ATOM a \<Rightarrow> canonical_stream_atom r ''body.atom='' a
      | LIT_NEGATED_ATOM a \<Rightarrow> canonical_stream_atom r ''body.not='' a
      | LIT_AGGREGATE kind a lhs rhs \<Rightarrow>
          feed_all [canonical_update ''body.count='', canonical_stream_term r lhs, canonical_update '':'',
            canonical_stream_term r rhs, canonical_stream_atom r '':'' a]
      | LIT_COMPARISON _ _ _ _ _ _ \<Rightarrow> canonical_stream_comparison r rule l
      | LIT_FILTER kind index value \<Rightarrow> canonical_stream_filter r kind index value
      | LIT_OTHER _ \<Rightarrow> Inl (Some MAELYS_ERR_INVALID_STATE))"

definition canonical_stream_rule :: "ruleset \<Rightarrow> rule \<Rightarrow> feed" where
  "canonical_stream_rule r rule =
     feed_all ([canonical_printf (''rule='' @ digits (rule_id rule) @ [CHR 0x0A]), canonical_stream_atom r ''head='' (head rule)] @
       map (canonical_stream_literal r rule) (body rule))"

section \<open>The ruleset\<close>

type_synonym planner_identity = "(string \<times> string) option"

definition PROFILE_NAME :: string where "PROFILE_NAME = ''MAELYS-DATALOG-v2''"

definition canonical_line :: "string \<Rightarrow> string \<Rightarrow> feed" where
  "canonical_line key s = canonical_printf (key @ c_string s @ [CHR 0x0A])"

definition canonical_stream_predicate :: "predicate_entry \<Rightarrow> feed" where
  "canonical_stream_predicate d =
     canonical_printf (''pred='' @ c_string (pred_name d) @ ''/'' @ digits (pred_arity d) @ ''/'' @ digits (unat (kind_flags d)) @ [CHR 0x0A])"

definition canonical_stream_query :: "predicate_entry \<Rightarrow> feed list" where
  "canonical_stream_query d =
     (if (kind_flags d AND PRED_KIND_QUERY) \<noteq> 0 \<and> (kind_flags d AND PRED_KIND_IDB) \<noteq> 0
      then [canonical_printf (''query='' @ c_string (pred_name d) @ ''/'' @ digits (pred_arity d) @ [CHR 0x0A])] else [])"

definition ruleset_stream_canonical :: "planner_identity \<Rightarrow> ruleset \<Rightarrow> feed" where
  "ruleset_stream_canonical planner r =
     (if \<not> rs_loaded r then Inl (Some MAELYS_ERR_INVALID_ARGUMENT)
      else feed_all ([canonical_line ''policy_id='' (rs_policy_id r)] @
        (if c_string (rs_frontend_name r) \<noteq> []
         then [canonical_printf (''frontend='' @ c_string (rs_frontend_name r) @ ''/'' @ c_string (rs_frontend_semantic_id r) @ [CHR 0x0A]),
               canonical_line ''source='' (rs_source_sha256 r)] else []) @
        (case planner of
           None \<Rightarrow> []
         | Some (name, sem) \<Rightarrow> [canonical_printf (''planner='' @ c_string name @ ''/'' @ c_string sem @ [CHR 0x0A])]) @
        [canonical_line ''domain='' (rs_domain r), canonical_line ''profile='' PROFILE_NAME] @
        map canonical_stream_predicate (defs (rs_registry r)) @
        map (canonical_stream_atom r ''fact='') (rs_facts r) @
        map (canonical_stream_rule r) (rs_rules r) @
        concat (map canonical_stream_query (defs (rs_registry r)))))"

text \<open>\<open>None\<close> stands for a read outside the ruleset, as in the streams.\<close>

definition extended_policy :: "planner_identity \<Rightarrow> ruleset \<Rightarrow> bool" where
  "extended_policy planner r \<longleftrightarrow>
     c_string (rs_frontend_name r) \<noteq> [] \<or> planner \<noteq> None \<or> list_ex (\<lambda>f. program_kind f > 3) (rs_filter_programs r)"

definition finalize_authority :: "planner_identity \<Rightarrow> ruleset \<Rightarrow> (maelys_result \<times> ruleset) option" where
  "finalize_authority planner r =
     (if length (rs_filter_programs r) > MAX_FILTER_PROGRAMS then Some (MAELYS_ERR_INVALID_STATE, r)
      else if \<not> extended_policy planner r \<and> sha256_hex_is_lowercase (c_string (rs_sha256 r)) then Some (MAELYS_OK, r)
      else case digest_of_feed (ruleset_stream_canonical planner r) of
        Inl None \<Rightarrow> None
      | Inl (Some rc) \<Rightarrow> Some (rc, r)
      | Inr hex \<Rightarrow> Some (MAELYS_OK, r\<lparr>rs_sha256 := hex\<rparr>))"

definition ruleset_finalize_sha256 :: "planner_identity \<Rightarrow> ruleset \<Rightarrow> (maelys_result \<times> ruleset) option" where
  "ruleset_finalize_sha256 planner r =
     (case finalize_authority planner (r\<lparr>rs_compiled_fingerprint := []\<rparr>) of
        None \<Rightarrow> None
      | Some (rc, r) \<Rightarrow>
          if rc \<noteq> MAELYS_OK \<or> \<not> rs_program_validated r then Some (rc, r)
          else case compute_program_fingerprint r of
            Inl None \<Rightarrow> None
          | Inl (Some rc) \<Rightarrow> Some (rc, r)
          | Inr hex \<Rightarrow> Some (MAELYS_OK, r\<lparr>rs_compiled_fingerprint := hex\<rparr>))"

section \<open>What finalisation leaves\<close>

lemma digest_of_feed_cases:
  "digest_of_feed f = Inl e \<longleftrightarrow> f = Inl e"
  "digest_of_feed f = Inr hex \<longleftrightarrow> (\<exists>p. f = Inr p \<and> hex = digest_hex (fips_sha256 (concat p)))"
  by (auto simp: digest_of_feed split: sum.splits)

text \<open>A canonical stream that stops returns an error: it is never undefined.\<close>

definition fails_with_error :: "feed \<Rightarrow> bool" where
  "fails_with_error f \<longleftrightarrow> (\<forall>e. f = Inl e \<longrightarrow> (\<exists>rc. e = Some rc \<and> rc \<noteq> MAELYS_OK))"

named_theorems failing

lemma failing_all [failing]: "list_all fails_with_error fs \<Longrightarrow> fails_with_error (feed_all fs)"
proof (induction fs)
  case (Cons f fs)
  then show ?case by (cases f; cases "feed_all fs") (auto simp: fails_with_error_def feed_all_def)
qed (simp add: fails_with_error_def feed_all_def)

lemma failing_pieces [failing]:
  "fails_with_error (canonical_update s)" "fails_with_error (canonical_update_bytes s)" "fails_with_error (canonical_printf s)"
  by (simp_all add: fails_with_error_def canonical_update_def canonical_update_bytes_def canonical_printf_def)

lemma failing_stop [failing]: "rc \<noteq> MAELYS_OK \<Longrightarrow> fails_with_error (Inl (Some rc))"
  by (simp add: fails_with_error_def)

lemma failing_term [failing]: "fails_with_error (canonical_stream_term r t)"
  by (auto simp: canonical_stream_term_def intro!: failing split: option.split "term.split")

lemma failing_terms [failing]: "fails_with_error (canonical_stream_terms r ts)"
proof -
  have "list_all fails_with_error (separated_terms r ts)"
    by (induction r ts rule: separated_terms.induct) (auto intro: failing)
  then show ?thesis by (auto simp: canonical_stream_terms_def intro: failing)
qed

lemma failing_atom [failing]: "fails_with_error (canonical_stream_atom r prefix a)"
  unfolding canonical_stream_atom_def by (auto intro!: failing split: option.split)

lemma failing_node [failing]: "fails_with_error (canonical_stream_node r i n)"
  unfolding canonical_stream_node_def by (auto intro!: failing)

lemma failing_comparison [failing]: "fails_with_error (canonical_stream_comparison r rule l)"
  unfolding canonical_stream_comparison_def by (auto intro!: failing simp: list.pred_set)

lemma failing_filter [failing]: "fails_with_error (canonical_stream_filter r kind index v)"
  unfolding canonical_stream_filter_def Let_def by (auto intro!: failing split: option.split)

lemma failing_literal [failing]: "fails_with_error (canonical_stream_literal r rule l)"
  unfolding canonical_stream_literal_def by (auto intro!: failing split: literal.split)

lemma failing_rule [failing]: "fails_with_error (canonical_stream_rule r rule)"
  unfolding canonical_stream_rule_def by (auto intro!: failing simp: list.pred_set)

lemma failing_canonical: "fails_with_error (ruleset_stream_canonical planner r)"
proof -
  have lines: "fails_with_error (canonical_line key v)" "fails_with_error (canonical_stream_predicate d)"
    "list_all fails_with_error (canonical_stream_query d)" for key v d
    by (auto simp: canonical_line_def canonical_stream_predicate_def canonical_stream_query_def intro: failing)
  then show ?thesis
    unfolding ruleset_stream_canonical_def by (auto intro!: failing simp: list.pred_set split: option.split)
qed

lemma finalize_authority_cases:
  "finalize_authority planner r = Some (MAELYS_OK, r) \<and> \<not> extended_policy planner r \<and> sha256_hex_is_lowercase (c_string (rs_sha256 r)) \<or>
   (\<exists>p. finalize_authority planner r = Some (MAELYS_OK, r\<lparr>rs_sha256 := digest_hex (fips_sha256 (concat p))\<rparr>) \<and>
        (extended_policy planner r \<or> \<not> sha256_hex_is_lowercase (c_string (rs_sha256 r))) \<and>
        ruleset_stream_canonical planner r = Inr p) \<or>
   (\<exists>rc. finalize_authority planner r = Some (rc, r) \<and> rc \<noteq> MAELYS_OK)"
proof (cases "length (rs_filter_programs r) > MAX_FILTER_PROGRAMS \<or>
    \<not> extended_policy planner r \<and> sha256_hex_is_lowercase (c_string (rs_sha256 r))")
  case True
  then show ?thesis by (auto simp: finalize_authority_def)
next
  case False
  then show ?thesis
    using failing_canonical[of planner r] unfolding finalize_authority_def fails_with_error_def
    by (cases "ruleset_stream_canonical planner r") (auto simp: digest_of_feed)
qed

text \<open>The authority recorded in a policy that finalisation accepts.\<close>

definition authority :: "planner_identity \<Rightarrow> ruleset \<Rightarrow> string \<Rightarrow> bool" where
  "authority planner r hex \<longleftrightarrow>
     (if \<not> extended_policy planner r \<and> sha256_hex_is_lowercase (c_string (rs_sha256 r)) then hex = rs_sha256 r
      else \<exists>p. ruleset_stream_canonical planner r = Inr p \<and> hex = digest_hex (fips_sha256 (concat p)))"

section \<open>Validated programs have a fingerprint\<close>

definition runs :: "feed \<Rightarrow> bool" where
  "runs f \<longleftrightarrow> (\<exists>p. f = Inr p)"

named_theorems running

lemma runs_then [running]: "runs f \<Longrightarrow> runs g \<Longrightarrow> runs (feed_then f g)"
  by (auto simp: runs_def)

lemma runs_all [running]: "list_all runs fs \<Longrightarrow> runs (feed_all fs)"
  by (induction fs) (auto simp: feed_all_def runs_def)

lemma runs_pieces [running]: "runs (hash_number v)" "runs (hash_flag b)" "runs (hash_bytes s)" "runs (hash_text s)"
  by (auto simp: runs_def hash_number_def hash_flag_def hash_bytes_def hash_text_def)

lemma runs_term: "valid_term r t b \<Longrightarrow> runs (hash_term r t)"
  unfolding hash_term_def by (cases t) (auto intro!: running simp: symbol_text_def simp del: feed_then.simps)

lemma runs_atom: "valid_atom r a b \<Longrightarrow> runs (hash_atom r a)"
  unfolding hash_atom_def valid_atom_def by (auto intro!: running runs_term simp: list_all_iff split: option.splits)

lemma runs_nodes: "expressions_loop r ns expanded \<Longrightarrow> n \<in> set ns \<Longrightarrow> runs (hash_node r n)"
proof (induction ns arbitrary: expanded)
  case (Cons m ns)
  obtain k where k: "node_operands r m expanded = Some k" "expressions_loop r ns (expanded @ [k + 1])"
    using Cons.prems(1) by (auto split: option.splits)
  have "runs (hash_node r m)"
    using k(1) unfolding hash_node_def node_operands_def
    by (auto intro!: running intro: runs_term simp del: feed_then.simps split: arith_kind.splits if_splits)
  then show ?case using Cons.IH[OF k(2)] Cons.prems(2) by auto
qed simp

text \<open>What validation checks of the filter programs.\<close>

definition filters_checked :: "ruleset \<Rightarrow> bool" where
  "filters_checked r \<longleftrightarrow> (\<forall>f\<in>set (rs_filter_programs r). pattern_of r f \<noteq> None \<and>
     filter_by_kind_in (ctx_filters (rs_modules r)) (program_kind f) \<noteq> None)"

lemma runs_literal:
  assumes "filters_checked r" "valid_literal r rule l" shows "runs (hash_literal r l)"
proof (cases l)
  case (LIT_FILTER kind index v)
  then have v: "index < length (rs_filter_programs r)" "program_kind (rs_filter_programs r ! index) = kind" "valid_term r v True"
    using assms(2) by (auto simp: valid_literal_def)
  then obtain d p where "filter_by_kind_in (ctx_filters (rs_modules r)) kind = Some d" "pattern_of r (rs_filter_programs r ! index) = Some p"
    using assms(1) unfolding filters_checked_def by (metis nth_mem not_Some_eq)
  then show ?thesis using v LIT_FILTER unfolding hash_literal_def hash_filter_def
    by (auto intro!: running runs_term simp del: feed_then.simps)
next
  case (LIT_COMPARISON lhs op rhs arith lroot rroot)
  then show ?thesis using assms(2) unfolding hash_literal_def
    by (auto intro!: running simp: valid_literal_def valid_comparison_def simp del: feed_then.simps intro: runs_term)
qed (use assms(2) in \<open>auto intro!: running runs_atom runs_term simp: hash_literal_def valid_literal_def valid_aggregate_def
    simp del: feed_then.simps\<close>)

lemma runs_rule:
  assumes "filters_checked r" "i < length (rs_rules r)" "rule_valid r (rs_rules r ! i)" shows "runs (hash_rule r i)"
proof -
  have "runs (hash_atom r (head (rs_rules r ! i)))" "list_all runs (map (hash_node r) (expr_nodes (rs_rules r ! i)))"
    "list_all runs (map (hash_literal r) (body (rs_rules r ! i)))"
    using assms runs_atom runs_nodes[of r _ "[]"] runs_literal
    by (auto simp: rule_valid_def valid_expressions_def list_all_iff)
  then show ?thesis unfolding hash_rule_def Let_def by (intro running) (simp add: running)
qed

lemma runs_program:
  assumes "filters_checked r" "list_all (valid_fact r) (rs_facts r)" "\<forall>rule\<in>set (rs_rules r). rule_valid r rule"
  shows "runs (program_stream r)"
proof -
  have "runs (hash_predicate d)" "runs (hash_whitelisted q)" for d q
    by (auto simp: hash_predicate_def hash_whitelisted_def intro!: running)
  moreover have "runs (hash_atom r f)" if "f \<in> set (rs_facts r)" for f
    using that assms(2) by (auto simp: list_all_iff valid_fact_def intro: runs_atom)
  ultimately show ?thesis
    using assms unfolding program_stream_def by (intro running) (auto intro!: running runs_rule simp: list_all_iff)
qed

lemma accepted_filters:
  assumes "validate_program r file origin diag = (MAELYS_OK, r', d')"
  shows "filters_checked (unvalidated r)"
proof -
  have nv: "\<not> rs_program_validated (unvalidated r)" by (simp add: unvalidated_def)
  have "validate_filters file origin (unvalidated r) (rs_filter_programs (unvalidated r)) 0 = None"
  proof (rule ccontr)
    assume "validate_filters file origin (unvalidated r) (rs_filter_programs (unvalidated r)) 0 \<noteq> None"
    then obtain v where v: "validate_filters file origin (unvalidated r) (rs_filter_programs (unvalidated r)) 0 = Some v" by blast
    then have "validate_program r file origin diag \<in> {v, malformed file (0, 0) (unvalidated r), (MAELYS_ERR_INVALID_STATE, r, diag)}"
      unfolding validate_program_def validate_program_impl_def Let_def unvalidated_def[symmetric] by simp
    moreover have "refused (unvalidated r) (malformed file (0, 0) (unvalidated r))" by (rule refused_malformed[OF nv])
    ultimately show False using assms validate_filters_refused[OF nv v] by (fastforce simp: refused_def)
  qed
  moreover have "validate_filters file origin q fs i = None \<Longrightarrow> f \<in> set fs \<Longrightarrow>
      pattern_of q f \<noteq> None \<and> filter_by_kind_in (ctx_filters (rs_modules q)) (program_kind f) \<noteq> None" for q fs i f
    by (induction fs arbitrary: i) (auto simp: Let_def pattern_of_def filter_validate_in_def split: if_splits option.splits)
  ultimately show ?thesis unfolding filters_checked_def by blast
qed

lemma validation_keeps_modules:
  "flagged r r' \<Longrightarrow> rs_modules r' = rs_modules r"
  "assign_strata p r d = (rc, r', d') \<Longrightarrow> rs_modules r' = rs_modules r"
proof -
  have "rs_modules (unflag q) = rs_modules q" for q by (simp add: unflag_def)
  then show "flagged r r' \<Longrightarrow> rs_modules r' = rs_modules r" unfolding flagged_def by metis
qed (auto simp: assign_strata_def Let_def simp del: relax_loop.simps split: if_splits sum.splits)

lemma accepted_runs:
  assumes "validate_program r file origin diag = (MAELYS_OK, r', d')"
  shows "runs (program_stream r') \<and> rs_program_validated r' \<and> length (rs_filter_programs r') \<le> MAX_FILTER_PROGRAMS"
proof -
  have live: "rs_loaded r" "frozen (rs_registry r)"
    using assms by (auto simp: validate_program_def validate_program_impl_def split: if_splits)
  let ?r = "unvalidated r"
  obtain r1 r2 p where v: "within_bounds ?r" "list_all (valid_fact ?r) (rs_facts r)" "flagged ?r r1"
    "\<forall>rule\<in>set (rs_rules r). rule_accepted ?r rule \<and> flags_cover r1 rule" "assign_strata p r1 diag = (MAELYS_OK, r2, d')"
    "r' = r2\<lparr>rs_program_validated := True\<rparr>"
    using validate_program_cases[OF assms live] by (auto simp: refused_def)
  note same = flagged_fields[OF v(3)] assign_strata_fields[OF v(5)] validation_keeps_modules(1)[OF v(3)] validation_keeps_modules(2)[OF v(5)]
  have u: "rs_rules ?r = rs_rules r" "rs_facts ?r = rs_facts r" by (simp_all add: unvalidated_def)
  have voc: "same_vocabulary ?r r'" using same by (simp add: same_vocabulary_def v(6))
  have "filters_checked r'" using accepted_filters[OF assms] same by (simp add: filters_checked_def pattern_of_def v(6) split: if_splits)
  moreover have "valid_fact r' = valid_fact ?r" using valid_atom_cong[OF voc] voc by (auto simp: valid_fact_def same_vocabulary_def)
  moreover have "\<forall>rule\<in>set (rs_rules r'). rule_valid r' rule"
    using v(4) rule_valid_cong[OF voc] same u by (simp add: rule_accepted_def v(6))
  ultimately show ?thesis using runs_program[of r'] v(1,2) same u by (simp add: within_bounds_def v(6))
qed

section \<open>Finalisation of a validated policy\<close>

text \<open>Neither hash reads the place it is written to; the fingerprint reads the authority as one text.\<close>

lemma fingerprint_place:
  "hash_term (r\<lparr>rs_compiled_fingerprint := c\<rparr>) = hash_term r" "hash_term (r\<lparr>rs_sha256 := h\<rparr>) = hash_term r"
  by (simp_all add: fun_eq_iff hash_term_def split: "term.split")

lemma program_stream_place:
  "program_stream (r\<lparr>rs_compiled_fingerprint := c\<rparr>) = program_stream r"
  "runs (program_stream (r\<lparr>rs_sha256 := h\<rparr>)) \<longleftrightarrow> runs (program_stream r)"
proof -
  have atoms: "hash_atom (r\<lparr>rs_compiled_fingerprint := c\<rparr>) = hash_atom r" "hash_atom (r\<lparr>rs_sha256 := h\<rparr>) = hash_atom r"
    by (simp_all add: fun_eq_iff fingerprint_place hash_atom_def)
  have nodes: "hash_node (r\<lparr>rs_compiled_fingerprint := c\<rparr>) = hash_node r" "hash_node (r\<lparr>rs_sha256 := h\<rparr>) = hash_node r"
    by (simp_all add: fun_eq_iff fingerprint_place hash_node_def)
  have lits: "hash_literal (r\<lparr>rs_compiled_fingerprint := c\<rparr>) = hash_literal r" "hash_literal (r\<lparr>rs_sha256 := h\<rparr>) = hash_literal r"
    by (simp_all add: fun_eq_iff atoms fingerprint_place hash_literal_def hash_filter_def pattern_of_def split: literal.split option.split)
  have rules: "hash_rule (r\<lparr>rs_compiled_fingerprint := c\<rparr>) = hash_rule r" "hash_rule (r\<lparr>rs_sha256 := h\<rparr>) = hash_rule r"
    by (simp_all add: fun_eq_iff hash_rule_def atoms nodes lits)
  show "program_stream (r\<lparr>rs_compiled_fingerprint := c\<rparr>) = program_stream r"
    by (simp add: program_stream_def atoms rules)
  have split: "runs (feed_all fs) \<longleftrightarrow> list_all runs fs" for fs
    by (induction fs) (auto simp: runs_def feed_all_def elim!: feed_then.elims)
  show "runs (program_stream (r\<lparr>rs_sha256 := h\<rparr>)) \<longleftrightarrow> runs (program_stream r)"
    by (simp add: program_stream_def atoms rules split running)
qed

text \<open>The canonical text of a rule reads the tables of the ruleset, not the rest of it.\<close>

definition same_tables :: "ruleset \<Rightarrow> ruleset \<Rightarrow> bool" where
  "same_tables r r' \<longleftrightarrow> rs_symbols r' = rs_symbols r \<and> rs_registry r' = rs_registry r \<and> rs_modules r' = rs_modules r \<and>
     rs_filter_programs r' = rs_filter_programs r \<and> rs_filter_pattern_pool r' = rs_filter_pattern_pool r"

lemma canonical_tables:
  assumes "same_tables r r'"
  shows "canonical_stream_atom r' = canonical_stream_atom r" "canonical_stream_rule r' = canonical_stream_rule r"
    "canonical_stream_literal r' = canonical_stream_literal r"
proof -
  have t: "canonical_stream_term r' = canonical_stream_term r"
    using assms by (simp add: fun_eq_iff same_tables_def canonical_stream_term_def split: "term.split")
  have ts: "separated_terms r' ts = separated_terms r ts" for ts
    by (induction ts rule: induct_list012) (simp_all add: t)
  show a: "canonical_stream_atom r' = canonical_stream_atom r"
    using assms by (simp add: fun_eq_iff same_tables_def canonical_stream_atom_def canonical_predicate_def_def canonical_stream_terms_def ts
        split: option.split)
  have "canonical_stream_node r' = canonical_stream_node r" by (simp add: fun_eq_iff canonical_stream_node_def t)
  then have c: "canonical_stream_comparison r' = canonical_stream_comparison r"
    by (simp add: fun_eq_iff canonical_stream_comparison_def t)
  have f: "canonical_stream_filter r' = canonical_stream_filter r"
    using assms by (simp add: fun_eq_iff same_tables_def canonical_stream_filter_def t Let_def split: option.split)
  show l: "canonical_stream_literal r' = canonical_stream_literal r"
    by (simp add: fun_eq_iff canonical_stream_literal_def t a c f split: literal.split)
  show "canonical_stream_rule r' = canonical_stream_rule r" by (simp add: fun_eq_iff canonical_stream_rule_def a l)
qed

lemma canonical_place:
  "ruleset_stream_canonical planner (r\<lparr>rs_compiled_fingerprint := c\<rparr>) = ruleset_stream_canonical planner r"
  "extended_policy planner (r\<lparr>rs_compiled_fingerprint := c\<rparr>) = extended_policy planner r"
proof -
  have "same_tables r (r\<lparr>rs_compiled_fingerprint := c\<rparr>)" by (simp add: same_tables_def)
  note canonical_tables[OF this]
  then show "ruleset_stream_canonical planner (r\<lparr>rs_compiled_fingerprint := c\<rparr>) = ruleset_stream_canonical planner r"
    by (simp add: ruleset_stream_canonical_def)
qed (simp add: extended_policy_def)

text \<open>
  (C16) Finalisation of a validated policy. Its authority is the source hash it was given when that is a hash and no
  extension is involved, and otherwise the SHA-256 of the canonical text; its fingerprint is the SHA-256 of its
  contents with that authority. The only way it fails is that the canonical text cannot be written, and then the
  error of that text is returned and no fingerprint is left behind.
\<close>

theorem finalized_identity:
  assumes "validate_program r file origin diag = (MAELYS_OK, r1, d)"
  shows "(\<exists>hex. authority planner r1 hex \<and>
      ruleset_finalize_sha256 planner r1 = Some (MAELYS_OK, r1\<lparr>rs_sha256 := hex, rs_compiled_fingerprint :=
        digest_hex (fips_sha256 (program_bytes (identify_program (r1\<lparr>rs_sha256 := hex\<rparr>))))\<rparr>)) \<or>
    (\<exists>rc. rc \<noteq> MAELYS_OK \<and> ruleset_stream_canonical planner r1 = Inl (Some rc) \<and>
      ruleset_finalize_sha256 planner r1 = Some (rc, r1\<lparr>rs_compiled_fingerprint := []\<rparr>))"
proof -
  let ?r = "r1\<lparr>rs_compiled_fingerprint := []\<rparr>"
  note ok = accepted_runs[OF assms]
  have places: "q\<lparr>rs_compiled_fingerprint := c, rs_sha256 := h\<rparr> = q\<lparr>rs_sha256 := h, rs_compiled_fingerprint := c\<rparr>" for q :: ruleset and c h
    by simp
  have kept_place: "?r\<lparr>rs_sha256 := rs_sha256 r1\<rparr> = ?r" by simp
  have fp: "compute_program_fingerprint (?r\<lparr>rs_sha256 := hex\<rparr>) = Inr (digest_hex (fips_sha256 (program_bytes (identify_program (r1\<lparr>rs_sha256 := hex\<rparr>)))))" for hex
  proof -
    have "program_stream (?r\<lparr>rs_sha256 := hex\<rparr>) = program_stream (r1\<lparr>rs_sha256 := hex\<rparr>)"
      unfolding places using program_stream_place(1)[where r = "r1\<lparr>rs_sha256 := hex\<rparr>" and c = "[]"] by simp
    then show ?thesis using program_stream_place(2)[where r = r1 and h = hex] ok emits_program[of "r1\<lparr>rs_sha256 := hex\<rparr>"]
      by (auto simp: compute_program_fingerprint_def digest_of_feed runs_def emits_def)
  qed
  consider (kept) "finalize_authority planner ?r = Some (MAELYS_OK, ?r)" "\<not> extended_policy planner r1" "sha256_hex_is_lowercase (c_string (rs_sha256 r1))"
    | (hashed) p where "finalize_authority planner ?r = Some (MAELYS_OK, ?r\<lparr>rs_sha256 := digest_hex (fips_sha256 (concat p))\<rparr>)"
        "extended_policy planner r1 \<or> \<not> sha256_hex_is_lowercase (c_string (rs_sha256 r1))" "ruleset_stream_canonical planner r1 = Inr p"
    | (failed) rc where "finalize_authority planner ?r = Some (rc, ?r)" "rc \<noteq> MAELYS_OK"
    using finalize_authority_cases[of planner ?r] by (auto simp: canonical_place)
  then show ?thesis
  proof cases
    case kept
    then have "authority planner r1 (rs_sha256 r1)" by (simp add: authority_def)
    then show ?thesis using kept(1) fp[of "rs_sha256 r1"] ok unfolding kept_place by (auto simp: ruleset_finalize_sha256_def places)
  next
    case hashed
    then have "authority planner r1 (digest_hex (fips_sha256 (concat p)))" by (auto simp: authority_def)
    then show ?thesis using hashed(1) fp[of "digest_hex (fips_sha256 (concat p))"] ok by (auto simp: ruleset_finalize_sha256_def places)
  next
    case failed
    then have "ruleset_stream_canonical planner r1 = Inl (Some rc)"
      using ok by (auto simp: finalize_authority_def canonical_place digest_of_feed split: if_splits sum.splits option.splits)
    then show ?thesis using failed by (simp add: ruleset_finalize_sha256_def)
  qed
qed

section \<open>What the authority hash does not tell apart\<close>

text \<open>Replacing the kind of every aggregate.\<close>

fun retag_literal :: "(agg_kind \<Rightarrow> agg_kind) \<Rightarrow> literal \<Rightarrow> literal" where
  "retag_literal f (LIT_AGGREGATE k a lhs rhs) = LIT_AGGREGATE (f k) a lhs rhs"
| "retag_literal f l = l"

definition retag :: "(agg_kind \<Rightarrow> agg_kind) \<Rightarrow> ruleset \<Rightarrow> ruleset" where
  "retag f r = r\<lparr>rs_rules := map (\<lambda>rule. rule\<lparr>body := map (retag_literal f) (body rule)\<rparr>) (rs_rules r)\<rparr>"


end
