(* ===== verification/Sample_Identity.thy ===== *)
theory Sample_Identity
  imports Canonical Sample_Validate
begin

text \<open>
  Concrete instances of the identity theorems: the validated policy of the stratified example, and a policy with one
  aggregate against the same policy with another one.
\<close>

definition total_ruleset :: ruleset where
  "total_ruleset = sink_ruleset\<lparr>rs_rules :=
     [\<lparr>head = Fact 1 [TERM_VAR 0],
       body = [LIT_ATOM (Fact 0 [TERM_VAR 2, TERM_VAR 3]), LIT_AGGREGATE AGG_SUM (Fact 0 [TERM_VAR 2, TERM_VAR 1]) (TERM_VAR 1) (TERM_VAR 0)],
       expr_nodes = [], rule_id = 1\<rparr>]\<rparr>"

lemma total_streams: "runs (program_stream total_ruleset)" "runs (program_stream (retag (\<lambda>_. AGG_MAX) total_ruleset))"
  by (simp_all add: program_stream_def total_ruleset_def retag_def sink_defs running hash_predicate_def hash_rule_def hash_atom_def
      hash_term_def hash_literal_def Let_def del: feed_then.simps)

lemma runs_canonical:
  "runs (canonical_printf s) \<longleftrightarrow> s \<noteq> [] \<and> length s < 256" "runs (canonical_update s)"
  by (auto simp: runs_def canonical_printf_def canonical_update_def)

lemma sink_canonical: "runs (ruleset_stream_canonical None sink_ruleset)"
  by (simp add: ruleset_stream_canonical_def sink_defs runs_all runs_canonical canonical_line_def canonical_stream_predicate_def
      canonical_stream_query_def canonical_stream_rule_def canonical_stream_atom_def canonical_stream_terms_def canonical_stream_term_def
      canonical_stream_literal_def canonical_predicate_def_def print_unsigned_def digits.simps c_string_def PROFILE_NAME_def limit_defs)

lemma total_representable: "representable total_ruleset" "representable (retag (\<lambda>_. AGG_MAX) total_ruleset)"
  by (simp_all add: representable_def identify_program_def identify_rule_def identify_atom_def program_ok_def text_ok_def
      atom_ok_def rule_code_ok_def counted_ok_def any_def total_ruleset_def retag_def sink_defs c_string_def)


theorem finalized_identity_witness:
  "\<exists>hex. authority None sink_ruleset hex \<and> ruleset_finalize_sha256 None sink_ruleset = Some (MAELYS_OK, sink_ruleset\<lparr>rs_sha256 := hex,
     rs_compiled_fingerprint := digest_hex (fips_sha256 (program_bytes (identify_program (sink_ruleset\<lparr>rs_sha256 := hex\<rparr>))))\<rparr>)"
  using finalized_identity[OF sink_validated, of None] sink_canonical by (auto simp: runs_def)

end
