(* ===== verification/Input_Edb.thy ===== *)
theory Input_Edb
  imports Predicate_Registry Symbol_Table
begin

unbundle bit_operations_syntax

text \<open>
  The input store a host fills before it solves, \<^verbatim>\<open>src/runtime/maelys_datalog_input_edb.c\<close>: an array of facts whose
  strings are copied once into an arena, and, for larger capacities, a hash index over the arena. An append first
  measures the batch, entering its new strings into the index as pending positions of the batch, and then copies; a
  batch that is refused is taken back out of the index from a journal of the overwritten cells.

  Strings of a batch are the bytes before their terminator, \<open>None\<close> a null pointer; a stored string is an offset into
  the used part of the arena. The message of a diagnostic and the layout of the storage block are not modelled. Cells
  of the index are \<^verbatim>\<open>uint16_t\<close>; the static assertion of the file bounds the values the code puts there.
\<close>

section \<open>Values, facts and the store\<close>

datatype status =
    STATUS_OK | STATUS_INVALID_ARGUMENT | STATUS_INVALID_FIELD | STATUS_NOT_FOUND | STATUS_NOT_IMPLEMENTED
  | STATUS_UNSUPPORTED | STATUS_TIMEOUT | STATUS_IO | STATUS_INTERNAL | STATUS_UNAUTHORIZED | STATUS_FORBIDDEN
  | STATUS_RATE_LIMITED | STATUS_PAYLOAD_TOO_LARGE | STATUS_INVALID_STATE | STATUS_STORAGE_TOO_SMALL

datatype 'a "value" = VALUE_SYMBOL 'a | VALUE_INTEGER int | VALUE_BOOLEAN int | VALUE_OTHER nat

datatype 'a input_fact = Input_fact (fact_predicate: 'a) (fact_terms: "'a value list")

type_synonym host_fact = "string option input_fact"

definition INPUT_EDB_TEXT_BYTES :: nat where
  "INPUT_EDB_TEXT_BYTES = STRING_POOL_BYTES + MAX_PREDICATES * NAME_BYTES"

definition INPUT_STRINGS_PER_FACT :: nat where "INPUT_STRINGS_PER_FACT = MAX_TERMS + 1"
definition INPUT_PENDING_BASE :: nat where "INPUT_PENDING_BASE = INPUT_EDB_TEXT_BYTES + 2"
definition INPUT_INDEX_THRESHOLD :: nat where "INPUT_INDEX_THRESHOLD = 16"

text \<open>The index is present when it has cells; \<open>ie_recent\<close> holds two slots, each plus one.\<close>

record input_edb =
  ie_facts :: "nat input_fact list"
  ie_capacity :: nat
  ie_text :: string
  ie_text_capacity :: nat
  ie_index :: "nat list"
  ie_pending :: "nat list"
  ie_generations :: "nat list"
  ie_generation :: nat
  ie_recent :: "nat list"

definition input_distinct_bound :: "nat \<Rightarrow> nat \<Rightarrow> nat" where
  "input_distinct_bound capacity text_capacity =
     (let positions = capacity * INPUT_STRINGS_PER_FACT; strings = text_capacity div 2 + text_capacity mod 2
      in if positions < strings then positions else strings)"

function slots_from :: "nat \<Rightarrow> nat \<Rightarrow> nat" where
  "slots_from bound slots = (if 0 < slots \<and> slots < 2 * bound then slots_from bound (slots * 2) else slots)"
  by pat_completeness auto
termination by (relation "measure (\<lambda>(bound, slots). 2 * bound - slots)") auto

declare slots_from.simps [simp del]

definition input_index_slots :: "nat \<Rightarrow> nat \<Rightarrow> nat" where
  "input_index_slots capacity text_capacity =
     (if input_distinct_bound capacity text_capacity < INPUT_INDEX_THRESHOLD then 0
      else slots_from (input_distinct_bound capacity text_capacity) 1)"

text \<open>The bounds of \<^verbatim>\<open>input_edb_storage_requirements\<close> and the state \<^verbatim>\<open>input_edb_init\<close> leaves in a large enough block.\<close>

definition input_edb_init :: "nat \<Rightarrow> nat \<Rightarrow> status + input_edb" where
  "input_edb_init capacity text_capacity =
     (if capacity = 0 \<or> capacity > MAX_EDB_FACTS \<or> text_capacity > INPUT_EDB_TEXT_BYTES then Inl STATUS_INVALID_ARGUMENT
      else
        let slots = input_index_slots capacity text_capacity
        in Inr \<lparr>ie_facts = [], ie_capacity = capacity, ie_text = [], ie_text_capacity = text_capacity,
             ie_index = replicate slots 0,
             ie_pending = replicate (if slots = 0 then 0 else input_distinct_bound capacity text_capacity) 0,
             ie_generations = replicate slots 0, ie_generation = (if slots = 0 then 0 else 1), ie_recent = [0, 0]\<rparr>)"

section \<open>Looking texts up\<close>

text \<open>The string at a position of a batch: fact \<^verbatim>\<open>ordinal / 5\<close>, its predicate or one of its terms.\<close>

definition position_text :: "host_fact list \<Rightarrow> nat \<Rightarrow> string" where
  "position_text facts ordinal =
     (let f = facts ! (ordinal div INPUT_STRINGS_PER_FACT); j = ordinal mod INPUT_STRINGS_PER_FACT;
          p = (if j = 0 then fact_predicate f
               else case fact_terms f ! (j - 1) of VALUE_SYMBOL s \<Rightarrow> s | _ \<Rightarrow> None)
      in case p of None \<Rightarrow> [] | Some s \<Rightarrow> s)"

definition text_from :: "input_edb \<Rightarrow> nat \<Rightarrow> string" where
  "text_from edb offset = c_string (drop offset (ie_text edb))"

definition entry_text :: "input_edb \<Rightarrow> host_fact list \<Rightarrow> nat \<Rightarrow> string" where
  "entry_text edb facts slot =
     (if ie_index edb ! slot < INPUT_PENDING_BASE then text_from edb (ie_index edb ! slot - 1)
      else position_text facts (ie_index edb ! slot - INPUT_PENDING_BASE))"

definition slot_occupied :: "input_edb \<Rightarrow> nat \<Rightarrow> bool" where
  "slot_occupied edb slot \<longleftrightarrow> ie_index edb ! slot \<ge> INPUT_PENDING_BASE \<or>
     (ie_generations edb ! slot = ie_generation edb \<and> ie_index edb ! slot \<noteq> 0)"

text \<open>The walk of \<^verbatim>\<open>text_slot\<close> ends at a free slot or at the text; in a full table it would not end.\<close>

partial_function (option) text_walk :: "input_edb \<Rightarrow> host_fact list \<Rightarrow> string \<Rightarrow> nat \<Rightarrow> nat option" where
  "text_walk edb facts text slot =
     (if slot_occupied edb slot \<and> entry_text edb facts slot \<noteq> text
      then text_walk edb facts text ((slot + 1) AND (length (ie_index edb) - 1))
      else Some slot)"

definition text_slot :: "input_edb \<Rightarrow> string \<Rightarrow> host_fact list \<Rightarrow> nat option" where
  "text_slot edb text facts = text_walk edb facts text (unat (fnv1a text) AND (length (ie_index edb) - 1))"

record input_lookup =
  lk_keys :: "string option list"
  lk_slots :: "nat list"
  lk_next :: nat

definition cached_slot :: "input_edb \<Rightarrow> string \<Rightarrow> host_fact list \<Rightarrow> input_lookup \<Rightarrow> (nat \<times> input_lookup) option" where
  "cached_slot edb text facts cache =
     (if lk_keys cache ! 0 = Some text then Some (lk_slots cache ! 0, cache)
      else if lk_keys cache ! 1 = Some text then Some (lk_slots cache ! 1, cache)
      else map_option (\<lambda>slot. (slot,
             cache\<lparr>lk_keys := (lk_keys cache)[lk_next cache := Some text], lk_slots := (lk_slots cache)[lk_next cache := slot],
                   lk_next := lk_next cache XOR 1\<rparr>)) (text_slot edb text facts))"

function find_text :: "input_edb \<Rightarrow> string \<Rightarrow> nat \<Rightarrow> nat option" where
  "find_text edb text offset =
     (if offset < length (ie_text edb)
      then if text_from edb offset = text then Some offset
           else find_text edb text (offset + length (text_from edb offset) + 1)
      else None)"
  by pat_completeness auto
termination by (relation "measure (\<lambda>(edb, text, offset). length (ie_text edb) - offset)") auto

declare find_text.simps [simp del]

definition has_symbol :: "string option value list \<Rightarrow> string \<Rightarrow> bool" where
  "has_symbol ts text \<longleftrightarrow> VALUE_SYMBOL (Some text) \<in> set ts"

text \<open>\<open>term = None\<close> is the predicate of fact \<open>index\<close>, \<open>Some j\<close> its term \<open>j\<close>.\<close>

definition prefix_has_text :: "host_fact list \<Rightarrow> nat \<Rightarrow> nat option \<Rightarrow> string \<Rightarrow> bool" where
  "prefix_has_text facts index term text \<longleftrightarrow>
     list_ex (\<lambda>f. fact_predicate f = Some text \<or> has_symbol (fact_terms f) text) (take index facts) \<or>
     (case term of
        None \<Rightarrow> False
      | Some j \<Rightarrow> fact_predicate (facts ! index) = Some text \<or> has_symbol (take j (fact_terms (facts ! index))) text)"

section \<open>Measuring and taking back\<close>

record measurement =
  ms_edb :: input_edb
  ms_remaining :: nat
  ms_pending_count :: nat
  ms_cache :: input_lookup

definition ordinal_of :: "nat \<Rightarrow> nat option \<Rightarrow> nat" where
  "ordinal_of index term = index * INPUT_STRINGS_PER_FACT + (case term of None \<Rightarrow> 0 | Some j \<Rightarrow> j + 1)"

definition measure_text ::
  "host_fact list \<Rightarrow> nat \<Rightarrow> nat option \<Rightarrow> string option \<Rightarrow> measurement \<Rightarrow> (status \<times> measurement) option" where
  "measure_text facts index term text ms =
     (case text of
        None \<Rightarrow> Some (STATUS_INVALID_ARGUMENT, ms)
      | Some text \<Rightarrow>
          if length text > MAX_STRING_BYTES then Some (STATUS_PAYLOAD_TOO_LARGE, ms)
          else if ie_index (ms_edb ms) \<noteq> [] then
            (case cached_slot (ms_edb ms) text facts (ms_cache ms) of
               None \<Rightarrow> None
             | Some (slot, cache) \<Rightarrow>
                 let ms = ms\<lparr>ms_cache := cache\<rparr>; edb = ms_edb ms in
                 if slot_occupied edb slot then Some (STATUS_OK, ms)
                 else if length text + 1 > ms_remaining ms then Some (STATUS_PAYLOAD_TOO_LARGE, ms)
                 else Some (STATUS_OK, ms\<lparr>ms_remaining := ms_remaining ms - (length text + 1),
                   ms_pending_count := ms_pending_count ms + 1,
                   ms_edb := edb\<lparr>ie_pending := (ie_pending edb)[ms_pending_count ms := ie_index edb ! slot],
                     ie_index := (ie_index edb)[slot := INPUT_PENDING_BASE + ordinal_of index term]\<rparr>\<rparr>))
          else if find_text (ms_edb ms) text 0 \<noteq> None \<or> prefix_has_text facts index term text then Some (STATUS_OK, ms)
          else if length text + 1 > ms_remaining ms then Some (STATUS_PAYLOAD_TOO_LARGE, ms)
          else Some (STATUS_OK, ms\<lparr>ms_remaining := ms_remaining ms - (length text + 1)\<rparr>))"

text \<open>The loops return with the status the first position past what was measured, the end the rollback starts from.\<close>

fun measure_terms ::
  "host_fact list \<Rightarrow> nat \<Rightarrow> nat \<Rightarrow> string option value list \<Rightarrow> measurement \<Rightarrow> (status \<times> nat \<times> measurement) option" where
  "measure_terms facts i j [] ms = Some (STATUS_OK, ordinal_of i (Some j), ms)"
| "measure_terms facts i j (t # ts) ms =
     (case (case t of
              VALUE_SYMBOL s \<Rightarrow> measure_text facts i (Some j) s ms
            | VALUE_INTEGER _ \<Rightarrow> Some (STATUS_OK, ms)
            | VALUE_BOOLEAN _ \<Rightarrow> Some (STATUS_OK, ms)
            | VALUE_OTHER _ \<Rightarrow> Some (STATUS_INVALID_FIELD, ms)) of
        None \<Rightarrow> None
      | Some (rc, ms) \<Rightarrow>
          if rc \<noteq> STATUS_OK then Some (rc, ordinal_of i (Some j), ms) else measure_terms facts i (j + 1) ts ms)"

fun measure_facts :: "host_fact list \<Rightarrow> nat \<Rightarrow> host_fact list \<Rightarrow> measurement \<Rightarrow> (status \<times> nat \<times> measurement) option" where
  "measure_facts facts i [] ms = Some (STATUS_OK, ordinal_of i None, ms)"
| "measure_facts facts i (f # fs) ms =
     (if length (fact_terms f) > MAX_TERMS then Some (STATUS_INVALID_ARGUMENT, ordinal_of i None, ms)
      else case measure_text facts i None (fact_predicate f) ms of
        None \<Rightarrow> None
      | Some (rc, ms) \<Rightarrow>
          if rc \<noteq> STATUS_OK then Some (rc, ordinal_of i None, ms)
          else case measure_terms facts i 0 (fact_terms f) ms of
            None \<Rightarrow> None
          | Some (rc, stop, ms) \<Rightarrow> if rc \<noteq> STATUS_OK then Some (rc, stop, ms) else measure_facts facts (i + 1) fs ms)"

text \<open>Walking back from an ordinal below zero is undefined; it is \<open>None\<close>.\<close>

fun discard_pending :: "input_edb \<Rightarrow> host_fact list \<Rightarrow> nat \<Rightarrow> nat \<Rightarrow> input_edb option" where
  "discard_pending edb facts 0 n = (if n = 0 then Some edb else None)"
| "discard_pending edb facts (Suc ordinal) n =
     (if n = 0 then Some edb
      else
        let f = facts ! (ordinal div INPUT_STRINGS_PER_FACT); j = ordinal mod INPUT_STRINGS_PER_FACT in
        if j > length (fact_terms f) \<or> (j \<noteq> 0 \<and> (case fact_terms f ! (j - 1) of VALUE_SYMBOL _ \<Rightarrow> False | _ \<Rightarrow> True))
        then discard_pending edb facts ordinal n
        else case text_slot edb (position_text facts ordinal) facts of
          None \<Rightarrow> None
        | Some slot \<Rightarrow>
            if ie_index edb ! slot \<noteq> INPUT_PENDING_BASE + ordinal then discard_pending edb facts ordinal n
            else discard_pending
                   (edb\<lparr>ie_index := (ie_index edb)[slot := ie_pending edb ! (n - 1)],
                        ie_pending := (ie_pending edb)[n - 1 := 0]\<rparr>) facts ordinal (n - 1))"

section \<open>Copying\<close>

definition append_text :: "input_edb \<Rightarrow> string \<Rightarrow> input_edb" where
  "append_text edb text = edb\<lparr>ie_text := ie_text edb @ text @ [CHR 0x00]\<rparr>"

definition stored_text ::
  "input_edb \<Rightarrow> string \<Rightarrow> host_fact list \<Rightarrow> input_lookup \<Rightarrow> (nat \<times> input_edb \<times> input_lookup) option" where
  "stored_text edb text facts cache =
     (if ie_index edb = [] then
        (case find_text edb text 0 of
           Some offset \<Rightarrow> Some (offset, edb, cache)
         | None \<Rightarrow> Some (length (ie_text edb), append_text edb text, cache))
      else case cached_slot edb text facts cache of
        None \<Rightarrow> None
      | Some (slot, cache) \<Rightarrow>
          if ie_index edb ! slot < INPUT_PENDING_BASE then Some (ie_index edb ! slot - 1, edb, cache)
          else Some (length (ie_text edb),
                 append_text (edb\<lparr>ie_index := (ie_index edb)[slot := length (ie_text edb) + 1],
                   ie_generations := (ie_generations edb)[slot := ie_generation edb]\<rparr>) text, cache))"

fun store_terms ::
  "host_fact list \<Rightarrow> string option value list \<Rightarrow> input_edb \<Rightarrow> input_lookup \<Rightarrow>
   (nat value list \<times> input_edb \<times> input_lookup) option" where
  "store_terms facts [] edb cache = Some ([], edb, cache)"
| "store_terms facts (t # ts) edb cache =
     (case (case t of
              VALUE_SYMBOL (Some s) \<Rightarrow>
                map_option (\<lambda>(offset, edb, cache). (VALUE_SYMBOL offset, edb, cache)) (stored_text edb s facts cache)
            | VALUE_SYMBOL None \<Rightarrow> None
            | VALUE_INTEGER i \<Rightarrow> Some (VALUE_INTEGER i, edb, cache)
            | VALUE_BOOLEAN b \<Rightarrow> Some (VALUE_BOOLEAN (if b = 0 then 0 else 1), edb, cache)
            | VALUE_OTHER k \<Rightarrow> Some (VALUE_OTHER k, edb, cache)) of
        None \<Rightarrow> None
      | Some (v, edb, cache) \<Rightarrow> map_option (\<lambda>(vs, out). (v # vs, out)) (store_terms facts ts edb cache))"

text \<open>The facts are written behind the used part of the array, which the count takes in at the end.\<close>

fun store_facts ::
  "host_fact list \<Rightarrow> host_fact list \<Rightarrow> input_edb \<Rightarrow> input_lookup \<Rightarrow>
   (nat input_fact list \<times> input_edb \<times> input_lookup) option" where
  "store_facts facts [] edb cache = Some ([], edb, cache)"
| "store_facts facts (f # fs) edb cache =
     (case fact_predicate f of
        None \<Rightarrow> None
      | Some name \<Rightarrow>
          (case stored_text edb name facts cache of
             None \<Rightarrow> None
           | Some (offset, edb, cache) \<Rightarrow>
               (case store_terms facts (fact_terms f) edb cache of
                  None \<Rightarrow> None
                | Some (ts, edb, cache) \<Rightarrow>
                    map_option (\<lambda>(gs, out). (Input_fact offset ts # gs, out)) (store_facts facts fs edb cache))))"

definition recent_cache :: "input_edb \<Rightarrow> input_lookup" where
  "recent_cache edb =
     \<lparr>lk_keys = map (\<lambda>r. if r = 0 then None else Some (entry_text edb [] (r - 1))) (ie_recent edb),
      lk_slots = map (\<lambda>r. if r = 0 then 0 else r - 1) (ie_recent edb), lk_next = 0\<rparr>"

definition cache_recent :: "input_lookup \<Rightarrow> nat list" where
  "cache_recent cache = map2 (\<lambda>k slot. if k = None then 0 else slot + 1) (lk_keys cache) (lk_slots cache)"

definition input_edb_add_facts :: "input_edb \<Rightarrow> host_fact list \<Rightarrow> (status \<times> input_edb) option" where
  "input_edb_add_facts edb facts =
     (if length facts > ie_capacity edb - length (ie_facts edb) then Some (STATUS_PAYLOAD_TOO_LARGE, edb)
      else if facts = [] then Some (STATUS_OK, edb)
      else case measure_facts facts 0 facts
          \<lparr>ms_edb = edb, ms_remaining = ie_text_capacity edb - length (ie_text edb), ms_pending_count = 0, ms_cache = recent_cache edb\<rparr> of
        None \<Rightarrow> None
      | Some (rc, stop, ms) \<Rightarrow>
          if rc \<noteq> STATUS_OK
          then map_option (\<lambda>edb. (rc, edb)) (discard_pending (ms_edb ms) facts stop (ms_pending_count ms))
          else
            map_option (\<lambda>(stored, edb, cache).
                (STATUS_OK, edb\<lparr>ie_facts := ie_facts edb @ stored,
                   ie_pending := replicate (ms_pending_count ms) 0 @ drop (ms_pending_count ms) (ie_pending edb),
                   ie_recent := cache_recent cache\<rparr>))
              (store_facts facts facts (ms_edb ms) (ms_cache ms)))"

definition input_edb_add_fact :: "input_edb \<Rightarrow> string option \<Rightarrow> string option value list \<Rightarrow> (status \<times> input_edb) option" where
  "input_edb_add_fact edb predicate ts =
     (if length ts > MAX_TERMS then Some (STATUS_INVALID_ARGUMENT, edb)
      else input_edb_add_facts edb [Input_fact predicate ts])"

definition input_edb_clear :: "input_edb \<Rightarrow> input_edb" where
  "input_edb_clear edb =
     (let edb = edb\<lparr>ie_facts := [], ie_text := [], ie_recent := [0, 0]\<rparr> in
      if ie_index edb = [] then edb
      else if ie_generation edb = 255
      then edb\<lparr>ie_generations := replicate (length (ie_index edb)) 0, ie_generation := 1\<rparr>
      else edb\<lparr>ie_generation := ie_generation edb + 1\<rparr>)"

definition input_edb_count :: "input_edb \<Rightarrow> nat" where
  "input_edb_count edb = length (ie_facts edb)"

text \<open>The bytes of the arena in use and its size.\<close>

definition input_edb_text_usage :: "input_edb \<Rightarrow> nat \<times> nat" where
  "input_edb_text_usage edb = (length (ie_text edb), ie_text_capacity edb)"

definition input_edb_view :: "input_edb \<Rightarrow> string input_fact list" where
  "input_edb_view edb = map (map_input_fact (text_from edb)) (ie_facts edb)"

end
