(* ===== verification/Input_Log.thy ===== *)
theory Input_Log
  imports Input_Edb
begin

text \<open>
  What the input store promises: it is a bounded log of facts. The state of the log is the list of facts a host reads
  back; a batch is admitted as a whole when its entries fit, its terms are values and the distinct strings of the log
  and the batch fit the arena. The last part relates the arena to the strings of the log.
\<close>

section \<open>The log\<close>

fun value_texts :: "string value list \<Rightarrow> string list" where
  "value_texts [] = []"
| "value_texts (VALUE_SYMBOL s # vs) = s # value_texts vs"
| "value_texts (_ # vs) = value_texts vs"

definition fact_texts :: "string input_fact \<Rightarrow> string list" where
  "fact_texts f = fact_predicate f # value_texts (fact_terms f)"

definition add_text :: "string list \<Rightarrow> string \<Rightarrow> string list" where
  "add_text strs s = (if s \<in> set strs then strs else strs @ [s])"

definition log_texts :: "string input_fact list \<Rightarrow> string list" where
  "log_texts log = foldl add_text [] (concat (map fact_texts log))"

definition text_size :: "string list \<Rightarrow> nat" where
  "text_size strs = sum_list (map (\<lambda>s. length s + 1) strs)"

definition admit_text :: "nat \<Rightarrow> string list \<Rightarrow> string option \<Rightarrow> status + string list" where
  "admit_text room strs text =
     (case text of
        None \<Rightarrow> Inl STATUS_INVALID_ARGUMENT
      | Some s \<Rightarrow>
          if length s > MAX_STRING_BYTES then Inl STATUS_PAYLOAD_TOO_LARGE
          else if s \<notin> set strs \<and> text_size strs + length s + 1 > room then Inl STATUS_PAYLOAD_TOO_LARGE
          else Inr (add_text strs s))"

fun admit_terms :: "nat \<Rightarrow> string list \<Rightarrow> string option value list \<Rightarrow> status + string list" where
  "admit_terms room strs [] = Inr strs"
| "admit_terms room strs (t # ts) =
     (case (case t of VALUE_SYMBOL s \<Rightarrow> admit_text room strs s | VALUE_OTHER _ \<Rightarrow> Inl STATUS_INVALID_FIELD | _ \<Rightarrow> Inr strs) of
        Inl rc \<Rightarrow> Inl rc
      | Inr strs \<Rightarrow> admit_terms room strs ts)"

fun admit_facts :: "nat \<Rightarrow> string list \<Rightarrow> host_fact list \<Rightarrow> status + string list" where
  "admit_facts room strs [] = Inr strs"
| "admit_facts room strs (f # fs) =
     (if length (fact_terms f) > MAX_TERMS then Inl STATUS_INVALID_ARGUMENT
      else case admit_text room strs (fact_predicate f) of
        Inl rc \<Rightarrow> Inl rc
      | Inr strs \<Rightarrow>
          (case admit_terms room strs (fact_terms f) of Inl rc \<Rightarrow> Inl rc | Inr strs \<Rightarrow> admit_facts room strs fs))"

text \<open>What a host reads back of a value: the string, and a truth value as 0 or 1.\<close>

fun host_value :: "string option value \<Rightarrow> string value" where
  "host_value (VALUE_SYMBOL s) = VALUE_SYMBOL (case s of None \<Rightarrow> [] | Some s \<Rightarrow> s)"
| "host_value (VALUE_INTEGER i) = VALUE_INTEGER i"
| "host_value (VALUE_BOOLEAN b) = VALUE_BOOLEAN (if b = 0 then 0 else 1)"
| "host_value (VALUE_OTHER k) = VALUE_OTHER k"

definition host_view :: "host_fact \<Rightarrow> string input_fact" where
  "host_view f = Input_fact (case fact_predicate f of None \<Rightarrow> [] | Some s \<Rightarrow> s) (map host_value (fact_terms f))"

definition log_add :: "nat \<Rightarrow> nat \<Rightarrow> string input_fact list \<Rightarrow> host_fact list \<Rightarrow> status \<times> string input_fact list" where
  "log_add capacity room log batch =
     (if length batch > capacity - length log then (STATUS_PAYLOAD_TOO_LARGE, log)
      else case admit_facts room (log_texts log) batch of
        Inl rc \<Rightarrow> (rc, log)
      | Inr _ \<Rightarrow> (STATUS_OK, log @ map host_view batch))"

section \<open>Strings of the log\<close>

lemma note_simps: "set (add_text strs s) = insert s (set strs)" "distinct (add_text strs s) = distinct strs"
  "length strs \<le> length (add_text strs s)" "length (add_text strs s) \<le> Suc (length strs)"
  by (auto simp: add_text_def)

lemma notes_set: "set (foldl add_text strs ss) = set strs \<union> set ss"
  by (induction ss arbitrary: strs) (auto simp: note_simps)

lemma notes_distinct: "distinct (foldl add_text strs ss) = distinct strs"
  by (induction ss arbitrary: strs) (auto simp: note_simps)

lemma notes_extend: "\<exists>new. foldl add_text strs ss = strs @ new"
proof (induction ss arbitrary: strs)
  case (Cons s ss)
  obtain new where "foldl add_text (add_text strs s) ss = add_text strs s @ new" using Cons by blast
  moreover have "\<exists>new. add_text strs s = strs @ new" by (simp add: add_text_def)
  ultimately show ?case by auto
qed simp

lemma notes_length: "length (foldl add_text strs ss) \<le> length strs + length ss"
proof (induction ss arbitrary: strs)
  case (Cons s ss)
  have "length (foldl add_text (add_text strs s) ss) \<le> length (add_text strs s) + length ss" by (rule Cons)
  also have "\<dots> \<le> length strs + length (s # ss)" using note_simps(4)[of strs s] by simp
  finally show ?case by simp
qed simp

lemma log_texts_append: "log_texts (log @ log') = foldl add_text (log_texts log) (concat (map fact_texts log'))"
  by (simp add: log_texts_def)

lemma text_size_append: "text_size (a @ b) = text_size a + text_size b"
  by (simp add: text_size_def)

lemma text_size_note: "text_size (add_text strs s) = (if s \<in> set strs then text_size strs else text_size strs + length s + 1)"
  by (simp add: add_text_def text_size_def)

lemma value_texts_host: "value_texts (map host_value ts) =
    concat (map (\<lambda>t. case t of VALUE_SYMBOL s \<Rightarrow> [case s of None \<Rightarrow> [] | Some s \<Rightarrow> s] | _ \<Rightarrow> []) ts)"
proof (induction ts)
  case (Cons t ts)
  then show ?case by (cases t) auto
qed simp

text \<open>Admission notes the strings of the batch.\<close>

lemma admit_text_notes: "admit_text room strs s = Inr strs' \<Longrightarrow> \<exists>t. s = Some t \<and> strs' = add_text strs t \<and> length t \<le> MAX_STRING_BYTES"
  by (auto simp: admit_text_def split: option.splits if_splits)

lemma admit_terms_notes: "admit_terms room strs ts = Inr strs' \<Longrightarrow> strs' = foldl add_text strs (value_texts (map host_value ts))"
proof (induction ts arbitrary: strs)
  case (Cons t ts)
  then show ?case by (cases t) (auto split: sum.splits dest!: admit_text_notes)
qed simp

lemma admit_facts_notes:
  "admit_facts room strs fs = Inr strs' \<Longrightarrow> strs' = foldl add_text strs (concat (map fact_texts (map host_view fs)))"
proof (induction fs arbitrary: strs)
  case (Cons f fs)
  then show ?case
    by (auto simp: host_view_def fact_texts_def split: sum.splits if_splits option.splits dest!: admit_text_notes admit_terms_notes)
qed simp

lemma admit_text_size: "admit_text room strs s = Inr strs' \<Longrightarrow> text_size strs \<le> room \<Longrightarrow> text_size strs' \<le> room"
  by (auto simp: admit_text_def text_size_note split: option.splits if_splits)

text \<open>Distinct strings with their terminators: at most one has a single byte, so half as many as bytes fit.\<close>

lemma distinct_text_count: "distinct strs \<Longrightarrow> text_size strs \<le> room \<Longrightarrow> length strs \<le> room div 2 + room mod 2"
proof -
  assume d: "distinct strs" and r: "text_size strs \<le> room"
  have "distinct strs \<Longrightarrow> 2 * length strs \<le> text_size strs + (if [] \<in> set strs then 1 else 0)" for strs
  proof (induction strs)
    case (Cons s strs)
    then show ?case by (cases s) (auto simp: text_size_def split: if_splits)
  qed (simp add: text_size_def)
  from this[OF d] r have "2 * length strs \<le> room + 1" by (auto split: if_splits)
  then show ?thesis by presburger
qed

section \<open>The arena\<close>

definition arena :: "string list \<Rightarrow> string" where
  "arena strs = concat (map (\<lambda>s. s @ [CHR 0x00]) strs)"

definition c_texts :: "string list \<Rightarrow> bool" where
  "c_texts strs \<longleftrightarrow> (\<forall>s\<in>set strs. CHR 0x00 \<notin> set s)"

definition stored_at :: "string list \<Rightarrow> nat \<Rightarrow> string \<Rightarrow> bool" where
  "stored_at strs offset s \<longleftrightarrow> (\<exists>a b. strs = a @ s # b \<and> offset = text_size a)"

lemma arena_length: "length (arena strs) = text_size strs"
  by (induction strs) (auto simp: arena_def text_size_def)

lemma arena_append: "arena (a @ b) = arena a @ arena b"
  by (simp add: arena_def)

lemma c_string_terminated: "CHR 0x00 \<notin> set s \<Longrightarrow> c_string (s @ CHR 0x00 # rest) = s"
  by (induction s) (auto simp: c_string_def)

lemma stored_text_from:
  assumes "stored_at strs offset s" "c_texts strs" "ie_text edb = arena strs"
  shows "text_from edb offset = s" "offset < length (ie_text edb)"
proof -
  obtain a b where ab: "strs = a @ s # b" "offset = text_size a" using assms(1) by (auto simp: stored_at_def)
  have "drop (text_size a) (arena a @ rest) = rest" for rest by (simp add: arena_length[symmetric])
  then have "drop offset (ie_text edb) = s @ CHR 0x00 # arena b"
    using assms(3) ab by (simp add: arena_append) (simp add: arena_def)
  then show "text_from edb offset = s" using c_string_terminated assms(2) by (simp add: text_from_def c_texts_def ab)
  show "offset < length (ie_text edb)" using assms(3) ab by (simp add: arena_length text_size_append) (simp add: text_size_def)
qed

lemma stored_at_append: "stored_at strs offset s \<Longrightarrow> stored_at (strs @ tail) offset s"
  unfolding stored_at_def by (metis append.assoc append_Cons)

lemma stored_at_last: "stored_at (strs @ [s]) (text_size strs) s"
  unfolding stored_at_def by blast

lemma stored_at_exists: "s \<in> set strs \<longleftrightarrow> (\<exists>offset. stored_at strs offset s)"
  unfolding stored_at_def by (auto dest: split_list)

lemma stored_at_note: "stored_at strs offset t \<Longrightarrow> stored_at (add_text strs s) offset t"
  by (simp add: add_text_def stored_at_append)

lemma find_text_arena:
  assumes "ie_text edb = arena (a @ b)" "c_texts (a @ b)"
  shows "(case find_text edb s (text_size a) of None \<Rightarrow> s \<notin> set b | Some offset \<Rightarrow> s \<in> set b \<and> stored_at (a @ b) offset s)"
  using assms
proof (induction b arbitrary: a)
  case Nil
  then show ?case by (subst find_text.simps) (simp add: arena_length)
next
  case (Cons t b)
  have at: "stored_at (a @ t # b) (text_size a) t" unfolding stored_at_def by blast
  note here = stored_text_from[OF at Cons.prems(2,1)]
  have next_off: "text_size a + length t + 1 = text_size (a @ [t])" by (simp add: text_size_append text_size_def)
  show ?case
  proof (cases "t = s")
    case True
    then show ?thesis using here at by (subst find_text.simps) simp
  next
    case False
    then have "find_text edb s (text_size a) = find_text edb s (text_size (a @ [t]))"
      using here next_off by (subst find_text.simps) simp
    then show ?thesis using Cons.IH[of "a @ [t]"] Cons.prems False by (auto split: option.splits)
  qed
qed

end
