(* ===== verification/Input_Index.thy ===== *)
theory Input_Index
  imports Input_Log
begin

unbundle bit_operations_syntax

text \<open>
  The hash index of the input store as a table of texts. A table is read through the walk from the home slot of a text;
  it is well placed when that walk reaches every text it holds. Pending entries and committed ones are the same to it,
  so measuring a batch adds texts to the table, copying leaves the table as it is, and taking a batch back removes
  texts in the reverse order.
\<close>

section \<open>Tables of texts\<close>

type_synonym text_table = "nat \<Rightarrow> string option"

definition cell_of :: "nat \<Rightarrow> string \<Rightarrow> nat \<Rightarrow> nat" where
  "cell_of N s d = (unat (fnv1a s) + d) mod N"

definition walkable :: "nat \<Rightarrow> text_table \<Rightarrow> string \<Rightarrow> nat \<Rightarrow> bool" where
  "walkable N tab s d \<longleftrightarrow> (\<forall>d'<d. \<exists>t. tab (cell_of N s d') = Some t \<and> t \<noteq> s)"

definition stops :: "nat \<Rightarrow> text_table \<Rightarrow> string \<Rightarrow> nat \<Rightarrow> bool" where
  "stops N tab s d \<longleftrightarrow> walkable N tab s d \<and> tab (cell_of N s d) \<in> {None, Some s}"

definition placed :: "nat \<Rightarrow> text_table \<Rightarrow> bool" where
  "placed N tab \<longleftrightarrow> (\<forall>b<N. \<forall>s. tab b = Some s \<longrightarrow> (\<exists>d. cell_of N s d = b \<and> walkable N tab s d))"

definition holds :: "nat \<Rightarrow> text_table \<Rightarrow> string set" where
  "holds N tab = {s. \<exists>b<N. tab b = Some s}"

lemma cell_of_less: "0 < N \<Longrightarrow> cell_of N s d < N"
  by (simp add: cell_of_def)

lemma cell_reaches: "b < N \<Longrightarrow> \<exists>d<N. cell_of N s d = b"
proof -
  assume b: "b < N"
  let ?h = "unat (fnv1a s) mod N" and ?d = "(b + N - unat (fnv1a s) mod N) mod N"
  have "(?h + ?d) mod N = (?h + (b + N - ?h)) mod N" by (rule mod_add_right_eq)
  also have "?h + (b + N - ?h) = b + N" using mod_less_divisor[of N "unat (fnv1a s)"] b by linarith
  also have "(b + N) mod N = b" using b by simp
  finally have "cell_of N s ?d = b" by (simp add: cell_of_def mod_add_left_eq)
  then show ?thesis using b mod_less_divisor[of N "b + N - ?h"] by (intro exI[of _ ?d]) simp
qed

lemma search_stops:
  assumes "b < N" "tab b = None"
  shows "\<exists>d. stops N tab s d"
proof -
  obtain d where d: "cell_of N s d = b" using cell_reaches[OF assms(1)] by blast
  let ?P = "\<lambda>d. tab (cell_of N s d) \<in> {None, Some s}"
  have "?P (LEAST d. ?P d)" using d assms(2) by (intro LeastI[of ?P d]) simp
  moreover have "walkable N tab s (LEAST d. ?P d)"
  proof -
    have "\<not> ?P d'" if "d' < (LEAST d. ?P d)" for d' using not_less_Least[OF that] .
    then show ?thesis unfolding walkable_def by (metis insertCI not_Some_eq)
  qed
  ultimately show ?thesis unfolding stops_def by blast
qed

lemma stops_unique: "stops N tab s d \<Longrightarrow> stops N tab s d' \<Longrightarrow> d = d'"
  unfolding stops_def walkable_def by (metis insertE linorder_neqE_nat option.distinct(1) option.inject singletonD)

lemma placed_stops:
  assumes "placed N tab" "b < N" "tab b = Some s" "stops N tab s d"
  shows "cell_of N s d = b"
proof -
  obtain d0 where "cell_of N s d0 = b" "walkable N tab s d0" using assms(1-3) unfolding placed_def by blast
  then have "stops N tab s d0" "cell_of N s d0 = b" using assms(3) by (simp_all add: stops_def)
  then show ?thesis using stops_unique[OF assms(4)] by blast
qed

lemma placed_insert:
  assumes "placed N tab" "stops N tab s d" "tab (cell_of N s d) = None"
  shows "placed N (tab(cell_of N s d := Some s))"
  unfolding placed_def
proof (intro allI impI)
  let ?b = "cell_of N s d"
  fix b t assume b: "b < N" "(tab(?b := Some s)) b = Some t"
  have keep: "walkable N tab t e \<Longrightarrow> walkable N (tab(?b := Some s)) t e" for t e
    using assms(3) by (fastforce simp: walkable_def)
  show "\<exists>e. cell_of N t e = b \<and> walkable N (tab(?b := Some s)) t e"
  proof (cases "b = ?b")
    case True
    then show ?thesis using b(2) keep assms(2) by (auto simp: stops_def)
  next
    case False
    then show ?thesis using b keep assms(1) unfolding placed_def by (metis fun_upd_other)
  qed
qed

lemma holds_insert: "c < N \<Longrightarrow> tab c = None \<Longrightarrow> holds N (tab(c := Some s)) = insert s (holds N tab)"
  unfolding holds_def by (auto split: if_splits) (metis option.distinct(1))

text \<open>A well placed table holds a text in one slot, so it has a free one while it holds fewer texts than slots.\<close>

lemma placed_once:
  assumes "placed N tab" "b < N" "b' < N" "tab b = Some s" "tab b' = Some s"
  shows "b = b'"
proof -
  obtain d where "cell_of N s d = b" "walkable N tab s d" using assms unfolding placed_def by blast
  then have "stops N tab s d" using assms(4) by (simp add: stops_def)
  then show ?thesis using placed_stops[OF assms(1,2,4)] placed_stops[OF assms(1,3,5)] by metis
qed

lemma free_slot:
  assumes "placed N tab" "holds N tab = set strs" "length strs < N"
  shows "\<exists>b<N. tab b = None"
proof (rule ccontr)
  assume "\<not> ?thesis"
  then have full: "\<And>b. b < N \<Longrightarrow> \<exists>s. tab b = Some s" by (metis not_None_eq)
  have "inj_on (\<lambda>b. the (tab b)) {..<N}"
    using placed_once[OF assms(1)] full by (intro inj_onI) (metis lessThan_iff option.sel)
  then have "card ((\<lambda>b. the (tab b)) ` {..<N}) = N" by (simp add: card_image)
  moreover have "(\<lambda>b. the (tab b)) ` {..<N} \<subseteq> set strs" using full assms(2) unfolding holds_def by force
  ultimately have "N \<le> card (set strs)" by (metis List.finite_set card_mono)
  then show False using card_length[of strs] assms(3) by linarith
qed

lemma table_cong:
  assumes "0 < N" "\<And>b. b < N \<Longrightarrow> tab b = tab' b"
  shows "placed N tab = placed N tab'" "holds N tab = holds N tab'"
proof -
  have "walkable N tab s d = walkable N tab' s d" for s d
    using assms cell_of_less[of N s] by (simp add: walkable_def)
  then show "placed N tab = placed N tab'" using assms(2) by (auto simp: placed_def)
  show "holds N tab = holds N tab'" using assms(2) by (auto simp: holds_def)
qed

section \<open>The index as a table\<close>

definition table_of :: "input_edb \<Rightarrow> host_fact list \<Rightarrow> text_table" where
  "table_of edb facts = (\<lambda>slot. if slot_occupied edb slot then Some (entry_text edb facts slot) else None)"

abbreviation slots :: "input_edb \<Rightarrow> nat" where
  "slots edb \<equiv> length (ie_index edb)"

lemma mask_mod: "(x :: nat) AND (2 ^ k - 1) = x mod 2 ^ k"
  by (simp add: take_bit_eq_mod[symmetric] take_bit_eq_mask mask_eq_exp_minus_1)

lemma text_slot_stops:
  assumes "slots edb = 2 ^ k" "stops (slots edb) (table_of edb facts) s d"
  shows "text_slot edb s facts = Some (cell_of (slots edb) s d)"
proof -
  let ?N = "slots edb"
  have walk: "(cell_of ?N s e + 1) AND (?N - 1) = cell_of ?N s (Suc e)" for e
    using mask_mod[of _ k] assms(1) by (simp add: cell_of_def mod_Suc_eq)
  have "e \<le> d \<Longrightarrow> text_walk edb facts s (cell_of ?N s e) = Some (cell_of ?N s d)" for e
  proof (induction e rule: inc_induct)
    case base
    have "table_of edb facts (cell_of ?N s d) \<in> {None, Some s}" using assms(2) by (simp add: stops_def)
    then show ?case by (subst text_walk.simps) (auto simp: table_of_def split: if_splits)
  next
    case (step e)
    then obtain t where "table_of edb facts (cell_of ?N s e) = Some t" "t \<noteq> s" using assms(2) by (auto simp: stops_def walkable_def)
    then show ?case using step(3) walk by (subst text_walk.simps) (auto simp: table_of_def split: if_splits)
  qed
  from this[of 0] show ?thesis using mask_mod[of _ k] assms(1) by (simp add: text_slot_def cell_of_def)
qed

definition index_ok :: "input_edb \<Rightarrow> host_fact list \<Rightarrow> string list \<Rightarrow> bool" where
  "index_ok edb facts strs \<longleftrightarrow> (\<exists>k. slots edb = 2 ^ k) \<and> length (ie_generations edb) = slots edb \<and>
     placed (slots edb) (table_of edb facts) \<and> holds (slots edb) (table_of edb facts) = set strs \<and> length strs < slots edb"

definition cache_ok :: "nat \<Rightarrow> text_table \<Rightarrow> input_lookup \<Rightarrow> bool" where
  "cache_ok N tab cache \<longleftrightarrow> length (lk_keys cache) = 2 \<and> length (lk_slots cache) = 2 \<and> lk_next cache < 2 \<and>
     (\<forall>i<2. \<forall>s. lk_keys cache ! i = Some s \<longrightarrow> lk_slots cache ! i < N \<and> tab (lk_slots cache ! i) = Some s)"

lemma index_search:
  assumes "index_ok edb facts strs"
  shows "\<exists>d. stops (slots edb) (table_of edb facts) s d \<and> text_slot edb s facts = Some (cell_of (slots edb) s d) \<and>
    cell_of (slots edb) s d < slots edb"
proof -
  obtain k where k: "slots edb = 2 ^ k" using assms by (auto simp: index_ok_def)
  obtain b where b: "b < slots edb" "table_of edb facts b = None" using free_slot assms unfolding index_ok_def by blast
  then obtain d where "stops (slots edb) (table_of edb facts) s d" using search_stops by blast
  moreover have "cell_of (slots edb) s d < slots edb" using b(1) by (intro cell_of_less) linarith
  ultimately show ?thesis using text_slot_stops[OF k] by blast
qed

lemma index_finds:
  assumes "index_ok edb facts strs" "b < slots edb" "table_of edb facts b = Some s"
  shows "text_slot edb s facts = Some b"
proof -
  obtain d where d: "stops (slots edb) (table_of edb facts) s d" "text_slot edb s facts = Some (cell_of (slots edb) s d)"
    using index_search[OF assms(1)] by blast
  then show ?thesis using placed_stops[of "slots edb" "table_of edb facts" b s d] assms by (simp add: index_ok_def)
qed

text \<open>The slot for a text, through the cache or by the walk: it is free or holds the text, and the cache stays true of the
  table with the text in that slot.\<close>

lemma cached_slot_finds:
  assumes "index_ok edb facts strs" "cache_ok (slots edb) (table_of edb facts) cache"
  shows "\<exists>slot cache' d. cached_slot edb s facts cache = Some (slot, cache') \<and> slot < slots edb \<and>
    slot = cell_of (slots edb) s d \<and> stops (slots edb) (table_of edb facts) s d \<and>
    (table_of edb facts slot = None \<longleftrightarrow> s \<notin> set strs) \<and>
    cache_ok (slots edb) ((table_of edb facts)(slot := Some s)) cache'"
proof -
  let ?N = "slots edb" and ?tab = "table_of edb facts"
  obtain d where d: "stops ?N ?tab s d" "text_slot edb s facts = Some (cell_of ?N s d)" "cell_of ?N s d < ?N"
    using index_search[OF assms(1)] by blast
  let ?slot = "cell_of ?N s d"
  have cands: "?tab ?slot \<in> {None, Some s}" using d(1) by (simp add: stops_def)
  have held: "?tab ?slot = None \<longleftrightarrow> s \<notin> set strs"
  proof -
    have "s \<in> set strs \<longleftrightarrow> (\<exists>b<?N. ?tab b = Some s)" using assms(1) by (auto simp: index_ok_def holds_def)
    moreover have "?tab b = Some s \<Longrightarrow> b < ?N \<Longrightarrow> b = ?slot" for b using index_finds[OF assms(1), of b s] d(2) by simp
    ultimately show ?thesis using d(3) cands by (metis insertE option.distinct(1) singletonD)
  qed
  have upd: "cache_ok ?N (?tab(?slot := Some s)) cache"
    using assms(2) cands unfolding cache_ok_def by (auto 0 3)
  have hit: "cached_slot edb s facts cache = Some (?slot, cache)"
    if "i < 2" "lk_keys cache ! i = Some s" "lk_keys cache ! 0 = Some s \<longrightarrow> i = 0" for i
  proof -
    have "lk_slots cache ! i < ?N" "?tab (lk_slots cache ! i) = Some s" using assms(2) that by (auto simp: cache_ok_def)
    then have "lk_slots cache ! i = ?slot" using index_finds[OF assms(1)] d(2) by fastforce
    then show ?thesis using that by (auto simp: cached_slot_def less_2_cases_iff)
  qed
  show ?thesis
  proof (cases "lk_keys cache ! 0 = Some s \<or> lk_keys cache ! 1 = Some s")
    case True
    then have "cached_slot edb s facts cache = Some (?slot, cache)" using hit[of 0] hit[of 1] by fastforce
    then show ?thesis using d held upd by (intro exI[of _ ?slot] exI[of _ cache] exI[of _ d]) simp
  next
    case False
    let ?cache = "cache\<lparr>lk_keys := (lk_keys cache)[lk_next cache := Some s], lk_slots := (lk_slots cache)[lk_next cache := ?slot],
      lk_next := lk_next cache XOR 1\<rparr>"
    have "cached_slot edb s facts cache = Some (?slot, ?cache)" using False d(2) by (simp add: cached_slot_def)
    moreover have "cache_ok ?N (?tab(?slot := Some s)) ?cache"
    proof -
      have "lk_next cache XOR 1 < 2" using assms(2) by (auto simp: cache_ok_def less_2_cases_iff)
      then show ?thesis using upd d(3) by (auto simp: cache_ok_def nth_list_update)
    qed
    ultimately show ?thesis using d held by (intro exI[of _ ?slot] exI[of _ ?cache] exI[of _ d]) simp
  qed
qed

end
