(* ===== verification/Input_Steps.thy ===== *)
theory Input_Steps
  imports Input_Log
begin

text \<open>
  An append of the input store in terms of its two steps. \<open>measuring\<close> is what measuring one string has to do, and
  \<open>copying\<close> what copying one string has to do, whether there is an index or not; from these laws follow the loops over
  terms and facts: measuring decides the admission of the log, a refused batch is taken back exactly, and copying stores
  the batch.
\<close>

section \<open>Measuring\<close>

definition text_position :: "host_fact list \<Rightarrow> nat \<Rightarrow> nat option \<Rightarrow> string option \<Rightarrow> bool" where
  "text_position facts i j s \<longleftrightarrow> i < length facts \<and>
     (case j of
        None \<Rightarrow> s = fact_predicate (facts ! i)
      | Some j \<Rightarrow> length (fact_terms (facts ! i)) \<le> MAX_TERMS \<and> j < length (fact_terms (facts ! i)) \<and>
          fact_terms (facts ! i) ! j = VALUE_SYMBOL s)"

fun following :: "nat option \<Rightarrow> nat" where
  "following None = 0"
| "following (Some j) = Suc j"

definition is_symbol :: "'a value \<Rightarrow> bool" where
  "is_symbol v \<longleftrightarrow> (case v of VALUE_SYMBOL _ \<Rightarrow> True | _ \<Rightarrow> False)"

lemma admit_text_error: "admit_text room strs s = Inl rc \<Longrightarrow> rc \<noteq> STATUS_OK"
  by (auto simp: admit_text_def split: option.splits if_splits)

lemma admit_terms_error: "admit_terms room strs ts = Inl rc \<Longrightarrow> rc \<noteq> STATUS_OK"
proof (induction ts arbitrary: strs)
  case (Cons t ts)
  then show ?case by (cases t) (auto split: sum.splits dest: admit_text_error)
qed simp

lemma admit_facts_error: "admit_facts room strs fs = Inl rc \<Longrightarrow> rc \<noteq> STATUS_OK"
  by (induction fs arbitrary: strs) (auto split: if_splits sum.splits dest: admit_text_error admit_terms_error)

locale measuring =
  fixes R :: "input_edb \<Rightarrow> host_fact list \<Rightarrow> nat \<Rightarrow> nat option \<Rightarrow> measurement \<Rightarrow> string list \<Rightarrow> bool"
  assumes refuses: "R e facts i j ms strs \<Longrightarrow> text_position facts i j s \<Longrightarrow> admit_text (ie_text_capacity e) strs s = Inl rc \<Longrightarrow>
      \<exists>ms'. measure_text facts i j s ms = Some (rc, ms') \<and> ms_edb ms' = ms_edb ms \<and> ms_pending_count ms' = ms_pending_count ms"
    and admits: "R e facts i j ms strs \<Longrightarrow> text_position facts i j s \<Longrightarrow> admit_text (ie_text_capacity e) strs s = Inr strs' \<Longrightarrow>
      \<exists>ms'. measure_text facts i j s ms = Some (STATUS_OK, ms') \<and> R e facts i (Some (following j)) ms' strs'"
    and skips: "R e facts i (Some k) ms strs \<Longrightarrow> i < length facts \<Longrightarrow> k < length (fact_terms (facts ! i)) \<Longrightarrow>
      length (fact_terms (facts ! i)) \<le> MAX_TERMS \<Longrightarrow> \<not> is_symbol (fact_terms (facts ! i) ! k) \<Longrightarrow> R e facts i (Some (Suc k)) ms strs"
    and advances: "R e facts i (Some (length (fact_terms (facts ! i)))) ms strs \<Longrightarrow> i < length facts \<Longrightarrow>
      length (fact_terms (facts ! i)) \<le> MAX_TERMS \<Longrightarrow> R e facts (Suc i) None ms strs"
    and rolls_back: "R e facts i j ms strs \<Longrightarrow> discard_pending (ms_edb ms) facts (ordinal_of i j) (ms_pending_count ms) = Some e"
begin

definition terms_outcome :: "input_edb \<Rightarrow> host_fact list \<Rightarrow> nat \<Rightarrow> nat \<Rightarrow> status + string list \<Rightarrow> (status \<times> nat \<times> measurement) option \<Rightarrow> bool" where
  "terms_outcome e facts i n admission result \<longleftrightarrow>
     (case admission of
        Inl rc \<Rightarrow> (\<exists>stop ms. result = Some (rc, stop, ms) \<and> discard_pending (ms_edb ms) facts stop (ms_pending_count ms) = Some e)
      | Inr strs \<Rightarrow> (\<exists>stop ms. result = Some (STATUS_OK, stop, ms) \<and> R e facts i (Some n) ms strs))"

lemma measured_terms:
  assumes "R e facts i (Some j) ms strs" "i < length facts" "length (fact_terms (facts ! i)) \<le> MAX_TERMS"
    and "fact_terms (facts ! i) = pre @ ts" "length pre = j"
  shows "terms_outcome e facts i (length (fact_terms (facts ! i))) (admit_terms (ie_text_capacity e) strs ts) (measure_terms facts i j ts ms)"
  using assms
proof (induction ts arbitrary: j pre ms strs)
  case Nil
  then show ?case by (simp add: terms_outcome_def)
next
  case (Cons t ts)
  have here: "fact_terms (facts ! i) ! j = t" "j < length (fact_terms (facts ! i))" using Cons.prems by (simp_all add: nth_append)
  have rest: "R e facts i (Some (Suc j)) ms' strs' \<Longrightarrow>
      terms_outcome e facts i (length (fact_terms (facts ! i))) (admit_terms (ie_text_capacity e) strs' ts) (measure_terms facts i (Suc j) ts ms')" for ms' strs'
    using Cons.IH[of "Suc j" ms' strs' "pre @ [t]"] Cons.prems by simp
  note undo = rolls_back[OF Cons.prems(1)]
  show ?case
  proof (cases t)
    case (VALUE_SYMBOL s)
    then have pos: "text_position facts i (Some j) s" using here Cons.prems by (simp add: text_position_def)
    show ?thesis
    proof (cases "admit_text (ie_text_capacity e) strs s")
      case (Inl rc)
      then show ?thesis
        using refuses[OF Cons.prems(1) pos Inl] undo admit_text_error[OF Inl] VALUE_SYMBOL by (auto simp: terms_outcome_def)
    next
      case (Inr strs')
      then show ?thesis using admits[OF Cons.prems(1) pos Inr] rest VALUE_SYMBOL by auto
    qed
  next
    case (VALUE_OTHER k)
    then show ?thesis using undo by (auto simp: terms_outcome_def)
  qed (use rest skips[OF Cons.prems(1,2) here(2) Cons.prems(3)] here(1) in \<open>auto simp: is_symbol_def\<close>)
qed

lemma measured_facts:
  assumes "R e facts i None ms strs" "facts = pre @ fs" "length pre = i"
  shows "(case admit_facts (ie_text_capacity e) strs fs of
      Inl rc \<Rightarrow> rc \<noteq> STATUS_OK \<and> (\<exists>stop ms'. measure_facts facts i fs ms = Some (rc, stop, ms') \<and>
        discard_pending (ms_edb ms') facts stop (ms_pending_count ms') = Some e)
    | Inr strs' \<Rightarrow> \<exists>stop ms'. measure_facts facts i fs ms = Some (STATUS_OK, stop, ms') \<and> R e facts (length facts) None ms' strs')"
  using assms
proof (induction fs arbitrary: i pre ms strs)
  case Nil
  then show ?case by simp
next
  case (Cons f fs)
  have here: "facts ! i = f" "i < length facts" using Cons.prems by (simp_all add: nth_append)
  note undo = rolls_back[OF Cons.prems(1)]
  show ?case
  proof (cases "length (fact_terms f) > MAX_TERMS")
    case True
    then show ?thesis using undo by simp
  next
    case False
    have pos: "text_position facts i None (fact_predicate f)" using here by (simp add: text_position_def)
    show ?thesis
    proof (cases "admit_text (ie_text_capacity e) strs (fact_predicate f)")
      case (Inl rc)
      then show ?thesis using refuses[OF Cons.prems(1) pos Inl] undo admit_text_error[OF Inl] False by auto
    next
      case (Inr strs1)
      obtain ms1 where ms1: "measure_text facts i None (fact_predicate f) ms = Some (STATUS_OK, ms1)" "R e facts i (Some 0) ms1 strs1"
        using admits[OF Cons.prems(1) pos Inr] by auto
      have terms: "terms_outcome e facts i (length (fact_terms f)) (admit_terms (ie_text_capacity e) strs1 (fact_terms f))
          (measure_terms facts i 0 (fact_terms f) ms1)"
        using measured_terms[OF ms1(2), of "[]" "fact_terms f"] here False by simp
      show ?thesis
      proof (cases "admit_terms (ie_text_capacity e) strs1 (fact_terms f)")
        case (Inl rc)
        then show ?thesis using terms ms1 Inr admit_terms_error[OF Inl] False by (auto simp: terms_outcome_def)
      next
        case (Inr strs2)
        then obtain stop ms2 where ms2: "measure_terms facts i 0 (fact_terms f) ms1 = Some (STATUS_OK, stop, ms2)"
          "R e facts i (Some (length (fact_terms f))) ms2 strs2" using terms by (auto simp: terms_outcome_def)
        have "R e facts (Suc i) None ms2 strs2" using advances ms2(2) here False by force
        from Cons.IH[OF this, of "pre @ [f]"] show ?thesis
          using Cons.prems ms1 ms2 Inr False \<open>admit_text _ _ _ = Inr strs1\<close> by (simp split: sum.splits)
      qed
    qed
  qed
qed

end

section \<open>Copying\<close>

text \<open>\<open>strs\<close> are the strings admitted, \<open>stored\<close> those already in the arena.\<close>

locale copying =
  fixes K :: "input_edb \<Rightarrow> host_fact list \<Rightarrow> string list \<Rightarrow> string list \<Rightarrow> input_edb \<Rightarrow> input_lookup \<Rightarrow> bool"
  assumes stores: "K e facts strs stored edb cache \<Longrightarrow> s \<in> set strs \<Longrightarrow>
      \<exists>offset edb' cache'. stored_text edb s facts cache = Some (offset, edb', cache') \<and>
        K e facts strs (add_text stored s) edb' cache' \<and> stored_at (add_text stored s) offset s"
begin

lemma copied_terms:
  assumes "K e facts strs stored edb cache" "set (value_texts (map host_value ts)) \<subseteq> set strs" "VALUE_SYMBOL None \<notin> set ts"
  shows "\<exists>vs edb' cache'. store_terms facts ts edb cache = Some (vs, edb', cache') \<and>
    K e facts strs (foldl add_text stored (value_texts (map host_value ts))) edb' cache' \<and>
    list_all2 (rel_value (stored_at (foldl add_text stored (value_texts (map host_value ts))))) vs (map host_value ts)"
  using assms
proof (induction ts arbitrary: stored edb cache)
  case (Cons t ts)
  show ?case
  proof (cases t)
    case (VALUE_SYMBOL so)
    then obtain s where s: "t = VALUE_SYMBOL (Some s)" using Cons.prems(3) by (cases so) auto
    obtain offset edb1 cache1 where one: "stored_text edb s facts cache = Some (offset, edb1, cache1)"
      "K e facts strs (add_text stored s) edb1 cache1" "stored_at (add_text stored s) offset s"
      using stores[OF Cons.prems(1), of s] Cons.prems(2) s by auto
    let ?final = "foldl add_text (add_text stored s) (value_texts (map host_value ts))"
    obtain vs edb' cache' where rest: "store_terms facts ts edb1 cache1 = Some (vs, edb', cache')" "K e facts strs ?final edb' cache'"
      "list_all2 (rel_value (stored_at ?final)) vs (map host_value ts)"
      using Cons.IH[OF one(2)] Cons.prems s by auto
    obtain new where "?final = add_text stored s @ new" using notes_extend by blast
    then have "stored_at ?final offset s" using one(3) stored_at_append by simp
    then show ?thesis using one rest s by auto
  qed (use Cons.IH[OF Cons.prems(1)] Cons.prems(2,3) in auto)
qed simp

lemma rel_grows:
  "list_all2 (rel_value (stored_at strs)) vs ws \<Longrightarrow> list_all2 (rel_value (stored_at (foldl add_text strs ss))) vs ws"
proof -
  obtain new where "foldl add_text strs ss = strs @ new" using notes_extend by blast
  then have "stored_at strs \<le> stored_at (foldl add_text strs ss)" using stored_at_append by (auto simp: le_fun_def)
  then show "list_all2 (rel_value (stored_at strs)) vs ws \<Longrightarrow> list_all2 (rel_value (stored_at (foldl add_text strs ss))) vs ws"
    by (metis list.rel_mono predicate2D "value.rel_mono")
qed

lemma copied_facts:
  assumes "K e facts strs stored edb cache" "set (concat (map fact_texts (map host_view fs))) \<subseteq> set strs"
    "\<forall>f\<in>set fs. fact_predicate f \<noteq> None \<and> VALUE_SYMBOL None \<notin> set (fact_terms f)"
  shows "\<exists>gs edb' cache'. store_facts facts fs edb cache = Some (gs, edb', cache') \<and>
    K e facts strs (foldl add_text stored (concat (map fact_texts (map host_view fs)))) edb' cache' \<and>
    list_all2 (rel_input_fact (stored_at (foldl add_text stored (concat (map fact_texts (map host_view fs)))))) gs (map host_view fs)"
  using assms
proof (induction fs arbitrary: stored edb cache)
  case (Cons f fs)
  obtain p where p: "fact_predicate f = Some p" using Cons.prems(3) by auto
  have texts: "fact_texts (host_view f) = p # value_texts (map host_value (fact_terms f))" by (simp add: fact_texts_def host_view_def p)
  obtain offset edb1 cache1 where one: "stored_text edb p facts cache = Some (offset, edb1, cache1)"
    "K e facts strs (add_text stored p) edb1 cache1" "stored_at (add_text stored p) offset p"
    using stores[OF Cons.prems(1), of p] Cons.prems(2) texts by auto
  let ?mid = "foldl add_text (add_text stored p) (value_texts (map host_value (fact_terms f)))"
  obtain vs edb2 cache2 where two: "store_terms facts (fact_terms f) edb1 cache1 = Some (vs, edb2, cache2)" "K e facts strs ?mid edb2 cache2"
    "list_all2 (rel_value (stored_at ?mid)) vs (map host_value (fact_terms f))"
    using copied_terms[OF one(2), of "fact_terms f"] Cons.prems(2,3) texts by auto
  let ?final = "foldl add_text ?mid (concat (map fact_texts (map host_view fs)))"
  obtain gs edb' cache' where rest: "store_facts facts fs edb2 cache2 = Some (gs, edb', cache')" "K e facts strs ?final edb' cache'"
    "list_all2 (rel_input_fact (stored_at ?final)) gs (map host_view fs)"
    using Cons.IH[OF two(2)] Cons.prems(2,3) by auto
  obtain new where "?final = add_text stored p @ new" using notes_extend[of "add_text stored p" "value_texts (map host_value (fact_terms f)) @ _"] by auto
  then have "stored_at ?final offset p" using one(3) stored_at_append by simp
  moreover have "list_all2 (rel_value (stored_at ?final)) vs (map host_value (fact_terms f))" by (rule rel_grows[OF two(3)])
  ultimately have "rel_input_fact (stored_at ?final) (Input_fact offset vs) (host_view f)" by (simp add: host_view_def p)
  then show ?case using p one two rest texts by auto
qed simp

end

end
