(* ===== verification/Input_Store.thy ===== *)
theory Input_Store
  imports Input_Index Input_Steps
begin

unbundle bit_operations_syntax

text \<open>
  The input store implements the bounded log, with and without its index. The laws of measuring and copying one string
  are proved for both forms of the store; the append, the rollback and the generations of the index follow.
\<close>

section \<open>The invariant\<close>

definition log_of :: "input_edb \<Rightarrow> string list" where
  "log_of e = log_texts (input_edb_view e)"

definition bound_of :: "input_edb \<Rightarrow> nat" where
  "bound_of e = input_distinct_bound (ie_capacity e) (ie_text_capacity e)"

definition base_ok :: "input_edb \<Rightarrow> bool" where
  "base_ok e \<longleftrightarrow> ie_text e = arena (log_of e) \<and> c_texts (log_of e) \<and> text_size (log_of e) \<le> ie_text_capacity e \<and>
     ie_text_capacity e \<le> INPUT_EDB_TEXT_BYTES \<and> length (ie_facts e) \<le> ie_capacity e \<and>
     list_all2 (rel_input_fact (stored_at (log_of e))) (ie_facts e) (input_edb_view e) \<and>
     list_all (\<lambda>f. length (fact_terms f) \<le> MAX_TERMS) (ie_facts e)"

text \<open>Every cell of the index is committed, and an occupied one holds the offset of a string of the log.\<close>

definition rest_ok :: "input_edb \<Rightarrow> bool" where
  "rest_ok e \<longleftrightarrow> index_ok e [] (log_of e) \<and>
     (\<forall>slot < slots e. ie_index e ! slot < INPUT_PENDING_BASE \<and>
        (slot_occupied e slot \<longrightarrow> stored_at (log_of e) (ie_index e ! slot - 1) (entry_text e [] slot)) \<and>
        ie_generations e ! slot \<le> ie_generation e) \<and>
     1 \<le> ie_generation e \<and> ie_generation e \<le> 255 \<and>
     ie_pending e = replicate (bound_of e) 0 \<and> 0 < bound_of e \<and> 2 * bound_of e \<le> slots e \<and>
     length (ie_recent e) = 2 \<and> (\<forall>r\<in>set (ie_recent e). r \<noteq> 0 \<longrightarrow> r - 1 < slots e \<and> slot_occupied e (r - 1))"

definition input_inv :: "input_edb \<Rightarrow> bool" where
  "input_inv e \<longleftrightarrow> base_ok e \<and> (ie_index e \<noteq> [] \<longrightarrow> rest_ok e)"

text \<open>The strings of a batch are C strings.\<close>

definition batch_ok :: "host_fact list \<Rightarrow> bool" where
  "batch_ok facts \<longleftrightarrow> c_texts (concat (map fact_texts (map host_view facts)))"

lemma batch_text_ok:
  assumes "batch_ok facts" "text_position facts i j (Some s)" shows "CHR 0x00 \<notin> set s"
proof -
  have "s \<in> set (fact_texts (host_view (facts ! i)))"
  proof (cases j)
    case None
    then show ?thesis using assms(2) by (auto simp: text_position_def fact_texts_def host_view_def split: option.splits)
  next
    case (Some k)
    then have "VALUE_SYMBOL (Some s) \<in> set (fact_terms (facts ! i))"
      using assms(2) by (auto simp: text_position_def) (metis nth_mem)
    then show ?thesis by (force simp: fact_texts_def host_view_def value_texts_host)
  qed
  moreover have "facts ! i \<in> set facts" using assms(2) by (auto simp: text_position_def)
  ultimately show ?thesis using assms(1) by (force simp: batch_ok_def c_texts_def)
qed

section \<open>Positions of a batch\<close>

lemma strings_per_fact: "INPUT_STRINGS_PER_FACT = 5"
  by (simp add: INPUT_STRINGS_PER_FACT_def MAX_TERMS_def)

lemma ordinal_following: "ordinal_of i (Some (following j)) = Suc (ordinal_of i j)"
  by (cases j) (simp_all add: ordinal_of_def)

lemma ordinal_parts:
  "ordinal_of i None div INPUT_STRINGS_PER_FACT = i" "ordinal_of i None mod INPUT_STRINGS_PER_FACT = 0"
  "k < MAX_TERMS \<Longrightarrow> ordinal_of i (Some k) div INPUT_STRINGS_PER_FACT = i"
  "k < MAX_TERMS \<Longrightarrow> ordinal_of i (Some k) mod INPUT_STRINGS_PER_FACT = Suc k"
proof -
  have "(i * 5 + Suc k) div 5 = i" "(i * 5 + Suc k) mod 5 = Suc k" if "k < MAX_TERMS" for k
    using that by (auto simp: MAX_TERMS_def)
  then show "k < MAX_TERMS \<Longrightarrow> ordinal_of i (Some k) div INPUT_STRINGS_PER_FACT = i"
    "k < MAX_TERMS \<Longrightarrow> ordinal_of i (Some k) mod INPUT_STRINGS_PER_FACT = Suc k"
    by (simp_all add: ordinal_of_def strings_per_fact)
qed (simp_all add: ordinal_of_def strings_per_fact)

definition skipped :: "host_fact list \<Rightarrow> nat \<Rightarrow> bool" where
  "skipped facts ordinal \<longleftrightarrow>
     (let f = facts ! (ordinal div INPUT_STRINGS_PER_FACT); j = ordinal mod INPUT_STRINGS_PER_FACT
      in j > length (fact_terms f) \<or> (j \<noteq> 0 \<and> \<not> is_symbol (fact_terms f ! (j - 1))))"

lemma position_of:
  assumes "text_position facts i j (Some s)"
  shows "position_text facts (ordinal_of i j) = s" "\<not> skipped facts (ordinal_of i j)"
  using assms by (auto simp: text_position_def position_text_def skipped_def ordinal_parts is_symbol_def Let_def split: option.splits)

lemma skipped_value:
  "j < length (fact_terms (facts ! i)) \<Longrightarrow> length (fact_terms (facts ! i)) \<le> MAX_TERMS \<Longrightarrow>
   \<not> is_symbol (fact_terms (facts ! i) ! j) \<Longrightarrow> skipped facts (ordinal_of i (Some j))"
  by (auto simp: skipped_def ordinal_parts(3) ordinal_parts(4) MAX_TERMS_def Let_def)

lemma skipped_gap:
  assumes "length (fact_terms (facts ! i)) \<le> MAX_TERMS" "ordinal_of i (Some (length (fact_terms (facts ! i)))) \<le> n" "n < ordinal_of (Suc i) None"
  shows "skipped facts n"
proof -
  have n: "i * 5 + length (fact_terms (facts ! i)) < n" "n < i * 5 + 5"
    using assms(2,3) by (auto simp: ordinal_of_def strings_per_fact)
  then have "n div 5 = i" by (intro div_nat_eqI) auto
  moreover have "n mod 5 = n - i * 5" using \<open>n div 5 = i\<close> by (simp add: minus_mult_div_eq_mod[symmetric] mult.commute)
  ultimately have "n div 5 = i" "n mod 5 > length (fact_terms (facts ! i))" using n by auto
  then show ?thesis by (simp add: skipped_def strings_per_fact)
qed

lemma discard_step:
  "discard_pending edb facts (Suc n) c =
     (if c = 0 then Some edb
      else if skipped facts n then discard_pending edb facts n c
      else case text_slot edb (position_text facts n) facts of
        None \<Rightarrow> None
      | Some slot \<Rightarrow>
          if ie_index edb ! slot \<noteq> INPUT_PENDING_BASE + n then discard_pending edb facts n c
          else discard_pending (edb\<lparr>ie_index := (ie_index edb)[slot := ie_pending edb ! (c - 1)],
                 ie_pending := (ie_pending edb)[c - 1 := 0]\<rparr>) facts n (c - 1))"
  by (simp add: skipped_def is_symbol_def Let_def split: "value.splits")

lemma discard_none: "discard_pending edb facts n 0 = Some edb"
  by (cases n) simp_all

lemma discard_skipped: "skipped facts n \<Longrightarrow> discard_pending edb facts (Suc n) c = discard_pending edb facts n c"
  by (simp add: discard_step discard_none del: discard_pending.simps)

lemma discard_gap:
  assumes "\<And>n. a \<le> n \<Longrightarrow> n < b \<Longrightarrow> skipped facts n" "a \<le> b"
  shows "discard_pending edb facts b c = discard_pending edb facts a c"
  using assms(2,1)
proof (induction b rule: dec_induct)
  case (step n)
  then show ?case using discard_skipped[of facts n edb c] by simp
qed simp

section \<open>The store without an index\<close>

definition linear_measure ::
  "input_edb \<Rightarrow> host_fact list \<Rightarrow> nat \<Rightarrow> nat option \<Rightarrow> measurement \<Rightarrow> string list \<Rightarrow> bool" where
  "linear_measure e facts i j ms strs \<longleftrightarrow> ie_index e = [] \<and> base_ok e \<and> ms_edb ms = e \<and> ms_pending_count ms = 0 \<and>
     ms_remaining ms = ie_text_capacity e - text_size strs \<and> text_size strs \<le> ie_text_capacity e \<and>
     set strs = set (log_of e) \<union> {s. prefix_has_text facts i j s}"

lemma prefix_has_text_step:
  "i < length facts \<Longrightarrow> prefix_has_text facts i (Some 0) s \<longleftrightarrow> prefix_has_text facts i None s \<or> fact_predicate (facts ! i) = Some s"
  "i < length facts \<Longrightarrow> k < length (fact_terms (facts ! i)) \<Longrightarrow>
     prefix_has_text facts i (Some (Suc k)) s \<longleftrightarrow> prefix_has_text facts i (Some k) s \<or> fact_terms (facts ! i) ! k = VALUE_SYMBOL (Some s)"
  "i < length facts \<Longrightarrow> prefix_has_text facts (Suc i) None s \<longleftrightarrow> prefix_has_text facts i (Some (length (fact_terms (facts ! i)))) s"
  by (auto simp: prefix_has_text_def has_symbol_def take_Suc_conv_app_nth list_ex_iff)

lemma prefix_following:
  assumes "text_position facts i j (Some s)"
  shows "{t. prefix_has_text facts i (Some (following j)) t} = insert s {t. prefix_has_text facts i j t}"
  using assms prefix_has_text_step(1,2)[of i facts] by (cases j) (auto simp: text_position_def)

lemma base_find: "base_ok e \<Longrightarrow> find_text e s 0 = None \<longleftrightarrow> s \<notin> set (log_of e)"
  using find_text_arena[of e "[]" "log_of e" s] by (auto simp: base_ok_def text_size_def split: option.splits)

lemma linear_text:
  assumes "linear_measure e facts i j ms strs"
  shows "measure_text facts i j (Some t) ms =
    (if length t > MAX_STRING_BYTES then Some (STATUS_PAYLOAD_TOO_LARGE, ms)
     else if t \<in> set strs then Some (STATUS_OK, ms)
     else if text_size strs + length t + 1 > ie_text_capacity e then Some (STATUS_PAYLOAD_TOO_LARGE, ms)
     else Some (STATUS_OK, ms\<lparr>ms_remaining := ms_remaining ms - (length t + 1)\<rparr>))"
proof -
  have known: "(find_text (ms_edb ms) t 0 \<noteq> None \<or> prefix_has_text facts i j t) = (t \<in> set strs)"
    using assms base_find[of e t] by (auto simp: linear_measure_def)
  have room: "(length t + 1 > ms_remaining ms) = (text_size strs + length t + 1 > ie_text_capacity e)"
    using assms by (auto simp: linear_measure_def)
  have "ie_index (ms_edb ms) = []" using assms by (simp add: linear_measure_def)
  then show ?thesis unfolding measure_text_def option.case known room by simp
qed

lemma null_text: "measure_text facts i j None ms = Some (STATUS_INVALID_ARGUMENT, ms)"
  by (simp add: measure_text_def)

interpretation linear: measuring linear_measure
proof
  fix e facts i j ms strs s rc
  assume R: "linear_measure e facts i j ms strs" and pos: "text_position facts i j s"
    and admit: "admit_text (ie_text_capacity e) strs s = Inl rc"
  have "measure_text facts i j s ms = Some (rc, ms)"
    using admit by (cases s) (simp_all add: null_text admit_text_def linear_text[OF R] split: if_splits)
  then show "\<exists>ms'. measure_text facts i j s ms = Some (rc, ms') \<and> ms_edb ms' = ms_edb ms \<and> ms_pending_count ms' = ms_pending_count ms"
    by blast
next
  fix e facts i j ms strs s strs'
  assume R: "linear_measure e facts i j ms strs" and pos: "text_position facts i j s"
    and admit: "admit_text (ie_text_capacity e) strs s = Inr strs'"
  obtain t where t: "s = Some t" "strs' = add_text strs t" "length t \<le> MAX_STRING_BYTES" using admit_text_notes[OF admit] by blast
  have room: "text_size strs' \<le> ie_text_capacity e" using admit_text_size[OF admit] R by (simp add: linear_measure_def)
  let ?ms = "if t \<in> set strs then ms else ms\<lparr>ms_remaining := ms_remaining ms - (length t + 1)\<rparr>"
  have "measure_text facts i j s ms = Some (STATUS_OK, ?ms)"
    using admit t(3) unfolding t(1) linear_text[OF R] by (simp add: admit_text_def split: if_splits) blast
  moreover have "ms_remaining ?ms = ie_text_capacity e - text_size strs'"
    using R by (simp add: t(2) text_size_note linear_measure_def)
  then have "linear_measure e facts i (Some (following j)) ?ms strs'"
    using R room prefix_following[OF pos[unfolded t(1)]] by (simp add: linear_measure_def t(2) note_simps)
  ultimately show "\<exists>ms'. measure_text facts i j s ms = Some (STATUS_OK, ms') \<and> linear_measure e facts i (Some (following j)) ms' strs'"
    by blast
next
  fix e facts i k ms strs
  assume "linear_measure e facts i (Some k) ms strs" "i < length facts" "k < length (fact_terms (facts ! i))"
    "\<not> is_symbol (fact_terms (facts ! i) ! k)"
  moreover from this(2-) have "prefix_has_text facts i (Some (Suc k)) s = prefix_has_text facts i (Some k) s" for s
    using prefix_has_text_step(2)[of i facts k s] unfolding is_symbol_def by force
  then have "prefix_has_text facts i (Some (Suc k)) = prefix_has_text facts i (Some k)" by (rule ext)
  ultimately show "linear_measure e facts i (Some (Suc k)) ms strs" unfolding linear_measure_def by simp
next
  fix e facts i ms strs
  assume "linear_measure e facts i (Some (length (fact_terms (facts ! i)))) ms strs" "i < length facts"
  then show "linear_measure e facts (Suc i) None ms strs" by (simp add: linear_measure_def prefix_has_text_step(3))
next
  fix e facts i j ms strs
  assume "linear_measure e facts i j ms strs"
  then show "discard_pending (ms_edb ms) facts (ordinal_of i j) (ms_pending_count ms) = Some e"
    by (simp add: linear_measure_def discard_none)
qed

definition linear_copy ::
  "input_edb \<Rightarrow> host_fact list \<Rightarrow> string list \<Rightarrow> string list \<Rightarrow> input_edb \<Rightarrow> input_lookup \<Rightarrow> bool" where
  "linear_copy e facts strs stored edb cache \<longleftrightarrow> ie_index e = [] \<and> edb = e\<lparr>ie_text := arena stored\<rparr> \<and> c_texts strs \<and> set stored \<subseteq> set strs"

lemma c_texts_subset: "c_texts strs \<Longrightarrow> set stored \<subseteq> set strs \<Longrightarrow> c_texts stored"
  by (auto simp: c_texts_def)

lemma arena_note: "s \<notin> set strs \<Longrightarrow> arena (add_text strs s) = arena strs @ s @ [CHR 0x00]"
  by (simp add: add_text_def arena_def)

interpretation linear: copying linear_copy
proof
  fix e facts strs stored edb cache s
  assume K: "linear_copy e facts strs stored edb cache" and s: "s \<in> set strs"
  have base: "ie_text edb = arena ([] @ stored)" "c_texts ([] @ stored)" "ie_index edb = []"
    using K c_texts_subset by (auto simp: linear_copy_def)
  note found = find_text_arena[OF base(1,2), of s]
  show "\<exists>offset edb' cache'. stored_text edb s facts cache = Some (offset, edb', cache') \<and>
      linear_copy e facts strs (add_text stored s) edb' cache' \<and> stored_at (add_text stored s) offset s"
  proof (cases "find_text edb s 0")
    case None
    then have new: "s \<notin> set stored" using found by (simp add: text_size_def)
    have "stored_text edb s facts cache = Some (text_size stored, append_text edb s, cache)"
      using None base by (simp add: stored_text_def arena_length)
    moreover have "linear_copy e facts strs (add_text stored s) (append_text edb s) cache"
      using K s arena_note[OF new] by (simp add: linear_copy_def append_text_def note_simps)
    ultimately show ?thesis using new stored_at_last by (fastforce simp: add_text_def)
  next
    case (Some offset)
    then have "s \<in> set stored" "stored_at stored offset s" using found by (simp_all add: text_size_def)
    then show ?thesis using K Some base by (auto simp: stored_text_def add_text_def)
  qed
qed

section \<open>The store with an index\<close>

definition entries_ok :: "input_edb \<Rightarrow> host_fact list \<Rightarrow> string list \<Rightarrow> bool" where
  "entries_ok edb facts stored \<longleftrightarrow> (\<forall>slot < slots edb. slot_occupied edb slot \<longrightarrow>
     (if ie_index edb ! slot < INPUT_PENDING_BASE then stored_at stored (ie_index edb ! slot - 1) (entry_text edb facts slot)
      else entry_text edb facts slot \<notin> set stored))"

lemma entries_committed:
  "entries_ok edb facts stored \<Longrightarrow> slot < slots edb \<Longrightarrow> slot_occupied edb slot \<Longrightarrow> ie_index edb ! slot < INPUT_PENDING_BASE \<Longrightarrow>
   stored_at stored (ie_index edb ! slot - 1) (entry_text edb facts slot)"
  unfolding entries_ok_def by metis

lemma entries_pending:
  "entries_ok edb facts stored \<Longrightarrow> slot < slots edb \<Longrightarrow> slot_occupied edb slot \<Longrightarrow> \<not> ie_index edb ! slot < INPUT_PENDING_BASE \<Longrightarrow>
   entry_text edb facts slot \<notin> set stored"
  unfolding entries_ok_def by metis

text \<open>The batch up to position \<open>n\<close> has been measured: its new strings are pending in the index, and the journal takes them back.\<close>

definition journal_ok :: "input_edb \<Rightarrow> host_fact list \<Rightarrow> nat \<Rightarrow> measurement \<Rightarrow> bool" where
  "journal_ok e facts n ms \<longleftrightarrow>
     ms_edb ms = e\<lparr>ie_index := ie_index (ms_edb ms), ie_pending := ie_pending (ms_edb ms)\<rparr> \<and>
     slots (ms_edb ms) = slots e \<and> length (ie_pending (ms_edb ms)) = bound_of e \<and>
     (\<forall>c. ms_pending_count ms \<le> c \<longrightarrow> c < bound_of e \<longrightarrow> ie_pending (ms_edb ms) ! c = 0) \<and>
     (\<forall>slot < slots e. ie_index (ms_edb ms) ! slot < INPUT_PENDING_BASE + n) \<and>
     discard_pending (ms_edb ms) facts n (ms_pending_count ms) = Some e"

definition texts_ok :: "input_edb \<Rightarrow> nat \<Rightarrow> measurement \<Rightarrow> string list \<Rightarrow> bool" where
  "texts_ok e n ms strs \<longleftrightarrow> distinct strs \<and> c_texts strs \<and> set (log_of e) \<subseteq> set strs \<and>
     text_size strs \<le> ie_text_capacity e \<and> ms_remaining ms = ie_text_capacity e - text_size strs \<and>
     ms_pending_count ms \<le> length strs \<and> length strs \<le> INPUT_STRINGS_PER_FACT * length (ie_facts e) + n"

definition indexed_measure ::
  "input_edb \<Rightarrow> host_fact list \<Rightarrow> nat \<Rightarrow> nat option \<Rightarrow> measurement \<Rightarrow> string list \<Rightarrow> bool" where
  "indexed_measure e facts i j ms strs \<longleftrightarrow> ie_index e \<noteq> [] \<and> rest_ok e \<and> batch_ok facts \<and>
     length facts + length (ie_facts e) \<le> ie_capacity e \<and>
     journal_ok e facts (ordinal_of i j) ms \<and> texts_ok e (ordinal_of i j) ms strs \<and>
     index_ok (ms_edb ms) facts strs \<and> entries_ok (ms_edb ms) facts (log_of e) \<and>
     cache_ok (slots e) (table_of (ms_edb ms) facts) (ms_cache ms)"

lemma ordinal_bound: "text_position facts i j s \<Longrightarrow> Suc (ordinal_of i j) \<le> INPUT_STRINGS_PER_FACT * length facts"
proof -
  assume pos: "text_position facts i j s"
  then have "Suc i \<le> length facts" by (simp add: text_position_def)
  then have "5 * Suc i \<le> 5 * length facts" by (rule mult_le_mono2)
  then show ?thesis using pos by (auto simp: text_position_def ordinal_of_def strings_per_fact MAX_TERMS_def split: option.splits)
qed

text \<open>One more string still fits the journal and leaves free slots in the index.\<close>

lemma room_for_text:
  assumes "rest_ok e" "length facts + length (ie_facts e) \<le> ie_capacity e" "text_position facts i j s"
    "distinct strs" "text_size strs \<le> ie_text_capacity e" "length strs \<le> INPUT_STRINGS_PER_FACT * length (ie_facts e) + Suc (ordinal_of i j)"
  shows "length strs \<le> bound_of e" "length strs < slots e"
proof -
  have "length strs \<le> 5 * length (ie_facts e) + 5 * length facts"
    using assms(6) ordinal_bound[OF assms(3)] by (simp add: strings_per_fact)
  also have "\<dots> \<le> ie_capacity e * 5" using assms(2) by simp
  finally have "length strs \<le> ie_capacity e * INPUT_STRINGS_PER_FACT" by (simp add: strings_per_fact)
  then show "length strs \<le> bound_of e"
    using distinct_text_count[OF assms(4,5)] by (simp add: bound_of_def input_distinct_bound_def Let_def)
  then show "length strs < slots e" using assms(1) by (simp add: rest_ok_def)
qed

definition enter_pending :: "nat \<Rightarrow> nat \<Rightarrow> nat \<Rightarrow> input_edb \<Rightarrow> input_edb" where
  "enter_pending c slot n edb = edb\<lparr>ie_pending := (ie_pending edb)[c := ie_index edb ! slot],
     ie_index := (ie_index edb)[slot := INPUT_PENDING_BASE + n]\<rparr>"

lemma enter_pending_table:
  "slot < slots edb \<Longrightarrow> table_of (enter_pending c slot n edb) facts = (table_of edb facts)(slot := Some (position_text facts n))"
  by (auto simp: table_of_def slot_occupied_def entry_text_def enter_pending_def text_from_def fun_eq_iff nth_list_update)

lemma enter_pending_undone:
  assumes "slot < slots edb" "c < length (ie_pending edb)" "ie_pending edb ! c = 0"
  shows "(enter_pending c slot n edb)\<lparr>ie_index := (ie_index (enter_pending c slot n edb))[slot := ie_pending (enter_pending c slot n edb) ! c],
    ie_pending := (ie_pending (enter_pending c slot n edb))[c := 0]\<rparr> = edb"
  using assms list_update_id[of "ie_pending edb" c] by (simp add: enter_pending_def)

lemma journal_known:
  assumes "journal_ok e facts n ms" "index_ok (ms_edb ms) facts strs" "b < slots e" "table_of (ms_edb ms) facts b = Some (position_text facts n)"
  shows "journal_ok e facts (Suc n) (ms\<lparr>ms_cache := cache\<rparr>)"
proof -
  have "text_slot (ms_edb ms) (position_text facts n) facts = Some b"
    using index_finds[OF assms(2)] assms(1,3,4) by (simp add: journal_ok_def)
  moreover have "ie_index (ms_edb ms) ! b < INPUT_PENDING_BASE + n" using assms(1,3) by (simp add: journal_ok_def)
  moreover have undo: "discard_pending (ms_edb ms) facts n (ms_pending_count ms) = Some e" using assms(1) by (simp add: journal_ok_def)
  ultimately have "discard_pending (ms_edb ms) facts (Suc n) (ms_pending_count ms) = Some e"
    by (auto simp: discard_step discard_none simp del: discard_pending.simps)
  then show ?thesis using assms(1) by (auto simp: journal_ok_def simp del: discard_pending.simps intro: less_SucI)
qed

lemma journal_skipped: "journal_ok e facts n ms \<Longrightarrow> skipped facts n \<Longrightarrow> journal_ok e facts (Suc n) ms"
  unfolding journal_ok_def discard_skipped by (auto intro: less_SucI)

lemma journal_enters:
  assumes "journal_ok e facts n ms" "ms_pending_count ms < bound_of e" "slot < slots e" "\<not> skipped facts n"
    "index_ok (enter_pending (ms_pending_count ms) slot n (ms_edb ms)) facts strs" "ms_edb ms' = enter_pending (ms_pending_count ms) slot n (ms_edb ms)"
    "ms_pending_count ms' = Suc (ms_pending_count ms)"
  shows "journal_ok e facts (Suc n) ms'"
proof -
  let ?c = "ms_pending_count ms" and ?edb = "ms_edb ms" and ?edb' = "enter_pending (ms_pending_count ms) slot n (ms_edb ms)"
  have parts: "slots ?edb = slots e" "length (ie_pending ?edb) = bound_of e" "ie_pending ?edb ! ?c = 0"
    "discard_pending ?edb facts n ?c = Some e" "?edb = e\<lparr>ie_index := ie_index ?edb, ie_pending := ie_pending ?edb\<rparr>"
    using assms(1,2) by (simp_all add: journal_ok_def)
  have "table_of ?edb' facts slot = Some (position_text facts n)" using enter_pending_table[of slot ?edb] assms(3) parts(1) by simp
  moreover have size: "slots ?edb' = slots e" using parts(1) by (simp add: enter_pending_def)
  ultimately have found: "text_slot ?edb' (position_text facts n) facts = Some slot"
    using index_finds[OF assms(5)] assms(3) by simp
  have entry: "ie_index ?edb' ! slot = INPUT_PENDING_BASE + n" using assms(3) parts(1) by (simp add: enter_pending_def)
  have "discard_pending ?edb' facts (Suc n) (Suc ?c) = discard_pending ?edb facts n ?c"
    unfolding discard_step[of _ _ n] using assms(4) found entry enter_pending_undone[of slot ?edb ?c n] assms(2,3) parts
    by (simp del: discard_pending.simps)
  moreover have "?edb' = e\<lparr>ie_index := ie_index ?edb', ie_pending := ie_pending ?edb'\<rparr>"
    unfolding enter_pending_def by (subst (1) parts(5)) simp
  moreover have "ie_index ?edb' ! x < INPUT_PENDING_BASE + Suc n" if "x < slots e" for x
  proof -
    have "ie_index ?edb ! x < INPUT_PENDING_BASE + n" using assms(1) that by (simp add: journal_ok_def)
    then show ?thesis using that parts(1) by (cases "x = slot") (simp_all add: enter_pending_def)
  qed
  moreover have "ie_pending ?edb' ! c = 0" if "Suc ?c \<le> c" "c < bound_of e" for c
    using assms(1) that by (simp add: journal_ok_def enter_pending_def nth_list_update)
  ultimately show ?thesis using assms(6,7) size parts
    by (simp add: journal_ok_def enter_pending_def del: discard_pending.simps)
qed

text \<open>What measuring a string does with the slot it finds.\<close>

definition measured :: "nat \<Rightarrow> string \<Rightarrow> nat \<Rightarrow> input_lookup \<Rightarrow> measurement \<Rightarrow> measurement" where
  "measured n t slot cache ms = ms\<lparr>ms_cache := cache, ms_remaining := ms_remaining ms - (length t + 1),
     ms_pending_count := ms_pending_count ms + 1, ms_edb := enter_pending (ms_pending_count ms) slot n (ms_edb ms)\<rparr>"

lemma indexed_text:
  assumes "indexed_measure e facts i j ms strs"
  shows "\<exists>slot cache d. slot < slots e \<and> slot = cell_of (slots e) t d \<and> stops (slots e) (table_of (ms_edb ms) facts) t d \<and>
    (table_of (ms_edb ms) facts slot = None \<longleftrightarrow> t \<notin> set strs) \<and>
    cache_ok (slots e) ((table_of (ms_edb ms) facts)(slot := Some t)) cache \<and>
    measure_text facts i j (Some t) ms =
      (if length t > MAX_STRING_BYTES then Some (STATUS_PAYLOAD_TOO_LARGE, ms)
       else if t \<in> set strs then Some (STATUS_OK, ms\<lparr>ms_cache := cache\<rparr>)
       else if text_size strs + length t + 1 > ie_text_capacity e then Some (STATUS_PAYLOAD_TOO_LARGE, ms\<lparr>ms_cache := cache\<rparr>)
       else Some (STATUS_OK, measured (ordinal_of i j) t slot cache ms))"
proof -
  have size: "slots (ms_edb ms) = slots e" and idx: "ie_index (ms_edb ms) \<noteq> []"
    using assms by (auto simp: indexed_measure_def journal_ok_def)
  have pre: "index_ok (ms_edb ms) facts strs" "cache_ok (slots (ms_edb ms)) (table_of (ms_edb ms) facts) (ms_cache ms)"
    using assms size by (simp_all add: indexed_measure_def)
  obtain slot cache d where found: "cached_slot (ms_edb ms) t facts (ms_cache ms) = Some (slot, cache)" "slot < slots e"
    "slot = cell_of (slots e) t d" "stops (slots e) (table_of (ms_edb ms) facts) t d"
    "table_of (ms_edb ms) facts slot = None \<longleftrightarrow> t \<notin> set strs" "cache_ok (slots e) ((table_of (ms_edb ms) facts)(slot := Some t)) cache"
    using cached_slot_finds[OF pre, of t] unfolding size by (elim exE conjE) (rule that)
  have occ: "slot_occupied (ms_edb ms) slot = (t \<in> set strs)" using found(5) by (simp add: table_of_def split: if_splits)
  have room: "(length t + 1 > ms_remaining ms) = (text_size strs + length t + 1 > ie_text_capacity e)"
    using assms by (auto simp: indexed_measure_def texts_ok_def)
  have "measure_text facts i j (Some t) ms =
      (if length t > MAX_STRING_BYTES then Some (STATUS_PAYLOAD_TOO_LARGE, ms)
       else if t \<in> set strs then Some (STATUS_OK, ms\<lparr>ms_cache := cache\<rparr>)
       else if text_size strs + length t + 1 > ie_text_capacity e then Some (STATUS_PAYLOAD_TOO_LARGE, ms\<lparr>ms_cache := cache\<rparr>)
       else Some (STATUS_OK, measured (ordinal_of i j) t slot cache ms))"
    unfolding measure_text_def option.case found(1) using idx occ room
    by (simp add: measured_def enter_pending_def Let_def)
  then show ?thesis using found(2-6) by (intro exI conjI)
qed

lemma texts_known: "texts_ok e n ms strs \<Longrightarrow> texts_ok e (Suc n) (ms\<lparr>ms_cache := cache\<rparr>) strs"
  by (simp add: texts_ok_def)

lemma texts_new:
  assumes "texts_ok e n ms strs" "t \<notin> set strs" "CHR 0x00 \<notin> set t" "text_size strs + length t + 1 \<le> ie_text_capacity e"
  shows "texts_ok e (Suc n) (measured k t slot cache ms) (strs @ [t])"
  using assms by (auto simp: texts_ok_def measured_def c_texts_def text_size_append) (simp_all add: text_size_def)

lemma entries_enter:
  assumes "entries_ok edb facts stored" "slot < slots edb" "position_text facts n \<notin> set stored"
  shows "entries_ok (enter_pending c slot n edb) facts stored"
proof -
  have other: "slot_occupied (enter_pending c slot n edb) x = slot_occupied edb x \<and>
      ie_index (enter_pending c slot n edb) ! x = ie_index edb ! x \<and> entry_text (enter_pending c slot n edb) facts x = entry_text edb facts x"
    if "x \<noteq> slot" for x
    using that by (simp add: enter_pending_def slot_occupied_def entry_text_def text_from_def)
  have here: "ie_index (enter_pending c slot n edb) ! slot = INPUT_PENDING_BASE + n"
      "entry_text (enter_pending c slot n edb) facts slot = position_text facts n"
    using assms(2) by (simp_all add: enter_pending_def entry_text_def)
  have "slots (enter_pending c slot n edb) = slots edb" by (simp add: enter_pending_def)
  then show ?thesis using assms(1,3) other here unfolding entries_ok_def
    by (metis not_add_less1)
qed

lemma indexed_known:
  assumes R: "indexed_measure e facts i j ms strs" and pos: "text_position facts i j (Some t)" and t: "t \<in> set strs"
    and slot: "slot < slots e" "table_of (ms_edb ms) facts slot \<noteq> None"
      "cache_ok (slots e) ((table_of (ms_edb ms) facts)(slot := Some t)) cache"
      "slot = cell_of (slots e) t d" "stops (slots e) (table_of (ms_edb ms) facts) t d"
  shows "indexed_measure e facts i (Some (following j)) (ms\<lparr>ms_cache := cache\<rparr>) strs"
proof -
  have here: "table_of (ms_edb ms) facts slot = Some t" using slot by (auto simp: stops_def)
  then have cache: "cache_ok (slots e) (table_of (ms_edb ms) facts) cache" using slot(3) by (simp add: fun_upd_idem)
  have "journal_ok e facts (Suc (ordinal_of i j)) (ms\<lparr>ms_cache := cache\<rparr>)"
    using journal_known[of e facts "ordinal_of i j" ms strs slot cache] R slot(1) here position_of(1)[OF pos]
    by (simp add: indexed_measure_def)
  then show ?thesis using R cache texts_known[of e "ordinal_of i j" ms strs cache]
    by (simp add: indexed_measure_def ordinal_following)
qed

lemma indexed_new:
  assumes R: "indexed_measure e facts i j ms strs" and pos: "text_position facts i j (Some t)" and t: "t \<notin> set strs"
    and fits: "text_size strs + length t + 1 \<le> ie_text_capacity e"
    and slot: "slot < slots e" "table_of (ms_edb ms) facts slot = None" "slot = cell_of (slots e) t d"
      "stops (slots e) (table_of (ms_edb ms) facts) t d" "cache_ok (slots e) ((table_of (ms_edb ms) facts)(slot := Some t)) cache"
  shows "indexed_measure e facts i (Some (following j)) (measured (ordinal_of i j) t slot cache ms) (strs @ [t])"
proof -
  let ?n = "ordinal_of i j" and ?ms = "measured (ordinal_of i j) t slot cache ms"
  let ?edb = "enter_pending (ms_pending_count ms) slot ?n (ms_edb ms)"
  have edb: "ms_edb ?ms = ?edb" "ms_pending_count ?ms = Suc (ms_pending_count ms)" "ms_cache ?ms = cache" by (simp_all add: measured_def)
  note parts = R[unfolded indexed_measure_def]
  have nul: "CHR 0x00 \<notin> set t" using batch_text_ok[OF _ pos] parts by simp
  have texts: "texts_ok e (Suc ?n) ?ms (strs @ [t])" using texts_new[OF _ t nul fits] parts by blast
  have room: "length (strs @ [t]) \<le> bound_of e" "length (strs @ [t]) < slots e"
    using room_for_text[of e facts i j "Some t" "strs @ [t]"] parts texts pos by (simp_all add: texts_ok_def)
  have size: "slots (ms_edb ms) = slots e" using parts by (simp add: journal_ok_def)
  have tab: "table_of ?edb facts = (table_of (ms_edb ms) facts)(slot := Some t)"
    using enter_pending_table[of slot "ms_edb ms"] slot(1) size position_of(1)[OF pos] by simp
  have "placed (slots e) (table_of ?edb facts)" "holds (slots e) (table_of ?edb facts) = insert t (set strs)"
    using placed_insert[of "slots e" "table_of (ms_edb ms) facts" t d] holds_insert[of slot "slots e" "table_of (ms_edb ms) facts" t]
      parts slot size unfolding tab by (simp_all add: index_ok_def)
  then have idx: "index_ok ?edb facts (strs @ [t])"
    using parts room(2) size by (simp add: index_ok_def enter_pending_def)
  have "ms_pending_count ms < bound_of e" using parts room(1) by (simp add: texts_ok_def)
  then have "journal_ok e facts (Suc ?n) ?ms"
    using journal_enters[OF _ _ slot(1) position_of(2)[OF pos] idx edb(1,2)] parts by blast
  moreover have "entries_ok ?edb facts (log_of e)"
    using entries_enter[of "ms_edb ms" facts "log_of e" slot ?n] parts slot(1) size position_of(1)[OF pos] t by (auto simp: texts_ok_def)
  ultimately show ?thesis using parts texts idx slot(5) edb tab by (simp add: indexed_measure_def ordinal_following)
qed

interpretation indexed: measuring indexed_measure
proof
  fix e facts i j ms strs s rc
  assume R: "indexed_measure e facts i j ms strs" and admit: "admit_text (ie_text_capacity e) strs s = Inl rc"
  show "\<exists>ms'. measure_text facts i j s ms = Some (rc, ms') \<and> ms_edb ms' = ms_edb ms \<and> ms_pending_count ms' = ms_pending_count ms"
  proof (cases s)
    case None
    then show ?thesis using admit by (simp add: null_text admit_text_def)
  next
    case (Some t)
    then show ?thesis using indexed_text[OF R, of t] admit by (auto simp: admit_text_def split: if_splits)
  qed
next
  fix e facts i j ms strs s strs'
  assume R: "indexed_measure e facts i j ms strs" and pos: "text_position facts i j s"
    and admit: "admit_text (ie_text_capacity e) strs s = Inr strs'"
  obtain t where t: "s = Some t" "strs' = add_text strs t" "length t \<le> MAX_STRING_BYTES" using admit_text_notes[OF admit] by blast
  obtain slot cache d where slot: "slot < slots e" "slot = cell_of (slots e) t d" "stops (slots e) (table_of (ms_edb ms) facts) t d"
      "table_of (ms_edb ms) facts slot = None \<longleftrightarrow> t \<notin> set strs" "cache_ok (slots e) ((table_of (ms_edb ms) facts)(slot := Some t)) cache"
    and result: "measure_text facts i j (Some t) ms =
      (if length t > MAX_STRING_BYTES then Some (STATUS_PAYLOAD_TOO_LARGE, ms)
       else if t \<in> set strs then Some (STATUS_OK, ms\<lparr>ms_cache := cache\<rparr>)
       else if text_size strs + length t + 1 > ie_text_capacity e then Some (STATUS_PAYLOAD_TOO_LARGE, ms\<lparr>ms_cache := cache\<rparr>)
       else Some (STATUS_OK, measured (ordinal_of i j) t slot cache ms))"
    using indexed_text[OF R, of t] by (elim exE conjE) (rule that)
  show "\<exists>ms'. measure_text facts i j s ms = Some (STATUS_OK, ms') \<and> indexed_measure e facts i (Some (following j)) ms' strs'"
  proof (cases "t \<in> set strs")
    case True
    then show ?thesis using indexed_known[OF R pos[unfolded t(1)] True slot(1) _ slot(5,2,3)] result t slot(4) by (simp add: add_text_def)
  next
    case False
    then have "text_size strs + length t + 1 \<le> ie_text_capacity e" using admit t(1) by (auto simp: admit_text_def split: if_splits)
    then show ?thesis using indexed_new[OF R pos[unfolded t(1)] False _ slot(1) _ slot(2,3,5)] result t slot(4) False by (simp add: add_text_def)
  qed
next
  fix e facts i k ms strs
  assume R: "indexed_measure e facts i (Some k) ms strs" and k: "k < length (fact_terms (facts ! i))"
    "length (fact_terms (facts ! i)) \<le> MAX_TERMS" "\<not> is_symbol (fact_terms (facts ! i) ! k)"
  have "ordinal_of i (Some (Suc k)) = Suc (ordinal_of i (Some k))" by (simp add: ordinal_of_def)
  then show "indexed_measure e facts i (Some (Suc k)) ms strs"
    using R journal_skipped[OF _ skipped_value[OF k]] by (auto simp: indexed_measure_def texts_ok_def)
next
  fix e facts i ms strs
  assume R: "indexed_measure e facts i (Some (length (fact_terms (facts ! i)))) ms strs"
    and k: "length (fact_terms (facts ! i)) \<le> MAX_TERMS"
  let ?a = "ordinal_of i (Some (length (fact_terms (facts ! i))))" and ?b = "ordinal_of (Suc i) None"
  have le: "?a \<le> ?b" using k by (simp add: ordinal_of_def strings_per_fact MAX_TERMS_def)
  have "journal_ok e facts ?b ms"
    using R discard_gap[OF skipped_gap[OF k] le] le by (fastforce simp: indexed_measure_def journal_ok_def)
  then show "indexed_measure e facts (Suc i) None ms strs" using R le by (auto simp: indexed_measure_def texts_ok_def)
next
  fix e facts i j ms strs
  assume "indexed_measure e facts i j ms strs"
  then show "discard_pending (ms_edb ms) facts (ordinal_of i j) (ms_pending_count ms) = Some e"
    by (simp add: indexed_measure_def journal_ok_def)
qed

definition indexed_copy ::
  "input_edb \<Rightarrow> host_fact list \<Rightarrow> string list \<Rightarrow> string list \<Rightarrow> input_edb \<Rightarrow> input_lookup \<Rightarrow> bool" where
  "indexed_copy e facts strs stored edb cache \<longleftrightarrow> ie_index e \<noteq> [] \<and>
     edb = e\<lparr>ie_index := ie_index edb, ie_generations := ie_generations edb, ie_text := arena stored\<rparr> \<and> slots edb = slots e \<and>
     (\<forall>slot < slots e. ie_generations edb ! slot \<le> ie_generation e) \<and>
     index_ok edb facts strs \<and> cache_ok (slots e) (table_of edb facts) cache \<and> entries_ok edb facts stored \<and>
     c_texts strs \<and> distinct strs \<and> distinct stored \<and> set stored \<subseteq> set strs \<and> text_size strs \<le> INPUT_EDB_TEXT_BYTES"

lemma text_size_subset: "distinct a \<Longrightarrow> distinct b \<Longrightarrow> set a \<subseteq> set b \<Longrightarrow> text_size a \<le> text_size b"
  by (simp add: text_size_def sum_list_distinct_conv_sum_set sum_mono2)

definition commit_entry :: "nat \<Rightarrow> string \<Rightarrow> input_edb \<Rightarrow> input_edb" where
  "commit_entry slot s edb = append_text (edb\<lparr>ie_index := (ie_index edb)[slot := length (ie_text edb) + 1],
     ie_generations := (ie_generations edb)[slot := ie_generation edb]\<rparr>) s"

text \<open>Committing the pending entry of a string leaves the table as it is.\<close>

lemma commit_entry_keeps:
  assumes ar: "ie_text edb = arena stored" "c_texts (stored @ [s])" "s \<notin> set stored"
    and slot: "slot < slots edb" "length (ie_generations edb) = slots edb" "table_of edb facts slot = Some s"
      "length (ie_text edb) + 1 < INPUT_PENDING_BASE"
    and entries: "entries_ok edb facts stored" and once: "\<And>x. x < slots edb \<Longrightarrow> table_of edb facts x = Some s \<Longrightarrow> x = slot"
  shows "x < slots edb \<Longrightarrow> table_of (commit_entry slot s edb) facts x = table_of edb facts x"
    and "entries_ok (commit_entry slot s edb) facts (stored @ [s])"
    and "ie_text (commit_entry slot s edb) = arena (stored @ [s])"
proof -
  let ?edb = "commit_entry slot s edb"
  show new: "ie_text ?edb = arena (stored @ [s])" using ar(1) by (simp add: commit_entry_def append_text_def arena_def)
  have size: "slots ?edb = slots edb" by (simp add: commit_entry_def append_text_def)
  have c: "c_texts stored" using ar(2) by (simp add: c_texts_def)
  have off: "length (ie_text edb) = text_size stored" using ar(1) by (simp add: arena_length)
  have here: "ie_index ?edb ! slot = text_size stored + 1" "slot_occupied ?edb slot" "entry_text ?edb facts slot = s"
  proof -
    show i: "ie_index ?edb ! slot = text_size stored + 1" using slot(1) off by (simp add: commit_entry_def append_text_def)
    show "slot_occupied ?edb slot" using slot(1,2) by (simp add: slot_occupied_def commit_entry_def append_text_def)
    show "entry_text ?edb facts slot = s"
      using i slot(4) off stored_text_from(1)[OF stored_at_last ar(2) new] by (simp add: entry_text_def)
  qed
  have same: "ie_index ?edb ! x = ie_index edb ! x" "slot_occupied ?edb x = slot_occupied edb x" if "x \<noteq> slot" for x
    using that by (simp_all add: slot_occupied_def commit_entry_def append_text_def)
  have entry: "entry_text ?edb facts x = entry_text edb facts x" if "x \<noteq> slot" "x < slots edb" "slot_occupied edb x" for x
  proof (cases "ie_index edb ! x < INPUT_PENDING_BASE")
    case True
    then have at: "stored_at stored (ie_index edb ! x - 1) (entry_text edb facts x)" using entries_committed[OF entries] that by blast
    then show ?thesis
      using True same(1)[OF that(1)] stored_text_from(1)[OF stored_at_append[OF at] ar(2) new] by (simp add: entry_text_def)
  next
    case False
    then show ?thesis using same(1)[OF that(1)] by (simp add: entry_text_def)
  qed
  show "x < slots edb \<Longrightarrow> table_of ?edb facts x = table_of edb facts x"
    using here same entry slot(3) by (cases "x = slot") (simp_all add: table_of_def)
  show "entries_ok ?edb facts (stored @ [s])"
    unfolding entries_ok_def size
  proof (intro allI impI)
    fix x assume x: "x < slots edb" "slot_occupied ?edb x"
    show "if ie_index ?edb ! x < INPUT_PENDING_BASE then stored_at (stored @ [s]) (ie_index ?edb ! x - 1) (entry_text ?edb facts x)
      else entry_text ?edb facts x \<notin> set (stored @ [s])"
    proof (cases "x = slot")
      case True
      then show ?thesis using here slot(4) off stored_at_last[of stored s] by simp
    next
      case False
      then have occ: "slot_occupied edb x" using x same by simp
      moreover have "entry_text edb facts x \<noteq> s" using once[OF x(1)] False occ by (auto simp: table_of_def)
      ultimately show ?thesis
        using entries x(1) False same entry[OF False x(1)] stored_at_append[of stored _ _ "[s]"] by (auto simp: entries_ok_def)
    qed
  qed
qed

interpretation indexed: copying indexed_copy
proof
  fix e facts strs stored edb cache s
  assume K: "indexed_copy e facts strs stored edb cache" and s: "s \<in> set strs"
  note parts = K[unfolded indexed_copy_def]
  have idx: "index_ok edb facts strs" and size: "slots edb = slots e" and ne: "ie_index edb \<noteq> []" using parts by auto
  have pre: "cache_ok (slots edb) (table_of edb facts) cache" using parts by simp
  obtain slot cache' d where found: "cached_slot edb s facts cache = Some (slot, cache')" "slot < slots edb"
    "slot = cell_of (slots edb) s d" "stops (slots edb) (table_of edb facts) s d"
    "table_of edb facts slot = None \<longleftrightarrow> s \<notin> set strs" "cache_ok (slots edb) ((table_of edb facts)(slot := Some s)) cache'"
    using cached_slot_finds[OF idx pre, of s] by (elim exE conjE) (rule that)
  have here: "table_of edb facts slot = Some s" using found(3,4,5) s by (auto simp: stops_def)
  then have cache': "cache_ok (slots edb) (table_of edb facts) cache'" using found(6) by (simp add: fun_upd_idem)
  have occ: "slot_occupied edb slot" "entry_text edb facts slot = s" using here by (auto simp: table_of_def split: if_splits)
  show "\<exists>offset edb' cache'. stored_text edb s facts cache = Some (offset, edb', cache') \<and>
      indexed_copy e facts strs (add_text stored s) edb' cache' \<and> stored_at (add_text stored s) offset s"
  proof (cases "ie_index edb ! slot < INPUT_PENDING_BASE")
    case True
    then have at: "stored_at stored (ie_index edb ! slot - 1) s" using entries_committed[of edb facts stored slot] parts occ found(2) True by metis
    then have "add_text stored s = stored" using stored_at_exists by (auto simp: add_text_def)
    then show ?thesis using True at found(1) ne parts cache' size by (auto simp: stored_text_def indexed_copy_def)
  next
    case False
    then have new: "s \<notin> set stored" using entries_pending[of edb facts stored slot] parts occ found(2) by metis
    have frame: "edb = e\<lparr>ie_index := ie_index edb, ie_generations := ie_generations edb, ie_text := arena stored\<rparr>" using parts by blast
    have ar: "ie_text edb = arena stored" by (subst frame) simp
    have "text_size (stored @ [s]) \<le> text_size strs" using parts s new by (intro text_size_subset) auto
    then have below: "length (ie_text edb) + 1 < INPUT_PENDING_BASE"
      using parts ar by (simp add: arena_length text_size_append INPUT_PENDING_BASE_def)
    have once: "x < slots edb \<Longrightarrow> table_of edb facts x = Some s \<Longrightarrow> x = slot" for x
      using placed_once[of "slots edb" "table_of edb facts" x slot s] idx found(2) here by (simp add: index_ok_def)
    have c: "c_texts (stored @ [s])" using parts s by (auto simp: c_texts_def)
    have gens: "length (ie_generations edb) = slots edb" using idx by (simp add: index_ok_def)
    note keeps = commit_entry_keeps[OF ar c new found(2) gens here below _ once]
    have entries: "entries_ok edb facts stored" using parts by blast
    let ?edb = "commit_entry slot s edb"
    have size': "slots ?edb = slots edb" by (simp add: commit_entry_def append_text_def)
    have "stored_text edb s facts cache = Some (text_size stored, ?edb, cache')"
      using False found(1) ne ar by (simp add: stored_text_def commit_entry_def arena_length)
    moreover have "indexed_copy e facts strs (stored @ [s]) ?edb cache'"
    proof -
      have "placed (slots edb) (table_of ?edb facts) = placed (slots edb) (table_of edb facts)"
        "holds (slots edb) (table_of ?edb facts) = holds (slots edb) (table_of edb facts)"
        using table_cong[of "slots edb" "table_of ?edb facts" "table_of edb facts"] keeps(1)[OF entries] ne by auto
      then have "index_ok ?edb facts strs" using idx size' gens by (simp add: index_ok_def commit_entry_def append_text_def)
      moreover have "cache_ok (slots e) (table_of ?edb facts) cache'"
        using cache' keeps(1)[OF entries] size unfolding cache_ok_def by metis
      moreover have "?edb = e\<lparr>ie_index := ie_index ?edb, ie_generations := ie_generations ?edb, ie_text := arena (stored @ [s])\<rparr>"
        using keeps(3)[OF entries] unfolding commit_entry_def append_text_def by (subst (1) frame) simp
      moreover have "\<forall>x < slots e. ie_generations ?edb ! x \<le> ie_generation e"
      proof -
        have "ie_generation edb = ie_generation e" by (subst frame) simp
        moreover have "\<forall>x < slots e. ie_generations edb ! x \<le> ie_generation e" using parts by blast
        ultimately show ?thesis using gens size found(2)
          by (simp add: commit_entry_def append_text_def nth_list_update)
      qed
      ultimately show ?thesis using parts keeps(2)[OF entries] s new size size' by (simp add: indexed_copy_def)
    qed
    ultimately show ?thesis using new stored_at_last[of stored s] by (auto simp: add_text_def)
  qed
qed

end
