(* ===== verification/Input_Refine.thy ===== *)
theory Input_Refine
  imports Input_Store
begin

unbundle bit_operations_syntax

text \<open>
  The append of the input store refines the append of the log; clearing it empties the log, whatever the generation
  counter does; and every store comes from an initialised one.
\<close>

section \<open>Starting an append\<close>

lemma view_texts_length:
  assumes "base_ok e" shows "length (log_of e) \<le> INPUT_STRINGS_PER_FACT * length (ie_facts e)"
proof -
  have vt: "length (value_texts vs) \<le> length vs" for vs by (induction vs rule: value_texts.induct) auto
  have small: "length (fact_texts (map_input_fact (text_from e) f)) \<le> 5" if "f \<in> set (ie_facts e)" for f
  proof -
    have "length (fact_terms f) \<le> MAX_TERMS" using assms that by (auto simp: base_ok_def list_all_iff)
    then show ?thesis using vt[of "fact_terms (map_input_fact (text_from e) f)"]
      by (cases f) (simp add: fact_texts_def MAX_TERMS_def)
  qed
  have sum: "(\<And>f. f \<in> set fs \<Longrightarrow> length (g f) \<le> 5) \<Longrightarrow> length (concat (map g fs)) \<le> 5 * length fs" for fs and g :: "nat input_fact \<Rightarrow> string list"
    by (induction fs) fastforce+
  have "length (concat (map (\<lambda>f. fact_texts (map_input_fact (text_from e) f)) (ie_facts e))) \<le> 5 * length (ie_facts e)"
    by (rule sum) (rule small)
  then have "length (concat (map fact_texts (input_edb_view e))) \<le> 5 * length (ie_facts e)"
    by (simp add: input_edb_view_def comp_def)
  then show ?thesis using notes_length[of "[]" "concat (map fact_texts (input_edb_view e))"]
    by (simp add: log_of_def log_texts_def strings_per_fact)
qed

lemma log_distinct: "distinct (log_of e)"
  by (simp add: log_of_def log_texts_def notes_distinct)

lemma rest_table: "rest_ok e \<Longrightarrow> slot < slots e \<Longrightarrow> entry_text e facts slot = entry_text e [] slot"
  by (simp add: rest_ok_def entry_text_def)

definition first_measurement :: "input_edb \<Rightarrow> measurement" where
  "first_measurement e = \<lparr>ms_edb = e, ms_remaining = ie_text_capacity e - length (ie_text e), ms_pending_count = 0, ms_cache = recent_cache e\<rparr>"

lemma linear_start:
  assumes "input_inv e" "ie_index e = []"
  shows "linear_measure e facts 0 None (first_measurement e) (log_of e)"
  using assms by (auto simp: linear_measure_def first_measurement_def input_inv_def base_ok_def arena_length prefix_has_text_def)

lemma indexed_start:
  assumes inv: "input_inv e" and idx: "ie_index e \<noteq> []" and batch: "batch_ok facts"
    and fits: "length facts + length (ie_facts e) \<le> ie_capacity e"
  shows "indexed_measure e facts 0 None (first_measurement e) (log_of e)"
proof -
  have rest: "rest_ok e" and base: "base_ok e" using inv idx by (simp_all add: input_inv_def)
  have tab: "slot < slots e \<Longrightarrow> table_of e facts slot = table_of e [] slot" for slot
    using rest_table[OF rest, of slot facts] by (simp add: table_of_def)
  have "index_ok e facts (log_of e)"
    using rest idx table_cong[OF _ tab] by (simp add: rest_ok_def index_ok_def)
  moreover have "entries_ok e facts (log_of e)"
    unfolding entries_ok_def
  proof (intro allI impI)
    fix slot assume slot: "slot < slots e" "slot_occupied e slot"
    then have "stored_at (log_of e) (ie_index e ! slot - 1) (entry_text e [] slot)" "ie_index e ! slot < INPUT_PENDING_BASE"
      using rest unfolding rest_ok_def by blast+
    then show "if ie_index e ! slot < INPUT_PENDING_BASE then stored_at (log_of e) (ie_index e ! slot - 1) (entry_text e facts slot)
      else entry_text e facts slot \<notin> set (log_of e)" using rest_table[OF rest slot(1), of facts] by simp
  qed
  moreover have "journal_ok e facts (ordinal_of 0 None) (first_measurement e)"
    using rest by (simp add: journal_ok_def first_measurement_def ordinal_of_def rest_ok_def)
  moreover have "texts_ok e (ordinal_of 0 None) (first_measurement e) (log_of e)"
    using base log_distinct view_texts_length[OF base]
    by (simp add: texts_ok_def first_measurement_def ordinal_of_def base_ok_def arena_length)
  moreover have "cache_ok (slots e) (table_of e facts) (recent_cache e)"
  proof -
    have r: "length (ie_recent e) = 2" "r \<in> set (ie_recent e) \<Longrightarrow> r \<noteq> 0 \<Longrightarrow> r - 1 < slots e \<and> slot_occupied e (r - 1)" for r
      using rest by (simp_all add: rest_ok_def)
    have "table_of e facts (r - 1) = Some (entry_text e [] (r - 1))" if "r \<in> set (ie_recent e)" "r \<noteq> 0" for r
      using r(2)[OF that] rest_table[OF rest, of "r - 1" facts] by (simp add: table_of_def)
    then show ?thesis using r by (auto simp: cache_ok_def recent_cache_def)
  qed
  ultimately show ?thesis using idx rest batch fits by (simp add: indexed_measure_def first_measurement_def)
qed

section \<open>Ending an append\<close>

lemma rel_view:
  assumes "rel_input_fact (stored_at strs) f g" "c_texts strs" "ie_text edb = arena strs"
  shows "map_input_fact (text_from edb) f = g"
proof -
  have one: "rel_value (stored_at strs) v w \<Longrightarrow> map_value (text_from edb) v = w" for v w
    using stored_text_from(1)[OF _ assms(2,3)] by (cases v; cases w) auto
  have "map (map_value (text_from edb)) vs = ws" if "list_all2 (rel_value (stored_at strs)) vs ws" for vs ws
    using that by (induction rule: list_all2_induct) (simp_all add: one)
  then show ?thesis using assms(1) stored_text_from(1)[OF _ assms(2,3)] by (cases f; cases g) auto
qed

lemma rel_views:
  "list_all2 (rel_input_fact (stored_at strs)) fs gs \<Longrightarrow> c_texts strs \<Longrightarrow> ie_text edb = arena strs \<Longrightarrow>
   map (map_input_fact (text_from edb)) fs = gs"
  by (induction rule: list_all2_induct) (simp_all add: rel_view)

lemma rel_facts_grow:
  "list_all2 (rel_input_fact (stored_at strs)) fs gs \<Longrightarrow> list_all2 (rel_input_fact (stored_at (strs @ tail))) fs gs"
  using input_fact.rel_mono[of "stored_at strs" "stored_at (strs @ tail)"] stored_at_append
  by (auto simp: le_fun_def elim!: list_all2_mono)

lemma admit_facts_shape:
  "admit_facts room strs fs = Inr strs' \<Longrightarrow> f \<in> set fs \<Longrightarrow>
   fact_predicate f \<noteq> None \<and> VALUE_SYMBOL None \<notin> set (fact_terms f) \<and> length (fact_terms f) \<le> MAX_TERMS"
proof (induction fs arbitrary: strs)
  case (Cons g fs)
  have terms: "admit_terms room a ts = Inr b \<Longrightarrow> VALUE_SYMBOL None \<notin> set ts" for a b ts
  proof (induction ts arbitrary: a)
    case (Cons t ts)
    then show ?case by (cases t) (auto simp: admit_text_def split: sum.splits)
  qed simp
  show ?case using Cons terms by (auto split: if_splits sum.splits dest!: admit_text_notes)
qed simp

lemma admit_facts_size: "admit_facts room strs fs = Inr strs' \<Longrightarrow> text_size strs \<le> room \<Longrightarrow> text_size strs' \<le> room"
proof (induction fs arbitrary: strs)
  case (Cons f fs)
  have terms: "admit_terms room a ts = Inr b \<Longrightarrow> text_size a \<le> room \<Longrightarrow> text_size b \<le> room" for a b ts
  proof (induction ts arbitrary: a)
    case (Cons t ts)
    then show ?case by (cases t) (auto split: sum.splits dest: admit_text_size)
  qed simp
  show ?case using Cons terms by (auto split: if_splits sum.splits dest: admit_text_size)
qed simp

text \<open>The strings admitted with a batch.\<close>

lemma admitted_texts:
  assumes "admit_facts room (log_of e) facts = Inr strs" "base_ok e" "batch_ok facts" "room = ie_text_capacity e"
  shows "strs = foldl add_text (log_of e) (concat (map fact_texts (map host_view facts)))" "c_texts strs" "distinct strs"
    "text_size strs \<le> ie_text_capacity e" "set (log_of e) \<subseteq> set strs"
    "set (concat (map fact_texts (map host_view facts))) \<subseteq> set strs" "\<exists>tail. strs = log_of e @ tail"
proof -
  show strs: "strs = foldl add_text (log_of e) (concat (map fact_texts (map host_view facts)))" by (rule admit_facts_notes[OF assms(1)])
  have set_strs: "set strs = set (log_of e) \<union> set (concat (map fact_texts (map host_view facts)))" unfolding strs by (rule notes_set)
  then show "c_texts strs" using assms(2,3) by (auto simp: c_texts_def batch_ok_def base_ok_def)
  show "distinct strs" unfolding strs notes_distinct by (rule log_distinct)
  show "text_size strs \<le> ie_text_capacity e" using admit_facts_size[OF assms(1)] assms(2,4) by (simp add: base_ok_def)
  show "set (log_of e) \<subseteq> set strs" "set (concat (map fact_texts (map host_view facts))) \<subseteq> set strs" using set_strs by auto
  show "\<exists>tail. strs = log_of e @ tail" unfolding strs by (rule notes_extend)
qed

lemma append_view:
  assumes e: "base_ok e" and batch: "batch_ok facts" and admit: "admit_facts (ie_text_capacity e) (log_of e) facts = Inr strs"
    and fits: "length facts + length (ie_facts e) \<le> ie_capacity e"
    and f: "ie_facts f = ie_facts e @ gs" "ie_text f = arena strs" "ie_capacity f = ie_capacity e" "ie_text_capacity f = ie_text_capacity e"
    and rel: "list_all2 (rel_input_fact (stored_at strs)) gs (map host_view facts)"
  shows "input_edb_view f = input_edb_view e @ map host_view facts" "log_of f = strs" "base_ok f"
proof -
  note strs = admitted_texts[OF admit e batch refl]
  have old: "list_all2 (rel_input_fact (stored_at strs)) (ie_facts e) (input_edb_view e)"
    using e strs(7) rel_facts_grow[of "log_of e"] by (auto simp: base_ok_def)
  then show view: "input_edb_view f = input_edb_view e @ map host_view facts"
    using rel_views[OF _ strs(2) f(2)] rel f(1) by (simp add: input_edb_view_def)
  show log: "log_of f = strs" using strs(1) by (simp add: log_of_def view log_texts_append)
  have len: "length gs = length facts" using list_all2_lengthD[OF rel] by simp
  have "length (fact_terms g) \<le> MAX_TERMS" if g: "g \<in> set gs" for g
  proof -
    obtain i where i: "i < length gs" "gs ! i = g" using g by (auto simp: in_set_conv_nth)
    then have "rel_input_fact (stored_at strs) g (host_view (facts ! i))" using rel len by (auto simp: list_all2_conv_all_nth)
    then have "length (fact_terms g) = length (fact_terms (facts ! i))" by (cases g) (auto simp: host_view_def dest: list_all2_lengthD)
    then show ?thesis using admit_facts_shape[OF admit] i(1) len by simp
  qed
  then show "base_ok f"
    using e fits f strs old rel len by (auto simp: base_ok_def log view list_all_iff intro!: list_all2_appendI)
qed

lemma linear_copy_start:
  "linear_measure e facts i j ms strs' \<Longrightarrow> admit_facts (ie_text_capacity e) (log_of e) facts = Inr strs \<Longrightarrow> batch_ok facts \<Longrightarrow>
   linear_copy e facts strs (log_of e) (ms_edb ms) (ms_cache ms)"
  using admitted_texts[of "ie_text_capacity e" e facts strs] by (auto simp: linear_copy_def linear_measure_def base_ok_def)

lemma indexed_copy_start:
  assumes R: "indexed_measure e facts i j ms strs" and base: "base_ok e" and admit: "admit_facts (ie_text_capacity e) (log_of e) facts = Inr strs"
  shows "indexed_copy (ms_edb ms) facts strs (log_of e) (ms_edb ms) (ms_cache ms)"
proof -
  note parts = R[unfolded indexed_measure_def]
  have frame: "ms_edb ms = e\<lparr>ie_index := ie_index (ms_edb ms), ie_pending := ie_pending (ms_edb ms)\<rparr>" "slots (ms_edb ms) = slots e"
    using parts by (simp_all add: journal_ok_def)
  have same: "ie_text (ms_edb ms) = arena (log_of e)" "ie_generations (ms_edb ms) = ie_generations e" "ie_generation (ms_edb ms) = ie_generation e"
    using base by (subst frame(1); simp add: base_ok_def)+
  have "ie_index (ms_edb ms) \<noteq> []" using parts frame(2) by auto
  moreover have "\<forall>slot < slots e. ie_generations e ! slot \<le> ie_generation e" using parts by (simp add: rest_ok_def)
  moreover have "text_size strs \<le> INPUT_EDB_TEXT_BYTES"
    using base admit_facts_size[OF admit] by (simp add: base_ok_def)
  moreover have "ms_edb ms = (ms_edb ms)\<lparr>ie_text := arena (log_of e)\<rparr>" unfolding same(1)[symmetric] by simp
  ultimately show ?thesis
    using parts same frame(2) log_distinct by (simp add: indexed_copy_def texts_ok_def)
qed

text \<open>When every admitted string is copied, nothing is pending and the index is at rest.\<close>

lemma indexed_end:
  assumes K: "indexed_copy e1 facts strs strs edb cache"
    and f: "ie_index f = ie_index edb" "ie_generations f = ie_generations edb" "ie_generation f = ie_generation e1" "ie_text f = ie_text edb"
      "ie_recent f = cache_recent cache" "log_of f = strs" "ie_pending f = replicate (bound_of f) 0"
    and bounds: "0 < bound_of f" "2 * bound_of f \<le> slots e1" "1 \<le> ie_generation e1" "ie_generation e1 \<le> 255"
  shows "rest_ok f"
proof -
  note parts = K[unfolded indexed_copy_def]
  have frame: "edb = e1\<lparr>ie_index := ie_index edb, ie_generations := ie_generations edb, ie_text := arena strs\<rparr>" using parts by blast
  have gen: "ie_generation edb = ie_generation e1" by (subst frame) simp
  have size: "slots edb = slots e1" using parts by blast
  have idx: "index_ok edb facts strs" and gens: "\<forall>slot < slots e1. ie_generations edb ! slot \<le> ie_generation e1"
    and ne: "0 < slots edb" and cache: "cache_ok (slots e1) (table_of edb facts) cache" and entries: "entries_ok edb facts strs"
    using parts by auto
  have occ: "slot_occupied f x = slot_occupied edb x" for x using f gen by (simp add: slot_occupied_def)
  have committed: "ie_index edb ! x < INPUT_PENDING_BASE" if x: "x < slots edb" for x
  proof (rule ccontr)
    assume pend: "\<not> ie_index edb ! x < INPUT_PENDING_BASE"
    then have o: "slot_occupied edb x" by (simp add: slot_occupied_def)
    then have "entry_text edb facts x \<in> holds (slots edb) (table_of edb facts)" using x by (auto simp: holds_def table_of_def)
    then have "entry_text edb facts x \<in> set strs" using idx unfolding index_ok_def by blast
    then show False using entries_pending[OF entries x o pend] by blast
  qed
  have entry: "entry_text f [] x = entry_text edb facts x" if "x < slots edb" for x
    using committed[OF that] f(1,4) by (simp add: entry_text_def text_from_def)
  have tab: "table_of f [] x = table_of edb facts x" if "x < slots edb" for x
    using entry[OF that] occ by (simp add: table_of_def)
  have "index_ok f [] strs"
    using idx table_cong[OF ne tab] f(1,2) by (simp add: index_ok_def)
  moreover have "stored_at strs (ie_index f ! x - 1) (entry_text f [] x)" if "x < slots f" "slot_occupied f x" for x
  proof -
    have x: "x < slots edb" "slot_occupied edb x" using that f(1) occ by simp_all
    then show ?thesis using entries_committed[OF entries x committed[OF x(1)]] entry[OF x(1)] f(1) by simp
  qed
  moreover have "length (cache_recent cache) = 2 \<and> (\<forall>r\<in>set (cache_recent cache). r \<noteq> 0 \<longrightarrow> r - 1 < slots f \<and> slot_occupied f (r - 1))"
  proof -
    have c: "length (lk_keys cache) = 2" "length (lk_slots cache) = 2"
      "\<And>i s. i < 2 \<Longrightarrow> lk_keys cache ! i = Some s \<Longrightarrow> lk_slots cache ! i < slots e1 \<and> table_of edb facts (lk_slots cache ! i) = Some s"
      using cache by (simp_all add: cache_ok_def)
    have "r - 1 < slots f \<and> slot_occupied f (r - 1)" if r: "r \<in> set (cache_recent cache)" "r \<noteq> 0" for r
    proof -
      obtain i where i: "i < 2" "r = (if lk_keys cache ! i = None then 0 else lk_slots cache ! i + 1)"
        using r(1) c(1,2) by (auto simp: cache_recent_def in_set_conv_nth)
      then obtain s where "lk_keys cache ! i = Some s" "r = lk_slots cache ! i + 1" using r(2) by (auto split: if_splits)
      then show ?thesis using c(3)[OF i(1)] occ f(1) size by (auto simp: table_of_def split: if_splits)
    qed
    then show ?thesis using c by (simp add: cache_recent_def)
  qed
  ultimately show ?thesis
    using gens committed f bounds size by (simp add: rest_ok_def)
qed

lemma strings_bound:
  assumes "distinct strs" "text_size strs \<le> ie_text_capacity e" "length strs \<le> INPUT_STRINGS_PER_FACT * ie_capacity e"
  shows "length strs \<le> bound_of e"
  using distinct_text_count[OF assms(1,2)] assms(3) by (simp add: bound_of_def input_distinct_bound_def Let_def mult.commute)

lemma journal_cleared:
  assumes "\<And>c. n \<le> c \<Longrightarrow> c < length pd \<Longrightarrow> pd ! c = 0" "n \<le> length pd"
  shows "replicate n 0 @ drop n pd = replicate (length pd) (0 :: nat)"
  using assms by (intro nth_equalityI) (auto simp: nth_append)

section \<open>The append\<close>

definition appended :: "input_edb \<Rightarrow> host_fact list \<Rightarrow> input_edb \<Rightarrow> bool" where
  "appended e facts f \<longleftrightarrow> input_inv f \<and> input_edb_view f = input_edb_view e @ map host_view facts \<and>
     ie_capacity f = ie_capacity e \<and> ie_text_capacity f = ie_text_capacity e"

definition published :: "nat \<Rightarrow> nat input_fact list \<times> input_edb \<times> input_lookup \<Rightarrow> input_edb" where
  "published n = (\<lambda>(stored, edb, cache). edb\<lparr>ie_facts := ie_facts edb @ stored,
     ie_pending := replicate n 0 @ drop n (ie_pending edb), ie_recent := cache_recent cache\<rparr>)"

lemma linear_append:
  assumes R: "linear_measure e facts i j ms strs'" and inv: "input_inv e" and batch: "batch_ok facts"
    and fits: "length facts + length (ie_facts e) \<le> ie_capacity e"
    and admit: "admit_facts (ie_text_capacity e) (log_of e) facts = Inr strs"
  shows "\<exists>out. store_facts facts facts (ms_edb ms) (ms_cache ms) = Some out \<and> appended e facts (published n out)"
proof -
  have base: "base_ok e" using inv by (simp add: input_inv_def)
  note strs = admitted_texts[OF admit base batch refl]
  obtain gs edb cache where out: "store_facts facts facts (ms_edb ms) (ms_cache ms) = Some (gs, edb, cache)"
      "linear_copy e facts strs strs edb cache" "list_all2 (rel_input_fact (stored_at strs)) gs (map host_view facts)"
    using linear.copied_facts[OF linear_copy_start[OF R admit batch] strs(6)] admit_facts_shape[OF admit] strs(1) by auto
  let ?f = "published n (gs, edb, cache)"
  have f: "ie_facts ?f = ie_facts e @ gs" "ie_text ?f = arena strs" "ie_capacity ?f = ie_capacity e"
    "ie_text_capacity ?f = ie_text_capacity e" "ie_index ?f = []"
    using out(2) by (simp_all add: published_def linear_copy_def)
  note view = append_view[OF base batch admit fits f(1-4) out(3)]
  then have "appended e facts ?f" using f by (simp add: appended_def input_inv_def)
  then show ?thesis using out(1) by blast
qed

lemma indexed_append:
  assumes R: "indexed_measure e facts (length facts) None ms strs" and inv: "input_inv e" and batch: "batch_ok facts"
    and fits: "length facts + length (ie_facts e) \<le> ie_capacity e"
    and admit: "admit_facts (ie_text_capacity e) (log_of e) facts = Inr strs"
  shows "\<exists>out. store_facts facts facts (ms_edb ms) (ms_cache ms) = Some out \<and> appended e facts (published (ms_pending_count ms) out)"
proof -
  have base: "base_ok e" using inv by (simp add: input_inv_def)
  note strs = admitted_texts[OF admit base batch refl] and parts = R[unfolded indexed_measure_def]
  obtain gs edb cache where out: "store_facts facts facts (ms_edb ms) (ms_cache ms) = Some (gs, edb, cache)"
      "indexed_copy (ms_edb ms) facts strs strs edb cache" "list_all2 (rel_input_fact (stored_at strs)) gs (map host_view facts)"
    using indexed.copied_facts[OF indexed_copy_start[OF R base admit] strs(6)] admit_facts_shape[OF admit] strs(1) by auto
  let ?f = "published (ms_pending_count ms) (gs, edb, cache)"
  have frame1: "ms_edb ms = e\<lparr>ie_index := ie_index (ms_edb ms), ie_pending := ie_pending (ms_edb ms)\<rparr>"
    and pend: "length (ie_pending (ms_edb ms)) = bound_of e" "slots (ms_edb ms) = slots e"
      "\<And>c. ms_pending_count ms \<le> c \<Longrightarrow> c < bound_of e \<Longrightarrow> ie_pending (ms_edb ms) ! c = 0"
    using parts by (simp_all add: journal_ok_def)
  have frame2: "edb = (ms_edb ms)\<lparr>ie_index := ie_index edb, ie_generations := ie_generations edb, ie_text := arena strs\<rparr>"
    using out(2) unfolding indexed_copy_def by blast
  have same1: "ie_facts (ms_edb ms) = ie_facts e" "ie_capacity (ms_edb ms) = ie_capacity e" "ie_text_capacity (ms_edb ms) = ie_text_capacity e"
    "ie_generation (ms_edb ms) = ie_generation e" by (subst frame1; simp)+
  have same2: "ie_facts edb = ie_facts (ms_edb ms)" "ie_capacity edb = ie_capacity (ms_edb ms)"
    "ie_text_capacity edb = ie_text_capacity (ms_edb ms)" "ie_pending edb = ie_pending (ms_edb ms)" "ie_text edb = arena strs"
    "ie_generation edb = ie_generation (ms_edb ms)"
    by (subst frame2; simp)+
  have f: "ie_facts ?f = ie_facts e @ gs" "ie_text ?f = arena strs" "ie_capacity ?f = ie_capacity e" "ie_text_capacity ?f = ie_text_capacity e"
    using same1 same2 by (simp_all add: published_def)
  note view = append_view[OF base batch admit fits f out(3)]
  have bound: "bound_of ?f = bound_of e" using f by (simp add: bound_of_def)
  have "length strs \<le> 5 * length (ie_facts e) + 5 * length facts"
    using parts by (simp add: texts_ok_def ordinal_of_def strings_per_fact)
  then have "length strs \<le> bound_of e" using strings_bound[OF strs(3,4)] fits by (simp add: strings_per_fact)
  then have "ms_pending_count ms \<le> bound_of e" using parts by (simp add: texts_ok_def)
  then have cleared: "ie_pending ?f = replicate (bound_of ?f) 0"
    using journal_cleared[of "ms_pending_count ms" "ie_pending (ms_edb ms)"] pend same2(4) unfolding bound by (simp add: published_def)
  have g: "ie_index ?f = ie_index edb" "ie_generations ?f = ie_generations edb" "ie_generation ?f = ie_generation (ms_edb ms)"
    "ie_text ?f = ie_text edb" "ie_recent ?f = cache_recent cache" using same2 by (simp_all add: published_def)
  have "0 < bound_of ?f" "2 * bound_of ?f \<le> slots (ms_edb ms)" "1 \<le> ie_generation (ms_edb ms)" "ie_generation (ms_edb ms) \<le> 255"
    using parts pend(2) same1(4) unfolding bound by (simp_all add: rest_ok_def)
  then have "rest_ok ?f" by (rule indexed_end[OF out(2) g view(2) cleared])
  then have "appended e facts ?f" using view f by (simp add: appended_def input_inv_def)
  then show ?thesis using out(1) by blast
qed

lemma add_facts_cases:
  assumes "facts \<noteq> []" "length facts \<le> ie_capacity e - length (ie_facts e)"
  shows "input_edb_add_facts e facts =
    (case measure_facts facts 0 facts (first_measurement e) of
       None \<Rightarrow> None
     | Some (rc, stop, ms) \<Rightarrow>
         if rc \<noteq> STATUS_OK then map_option (\<lambda>edb. (rc, edb)) (discard_pending (ms_edb ms) facts stop (ms_pending_count ms))
         else map_option (\<lambda>out. (STATUS_OK, published (ms_pending_count ms) out)) (store_facts facts facts (ms_edb ms) (ms_cache ms)))"
  using assms by (simp add: input_edb_add_facts_def first_measurement_def published_def case_prod_unfold split: option.split)

lemma append_outcome:
  assumes inv: "input_inv e" and batch: "batch_ok facts" and ne: "facts \<noteq> []"
    and fits: "length facts \<le> ie_capacity e - length (ie_facts e)"
  shows "case admit_facts (ie_text_capacity e) (log_of e) facts of
      Inl rc \<Rightarrow> rc \<noteq> STATUS_OK \<and> input_edb_add_facts e facts = Some (rc, e)
    | Inr strs \<Rightarrow> \<exists>f. input_edb_add_facts e facts = Some (STATUS_OK, f) \<and> appended e facts f"
proof -
  have fits': "length facts + length (ie_facts e) \<le> ie_capacity e" 
  proof -
    have "length (ie_facts e) \<le> ie_capacity e" using inv by (simp add: input_inv_def base_ok_def)
    then show ?thesis using fits by linarith
  qed
  note cases = add_facts_cases[OF ne fits]
  show ?thesis
  proof (cases "ie_index e = []")
    case True
    note m = linear.measured_facts[OF linear_start[OF inv True], of facts "[]" facts]
    show ?thesis
    proof (cases "admit_facts (ie_text_capacity e) (log_of e) facts")
      case (Inl rc)
      then show ?thesis using m cases by auto
    next
      case (Inr strs)
      then obtain stop ms where "measure_facts facts 0 facts (first_measurement e) = Some (STATUS_OK, stop, ms)"
        "linear_measure e facts (length facts) None ms strs" using m by auto
      then show ?thesis using linear_append[OF _ inv batch fits' Inr] cases Inr by fastforce
    qed
  next
    case False
    note m = indexed.measured_facts[OF indexed_start[OF inv False batch fits'], of "[]" facts]
    show ?thesis
    proof (cases "admit_facts (ie_text_capacity e) (log_of e) facts")
      case (Inl rc)
      then show ?thesis using m cases by auto
    next
      case (Inr strs)
      then obtain stop ms where "measure_facts facts 0 facts (first_measurement e) = Some (STATUS_OK, stop, ms)"
        "indexed_measure e facts (length facts) None ms strs" using m by auto
      then show ?thesis using indexed_append[OF _ inv batch fits' Inr] cases Inr by fastforce
    qed
  qed
qed

lemma view_length: "length (input_edb_view e) = length (ie_facts e)"
  by (simp add: input_edb_view_def)

lemma append_refines:
  assumes "input_inv e" "batch_ok facts"
  shows "\<exists>rc f. input_edb_add_facts e facts = Some (rc, f) \<and>
    (rc, input_edb_view f) = log_add (ie_capacity e) (ie_text_capacity e) (input_edb_view e) facts \<and>
    (rc \<noteq> STATUS_OK \<longrightarrow> f = e) \<and> input_inv f \<and> ie_capacity f = ie_capacity e \<and> ie_text_capacity f = ie_text_capacity e"
proof (cases "length facts \<le> ie_capacity e - length (ie_facts e) \<and> facts \<noteq> []")
  case True
  then show ?thesis
    using append_outcome[OF assms] assms(1)
    by (cases "admit_facts (ie_text_capacity e) (log_of e) facts") (auto simp: log_add_def log_of_def view_length appended_def)
next
  case False
  then show ?thesis using assms(1) by (auto simp: input_edb_add_facts_def log_add_def view_length)
qed

section \<open>Clearing and initialising\<close>

lemma empty_log: "ie_facts e = [] \<Longrightarrow> log_of e = []"
  by (simp add: log_of_def log_texts_def input_edb_view_def)

lemma empty_base: "ie_facts e = [] \<Longrightarrow> ie_text e = [] \<Longrightarrow> ie_text_capacity e \<le> INPUT_EDB_TEXT_BYTES \<Longrightarrow> base_ok e"
  by (simp add: base_ok_def empty_log arena_def c_texts_def text_size_def input_edb_view_def)

text \<open>An index without an occupied slot is at rest.\<close>

lemma empty_rest:
  assumes "ie_facts e = []" "\<exists>k. slots e = 2 ^ k" "length (ie_generations e) = slots e"
    "\<forall>slot < slots e. ie_index e ! slot < INPUT_PENDING_BASE \<and> \<not> slot_occupied e slot \<and> ie_generations e ! slot \<le> ie_generation e"
    "1 \<le> ie_generation e" "ie_generation e \<le> 255" "ie_pending e = replicate (bound_of e) 0" "0 < bound_of e" "2 * bound_of e \<le> slots e"
    "ie_recent e = [0, 0]"
  shows "rest_ok e"
proof -
  have "\<forall>slot < slots e. table_of e [] slot = None" using assms(4) by (simp add: table_of_def)
  then have "placed (slots e) (table_of e [])" "holds (slots e) (table_of e []) = {}" by (auto simp: placed_def holds_def)
  then have "index_ok e [] (log_of e)" using assms by (auto simp: index_ok_def empty_log)
  then show ?thesis using assms by (simp add: rest_ok_def)
qed

lemma slots_from_power:
  "m = 2 ^ k \<Longrightarrow> (\<exists>k'. slots_from b m = 2 ^ k') \<and> 2 * b \<le> slots_from b m"
proof (induction b m arbitrary: k rule: slots_from.induct)
  case (1 b m)
  show ?case
  proof (cases "m < 2 * b")
    case True
    have double: "m * 2 = 2 ^ Suc k" and pos: "0 < m" using 1(2) by simp_all
    have "slots_from b m = slots_from b (m * 2)" using True pos by (subst slots_from.simps) simp
    then show ?thesis using 1(1)[OF _ double] True pos by presburger
  next
    case False
    then have "slots_from b m = m" by (subst slots_from.simps) simp
    then show ?thesis using 1(2) False by auto
  qed
qed

lemma init_inv: "input_edb_init capacity text_capacity = Inr e \<Longrightarrow> input_inv e \<and> input_edb_view e = []"
proof -
  assume init: "input_edb_init capacity text_capacity = Inr e"
  let ?b = "input_distinct_bound capacity text_capacity" and ?n = "input_index_slots capacity text_capacity"
  have e: "e = \<lparr>ie_facts = [], ie_capacity = capacity, ie_text = [], ie_text_capacity = text_capacity, ie_index = replicate ?n 0,
      ie_pending = replicate (if ?n = 0 then 0 else ?b) 0, ie_generations = replicate ?n 0,
      ie_generation = (if ?n = 0 then 0 else 1), ie_recent = [0, 0]\<rparr>" and cap: "text_capacity \<le> INPUT_EDB_TEXT_BYTES"
    using init by (auto simp: input_edb_init_def Let_def split: if_splits)
  have "rest_ok e" if "ie_index e \<noteq> []"
  proof -
    have n: "?n \<noteq> 0" using that by (simp add: e)
    then have b: "INPUT_INDEX_THRESHOLD \<le> ?b" "?n = slots_from ?b 1" by (auto simp: input_index_slots_def split: if_splits)
    have p: "(\<exists>k. ?n = 2 ^ k) \<and> 2 * ?b \<le> ?n" unfolding b(2) by (rule slots_from_power[of 1 0]) simp
    show ?thesis using n b(1) p
      by (intro empty_rest) (simp_all add: e bound_of_def slot_occupied_def INPUT_PENDING_BASE_def INPUT_INDEX_THRESHOLD_def)
  qed
  moreover have "base_ok e" using cap by (intro empty_base) (simp_all add: e)
  ultimately show ?thesis by (simp add: input_inv_def input_edb_view_def e)
qed

lemma clear_inv: "input_inv e \<Longrightarrow> input_inv (input_edb_clear e) \<and> input_edb_view (input_edb_clear e) = [] \<and>
    ie_capacity (input_edb_clear e) = ie_capacity e \<and> ie_text_capacity (input_edb_clear e) = ie_text_capacity e"
proof -
  assume inv: "input_inv e"
  let ?f = "input_edb_clear e"
  have f: "ie_facts ?f = []" "ie_text ?f = []" "ie_capacity ?f = ie_capacity e" "ie_text_capacity ?f = ie_text_capacity e"
    "ie_index ?f = ie_index e" "ie_pending ?f = ie_pending e" "ie_recent ?f = [0, 0]"
    by (simp_all add: input_edb_clear_def Let_def)
  have "rest_ok ?f" if ne: "ie_index ?f \<noteq> []"
  proof -
    have rest: "rest_ok e" using inv ne f(5) by (simp add: input_inv_def)
    have r: "\<forall>slot < slots e. ie_index e ! slot < INPUT_PENDING_BASE" "\<forall>slot < slots e. ie_generations e ! slot \<le> ie_generation e"
      "1 \<le> ie_generation e" "ie_generation e \<le> 255" "length (ie_generations e) = slots e" using rest by (auto simp: rest_ok_def index_ok_def)
    have gens: "length (ie_generations ?f) = slots e" "\<forall>slot < slots e. ie_generations ?f ! slot < ie_generation ?f"
      "1 \<le> ie_generation ?f" "ie_generation ?f \<le> 255"
      using r ne f(5) by (auto simp: input_edb_clear_def Let_def less_Suc_eq_le)
    have "\<forall>slot < slots e. \<not> slot_occupied ?f slot" using gens(2) r(1) f(5) by (auto simp: slot_occupied_def)
    then show ?thesis using rest r gens f
      by (intro empty_rest) (auto simp: rest_ok_def index_ok_def bound_of_def less_imp_le)
  qed
  moreover have "base_ok ?f" using inv f by (intro empty_base) (auto simp: input_inv_def base_ok_def)
  ultimately show ?thesis using f by (simp add: input_inv_def input_edb_view_def)
qed

end
