(* ===== verification/Input_Runs.thy ===== *)
theory Input_Runs
  imports Input_Refine
begin

text \<open>
  The contract of an input store as an interface: whatever a host does with a store, it sees the statuses and the facts
  of the bounded log. The interface is met by the store of \<^verbatim>\<open>src/runtime/maelys_datalog_input_edb.c\<close>, with and without its
  hash index.
\<close>

section \<open>The interface of a store\<close>

datatype input_op = Append "host_fact list" | Clear

fun op_ok :: "input_op \<Rightarrow> bool" where
  "op_ok (Append facts) = batch_ok facts"
| "op_ok Clear = True"

fun run_log :: "nat \<Rightarrow> nat \<Rightarrow> string input_fact list \<Rightarrow> input_op list \<Rightarrow> status list \<times> string input_fact list" where
  "run_log capacity room log [] = ([], log)"
| "run_log capacity room log (Append facts # ops) =
     (let (rc, log) = log_add capacity room log facts; (rcs, log) = run_log capacity room log ops in (rc # rcs, log))"
| "run_log capacity room log (Clear # ops) = run_log capacity room [] ops"

fun run_store ::
  "('e \<Rightarrow> host_fact list \<Rightarrow> (status \<times> 'e) option) \<Rightarrow> ('e \<Rightarrow> 'e) \<Rightarrow> 'e \<Rightarrow> input_op list \<Rightarrow> (status list \<times> 'e) option" where
  "run_store add clear e [] = Some ([], e)"
| "run_store add clear e (Append facts # ops) =
     (case add e facts of
        None \<Rightarrow> None
      | Some (rc, e) \<Rightarrow> map_option (\<lambda>(rcs, e). (rc # rcs, e)) (run_store add clear e ops))"
| "run_store add clear e (Clear # ops) = run_store add clear (clear e) ops"

locale log_store =
  fixes inv :: "'e \<Rightarrow> bool" and view :: "'e \<Rightarrow> string input_fact list" and capacity room :: "'e \<Rightarrow> nat"
    and add :: "'e \<Rightarrow> host_fact list \<Rightarrow> (status \<times> 'e) option" and clear :: "'e \<Rightarrow> 'e"
  assumes add_refines: "inv e \<Longrightarrow> batch_ok facts \<Longrightarrow> \<exists>rc f. add e facts = Some (rc, f) \<and>
      (rc, view f) = log_add (capacity e) (room e) (view e) facts \<and> (rc \<noteq> STATUS_OK \<longrightarrow> f = e) \<and> inv f \<and>
      capacity f = capacity e \<and> room f = room e"
    and clear_refines: "inv e \<Longrightarrow> inv (clear e) \<and> view (clear e) = [] \<and> capacity (clear e) = capacity e \<and> room (clear e) = room e"
    and fits: "inv e \<Longrightarrow> length (view e) \<le> capacity e \<and> text_size (log_texts (view e)) \<le> room e"
begin

lemma append_cases:
  assumes "inv e" "batch_ok facts"
  obtains f where "add e facts = Some (STATUS_OK, f)" "log_add (capacity e) (room e) (view e) facts = (STATUS_OK, view f)"
      "inv f" "capacity f = capacity e" "room f = room e"
  | rc where "add e facts = Some (rc, e)" "rc \<noteq> STATUS_OK" "log_add (capacity e) (room e) (view e) facts = (rc, view e)"
  using add_refines[OF assms] by metis

lemma run_refines:
  assumes "inv e" "list_all op_ok ops"
  shows "\<exists>rcs f. run_store add clear e ops = Some (rcs, f) \<and> inv f \<and>
    run_log (capacity e) (room e) (view e) ops = (rcs, view f) \<and> capacity f = capacity e \<and> room f = room e"
  using assms
proof (induction ops arbitrary: e)
  case (Cons op ops)
  show ?case
  proof (cases op)
    case (Append facts)
    then have ok: "batch_ok facts" using Cons.prems by simp
    obtain rc f where f: "add e facts = Some (rc, f)" "log_add (capacity e) (room e) (view e) facts = (rc, view f)"
      "inv f" "capacity f = capacity e" "room f = room e" using add_refines[OF Cons.prems(1) ok] by metis
    show ?thesis using Cons.IH[OF f(3)] Cons.prems(2) f Append by auto
  next
    case Clear
    then show ?thesis using Cons.IH[of "clear e"] Cons.prems clear_refines[OF Cons.prems(1)] by simp
  qed
qed simp

end

interpretation input_store:
  log_store input_inv input_edb_view ie_capacity ie_text_capacity input_edb_add_facts input_edb_clear
proof
  show "\<exists>rc f. input_edb_add_facts e facts = Some (rc, f) \<and>
      (rc, input_edb_view f) = log_add (ie_capacity e) (ie_text_capacity e) (input_edb_view e) facts \<and>
      (rc \<noteq> STATUS_OK \<longrightarrow> f = e) \<and> input_inv f \<and> ie_capacity f = ie_capacity e \<and> ie_text_capacity f = ie_text_capacity e"
    if "input_inv e" "batch_ok facts" for e facts by (rule append_refines[OF that])
  show "input_inv (input_edb_clear e) \<and> input_edb_view (input_edb_clear e) = [] \<and>
      ie_capacity (input_edb_clear e) = ie_capacity e \<and> ie_text_capacity (input_edb_clear e) = ie_text_capacity e"
    if "input_inv e" for e by (rule clear_inv[OF that])
  show "length (input_edb_view e) \<le> ie_capacity e \<and> text_size (log_texts (input_edb_view e)) \<le> ie_text_capacity e"
    if "input_inv e" for e using that by (simp add: input_inv_def base_ok_def view_length log_of_def)
qed

section \<open>The store refines the log\<close>

text \<open>(C20) A store that was initialised with a capacity in facts and in bytes of text, and then took any sequence of
  appends and clears, returned exactly the statuses of the bounded log, and a host reads back exactly the facts of the
  log: the interning of strings, the hash index with its generations, its cache and its journal are not observable.\<close>

theorem input_store_refines_log:
  assumes "input_edb_init capacity room = Inr e" "list_all op_ok ops"
  shows "\<exists>rcs f. run_store input_edb_add_facts input_edb_clear e ops = Some (rcs, f) \<and>
    run_log capacity room [] ops = (rcs, input_edb_view f)"
proof -
  have e: "input_inv e" "input_edb_view e = []" using init_inv[OF assms(1)] by simp_all
  have "ie_capacity e = capacity" "ie_text_capacity e = room"
    using assms(1) by (auto simp: input_edb_init_def Let_def split: if_splits)
  then show ?thesis using input_store.run_refines[OF e(1) assms(2)] e(2) by auto
qed

text \<open>(C21) An append of an input store returns; when it is refused, the store is byte for byte the store before,
  index, generations, journal and cache included, and when it is admitted the batch follows the facts there were and
  the invariant holds again.\<close>

theorem input_append_atomic:
  assumes "input_inv e" "batch_ok facts"
  shows "\<exists>rc f. input_edb_add_facts e facts = Some (rc, f) \<and> input_inv f \<and>
    (if rc = STATUS_OK then input_edb_view f = input_edb_view e @ map host_view facts else f = e)"
proof (cases rule: input_store.append_cases[OF assms])
  case (1 f)
  then show ?thesis by (auto simp: log_add_def split: if_splits sum.splits dest: admit_facts_error)
next
  case (2 rc)
  then show ?thesis using assms(1) by auto
qed

section \<open>A store at work\<close>

definition sample_batch :: "host_fact list" where
  "sample_batch = [Input_fact (Some ''edge'') [VALUE_SYMBOL (Some ''a''), VALUE_SYMBOL (Some ''b'')],
                   Input_fact (Some ''edge'') [VALUE_SYMBOL (Some ''b''), VALUE_BOOLEAN 7]]"

definition sample_refused :: "host_fact list" where
  "sample_refused = [Input_fact (Some ''node'') [VALUE_SYMBOL (Some ''c'')], Input_fact None []]"

lemma sample_ok: "batch_ok sample_batch" "batch_ok sample_refused"
  by (simp_all add: batch_ok_def sample_batch_def sample_refused_def c_texts_def host_view_def fact_texts_def)

lemma sample_init: "\<exists>e. input_edb_init 4 40 = Inr e"
  by (simp add: input_edb_init_def Let_def MAX_EDB_FACTS_def INPUT_EDB_TEXT_BYTES_def STRING_POOL_BYTES_def
      MAX_PREDICATES_def NAME_BYTES_def)

lemmas sample_log_simps = log_add_def log_texts_def fact_texts_def add_text_def text_size_def admit_text_def host_view_def
  sample_batch_def sample_refused_def MAX_TERMS_def MAX_STRING_BYTES_def

theorem input_store_refines_log_witness:
  "\<exists>e f. input_edb_init 4 40 = Inr e \<and>
     run_store input_edb_add_facts input_edb_clear e [Append sample_batch, Append sample_refused, Clear, Append sample_batch] =
       Some ([STATUS_OK, STATUS_INVALID_ARGUMENT, STATUS_OK], f) \<and>
     input_edb_view f = map host_view sample_batch"
proof -
  let ?ops = "[Append sample_batch, Append sample_refused, Clear, Append sample_batch]"
  obtain e where e: "input_edb_init 4 40 = Inr e" using sample_init by blast
  have "list_all op_ok ?ops" by (simp add: sample_ok)
  then obtain rcs f where f: "run_store input_edb_add_facts input_edb_clear e ?ops = Some (rcs, f)"
    "run_log 4 40 [] ?ops = (rcs, input_edb_view f)" using input_store_refines_log[OF e] by blast
  have "run_log 4 40 [] ?ops = ([STATUS_OK, STATUS_INVALID_ARGUMENT, STATUS_OK], map host_view sample_batch)"
    by (simp add: sample_log_simps)
  then show ?thesis using e f by auto
qed

theorem input_append_atomic_witness:
  "\<exists>e rc f. input_edb_init 4 40 = Inr e \<and> input_edb_add_facts e sample_batch = Some (rc, f) \<and> input_inv f \<and>
     (if rc = STATUS_OK then input_edb_view f = map host_view sample_batch else f = e)"
proof -
  obtain e where e: "input_edb_init 4 40 = Inr e" using sample_init by blast
  have start: "input_inv e" "input_edb_view e = []" using init_inv[OF e] by simp_all
  obtain rc f where "input_edb_add_facts e sample_batch = Some (rc, f) \<and> input_inv f \<and>
      (if rc = STATUS_OK then input_edb_view f = input_edb_view e @ map host_view sample_batch else f = e)"
    using input_append_atomic[OF start(1) sample_ok(1)] by blast
  then show ?thesis using e start(2) by (intro exI[of _ e] exI[of _ rc] exI[of _ f]) simp
qed

end
