(* ===== verification/Window.thy ===== *)
theory Window
  imports Input_Runs
begin

unbundle bit_operations_syntax

text \<open>
  The event window, \<^verbatim>\<open>src/runtime/maelys_datalog_window.c\<close>: the last events in arrival order behind a prefix of
  static facts, held twice. An update builds a complete candidate in the bank that is not active, solves it on the
  session of that bank, releases the result of the active bank and only then makes the candidate the active bank.

  The sessions and their results belong to \<^verbatim>\<open>src/runtime/maelys_datalog_runtime.c\<close>, which is not modelled: the four
  functions the window calls are the fields of \<open>runtime\<close>, over a state \<open>'s\<close>, handles \<open>'k\<close> of sessions and \<open>'r\<close> of
  results, and nothing is assumed of them. Pointers a host passes are not null and do not point into the window; the
  storage block is large enough and aligned, the size stamp of the options is right, and the texts of diagnostics are
  not modelled. Two null pointers are the
  empty list. The occurrence cursor is a \<^verbatim>\<open>uint64_t\<close> that stops at 2^31.
\<close>

section \<open>State\<close>

record ('s, 'k, 'r) runtime =
  rt_fingerprint :: "'s \<Rightarrow> 'k \<Rightarrow> status \<times> string"
  rt_solve :: "'s \<Rightarrow> 'k \<Rightarrow> string input_fact list \<Rightarrow> status \<times> 'r \<times> 's"
  rt_free :: "'s \<Rightarrow> 'r \<Rightarrow> status \<times> 's"
  rt_commit :: "'s \<Rightarrow> 'r \<Rightarrow> 's"

record window_deadline =
  dl_at :: "64 word"
  dl_timed :: bool

datatype window_op = WINDOW_PUSH | WINDOW_REPLACE_STATIC | WINDOW_EXPIRE

record ('k, 'r) window =
  w_sessions :: "'k list"
  w_inputs :: "input_edb list"
  w_result :: "'r option"
  w_capacity :: nat
  w_static_capacity :: nat
  w_static_count :: nat
  w_deadlines :: "window_deadline list list"
  w_now :: "64 word"
  w_has_now :: bool
  w_next :: nat
  w_active :: nat
  w_busy :: bool

record window_options =
  wo_static_fact_capacity :: nat
  wo_flags :: "32 word"

definition WINDOW_EXPIRATION :: "32 word" where "WINDOW_EXPIRATION = 1"
definition INT32_MAX :: nat where "INT32_MAX = 2147483647"

text \<open>The facts of a view, passed to a store again.\<close>

definition retained :: "string input_fact list \<Rightarrow> host_fact list" where
  "retained = map (map_input_fact Some)"

definition active_input :: "('k, 'r) window \<Rightarrow> input_edb" where
  "active_input w = w_inputs w ! w_active w"

definition window_readable :: "('k, 'r) window \<Rightarrow> status" where
  "window_readable w = (if w_result w = None \<or> w_busy w then STATUS_INVALID_STATE else STATUS_OK)"

section \<open>Opening a window\<close>

definition option_capacity :: "window_options option \<Rightarrow> nat" where
  "option_capacity options = (case options of None \<Rightarrow> 0 | Some opts \<Rightarrow> wo_static_fact_capacity opts)"

definition option_timed :: "window_options option \<Rightarrow> bool" where
  "option_timed options = (case options of None \<Rightarrow> False | Some opts \<Rightarrow> wo_flags opts AND WINDOW_EXPIRATION \<noteq> 0)"

definition bad_options :: "window_options option \<Rightarrow> bool" where
  "bad_options options = (case options of None \<Rightarrow> False | Some opts \<Rightarrow> wo_flags opts AND NOT WINDOW_EXPIRATION \<noteq> 0)"

text \<open>Both banks start as the same empty store; \<open>stale\<close> is what the storage holds where the deadlines are put.\<close>

definition window_init ::
  "('s, 'k, 'r) runtime \<Rightarrow> 's \<Rightarrow> nat \<Rightarrow> nat \<Rightarrow> window_options option \<Rightarrow> nat \<Rightarrow> 'k \<Rightarrow> 'k \<Rightarrow> (nat \<Rightarrow> nat \<Rightarrow> window_deadline) \<Rightarrow>
   (status + ('k, 'r) window) \<times> 's" where
  "window_init rt s n room options first a b stale =
     (if bad_options options then (Inl STATUS_INVALID_ARGUMENT, s)
      else if a = b \<or> first > INT32_MAX then (Inl STATUS_INVALID_ARGUMENT, s)
      else if n = 0 then (Inl STATUS_INVALID_ARGUMENT, s)
      else case input_edb_init (n + option_capacity options) room of
        Inl rc \<Rightarrow> (Inl rc, s)
      | Inr edb \<Rightarrow>
          let (rca, fa) = rt_fingerprint rt s a; (rcb, fb) = rt_fingerprint rt s b in
          if rca \<noteq> STATUS_OK then (Inl rca, s)
          else if rcb \<noteq> STATUS_OK then (Inl rcb, s)
          else if fa \<noteq> fb then (Inl STATUS_INVALID_ARGUMENT, s)
          else
            let (rc, probe, s) = rt_solve rt s b (input_edb_view edb) in
            if rc \<noteq> STATUS_OK then (Inl rc, s)
            else
              let (rc, s) = rt_free rt s probe in
              if rc \<noteq> STATUS_OK then (Inl rc, s)
              else
                let (rc, result, s) = rt_solve rt s a (input_edb_view edb) in
                if rc \<noteq> STATUS_OK then (Inl rc, s)
                else (Inr \<lparr>w_sessions = [a, b], w_inputs = [edb, edb], w_result = Some result, w_capacity = n,
                        w_static_capacity = option_capacity options, w_static_count = 0,
                        w_deadlines = (if option_timed options then [map (stale 0) [0..<n], map (stale 1) [0..<n]] else []),
                        w_now = 0, w_has_now = False, w_next = first, w_active = 0, w_busy = False\<rparr>,
                      rt_commit rt s result))"

section \<open>The candidate bank\<close>

definition due :: "64 word \<Rightarrow> window_deadline \<Rightarrow> bool" where
  "due time d \<longleftrightarrow> dl_timed d \<and> dl_at d \<le> time"

text \<open>\<^verbatim>\<open>if (!rc) rc = add_facts(...)\<close>.\<close>

fun add_more :: "(status \<times> input_edb) option \<Rightarrow> host_fact list \<Rightarrow> (status \<times> input_edb) option" where
  "add_more None facts = None"
| "add_more (Some (rc, edb)) facts = (if rc \<noteq> STATUS_OK then Some (rc, edb) else input_edb_add_facts edb facts)"

text \<open>The loop of an expiry over the events with their deadlines: \<open>kept\<close> deadlines are written in the array \<open>dls\<close>.\<close>

fun keep_events ::
  "64 word \<Rightarrow> (window_deadline \<times> string input_fact) list \<Rightarrow> status \<times> input_edb \<Rightarrow> window_deadline list \<Rightarrow> nat \<Rightarrow>
   (status \<times> input_edb \<times> window_deadline list) option" where
  "keep_events time [] st dls kept = Some (fst st, snd st, dls)"
| "keep_events time ((d, event) # events) st dls kept =
     (if fst st \<noteq> STATUS_OK then Some (fst st, snd st, dls)
      else if due time d then keep_events time events st dls kept
      else case input_edb_add_facts (snd st) (retained [event]) of
        None \<Rightarrow> None
      | Some st \<Rightarrow> keep_events time events st (dls[kept := d]) (kept + 1))"

definition copy_deadlines :: "window_deadline list \<Rightarrow> window_deadline list \<Rightarrow> window_deadline list" where
  "copy_deadlines src dest = src @ drop (length src) dest"

definition new_deadline :: "64 word option \<Rightarrow> window_deadline" where
  "new_deadline time = (case time of None \<Rightarrow> \<lparr>dl_at = 0, dl_timed = False\<rparr> | Some t \<Rightarrow> \<lparr>dl_at = t, dl_timed = True\<rparr>)"

text \<open>The status of the appends, the bank and its deadlines, the empty list when the window keeps none.\<close>

definition candidate_bank ::
  "('k, 'r) window \<Rightarrow> host_fact list \<Rightarrow> window_op \<Rightarrow> 64 word option \<Rightarrow> (status \<times> input_edb \<times> window_deadline list) option" where
  "candidate_bank w facts op time =
     (let candidate = 1 - w_active w;
          old = input_edb_view (active_input w);
          events = length old - w_static_count w;
          skip = (if op = WINDOW_PUSH \<and> events = w_capacity w then 1 else 0);
          timed = w_deadlines w \<noteq> [];
          old_dls = (if timed then w_deadlines w ! w_active w else []);
          dls = (if timed then w_deadlines w ! candidate else []);
          start = add_more (Some (STATUS_OK, input_edb_clear (w_inputs w ! candidate)))
                    (if op = WINDOW_REPLACE_STATIC then facts else retained (take (w_static_count w) old))
      in if op = WINDOW_EXPIRE then
           (case start of
              None \<Rightarrow> None
            | Some st \<Rightarrow> keep_events (the time) (zip (take events old_dls) (drop (w_static_count w) old)) st dls 0)
         else
           let st = add_more start (retained (drop (w_static_count w + skip) old)); kept = events - skip;
               dls = (case st of
                        Some (rc, _) \<Rightarrow> if rc = STATUS_OK \<and> timed then copy_deadlines (take kept (drop skip old_dls)) dls else dls
                      | None \<Rightarrow> dls) in
           if op = WINDOW_PUSH then
             (case st of
                None \<Rightarrow> None
              | Some (rc, edb) \<Rightarrow>
                  if rc \<noteq> STATUS_OK then Some (rc, edb, dls)
                  else map_option (\<lambda>(rc, edb). (rc, edb, dls[kept := new_deadline time])) (input_edb_add_facts edb facts))
           else map_option (\<lambda>(rc, edb). (rc, edb, dls)) st)"

section \<open>Updating\<close>

record ('s, 'k, 'r) window_outcome =
  wr_status :: status
  wr_occurrence :: "nat option"
  wr_expired :: "nat option"
  wr_window :: "('k, 'r) window"
  wr_state :: 's

definition refuse_update :: "'s \<Rightarrow> ('k, 'r) window \<Rightarrow> status \<Rightarrow> ('s, 'k, 'r) window_outcome" where
  "refuse_update s w rc = \<lparr>wr_status = rc, wr_occurrence = None, wr_expired = None, wr_window = w, wr_state = s\<rparr>"

text \<open>The candidate is solved, the old result released, the candidate published.\<close>

definition commit_candidate ::
  "('s, 'k, 'r) runtime \<Rightarrow> 's \<Rightarrow> ('k, 'r) window \<Rightarrow> 'r \<Rightarrow> host_fact list \<Rightarrow> window_op \<Rightarrow> 64 word option \<Rightarrow> nat \<Rightarrow>
   ('s, 'k, 'r) window_outcome" where
  "commit_candidate rt s w old_result facts op time expired =
     (let candidate = 1 - w_active w;
          (rc, result, s) = rt_solve rt s (w_sessions w ! candidate) (input_edb_view (w_inputs w ! candidate))
      in if rc \<noteq> STATUS_OK then refuse_update s w rc
         else
           let (rc, s) = rt_free rt s old_result in
           if rc \<noteq> STATUS_OK then refuse_update (snd (rt_free rt s result)) w rc
           else
             \<lparr>wr_status = STATUS_OK, wr_occurrence = (if op = WINDOW_PUSH then Some (w_next w) else None),
              wr_expired = (if op = WINDOW_EXPIRE then Some expired else None),
              wr_window = w\<lparr>w_result := Some result, w_active := candidate,
                w_static_count := (if op = WINDOW_REPLACE_STATIC then length facts else w_static_count w),
                w_next := (if op = WINDOW_PUSH then w_next w + 1 else w_next w),
                w_now := (if op = WINDOW_EXPIRE then the time else w_now w),
                w_has_now := (op = WINDOW_EXPIRE \<or> w_has_now w)\<rparr>,
              wr_state = rt_commit rt s result\<rparr>)"

definition update_guard :: "('k, 'r) window \<Rightarrow> nat \<Rightarrow> window_op \<Rightarrow> 64 word option \<Rightarrow> status" where
  "update_guard w n op time =
     (if window_readable w \<noteq> STATUS_OK then window_readable w
      else if (op = WINDOW_REPLACE_STATIC \<and> n > w_static_capacity w) \<or> (op = WINDOW_PUSH \<and> w_next w > INT32_MAX)
      then STATUS_PAYLOAD_TOO_LARGE
      else if time \<noteq> None \<and> w_deadlines w = [] then STATUS_UNSUPPORTED
      else if time \<noteq> None \<and> w_has_now w \<and> (if op = WINDOW_EXPIRE then the time < w_now w else the time \<le> w_now w)
      then STATUS_INVALID_ARGUMENT
      else STATUS_OK)"

definition window_update ::
  "('s, 'k, 'r) runtime \<Rightarrow> 's \<Rightarrow> ('k, 'r) window \<Rightarrow> host_fact list \<Rightarrow> window_op \<Rightarrow> 64 word option \<Rightarrow>
   ('s, 'k, 'r) window_outcome option" where
  "window_update rt s w facts op time =
     (if update_guard w (length facts) op time \<noteq> STATUS_OK
      then Some (refuse_update s w (update_guard w (length facts) op time))
      else
        let events = length (input_edb_view (active_input w)) - w_static_count w;
            expired = (if op = WINDOW_EXPIRE then length (filter (due (the time)) (take events (w_deadlines w ! w_active w))) else 0)
        in if op = WINDOW_EXPIRE \<and> expired = 0
           then Some \<lparr>wr_status = STATUS_OK, wr_occurrence = None, wr_expired = Some 0,
                  wr_window = w\<lparr>w_now := the time, w_has_now := True\<rparr>, wr_state = s\<rparr>
           else
             map_option (\<lambda>(rc, edb, dls).
                 let candidate = 1 - w_active w;
                     w = w\<lparr>w_inputs := (w_inputs w)[candidate := edb],
                           w_deadlines := (if w_deadlines w = [] then [] else (w_deadlines w)[candidate := dls])\<rparr>
                 in if rc \<noteq> STATUS_OK then refuse_update s w rc
                    else commit_candidate rt s w (the (w_result w)) facts op time expired)
               (candidate_bank w facts op time))"

text \<open>The flag \<^verbatim>\<open>busy\<close> is set while an update runs, and is what a callback of the solve would see; it is clear
  again when the update returns.\<close>

definition push_event ::
  "('s, 'k, 'r) runtime \<Rightarrow> 's \<Rightarrow> ('k, 'r) window \<Rightarrow> string \<Rightarrow> string option value list \<Rightarrow> 64 word option \<Rightarrow>
   ('s, 'k, 'r) window_outcome option" where
  "push_event rt s w predicate vs deadline =
     (if length vs \<ge> MAX_TERMS then Some (refuse_update s w STATUS_INVALID_ARGUMENT)
      else if window_readable w \<noteq> STATUS_OK then Some (refuse_update s w (window_readable w))
      else window_update rt s w [Input_fact (Some predicate) (VALUE_INTEGER (int (w_next w)) # vs)] WINDOW_PUSH deadline)"

definition window_push ::
  "('s, 'k, 'r) runtime \<Rightarrow> 's \<Rightarrow> ('k, 'r) window \<Rightarrow> string \<Rightarrow> string option value list \<Rightarrow> ('s, 'k, 'r) window_outcome option" where
  "window_push rt s w predicate vs = push_event rt s w predicate vs None"

definition window_push_until ::
  "('s, 'k, 'r) runtime \<Rightarrow> 's \<Rightarrow> ('k, 'r) window \<Rightarrow> string \<Rightarrow> string option value list \<Rightarrow> 64 word \<Rightarrow>
   ('s, 'k, 'r) window_outcome option" where
  "window_push_until rt s w predicate vs deadline = push_event rt s w predicate vs (Some deadline)"

definition window_expire ::
  "('s, 'k, 'r) runtime \<Rightarrow> 's \<Rightarrow> ('k, 'r) window \<Rightarrow> 64 word \<Rightarrow> ('s, 'k, 'r) window_outcome option" where
  "window_expire rt s w now = window_update rt s w [] WINDOW_EXPIRE (Some now)"

definition window_replace_static ::
  "('s, 'k, 'r) runtime \<Rightarrow> 's \<Rightarrow> ('k, 'r) window \<Rightarrow> host_fact list \<Rightarrow> ('s, 'k, 'r) window_outcome option" where
  "window_replace_static rt s w facts = window_update rt s w facts WINDOW_REPLACE_STATIC None"

section \<open>Reading and closing\<close>

definition when_readable :: "('k, 'r) window \<Rightarrow> 'a \<Rightarrow> status + 'a" where
  "when_readable w a = (if window_readable w \<noteq> STATUS_OK then Inl (window_readable w) else Inr a)"

definition window_static_facts :: "('k, 'r) window \<Rightarrow> status + string input_fact list" where
  "window_static_facts w = when_readable w (take (w_static_count w) (input_edb_view (active_input w)))"

definition window_result :: "('k, 'r) window \<Rightarrow> status + 'r" where
  "window_result w = when_readable w (the (w_result w))"

definition window_events :: "('k, 'r) window \<Rightarrow> status + string input_fact list" where
  "window_events w = when_readable w (drop (w_static_count w) (input_edb_view (active_input w)))"

definition window_state :: "('k, 'r) window \<Rightarrow> status + nat \<times> nat" where
  "window_state w = when_readable w (input_edb_count (active_input w) - w_static_count w, w_next w)"

definition window_text_usage :: "('k, 'r) window \<Rightarrow> status + nat \<times> nat" where
  "window_text_usage w = when_readable w (input_edb_text_usage (active_input w))"

definition window_expiry_watermark :: "('k, 'r) window \<Rightarrow> status + 64 word \<times> bool" where
  "window_expiry_watermark w =
     (if window_readable w \<noteq> STATUS_OK then Inl (window_readable w)
      else if w_deadlines w = [] then Inl STATUS_UNSUPPORTED
      else Inr (w_now w, w_has_now w))"

definition window_free :: "('s, 'k, 'r) runtime \<Rightarrow> 's \<Rightarrow> ('k, 'r) window \<Rightarrow> status \<times> ('k, 'r) window \<times> 's" where
  "window_free rt s w =
     (if window_readable w \<noteq> STATUS_OK then (window_readable w, w, s)
      else
        let (rc, s) = rt_free rt s (the (w_result w)) in
        if rc \<noteq> STATUS_OK then (rc, w, s)
        else (STATUS_OK, w\<lparr>w_result := None, w_sessions := [], w_inputs := [], w_deadlines := []\<rparr>, s))"

end
