(* ===== verification/Window_Log.thy ===== *)
theory Window_Log
  imports Window
begin

text \<open>
  What the event window promises, without banks, strings and indexes: a list of static facts, a list of events with
  their deadlines, a cursor and a watermark. The first part says which batches an input store admits: in particular
  facts read back from a store are admitted by an empty store of the same size, whichever of them are left out.
\<close>

section \<open>Admission\<close>

fun admissible_value :: "string option value \<Rightarrow> bool" where
  "admissible_value (VALUE_SYMBOL s) = (case s of None \<Rightarrow> False | Some s \<Rightarrow> length s \<le> MAX_STRING_BYTES)"
| "admissible_value (VALUE_OTHER _) = False"
| "admissible_value _ = True"

definition admissible :: "host_fact \<Rightarrow> bool" where
  "admissible f \<longleftrightarrow> length (fact_terms f) \<le> MAX_TERMS \<and> admissible_value (VALUE_SYMBOL (fact_predicate f)) \<and>
     list_all admissible_value (fact_terms f)"

lemma notes_size: "text_size strs \<le> text_size (foldl add_text strs ss)"
  using notes_extend[of strs ss] by (auto simp: text_size_append)

lemma notes_room: "text_size (foldl add_text (add_text strs s) ss) \<le> room \<Longrightarrow> text_size (add_text strs s) \<le> room"
  using notes_size le_trans by blast

lemma admit_text_iff:
  "text_size strs \<le> room \<Longrightarrow>
   admit_text room strs s = Inr strs' \<longleftrightarrow>
     admissible_value (VALUE_SYMBOL s) \<and> strs' = add_text strs (the s) \<and> text_size strs' \<le> room"
  by (auto simp: admit_text_def text_size_note split: option.splits if_splits)

lemma admit_terms_iff:
  "text_size strs \<le> room \<Longrightarrow>
   admit_terms room strs ts = Inr strs' \<longleftrightarrow>
     list_all admissible_value ts \<and> strs' = foldl add_text strs (value_texts (map host_value ts)) \<and> text_size strs' \<le> room"
proof (induction ts arbitrary: strs)
  case (Cons t ts)
  show ?case
  proof (cases t)
    case (VALUE_SYMBOL s)
    have "admit_terms room strs (t # ts) = Inr strs' \<longleftrightarrow>
        (\<exists>mid. admit_text room strs s = Inr mid \<and> admit_terms room mid ts = Inr strs')"
      using VALUE_SYMBOL by (simp split: sum.splits)
    also have "\<dots> \<longleftrightarrow> admissible_value t \<and> text_size (add_text strs (the s)) \<le> room \<and>
        admit_terms room (add_text strs (the s)) ts = Inr strs'"
      using admit_text_iff[OF Cons.prems] VALUE_SYMBOL by auto
    finally show ?thesis using Cons.IH[of "add_text strs (the s)"] VALUE_SYMBOL
      by (cases s) (auto dest: notes_room)
  qed (use Cons in auto)
qed auto

lemma admit_facts_iff:
  "text_size strs \<le> room \<Longrightarrow>
   admit_facts room strs fs = Inr strs' \<longleftrightarrow>
     list_all admissible fs \<and> strs' = foldl add_text strs (concat (map fact_texts (map host_view fs))) \<and> text_size strs' \<le> room"
proof (induction fs arbitrary: strs)
  case (Cons f fs)
  let ?p = "the (fact_predicate f)" and ?vs = "value_texts (map host_value (fact_terms f))"
  let ?one = "add_text strs ?p" and ?two = "foldl add_text (add_text strs ?p) ?vs"
  have "admit_facts room strs (f # fs) = Inr strs' \<longleftrightarrow> length (fact_terms f) \<le> MAX_TERMS \<and>
      (\<exists>one two. admit_text room strs (fact_predicate f) = Inr one \<and> admit_terms room one (fact_terms f) = Inr two \<and>
         admit_facts room two fs = Inr strs')"
    by (auto split: sum.splits)
  also have "\<dots> \<longleftrightarrow> admissible f \<and> text_size ?one \<le> room \<and> text_size ?two \<le> room \<and> admit_facts room ?two fs = Inr strs'"
    using admit_text_iff[OF Cons.prems] admit_terms_iff[of ?one room] by (auto simp: admissible_def)
  also have "\<dots> \<longleftrightarrow> admissible f \<and> list_all admissible fs \<and>
      strs' = foldl add_text ?two (concat (map fact_texts (map host_view fs))) \<and> text_size strs' \<le> room"
    using Cons.IH[of ?two] notes_size[of ?two] notes_size[of ?one ?vs] by (auto intro: le_trans)
  finally have step: "admit_facts room strs (f # fs) = Inr strs' \<longleftrightarrow> \<dots>" .
  have "admissible f \<Longrightarrow> fact_texts (host_view f) = ?p # ?vs"
    by (auto simp: admissible_def host_view_def fact_texts_def split: option.splits)
  then show ?case unfolding step by (cases "admissible f") simp_all
qed auto

text \<open>Appending in pieces is appending the whole, when the entries fit.\<close>

lemma admit_facts_append:
  "admit_facts room strs (a @ b) = (case admit_facts room strs a of Inl rc \<Rightarrow> Inl rc | Inr strs \<Rightarrow> admit_facts room strs b)"
  by (induction a arbitrary: strs) (auto split: sum.split)

lemma log_add_append:
  assumes "length log + length a + length b \<le> capacity"
  shows "log_add capacity room log (a @ b) =
    (case log_add capacity room log a of
       (rc, log') \<Rightarrow> if rc \<noteq> STATUS_OK then (rc, log)
         else case log_add capacity room log' b of (rc', log'') \<Rightarrow> if rc' \<noteq> STATUS_OK then (rc', log) else (rc', log''))"
  using assms
  by (auto simp: log_add_def admit_facts_append log_texts_append dest: admit_facts_error admit_facts_notes split: sum.splits)

section \<open>Facts read back\<close>

definition stored_fact :: "string input_fact \<Rightarrow> bool" where
  "stored_fact f \<longleftrightarrow> (\<exists>h. admissible h \<and> c_texts (fact_texts (host_view h)) \<and> f = host_view h)"

lemma host_value_again: "host_value (map_value Some (host_value v)) = host_value v"
  by (cases v) (auto split: option.splits)

lemma host_view_again: "host_view (map_input_fact Some (host_view h)) = host_view h"
  by (simp add: host_view_def host_value_again)

lemma admissible_again: "admissible h \<Longrightarrow> admissible (map_input_fact Some (host_view h))"
proof -
  have "admissible_value v \<Longrightarrow> admissible_value (map_value Some (host_value v))" for v
    by (cases v) (auto split: option.splits)
  then show "admissible h \<Longrightarrow> ?thesis" by (auto simp: admissible_def host_view_def list_all_iff split: option.splits)
qed

lemma stored_retained:
  assumes "list_all stored_fact fs"
  shows "list_all admissible (retained fs)" "map host_view (retained fs) = fs" "batch_ok (retained fs)"
proof -
  show "list_all admissible (retained fs)"
    using assms by (auto simp: list_all_iff retained_def stored_fact_def admissible_again)
  show view: "map host_view (retained fs) = fs"
    using assms by (auto simp: list_all_iff retained_def stored_fact_def host_view_again intro!: map_idI)
  show "batch_ok (retained fs)"
    using assms unfolding batch_ok_def view by (auto simp: c_texts_def list_all_iff stored_fact_def)
qed

lemma admitted_stored: "list_all admissible fs \<Longrightarrow> batch_ok fs \<Longrightarrow> list_all stored_fact (map host_view fs)"
  by (auto simp: list_all_iff batch_ok_def c_texts_def stored_fact_def)

lemma text_size_set: "distinct strs \<Longrightarrow> text_size strs = (\<Sum>s\<in>set strs. length s + 1)"
  by (simp add: text_size_def sum_list_distinct_conv_sum_set)

lemma log_texts_smaller:
  assumes "set fs \<subseteq> set log" shows "text_size (log_texts fs) \<le> text_size (log_texts log)"
proof -
  have "set (log_texts fs) \<subseteq> set (log_texts log)" using assms by (auto simp: log_texts_def notes_set)
  then show ?thesis by (simp add: text_size_set log_texts_def notes_distinct sum_mono2)
qed

lemma readmitted:
  assumes "list_all stored_fact fs" "text_size (log_texts fs) \<le> room" "length fs \<le> capacity"
  shows "log_add capacity room [] (retained fs) = (STATUS_OK, fs)"
proof -
  have "admit_facts room [] (retained fs) = Inr (log_texts fs)"
    using stored_retained[OF assms(1)] assms(2) admit_facts_iff[of "[]" room "retained fs"]
    by (simp add: text_size_def log_texts_def)
  moreover have "length (retained fs) = length fs" by (simp add: retained_def)
  ultimately show ?thesis using stored_retained(2)[OF assms(1)] assms(3) by (simp add: log_add_def log_texts_def)
qed

lemma log_add_stored:
  assumes "log_add capacity room [] fs = (STATUS_OK, log)" "batch_ok fs"
  shows "log = map host_view fs" "list_all stored_fact log"
proof -
  obtain strs where "admit_facts room [] fs = Inr strs" and log: "log = map host_view fs"
    using assms(1) by (auto simp: log_add_def log_texts_def split: if_splits sum.splits dest: admit_facts_error)
  then have "list_all admissible fs" using admit_facts_iff[of "[]" room fs strs] by (simp add: text_size_def)
  then show "log = map host_view fs" "list_all stored_fact log" using admitted_stored assms(2) log by simp_all
qed

end
