(* ===== verification/Window_Refine.thy ===== *)
theory Window_Refine
  imports Window_Log
begin

text \<open>
  The event window refines its log: an update of the two banks returns the status, and leaves the facts, the events
  with their deadlines, the cursor and the watermark, that the log prescribes for the outcomes of the session.
\<close>

section \<open>The log of a window\<close>

record event_log =
  el_capacity :: nat
  el_static_capacity :: nat
  el_room :: nat
  el_timed :: bool
  el_static :: "string input_fact list"
  el_events :: "(string input_fact \<times> 64 word option) list"
  el_next :: nat
  el_now :: "64 word option"

definition log_facts :: "event_log \<Rightarrow> string input_fact list" where
  "log_facts W = el_static W @ map fst (el_events W)"

definition expires_by :: "64 word \<Rightarrow> 64 word option \<Rightarrow> bool" where
  "expires_by time d = (case d of None \<Rightarrow> False | Some t \<Rightarrow> t \<le> time)"

definition log_guard :: "event_log \<Rightarrow> nat \<Rightarrow> window_op \<Rightarrow> 64 word option \<Rightarrow> status" where
  "log_guard W n op time =
     (if op = WINDOW_REPLACE_STATIC \<and> n > el_static_capacity W \<or> op = WINDOW_PUSH \<and> el_next W > INT32_MAX
      then STATUS_PAYLOAD_TOO_LARGE
      else if time \<noteq> None \<and> \<not> el_timed W then STATUS_UNSUPPORTED
      else case (time, el_now W) of
        (Some t, Some now) \<Rightarrow> if (if op = WINDOW_EXPIRE then t < now else t \<le> now) then STATUS_INVALID_ARGUMENT else STATUS_OK
      | _ \<Rightarrow> STATUS_OK)"

text \<open>The facts of the candidate are one batch for an empty store.\<close>

definition admission :: "event_log \<Rightarrow> host_fact list \<Rightarrow> status" where
  "admission W batch = fst (log_add (el_capacity W + el_static_capacity W) (el_room W) [] batch)"

definition kept_events :: "event_log \<Rightarrow> (string input_fact \<times> 64 word option) list" where
  "kept_events W = (if length (el_events W) = el_capacity W then tl (el_events W) else el_events W)"

fun next_log :: "event_log \<Rightarrow> host_fact list \<Rightarrow> window_op \<Rightarrow> 64 word option \<Rightarrow> status + event_log" where
  "next_log W facts WINDOW_PUSH time =
     (let rc = admission W (retained (el_static W) @ retained (map fst (kept_events W)) @ facts) in
      if rc \<noteq> STATUS_OK then Inl rc
      else Inr (W\<lparr>el_events := kept_events W @ map (\<lambda>f. (host_view f, time)) facts, el_next := el_next W + 1\<rparr>))"
| "next_log W facts WINDOW_REPLACE_STATIC time =
     (let rc = admission W (facts @ retained (map fst (el_events W))) in
      if rc \<noteq> STATUS_OK then Inl rc else Inr (W\<lparr>el_static := map host_view facts\<rparr>))"
| "next_log W facts WINDOW_EXPIRE time =
     Inr (W\<lparr>el_events := filter (\<lambda>e. \<not> expires_by (the time) (snd e)) (el_events W), el_now := time\<rparr>)"

definition log_due :: "event_log \<Rightarrow> 64 word option \<Rightarrow> nat" where
  "log_due W time = length (filter (\<lambda>e. expires_by (the time) (snd e)) (el_events W))"

text \<open>An update of the log, with the session \<open>k\<close> it is solved on and the result it replaces.\<close>

definition log_update ::
  "('s, 'k, 'r) runtime \<Rightarrow> 's \<Rightarrow> 'k \<Rightarrow> 'r \<Rightarrow> event_log \<Rightarrow> host_fact list \<Rightarrow> window_op \<Rightarrow> 64 word option \<Rightarrow>
   status \<times> event_log \<times> 'r \<times> 's" where
  "log_update rt s k old W facts op time =
     (if log_guard W (length facts) op time \<noteq> STATUS_OK then (log_guard W (length facts) op time, W, old, s)
      else if op = WINDOW_EXPIRE \<and> log_due W time = 0 then (STATUS_OK, W\<lparr>el_now := time\<rparr>, old, s)
      else case next_log W facts op time of
        Inl rc \<Rightarrow> (rc, W, old, s)
      | Inr W' \<Rightarrow>
          let (rc, new, s) = rt_solve rt s k (log_facts W') in
          if rc \<noteq> STATUS_OK then (rc, W, old, s)
          else
            let (rc, s) = rt_free rt s old in
            if rc \<noteq> STATUS_OK then (rc, W, old, snd (rt_free rt s new)) else (STATUS_OK, W', new, rt_commit rt s new))"

section \<open>The invariant of a window\<close>

definition deadline_of :: "window_deadline \<Rightarrow> 64 word option" where
  "deadline_of d = (if dl_timed d then Some (dl_at d) else None)"

abbreviation stored_events :: "('k, 'r) window \<Rightarrow> string input_fact list" where
  "stored_events w \<equiv> drop (w_static_count w) (input_edb_view (active_input w))"

definition event_deadlines :: "('k, 'r) window \<Rightarrow> 64 word option list" where
  "event_deadlines w =
     (let n = length (stored_events w)
      in if w_deadlines w = [] then replicate n None else map deadline_of (take n (w_deadlines w ! w_active w)))"

definition log_window :: "('k, 'r) window \<Rightarrow> event_log" where
  "log_window w =
     \<lparr>el_capacity = w_capacity w, el_static_capacity = w_static_capacity w, el_room = ie_text_capacity (active_input w),
      el_timed = (w_deadlines w \<noteq> []), el_static = take (w_static_count w) (input_edb_view (active_input w)),
      el_events = zip (stored_events w) (event_deadlines w), el_next = w_next w,
      el_now = (if w_has_now w then Some (w_now w) else None)\<rparr>"

definition bank_ok :: "('k, 'r) window \<Rightarrow> nat \<Rightarrow> bool" where
  "bank_ok w i \<longleftrightarrow> input_inv (w_inputs w ! i) \<and> ie_capacity (w_inputs w ! i) = w_capacity w + w_static_capacity w \<and>
     ie_text_capacity (w_inputs w ! i) = ie_text_capacity (active_input w)"

definition window_inv :: "('k, 'r) window \<Rightarrow> bool" where
  "window_inv w \<longleftrightarrow> w_result w \<noteq> None \<and> \<not> w_busy w \<and> w_active w < 2 \<and> length (w_inputs w) = 2 \<and> bank_ok w 0 \<and> bank_ok w 1 \<and>
     0 < w_capacity w \<and> w_static_count w \<le> w_static_capacity w \<and> w_static_count w \<le> length (input_edb_view (active_input w)) \<and>
     length (stored_events w) \<le> w_capacity w \<and> list_all stored_fact (input_edb_view (active_input w)) \<and>
     (w_deadlines w \<noteq> [] \<longrightarrow> length (w_deadlines w) = 2 \<and> list_all (\<lambda>dls. length dls = w_capacity w) (w_deadlines w)) \<and>
     w_next w \<le> INT32_MAX + 1"

lemma inv_bank: "window_inv w \<Longrightarrow> i < 2 \<Longrightarrow> bank_ok w i"
  by (auto simp: window_inv_def less_2_cases_iff)

lemma inv_deadlines: "window_inv w \<Longrightarrow> w_deadlines w \<noteq> [] \<Longrightarrow> i < 2 \<Longrightarrow> length (w_deadlines w ! i) = w_capacity w"
  by (auto simp: window_inv_def list_all_length)

lemma event_deadlines_length: "window_inv w \<Longrightarrow> length (event_deadlines w) = length (stored_events w)"
  using inv_deadlines[of w "w_active w"] by (auto simp: event_deadlines_def Let_def window_inv_def)

lemma log_window_facts:
  assumes "window_inv w"
  shows "map fst (el_events (log_window w)) = stored_events w" "map snd (el_events (log_window w)) = event_deadlines w"
    "length (el_events (log_window w)) = length (stored_events w)" "log_facts (log_window w) = input_edb_view (active_input w)"
  using event_deadlines_length[OF assms] by (simp_all add: log_window_def log_facts_def del: length_drop)

section \<open>Building a bank\<close>

text \<open>A bank after a batch was appended piece by piece to the cleared store.\<close>

definition banked :: "nat \<Rightarrow> nat \<Rightarrow> host_fact list \<Rightarrow> status \<times> input_edb \<Rightarrow> bool" where
  "banked capacity room batch st \<longleftrightarrow> input_inv (snd st) \<and> ie_capacity (snd st) = capacity \<and> ie_text_capacity (snd st) = room \<and>
     fst st = fst (log_add capacity room [] batch) \<and> (fst st = STATUS_OK \<longrightarrow> log_add capacity room [] batch = (STATUS_OK, input_edb_view (snd st)))"

lemma banked_clear:
  "input_inv e \<Longrightarrow> banked (ie_capacity e) (ie_text_capacity e) [] (STATUS_OK, input_edb_clear e)"
  using input_store.clear_refines[of e] by (simp add: banked_def log_add_def)

lemma log_add_unchanged: "log_add capacity room log batch = (rc, log') \<Longrightarrow> rc \<noteq> STATUS_OK \<Longrightarrow> log' = log"
  by (auto simp: log_add_def split: if_splits sum.splits)

lemma banked_refused:
  assumes "banked capacity room batch st" "fst st \<noteq> STATUS_OK" "length batch + length extra \<le> capacity"
  shows "banked capacity room (batch @ extra) st"
proof -
  have "fst (log_add capacity room [] (batch @ extra)) = fst st"
    using assms by (subst log_add_append) (auto simp: banked_def split: prod.splits)
  then show ?thesis using assms(1,2) by (simp add: banked_def)
qed

lemma banked_more:
  assumes "banked capacity room batch st" "batch_ok extra" "length batch + length extra \<le> capacity"
  shows "\<exists>st'. add_more (Some st) extra = Some st' \<and> banked capacity room (batch @ extra) st'"
proof -
  obtain rc e where st: "st = (rc, e)" by fastforce
  have both: "log_add capacity room [] (batch @ extra) =
    (case log_add capacity room [] batch of
       (rc, log') \<Rightarrow> if rc \<noteq> STATUS_OK then (rc, [])
         else case log_add capacity room log' extra of (rc', log'') \<Rightarrow> if rc' \<noteq> STATUS_OK then (rc', []) else (rc', log''))"
    using assms(3) by (intro log_add_append) simp
  have inv: "input_inv e" "ie_capacity e = capacity" "ie_text_capacity e = room" "rc = fst (log_add capacity room [] batch)"
    using assms(1) by (auto simp: banked_def st)
  show ?thesis
  proof (cases "rc = STATUS_OK")
    case False
    then show ?thesis using banked_refused[OF assms(1) _ assms(3)] by (simp add: st)
  next
    case True
    then have log: "log_add capacity room [] batch = (STATUS_OK, input_edb_view e)" using assms(1) by (simp add: banked_def st)
    show ?thesis
    proof (cases rule: input_store.append_cases[OF inv(1) assms(2)])
      case (1 f)
      then show ?thesis using True both log inv by (simp add: st banked_def)
    next
      case (2 rc')
      then show ?thesis using True both log inv by (auto simp: st banked_def)
    qed
  qed
qed

lemma batch_ok_append: "batch_ok (a @ b) \<longleftrightarrow> batch_ok a \<and> batch_ok b"
  by (auto simp: batch_ok_def c_texts_def)

lemma banked_view:
  assumes "banked capacity room batch (STATUS_OK, e)" "batch_ok batch"
  shows "input_edb_view e = map host_view batch" "list_all stored_fact (input_edb_view e)"
  using log_add_stored[of capacity room batch "input_edb_view e"] assms by (simp_all add: banked_def)

lemma retained_simps [simp]: "length (retained fs) = length fs" "retained [] = []" "retained (a @ b) = retained a @ retained b"
  by (simp_all add: retained_def)

lemma keep_events_banked:
  assumes "banked capacity room batch st" "length batch + length evs \<le> capacity" "kept + length evs \<le> length dls"
    "list_all stored_fact (map snd evs)"
  shows "\<exists>rc e dls'. keep_events time evs st dls kept = Some (rc, e, dls') \<and>
    banked capacity room (batch @ retained (map snd (filter (\<lambda>e. \<not> due time (fst e)) evs))) (rc, e) \<and> length dls' = length dls \<and>
    (rc = STATUS_OK \<longrightarrow> take (kept + length (filter (\<lambda>e. \<not> due time (fst e)) evs)) dls' =
       take kept dls @ map fst (filter (\<lambda>e. \<not> due time (fst e)) evs))"
  using assms
proof (induction evs arbitrary: batch st dls kept)
  case Nil
  then show ?case by (cases st) simp
next
  case (Cons ev evs)
  obtain d f where ev: "ev = (d, f)" by fastforce
  let ?left = "\<lambda>evs. filter (\<lambda>e. \<not> due time (fst e)) evs"
  have small: "length batch + length (retained (map snd (?left (ev # evs)))) \<le> capacity"
    using Cons.prems(2) length_filter_le[of "\<lambda>e. \<not> due time (fst e)" "ev # evs"] by (simp only: retained_simps length_map)
  consider "fst st \<noteq> STATUS_OK" | "fst st = STATUS_OK" "due time d" | "fst st = STATUS_OK" "\<not> due time d" by blast
  then show ?case
  proof cases
    case 1
    then show ?thesis using banked_refused[OF Cons.prems(1) 1 small] by (cases st) (simp add: ev)
  next
    case 2
    then show ?thesis using Cons.IH[OF Cons.prems(1), of kept dls] Cons.prems by (simp add: ev)
  next
    case 3
    have f: "batch_ok (retained [f])" using stored_retained(3)[of "[f]"] Cons.prems(4) by (simp add: ev)
    obtain st' where st': "input_edb_add_facts (snd st) (retained [f]) = Some st'" "banked capacity room (batch @ retained [f]) st'"
      using banked_more[OF Cons.prems(1) f] Cons.prems(2) 3(1) by (cases st) auto
    have step: "keep_events time (ev # evs) st dls kept = keep_events time evs st' (dls[kept := d]) (kept + 1)"
      using 3 st'(1) by (simp add: ev)
    have "take (kept + 1) (dls[kept := d]) = take kept dls @ [d]"
      using Cons.prems(3) by (simp add: take_Suc_conv_app_nth)
    moreover have "retained [f] @ retained (map snd (?left evs)) = retained (map snd (?left (ev # evs)))"
      using 3(2) by (simp add: ev retained_def)
    ultimately show ?thesis
      using Cons.IH[OF st'(2), of "kept + 1" "dls[kept := d]"] Cons.prems 3(2) unfolding step by (simp add: ev)
  qed
qed

section \<open>The candidate\<close>

definition bank_shape :: "('k, 'r) window \<Rightarrow> input_edb \<Rightarrow> window_deadline list \<Rightarrow> bool" where
  "bank_shape w edb dls \<longleftrightarrow> input_inv edb \<and> ie_capacity edb = w_capacity w + w_static_capacity w \<and>
     ie_text_capacity edb = ie_text_capacity (active_input w) \<and> length dls = (if w_deadlines w = [] then 0 else w_capacity w)"

definition bank_holds :: "('k, 'r) window \<Rightarrow> event_log \<Rightarrow> input_edb \<Rightarrow> window_deadline list \<Rightarrow> bool" where
  "bank_holds w W edb dls \<longleftrightarrow> input_edb_view edb = log_facts W \<and> list_all stored_fact (input_edb_view edb) \<and>
     length (el_events W) \<le> w_capacity w \<and>
     map snd (el_events W) = (if w_deadlines w = [] then replicate (length (el_events W)) None
                              else map deadline_of (take (length (el_events W)) dls))"

lemma bank_start:
  assumes "window_inv w" "batch_ok first" "length first \<le> w_capacity w + w_static_capacity w"
  shows "\<exists>st. add_more (Some (STATUS_OK, input_edb_clear (w_inputs w ! (1 - w_active w)))) first = Some st \<and>
    banked (w_capacity w + w_static_capacity w) (ie_text_capacity (active_input w)) first st"
proof -
  have "bank_ok w (1 - w_active w)" using assms(1) by (intro inv_bank) (auto simp: window_inv_def)
  then have "banked (w_capacity w + w_static_capacity w) (ie_text_capacity (active_input w)) []
      (STATUS_OK, input_edb_clear (w_inputs w ! (1 - w_active w)))"
    using banked_clear[of "w_inputs w ! (1 - w_active w)"] by (simp add: bank_ok_def)
  from banked_more[OF this assms(2)] show ?thesis using assms(3) by simp
qed

lemma stored_parts:
  assumes "window_inv w"
  shows "list_all stored_fact (take (w_static_count w) (input_edb_view (active_input w)))"
    "list_all stored_fact (drop n (input_edb_view (active_input w)))"
    "length (take (w_static_count w) (input_edb_view (active_input w))) \<le> w_static_capacity w"
  using assms by (auto simp: window_inv_def list_all_iff dest: in_set_takeD in_set_dropD)

definition bank_deadlines :: "('k, 'r) window \<Rightarrow> nat \<Rightarrow> window_deadline list" where
  "bank_deadlines w i = (if w_deadlines w \<noteq> [] then w_deadlines w ! i else [])"

lemma bank_deadlines_length:
  assumes "window_inv w"
  shows "length (bank_deadlines w (w_active w)) = (if w_deadlines w = [] then 0 else w_capacity w)"
    "length (bank_deadlines w (1 - w_active w)) = (if w_deadlines w = [] then 0 else w_capacity w)"
  using inv_deadlines[OF assms, of "w_active w"] inv_deadlines[OF assms, of "1 - w_active w"] assms
  by (auto simp: window_inv_def bank_deadlines_def)

lemma candidate_replace:
  assumes inv: "window_inv w" and ok: "batch_ok facts" and fits: "length facts \<le> w_static_capacity w"
  shows "\<exists>rc edb dls. candidate_bank w facts WINDOW_REPLACE_STATIC time = Some (rc, edb, dls) \<and> bank_shape w edb dls \<and>
    (case next_log (log_window w) facts WINDOW_REPLACE_STATIC time of
       Inl rc' \<Rightarrow> rc = rc' \<and> rc \<noteq> STATUS_OK | Inr W \<Rightarrow> rc = STATUS_OK \<and> bank_holds w W edb dls)"
proof -
  let ?c = "w_capacity w + w_static_capacity w" and ?room = "ie_text_capacity (active_input w)"
  let ?batch = "facts @ retained (stored_events w)"
  have events: "batch_ok (retained (stored_events w))" "length (stored_events w) \<le> w_capacity w"
    "map host_view (retained (stored_events w)) = stored_events w"
    using stored_retained[OF stored_parts(2)[OF inv]] inv by (auto simp: window_inv_def)
  obtain st where st: "add_more (Some (STATUS_OK, input_edb_clear (w_inputs w ! (1 - w_active w)))) facts = Some st"
    "banked ?c ?room facts st" using bank_start[OF inv ok] fits by auto
  obtain rc edb where two: "add_more (Some st) (retained (stored_events w)) = Some (rc, edb)" "banked ?c ?room ?batch (rc, edb)"
    using banked_more[OF st(2) events(1)] events(2) fits by (auto simp del: length_drop)
  let ?old = "bank_deadlines w (w_active w)" and ?dls = "bank_deadlines w (1 - w_active w)"
  let ?new = "if rc = STATUS_OK \<and> w_deadlines w \<noteq> [] then copy_deadlines (take (length (stored_events w)) ?old) ?dls else ?dls"
  note lens = bank_deadlines_length[OF inv]
  have cand: "candidate_bank w facts WINDOW_REPLACE_STATIC time = Some (rc, edb, ?new)"
    using st(1) two(1) by (simp add: candidate_bank_def Let_def bank_deadlines_def)
  have shape: "bank_shape w edb ?new" using two(2) lens events(2) by (auto simp: bank_shape_def banked_def copy_deadlines_def)
  have log: "map fst (el_events (log_window w)) = stored_events w" "length (el_events (log_window w)) = length (stored_events w)"
    "map snd (el_events (log_window w)) = event_deadlines w" using log_window_facts[OF inv] by simp_all
  have rc: "rc = admission (log_window w) ?batch"
    using two(2) by (simp add: admission_def banked_def log_window_def)
  show ?thesis
  proof (cases "rc = STATUS_OK")
    case False
    then show ?thesis using cand shape rc log(1) by auto
  next
    case True
    let ?W = "(log_window w)\<lparr>el_static := map host_view facts\<rparr>"
    have "batch_ok ?batch" using ok events(1) by (simp add: batch_ok_append)
    then have view: "input_edb_view edb = map host_view facts @ stored_events w" "list_all stored_fact (input_edb_view edb)"
      using banked_view[of ?c ?room ?batch edb] two(2) True events(3) by auto
    have "bank_holds w ?W edb ?new"
      using view events(2) log lens True
      by (auto simp: bank_holds_def log_facts_def event_deadlines_def Let_def copy_deadlines_def bank_deadlines_def simp del: length_drop)
    then show ?thesis using cand shape rc log(1) True by auto
  qed
qed

lemma pushed_deadlines:
  assumes inv: "window_inv w" and timed: "w_deadlines w \<noteq> []"
    and skip: "skip = (if length (stored_events w) = w_capacity w then 1 else 0)" and k: "k = length (stored_events w) - skip"
  shows "map deadline_of (take (k + 1) ((copy_deadlines (take k (drop skip (bank_deadlines w (w_active w))))
      (bank_deadlines w (1 - w_active w)))[k := new_deadline time])) = drop skip (event_deadlines w) @ [time]"
proof -
  let ?src = "take k (drop skip (bank_deadlines w (w_active w)))" and ?dls = "bank_deadlines w (1 - w_active w)"
  have len: "length (bank_deadlines w (w_active w)) = w_capacity w" "length ?dls = w_capacity w"
    using bank_deadlines_length[OF inv] timed by simp_all
  have small: "0 < w_capacity w" "length (stored_events w) \<le> w_capacity w" using inv by (auto simp: window_inv_def)
  then have src: "length ?src = k" "k < w_capacity w" using len skip k by auto
  then have "take (k + 1) ((copy_deadlines ?src ?dls)[k := new_deadline time]) = ?src @ [new_deadline time]"
    using len(2) by (simp add: copy_deadlines_def take_Suc_conv_app_nth)
  moreover have "?src = drop skip (take (length (stored_events w)) (bank_deadlines w (w_active w)))"
    by (simp add: drop_take k)
  ultimately show ?thesis using timed
    by (simp add: event_deadlines_def Let_def bank_deadlines_def drop_map new_deadline_def deadline_of_def split: option.splits del: length_drop)
qed

lemma candidate_push:
  assumes inv: "window_inv w" and ok: "batch_ok facts" and one: "length facts = 1" and timed: "time \<noteq> None \<longrightarrow> w_deadlines w \<noteq> []"
  shows "\<exists>rc edb dls. candidate_bank w facts WINDOW_PUSH time = Some (rc, edb, dls) \<and> bank_shape w edb dls \<and>
    (case next_log (log_window w) facts WINDOW_PUSH time of
       Inl rc' \<Rightarrow> rc = rc' \<and> rc \<noteq> STATUS_OK | Inr W \<Rightarrow> rc = STATUS_OK \<and> bank_holds w W edb dls)"
proof -
  let ?c = "w_capacity w + w_static_capacity w" and ?room = "ie_text_capacity (active_input w)"
  let ?view = "input_edb_view (active_input w)" and ?n = "w_static_count w"
  define skip where "skip = (if length (stored_events w) = w_capacity w then 1 else 0 :: nat)"
  let ?static = "take ?n ?view" and ?kept = "drop (?n + skip) ?view"
  let ?batch = "retained ?static @ retained ?kept @ facts"
  have pos: "0 < w_capacity w" "length (stored_events w) \<le> w_capacity w" "?n \<le> length ?view" using inv by (auto simp: window_inv_def)
  have kept: "length ?kept = length (stored_events w) - skip" "length ?kept + 1 \<le> w_capacity w" "?kept = drop skip (stored_events w)"
    using pos by (auto simp: skip_def add.commute)
  note parts = stored_parts[OF inv] and static = stored_retained[OF stored_parts(1)[OF inv]]
    and tail = stored_retained[OF stored_parts(2)[OF inv, of "?n + skip"]]
  obtain st where st: "add_more (Some (STATUS_OK, input_edb_clear (w_inputs w ! (1 - w_active w)))) (retained ?static) = Some st"
    "banked ?c ?room (retained ?static) st" using bank_start[OF inv static(3)] parts(3) by auto
  obtain rc2 edb2 where two: "add_more (Some st) (retained ?kept) = Some (rc2, edb2)"
    "banked ?c ?room (retained ?static @ retained ?kept) (rc2, edb2)"
    using banked_more[OF st(2) tail(3)] parts(3) kept(2) by (auto simp del: length_drop length_take)
  obtain rc edb where three: "add_more (Some (rc2, edb2)) facts = Some (rc, edb)" "banked ?c ?room ?batch (rc, edb)"
    using banked_more[OF two(2) ok] parts(3) kept(2) one by (auto simp del: length_drop length_take)
  let ?old = "bank_deadlines w (w_active w)" and ?dls = "bank_deadlines w (1 - w_active w)"
  let ?copy = "if rc2 = STATUS_OK \<and> w_deadlines w \<noteq> [] then copy_deadlines (take (length ?kept) (drop skip ?old)) ?dls else ?dls"
  let ?new = "if rc2 = STATUS_OK then ?copy[length ?kept := new_deadline time] else ?copy"
  note lens = bank_deadlines_length[OF inv]
  have cand: "candidate_bank w facts WINDOW_PUSH time = Some (rc, edb, ?new)"
    using st(1) two(1) three(1) kept(1) by (auto simp: candidate_bank_def Let_def bank_deadlines_def skip_def)
  have shape: "bank_shape w edb ?new" using three(2) lens kept(2) by (auto simp: bank_shape_def banked_def copy_deadlines_def)
  have kept_log: "kept_events (log_window w) = drop skip (el_events (log_window w))"
    using log_window_facts(3)[OF inv] by (simp add: kept_events_def skip_def log_window_def drop_Suc)
  then have fsts: "map fst (kept_events (log_window w)) = ?kept" and snds: "map snd (kept_events (log_window w)) = drop skip (event_deadlines w)"
    using log_window_facts[OF inv] kept by (simp_all add: drop_map[symmetric] del: drop_drop length_drop)
  have n: "length (kept_events (log_window w)) = length ?kept" using arg_cong[OF fsts, of length] by (simp del: length_drop)
  have rc: "rc = admission (log_window w) ?batch" using three(2) by (simp add: admission_def banked_def log_window_def)
  have next_log: "next_log (log_window w) facts WINDOW_PUSH time = (if rc \<noteq> STATUS_OK then Inl rc else Inr ((log_window w)
      \<lparr>el_events := kept_events (log_window w) @ map (\<lambda>f. (host_view f, time)) facts, el_next := w_next w + 1\<rparr>))" (is "_ = (if _ then _ else Inr ?W)")
    using rc fsts by (simp add: log_window_def)
  show ?thesis
  proof (cases "rc = STATUS_OK")
    case False
    then show ?thesis using cand shape next_log by auto
  next
    case True
    then have rc2: "rc2 = STATUS_OK" using three(1) by (auto split: if_splits)
    obtain f where f: "facts = [f]" using one by (cases facts) auto
    have "batch_ok ?batch" using ok static(3) tail(3) by (simp add: batch_ok_append)
    then have view: "input_edb_view edb = ?static @ ?kept @ [host_view f]" "list_all stored_fact (input_edb_view edb)"
      using banked_view[of ?c ?room ?batch edb] three(2) True static(2) tail(2) f by auto
    have facts: "log_facts ?W = input_edb_view edb" using view fsts f by (simp add: log_facts_def log_window_def)
    have dls: "map deadline_of (take (length ?kept + 1) ?new) = drop skip (event_deadlines w) @ [time]" if t: "w_deadlines w \<noteq> []"
      using pushed_deadlines[OF inv t skip_def kept(1)] rc2 t by simp
    have "bank_holds w ?W edb ?new"
      using view facts kept n snds f dls timed
      by (auto simp: bank_holds_def event_deadlines_def replicate_append_same)
    then show ?thesis using cand shape next_log True by auto
  qed
qed

lemma filter_zip_due:
  assumes "length fs = length ds"
  shows "map snd (filter (\<lambda>e. \<not> due t (fst e)) (zip ds fs)) =
      map fst (filter (\<lambda>e. \<not> expires_by t (snd e)) (zip fs (map deadline_of ds)))"
    "map deadline_of (map fst (filter (\<lambda>e. \<not> due t (fst e)) (zip ds fs))) =
      map snd (filter (\<lambda>e. \<not> expires_by t (snd e)) (zip fs (map deadline_of ds)))"
    "length (filter (due t) ds) = length (filter (\<lambda>e. expires_by t (snd e)) (zip fs (map deadline_of ds)))"
  using assms by (induction fs ds rule: list_induct2) (auto simp: due_def expires_by_def deadline_of_def)

lemma candidate_expire:
  assumes inv: "window_inv w" and timed: "w_deadlines w \<noteq> []"
  shows "\<exists>rc edb dls. candidate_bank w [] WINDOW_EXPIRE (Some t) = Some (rc, edb, dls) \<and> bank_shape w edb dls \<and>
    (case next_log (log_window w) [] WINDOW_EXPIRE (Some t) of
       Inl rc' \<Rightarrow> rc = rc' \<and> rc \<noteq> STATUS_OK | Inr W \<Rightarrow> rc = STATUS_OK \<and> bank_holds w W edb dls)"
proof -
  let ?c = "w_capacity w + w_static_capacity w" and ?room = "ie_text_capacity (active_input w)"
  let ?view = "input_edb_view (active_input w)" and ?n = "w_static_count w"
  let ?static = "take ?n ?view" and ?events = "stored_events w" and ?dls = "bank_deadlines w (1 - w_active w)"
  let ?ds = "take (length ?events) (bank_deadlines w (w_active w))"
  let ?evs = "zip ?ds ?events"
  let ?left = "filter (\<lambda>e. \<not> due t (fst e)) ?evs"
  let ?batch = "retained ?static @ retained (map snd ?left)"
  note lens = bank_deadlines_length[OF inv] and parts = stored_parts[OF inv] and static = stored_retained[OF stored_parts(1)[OF inv]]
  have small: "length ?events \<le> w_capacity w" "length ?view \<le> ?c" "text_size (log_texts ?view) \<le> ?room"
    using inv inv_bank[OF inv, of "w_active w"] input_store.fits[of "active_input w"] by (auto simp: window_inv_def bank_ok_def active_input_def)
  have ds: "length ?events = length ?ds" using lens(1) timed small(1) by simp
  have evs: "list_all stored_fact (map snd ?evs)" using parts(2)[of ?n] ds by (simp del: length_drop length_take)
  obtain st where st: "add_more (Some (STATUS_OK, input_edb_clear (w_inputs w ! (1 - w_active w)))) (retained ?static) = Some st"
    "banked ?c ?room (retained ?static) st" using bank_start[OF inv static(3)] parts(3) by auto
  have "length (retained ?static) + length ?evs \<le> ?c" "0 + length ?evs \<le> length ?dls"
    using parts(3) small(1) lens(2) timed by (auto simp del: length_drop)
  from keep_events_banked[OF st(2) this evs, of t] obtain rc edb dls where keep:
    "keep_events t ?evs st ?dls 0 = Some (rc, edb, dls)" "banked ?c ?room ?batch (rc, edb)" "length dls = length ?dls"
    "rc = STATUS_OK \<longrightarrow> take (length ?left) dls = map fst ?left" by auto
  have cand: "candidate_bank w [] WINDOW_EXPIRE (Some t) = Some (rc, edb, dls)"
    using st(1) keep(1) timed by (simp add: candidate_bank_def Let_def bank_deadlines_def)
  have shape: "bank_shape w edb dls" using keep lens(2) by (auto simp: bank_shape_def banked_def)
  let ?facts = "?static @ map snd ?left"
  have "snd e \<in> set ?view" if "e \<in> set ?evs" for e using that set_zip_rightD[of "fst e" "snd e"] in_set_dropD by fastforce
  then have sub: "set ?facts \<subseteq> set ?view" by (auto dest: in_set_takeD)
  have "list_all stored_fact ?facts" using sub inv by (auto simp: window_inv_def list_all_iff)
  moreover have "text_size (log_texts ?facts) \<le> ?room" using log_texts_smaller[OF sub] small(3) by linarith
  moreover have "length ?facts \<le> ?c"
    using length_filter_le[of "\<lambda>e. \<not> due t (fst e)" ?evs] parts(3) small(1) by (auto simp del: length_filter_le)
  ultimately have "log_add ?c ?room [] (retained ?facts) = (STATUS_OK, ?facts)" by (rule readmitted)
  then have ok: "rc = STATUS_OK" and view: "input_edb_view edb = ?facts" using keep(2) by (auto simp: banked_def)
  let ?W = "(log_window w)\<lparr>el_events := filter (\<lambda>e. \<not> expires_by t (snd e)) (el_events (log_window w)), el_now := Some t\<rparr>"
  have log: "el_events (log_window w) = zip ?events (map deadline_of ?ds)"
    using timed by (simp add: log_window_def event_deadlines_def Let_def bank_deadlines_def)
  note due = filter_zip_due[OF ds, of t]
  have n: "length (el_events ?W) = length ?left" using arg_cong[OF due(1), of length] log by simp
  have "length ?left \<le> w_capacity w" using length_filter_le[of "\<lambda>e. \<not> due t (fst e)" ?evs] small(1) by simp
  moreover have "log_facts ?W = ?facts" using due(1) log by (simp add: log_facts_def log_window_def)
  moreover have "map snd (el_events ?W) = map deadline_of (take (length ?left) dls)" using due(2) log keep(4) ok by simp
  ultimately have "bank_holds w ?W edb dls"
    using view timed n \<open>list_all stored_fact ?facts\<close> unfolding bank_holds_def by auto
  then show ?thesis using cand shape ok by auto
qed

end
