(* ===== verification/Window_Props.thy ===== *)
theory Window_Props
  imports Window_Refine
begin

text \<open>
  The properties of the event window: its updates refine the updates of the log, and the invariant of every window a
  host can reach.
\<close>

section \<open>Installing and publishing a candidate\<close>

definition install_bank :: "('k, 'r) window \<Rightarrow> input_edb \<Rightarrow> window_deadline list \<Rightarrow> ('k, 'r) window" where
  "install_bank w edb dls =
     w\<lparr>w_inputs := (w_inputs w)[1 - w_active w := edb],
       w_deadlines := (if w_deadlines w = [] then [] else (w_deadlines w)[1 - w_active w := dls])\<rparr>"

lemma install_simps [simp]:
  "w_active (install_bank w edb dls) = w_active w" "w_result (install_bank w edb dls) = w_result w"
  "w_static_count (install_bank w edb dls) = w_static_count w" "w_next (install_bank w edb dls) = w_next w"
  "w_capacity (install_bank w edb dls) = w_capacity w" "w_static_capacity (install_bank w edb dls) = w_static_capacity w"
  "w_sessions (install_bank w edb dls) = w_sessions w" "w_busy (install_bank w edb dls) = w_busy w"
  "w_now (install_bank w edb dls) = w_now w" "w_has_now (install_bank w edb dls) = w_has_now w"
  "w_deadlines (install_bank w edb dls) = [] \<longleftrightarrow> w_deadlines w = []" "length (w_inputs (install_bank w edb dls)) = length (w_inputs w)"
  by (simp_all add: install_bank_def)

lemma other_bank: "window_inv w \<Longrightarrow> 1 - w_active w < 2 \<and> 1 - w_active w \<noteq> w_active w \<and> w_active w < 2 \<and>
    length (w_inputs w) = 2 \<and> (w_deadlines w \<noteq> [] \<longrightarrow> length (w_deadlines w) = 2)"
  unfolding window_inv_def by presburger

lemma install_banks:
  assumes "window_inv w"
  shows "active_input (install_bank w edb dls) = active_input w" "w_inputs (install_bank w edb dls) ! (1 - w_active w) = edb"
    "w_deadlines w \<noteq> [] \<Longrightarrow> w_deadlines (install_bank w edb dls) ! w_active w = w_deadlines w ! w_active w"
    "w_deadlines w \<noteq> [] \<Longrightarrow> w_deadlines (install_bank w edb dls) ! (1 - w_active w) = dls"
  using other_bank[OF assms] by (simp_all add: install_bank_def active_input_def)

lemma install_log: "window_inv w \<Longrightarrow> log_window (install_bank w edb dls) = log_window w"
  by (simp add: log_window_def event_deadlines_def install_banks Let_def)

lemma install_inv:
  assumes inv: "window_inv w" and shape: "bank_shape w edb dls"
  shows "window_inv (install_bank w edb dls)"
proof -
  let ?w = "install_bank w edb dls"
  have bank: "bank_ok ?w i" if "i < 2" for i
    using inv_bank[OF inv that] shape install_banks(1)[OF inv] other_bank[OF inv]
    by (cases "i = 1 - w_active w") (auto simp: bank_ok_def bank_shape_def install_bank_def)
  have "w_deadlines w \<noteq> [] \<Longrightarrow> length (w_deadlines ?w) = 2 \<and> list_all (\<lambda>dls. length dls = w_capacity w) (w_deadlines ?w)"
    using inv shape by (auto simp: install_bank_def window_inv_def bank_shape_def list_all_iff dest!: subsetD[OF set_update_subset_insert])
  then show ?thesis using inv bank[of 0] bank[of 1] by (simp add: window_inv_def install_banks(1)[OF inv])
qed

lemma next_log_fields:
  "next_log W facts op time = Inr W' \<Longrightarrow>
     el_capacity W' = el_capacity W \<and> el_static_capacity W' = el_static_capacity W \<and> el_room W' = el_room W \<and> el_timed W' = el_timed W \<and>
     el_next W' = (if op = WINDOW_PUSH then el_next W + 1 else el_next W) \<and>
     el_now W' = (if op = WINDOW_EXPIRE then time else el_now W) \<and>
     length (el_static W') = (if op = WINDOW_REPLACE_STATIC then length facts else length (el_static W))"
  by (cases op) (auto simp: Let_def split: if_splits)

definition published_window ::
  "('k, 'r) window \<Rightarrow> 'r \<Rightarrow> host_fact list \<Rightarrow> window_op \<Rightarrow> 64 word option \<Rightarrow> ('k, 'r) window" where
  "published_window w result facts op time =
     w\<lparr>w_result := Some result, w_active := 1 - w_active w,
       w_static_count := (if op = WINDOW_REPLACE_STATIC then length facts else w_static_count w),
       w_next := (if op = WINDOW_PUSH then w_next w + 1 else w_next w),
       w_now := (if op = WINDOW_EXPIRE then the time else w_now w),
       w_has_now := (op = WINDOW_EXPIRE \<or> w_has_now w)\<rparr>"

lemma published_window_ok:
  assumes inv: "window_inv w" and shape: "bank_shape w edb dls" and holds: "bank_holds w W edb dls"
    and log: "next_log (log_window w) facts op time = Inr W"
    and guard: "op = WINDOW_REPLACE_STATIC \<longrightarrow> length facts \<le> w_static_capacity w" "op = WINDOW_PUSH \<longrightarrow> w_next w \<le> INT32_MAX"
      "op = WINDOW_EXPIRE \<longrightarrow> time \<noteq> None"
  shows "window_inv (published_window (install_bank w edb dls) r facts op time) \<and>
    log_window (published_window (install_bank w edb dls) r facts op time) = W"
proof -
  let ?i = "install_bank w edb dls"
  let ?p = "published_window ?i r facts op time"
  have input: "active_input ?p = edb" using install_banks(2)[OF inv] by (simp add: published_window_def active_input_def)
  have same: "w_capacity ?p = w_capacity w" "w_static_capacity ?p = w_static_capacity w" "w_active ?p = 1 - w_active w"
    "w_inputs ?p = w_inputs ?i" "w_deadlines ?p = w_deadlines ?i" "w_busy ?p = w_busy w" "w_result ?p = Some r"
    by (simp_all add: published_window_def)
  note fields = next_log_fields[OF log]
  have count: "w_static_count ?p = length (el_static W)" "w_static_count ?p \<le> w_static_capacity w"
    using fields guard(1) inv by (auto simp: published_window_def log_window_def window_inv_def)
  have view: "input_edb_view edb = el_static W @ map fst (el_events W)" "list_all stored_fact (input_edb_view edb)"
    "length (el_events W) \<le> w_capacity w" using holds by (auto simp: bank_holds_def log_facts_def)
  have dls: "event_deadlines ?p = map snd (el_events W)"
  proof -
    have "stored_events ?p = map fst (el_events W)" using view(1) count(1) by (simp add: input)
    then show ?thesis using holds install_banks(4)[OF inv] by (simp add: event_deadlines_def same bank_holds_def)
  qed
  have room: "ie_text_capacity edb = ie_text_capacity (active_input w)" using shape by (simp add: bank_shape_def)
  have "bank_ok ?p j" if "j < 2" for j
    using inv_bank[OF install_inv[OF inv shape] that] by (auto simp: bank_ok_def same input room install_banks(1)[OF inv])
  then have "bank_ok ?p 0" "bank_ok ?p 1" by simp_all
  moreover have "w_deadlines ?i \<noteq> [] \<longrightarrow> length (w_deadlines ?i) = 2 \<and> list_all (\<lambda>dls. length dls = w_capacity w) (w_deadlines ?i)"
    "length (w_inputs ?i) = 2" using install_inv[OF inv shape] by (auto simp: window_inv_def)
  moreover have "w_next ?p \<le> INT32_MAX + 1" using inv guard(2) by (auto simp: published_window_def window_inv_def)
  ultimately have "window_inv ?p"
    using inv count view other_bank[OF inv] by (simp add: window_inv_def same input)
  moreover have "log_window ?p = W"
  proof (rule event_log.equality)
    show "el_now (log_window ?p) = el_now W" using fields guard(3) by (auto simp: log_window_def published_window_def)
    show "el_next (log_window ?p) = el_next W" using fields by (auto simp: log_window_def published_window_def)
  qed (use fields in \<open>simp_all add: log_window_def input same count view dls room zip_map_fst_snd\<close>)
  ultimately show ?thesis by blast
qed

section \<open>Updates refine the log\<close>

fun op_args :: "window_op \<Rightarrow> host_fact list \<Rightarrow> 64 word option \<Rightarrow> bool" where
  "op_args WINDOW_PUSH facts time = (length facts = 1)"
| "op_args WINDOW_REPLACE_STATIC facts time = (time = None)"
| "op_args WINDOW_EXPIRE facts time = (facts = [] \<and> time \<noteq> None)"

lemma guard_log: "window_inv w \<Longrightarrow> update_guard w n op time = log_guard (log_window w) n op time"
  by (auto simp: update_guard_def log_guard_def window_readable_def log_window_def window_inv_def split: option.splits)

lemma due_log:
  assumes "window_inv w" "w_deadlines w \<noteq> []"
  shows "length (filter (due t) (take (length (input_edb_view (active_input w)) - w_static_count w) (w_deadlines w ! w_active w))) =
    log_due (log_window w) (Some t)"
proof -
  have "length (stored_events w) = length (take (length (stored_events w)) (w_deadlines w ! w_active w))"
    using inv_deadlines[OF assms, of "w_active w"] assms(1) by (simp add: window_inv_def)
  from filter_zip_due(3)[OF this, of t] show ?thesis
    using assms(2) by (simp add: log_due_def log_window_def event_deadlines_def Let_def)
qed

lemma guard_passed:
  assumes "log_guard (log_window w) (length facts) op time = STATUS_OK"
  shows "op = WINDOW_REPLACE_STATIC \<longrightarrow> length facts \<le> w_static_capacity w" "op = WINDOW_PUSH \<longrightarrow> w_next w \<le> INT32_MAX"
    "time \<noteq> None \<longrightarrow> w_deadlines w \<noteq> []"
  using assms by (auto simp: log_guard_def log_window_def split: if_splits)

lemma candidate_refines:
  assumes "window_inv w" "batch_ok facts" "op_args op facts time" "log_guard (log_window w) (length facts) op time = STATUS_OK"
  shows "\<exists>rc edb dls. candidate_bank w facts op time = Some (rc, edb, dls) \<and> bank_shape w edb dls \<and>
    (case next_log (log_window w) facts op time of
       Inl rc' \<Rightarrow> rc = rc' \<and> rc \<noteq> STATUS_OK | Inr W \<Rightarrow> rc = STATUS_OK \<and> bank_holds w W edb dls)"
proof (cases op)
  case WINDOW_PUSH
  then show ?thesis using candidate_push[OF assms(1,2)] assms(3) guard_passed(3)[OF assms(4)] by auto
next
  case WINDOW_REPLACE_STATIC
  then show ?thesis using candidate_replace[OF assms(1,2)] guard_passed(1)[OF assms(4)] by auto
next
  case WINDOW_EXPIRE
  then obtain t where "time = Some t" "facts = []" using assms(3) by auto
  then show ?thesis using candidate_expire[OF assms(1), of t] guard_passed(3)[OF assms(4)] WINDOW_EXPIRE by auto
qed

definition outcome_matches ::
  "('k, 'r) window \<Rightarrow> window_op \<Rightarrow> ('s, 'k, 'r) window_outcome \<Rightarrow> status \<times> event_log \<times> 'r \<times> 's \<Rightarrow> bool" where
  "outcome_matches w op out spec \<longleftrightarrow>
     (wr_status out, log_window (wr_window out), the (w_result (wr_window out)), wr_state out) = spec \<and>
     window_inv (wr_window out) \<and> w_sessions (wr_window out) = w_sessions w \<and>
     wr_occurrence out = (if wr_status out = STATUS_OK \<and> op = WINDOW_PUSH then Some (w_next w) else None)"

lemma commit_alt:
  "commit_candidate rt s w old facts op time expired =
     (case rt_solve rt s (w_sessions w ! (1 - w_active w)) (input_edb_view (w_inputs w ! (1 - w_active w))) of (rc, result, s) \<Rightarrow>
        if rc \<noteq> STATUS_OK then refuse_update s w rc
        else case rt_free rt s old of (rc, s) \<Rightarrow>
          if rc \<noteq> STATUS_OK then refuse_update (snd (rt_free rt s result)) w rc
          else \<lparr>wr_status = STATUS_OK, wr_occurrence = (if op = WINDOW_PUSH then Some (w_next w) else None),
                wr_expired = (if op = WINDOW_EXPIRE then Some expired else None),
                wr_window = published_window w result facts op time, wr_state = rt_commit rt s result\<rparr>)"
  unfolding commit_candidate_def published_window_def Let_def by (rule refl)

lemma update_refines:
  assumes inv: "window_inv w" and ok: "batch_ok facts" and args: "op_args op facts time"
  shows "\<exists>out. window_update rt s w facts op time = Some out \<and> outcome_matches w op out
    (log_update rt s (w_sessions w ! (1 - w_active w)) (the (w_result w)) (log_window w) facts op time)"
proof (cases "log_guard (log_window w) (length facts) op time = STATUS_OK")
  case False
  then show ?thesis using inv
    by (simp add: window_update_def guard_log[OF inv] log_update_def refuse_update_def outcome_matches_def)
next
  case True
  let ?due = "length (filter (due (the time)) (take (length (input_edb_view (active_input w)) - w_static_count w) (w_deadlines w ! w_active w)))"
  have due: "?due = log_due (log_window w) time" if "op = WINDOW_EXPIRE"
    using that args guard_passed(3)[OF True] due_log[OF inv] by auto
  show ?thesis
  proof (cases "op = WINDOW_EXPIRE \<and> log_due (log_window w) time = 0")
    case early: True
    let ?w = "w\<lparr>w_now := the time, w_has_now := True\<rparr>"
    have "log_window ?w = (log_window w)\<lparr>el_now := time\<rparr>"
      using early args by (auto simp: log_window_def event_deadlines_def active_input_def Let_def)
    moreover have "window_inv ?w" using inv by (simp add: window_inv_def bank_ok_def active_input_def)
    ultimately show ?thesis using early due True
      by (simp add: window_update_def guard_log[OF inv] log_update_def outcome_matches_def)
  next
    case False
    obtain rc edb dls where cand: "candidate_bank w facts op time = Some (rc, edb, dls)" and shape: "bank_shape w edb dls"
      and log: "case next_log (log_window w) facts op time of
         Inl rc' \<Rightarrow> rc = rc' \<and> rc \<noteq> STATUS_OK | Inr W \<Rightarrow> rc = STATUS_OK \<and> bank_holds w W edb dls"
      using candidate_refines[OF inv ok args True] by blast
    let ?i = "install_bank w edb dls"
    let ?expired = "if op = WINDOW_EXPIRE then ?due else 0"
    have late: "\<not> (op = WINDOW_EXPIRE \<and> ?expired = 0)" using False due by presburger
    have upd: "window_update rt s w facts op time =
        Some (if rc \<noteq> STATUS_OK then refuse_update s ?i rc else commit_candidate rt s ?i (the (w_result w)) facts op time ?expired)"
      unfolding window_update_def guard_log[OF inv] Let_def cand install_bank_def
      by (simp only: True late if_False not_True_eq_False refl simp_thms option.map prod.case cong: if_cong) (simp add: install_bank_def)
    note installed = install_inv[OF inv shape] install_log[OF inv]
    show ?thesis
    proof (cases "next_log (log_window w) facts op time")
      case (Inl rc')
      then show ?thesis using upd log installed True False
        by (auto simp: log_update_def refuse_update_def outcome_matches_def)
    next
      case (Inr W)
      then have holds: "rc = STATUS_OK" "bank_holds w W edb dls" using log by auto
      have "op = WINDOW_EXPIRE \<longrightarrow> time \<noteq> None" using args by auto
      note pub = published_window_ok[OF inv shape holds(2) Inr guard_passed(1,2)[OF True] this]
      have view: "input_edb_view (w_inputs ?i ! (1 - w_active w)) = log_facts W"
        using holds(2) install_banks(2)[OF inv] by (simp add: bank_holds_def)
      have "w_sessions (published_window ?i r facts op time) = w_sessions w" "w_result (published_window ?i r facts op time) = Some r" for r
        by (simp_all add: published_window_def)
      then show ?thesis using upd holds(1) installed pub view Inr True False
        by (auto simp: commit_alt log_update_def refuse_update_def outcome_matches_def split: prod.splits)
    qed
  qed
qed

text \<open>(C19) An update of an open window always returns and refines the update of its log: the status, the static facts, the
  events with their deadlines, the cursor, the watermark, the published result and the state of the sessions are those
  the log prescribes, whatever the session does. In particular a refused update, by a bound, by the solve or by the
  release of the old result, leaves all of them as they were, and an expiry is refused by the session only.\<close>

theorem window_update_refines:
  assumes "window_inv w" "batch_ok facts" "op_args op facts time"
  shows "\<exists>out. window_update rt s w facts op time = Some out \<and> outcome_matches w op out
    (log_update rt s (w_sessions w ! (1 - w_active w)) (the (w_result w)) (log_window w) facts op time)"
  by (rule update_refines[OF assms])

section \<open>Reachable windows\<close>

text \<open>A host opens a window and then calls its operations, the sessions being in any state at each call.\<close>

inductive reachable :: "('s, 'k, 'r) runtime \<Rightarrow> ('k, 'r) window \<Rightarrow> bool" for rt where
  opened: "window_init rt s n room options first a b stale = (Inr w, s') \<Longrightarrow> reachable rt w"
| pushed: "reachable rt w \<Longrightarrow> batch_ok [Input_fact (Some predicate) vs] \<Longrightarrow> push_event rt s w predicate vs deadline = Some out \<Longrightarrow>
    reachable rt (wr_window out)"
| expired: "reachable rt w \<Longrightarrow> window_expire rt s w now = Some out \<Longrightarrow> reachable rt (wr_window out)"
| replaced: "reachable rt w \<Longrightarrow> batch_ok facts \<Longrightarrow> window_replace_static rt s w facts = Some out \<Longrightarrow> reachable rt (wr_window out)"
| freed: "reachable rt w \<Longrightarrow> window_free rt s w = (rc, w', s') \<Longrightarrow> reachable rt w'"

definition event_id :: "string input_fact \<Rightarrow> int" where
  "event_id f = (case fact_terms f of VALUE_INTEGER i # _ \<Rightarrow> i | _ \<Rightarrow> -1)"

definition log_ok :: "event_log \<Rightarrow> bool" where
  "log_ok W \<longleftrightarrow> sorted_wrt (<) (map (event_id \<circ> fst) (el_events W)) \<and>
     (\<forall>e\<in>set (el_events W). 0 \<le> event_id (fst e) \<and> event_id (fst e) < int (el_next W)) \<and>
     (\<forall>now. el_now W = Some now \<longrightarrow> (\<forall>e\<in>set (el_events W). \<not> expires_by now (snd e)))"

lemma log_ok_subset:
  assumes "log_ok W" "el_events W' = filter P (el_events W) \<or> el_events W' = tl (el_events W)" "el_next W' = el_next W" "el_now W' = el_now W"
  shows "log_ok W'"
proof -
  have set: "set (el_events W') \<subseteq> set (el_events W)" using assms(2) by (cases "el_events W") (auto split: if_splits)
  have "sorted_wrt (<) (map (event_id \<circ> fst) (el_events W'))"
    using assms(1,2) by (cases "el_events W") (auto simp: log_ok_def sorted_wrt_map sorted_wrt_filter)
  then show ?thesis using assms(1,3,4) set by (auto simp: log_ok_def)
qed

lemma log_ok_push:
  assumes "log_ok W" "el_events W' = kept_events W @ [(f, time)]" "event_id f = int (el_next W)" "el_next W' = el_next W + 1"
    "el_now W' = el_now W" "\<And>now. el_now W = Some now \<Longrightarrow> \<not> expires_by now time"
  shows "log_ok W'"
proof -
  let ?K = "W\<lparr>el_events := kept_events W\<rparr>"
  have "log_ok ?K" using assms(1) log_ok_subset[of W ?K "\<lambda>_. True"] by (auto simp: kept_events_def)
  then show ?thesis using assms(2-) by (force simp: log_ok_def sorted_wrt_append)
qed

lemma expires_by_mono: "expires_by t d \<Longrightarrow> t \<le> u \<Longrightarrow> expires_by u d"
  by (auto simp: expires_by_def split: option.splits)

lemma next_log_ok:
  assumes ok: "log_ok W" and guard: "log_guard W (length facts) op time = STATUS_OK" and args: "op_args op facts time"
    and step: "next_log W facts op time = Inr W'" and id: "op = WINDOW_PUSH \<longrightarrow> event_id (host_view (hd facts)) = int (el_next W)"
  shows "log_ok W'"
proof (cases op)
  case WINDOW_PUSH
  then obtain f where f: "facts = [f]" using args by (cases facts) auto
  have "\<not> expires_by now time" if "el_now W = Some now" for now
    using guard that WINDOW_PUSH by (auto simp: log_guard_def expires_by_def split: if_splits option.splits)
  then show ?thesis using log_ok_push[OF ok] step id f WINDOW_PUSH by (auto simp: Let_def split: if_splits)
next
  case WINDOW_REPLACE_STATIC
  then show ?thesis using step by (intro log_ok_subset[OF ok, of W' "\<lambda>_. True"]) (auto simp: Let_def split: if_splits)
next
  case WINDOW_EXPIRE
  let ?K = "W'\<lparr>el_now := el_now W\<rparr>"
  have "log_ok ?K" using step WINDOW_EXPIRE by (intro log_ok_subset[OF ok]) auto
  then show ?thesis using step WINDOW_EXPIRE by (auto simp: log_ok_def)
qed

lemma log_update_ok:
  assumes ok: "log_ok W" and args: "op_args op facts time" and id: "op = WINDOW_PUSH \<longrightarrow> event_id (host_view (hd facts)) = int (el_next W)"
    and upd: "log_update rt s k old W facts op time = (rc, W', r, s')"
  shows "log_ok W'"
proof -
  consider "log_guard W (length facts) op time \<noteq> STATUS_OK" | "op = WINDOW_EXPIRE" "log_due W time = 0"
    | "log_guard W (length facts) op time = STATUS_OK" "\<not> (op = WINDOW_EXPIRE \<and> log_due W time = 0)" by metis
  then show ?thesis
  proof cases
    case 1
    then show ?thesis using upd ok by (simp add: log_update_def)
  next
    case 2
    then have "W' = W \<or> W' = W\<lparr>el_now := time\<rparr>" using upd by (simp add: log_update_def split: if_splits)
    moreover obtain t where "time = Some t" using args 2 by auto
    then have "log_ok (W\<lparr>el_now := time\<rparr>)" using ok 2 by (simp add: log_ok_def log_due_def filter_empty_conv)
    ultimately show ?thesis using ok by blast
  next
    case 3
    then have "W' = W \<or> next_log W facts op time = Inr W'"
      using upd by (simp add: log_update_def split: if_splits sum.splits prod.splits)
    then show ?thesis using ok next_log_ok[OF ok 3(1) args _ id] by blast
  qed
qed

lemma opened_window:
  assumes "window_init rt s n room options first a b stale = (Inr w, s')"
  shows "window_inv w \<and> log_window w = \<lparr>el_capacity = n, el_static_capacity = option_capacity options, el_room = room,
      el_timed = option_timed options, el_static = [], el_events = [], el_next = first, el_now = None\<rparr>"
proof -
  obtain edb r where edb: "input_edb_init (n + option_capacity options) room = Inr edb" and n: "0 < n" "first \<le> INT32_MAX"
    and w: "w = \<lparr>w_sessions = [a, b], w_inputs = [edb, edb], w_result = Some r, w_capacity = n,
      w_static_capacity = option_capacity options, w_static_count = 0,
      w_deadlines = (if option_timed options then [map (stale 0) [0..<n], map (stale 1) [0..<n]] else []),
      w_now = 0, w_has_now = False, w_next = first, w_active = 0, w_busy = False\<rparr>"
    using assms by (auto simp: window_init_def Let_def split: if_splits sum.splits prod.splits)
  have e: "input_inv edb" "input_edb_view edb = []" "ie_capacity edb = n + option_capacity options" "ie_text_capacity edb = room"
    using init_inv[OF edb] edb by (auto simp: input_edb_init_def Let_def split: if_splits)
  show ?thesis using e n by (simp add: w window_inv_def bank_ok_def active_input_def log_window_def event_deadlines_def)
qed

lemma update_keeps:
  assumes inv: "window_inv w" and ok: "log_ok (log_window w)" and args: "batch_ok facts" "op_args op facts time"
    and id: "op = WINDOW_PUSH \<longrightarrow> event_id (host_view (hd facts)) = int (w_next w)"
    and upd: "window_update rt s w facts op time = Some out"
  shows "window_inv (wr_window out) \<and> log_ok (log_window (wr_window out))"
proof -
  have id': "op = WINDOW_PUSH \<longrightarrow> event_id (host_view (hd facts)) = int (el_next (log_window w))" using id by (simp add: log_window_def)
  have m: "outcome_matches w op out
      (log_update rt s (w_sessions w ! (1 - w_active w)) (the (w_result w)) (log_window w) facts op time)"
    using update_refines[OF inv args, of rt s] upd by simp
  then have "log_update rt s (w_sessions w ! (1 - w_active w)) (the (w_result w)) (log_window w) facts op time =
      (wr_status out, log_window (wr_window out), the (w_result (wr_window out)), wr_state out)" unfolding outcome_matches_def by (elim conjE) (rule sym)
  from log_update_ok[OF ok args(2) id' this] show ?thesis using m by (simp add: outcome_matches_def)
qed

lemma closed_refuses:
  assumes "w_result w = None" shows "window_update rt s w facts op time = Some (refuse_update s w STATUS_INVALID_STATE)"
  using assms by (simp add: window_update_def update_guard_def window_readable_def)

lemma update_reaches:
  assumes "w_result w \<noteq> None \<longrightarrow> window_inv w \<and> log_ok (log_window w)" "batch_ok facts" "op_args op facts time"
    "op = WINDOW_PUSH \<longrightarrow> event_id (host_view (hd facts)) = int (w_next w)" "window_update rt s w facts op time = Some out"
  shows "w_result (wr_window out) \<noteq> None \<longrightarrow> window_inv (wr_window out) \<and> log_ok (log_window (wr_window out))"
  using assms update_keeps[of w facts op time rt s out] closed_refuses[of w rt s facts op time]
  by (cases "w_result w = None") (auto simp: refuse_update_def)

lemma reachable_inv: "reachable rt w \<Longrightarrow> w_result w \<noteq> None \<longrightarrow> window_inv w \<and> log_ok (log_window w)"
proof (induction rule: reachable.induct)
  case (opened s n room options first a b stale w s')
  then show ?case using opened_window[OF opened] by (simp add: log_ok_def)
next
  case (pushed w predicate vs s deadline out)
  let ?fact = "Input_fact (Some predicate) (VALUE_INTEGER (int (w_next w)) # vs)"
  have "batch_ok [?fact]" using pushed(2) by (simp add: batch_ok_def host_view_def fact_texts_def)
  moreover have "event_id (host_view ?fact) = int (w_next w)" by (simp add: event_id_def host_view_def)
  ultimately show ?case using update_reaches[OF pushed(4), of "[?fact]" WINDOW_PUSH deadline rt s out] pushed(3,4)
    by (auto simp: push_event_def refuse_update_def split: if_splits)
next
  case (expired w s now out)
  then show ?case by (intro update_reaches[of w "[]" WINDOW_EXPIRE "Some now" rt s]) (auto simp: window_expire_def batch_ok_def c_texts_def)
next
  case (replaced w facts s out)
  then show ?case by (intro update_reaches[of w facts WINDOW_REPLACE_STATIC None rt s]) (auto simp: window_replace_static_def)
next
  case (freed w s rc w' s')
  then show ?case by (auto simp: window_free_def Let_def split: if_splits prod.splits)
qed

text \<open>(C22) In every window a host can reach and has not closed, the window holds at most its capacity of events, the
  occurrence identifiers of the events are strictly increasing, not negative and below the cursor, at most 2^31, and no
  event is due at the watermark.\<close>

theorem reachable_window_events:
  assumes "reachable rt w" "w_result w \<noteq> None"
  shows "\<exists>events. window_events w = Inr events \<and> length events \<le> w_capacity w \<and> sorted_wrt (<) (map event_id events) \<and>
    (\<forall>f\<in>set events. 0 \<le> event_id f \<and> event_id f < int (w_next w)) \<and> w_next w \<le> 2 ^ 31 \<and>
    length (event_deadlines w) = length events \<and> (w_has_now w \<longrightarrow> (\<forall>d\<in>set (event_deadlines w). \<not> expires_by (w_now w) d))"
proof -
  have inv: "window_inv w" and ok: "log_ok (log_window w)" using reachable_inv[OF assms(1)] assms(2) by auto
  have log: "map fst (el_events (log_window w)) = stored_events w" "map snd (el_events (log_window w)) = event_deadlines w"
    using log_window_facts[OF inv] by simp_all
  have "map event_id (stored_events w) = map (event_id \<circ> fst) (el_events (log_window w))" unfolding log(1)[symmetric] by simp
  then have "sorted_wrt (<) (map event_id (stored_events w))" using ok by (simp add: log_ok_def)
  moreover have "\<forall>f\<in>set (stored_events w). 0 \<le> event_id f \<and> event_id f < int (w_next w)"
    unfolding log(1)[symmetric] using ok by (simp add: log_ok_def log_window_def[of w])
  moreover have "w_has_now w \<longrightarrow> (\<forall>d\<in>set (event_deadlines w). \<not> expires_by (w_now w) d)"
    unfolding log(2)[symmetric] using ok by (simp add: log_ok_def log_window_def[of w])
  moreover have "window_events w = Inr (stored_events w)" "length (stored_events w) \<le> w_capacity w" "w_next w \<le> 2 ^ 31"
    using inv by (auto simp: window_events_def when_readable_def window_readable_def window_inv_def INT32_MAX_def)
  ultimately show ?thesis using event_deadlines_length[OF inv] by (intro exI[of _ "stored_events w"] conjI)
qed

end
