(* ===== verification/Sample_Window.thy ===== *)
theory Sample_Window
  imports Window_Props
begin

text \<open>
  A window at work: a runtime whose sessions accept every input and answer with the facts they were given, and a window
  of two events that is opened with cursor 7 and takes one event.
\<close>

definition sample_runtime :: "(unit, nat, string input_fact list) runtime" where
  "sample_runtime = \<lparr>rt_fingerprint = (\<lambda>_ _. (STATUS_OK, ''f'')), rt_solve = (\<lambda>_ _ facts. (STATUS_OK, facts, ())),
     rt_free = (\<lambda>_ _. (STATUS_OK, ())), rt_commit = (\<lambda>_ _. ())\<rparr>"

definition sample_open :: "(status + (nat, string input_fact list) window) \<times> unit" where
  "sample_open = window_init sample_runtime () 2 40 (Some \<lparr>wo_static_fact_capacity = 2, wo_flags = 1\<rparr>) 7 0 1 (\<lambda>_ _. new_deadline None)"

definition sample_log :: event_log where
  "sample_log = \<lparr>el_capacity = 2, el_static_capacity = 2, el_room = 40, el_timed = True, el_static = [], el_events = [],
     el_next = 7, el_now = None\<rparr>"

definition sample_event :: host_fact where
  "sample_event = Input_fact (Some ''login'') [VALUE_INTEGER 7, VALUE_SYMBOL (Some ''bob'')]"

lemma sample_opened: "\<exists>w. sample_open = (Inr w, ()) \<and> window_inv w \<and> log_window w = sample_log"
proof -
  obtain e where e: "input_edb_init 4 40 = Inr e" using sample_init by blast
  have "\<exists>w. sample_open = (Inr w, ())"
    unfolding sample_open_def window_init_def
    by (simp add: e sample_runtime_def option_capacity_def bad_options_def WINDOW_EXPIRATION_def INT32_MAX_def)
  then obtain w where w: "sample_open = (Inr w, ())" by blast
  moreover have "window_inv w \<and> log_window w = sample_log" using opened_window[OF w[unfolded sample_open_def]]
    by (simp add: sample_log_def option_capacity_def option_timed_def WINDOW_EXPIRATION_def)
  ultimately show ?thesis by blast
qed

lemma sample_event_ok: "batch_ok [sample_event]"
  by (simp add: batch_ok_def sample_event_def c_texts_def host_view_def fact_texts_def)

lemma sample_step:
  "log_update sample_runtime () k old sample_log [sample_event] WINDOW_PUSH (Some 9) =
     (STATUS_OK, sample_log\<lparr>el_events := [(host_view sample_event, Some 9)], el_next := 8\<rparr>, [host_view sample_event], ())"
  by (simp add: log_update_def log_guard_def sample_log_def INT32_MAX_def kept_events_def admission_def log_facts_def
      sample_runtime_def sample_event_def log_add_def log_texts_def add_text_def text_size_def admit_text_def host_view_def retained_def
      MAX_TERMS_def MAX_STRING_BYTES_def)

theorem window_update_refines_witness:
  "\<exists>w out. sample_open = (Inr w, ()) \<and> window_update sample_runtime () w [sample_event] WINDOW_PUSH (Some 9) = Some out \<and>
     wr_status out = STATUS_OK \<and> wr_occurrence out = Some 7 \<and>
     el_events (log_window (wr_window out)) = [(host_view sample_event, Some 9)]"
proof -
  obtain w where w: "sample_open = (Inr w, ())" "window_inv w" "log_window w = sample_log" using sample_opened by blast
  have args: "op_args WINDOW_PUSH [sample_event] (Some 9)" by simp
  obtain out where out: "window_update sample_runtime () w [sample_event] WINDOW_PUSH (Some 9) = Some out"
    "outcome_matches w WINDOW_PUSH out
      (log_update sample_runtime () (w_sessions w ! (1 - w_active w)) (the (w_result w)) (log_window w) [sample_event] WINDOW_PUSH (Some 9))"
    using window_update_refines[OF w(2) sample_event_ok args, of sample_runtime "()"] by (elim exE conjE) (rule that)
  have "w_next w = 7" using w(3) by (simp add: log_window_def sample_log_def)
  moreover have "outcome_matches w WINDOW_PUSH out
      (STATUS_OK, sample_log\<lparr>el_events := [(host_view sample_event, Some 9)], el_next := 8\<rparr>, [host_view sample_event], ())"
    using out(2) unfolding w(3) sample_step .
  ultimately have "wr_status out = STATUS_OK \<and> wr_occurrence out = Some 7 \<and>
      el_events (log_window (wr_window out)) = [(host_view sample_event, Some 9)]" by (simp add: outcome_matches_def)
  then show ?thesis using w(1) out(1) by blast
qed

lemma sample_pushed:
  "\<exists>w out. sample_open = (Inr w, ()) \<and> push_event sample_runtime () w ''login'' [VALUE_SYMBOL (Some ''bob'')] (Some 9) = Some out \<and>
     outcome_matches w WINDOW_PUSH out
       (STATUS_OK, sample_log\<lparr>el_events := [(host_view sample_event, Some 9)], el_next := 8\<rparr>, [host_view sample_event], ())"
proof -
  obtain w where w: "sample_open = (Inr w, ())" "window_inv w" "log_window w = sample_log" using sample_opened by blast
  have args: "op_args WINDOW_PUSH [sample_event] (Some 9)" by simp
  have "w_next w = 7" using w(3) by (simp add: log_window_def sample_log_def)
  moreover have "window_readable w = STATUS_OK" using w(2) by (simp add: window_readable_def window_inv_def)
  ultimately have "push_event sample_runtime () w ''login'' [VALUE_SYMBOL (Some ''bob'')] (Some 9) =
      window_update sample_runtime () w [sample_event] WINDOW_PUSH (Some 9)"
    by (simp add: push_event_def sample_event_def MAX_TERMS_def)
  then show ?thesis using w(1) update_refines[OF w(2) sample_event_ok args, of sample_runtime "()"] unfolding w(3) sample_step by metis
qed

theorem reachable_window_events_witness:
  "\<exists>w events. reachable sample_runtime w \<and> window_events w = Inr events \<and> length events \<le> w_capacity w \<and>
     sorted_wrt (<) (map event_id events) \<and> w_next w = 8 \<and> map event_id events = [7]"
proof -
  obtain w out where w: "sample_open = (Inr w, ())"
    "push_event sample_runtime () w ''login'' [VALUE_SYMBOL (Some ''bob'')] (Some 9) = Some out"
    and m: "outcome_matches w WINDOW_PUSH out
       (STATUS_OK, sample_log\<lparr>el_events := [(host_view sample_event, Some 9)], el_next := 8\<rparr>, [host_view sample_event], ())"
    using sample_pushed by blast
  let ?w = "wr_window out"
  have "reachable sample_runtime w" using opened[OF w(1)[unfolded sample_open_def]] .
  moreover have "batch_ok [Input_fact (Some ''login'') [VALUE_SYMBOL (Some ''bob'')]]"
    by (simp add: batch_ok_def c_texts_def host_view_def fact_texts_def)
  ultimately have reach: "reachable sample_runtime ?w" using w(2) by (rule pushed)
  have inv: "window_inv ?w" and log: "log_window ?w = sample_log\<lparr>el_events := [(host_view sample_event, Some 9)], el_next := 8\<rparr>"
    using m by (auto simp: outcome_matches_def)
  have "w_result ?w \<noteq> None" using inv by (simp add: window_inv_def)
  from reachable_window_events[OF reach this] obtain events where ev: "window_events ?w = Inr events"
    "length events \<le> w_capacity ?w" "sorted_wrt (<) (map event_id events)" by blast
  have "window_readable ?w = STATUS_OK" using inv by (simp add: window_readable_def window_inv_def)
  then have "events = stored_events ?w" using ev(1) by (simp add: window_events_def when_readable_def)
  then have "map event_id events = [7]"
    using log_window_facts(1)[OF inv, symmetric] by (simp add: log sample_log_def sample_event_def event_id_def host_view_def)
  moreover have "w_next ?w = 8" using arg_cong[OF log, of el_next] by (simp add: log_window_def)
  ultimately show ?thesis using reach ev by (intro exI[of _ ?w] exI[of _ events] conjI)
qed

end
