(* ===== verification/Spec2Isabelle.thy ===== *)
theory Spec2Isabelle
  imports Sample_Validate Lexer_Props Sample_Parse Sample_Identity Sample_Window
begin

text \<open>
  A verification development of the Maelys Datalog engine: the path of a policy from its text to a decision.

  \<^bold>\<open>The program.\<close> A policy text is read by a lexer and a parser, which fill a ruleset: interned symbols, declared
  predicates, facts, rules and filter programs. Validation checks the ruleset and assigns strata; finalisation gives
  it an authority hash and a fingerprint. A host puts facts into an extensional database, the solver evaluates the
  rules over it stratum by stratum with semi-naive rounds, and queries read the result, from which a decision to allow
  or to deny is made. All state lives in fixed arrays whose bounds are checked before each write; the development uses
  the bounds of the default \<^verbatim>\<open>SMALL\<close> profile.

  \<^bold>\<open>Conventions.\<close> The prefixes \<^verbatim>\<open>maelys_\<close> and \<^verbatim>\<open>maelys_datalog_\<close> are dropped from names. An array with a used
  prefix is the list of that prefix, so its counter is the length. A result code with out parameters is a pair, or a sum
  with \<open>Inl\<close> the error. Machine words are words where overflow or bits matter (hashes, variable masks, flags, SHA-256,
  64-bit arithmetic with its overflow checks) and naturals where a bound is checked first. A loop that no bound of the
  code limits is a \<^verbatim>\<open>partial_function\<close>, so that not returning is the value \<open>None\<close>, and is then shown to return.
  Null arguments, allocation and release of memory are not modelled.

  \<^bold>\<open>Data structures.\<close>
  \<^item> \<open>Prelude\<close>, \<open>Core_Types\<close>: result codes, bounds, terms, facts, literals and rules
    (\<^verbatim>\<open>src/core/maelys_datalog_types.h\<close>), the two comparison functions and the locales \<open>three_way\<close> and
    \<open>canonical_cmp\<close> of what a sort asks of a comparison.
  \<^item> \<open>Introsort\<close> (\<^verbatim>\<open>maelys_datalog_sort_internal.h\<close>), \<open>Fact_Set\<close> (first part of \<^verbatim>\<open>maelys_datalog_edb.c\<close>): the sort
    returns a sorted permutation within its depth limit, sets are merged, searched and cut into predicate ranges.
  \<^item> \<open>Linear_Probing\<close>: open addressing, proved once in the locale \<open>probing\<close> and interpreted by \<open>Symbol_Table\<close>
    (\<^verbatim>\<open>maelys_datalog_symbol_table.c\<close>) and by the insertion index of \<open>Edb\<close> (\<^verbatim>\<open>maelys_datalog_edb.c\<close>). Interning and
    lookup are inverse and stable; insertion with and without the index agree; a batch is all or nothing.
  \<^item> \<open>Predicate_Registry\<close> (\<^verbatim>\<open>maelys_datalog_predicate_registry.c\<close>): declarations are found again and a frozen
    registry does not change. \<open>Filters\<close> (\<^verbatim>\<open>modules/standard/string_filters.c\<close>, \<^verbatim>\<open>maelys_datalog_filter.c\<close>): the
    standard filters are prefix, suffix and infix. \<open>Diagnostic\<close> (\<^verbatim>\<open>maelys_datalog_diagnostic.c\<close>): the internal record.

  \<^bold>\<open>Evaluation\<close> (\<^verbatim>\<open>src/core/maelys_datalog_solver.c\<close>).
  \<^item> \<open>Solver_State\<close>, \<open>Solver_Eval\<close>: the evaluation state, provenance, acceptance of a derived fact; bindings, matching,
    comparisons, arithmetic, filters, negation and aggregates. \<open>Aggregates\<close>: the collecting, sorting and skipping of
    the aggregate evaluators computes the count, sum and extrema of the group.
  \<^item> \<open>Join_Plan\<close>: a join order is a safe permutation, and one is found whenever one exists. \<open>Derive\<close>: applying a rule
    derives exactly the heads of the valuations that satisfy its body, in lexical order or in the order of any plan.
  \<^item> \<open>Solve\<close>, \<open>Fixpoint\<close>, \<open>Least_Model\<close>, \<open>Strata\<close>, \<open>Perfect_Model\<close>: the rounds of a stratum compute the least
    fixpoint of the immediate consequences, a positive program evaluates to its least model and a stratified one to its
    perfect model; a run that meets a bound fails instead.
  \<^item> \<open>Query\<close> (also \<^verbatim>\<open>maelys_datalog_query.c\<close>, \<^verbatim>\<open>maelys_datalog_decision.c\<close>): ground queries and enumerations read that
    model; access is allowed in full only for a permission with neither a denial nor a reduction, and a denial always denies.

  \<^bold>\<open>From text to ruleset.\<close>
  \<^item> \<open>Utf8\<close> (\<^verbatim>\<open>common/maelys_utf8.c\<close>), \<open>Lexer\<close>, \<open>Lexer_Spec\<close>, \<open>Lexer_Props\<close> (\<^verbatim>\<open>maelys_datalog_lexer.c\<close>): a token
    grammar, which the lexer reads exactly; positions, bounds, termination and the round trip of printed tokens.
  \<^item> \<open>Parser\<close>, \<open>Parser_Total\<close>, \<open>Parser_Frame\<close>, \<open>Parser_Bounds\<close>, \<open>Parser_Clause\<close> (\<^verbatim>\<open>maelys_datalog_parser.c\<close>): every
    call returns, a clause is published completely or not at all, programs stay within their arrays, and an accepted
    text is evaluated to the model of its rules.
  \<^item> \<open>Stratify\<close>, \<open>Validate\<close>, \<open>Safe_Rules\<close>, \<open>Validate_Sound\<close> (\<^verbatim>\<open>src/compiler/maelys_datalog_validate.c\<close>): the strata
    are the least ones and a refusal is justified by a cycle; an accepted program meets the hypotheses of the
    evaluation theorems; a refused one is never marked as validated.

  \<^bold>\<open>Identity.\<close>
  \<^item> \<open>Sha256\<close> (\<^verbatim>\<open>common/maelys_sha256.c\<close>): the incremental hash is SHA-256 for every division into pieces.
  \<^item> \<open>Fingerprint\<close> (\<^verbatim>\<open>src/compiler/maelys_datalog_program.c\<close>): the stream of a compiled program is a prefix code, built
    with the locale \<open>prefix_code\<close>, so the fingerprint identifies the contents up to collisions of SHA-256.
  \<^item> \<open>Canonical\<close> (\<^verbatim>\<open>maelys_datalog_ruleset_canonical.c\<close>): finalisation of a validated policy, and the one thing its
    authority hash does not distinguish, the kind of an aggregate.

  \<^item> \<open>Input_Edb\<close> (\<^verbatim>\<open>maelys_datalog_input_edb.c\<close>) is the store a host fills before it solves. \<open>Input_Log\<close> is what it promises,
    a bounded log of facts; \<open>Input_Index\<close> holds the hash index at rest and in the middle of a batch, \<open>Input_Steps\<close> the
    measuring and the copying of a batch as locales, which \<open>Input_Store\<close> interprets for the store without and with an
    index; \<open>Input_Refine\<close> puts the append together, and \<open>Input_Runs\<close> shows that no sequence of appends and clears
    can be told from the log (locale \<open>log_store\<close>).
  \<^item> \<open>Window\<close> (\<^verbatim>\<open>maelys_datalog_window.c\<close>) is the event window over two such stores. \<open>Window_Log\<close> says which batches a
    store admits, \<open>Window_Refine\<close> that a candidate bank holds the next log, and \<open>Window_Props\<close> that an update is all or
    nothing and refines the log, with the invariant of the reachable windows.

  \<open>Sample_Run\<close>, \<open>Sample_Stratified\<close>, \<open>Sample_Validate\<close>, \<open>Sample_Parse\<close>, \<open>Sample_Identity\<close> and \<open>Sample_Window\<close> apply the
  properties to small policies and windows, evaluated in the kernel.

  \<^bold>\<open>Bounds and fuel.\<close> Arithmetic expressions are evaluated with fuel one above the number of nodes, which suffices for
  every expression validation accepts; the relaxation of strata makes \<open>MAX_PREDICATES + 1\<close> passes as the code does; the
  rounds of a stratum are bounded by \<open>MAX_DEPTH\<close> as in the code, and a stratum that has not converged by then
  is a failure. No theorem assumes that a bound is large enough.

  \<^bold>\<open>Code outside the repository.\<close> Filters of an extension catalog and an external planner are function-valued fields of
  the catalog with arbitrary results; the guards around them are the repository's. The name of a selected planner is a
  parameter of \<open>Canonical\<close>. The solve, release and commit of the runtime are parameters of \<open>Window\<close>, of which nothing is
  assumed.

  \<^bold>\<open>Not modelled.\<close> Explanations and their formatting, the lowering of the public intermediate representation, prepared
  sessions and the runtime around them, windows of groups, the module and domain registries, manifests, the public API
  and its copies of diagnostics, the bindings, the command line and the test code. They handle memory, handles and text
  around the path described above; the modelled functions are the ones they call.
\<close>

end
